(* ===== verification/Prelude.thy ===== *)
theory Prelude
  imports Main "HOL-Library.Char_ord" "HOL-Library.Sublist"
begin

text \<open>
  Shared vocabulary of the development.

  Rust's \<open>str\<close> is a sequence of UTF-8 bytes, and the code indexes it by byte offset, so a
  string of the model is the list of its bytes: HOL's \<open>char\<close> is exactly one byte.  A Rust
  \<open>char\<close> is represented by the bytes that encode it (\<open>chars\<close> cuts a string into them), so
  \<open>len\<close>, offsets, \<open>starts_with\<close> and \<open>find\<close> agree with the program byte for byte.
  \<open>usize\<close> is \<open>nat\<close>: every value the modelled code computes is an offset, a length or a
  counter bounded by one, and Rust allocations stay below \<open>2 ^ 63\<close> bytes.

  The theory holds byte access (\<open>get\<close>, \<open>has\<close>), the loop shape the scanners share
  (\<open>scan_while\<close>), substring search, ASCII classification and case folding, UTF-8 with
  character boundaries, and Unicode-aware trimming.
\<close>

named_theorems boundary_intros "facts that establish character boundaries"
named_theorems scan_bounds "facts that bound the offset a scanner returns"

subsection \<open>Lists\<close>

lemma last_two:
  assumes "length xs = Suc (Suc n)"
  obtains ls a b where "xs = ls @ [a, b]"
proof -
  from assms obtain ys b where xs: "xs = ys @ [b]" by (cases xs rule: rev_cases) auto
  with assms obtain ls a where "ys = ls @ [a]" by (cases ys rule: rev_cases) auto
  with xs show thesis by (intro that [of ls a b]) simp
qed

subsection \<open>Bytes and access to them\<close>

type_synonym bytes = string

abbreviation byte :: "char \<Rightarrow> nat" where
  "byte c \<equiv> of_char c"

definition get :: "bytes \<Rightarrow> nat \<Rightarrow> char option" where
  "get bs i = (if i < length bs then Some (bs ! i) else None)"

definition has :: "bytes \<Rightarrow> nat \<Rightarrow> bytes \<Rightarrow> bool" where
  "has bs start lit \<longleftrightarrow> start + length lit \<le> length bs \<and> take (length lit) (drop start bs) = lit"

definition slice :: "bytes \<Rightarrow> nat \<Rightarrow> nat \<Rightarrow> bytes" where
  "slice bs i j = take (j - i) (drop i bs)"

definition starts_with :: "bytes \<Rightarrow> bytes \<Rightarrow> bool" where
  "starts_with s p \<longleftrightarrow> take (length p) s = p"

definition ends_with :: "bytes \<Rightarrow> bytes \<Rightarrow> bool" where
  "ends_with s p \<longleftrightarrow> starts_with (rev s) (rev p)"

definition strip_prefix :: "bytes \<Rightarrow> bytes \<Rightarrow> bytes option" where
  "strip_prefix p s = (if starts_with s p then Some (drop (length p) s) else None)"

definition strip_suffix :: "bytes \<Rightarrow> bytes \<Rightarrow> bytes option" where
  "strip_suffix p s = (if ends_with s p then Some (take (length s - length p) s) else None)"

lemma get_Some_iff: "get bs i = Some c \<longleftrightarrow> i < length bs \<and> bs ! i = c"
  by (auto simp: get_def)

lemma get_None_iff [simp]: "get bs i = None \<longleftrightarrow> length bs \<le> i"
  by (auto simp: get_def)

lemma starts_with_prefix: "starts_with s p \<longleftrightarrow> prefix p s"
proof
  assume "starts_with s p"
  then have "p = take (length p) s" by (simp add: starts_with_def)
  then show "prefix p s" by (metis take_is_prefix)
qed (auto simp: starts_with_def prefix_def)

lemma starts_with_append [simp]: "starts_with (p @ s) p"
  by (simp add: starts_with_def)

lemma starts_with_Nil [simp]: "starts_with s []"
  by (simp add: starts_with_def)

lemma starts_with_length: "starts_with s p \<Longrightarrow> length p \<le> length s"
  by (auto simp: starts_with_prefix prefix_length_le)

lemma starts_with_take: "starts_with s p \<Longrightarrow> p @ drop (length p) s = s"
  by (metis append_take_drop_id starts_with_def)

lemma starts_with_Cons [simp]:
  "starts_with (c # s) (d # p) \<longleftrightarrow> c = d \<and> starts_with s p"
  "\<not> starts_with [] (d # p)"
  by (auto simp: starts_with_def)

lemma has_iff: "has bs i lit \<longleftrightarrow> i + length lit \<le> length bs \<and> starts_with (drop i bs) lit"
  by (auto simp: has_def starts_with_def)

lemma has_length: "has bs i lit \<Longrightarrow> i + length lit \<le> length bs"
  by (simp add: has_def)

lemma has_nth: "has bs i lit \<Longrightarrow> k < length lit \<Longrightarrow> bs ! (i + k) = lit ! k"
  by (metis add_leD1 has_def nth_drop nth_take)

lemma has_0: "has bs i (c # lit) \<Longrightarrow> i < length bs \<and> bs ! i = c"
  using has_nth [of bs i "c # lit" 0] by (auto simp: has_def)

lemma slice_self [simp]: "slice bs i i = []"
  by (simp add: slice_def)

lemma length_slice: "j \<le> length bs \<Longrightarrow> length (slice bs i j) = j - i"
  by (auto simp: slice_def)

lemma slice_append: "i \<le> j \<Longrightarrow> j \<le> k \<Longrightarrow> slice bs i j @ slice bs j k = slice bs i k"
  unfolding slice_def
  by (smt (verit) add.commute diff_add drop_drop le_add_diff_inverse2 take_add Nat.add_diff_assoc2)

lemma slice_full [simp]: "slice bs 0 (length bs) = bs"
  by (simp add: slice_def)

subsection \<open>The scanning loop\<close>

text \<open>
  \<open>while end < bytes.len() && p(bytes[end]) { end += 1 }\<close> is the loop most of the
  scanners are made of.
\<close>

function scan_while :: "(char \<Rightarrow> bool) \<Rightarrow> bytes \<Rightarrow> nat \<Rightarrow> nat" where
  "scan_while p bs i = (if i < length bs \<and> p (bs ! i) then scan_while p bs (Suc i) else i)"
  by pat_completeness auto
termination by (relation "measure (\<lambda>(p, bs, i). length bs - i)") auto

declare scan_while.simps [simp del]

lemma scan_while_ge [scan_bounds]: "i \<le> scan_while p bs i"
proof (induction p bs i rule: scan_while.induct)
  case (1 p bs i)
  then show ?case by (auto simp: scan_while.simps [of p bs i])
qed

lemma scan_while_le [scan_bounds]: "i \<le> length bs \<Longrightarrow> scan_while p bs i \<le> length bs"
proof (induction p bs i rule: scan_while.induct)
  case (1 p bs i)
  then show ?case by (auto simp: scan_while.simps [of p bs i])
qed

lemma scan_while_all: "i \<le> k \<Longrightarrow> k < scan_while p bs i \<Longrightarrow> p (bs ! k)"
proof (induction p bs i rule: scan_while.induct)
  case (1 p bs i)
  show ?case
  proof (cases "i < length bs \<and> p (bs ! i)")
    case True
    with 1 show ?thesis
      by (cases "k = i") (auto simp: scan_while.simps [of p bs i])
  next
    case False
    with "1.prems" show ?thesis by (auto simp: scan_while.simps [of p bs i])
  qed
qed

lemma scan_while_stop: "scan_while p bs i < length bs \<Longrightarrow> \<not> p (bs ! scan_while p bs i)"
proof (induction p bs i rule: scan_while.induct)
  case (1 p bs i)
  then show ?case
    by (cases "i < length bs \<and> p (bs ! i)") (auto simp: scan_while.simps [of p bs i])
qed

lemma scan_while_step: "i < length bs \<Longrightarrow> p (bs ! i) \<Longrightarrow> Suc i \<le> scan_while p bs i"
  by (subst scan_while.simps) (simp add: scan_while_ge)

subsection \<open>Searching and splitting\<close>

fun find_sub :: "bytes \<Rightarrow> bytes \<Rightarrow> nat option" where
  "find_sub pat [] = (if pat = [] then Some 0 else None)"
| "find_sub pat (c # cs) =
     (if starts_with (c # cs) pat then Some 0 else map_option Suc (find_sub pat cs))"

definition contains_sub :: "bytes \<Rightarrow> bytes \<Rightarrow> bool" where
  "contains_sub s pat \<longleftrightarrow> find_sub pat s \<noteq> None"

fun split_once :: "char \<Rightarrow> bytes \<Rightarrow> (bytes \<times> bytes) option" where
  "split_once d [] = None"
| "split_once d (c # cs) =
     (if c = d then Some ([], cs) else map_option (\<lambda>(a, b). (c # a, b)) (split_once d cs))"

lemma find_sub_Some:
  "find_sub pat s = Some i \<Longrightarrow> i + length pat \<le> length s \<and> starts_with (drop i s) pat"
proof (induction pat s arbitrary: i rule: find_sub.induct)
  case (2 pat c cs)
  then show ?case
    using starts_with_length [of "c # cs" pat] by (auto split: if_splits)
qed (auto split: if_splits)

lemma find_sub_least:
  "find_sub pat s = Some i \<Longrightarrow> j < i \<Longrightarrow> \<not> starts_with (drop j s) pat"
proof (induction pat s arbitrary: i j rule: find_sub.induct)
  case (2 pat c cs)
  then show ?case by (cases j) (auto split: if_splits)
qed (auto split: if_splits)

lemma find_sub_None:
  "pat \<noteq> [] \<Longrightarrow> find_sub pat s = None \<longleftrightarrow> (\<forall>j. \<not> starts_with (drop j s) pat)"
proof (induction pat s rule: find_sub.induct)
  case (1 pat)
  then show ?case by (cases pat) auto
next
  case (2 pat c cs)
  then show ?case
    by (auto simp: drop_Cons' split: if_splits)
qed

lemma split_once_Some: "split_once d s = Some (a, b) \<longleftrightarrow> s = a @ d # b \<and> d \<notin> set a"
proof (induction d s arbitrary: a rule: split_once.induct)
  case (2 d c cs)
  then show ?case by (cases a) auto
qed simp

lemma split_once_None: "split_once d s = None \<longleftrightarrow> d \<notin> set s"
  by (induction d s rule: split_once.induct) auto

subsection \<open>ASCII\<close>

definition is_ascii :: "char \<Rightarrow> bool" where
  "is_ascii c \<longleftrightarrow> byte c < 128"

definition is_digit :: "char \<Rightarrow> bool" where
  "is_digit c \<longleftrightarrow> 48 \<le> byte c \<and> byte c \<le> 57"

definition is_upper :: "char \<Rightarrow> bool" where
  "is_upper c \<longleftrightarrow> 65 \<le> byte c \<and> byte c \<le> 90"

definition is_lower :: "char \<Rightarrow> bool" where
  "is_lower c \<longleftrightarrow> 97 \<le> byte c \<and> byte c \<le> 122"

definition is_alpha :: "char \<Rightarrow> bool" where
  "is_alpha c \<longleftrightarrow> is_upper c \<or> is_lower c"

definition is_alnum :: "char \<Rightarrow> bool" where
  "is_alnum c \<longleftrightarrow> is_alpha c \<or> is_digit c"

definition to_lower :: "char \<Rightarrow> char" where
  "to_lower c = (if is_upper c then char_of (byte c + 32) else c)"

definition to_ascii_lowercase :: "bytes \<Rightarrow> bytes" where
  "to_ascii_lowercase s = map to_lower s"

definition eq_ignore_ascii_case :: "bytes \<Rightarrow> bytes \<Rightarrow> bool" where
  "eq_ignore_ascii_case a b \<longleftrightarrow> to_ascii_lowercase a = to_ascii_lowercase b"

lemmas ascii_defs = is_ascii_def is_digit_def is_upper_def is_lower_def is_alpha_def is_alnum_def

lemma is_alnum_ascii: "is_alnum c \<Longrightarrow> is_ascii c"
  by (auto simp: ascii_defs)

lemma byte_to_lower: "byte (to_lower c) = (if is_upper c then byte c + 32 else byte c)"
  by (auto simp: to_lower_def is_upper_def of_char_of)

lemma to_lower_idem [simp]: "to_lower (to_lower c) = to_lower c"
  by (auto simp: to_lower_def is_upper_def of_char_of)

lemma to_ascii_lowercase_idem [simp]:
  "to_ascii_lowercase (to_ascii_lowercase s) = to_ascii_lowercase s"
  by (simp add: to_ascii_lowercase_def)

lemma eq_ignore_ascii_case_refl [simp]: "eq_ignore_ascii_case s s"
  by (simp add: eq_ignore_ascii_case_def)

lemma eq_ignore_ascii_case_sym: "eq_ignore_ascii_case s t \<longleftrightarrow> eq_ignore_ascii_case t s"
  by (auto simp: eq_ignore_ascii_case_def)

lemma eq_ignore_ascii_case_trans:
  "eq_ignore_ascii_case s t \<Longrightarrow> eq_ignore_ascii_case t u \<Longrightarrow> eq_ignore_ascii_case s u"
  by (simp add: eq_ignore_ascii_case_def)

lemma eq_ignore_lowercase [simp]: "eq_ignore_ascii_case (to_ascii_lowercase s) t \<longleftrightarrow> eq_ignore_ascii_case s t"
  by (simp add: eq_ignore_ascii_case_def)

subsection \<open>UTF-8\<close>

text \<open>
  \<open>utf8_char\<close> is the table of well-formed byte sequences of the Unicode standard.  \<open>chars\<close>
  cuts a string at its leading bytes; a string is valid UTF-8 when every piece is well formed.
  \<open>boundary\<close> is Rust's \<open>is_char_boundary\<close>: slicing a \<open>str\<close> anywhere else panics.
\<close>

definition is_cont :: "char \<Rightarrow> bool" where
  "is_cont c \<longleftrightarrow> 128 \<le> byte c \<and> byte c < 192"

definition utf8_width :: "char \<Rightarrow> nat" where
  "utf8_width c = (if byte c < 192 then 1 else if byte c < 224 then 2
                   else if byte c < 240 then 3 else 4)"

fun utf8_char :: "bytes \<Rightarrow> bool" where
  "utf8_char [a] = (byte a < 128)"
| "utf8_char [a, b] = (194 \<le> byte a \<and> byte a \<le> 223 \<and> is_cont b)"
| "utf8_char [a, b, c] =
     (is_cont b \<and> is_cont c \<and>
      (byte a = 224 \<and> 160 \<le> byte b \<or> 225 \<le> byte a \<and> byte a \<le> 236 \<or>
       byte a = 237 \<and> byte b \<le> 159 \<or> 238 \<le> byte a \<and> byte a \<le> 239))"
| "utf8_char [a, b, c, d] =
     (is_cont b \<and> is_cont c \<and> is_cont d \<and>
      (byte a = 240 \<and> 144 \<le> byte b \<or> 241 \<le> byte a \<and> byte a \<le> 243 \<or>
       byte a = 244 \<and> byte b \<le> 143))"
| "utf8_char _ = False"

function chars :: "bytes \<Rightarrow> bytes list" where
  "chars [] = []"
| "chars (c # cs) = take (utf8_width c) (c # cs) # chars (drop (utf8_width c - 1) cs)"
  by pat_completeness auto
termination by (relation "measure length") (auto simp: utf8_width_def)

definition valid_utf8 :: "bytes \<Rightarrow> bool" where
  "valid_utf8 s \<longleftrightarrow> list_all utf8_char (chars s)"

definition boundary :: "bytes \<Rightarrow> nat \<Rightarrow> bool" where
  "boundary s i \<longleftrightarrow> i = 0 \<or> i = length s \<or> (i < length s \<and> \<not> is_cont (s ! i))"

lemma utf8_width_pos: "0 < utf8_width c"
  by (simp add: utf8_width_def)

lemma concat_chars [simp]: "concat (chars s) = s"
proof (induction s rule: chars.induct)
  case (2 c cs)
  then show ?case
    using utf8_width_pos [of c] by (cases "utf8_width c") auto
qed simp

lemma chars_nonempty: "x \<in> set (chars s) \<Longrightarrow> x \<noteq> []"
proof (induction s rule: chars.induct)
  case (2 c cs)
  then show ?case using utf8_width_pos [of c] by auto
qed simp

lemma utf8_char_width: "utf8_char (c # cs) \<Longrightarrow> utf8_width c = Suc (length cs)"
  by (cases "c # cs" rule: utf8_char.cases) (auto simp: utf8_width_def)

lemma utf8_char_nonempty: "utf8_char x \<Longrightarrow> x \<noteq> []"
  by (cases x) auto

lemma utf8_char_head: "utf8_char (c # cs) \<Longrightarrow> \<not> is_cont c"
  by (cases "c # cs" rule: utf8_char.cases) (auto simp: is_cont_def)

lemma utf8_char_tail: "utf8_char (c # cs) \<Longrightarrow> d \<in> set cs \<Longrightarrow> is_cont d"
  by (cases "c # cs" rule: utf8_char.cases) auto

lemma chars_append_char: "utf8_char x \<Longrightarrow> chars (x @ s) = x # chars s"
proof (cases x)
  case (Cons c cs)
  assume "utf8_char x"
  with Cons have "utf8_width c = Suc (length cs)" by (auto dest: utf8_char_width)
  with Cons show ?thesis by simp
qed simp

lemma chars_ascii: "list_all is_ascii s \<Longrightarrow> chars s = map (\<lambda>c. [c]) s"
proof (induction s)
  case (Cons c s)
  then show ?case using chars_append_char [of "[c]" s] by (simp add: is_ascii_def)
qed simp

lemma valid_utf8_Nil [simp]: "valid_utf8 []"
  by (simp add: valid_utf8_def)

lemma valid_append_char: "utf8_char x \<Longrightarrow> valid_utf8 (x @ s) \<longleftrightarrow> valid_utf8 s"
  by (simp add: valid_utf8_def chars_append_char)

lemma valid_utf8_cases:
  assumes "valid_utf8 s" and "s \<noteq> []"
  obtains x t where "s = x @ t" and "utf8_char x" and "valid_utf8 t"
proof -
  from assms(2) obtain c cs where s: "s = c # cs" by (cases s) auto
  let ?x = "take (utf8_width c) (c # cs)" and ?t = "drop (utf8_width c - 1) cs"
  from assms(1) have "utf8_char ?x" "valid_utf8 ?t"
    by (auto simp: valid_utf8_def s)
  moreover have "s = ?x @ ?t"
    using utf8_width_pos [of c] s by (cases "utf8_width c") auto
  ultimately show ?thesis by (rule that [rotated 1])
qed

lemma valid_utf8_induct [consumes 1, case_names Nil char]:
  assumes "valid_utf8 s" and "P []"
    and "\<And>x t. utf8_char x \<Longrightarrow> valid_utf8 t \<Longrightarrow> P t \<Longrightarrow> P (x @ t)"
  shows "P s"
  using assms(1)
proof (induction "length s" arbitrary: s rule: less_induct)
  case less
  show ?case
  proof (cases "s = []")
    case False
    with less.prems obtain x t where x: "s = x @ t" "utf8_char x" "valid_utf8 t"
      by (rule valid_utf8_cases)
    then have "length t < length s" using utf8_char_nonempty by auto
    with less.hyps x assms(3) show ?thesis by blast
  qed (simp add: assms(2))
qed

lemma valid_utf8_append: "valid_utf8 s \<Longrightarrow> valid_utf8 (s @ t) \<longleftrightarrow> valid_utf8 t"
  by (induction s rule: valid_utf8_induct) (auto simp: valid_append_char)

lemma chars_append: "valid_utf8 s \<Longrightarrow> chars (s @ t) = chars s @ chars t"
  by (induction s rule: valid_utf8_induct) (auto simp: chars_append_char)

lemma valid_utf8_hd: "valid_utf8 s \<Longrightarrow> s \<noteq> [] \<Longrightarrow> \<not> is_cont (hd s)"
  by (erule (1) valid_utf8_cases) (metis hd_append2 list.exhaust_sel utf8_char_head utf8_char_nonempty)

lemma chars_concat: "list_all utf8_char cs \<Longrightarrow> chars (concat cs) = cs"
  by (induction cs) (auto simp: chars_append_char)

lemma valid_concat: "list_all utf8_char cs \<Longrightarrow> valid_utf8 (concat cs)"
  by (simp add: valid_utf8_def chars_concat)

text \<open>Cutting a valid string at a boundary leaves two valid strings.\<close>

lemma boundary_split:
  "valid_utf8 s \<Longrightarrow> boundary s i \<Longrightarrow> i \<le> length s \<Longrightarrow> valid_utf8 (take i s) \<and> valid_utf8 (drop i s)"
proof (induction s arbitrary: i rule: valid_utf8_induct)
  case (char x t)
  show ?case
  proof (cases "i < length x")
    case True
    have "i = 0"
    proof (rule ccontr)
      assume "i \<noteq> 0"
      with True obtain c cs where x: "x = c # cs" by (cases x) auto
      with True \<open>i \<noteq> 0\<close> have "cs ! (i - 1) \<in> set cs" by (cases i) auto
      with char.hyps(1) x have "is_cont (cs ! (i - 1))" by (auto dest: utf8_char_tail)
      with char.prems(1) True x \<open>i \<noteq> 0\<close> show False
        by (auto simp: boundary_def nth_append nth_Cons' split: if_splits)
    qed
    with char.hyps show ?thesis by (simp add: valid_append_char)
  next
    case False
    with char.prems have "boundary t (i - length x)" "i - length x \<le> length t"
      by (auto simp: boundary_def nth_append)
    from char.IH [OF this] char.hyps(1) False show ?thesis
      by (simp add: valid_append_char)
  qed
qed (simp add: boundary_def)

lemma boundary_at:
  assumes "valid_utf8 s" and "valid_utf8 (take i s)" and "i \<le> length s"
  shows "boundary s i"
proof (cases "i = length s")
  case False
  with assms have "valid_utf8 (drop i s)"
    by (metis append_take_drop_id valid_utf8_append)
  with False assms(3) have "\<not> is_cont (hd (drop i s))"
    by (intro valid_utf8_hd) auto
  with False assms(3) show ?thesis by (simp add: boundary_def hd_drop_conv_nth)
qed (simp add: boundary_def)

lemma boundary_0 [simp, boundary_intros]: "boundary s 0"
  by (simp add: boundary_def)

lemma boundary_length [simp, boundary_intros]: "boundary s (length s)"
  by (simp add: boundary_def)

lemma boundary_char:
  assumes "valid_utf8 s" and "boundary s i" and "drop i s = x @ t" and "utf8_char x"
  shows "boundary s (i + length x)"
proof -
  have i: "i \<le> length s"
  proof (rule ccontr)
    assume "\<not> i \<le> length s"
    with assms(3) have "x = []" by simp
    with assms(4) show False by simp
  qed
  from assms(1,2) i have v: "valid_utf8 (take i s)" "valid_utf8 (drop i s)"
    by (auto dest: boundary_split)
  have len: "i + length x \<le> length s"
    using arg_cong [OF assms(3), of length] i by simp
  have "take (i + length x) s = take i s @ x"
    by (simp add: take_add assms(3))
  moreover from assms(4) have "valid_utf8 x"
    using valid_append_char [of x "[]"] by simp
  ultimately have "valid_utf8 (take (i + length x) s)"
    using v(1) by (simp add: valid_utf8_append)
  with assms(1) len show ?thesis by (intro boundary_at)
qed

lemma boundary_ascii:
  assumes "valid_utf8 s" and "boundary s i" and "i < length s" and "is_ascii (s ! i)"
  shows "boundary s (Suc i)"
proof -
  have "utf8_char [s ! i]" using assms(4) by (simp add: is_ascii_def)
  moreover have "drop i s = [s ! i] @ drop (Suc i) s"
    using assms(3) by (simp add: Cons_nth_drop_Suc)
  ultimately have "boundary s (i + length [s ! i])"
    using boundary_char [OF assms(1,2)] by blast
  then show ?thesis by simp
qed

lemma boundary_of_ascii:
  assumes "i < length s" and "is_ascii (s ! i)"
  shows "boundary s i"
  using assms by (auto simp: boundary_def is_cont_def is_ascii_def)

lemma boundary_lit [boundary_intros]:
  "valid_utf8 s \<Longrightarrow> has s i lit \<Longrightarrow> list_all is_ascii lit \<Longrightarrow> boundary s i \<Longrightarrow> boundary s (i + length lit)"
proof (induction lit rule: rev_induct)
  case (snoc c lit)
  have i: "has s i lit" using snoc.prems(2)
    by (auto simp: has_def take_add dest: arg_cong [where f = "take (length lit)"])
  with snoc have b: "boundary s (i + length lit)" by simp
  have "s ! (i + length lit) = c"
    using has_nth [OF snoc.prems(2), of "length lit"] by simp
  moreover have "i + length lit < length s"
    using has_length [OF snoc.prems(2)] by simp
  ultimately show ?case
    using boundary_ascii [OF snoc.prems(1) b] snoc.prems(3) by simp
qed simp

lemma scan_while_boundary [boundary_intros]:
  assumes "valid_utf8 s" and "\<And>c. p c \<Longrightarrow> is_ascii c" and "boundary s i"
  shows "boundary s (scan_while p s i)"
  using assms(3,2,1)
proof (induction p s i rule: scan_while.induct)
  case (1 p s i)
  show ?case
  proof (cases "i < length s \<and> p (s ! i)")
    case True
    then have "boundary s (Suc i)"
      by (intro boundary_ascii "1.prems") auto
    with True "1.IH" "1.prems"(2,3) show ?thesis
      by (auto simp: scan_while.simps [of p s i])
  next
    case False
    with "1.prems"(1) show ?thesis by (auto simp: scan_while.simps [of p s i])
  qed
qed

subsection \<open>Trimming\<close>

text \<open>The code points with the Unicode property \<open>White_Space\<close>, by their UTF-8 bytes.\<close>

definition is_whitespace :: "bytes \<Rightarrow> bool" where
  "is_whitespace c \<longleftrightarrow> c \<in> set
     ([[CHR 0x09], [CHR 0x0A], [CHR 0x0B], [CHR 0x0C], [CHR 0x0D], [CHR 0x20],
       [CHR 0xC2, CHR 0x85], [CHR 0xC2, CHR 0xA0], [CHR 0xE1, CHR 0x9A, CHR 0x80],
       [CHR 0xE2, CHR 0x80, CHR 0x80], [CHR 0xE2, CHR 0x80, CHR 0x81],
       [CHR 0xE2, CHR 0x80, CHR 0x82], [CHR 0xE2, CHR 0x80, CHR 0x83],
       [CHR 0xE2, CHR 0x80, CHR 0x84], [CHR 0xE2, CHR 0x80, CHR 0x85],
       [CHR 0xE2, CHR 0x80, CHR 0x86], [CHR 0xE2, CHR 0x80, CHR 0x87],
       [CHR 0xE2, CHR 0x80, CHR 0x88], [CHR 0xE2, CHR 0x80, CHR 0x89],
       [CHR 0xE2, CHR 0x80, CHR 0x8A], [CHR 0xE2, CHR 0x80, CHR 0xA8],
       [CHR 0xE2, CHR 0x80, CHR 0xA9], [CHR 0xE2, CHR 0x80, CHR 0xAF],
       [CHR 0xE2, CHR 0x81, CHR 0x9F], [CHR 0xE3, CHR 0x80, CHR 0x80]])"

definition trim_start :: "bytes \<Rightarrow> bytes" where
  "trim_start s = concat (dropWhile is_whitespace (chars s))"

definition trim_end :: "bytes \<Rightarrow> bytes" where
  "trim_end s = concat (rev (dropWhile is_whitespace (rev (chars s))))"

definition trim :: "bytes \<Rightarrow> bytes" where
  "trim s = trim_end (trim_start s)"

definition trim_start_set :: "char set \<Rightarrow> bytes \<Rightarrow> bytes" where
  "trim_start_set cs s = dropWhile (\<lambda>c. c \<in> cs) s"

definition trim_end_set :: "char set \<Rightarrow> bytes \<Rightarrow> bytes" where
  "trim_end_set cs s = rev (dropWhile (\<lambda>c. c \<in> cs) (rev s))"

subsection \<open>Decimal numbers\<close>

text \<open>How \<open>format!\<close> prints an unsigned number, also padded with zeros to a width, and its value.\<close>

fun decimal :: "nat \<Rightarrow> bytes" where
  "decimal n = (if n < 10 then [char_of (48 + n)] else decimal (n div 10) @ [char_of (48 + n mod 10)])"

declare decimal.simps [simp del]

definition zero_padded :: "nat \<Rightarrow> nat \<Rightarrow> bytes" where
  "zero_padded width n = replicate (width - length (decimal n)) (CHR ''0'') @ decimal n"

definition decimal_value :: "bytes \<Rightarrow> nat" where
  "decimal_value digits = foldl (\<lambda>n c. 10 * n + (byte c - 48)) 0 digits"

lemma decimal_ascii: "list_all is_ascii (decimal n)"
proof (induction n rule: decimal.induct)
  case (1 n)
  then show ?case by (subst decimal.simps) (auto simp: is_ascii_def [abs_def])
qed

lemma digit_byte: "n < 10 \<Longrightarrow> byte (char_of (48 + n)) = (48 + n :: nat)"
  by simp

lemma decimal_digits: "list_all is_digit (decimal n)"
proof (induction n rule: decimal.induct)
  case (1 n)
  then show ?case by (subst decimal.simps) (auto simp: is_digit_def [abs_def])
qed

lemma decimal_not_empty: "decimal n \<noteq> []"
  by (subst decimal.simps) simp

lemma decimal_value_snoc: "decimal_value (ds @ [c]) = 10 * decimal_value ds + (byte c - 48)"
  by (simp add: decimal_value_def)

lemma decimal_value_decimal: "decimal_value (decimal n) = n"
proof (induction n rule: decimal.induct)
  case (1 n)
  show ?case
  proof (cases "n < 10")
    case True
    then show ?thesis by (subst decimal.simps) (simp add: decimal_value_def)
  next
    case False
    with 1 show ?thesis by (subst decimal.simps) (simp add: decimal_value_snoc)
  qed
qed

lemma decimal_value_zeros: "decimal_value (replicate k (CHR ''0'') @ ds) = decimal_value ds"
  by (induction k) (simp_all add: decimal_value_def)

lemma zero_padded_value: "decimal_value (zero_padded width n) = n"
  by (simp add: zero_padded_def decimal_value_zeros decimal_value_decimal)

lemma zero_padded_inj: "zero_padded width m = zero_padded width n \<longleftrightarrow> m = n"
  by (metis zero_padded_value)

lemma zero_padded_digits: "list_all is_digit (zero_padded width n)"
  using decimal_digits by (auto simp: zero_padded_def list_all_iff is_digit_def)

lemma length_decimal_two: "n < 100 \<Longrightarrow> length (decimal n) \<le> 2"
  by (subst decimal.simps) (subst decimal.simps, simp)

lemma length_zero_padded_two: "n < 100 \<Longrightarrow> length (zero_padded 2 n) = 2"
  using length_decimal_two [of n] by (simp add: zero_padded_def)

end
