(* ===== verification/Non_Empty_Vec.thy ===== *)
theory Non_Empty_Vec
  imports Prelude
begin

text \<open>
  \<open>src/src/non_empty_vec.rs\<close>: a vector that always has a first element.  The operations that
  return a mutable reference (\<open>first_mut\<close>, \<open>last_mut\<close>) are modelled by the update they are
  used for.  The contract its clients rely on is the locale \<open>layer_stack\<close>, stated over the
  list of all elements, first to last.
\<close>

record 'a non_empty_vec =
  nev_first :: 'a
  nev_others :: "'a list"

definition nev_new :: "'a \<Rightarrow> 'a non_empty_vec" where
  "nev_new x = \<lparr>nev_first = x, nev_others = []\<rparr>"

definition nev_last :: "'a non_empty_vec \<Rightarrow> 'a" where
  "nev_last v = (if nev_others v = [] then nev_first v else last (nev_others v))"

definition nev_len :: "'a non_empty_vec \<Rightarrow> nat" where
  "nev_len v = length (nev_others v) + 1"

definition nev_is_single :: "'a non_empty_vec \<Rightarrow> bool" where
  "nev_is_single v \<longleftrightarrow> nev_others v = []"

definition nev_set_first :: "'a \<Rightarrow> 'a non_empty_vec \<Rightarrow> 'a non_empty_vec" where
  "nev_set_first x v = v\<lparr>nev_first := x\<rparr>"

definition nev_map_last :: "('a \<Rightarrow> 'a) \<Rightarrow> 'a non_empty_vec \<Rightarrow> 'a non_empty_vec" where
  "nev_map_last f v =
     (if nev_others v = [] then v\<lparr>nev_first := f (nev_first v)\<rparr>
      else v\<lparr>nev_others := butlast (nev_others v) @ [f (last (nev_others v))]\<rparr>)"

definition nev_push :: "'a \<Rightarrow> 'a non_empty_vec \<Rightarrow> 'a non_empty_vec" where
  "nev_push x v = v\<lparr>nev_others := nev_others v @ [x]\<rparr>"

definition nev_pop :: "'a non_empty_vec \<Rightarrow> ('a \<times> 'a non_empty_vec) option" where
  "nev_pop v =
     (if nev_others v = [] then None
      else Some (last (nev_others v), v\<lparr>nev_others := butlast (nev_others v)\<rparr>))"

definition nev_to_pair :: "'a non_empty_vec \<Rightarrow> 'a \<times> 'a list" where
  "nev_to_pair v = (nev_first v, nev_others v)"

definition nev_to_list :: "'a non_empty_vec \<Rightarrow> 'a list" where
  "nev_to_list v = nev_first v # nev_others v"

subsection \<open>The contract\<close>

locale layer_stack =
  fixes new :: "'a \<Rightarrow> 'v"
    and top :: "'v \<Rightarrow> 'a"
    and bottom :: "'v \<Rightarrow> 'a"
    and size_of :: "'v \<Rightarrow> nat"
    and single :: "'v \<Rightarrow> bool"
    and set_bottom :: "'a \<Rightarrow> 'v \<Rightarrow> 'v"
    and map_top :: "('a \<Rightarrow> 'a) \<Rightarrow> 'v \<Rightarrow> 'v"
    and push_layer :: "'a \<Rightarrow> 'v \<Rightarrow> 'v"
    and pop_layer :: "'v \<Rightarrow> ('a \<times> 'v) option"
    and layers :: "'v \<Rightarrow> 'a list"
  assumes layers_new: "layers (new x) = [x]"
    and layers_nonempty: "layers v \<noteq> []"
    and layers_inj: "layers v = layers w \<Longrightarrow> v = w"
    and top_layers: "top v = last (layers v)"
    and bottom_layers: "bottom v = hd (layers v)"
    and size_layers: "size_of v = length (layers v)"
    and single_layers: "single v \<longleftrightarrow> length (layers v) = 1"
    and layers_set_bottom: "layers (set_bottom x v) = x # tl (layers v)"
    and layers_map_top: "layers (map_top f v) = butlast (layers v) @ [f (last (layers v))]"
    and layers_push: "layers (push_layer x v) = layers v @ [x]"
    and pop_None: "pop_layer v = None \<longleftrightarrow> length (layers v) = 1"
    and pop_Some: "pop_layer v = Some (x, w) \<Longrightarrow> layers v = layers w @ [x]"
begin

lemma pop_push [simp]: "pop_layer (push_layer x v) = Some (x, v)"
proof -
  have "pop_layer (push_layer x v) \<noteq> None"
    using layers_nonempty [of v] by (simp add: pop_None layers_push)
  then obtain y w where *: "pop_layer (push_layer x v) = Some (y, w)" by auto
  from pop_Some [OF *] have "y = x" "layers w = layers v" by (auto simp: layers_push)
  with * show ?thesis by (auto dest: layers_inj)
qed

lemma pop_if_two:
  assumes "layers v = ls @ [x, y]"
  obtains w where "pop_layer v = Some (y, w)" and "layers w = ls @ [x]"
proof -
  from assms have "pop_layer v \<noteq> None" by (simp add: pop_None)
  then obtain y' w where *: "pop_layer v = Some (y', w)" by auto
  from pop_Some [OF *] assms have "y' = y" "layers w = ls @ [x]" by auto
  with * show thesis by (auto intro: that)
qed

lemma push_not_single [simp]: "\<not> single (push_layer x v)"
  using layers_nonempty [of v] by (simp add: single_layers layers_push)

lemma top_push [simp]: "top (push_layer x v) = x"
  by (simp add: top_layers layers_push)

lemma size_pos: "0 < size_of v"
  using layers_nonempty [of v] by (simp add: size_layers)

lemma single_split: "single v \<Longrightarrow> layers v = [bottom v]"
  by (cases "layers v") (auto simp: single_layers bottom_layers)

lemma layers_split:
  obtains ls where "layers v = ls @ [top v]"
  using layers_nonempty [of v] by (metis append_butlast_last_id top_layers)

end

lemmas nev_defs = nev_new_def nev_last_def nev_len_def nev_is_single_def nev_set_first_def
  nev_map_last_def nev_push_def nev_pop_def nev_to_list_def

interpretation nev: layer_stack nev_new nev_last nev_first nev_len nev_is_single nev_set_first
  nev_map_last nev_push nev_pop nev_to_list
proof
  fix v w :: "'a non_empty_vec" and x f
  show "nev_pop v = Some (x, w) \<Longrightarrow> nev_to_list v = nev_to_list w @ [x]"
    by (auto simp: nev_defs split: if_splits)
  show "nev_pop v = None \<longleftrightarrow> length (nev_to_list v) = 1"
    by (auto simp: nev_defs)
qed (auto simp: nev_defs last.simps butlast.simps)

end
