(* ===== verification/Depth.thy ===== *)
theory Depth
  imports Non_Empty_Vec
begin

text \<open>
  \<open>src/src/parsing/depth.rs\<close>: lists and blockquotes are parsed into lines that carry a depth
  and a list type; \<open>process_depths\<close> turns them into nested trees with a stack of open layers.
  A panic (\<open>expect("No depth to pop off!")\<close>) is the value \<open>None\<close>.
\<close>

datatype ('l, 't) depth_item = Item 't | DList 'l "('l, 't) depth_item list"

type_synonym ('l, 't) depth_list = "('l, 't) depth_item list"

record ('l, 't) depth_stack =
  finished :: "('l \<times> ('l, 't) depth_list) list"
  stack :: "('l \<times> ('l, 't) depth_list) non_empty_vec"

definition depth_new :: "'l \<Rightarrow> ('l, 't) depth_stack" where
  "depth_new top_ltype = \<lparr>finished = [], stack = nev_new (top_ltype, [])\<rparr>"

definition increase_depth :: "'l \<Rightarrow> ('l, 't) depth_stack \<Rightarrow> ('l, 't) depth_stack" where
  "increase_depth ltype s = s\<lparr>stack := nev_push (ltype, []) (stack s)\<rparr>"

definition depth_push :: "('l, 't) depth_item \<Rightarrow> ('l, 't) depth_stack \<Rightarrow> ('l, 't) depth_stack" where
  "depth_push item s = s\<lparr>stack := nev_map_last (\<lambda>(l, xs). (l, xs @ [item])) (stack s)\<rparr>"

definition push_item :: "'t \<Rightarrow> ('l, 't) depth_stack \<Rightarrow> ('l, 't) depth_stack" where
  "push_item item s = depth_push (Item item) s"

definition last_type :: "('l, 't) depth_stack \<Rightarrow> 'l" where
  "last_type s = fst (nev_last (stack s))"

definition decrease_depth :: "('l, 't) depth_stack \<Rightarrow> ('l, 't) depth_stack option" where
  "decrease_depth s =
     (case nev_pop (stack s) of
        None \<Rightarrow> None
      | Some ((ltype, list), rest) \<Rightarrow> Some (depth_push (DList ltype list) (s\<lparr>stack := rest\<rparr>)))"

fun iterate :: "nat \<Rightarrow> ('s \<Rightarrow> 's option) \<Rightarrow> 's \<Rightarrow> 's option" where
  "iterate 0 f s = Some s"
| "iterate (Suc n) f s = (case f s of None \<Rightarrow> None | Some s' \<Rightarrow> iterate n f s')"

definition finish_depth_list ::
  "'l option \<Rightarrow> ('l, 't) depth_stack \<Rightarrow> ('l, 't) depth_stack option" where
  "finish_depth_list new_ltype s =
     (case iterate (nev_len (stack s) - 1) decrease_depth s of
        None \<Rightarrow> None
      | Some s' \<Rightarrow>
          let new_ltype = (case new_ltype of None \<Rightarrow> fst (nev_first (stack s')) | Some l \<Rightarrow> l);
              (ltype, list) = nev_first (stack s');
              s'' = s'\<lparr>stack := nev_set_first (new_ltype, []) (stack s')\<rparr>
          in Some (if list \<noteq> [] then s''\<lparr>finished := finished s'' @ [(ltype, list)]\<rparr> else s''))"

definition new_list :: "'l \<Rightarrow> ('l, 't) depth_stack \<Rightarrow> ('l, 't) depth_stack option" where
  "new_list ltype s =
     (if nev_is_single (stack s) then finish_depth_list (Some ltype) s
      else map_option (increase_depth ltype) (decrease_depth s))"

definition into_trees ::
  "('l, 't) depth_stack \<Rightarrow> ('l \<times> ('l, 't) depth_list) list option" where
  "into_trees s = map_option finished (finish_depth_list None s)"

text \<open>One round of the loop of \<open>process_depths\<close>, then the loop.\<close>

definition process_one ::
  "nat \<Rightarrow> nat \<times> 'l \<times> 't \<Rightarrow> ('l, 't) depth_stack \<Rightarrow> ('l, 't) depth_stack option" where
  "process_one previous line s =
     (case line of (depth, ltype, item) \<Rightarrow>
        case iterate (depth - previous) (\<lambda>s. Some (increase_depth ltype s)) s of
          None \<Rightarrow> None
        | Some s1 \<Rightarrow>
          (case iterate (previous - depth) decrease_depth s1 of
             None \<Rightarrow> None
           | Some s2 \<Rightarrow>
             (case (if last_type s2 \<noteq> ltype then new_list ltype s2 else Some s2) of
                None \<Rightarrow> None
              | Some s3 \<Rightarrow> Some (push_item item s3))))"

fun process_loop ::
  "nat \<Rightarrow> (nat \<times> 'l \<times> 't) list \<Rightarrow> ('l, 't) depth_stack \<Rightarrow> ('l, 't) depth_stack option" where
  "process_loop previous [] s = Some s"
| "process_loop previous (line # lines) s =
     (case process_one previous line s of
        None \<Rightarrow> None
      | Some s' \<Rightarrow> process_loop (fst line) lines s')"

definition process_depths ::
  "'l \<Rightarrow> (nat \<times> 'l \<times> 't) list \<Rightarrow> ('l \<times> ('l, 't) depth_list) list option" where
  "process_depths top_ltype items =
     (case process_loop 0 items (depth_new top_ltype) of
        None \<Rightarrow> None
      | Some s \<Rightarrow> into_trees s)"

subsection \<open>The specification: reading the lines back off the trees\<close>

fun flat_item :: "nat \<Rightarrow> 'l \<Rightarrow> ('l, 't) depth_item \<Rightarrow> (nat \<times> 'l \<times> 't) list" where
  "flat_item d l (Item x) = [(d, l, x)]"
| "flat_item d l (DList l' xs) = concat (map (flat_item (Suc d) l') xs)"

definition flat_layer :: "nat \<Rightarrow> 'l \<times> ('l, 't) depth_list \<Rightarrow> (nat \<times> 'l \<times> 't) list" where
  "flat_layer d layer = concat (map (flat_item d (fst layer)) (snd layer))"

definition flatten_trees :: "('l \<times> ('l, 't) depth_list) list \<Rightarrow> (nat \<times> 'l \<times> 't) list" where
  "flatten_trees trees = concat (map (flat_layer 0) trees)"

fun flat_layers :: "nat \<Rightarrow> ('l \<times> ('l, 't) depth_list) list \<Rightarrow> (nat \<times> 'l \<times> 't) list" where
  "flat_layers d [] = []"
| "flat_layers d (layer # rest) = flat_layer d layer @ flat_layers (Suc d) rest"

definition flat_stack :: "('l, 't) depth_stack \<Rightarrow> (nat \<times> 'l \<times> 't) list" where
  "flat_stack s = flatten_trees (finished s) @ flat_layers 0 (nev_to_list (stack s))"

text \<open>No empty list is ever left in a tree.\<close>

fun tidy_item :: "('l, 't) depth_item \<Rightarrow> bool" where
  "tidy_item (Item x) = True"
| "tidy_item (DList l xs) = (xs \<noteq> [] \<and> list_all tidy_item xs)"

definition tidy_trees :: "('l \<times> ('l, 't) depth_list) list \<Rightarrow> bool" where
  "tidy_trees ts \<longleftrightarrow> list_all (\<lambda>(l, xs). xs \<noteq> [] \<and> list_all tidy_item xs) ts"

subsection \<open>Every operation keeps what has been read\<close>

abbreviation layers_of :: "('l, 't) depth_stack \<Rightarrow> ('l \<times> ('l, 't) depth_list) list" where
  "layers_of s \<equiv> nev_to_list (stack s)"

definition tidy_layers :: "('l, 't) depth_stack \<Rightarrow> bool" where
  "tidy_layers s \<longleftrightarrow> list_all (\<lambda>(l, xs). list_all tidy_item xs) (layers_of s) \<and> tidy_trees (finished s)"

definition top_filled :: "('l, 't) depth_stack \<Rightarrow> bool" where
  "top_filled s \<longleftrightarrow> (length (layers_of s) = 1 \<or> snd (last (layers_of s)) \<noteq> [])"

definition keeps :: "('l, 't) depth_stack \<Rightarrow> ('l, 't) depth_stack \<Rightarrow> bool" where
  "keeps s t \<longleftrightarrow> flat_stack t = flat_stack s \<and> (tidy_layers s \<and> top_filled s \<longrightarrow> tidy_layers t)"

lemma flat_layers_append:
  "flat_layers d (ls @ ms) = flat_layers d ls @ flat_layers (d + length ls) ms"
  by (induction ls arbitrary: d) auto

lemma flat_layer_snoc:
  "flat_layer d (l, xs @ [x]) = flat_layer d (l, xs) @ flat_item d l x"
  by (simp add: flat_layer_def)

lemma flat_item_DList: "flat_item d l (DList l' xs) = flat_layer (Suc d) (l', xs)"
  by (simp add: flat_layer_def)

lemma tidy_trees_snoc:
  "tidy_trees (ts @ [(l, xs)]) \<longleftrightarrow> tidy_trees ts \<and> xs \<noteq> [] \<and> list_all tidy_item xs"
  by (simp add: tidy_trees_def)

lemma layers_depth_push:
  "layers_of s = ls @ [(l, xs)] \<Longrightarrow> layers_of (depth_push x s) = ls @ [(l, xs @ [x])]"
  by (simp add: depth_push_def nev.layers_map_top butlast_append)

lemma finished_depth_push [simp]: "finished (depth_push x s) = finished s"
  by (simp add: depth_push_def)

lemma layers_increase [simp]: "layers_of (increase_depth l s) = layers_of s @ [(l, [])]"
  by (simp add: increase_depth_def nev.layers_push)

lemma finished_increase [simp]: "finished (increase_depth l s) = finished s"
  by (simp add: increase_depth_def)

lemma last_type_layers: "last_type s = fst (last (layers_of s))"
  by (simp add: last_type_def nev.top_layers)

lemma decrease_depth_layers:
  assumes "layers_of s = ls @ [(l, xs), (l', ys)]"
  obtains t where "decrease_depth s = Some t" and "layers_of t = ls @ [(l, xs @ [DList l' ys])]"
    and "finished t = finished s"
proof -
  from assms obtain w where w: "nev_pop (stack s) = Some ((l', ys), w)" "nev_to_list w = ls @ [(l, xs)]"
    by (rule nev.pop_if_two)
  let ?t = "depth_push (DList l' ys) (s\<lparr>stack := w\<rparr>)"
  have "decrease_depth s = Some ?t" by (simp add: decrease_depth_def w)
  moreover have "layers_of ?t = ls @ [(l, xs @ [DList l' ys])]"
    by (rule layers_depth_push) (simp add: w)
  ultimately show thesis by (rule that) simp
qed

text \<open>What one closing of a layer keeps.\<close>

lemma decrease_depth_step:
  assumes "length (layers_of s) = Suc (Suc n)"
  obtains t where "decrease_depth s = Some t" and "length (layers_of t) = Suc n"
    and "keeps s t" and "top_filled t"
proof -
  from assms obtain ls a b where "layers_of s = ls @ [a, b]"
    by (rule last_two)
  then obtain l xs l' ys where ls: "layers_of s = ls @ [(l, xs), (l', ys)]"
    by (cases a; cases b) auto
  then obtain t where t: "decrease_depth s = Some t"
    "layers_of t = ls @ [(l, xs @ [DList l' ys])]" "finished t = finished s"
    by (rule decrease_depth_layers)
  show thesis
  proof (rule that [OF t(1)])
    show "length (layers_of t) = Suc n" using assms ls t(2) by simp
    have "flat_stack t = flat_stack s"
      using ls t(2,3) by (simp add: flat_stack_def flat_layers_append flat_layer_snoc flat_layer_def)
    moreover have "tidy_layers t" if "tidy_layers s" "top_filled s"
      using that ls t(2,3) by (simp add: tidy_layers_def top_filled_def)
    ultimately show "keeps s t" by (simp add: keeps_def)
    show "top_filled t" using t(2) by (simp add: top_filled_def)
  qed
qed

lemma decrease_depth_iterate:
  assumes "n < length (layers_of s)"
  obtains t where "iterate n decrease_depth s = Some t"
    and "length (layers_of t) = length (layers_of s) - n"
    and "keeps s t" and "top_filled s \<longrightarrow> top_filled t"
  using assms
proof (induction n arbitrary: s thesis)
  case (Suc n)
  then obtain m where m: "length (layers_of s) = Suc (Suc m)"
    by (metis Suc_less_eq2 less_Suc_eq_0_disj less_nat_zero_code not0_implies_Suc)
  then obtain s' where s': "decrease_depth s = Some s'" "length (layers_of s') = Suc m"
    "keeps s s'" "top_filled s'"
    by (rule decrease_depth_step)
  from Suc.prems(2) m s'(2) have "n < length (layers_of s')" by simp
  from Suc.IH [OF _ this] obtain t where t: "iterate n decrease_depth s' = Some t"
    "length (layers_of t) = length (layers_of s') - n" "keeps s' t" "top_filled s' \<longrightarrow> top_filled t"
    by metis
  show ?case
    by (rule Suc.prems(1) [of t]) (use s' t m in \<open>simp_all add: keeps_def\<close>)
qed (simp add: keeps_def)

lemma finish_depth_list_step:
  obtains t where "finish_depth_list nl s = Some t" and "length (layers_of t) = 1"
    and "flatten_trees (finished t) = flat_stack s"
    and "nl = None \<or> nl = Some (last_type t)" and "keeps s t"
proof -
  have len: "nev_len (stack s) = length (layers_of s)" by (rule nev.size_layers)
  have "nev_len (stack s) - 1 < length (layers_of s)"
    using nev.size_pos [of "stack s"] len by simp
  then obtain u where u: "iterate (nev_len (stack s) - 1) decrease_depth s = Some u"
    "length (layers_of u) = length (layers_of s) - (nev_len (stack s) - 1)"
    "keeps s u"
    by (rule decrease_depth_iterate)
  from u(2) len have "length (layers_of u) = 1"
    using nev.size_pos [of "stack s"] by simp
  then obtain l xs where ls: "layers_of u = [(l, xs)]"
    by (metis One_nat_def length_0_conv length_Suc_conv surj_pair)
  then have first: "nev_first (stack u) = (l, xs)" by (simp add: nev.bottom_layers)
  define nt where "nt = (case nl of None \<Rightarrow> l | Some l' \<Rightarrow> l')"
  let ?v = "u\<lparr>stack := nev_set_first (nt, []) (stack u)\<rparr>"
  let ?t = "if xs \<noteq> [] then ?v\<lparr>finished := finished u @ [(l, xs)]\<rparr> else ?v"
  have "finish_depth_list nl s = Some ?t"
    using u(1) by (cases nl) (simp_all add: finish_depth_list_def first nt_def Let_def)
  moreover have lt: "layers_of ?t = [(nt, [])]"
    by (simp add: nev.layers_set_bottom ls)
  moreover have f: "flat_stack ?t = flat_stack s" "flatten_trees (finished ?t) = flat_stack s"
    using u(3) lt ls
    by (simp_all add: keeps_def flat_stack_def flatten_trees_def flat_layer_def split: if_splits)
  moreover have "nl = None \<or> nl = Some (last_type ?t)"
    using lt by (cases nl) (simp_all add: last_type_layers nt_def)
  moreover have "keeps s ?t"
    using f u(3) lt ls by (simp add: keeps_def tidy_layers_def tidy_trees_snoc)
  ultimately show thesis using that [of ?t] by simp
qed

lemma new_list_step:
  obtains t where "new_list l s = Some t" and "length (layers_of t) = length (layers_of s)"
    and "keeps s t" and "last_type t = l"
proof (cases "nev_is_single (stack s)")
  case True
  obtain t where t: "finish_depth_list (Some l) s = Some t" "length (layers_of t) = 1"
    "Some l = None \<or> Some l = Some (last_type t)" "keeps s t"
    by (rule finish_depth_list_step)
  with True show thesis
    by (intro that [of t]) (auto simp: new_list_def nev.single_layers)
next
  case False
  then obtain n where n: "length (layers_of s) = Suc (Suc n)"
    using nev.layers_nonempty [of "stack s"]
    by (cases "layers_of s" rule: list.exhaust; cases "tl (layers_of s)")
       (auto simp: nev.single_layers)
  then obtain u where u: "decrease_depth s = Some u" "length (layers_of u) = Suc n"
    "keeps s u" "top_filled u"
    by (rule decrease_depth_step)
  show thesis
  proof (rule that)
    show "new_list l s = Some (increase_depth l u)" using False u(1) by (simp add: new_list_def)
    show "length (layers_of (increase_depth l u)) = length (layers_of s)" using u(2) n by simp
    show "keeps s (increase_depth l u)"
      using u(3) by (simp add: keeps_def flat_stack_def tidy_layers_def flat_layers_append flat_layer_def)
    show "last_type (increase_depth l u) = l" by (simp add: last_type_layers)
  qed
qed

lemma increase_iterate:
  "\<exists>t. iterate n (\<lambda>s. Some (increase_depth l s)) s = Some t \<and>
     layers_of t = layers_of s @ replicate n (l, []) \<and> finished t = finished s"
proof (induction n arbitrary: s)
  case (Suc n)
  from Suc [of "increase_depth l s"] show ?case by (auto simp: replicate_app_Cons_same)
qed simp

lemma flat_layers_empty: "flat_layers d (replicate n (l, [])) = []"
  by (induction n arbitrary: d) (auto simp: flat_layer_def)

lemma push_item_step:
  "flat_stack (push_item x s) = flat_stack s @ [(length (layers_of s) - 1, last_type s, x)]"
  "length (layers_of (push_item x s)) = length (layers_of s)"
  "tidy_layers s \<Longrightarrow> tidy_layers (push_item x s)"
  "top_filled (push_item x s)"
proof -
  obtain ls l xs where ls: "layers_of s = ls @ [(l, xs)]"
    by (metis nev.layers_split surj_pair)
  then have p: "layers_of (push_item x s) = ls @ [(l, xs @ [Item x])]"
    unfolding push_item_def by (rule layers_depth_push)
  have f: "finished (push_item x s) = finished s" by (simp add: push_item_def)
  show "flat_stack (push_item x s) = flat_stack s @ [(length (layers_of s) - 1, last_type s, x)]"
    by (simp add: flat_stack_def p f ls flat_layers_append flat_layer_snoc last_type_layers)
  show "length (layers_of (push_item x s)) = length (layers_of s)" by (simp add: p ls)
  show "tidy_layers s \<Longrightarrow> tidy_layers (push_item x s)" by (simp add: tidy_layers_def p f ls)
  show "top_filled (push_item x s)" by (simp add: top_filled_def p)
qed

subsection \<open>The loop\<close>

lemma process_one_step:
  assumes "length (layers_of s) = Suc previous" and "tidy_layers s" and "top_filled s"
  obtains t where "process_one previous (depth, ltype, item) s = Some t"
    and "length (layers_of t) = Suc depth" and "flat_stack t = flat_stack s @ [(depth, ltype, item)]"
    and "tidy_layers t" and "top_filled t"
proof -
  obtain s1 where s1: "iterate (depth - previous) (\<lambda>s. Some (increase_depth ltype s)) s = Some s1"
    "layers_of s1 = layers_of s @ replicate (depth - previous) (ltype, [])" "finished s1 = finished s"
    using increase_iterate [of "depth - previous" ltype s] by (elim exE conjE) (rule that)
  have f1: "flat_stack s1 = flat_stack s"
    using s1 by (simp add: flat_stack_def flat_layers_append flat_layers_empty)
  have t1: "tidy_layers s1"
    using s1 assms(2) by (auto simp: tidy_layers_def list_all_iff)
  have "previous - depth < length (layers_of s1)" using s1 assms(1) by simp
  then obtain s2 where s2: "iterate (previous - depth) decrease_depth s1 = Some s2"
    "length (layers_of s2) = length (layers_of s1) - (previous - depth)" "keeps s1 s2"
    "top_filled s1 \<longrightarrow> top_filled s2"
    by (rule decrease_depth_iterate)
  have len2: "length (layers_of s2) = Suc depth" using s1(2) s2(2) assms(1) by simp
  have f2: "flat_stack s2 = flat_stack s" and t2: "tidy_layers s2"
    and l2: "top_filled s2 \<or> last_type s2 = ltype"
  proof -
    show "flat_stack s2 = flat_stack s" using f1 s2(3) by (simp add: keeps_def)
    have *: "top_filled s2 \<and> tidy_layers s2" if "depth \<le> previous"
    proof -
      from that have "top_filled s1" using s1(2) assms(3) by (simp add: top_filled_def)
      with s2(3,4) t1 show ?thesis by (simp add: keeps_def)
    qed
    have **: "s2 = s1 \<and> last_type s2 = ltype" if "previous < depth"
      using that s2(1) s1(2) by (auto simp: last_type_layers)
    show "tidy_layers s2" "top_filled s2 \<or> last_type s2 = ltype"
      using * ** t1 by (cases "depth \<le> previous"; simp)+
  qed
  obtain s3 where s3: "(if last_type s2 \<noteq> ltype then new_list ltype s2 else Some s2) = Some s3"
    "length (layers_of s3) = Suc depth" "flat_stack s3 = flat_stack s" "last_type s3 = ltype"
    "tidy_layers s3"
  proof (cases "last_type s2 = ltype")
    case True
    with that [of s2] len2 f2 t2 show thesis by simp
  next
    case False
    obtain t where "new_list ltype s2 = Some t" "length (layers_of t) = length (layers_of s2)"
      "keeps s2 t" "last_type t = ltype"
      by (rule new_list_step)
    with that [of t] False len2 f2 t2 l2 show thesis by (simp add: keeps_def)
  qed
  have "process_one previous (depth, ltype, item) s = Some (push_item item s3)"
    using s1(1) s2(1) s3(1) by (simp only: process_one_def prod.case option.case)
  then show thesis
    using s3(2-5) push_item_step [where x = item and s = s3] by (intro that) simp_all
qed

lemma process_loop_step:
  assumes "length (layers_of s) = Suc previous" and "tidy_layers s" and "top_filled s"
  shows "\<exists>t. process_loop previous items s = Some t \<and> flat_stack t = flat_stack s @ items \<and>
    tidy_layers t \<and> top_filled t"
  using assms
proof (induction items arbitrary: s previous)
  case (Cons line items)
  obtain depth ltype item where line: "line = (depth, ltype, item)" by (metis surj_pair)
  from Cons.prems obtain u where u: "process_one previous line s = Some u"
    "length (layers_of u) = Suc depth" "flat_stack u = flat_stack s @ [line]"
    "tidy_layers u" "top_filled u"
    unfolding line by (rule process_one_step)
  from Cons.IH [OF u(2,4,5)] u line show ?case by auto
qed simp

text \<open>
  The two facts about \<open>process_depths\<close> as a whole: it never panics, and reading the trees back
  gives the lines; and the trees are tidy.
\<close>

lemma process_depths_spec:
  fixes items :: "(nat \<times> 'l \<times> 't) list"
  shows "\<exists>trees. process_depths top_ltype items = Some trees \<and> flatten_trees trees = items \<and> tidy_trees trees"
proof -
  let ?s = "depth_new top_ltype :: ('l, 't) depth_stack"
  have l: "layers_of ?s = [(top_ltype, [])]" "finished ?s = []"
    by (simp_all add: depth_new_def nev.layers_new)
  then have "length (layers_of ?s) = Suc 0" "tidy_layers ?s" "top_filled ?s" and f: "flat_stack ?s = []"
    by (simp_all add: tidy_layers_def tidy_trees_def top_filled_def flat_stack_def
        flatten_trees_def flat_layer_def)
  from process_loop_step [OF this(1-3), of items] f obtain t where t:
    "process_loop 0 items ?s = Some t" "flat_stack t = items" "tidy_layers t" "top_filled t"
    by auto
  obtain u where u: "finish_depth_list None t = Some u" "flatten_trees (finished u) = flat_stack t" "keeps t u"
    by (rule finish_depth_list_step)
  with t show ?thesis
    by (simp add: process_depths_def into_trees_def keeps_def tidy_layers_def)
qed

subsection \<open>Properties\<close>

text \<open>
  C3: Building trees from lines with depths never panics, whatever the depths do, and loses
  nothing: reading the trees back in order, with each item's nesting and the type of its list,
  gives exactly the lines.
\<close>

theorem process_depths_roundtrip:
  "\<exists>trees. process_depths top_ltype items = Some trees \<and> flatten_trees trees = items"
  using process_depths_spec [of top_ltype items] by blast

text \<open>
  The trees are tidy: no list, at the top or nested, is empty.
\<close>

theorem process_depths_tidy:
  "\<exists>trees. process_depths top_ltype items = Some trees \<and> tidy_trees trees"
  using process_depths_spec [of top_ltype items] by blast

end
