(* ===== verification/Token.thy ===== *)
theory Token
  imports Prelude
begin

text \<open>
  \<open>src/src/parsing/token/mod.rs\<close>: the token kinds and the tokens the lexer extracts.  The
  slice of a token is kept beside its span, as in the source.
\<close>

datatype (plugins only:) token =
    LeftBracket | LeftBracketAnchor | LeftBracketStar | RightBracket
  | LeftBlock | LeftBlockEnd | LeftBlockAnchor | LeftBlockStar | LeftMath | LeftParentheses
  | RightBlock | RightMath | RightParentheses
  | DoubleDash | TripleDash | DoubleTilde | LeftDoubleAngle
  | ClearFloatBoth | ClearFloatLeft | ClearFloatRight
  | Pipe | Equals | Colon | Underscore | Quote | Heading
  | LineBreak | ParagraphBreak | Whitespace
  | Bold | Italics | Underline | Superscript | Subscript | LeftMonospace | RightMonospace
  | Color | Raw | LeftRaw | RightRaw
  | BulletItem | NumberedItem
  | LeftLink | LeftLinkStar | RightLink
  | TableColumn | TableColumnRight | TableColumnCenter | TableColumnTitle
  | Identifier | Email | Url | UrlStar | Variable
  | DoubleQuote | EscapedDoubleQuote | EscapedBackslash
  | DiscardedControl | RuntimeText | GeneratedPageLink | GeneratedTagLinks
  | LeftComment | InputStart | InputEnd
  | Other

instantiation token :: equal
begin

definition equal_token :: "token \<Rightarrow> token \<Rightarrow> bool" where
  "equal_token x y \<longleftrightarrow> x = y"

instance
  by standard (simp add: equal_token_def)

end

record extracted_token =
  et_token :: token
  et_slice :: bytes
  et_start :: nat
  et_end :: nat

definition mk_token :: "bytes \<Rightarrow> token \<Rightarrow> nat \<Rightarrow> nat \<Rightarrow> extracted_token" where
  "mk_token text token start end' =
     \<lparr>et_token = token, et_slice = slice text start end', et_start = start, et_end = end'\<rparr>"

lemma mk_token_simps [simp]:
  "et_token (mk_token text t i j) = t" "et_slice (mk_token text t i j) = slice text i j"
  "et_start (mk_token text t i j) = i" "et_end (mk_token text t i j) = j"
  by (simp_all add: mk_token_def)

subsection \<open>Tilings\<close>

text \<open>
  \<open>tiles text i ts j\<close>: the tokens \<open>ts\<close> cover the bytes of \<open>text\<close> from \<open>i\<close> to \<open>j\<close> one after the
  other, none of them empty, each carrying the slice its span names.
\<close>

fun tiles :: "bytes \<Rightarrow> nat \<Rightarrow> extracted_token list \<Rightarrow> nat \<Rightarrow> bool" where
  "tiles text i [] j \<longleftrightarrow> i = j"
| "tiles text i (t # ts) j \<longleftrightarrow>
     et_start t = i \<and> i < et_end t \<and> et_end t \<le> length text \<and>
     et_slice t = slice text i (et_end t) \<and> tiles text (et_end t) ts j"

lemma tiles_append: "tiles text i (ts @ us) k \<longleftrightarrow> (\<exists>j. tiles text i ts j \<and> tiles text j us k)"
  by (induction ts arbitrary: i) auto

lemma tiles_le: "tiles text i ts j \<Longrightarrow> i \<le> j"
  by (induction ts arbitrary: i) (auto intro: order_trans less_imp_le)

lemma tiles_concat: "tiles text i ts j \<Longrightarrow> concat (map et_slice ts) = slice text i j"
proof (induction ts arbitrary: i)
  case (Cons t ts)
  then have IH: "concat (map et_slice ts) = slice text (et_end t) j" by simp
  have "slice text i (et_end t) @ slice text (et_end t) j = slice text i j"
    using Cons.prems by (intro slice_append) (auto dest: tiles_le)
  with IH Cons.prems show ?case by auto
qed simp

lemma tiles_end: "tiles text i ts j \<Longrightarrow> ts \<noteq> [] \<Longrightarrow> j \<le> length text"
proof (induction ts arbitrary: i)
  case (Cons u ts)
  then show ?case by (cases ts) auto
qed simp

lemma tiles_bounds:
  "tiles text i ts j \<Longrightarrow> t \<in> set ts \<Longrightarrow>
   i \<le> et_start t \<and> et_start t < et_end t \<and> et_end t \<le> j \<and> j \<le> length text \<and>
   et_slice t = slice text (et_start t) (et_end t)"
proof (induction ts arbitrary: i)
  case (Cons u ts)
  have j: "j \<le> length text" using Cons.prems(1) by (rule tiles_end) simp
  have u: "et_start u = i" "i < et_end u" "et_slice u = slice text i (et_end u)"
    and rest: "tiles text (et_end u) ts j"
    using Cons.prems(1) by simp_all
  show ?case
  proof (cases "t = u")
    case True
    with u j tiles_le [OF rest] show ?thesis by simp
  next
    case False
    with Cons.prems(2) have "t \<in> set ts" by simp
    from Cons.IH [OF rest this] u(2) show ?thesis by simp
  qed
qed simp

lemma tiles_length: "tiles text i ts j \<Longrightarrow> length ts \<le> j - i"
  by (induction ts arbitrary: i) (fastforce dest: tiles_le)+

text \<open>\<open>abut\<close> is the same without progress: empty tokens are allowed.\<close>

fun abut :: "bytes \<Rightarrow> nat \<Rightarrow> extracted_token list \<Rightarrow> nat \<Rightarrow> bool" where
  "abut text i [] j \<longleftrightarrow> i = j"
| "abut text i (t # ts) j \<longleftrightarrow>
     et_start t = i \<and> i \<le> et_end t \<and> et_slice t = slice text i (et_end t) \<and> abut text (et_end t) ts j"

lemma tiles_abut: "tiles text i ts j \<Longrightarrow> abut text i ts j"
  by (induction ts arbitrary: i) auto

lemma abut_append: "abut text i (ts @ us) k \<longleftrightarrow> (\<exists>j. abut text i ts j \<and> abut text j us k)"
  by (induction ts arbitrary: i) auto

lemma abut_le: "abut text i ts j \<Longrightarrow> i \<le> j"
  by (induction ts arbitrary: i) (auto intro: order_trans)

lemma abut_concat: "abut text i ts j \<Longrightarrow> concat (map et_slice ts) = slice text i j"
proof (induction ts arbitrary: i)
  case (Cons t ts)
  then have IH: "concat (map et_slice ts) = slice text (et_end t) j" by simp
  have "slice text i (et_end t) @ slice text (et_end t) j = slice text i j"
    using Cons.prems by (intro slice_append) (auto dest: abut_le)
  with IH Cons.prems show ?case by auto
qed simp

end
