(* ===== verification/Scanner.thy ===== *)
theory Scanner
  imports Token
begin

text \<open>
  \<open>src/src/parsing/token/scanner.rs\<close>: the hand-written lexer.  It runs over the bytes of the
  text; \<open>next_token\<close> reads one token at an offset, and the main loop keeps the comment and
  bracket-run state that decides how brackets are read.  \<open>bytes\<close> and \<open>text\<close> of the source are
  the same byte string here.
\<close>

subsection \<open>Character classes and small scanners\<close>

definition is_discarded_control :: "char \<Rightarrow> bool" where
  "is_discarded_control c \<longleftrightarrow>
     (let b = byte c in b \<le> 8 \<or> 11 \<le> b \<and> b \<le> 12 \<or> 14 \<le> b \<and> b \<le> 26 \<or> 28 \<le> b \<and> b \<le> 31)"

definition scan_same :: "bytes \<Rightarrow> nat \<Rightarrow> char \<Rightarrow> nat" where
  "scan_same bs start c = scan_while (\<lambda>d. d = c) bs start"

definition scan_space :: "bytes \<Rightarrow> nat \<Rightarrow> nat" where
  "scan_space bs start = scan_while (\<lambda>d. d = CHR '' '' \<or> d = CHR 0x09) bs start"

definition scan_identifier :: "bytes \<Rightarrow> nat \<Rightarrow> nat" where
  "scan_identifier bs start = scan_while is_alnum bs start"

definition scan_newline_once :: "bytes \<Rightarrow> nat \<Rightarrow> nat option" where
  "scan_newline_once bs start =
     (if get bs start = Some (CHR 0x0D) \<and> get bs (start + 1) = Some (CHR 0x0A) then Some (start + 2)
      else if get bs start = Some (CHR 0x0D) \<or> get bs start = Some (CHR 0x0A) then Some (start + 1)
      else None)"

lemma scan_newline_once_bounds:
  "scan_newline_once bs start = Some e \<Longrightarrow> start < e \<and> e \<le> length bs"
  by (auto simp: scan_newline_once_def get_Some_iff split: if_splits)

function newline_loop :: "bytes \<Rightarrow> nat \<Rightarrow> nat \<Rightarrow> nat \<times> nat" where
  "newline_loop bs e count =
     (case scan_newline_once bs e of None \<Rightarrow> (e, count) | Some n \<Rightarrow> newline_loop bs n (count + 1))"
  by pat_completeness auto
termination
  by (relation "measure (\<lambda>(bs, e, count). length bs - e)")
     (auto dest!: scan_newline_once_bounds)

declare newline_loop.simps [simp del]

definition scan_newline :: "bytes \<Rightarrow> nat \<Rightarrow> (token \<times> nat) option" where
  "scan_newline bs start =
     (case newline_loop bs start 0 of (e, count) \<Rightarrow>
        if count = 0 then None
        else if count = 1 then Some (LineBreak, e)
        else Some (ParagraphBreak, e))"

definition scan_variable :: "bytes \<Rightarrow> nat \<Rightarrow> nat option" where
  "scan_variable bs start =
     (if \<not> has bs start ''{$'' then None
      else let identifier_start = start + 2;
               identifier_end = scan_identifier bs identifier_start
           in if identifier_end = identifier_start \<or> get bs identifier_end \<noteq> Some (CHR ''}'')
              then None else Some (identifier_end + 1))"

subsection \<open>URLs\<close>

definition char_width :: "char \<Rightarrow> nat option" where
  "char_width b =
     (if byte b \<le> 127 then Some 1
      else if 192 \<le> byte b \<and> byte b \<le> 223 then Some 2
      else if 224 \<le> byte b \<and> byte b \<le> 239 then Some 3
      else if 240 \<le> byte b \<and> byte b \<le> 247 then Some 4
      else None)"

definition char_at :: "bytes \<Rightarrow> nat \<Rightarrow> bytes option" where
  "char_at bs index =
     (case get bs index of
        None \<Rightarrow> None
      | Some b \<Rightarrow>
          (case char_width b of
             None \<Rightarrow> None
           | Some width \<Rightarrow>
               if index + width \<le> length bs \<and> valid_utf8 (slice bs index (index + width))
               then Some (hd (chars (slice bs index (index + width)))) else None))"

text \<open>The inner loop of \<open>scan_url\<close>: does \<open>>@\<close> follow before the end of the line?\<close>

function raw_alt_closed :: "bytes \<Rightarrow> nat \<Rightarrow> bool" where
  "raw_alt_closed bs probe =
     (if probe < length bs then
        if bs ! probe = CHR 0x0A \<or> bs ! probe = CHR 0x0D then False
        else if has bs probe ''>@'' then True
        else raw_alt_closed bs (probe + 1)
      else False)"
  by pat_completeness auto
termination by (relation "measure (\<lambda>(bs, p). length bs - p)") auto

declare raw_alt_closed.simps [simp del]

definition url_stop :: "bytes \<Rightarrow> nat \<Rightarrow> bytes \<Rightarrow> bool" where
  "url_stop bs e character \<longleftrightarrow>
     bs ! e \<in> {CHR 0x0A, CHR 0x0D, CHR '' '', CHR 0x09, CHR 0x22, CHR 0x27, CHR ''|'', CHR ''['', CHR '']''}
     \<or> is_whitespace character \<or> is_discarded_control (bs ! e)
     \<or> has bs e ''>@'' \<or> has bs e ''@@''"

lemma char_width_pos: "char_width b = Some w \<Longrightarrow> 0 < w"
  by (auto simp: char_width_def split: if_splits)

lemma char_at_Some:
  assumes "char_at bs i = Some c"
  shows "i < length bs \<and> utf8_char c \<and> i + length c \<le> length bs \<and> slice bs i (i + length c) = c"
proof -
  from assms obtain b where b: "get bs i = Some b" by (auto simp: char_at_def split: option.splits)
  with assms obtain w where w: "char_width b = Some w"
    by (auto simp: char_at_def split: option.splits)
  let ?s = "slice bs i (i + w)"
  from assms b w have i: "i < length bs" "i + w \<le> length bs" and v: "valid_utf8 ?s"
    and c: "c = hd (chars ?s)" and "0 < w"
    by (auto simp: char_at_def get_Some_iff char_width_pos split: if_splits)
  from i \<open>0 < w\<close> have "?s \<noteq> []" by (simp add: slice_def)
  with v obtain x t where x: "?s = x @ t" "utf8_char x" by (rule valid_utf8_cases)
  with c have cx: "c = x" by (simp add: chars_append_char)
  have le: "length x \<le> w" using arg_cong [OF x(1), of length] i by (simp add: length_slice)
  have "take (length x) ?s = x" using x(1) by simp
  with le have "slice bs i (i + length x) = x"
    by (simp add: slice_def min_def split: if_splits)
  with i x cx le show ?thesis by simp
qed

lemma char_at_length: "char_at bs i = Some c \<Longrightarrow> 0 < length c"
  using char_at_Some utf8_char_nonempty by blast

function url_loop :: "bytes \<Rightarrow> nat \<Rightarrow> bool \<Rightarrow> nat option" where
  "url_loop bs e raw_alt_checked =
     (if e < length bs then
        (case char_at bs e of
           None \<Rightarrow> None
         | Some character \<Rightarrow>
             let alt = \<not> raw_alt_checked \<and> has bs e ''@<'' in
             if alt \<and> raw_alt_closed bs (e + 2) then Some e
             else if url_stop bs e character then Some e
             else url_loop bs (e + length character) (raw_alt_checked \<or> alt))
      else Some e)"
  by pat_completeness auto
termination
  by (relation "measure (\<lambda>(bs, e, r). length bs - e)")
     (auto dest!: char_at_length intro!: diff_less_mono2)

declare url_loop.simps [simp del]

definition url_body_start :: "bytes \<Rightarrow> nat \<Rightarrow> nat option" where
  "url_body_start bs start =
     (if has bs start ''http://'' then Some (start + 7)
      else if has bs start ''https://'' then Some (start + 8)
      else if has bs start ''ftp://'' then Some (start + 6)
      else if has bs start ''mailto:'' then Some (start + 7)
      else None)"

definition scan_url :: "bytes \<Rightarrow> nat \<Rightarrow> nat option" where
  "scan_url bs start =
     (case url_body_start bs start of
        None \<Rightarrow> None
      | Some body_start \<Rightarrow>
          (case url_loop bs body_start False of
             None \<Rightarrow> None
           | Some e \<Rightarrow> if e > body_start then Some e else None))"

subsection \<open>Identifiers and e-mail addresses\<close>

definition is_email_local_byte :: "char \<Rightarrow> bool" where
  "is_email_local_byte c \<longleftrightarrow> is_alnum c \<or> c = CHR ''_'' \<or> c = CHR ''-''"

definition is_email_label_byte :: "char \<Rightarrow> bool" where
  "is_email_label_byte c \<longleftrightarrow> is_alnum c \<or> c = CHR ''-''"

definition get_sat :: "(char \<Rightarrow> bool) \<Rightarrow> bytes \<Rightarrow> nat \<Rightarrow> bool" where
  "get_sat p bs i \<longleftrightarrow> (case get bs i of None \<Rightarrow> False | Some c \<Rightarrow> p c)"

function scan_email_dotted :: "bytes \<Rightarrow> nat \<Rightarrow> (char \<Rightarrow> bool) \<Rightarrow> nat" where
  "scan_email_dotted bs e part =
     (if get_sat part bs e then
        scan_email_dotted bs
          (if get bs (e + 1) = Some (CHR ''.'') \<and> get_sat part bs (e + 2) then e + 2 else e + 1) part
      else e)"
  by pat_completeness auto
termination
  by (relation "measure (\<lambda>(bs, e, part). length bs - e)")
     (auto simp: get_sat_def get_Some_iff split: option.splits)

declare scan_email_dotted.simps [simp del]

definition scan_identifier_or_email :: "bytes \<Rightarrow> nat \<Rightarrow> token \<times> nat" where
  "scan_identifier_or_email bs start =
     (let identifier_end = scan_identifier bs start in
      if get bs identifier_end \<in>
           {Some (CHR '' ''), Some (CHR 0x09), Some (CHR 0x0A), Some (CHR 0x0D), None}
      then (Identifier, identifier_end)
      else
        let local_end = scan_email_dotted bs start is_email_local_byte in
        if get bs local_end \<noteq> Some (CHR ''@'') then (Identifier, identifier_end)
        else
          let domain_start = local_end + 1;
              domain_end = scan_email_dotted bs domain_start is_email_label_byte;
              has_second_label = (CHR ''.'' \<in> set (slice bs domain_start domain_end))
          in if domain_end = domain_start \<or> \<not> has_second_label then (Identifier, identifier_end)
             else (Email, domain_end))"

subsection \<open>Symbols\<close>

definition scan_plus_heading :: "bytes \<Rightarrow> nat \<Rightarrow> nat" where
  "scan_plus_heading bs start =
     (let e = min (scan_while (\<lambda>c. c = CHR ''+'') bs start) (start + 6) in
      if e = start then start
      else if get bs e = Some (CHR ''*'') \<and> get bs (e + 1) \<noteq> Some (CHR ''*'') then e + 1
      else e)"

definition scan_repeated_symbol :: "bytes \<Rightarrow> nat \<Rightarrow> (token \<times> nat) option" where
  "scan_repeated_symbol bs start =
     (if bs ! start = CHR ''~'' then
        let e = scan_same bs start (CHR ''~''); count = e - start in
        if count \<ge> 4 then
          if get bs e = Some (CHR ''<'') then Some (ClearFloatLeft, e + 1)
          else if get bs e = Some (CHR ''>'') then Some (ClearFloatRight, e + 1)
          else Some (ClearFloatBoth, e)
        else if count \<ge> 2 then Some (DoubleTilde, start + 2)
        else None
      else if bs ! start = CHR ''-'' then
        let e = scan_same bs start (CHR ''-''); count = e - start in
        if count = 2 then Some (DoubleDash, e)
        else if count = 3 then Some (DoubleDash, start + 2)
        else if count \<ge> 4 then Some (TripleDash, e)
        else None
      else if bs ! start = CHR ''>'' then Some (Quote, scan_same bs start (CHR ''>''))
      else if bs ! start = CHR ''+'' then
        let plus_end = scan_plus_heading bs start in
        if plus_end > start then Some (Heading, plus_end) else None
      else None)"

function math_loop :: "bytes \<Rightarrow> nat \<Rightarrow> nat \<Rightarrow> bool \<Rightarrow> bool" where
  "math_loop bs start index math_open =
     (if index < start then
        (case (if has bs index ''[!--'' then find_sub ''--]'' (drop (index + 4) bs) else None) of
           Some relative \<Rightarrow> math_loop bs start (index + 4 + relative + 3) math_open
         | None \<Rightarrow>
             if has bs index ''[[['' then math_loop bs start (index + 3) math_open
             else if has bs index ''[[$'' then math_loop bs start (index + 3) True
             else if math_open \<and> has bs index ''$]]'' then math_loop bs start (index + 3) False
             else math_loop bs start (index + 1) math_open)
      else math_open)"
  by pat_completeness auto
termination by (relation "measure (\<lambda>(bs, start, index, m). start - index)") auto

declare math_loop.simps [simp del]

definition math_dollar_closes :: "bytes \<Rightarrow> nat \<Rightarrow> bool" where
  "math_dollar_closes bs start =
     (if \<not> (has bs start ''$]]]'' \<and> get bs (start + 4) \<noteq> Some (CHR '']'')) then True
      else math_loop bs start 0 False)"

definition is_right_link_trailing_bracket :: "nat \<Rightarrow> bool" where
  "is_right_link_trailing_bracket bracket_run_offset \<longleftrightarrow> bracket_run_offset mod 4 = 3"

definition scan_literal :: "bytes \<Rightarrow> nat \<Rightarrow> bool \<Rightarrow> bool \<Rightarrow> nat \<Rightarrow> (token \<times> nat) option" where
  "scan_literal bs start valid_comment_opener force_right_bracket bracket_run_offset =
     (let b = bs ! start in
      if b = CHR ''@'' \<and> has bs start ''@@'' then Some (Raw, start + 2)
      else if b = CHR ''@'' \<and> has bs start ''@<'' then Some (LeftRaw, start + 2)
      else if b = CHR ''>'' \<and> has bs start ''>@'' then Some (RightRaw, start + 2)
      else if b = CHR ''['' \<and> valid_comment_opener then Some (LeftComment, start + 4)
      else if b = CHR ''['' \<and> has bs start ''[[[['' \<and> 4 dvd bracket_run_offset
        then Some (LeftBracket, start + 1)
      else if b = CHR ''['' \<and> has bs start ''[[[*'' then Some (LeftLinkStar, start + 4)
      else if b = CHR ''['' \<and> has bs start ''[[['' then Some (LeftLink, start + 3)
      else if b = CHR ''['' \<and> has bs start ''[[$'' then Some (LeftMath, start + 3)
      else if b = CHR ''['' \<and> has bs start ''[[#'' \<and> \<not> has bs start ''[[##''
        then Some (LeftBlockAnchor, start + 3)
      else if b = CHR ''['' \<and> has bs start ''[[*'' then Some (LeftBlockStar, start + 3)
      else if b = CHR ''['' \<and> has bs start ''[[/'' then Some (LeftBlockEnd, start + 3)
      else if b = CHR ''['' \<and> has bs start ''[['' then Some (LeftBlock, start + 2)
      else if b = CHR ''['' \<and> has bs start ''[#'' then Some (LeftBracketAnchor, start + 2)
      else if b = CHR ''['' \<and> has bs start ''[*'' \<and> \<not> has bs start ''[**''
        then Some (LeftBracketStar, start + 2)
      else if b = CHR ''['' then Some (LeftBracket, start + 1)
      else if b = CHR ''('' \<and> has bs start ''(('' then Some (LeftParentheses, start + 2)
      else if b = CHR '']'' \<and> force_right_bracket then Some (RightBracket, start + 1)
      else if b = CHR '']'' \<and> has bs start '']]]'' \<and>
              \<not> is_right_link_trailing_bracket bracket_run_offset
        then Some (RightLink, start + 3)
      else if b = CHR ''$'' \<and> has bs start ''$]]'' \<and> math_dollar_closes bs start
        then Some (RightMath, start + 3)
      else if b = CHR '']'' \<and> has bs start '']]'' \<and>
              \<not> is_right_link_trailing_bracket bracket_run_offset
        then Some (RightBlock, start + 2)
      else if b = CHR '']'' then Some (RightBracket, start + 1)
      else if b = CHR '')'' \<and> has bs start ''))'' then Some (RightParentheses, start + 2)
      else if b = CHR ''*'' \<and> has bs start ''**'' then Some (Bold, start + 2)
      else if b = CHR ''/'' \<and> has bs start ''//'' then Some (Italics, start + 2)
      else if b = CHR ''_'' \<and> has bs start ''__'' then Some (Underline, start + 2)
      else if b = CHR ''^'' \<and> has bs start ''^^'' then Some (Superscript, start + 2)
      else if b = CHR '','' \<and> has bs start '',,'' then
        let run_end = scan_same bs start (CHR '',''); run_len = run_end - start in
        if run_len \<ge> 3 then Some (Other, run_end) else Some (Subscript, start + 2)
      else if b = CHR ''#'' \<and> has bs start ''##'' then Some (Color, start + 2)
      else if b = CHR ''{'' \<and> has bs start ''{{'' then Some (LeftMonospace, start + 2)
      else if b = CHR ''}'' \<and> has bs start ''}}'' then Some (RightMonospace, start + 2)
      else if b = CHR ''|'' \<and> has bs start ''||~'' then Some (TableColumnTitle, start + 3)
      else if b = CHR ''|'' \<and> has bs start ''||>'' then Some (TableColumnRight, start + 3)
      else if b = CHR ''|'' \<and> has bs start ''||='' then Some (TableColumnCenter, start + 3)
      else if b = CHR ''|'' \<and> has bs start ''||'' then Some (TableColumn, start + 2)
      else if b = CHR ''<'' \<and> has bs start ''<<'' then Some (LeftDoubleAngle, start + 2)
      else if b = CHR ''|'' then Some (Pipe, start + 1)
      else if b = CHR ''='' then Some (Equals, start + 1)
      else if b = CHR '':'' then Some (Colon, start + 1)
      else if b = CHR ''_'' then Some (Underscore, start + 1)
      else if b = CHR 0x5C \<and> has bs start [CHR 0x5C, CHR 0x22]
        then Some (EscapedDoubleQuote, start + 2)
      else if b = CHR 0x22 then Some (DoubleQuote, start + 1)
      else if b = CHR 0x5C \<and> has bs start [CHR 0x5C, CHR 0x5C]
        then Some (EscapedBackslash, start + 2)
      else if b = CHR 0x5C \<and> start + 1 = length bs then Some (LineBreak, start + 1)
      else if b = CHR ''*'' \<and> get bs (start + 1) \<noteq> Some (CHR ''*'')
        then Some (BulletItem, start + 1)
      else if b = CHR ''#'' \<and> get bs (start + 1) \<noteq> Some (CHR ''#'')
        then Some (NumberedItem, start + 1)
      else None)"

definition comment_closer_bracket_at :: "bytes \<Rightarrow> nat \<Rightarrow> nat option" where
  "comment_closer_bracket_at bs start =
     (if get bs start \<noteq> Some (CHR ''-'') then None
      else let e = scan_same bs start (CHR ''-'') in
           if e - start \<ge> 2 \<and> get bs e = Some (CHR '']'') then Some e else None)"

text \<open>
  Slicing \<open>text[start..]\<close> panics unless \<open>start\<close> is a character boundary: \<open>None\<close> is the panic.
\<close>

definition next_char_end :: "bytes \<Rightarrow> nat \<Rightarrow> nat option" where
  "next_char_end text start =
     (if is_ascii (text ! start) then Some (start + 1)
      else if boundary text start then Some (start + length (hd (chars (drop start text))))
      else None)"

definition next_token :: "bytes \<Rightarrow> nat \<Rightarrow> bool \<Rightarrow> bool \<Rightarrow> nat \<Rightarrow> (token \<times> nat) option" where
  "next_token text start valid_comment_opener force_right_bracket bracket_run_offset =
     (let b = text ! start in
      if is_discarded_control b then Some (DiscardedControl, start + 1)
      else if is_alnum b then
        (case (if b = CHR ''f'' \<or> b = CHR ''h'' \<or> b = CHR ''m'' then scan_url text start else None) of
           Some e \<Rightarrow> Some (Url, e)
         | None \<Rightarrow> Some (scan_identifier_or_email text start))
      else (case scan_variable text start of Some e \<Rightarrow> Some (Variable, e)
      | None \<Rightarrow>
      if b = CHR 0x5C \<and> get text (start + 1) = Some (CHR 0x0A) then Some (LineBreak, start + 2)
      else (case scan_newline text start of Some r \<Rightarrow> Some r
      | None \<Rightarrow>
      if b = CHR '' '' \<or> b = CHR 0x09 then Some (Whitespace, scan_space text start)
      else (case (if b = CHR ''*'' then scan_url text (start + 1) else None) of
        Some e \<Rightarrow> Some (UrlStar, e)
      | None \<Rightarrow>
      if b = CHR ''*'' \<and> has text start ''**'' \<and> scan_url text (start + 2) \<noteq> None
      then Some (Other, start + 1)
      else (case scan_literal text start valid_comment_opener force_right_bracket bracket_run_offset of
        Some r \<Rightarrow> Some r
      | None \<Rightarrow>
      (case scan_repeated_symbol text start of
        Some r \<Rightarrow> Some r
      | None \<Rightarrow> map_option (\<lambda>e. (Other, e)) (next_char_end text start)))))))"

subsection \<open>Every scanner makes progress over whole characters\<close>

text \<open>
  \<open>ascii_run bs i j\<close>: the bytes from \<open>i\<close> to \<open>j\<close> exist and are ASCII.  A run of ASCII bytes
  ends on a character boundary when it starts on one, which is all that the boundary
  argument needs from the symbol scanners.  \<open>advances\<close> is the contract of every scanner.
\<close>

definition ascii_run :: "bytes \<Rightarrow> nat \<Rightarrow> nat \<Rightarrow> bool" where
  "ascii_run bs i j \<longleftrightarrow> i < j \<and> j \<le> length bs \<and> (\<forall>k. i \<le> k \<and> k < j \<longrightarrow> is_ascii (bs ! k))"

lemma ascii_run_lit:
  assumes "has bs i lit" and "list_all is_ascii lit" and "n \<le> length lit" and "0 < n"
  shows "ascii_run bs i (i + n)"
  unfolding ascii_run_def
proof (intro conjI allI impI)
  show "i < i + n" "i + n \<le> length bs" using assms has_length [OF assms(1)] by auto
  fix k assume k: "i \<le> k \<and> k < i + n"
  then have "bs ! k = lit ! (k - i)" "k - i < length lit"
    using has_nth [OF assms(1), of "k - i"] assms(3) by auto
  then show "is_ascii (bs ! k)" using assms(2) by (simp add: list_all_length)
qed

lemma ascii_run_one: "i < length bs \<Longrightarrow> is_ascii (bs ! i) \<Longrightarrow> ascii_run bs i (Suc i)"
  by (auto simp: ascii_run_def less_Suc_eq)

lemma ascii_run_trans:
  assumes "ascii_run bs i j" and "ascii_run bs j k"
  shows "ascii_run bs i k"
  unfolding ascii_run_def
proof (intro conjI allI impI)
  show "i < k" "k \<le> length bs" using assms by (auto simp: ascii_run_def)
  fix m assume "i \<le> m \<and> m < k"
  then show "is_ascii (bs ! m)" using assms by (cases "m < j") (auto simp: ascii_run_def)
qed

lemma ascii_run_scan:
  assumes "\<And>c. p c \<Longrightarrow> is_ascii c" and "i < length bs" and "p (bs ! i)"
  shows "ascii_run bs i (scan_while p bs i)"
proof -
  have "Suc i \<le> scan_while p bs i" using assms by (simp add: scan_while_step)
  moreover have "scan_while p bs i \<le> length bs" using assms(2) by (simp add: scan_while_le)
  ultimately show ?thesis using assms(1) by (auto simp: ascii_run_def dest: scan_while_all)
qed

lemma ascii_run_boundary:
  assumes "valid_utf8 bs" and "boundary bs i" and "ascii_run bs i j"
  shows "boundary bs j"
proof -
  have "i + n \<le> j \<Longrightarrow> boundary bs (i + n)" for n
  proof (induction n)
    case (Suc n)
    then have "boundary bs (i + n)" by simp
    moreover have "i + n < length bs" "is_ascii (bs ! (i + n))"
      using Suc.prems assms(3) by (auto simp: ascii_run_def)
    ultimately have "boundary bs (Suc (i + n))" by (intro boundary_ascii assms(1))
    then show ?case by simp
  qed (simp add: assms)
  from this [of "j - i"] assms(3) show ?thesis by (simp add: ascii_run_def)
qed

lemma if_SomeE:
  assumes "(if P then a else r) = Some y"
  obtains "P" and "a = Some y" | "r = Some y"
  using assms by (auto split: if_splits)

lemma get_ascii_run: "get bs i = Some c \<Longrightarrow> is_ascii c \<Longrightarrow> ascii_run bs i (Suc i)"
  by (auto simp: get_Some_iff intro: ascii_run_one)

lemma get_ascii_run2:
  "get bs i = Some c \<Longrightarrow> get bs (Suc i) = Some d \<Longrightarrow> is_ascii c \<Longrightarrow> is_ascii d \<Longrightarrow>
   ascii_run bs i (Suc (Suc i))"
  by (rule ascii_run_trans [of bs i "Suc i"]) (auto intro: get_ascii_run)

lemma scan_newline_once_run: "scan_newline_once bs i = Some e \<Longrightarrow> ascii_run bs i e"
  by (auto simp: scan_newline_once_def is_ascii_def split: if_splits
           dest: get_ascii_run get_ascii_run2)

lemma newline_loop_run:
  "newline_loop bs i n = (e, m) \<Longrightarrow> (e = i \<and> m = n) \<or> (ascii_run bs i e \<and> n < m)"
proof (induction bs i n rule: newline_loop.induct)
  case (1 bs i n)
  then show ?case
    by (auto simp: newline_loop.simps [of bs i n] split: option.splits
             dest: scan_newline_once_run ascii_run_trans)
qed

lemma scan_newline_run: "scan_newline bs i = Some (t, e) \<Longrightarrow> ascii_run bs i e"
  by (auto simp: scan_newline_def split: prod.splits if_splits dest: newline_loop_run)

lemma scan_identifier_run:
  "i < length bs \<Longrightarrow> is_alnum (bs ! i) \<Longrightarrow> ascii_run bs i (scan_identifier bs i)"
  unfolding scan_identifier_def by (rule ascii_run_scan) (auto intro: is_alnum_ascii)

lemma scan_variable_run:
  assumes "scan_variable bs i = Some e"
  shows "ascii_run bs i e"
proof -
  let ?e = "scan_identifier bs (i + 2)"
  from assms have e: "e = Suc ?e" "?e \<noteq> i + 2" "get bs ?e = Some (CHR ''}'')" "has bs i ''{$''"
    by (auto simp: scan_variable_def Let_def split: if_splits)
  have "scan_while is_alnum bs (i + 2) \<noteq> i + 2 \<Longrightarrow> i + 2 < length bs \<and> is_alnum (bs ! (i + 2))"
    by (subst (asm) scan_while.simps) (auto split: if_splits)
  with e(2) have "ascii_run bs (i + 2) ?e"
    by (intro scan_identifier_run) (auto simp: scan_identifier_def)
  moreover have "ascii_run bs i (i + 2)"
    using ascii_run_lit [OF e(4), of 2] by (simp add: is_ascii_def)
  moreover have "ascii_run bs ?e (Suc ?e)"
    using e(3) by (rule get_ascii_run) (simp add: is_ascii_def)
  ultimately show ?thesis using e(1) by (metis ascii_run_trans)
qed

lemma get_sat_run:
  "get_sat p bs i \<Longrightarrow> (\<And>c. p c \<Longrightarrow> is_ascii c) \<Longrightarrow> ascii_run bs i (Suc i)"
  by (auto simp: get_sat_def get_Some_iff intro: ascii_run_one split: option.splits)

lemma scan_email_dotted_run:
  assumes "\<And>c. part c \<Longrightarrow> is_ascii c"
  shows "scan_email_dotted bs i part = i \<or> ascii_run bs i (scan_email_dotted bs i part)"
  using assms
proof (induction bs i part rule: scan_email_dotted.induct)
  case (1 bs i part)
  show ?case
  proof (cases "get_sat part bs i")
    case True
    define n where
      "n = (if get bs (i + 1) = Some (CHR ''.'') \<and> get_sat part bs (i + 2) then i + 2 else i + 1)"
    have "ascii_run bs i (Suc i)" using get_sat_run [OF True "1.prems"] .
    moreover have "get bs (Suc i) = Some (CHR ''.'') \<Longrightarrow> ascii_run bs (Suc i) (Suc (Suc i))"
      by (rule get_ascii_run) (auto simp: is_ascii_def)
    ultimately have run: "ascii_run bs i n" by (auto simp: n_def intro: ascii_run_trans)
    have step: "scan_email_dotted bs i part = scan_email_dotted bs n part"
      using True by (simp add: scan_email_dotted.simps [of bs i part] n_def)
    from "1.IH" [OF True "1.prems", folded n_def]
    have "scan_email_dotted bs n part = n \<or> ascii_run bs n (scan_email_dotted bs n part)" .
    with run show ?thesis by (auto simp: step intro: ascii_run_trans)
  next
    case False
    then show ?thesis by (simp add: scan_email_dotted.simps [of bs i part])
  qed
qed

definition advances :: "bytes \<Rightarrow> nat \<Rightarrow> nat \<Rightarrow> bool" where
  "advances bs i j \<longleftrightarrow>
     i < j \<and> j \<le> length bs \<and> (valid_utf8 bs \<and> boundary bs i \<longrightarrow> boundary bs j)"

lemma advances_trans: "advances bs i j \<Longrightarrow> advances bs j k \<Longrightarrow> advances bs i k"
  by (auto simp: advances_def)

lemma ascii_run_advances: "ascii_run bs i j \<Longrightarrow> advances bs i j"
  using ascii_run_boundary by (auto simp: advances_def ascii_run_def)

lemma scan_identifier_or_email_run:
  assumes "i < length bs" and "is_alnum (bs ! i)" and "scan_identifier_or_email bs i = (t, e)"
  shows "ascii_run bs i e"
proof -
  let ?l = "scan_email_dotted bs i is_email_local_byte"
  let ?d = "scan_email_dotted bs (Suc ?l) is_email_label_byte"
  have ident: "ascii_run bs i (scan_identifier bs i)"
    using assms(1,2) by (rule scan_identifier_run)
  have part: "is_email_local_byte c \<Longrightarrow> is_ascii c" "is_email_label_byte c \<Longrightarrow> is_ascii c" for c
    by (auto simp: is_email_local_byte_def is_email_label_byte_def is_ascii_def dest!: is_alnum_ascii)
  have l: "?l = i \<or> ascii_run bs i ?l"
    using scan_email_dotted_run [of is_email_local_byte] part(1) by blast
  have d: "?d = Suc ?l \<or> ascii_run bs (Suc ?l) ?d"
    using scan_email_dotted_run [of is_email_label_byte] part(2) by blast
  have "get bs ?l = Some (CHR ''@'') \<Longrightarrow> ascii_run bs ?l (Suc ?l)"
    by (rule get_ascii_run) (auto simp: is_ascii_def)
  with l d have "get bs ?l = Some (CHR ''@'') \<Longrightarrow> ?d \<noteq> Suc ?l \<Longrightarrow> ascii_run bs i ?d"
    by (metis ascii_run_trans)
  with ident assms(3) show ?thesis
    by (auto simp: scan_identifier_or_email_def Let_def split: if_splits)
qed

lemma char_at_advances:
  assumes "char_at bs i = Some c"
  shows "advances bs i (i + length c)"
proof -
  note c = char_at_Some [OF assms] char_at_length [OF assms]
  have "drop i bs = c @ drop (i + length c) bs"
    using c by (metis add_diff_cancel_left' append_take_drop_id drop_drop slice_def add.commute)
  with c show ?thesis by (auto simp: advances_def intro: boundary_char)
qed

lemma url_loop_advances: "url_loop bs i r = Some e \<Longrightarrow> e = i \<or> advances bs i e"
proof (induction bs i r rule: url_loop.induct)
  case (1 bs i r)
  show ?case
  proof (cases "i < length bs \<and> char_at bs i \<noteq> None")
    case False
    with "1.prems" show ?thesis by (auto simp: url_loop.simps [of bs i r] split: if_splits)
  next
    case True
    then obtain c where c: "i < length bs" "char_at bs i = Some c" by auto
    define alt where "alt = (\<not> r \<and> has bs i ''@<'')"
    have eq: "url_loop bs i r =
      (if alt \<and> raw_alt_closed bs (i + 2) then Some i
       else if url_stop bs i c then Some i else url_loop bs (i + length c) (r \<or> alt))"
      using c by (simp add: url_loop.simps [of bs i r] alt_def Let_def)
    show ?thesis
    proof (cases "alt \<and> raw_alt_closed bs (i + 2) \<or> url_stop bs i c")
      case True
      with eq "1.prems" show ?thesis by (auto split: if_splits)
    next
      case False
      with eq "1.prems" have "url_loop bs (i + length c) (r \<or> alt) = Some e" by auto
      with "1.IH" [OF c(1,2) alt_def] False
      have "e = i + length c \<or> advances bs (i + length c) e" by blast
      with char_at_advances [OF c(2)] show ?thesis by (auto intro: advances_trans)
    qed
  qed
qed

lemma url_body_start_run: "url_body_start bs i = Some b \<Longrightarrow> ascii_run bs i b"
  using ascii_run_lit [of bs i "''http://''" 7] ascii_run_lit [of bs i "''https://''" 8]
    ascii_run_lit [of bs i "''ftp://''" 6] ascii_run_lit [of bs i "''mailto:''" 7]
  by (auto simp: url_body_start_def is_ascii_def split: if_splits)

lemma scan_url_advances: "scan_url bs i = Some e \<Longrightarrow> advances bs i e"
  by (auto simp: scan_url_def split: option.splits if_splits
           dest!: url_loop_advances url_body_start_run ascii_run_advances intro: advances_trans)

lemma scan_same_run:
  "i < length bs \<Longrightarrow> bs ! i = c \<Longrightarrow> is_ascii c \<Longrightarrow> ascii_run bs i (scan_same bs i c)"
  unfolding scan_same_def by (rule ascii_run_scan) auto

lemma ascii_run_prefix: "ascii_run bs i j \<Longrightarrow> i < k \<Longrightarrow> k \<le> j \<Longrightarrow> ascii_run bs i k"
  by (auto simp: ascii_run_def)

lemma scan_plus_heading_run:
  assumes "i < length bs" and "scan_plus_heading bs i > i"
  shows "ascii_run bs i (scan_plus_heading bs i)"
proof -
  let ?w = "scan_while (\<lambda>c. c = CHR ''+'') bs i" let ?e = "min ?w (i + 6)"
  have plus: "bs ! i = CHR ''+''"
  proof (rule ccontr)
    assume "bs ! i \<noteq> CHR ''+''"
    then have "?w = i" by (subst scan_while.simps) simp
    with assms(2) show False by (simp add: scan_plus_heading_def Let_def)
  qed
  have w: "ascii_run bs i ?w"
    using assms(1) plus by (intro ascii_run_scan) (auto simp: is_ascii_def)
  then have e: "ascii_run bs i ?e"
    by (rule ascii_run_prefix) (use w in \<open>auto simp: ascii_run_def\<close>)
  have "get bs ?e = Some (CHR ''*'') \<Longrightarrow> ascii_run bs ?e (Suc ?e)"
    by (rule get_ascii_run) (auto simp: is_ascii_def)
  with e have "get bs ?e = Some (CHR ''*'') \<Longrightarrow> ascii_run bs i (Suc ?e)"
    by (auto intro: ascii_run_trans)
  with e show ?thesis
    using assms(2) unfolding scan_plus_heading_def Let_def
    by (auto split: if_splits)
qed

lemma scan_repeated_symbol_run:
  assumes "i < length bs" and "scan_repeated_symbol bs i = Some (t, e)"
  shows "ascii_run bs i e"
proof -
  have same: "bs ! i = c \<Longrightarrow> is_ascii c \<Longrightarrow> ascii_run bs i (scan_same bs i c)" for c
    using assms(1) by (rule scan_same_run)
  have tilde: "get bs j = Some (CHR ''<'') \<Longrightarrow> ascii_run bs j (Suc j)"
    "get bs j = Some (CHR ''>'') \<Longrightarrow> ascii_run bs j (Suc j)" for j
    by (erule get_ascii_run, simp add: is_ascii_def)+
  consider "bs ! i = CHR ''~''" | "bs ! i = CHR ''-''" | "bs ! i = CHR ''>''" | "bs ! i = CHR ''+''"
    using assms(2) by (auto simp: scan_repeated_symbol_def split: if_splits)
  then show ?thesis
  proof cases
    case 1
    with same [OF 1] have "ascii_run bs i (scan_same bs i (CHR ''~''))" by (simp add: is_ascii_def)
    with 1 assms(2) tilde show ?thesis
      by (auto simp: scan_repeated_symbol_def Let_def split: if_splits
               intro: ascii_run_trans elim: ascii_run_prefix)
  next
    case 2
    with same [OF 2] have "ascii_run bs i (scan_same bs i (CHR ''-''))" by (simp add: is_ascii_def)
    with 2 assms(2) show ?thesis
      by (auto simp: scan_repeated_symbol_def Let_def split: if_splits elim: ascii_run_prefix)
  next
    case 3
    with same [OF 3] assms(2) show ?thesis by (simp add: scan_repeated_symbol_def is_ascii_def)
  next
    case 4
    with assms show ?thesis
      by (auto simp: scan_repeated_symbol_def Let_def split: if_splits dest: scan_plus_heading_run)
  qed
qed

lemma lit_run:
  "has bs i lit \<Longrightarrow> list_all is_ascii lit \<Longrightarrow> Suc 0 \<le> length lit \<Longrightarrow> ascii_run bs i (Suc i)"
  "has bs i lit \<Longrightarrow> list_all is_ascii lit \<Longrightarrow> 2 \<le> length lit \<Longrightarrow> ascii_run bs i (Suc (Suc i))"
  "has bs i lit \<Longrightarrow> list_all is_ascii lit \<Longrightarrow> 3 \<le> length lit \<Longrightarrow> ascii_run bs i (i + 3)"
  "has bs i lit \<Longrightarrow> list_all is_ascii lit \<Longrightarrow> 4 \<le> length lit \<Longrightarrow> ascii_run bs i (i + 4)"
  using ascii_run_lit [of bs i lit 1] ascii_run_lit [of bs i lit 2] ascii_run_lit [of bs i lit 3]
    ascii_run_lit [of bs i lit 4] by simp_all

lemma scan_literal_run:
  assumes "i < length bs" and "valid_opener \<longrightarrow> has bs i ''[!--''"
    and "scan_literal bs i valid_opener force offset = Some (t, e)"
  shows "ascii_run bs i e"
proof -
  have one: "bs ! i = c \<Longrightarrow> is_ascii c \<Longrightarrow> ascii_run bs i (Suc i)" for c
    using assms(1) by (auto intro: ascii_run_one)
  have comma: "bs ! i = CHR '','' \<Longrightarrow> ascii_run bs i (scan_same bs i (CHR '',''))"
    using assms(1) by (rule scan_same_run) (simp_all add: is_ascii_def)
  note lit = lit_run [of bs i]
  show ?thesis
    using assms(2,3) unfolding scan_literal_def Let_def
    by (elim if_SomeE)
      ((clarsimp, (erule lit one; simp add: is_ascii_def)) | (clarsimp simp: comma; fail))+
qed

lemma next_char_end_advances:
  assumes "i < length bs" and "next_char_end bs i = Some e"
  shows "i < e" and "valid_utf8 bs \<Longrightarrow> boundary bs i \<Longrightarrow> advances bs i e"
proof -
  have ne: "drop i bs \<noteq> []" using assms(1) by simp
  then have "hd (chars (drop i bs)) \<in> set (chars (drop i bs))" by (cases "drop i bs") auto
  then have "hd (chars (drop i bs)) \<noteq> []" by (rule chars_nonempty)
  with assms(2) show "i < e" by (auto simp: next_char_end_def split: if_splits)
  assume v: "valid_utf8 bs" "boundary bs i"
  with assms(1) have "valid_utf8 (drop i bs)" using boundary_split by simp
  then obtain x t where x: "drop i bs = x @ t" "utf8_char x" "valid_utf8 t"
    using ne by (rule valid_utf8_cases)
  have "length x \<le> length bs - i" using arg_cong [OF x(1), of length] by simp
  moreover have "boundary bs (i + length x)" using boundary_char [OF v x(1,2)] .
  moreover have "x \<noteq> []" using x(2) by (rule utf8_char_nonempty)
  ultimately have "advances bs i (i + length x)" using assms(1) by (simp add: advances_def)
  moreover have "is_ascii (bs ! i) \<Longrightarrow> advances bs i (i + 1)"
    using ascii_run_one [OF assms(1)] by (simp add: ascii_run_advances)
  ultimately show "advances bs i e"
    using assms(2) x by (auto simp: next_char_end_def chars_append_char split: if_splits)
qed

text \<open>The contract of \<open>next_token\<close>: progress always; whole characters on valid text.\<close>

lemma next_token_cases:
  assumes "i < length bs" and "valid_opener \<longrightarrow> has bs i ''[!--''"
    and "next_token bs i valid_opener force offset = Some (t, e)"
  shows "advances bs i e \<or> next_char_end bs i = Some e"
proof -
  have url: "scan_url bs i = Some e' \<Longrightarrow> advances bs i e'" for e' by (rule scan_url_advances)
  have star: "bs ! i = CHR ''*'' \<Longrightarrow> advances bs i (Suc i)"
    using assms(1) by (auto simp: is_ascii_def intro!: ascii_run_advances ascii_run_one)
  then have urlstar: "bs ! i = CHR ''*'' \<Longrightarrow> scan_url bs (Suc i) = Some e' \<Longrightarrow> advances bs i e'" for e'
    using scan_url_advances by (blast intro: advances_trans)
  have ident: "is_alnum (bs ! i) \<Longrightarrow> scan_identifier_or_email bs i = (t', e') \<Longrightarrow> advances bs i e'" for t' e'
    using assms(1) by (blast intro: ascii_run_advances scan_identifier_or_email_run)
  have control: "is_discarded_control (bs ! i) \<Longrightarrow> advances bs i (Suc i)"
    using assms(1) by (auto simp: is_ascii_def is_discarded_control_def Let_def
                            intro!: ascii_run_advances ascii_run_one)
  have variable: "scan_variable bs i = Some e' \<Longrightarrow> advances bs i e'" for e'
    by (blast intro: ascii_run_advances scan_variable_run)
  have newline: "scan_newline bs i = Some (t', e') \<Longrightarrow> advances bs i e'" for t' e'
    by (blast intro: ascii_run_advances scan_newline_run)
  have escape: "bs ! i = CHR 0x5C \<Longrightarrow> get bs (Suc i) = Some (CHR 0x0A) \<Longrightarrow> advances bs i (Suc (Suc i))"
    using assms(1) by (intro ascii_run_advances get_ascii_run2) (auto simp: get_Some_iff is_ascii_def)
  have space: "bs ! i = CHR '' '' \<or> bs ! i = CHR 0x09 \<Longrightarrow> advances bs i (scan_space bs i)"
    unfolding scan_space_def using assms(1)
    by (intro ascii_run_advances ascii_run_scan) (auto simp: is_ascii_def)
  then have space1: "bs ! i = CHR '' '' \<Longrightarrow> advances bs i (scan_space bs i)"
    and space2: "bs ! i = CHR 0x09 \<Longrightarrow> advances bs i (scan_space bs i)" by auto
  have literal: "scan_literal bs i valid_opener force offset = Some (t', e') \<Longrightarrow> advances bs i e'" for t' e'
    using assms(1,2) by (blast intro: ascii_run_advances scan_literal_run)
  have repeated: "scan_repeated_symbol bs i = Some (t', e') \<Longrightarrow> advances bs i e'" for t' e'
    using assms(1) by (blast intro: ascii_run_advances scan_repeated_symbol_run)
  show ?thesis
    using assms(3) unfolding next_token_def Let_def
    by (elim if_SomeE)
      (auto simp: control split: option.splits if_splits
            dest: url urlstar ident variable newline escape space1 space2 literal repeated star)
qed

end
