(* ===== verification/Token_Shapes.thy ===== *)
theory Token_Shapes
  imports Scanner
begin

text \<open>
  What the slice of each token kind looks like: an abstract specification of
  \<open>src/src/parsing/token/scanner.rs\<close>, and the lemma that \<open>next_token\<close> keeps it.
\<close>

definition spellings :: "(token \<times> bytes) list" where
  "spellings =
     [(Raw, ''@@''), (LeftRaw, ''@<''), (RightRaw, ''>@''), (LeftComment, ''[!--''),
      (LeftBracket, ''[''), (LeftLinkStar, ''[[[*''), (LeftLink, ''[[[''), (LeftMath, ''[[$''),
      (LeftBlockAnchor, ''[[#''), (LeftBlockStar, ''[[*''), (LeftBlockEnd, ''[[/''),
      (LeftBlock, ''[[''), (LeftBracketAnchor, ''[#''), (LeftBracketStar, ''[*''),
      (LeftParentheses, ''((''), (RightBracket, '']''), (RightLink, '']]]''),
      (RightMath, ''$]]''), (RightBlock, '']]''), (RightParentheses, ''))''),
      (Bold, ''**''), (Italics, ''//''), (Underline, ''__''), (Superscript, ''^^''),
      (Subscript, '',,''), (Color, ''##''), (LeftMonospace, ''{{''), (RightMonospace, ''}}''),
      (TableColumnTitle, ''||~''), (TableColumnRight, ''||>''), (TableColumnCenter, ''||=''),
      (TableColumn, ''||''), (LeftDoubleAngle, ''<<''), (Pipe, ''|''), (Equals, ''=''),
      (Colon, '':''), (Underscore, ''_''), (EscapedDoubleQuote, [CHR 0x5C, CHR 0x22]),
      (DoubleQuote, [CHR 0x22]), (EscapedBackslash, [CHR 0x5C, CHR 0x5C]),
      (BulletItem, ''*''), (NumberedItem, ''#''), (DoubleTilde, ''~~''), (DoubleDash, ''--'')]"

definition spelling :: "token \<Rightarrow> bytes option" where
  "spelling t = map_of spellings t"

definition run_shape :: "nat \<Rightarrow> char \<Rightarrow> bytes \<Rightarrow> bool" where
  "run_shape n c s \<longleftrightarrow> n \<le> length s \<and> list_all (\<lambda>d. d = c) s"

definition heading_shape :: "bytes \<Rightarrow> bool" where
  "heading_shape s \<longleftrightarrow>
     (let plus = takeWhile (\<lambda>c. c = CHR ''+'') s in
      1 \<le> length plus \<and> length plus \<le> 6 \<and> drop (length plus) s \<in> {[], ''*''})"

definition variable_shape :: "bytes \<Rightarrow> bool" where
  "variable_shape s \<longleftrightarrow>
     starts_with s ''{$'' \<and> 4 \<le> length s \<and> last s = CHR ''}'' \<and>
     list_all is_alnum (butlast (drop 2 s))"

definition url_shape :: "bytes \<Rightarrow> bool" where
  "url_shape s \<longleftrightarrow>
     list_ex (\<lambda>p. starts_with s p \<and> length p < length s)
       [''http://'', ''https://'', ''ftp://'', ''mailto:'']"

definition token_shape :: "token \<Rightarrow> bytes \<Rightarrow> bool" where
  "token_shape t s \<longleftrightarrow>
     (case spelling t of Some lit \<Rightarrow> s = lit
      | None \<Rightarrow>
        if t = LineBreak then s \<in> {[CHR 0x0A], [CHR 0x0D], [CHR 0x0D, CHR 0x0A], [CHR 0x5C, CHR 0x0A], [CHR 0x5C]}
        else if t = ParagraphBreak then 2 \<le> length s \<and> list_all (\<lambda>c. c = CHR 0x0A \<or> c = CHR 0x0D) s
        else if t = Whitespace then s \<noteq> [] \<and> list_all (\<lambda>c. c = CHR '' '' \<or> c = CHR 0x09) s
        else if t = Identifier then s \<noteq> [] \<and> list_all is_alnum s
        else if t = Email then CHR ''@'' \<in> set s
        else if t = Variable then variable_shape s
        else if t = TripleDash then run_shape 4 (CHR ''-'') s
        else if t = Quote then run_shape 1 (CHR ''>'') s
        else if t = ClearFloatBoth then run_shape 4 (CHR ''~'') s
        else if t = ClearFloatLeft then
          s \<noteq> [] \<and> last s = CHR ''<'' \<and> run_shape 4 (CHR ''~'') (butlast s)
        else if t = ClearFloatRight then
          s \<noteq> [] \<and> last s = CHR ''>'' \<and> run_shape 4 (CHR ''~'') (butlast s)
        else if t = Heading then heading_shape s
        else if t = DiscardedControl then length s = 1 \<and> is_discarded_control (hd s)
        else if t = Url then url_shape s
        else if t = UrlStar then s \<noteq> [] \<and> hd s = CHR ''*'' \<and> url_shape (tl s)
        else t = Other \<and> s \<noteq> [])"

subsection \<open>Slices\<close>

lemma has_slice: "has bs i lit \<Longrightarrow> n \<le> length lit \<Longrightarrow> slice bs i (i + n) = take n lit"
  by (auto simp: has_def slice_def min_def dest: arg_cong [where f = "take n"])

lemma slice_one: "i < length bs \<Longrightarrow> slice bs i (Suc i) = [bs ! i]"
  by (simp add: slice_def take_Suc hd_drop_conv_nth)

lemma slice_list_all:
  "j \<le> length bs \<Longrightarrow> (\<And>k. i \<le> k \<Longrightarrow> k < j \<Longrightarrow> p (bs ! k)) \<Longrightarrow> list_all p (slice bs i j)"
  by (auto simp: list_all_length slice_def)

lemma slice_scan_while: "i \<le> length bs \<Longrightarrow> list_all p (slice bs i (scan_while p bs i))"
  by (intro slice_list_all scan_while_le) (auto intro: scan_while_all)

lemma slice_snoc: "i \<le> j \<Longrightarrow> j < length bs \<Longrightarrow> slice bs i (Suc j) = slice bs i j @ [bs ! j]"
  using slice_append [of i j "Suc j" bs] slice_one [of j bs] by simp

lemma slice_Cons: "i < j \<Longrightarrow> i < length bs \<Longrightarrow> slice bs i j = bs ! i # slice bs (Suc i) j"
  using slice_append [of i "Suc i" j bs] slice_one [of i bs] by simp

lemma slice_nonempty: "i < j \<Longrightarrow> j \<le> length bs \<Longrightarrow> slice bs i j \<noteq> []"
  by (simp add: slice_def)

subsection \<open>The shapes of the tokens\<close>

lemma shape_lit:
  "has bs i lit \<Longrightarrow> spelling t = Some (take 1 lit) \<Longrightarrow> 1 \<le> length lit \<Longrightarrow> token_shape t (slice bs i (Suc i))"
  "has bs i lit \<Longrightarrow> spelling t = Some (take 2 lit) \<Longrightarrow> 2 \<le> length lit \<Longrightarrow> token_shape t (slice bs i (Suc (Suc i)))"
  "has bs i lit \<Longrightarrow> spelling t = Some (take 3 lit) \<Longrightarrow> 3 \<le> length lit \<Longrightarrow> token_shape t (slice bs i (i + 3))"
  "has bs i lit \<Longrightarrow> spelling t = Some (take 4 lit) \<Longrightarrow> 4 \<le> length lit \<Longrightarrow> token_shape t (slice bs i (i + 4))"
  using has_slice [of bs i lit 1] has_slice [of bs i lit 2] has_slice [of bs i lit 3] has_slice [of bs i lit 4]
  by (simp_all add: token_shape_def)

lemma spelling_None:
  "spelling LineBreak = None" "spelling ParagraphBreak = None" "spelling Whitespace = None"
  "spelling Identifier = None" "spelling Email = None" "spelling Variable = None"
  "spelling TripleDash = None" "spelling Quote = None" "spelling ClearFloatBoth = None"
  "spelling ClearFloatLeft = None" "spelling ClearFloatRight = None" "spelling Heading = None"
  "spelling DiscardedControl = None" "spelling Url = None" "spelling UrlStar = None"
  "spelling Other = None"
  by (simp_all add: spelling_def spellings_def)

lemma scan_literal_shape:
  assumes "i < length bs" and "valid_opener \<longrightarrow> has bs i ''[!--''"
    and "scan_literal bs i valid_opener force offset = Some (t, e)"
  shows "token_shape t (slice bs i e)"
proof -
  have one: "bs ! i = c \<Longrightarrow> spelling t = Some [c] \<Longrightarrow> token_shape t (slice bs i (Suc i))" for c t
    using slice_one [OF assms(1)] by (simp add: token_shape_def)
  have slash: "bs ! i = CHR 0x5C \<Longrightarrow> token_shape LineBreak (slice bs i (Suc i))"
    using slice_one [OF assms(1)] by (simp add: token_shape_def spelling_None)
  have other: "e' \<le> length bs \<Longrightarrow> i < e' \<Longrightarrow> token_shape Other (slice bs i e')" for e'
    using slice_nonempty by (simp add: token_shape_def spelling_None)
  have comma: "bs ! i = CHR '','' \<Longrightarrow> token_shape Other (slice bs i (scan_same bs i (CHR '','')))"
    by (rule other) (use scan_same_run [OF assms(1), of "CHR '',''"] in
        \<open>auto simp: ascii_run_def is_ascii_def\<close>)
  show ?thesis
    using assms(2,3) unfolding scan_literal_def Let_def
    by (elim if_SomeE)
      ((clarsimp, (erule shape_lit one; simp add: spelling_def spellings_def; fail))
        | (clarsimp simp: comma slash; fail))+
qed

abbreviation newline_byte :: "char \<Rightarrow> bool" where
  "newline_byte c \<equiv> c = CHR 0x0A \<or> c = CHR 0x0D"

lemma scan_newline_once_slice:
  "scan_newline_once bs i = Some e \<Longrightarrow>
   slice bs i e \<in> {[CHR 0x0A], [CHR 0x0D], [CHR 0x0D, CHR 0x0A]}"
  by (auto simp: scan_newline_once_def get_Some_iff slice_Cons slice_one split: if_splits)

lemma newline_loop_None: "scan_newline_once bs i = None \<Longrightarrow> newline_loop bs i n = (i, n)"
  by (simp add: newline_loop.simps [of bs i n])

lemma newline_loop_slice:
  "newline_loop bs i n = (e, m) \<Longrightarrow> i \<le> length bs \<Longrightarrow>
   i \<le> e \<and> e \<le> length bs \<and> n \<le> m \<and> m - n \<le> e - i \<and> list_all newline_byte (slice bs i e) \<and>
   (m = n \<longrightarrow> e = i) \<and> (m = Suc n \<longrightarrow> scan_newline_once bs i = Some e)"
proof (induction bs i n rule: newline_loop.induct)
  case (1 bs i n)
  show ?case
  proof (cases "scan_newline_once bs i")
    case None
    with "1.prems" show ?thesis by (simp add: newline_loop_None)
  next
    case (Some k)
    from scan_newline_once_bounds [OF Some] have k: "i < k" "k \<le> length bs" by simp_all
    from "1.prems"(1) Some have "newline_loop bs k (n + 1) = (e, m)"
      by (simp add: newline_loop.simps [of bs i n])
    note IH = "1.IH" [OF Some this k(2)]
    have "slice bs i e = slice bs i k @ slice bs k e"
      using IH k by (simp add: slice_append)
    with scan_newline_once_slice [OF Some] IH k Some show ?thesis by auto
  qed
qed

lemma scan_newline_shape:
  assumes "scan_newline bs i = Some (t, e)" and "i < length bs"
  shows "token_shape t (slice bs i e)"
proof -
  obtain e' m where nl: "newline_loop bs i 0 = (e', m)" by fastforce
  note f = newline_loop_slice [OF nl less_imp_le [OF assms(2)]]
  consider "m = 1" "t = LineBreak" "e = e'" | "2 \<le> m" "t = ParagraphBreak" "e = e'"
    using assms(1) nl by (auto simp: scan_newline_def split: if_splits)
  then show ?thesis
  proof cases
    case 1
    with f have "scan_newline_once bs i = Some e" by simp
    from scan_newline_once_slice [OF this] 1 show ?thesis
      by (auto simp: token_shape_def spelling_None)
  next
    case 2
    with f have "2 \<le> length (slice bs i e)" by (auto simp: length_slice)
    with 2 f show ?thesis by (auto simp: token_shape_def spelling_None)
  qed
qed

lemma scan_identifier_shape:
  assumes "i < length bs" and "is_alnum (bs ! i)"
  shows "token_shape Identifier (slice bs i (scan_identifier bs i))"
  using assms slice_scan_while [of i bs is_alnum] scan_identifier_run [OF assms]
  by (auto simp: token_shape_def spelling_None scan_identifier_def ascii_run_def dest: slice_nonempty)

lemma scan_email_dotted_le:
  assumes "\<And>c. part c \<Longrightarrow> is_ascii c"
  shows "i \<le> scan_email_dotted bs i part"
  using scan_email_dotted_run [of part bs i, OF assms] by (auto simp: ascii_run_def)

lemma scan_identifier_or_email_shape:
  assumes "i < length bs" and "is_alnum (bs ! i)" and "scan_identifier_or_email bs i = (t, e)"
  shows "token_shape t (slice bs i e)"
proof (cases "t = Email")
  case False
  then have "t = Identifier" "e = scan_identifier bs i"
    using assms(3) by (auto simp: scan_identifier_or_email_def Let_def split: if_splits)
  with scan_identifier_shape assms(1,2) show ?thesis by simp
next
  case True
  let ?l = "scan_email_dotted bs i is_email_local_byte"
  from True assms(3) have at: "get bs ?l = Some (CHR ''@'')"
    and e: "e = scan_email_dotted bs (Suc ?l) is_email_label_byte"
    by (auto simp: scan_identifier_or_email_def Let_def split: if_splits)
  have part: "is_email_local_byte c \<Longrightarrow> is_ascii c" "is_email_label_byte c \<Longrightarrow> is_ascii c" for c
    by (auto simp: is_email_local_byte_def is_email_label_byte_def is_ascii_def dest!: is_alnum_ascii)
  have "i \<le> ?l" "Suc ?l \<le> e"
    unfolding e by (rule scan_email_dotted_le, erule part)+
  moreover from scan_identifier_or_email_run [OF assms] have "e \<le> length bs"
    by (simp add: ascii_run_def)
  moreover from at have "?l < length bs" "bs ! ?l = CHR ''@''" by (auto simp: get_Some_iff)
  ultimately have "slice bs i e = slice bs i ?l @ CHR ''@'' # slice bs (Suc ?l) e"
    using slice_append [of i ?l e bs] slice_Cons [of ?l e bs] by simp
  with True show ?thesis by (simp add: token_shape_def spelling_None)
qed

lemma scan_variable_shape:
  assumes "scan_variable bs i = Some e"
  shows "token_shape Variable (slice bs i e)"
proof -
  let ?w = "scan_while is_alnum bs (i + 2)"
  from assms have e: "e = Suc ?w" "?w \<noteq> i + 2" "get bs ?w = Some (CHR ''}'')" "has bs i ''{$''"
    by (auto simp: scan_variable_def scan_identifier_def Let_def split: if_splits)
  have w: "i + 2 < ?w" "?w < length bs" "bs ! ?w = CHR ''}''"
    using e scan_while_ge [of "i + 2" is_alnum bs] by (auto simp: get_Some_iff)
  have "slice bs i e = slice bs i (i + 2) @ slice bs (i + 2) ?w @ [CHR ''}'']"
    using w e(1) slice_append [of i "i + 2" e bs] slice_snoc [of "i + 2" ?w bs] by simp
  moreover have "slice bs i (i + 2) = ''{$''" using has_slice [OF e(4), of 2] by simp
  moreover have "list_all is_alnum (slice bs (i + 2) ?w)"
    using w by (intro slice_scan_while) simp
  moreover have "length (slice bs (i + 2) ?w) \<ge> 1" using w by (simp add: length_slice)
  ultimately show ?thesis
    by (simp add: token_shape_def spelling_None variable_shape_def butlast_append)
qed

lemma url_loop_le: "url_loop bs i r = Some e \<Longrightarrow> e \<le> length bs \<or> e = i"
  by (auto dest: url_loop_advances simp: advances_def)

lemma scan_url_shape:
  assumes "scan_url bs i = Some e"
  shows "url_shape (slice bs i e)"
proof -
  from assms obtain b where b: "url_body_start bs i = Some b" "b < e"
    by (auto simp: scan_url_def split: option.splits if_splits)
  have le: "e \<le> length bs" using scan_url_advances [OF assms] by (simp add: advances_def)
  have pre: "has bs i lit \<Longrightarrow> i + length lit < e \<Longrightarrow>
      starts_with (slice bs i e) lit \<and> length lit < length (slice bs i e)" for lit
    using slice_append [of i "i + length lit" e bs] has_slice [of bs i lit "length lit"] le
    by (auto simp: length_slice) (metis starts_with_append)
  show ?thesis
    using b pre [of "''http://''"] pre [of "''https://''"] pre [of "''ftp://''"] pre [of "''mailto:''"]
    by (auto simp: url_shape_def url_body_start_def split: if_splits)
qed

lemma scan_same_slice:
  "i < length bs \<Longrightarrow> bs ! i = c \<Longrightarrow> i < scan_same bs i c \<and> scan_same bs i c \<le> length bs \<and>
   list_all (\<lambda>d. d = c) (slice bs i (scan_same bs i c))"
  using scan_while_step [of i bs "\<lambda>d. d = c"] scan_while_le [of i bs "\<lambda>d. d = c"]
    slice_scan_while [of i bs "\<lambda>d. d = c"] by (auto simp: scan_same_def)

lemma slice_prefix_same:
  "k \<le> j \<Longrightarrow> list_all p (slice bs i j) \<Longrightarrow> list_all p (slice bs i k)"
  by (auto simp: slice_def list_all_length min_def split: if_splits)

lemma run_two: "length s = 2 \<Longrightarrow> list_all (\<lambda>d. d = c) s \<Longrightarrow> s = [c, c]"
  by (auto simp: numeral_2_eq_2 length_Suc_conv)

lemma scan_repeated_symbol_shape_tilde:
  assumes "i < length bs" and "bs ! i = CHR ''~''" and "scan_repeated_symbol bs i = Some (t, e)"
  shows "token_shape t (slice bs i e)"
proof -
  let ?e = "scan_same bs i (CHR ''~'')"
  note f = scan_same_slice [OF assms(1,2)]
  have len: "length (slice bs i ?e) = ?e - i" using f by (simp add: length_slice)
  consider (left) "t = ClearFloatLeft" "e = Suc ?e" "4 \<le> ?e - i" "get bs ?e = Some (CHR ''<'')"
    | (right) "t = ClearFloatRight" "e = Suc ?e" "4 \<le> ?e - i" "get bs ?e = Some (CHR ''>'')"
    | (both) "t = ClearFloatBoth" "e = ?e" "4 \<le> ?e - i"
    | (double) "t = DoubleTilde" "e = i + 2" "2 \<le> ?e - i"
    using assms(2,3) by (auto simp: scan_repeated_symbol_def Let_def split: if_splits)
  then show ?thesis
  proof cases
    case left
    with f len show ?thesis
      by (auto simp: token_shape_def spelling_None run_shape_def get_Some_iff slice_snoc)
  next
    case right
    with f len show ?thesis
      by (auto simp: token_shape_def spelling_None run_shape_def get_Some_iff slice_snoc)
  next
    case both
    with f len show ?thesis by (simp add: token_shape_def spelling_None run_shape_def)
  next
    case double
    with f have "slice bs i e = ''~~''"
      by (intro run_two slice_prefix_same [of e ?e]) (auto simp: length_slice)
    with double show ?thesis by (simp add: token_shape_def spelling_def spellings_def)
  qed
qed

lemma scan_repeated_symbol_shape_dash:
  assumes "i < length bs" and "bs ! i = CHR ''-''" and "scan_repeated_symbol bs i = Some (t, e)"
  shows "token_shape t (slice bs i e)"
proof -
  let ?e = "scan_same bs i (CHR ''-'')"
  note f = scan_same_slice [OF assms(1,2)]
  have len: "length (slice bs i ?e) = ?e - i" using f by (simp add: length_slice)
  consider (double) "t = DoubleDash" "e = i + 2" "2 \<le> ?e - i"
    | (triple) "t = TripleDash" "e = ?e" "4 \<le> ?e - i"
    using assms(2,3) f by (auto simp: scan_repeated_symbol_def Let_def split: if_splits)
  then show ?thesis
  proof cases
    case double
    with f have "slice bs i e = ''--''"
      by (intro run_two slice_prefix_same [of e ?e]) (auto simp: length_slice)
    with double show ?thesis by (simp add: token_shape_def spelling_def spellings_def)
  next
    case triple
    with f len show ?thesis by (simp add: token_shape_def spelling_None run_shape_def)
  qed
qed

lemma heading_shape_plus:
  "list_all (\<lambda>c. c = CHR ''+'') s \<Longrightarrow> 1 \<le> length s \<Longrightarrow> length s \<le> 6 \<Longrightarrow>
   heading_shape s \<and> heading_shape (s @ ''*'')"
  by (auto simp: heading_shape_def Let_def list_all_iff takeWhile_append takeWhile_eq_all_conv [THEN iffD2])

lemma scan_plus_heading_shape:
  assumes "i < length bs" and "scan_plus_heading bs i > i"
  shows "token_shape Heading (slice bs i (scan_plus_heading bs i))"
proof -
  let ?w = "scan_while (\<lambda>c. c = CHR ''+'') bs i" let ?e = "min ?w (i + 6)"
  have w: "i \<le> ?w" "?w \<le> length bs" "list_all (\<lambda>c. c = CHR ''+'') (slice bs i ?w)"
    using assms(1) by (auto simp: scan_while_ge scan_while_le slice_scan_while)
  have "?w \<noteq> i"
    using assms(2) by (auto simp: scan_plus_heading_def Let_def split: if_splits)
  then have len: "1 \<le> length (slice bs i ?e)" "length (slice bs i ?e) \<le> 6"
    using w(1,2) by (auto simp: length_slice)
  have "list_all (\<lambda>c. c = CHR ''+'') (slice bs i ?e)"
    by (rule slice_prefix_same [OF _ w(3)]) simp
  from heading_shape_plus [OF this len]
  have plus: "heading_shape (slice bs i ?e)" "heading_shape (slice bs i ?e @ ''*'')" by auto
  have "get bs ?e = Some (CHR ''*'') \<Longrightarrow> slice bs i (Suc ?e) = slice bs i ?e @ ''*''"
    using w(1) slice_snoc [of i ?e bs] by (auto simp: get_Some_iff)
  with plus assms(2) show ?thesis
    by (auto simp: token_shape_def spelling_None scan_plus_heading_def Let_def)
qed

lemma scan_repeated_symbol_shape:
  assumes "i < length bs" and "scan_repeated_symbol bs i = Some (t, e)"
  shows "token_shape t (slice bs i e)"
proof -
  consider "bs ! i = CHR ''~''" | "bs ! i = CHR ''-''" | (quote) "bs ! i = CHR ''>''" | (plus) "bs ! i = CHR ''+''"
    using assms(2) by (auto simp: scan_repeated_symbol_def split: if_splits)
  then show ?thesis
  proof cases
    case quote
    with assms scan_same_slice [OF assms(1) quote] show ?thesis
      by (auto simp: scan_repeated_symbol_def token_shape_def spelling_None run_shape_def length_slice)
  next
    case plus
    with assms scan_plus_heading_shape [OF assms(1)] show ?thesis
      by (auto simp: scan_repeated_symbol_def Let_def split: if_splits)
  qed (use assms scan_repeated_symbol_shape_tilde scan_repeated_symbol_shape_dash in blast)+
qed

lemma scan_space_shape:
  assumes "i < length bs" and "bs ! i = CHR '' '' \<or> bs ! i = CHR 0x09"
  shows "token_shape Whitespace (slice bs i (scan_space bs i))"
proof -
  let ?p = "\<lambda>d. d = CHR '' '' \<or> d = CHR 0x09"
  have "i < scan_while ?p bs i" using scan_while_step [of i bs ?p] assms by simp
  moreover have "scan_while ?p bs i \<le> length bs" "list_all ?p (slice bs i (scan_while ?p bs i))"
    using assms(1) by (simp_all add: scan_while_le slice_scan_while)
  ultimately show ?thesis
    using slice_nonempty by (auto simp: token_shape_def spelling_None scan_space_def)
qed

lemma next_token_shape:
  assumes "i < length bs" and "valid_opener \<longrightarrow> has bs i ''[!--''"
    and "next_token bs i valid_opener force offset = Some (t, e)" and "e \<le> length bs"
  shows "token_shape t (slice bs i e)"
proof -
  have other: "i < e' \<Longrightarrow> e' \<le> length bs \<Longrightarrow> token_shape Other (slice bs i e')" for e'
    using slice_nonempty by (simp add: token_shape_def spelling_None)
  then have other1: "token_shape Other (slice bs i (Suc i))" using assms(1) by simp
  have char: "next_char_end bs i = Some e \<Longrightarrow> token_shape Other (slice bs i e)"
    using other next_char_end_advances(1) [OF assms(1)] assms(4) by blast
  have control: "is_discarded_control (bs ! i) \<Longrightarrow> token_shape DiscardedControl (slice bs i (Suc i))"
    using slice_one [OF assms(1)] by (simp add: token_shape_def spelling_None)
  have url: "scan_url bs i = Some e' \<Longrightarrow> token_shape Url (slice bs i e')" for e'
    using scan_url_shape by (simp add: token_shape_def spelling_None)
  have urlstar: "bs ! i = CHR ''*'' \<Longrightarrow> scan_url bs (Suc i) = Some e' \<Longrightarrow> token_shape UrlStar (slice bs i e')" for e'
    using scan_url_shape [of bs "Suc i" e'] slice_Cons [of i e' bs] assms(1) scan_url_advances [of bs "Suc i" e']
    by (auto simp: token_shape_def spelling_None advances_def)
  have escape: "bs ! i = CHR 0x5C \<Longrightarrow> get bs (Suc i) = Some (CHR 0x0A) \<Longrightarrow>
      token_shape LineBreak (slice bs i (Suc (Suc i)))"
    using slice_Cons [of i "Suc (Suc i)" bs] slice_one [of "Suc i" bs] assms(1)
    by (auto simp: token_shape_def spelling_None get_Some_iff)
  note shapes = url urlstar escape control scan_identifier_or_email_shape [OF assms(1)]
    scan_variable_shape scan_newline_shape [OF _ assms(1)] scan_literal_shape [OF assms(1,2)]
    scan_repeated_symbol_shape [OF assms(1)]
  have space1: "bs ! i = CHR '' '' \<Longrightarrow> token_shape Whitespace (slice bs i (scan_space bs i))"
    and space2: "bs ! i = CHR 0x09 \<Longrightarrow> token_shape Whitespace (slice bs i (scan_space bs i))"
    using scan_space_shape [OF assms(1)] by auto
  show ?thesis
    using assms(3) unfolding next_token_def Let_def
    by (elim if_SomeE)
      (auto simp: control other1 char split: option.splits if_splits dest: shapes space1 space2)
qed

end
