(* ===== verification/Lexer.thy ===== *)
theory Lexer
  imports Token_Shapes
begin

text \<open>
  \<open>src/src/parsing/token/scanner.rs\<close>: the main loop \<open>extract_all\<close>, with the cursor that finds
  comment closers.  A panic of the source (a slice off a character boundary) is \<open>None\<close>.
\<close>

subsection \<open>The comment-closer cursor\<close>

record comment_closer_cursor =
  initialized :: bool
  next_closer :: "nat option"
  search_start :: nat
  scan_visits :: nat

definition cursor_new :: comment_closer_cursor where
  "cursor_new = \<lparr>initialized = False, next_closer = None, search_start = 0, scan_visits = 0\<rparr>"

function find_next :: "bytes \<Rightarrow> comment_closer_cursor \<Rightarrow> comment_closer_cursor" where
  "find_next bs c =
     (if search_start c + 2 < length bs then
        let position = search_start c;
            c' = c\<lparr>search_start := search_start c + 1, scan_visits := scan_visits c + 1\<rparr>
        in if has bs position ''--]'' then c'\<lparr>next_closer := Some position\<rparr>
           else find_next bs c'
      else c\<lparr>search_start := length bs, next_closer := None\<rparr>)"
  by pat_completeness auto
termination by (relation "measure (\<lambda>(bs, c). length bs - search_start c)") auto

declare find_next.simps [simp del]

text \<open>The positions the cursor still has to report, in order.\<close>

lemma find_next_spec:
  fixes bs :: bytes and c :: comment_closer_cursor
  defines "c' \<equiv> find_next bs c"
  shows "(case next_closer c' of
            None \<Rightarrow> search_start c' = length bs \<and> (\<forall>p\<ge>search_start c. \<not> has bs p ''--]'')
          | Some p \<Rightarrow> search_start c \<le> p \<and> search_start c' = Suc p \<and> has bs p ''--]'' \<and>
                      (\<forall>q. search_start c \<le> q \<and> q < p \<longrightarrow> \<not> has bs q ''--]'')) \<and>
         initialized c' = initialized c \<and>
         (search_start c \<le> length bs \<longrightarrow>
            search_start c' \<le> length bs \<and>
            scan_visits c' + search_start c \<le> scan_visits c + search_start c')"
  unfolding c'_def
proof (induction bs c rule: find_next.induct)
  case (1 bs c)
  let ?c = "c\<lparr>search_start := search_start c + 1, scan_visits := scan_visits c + 1\<rparr>"
  consider (stop) "\<not> search_start c + 2 < length bs"
    | (hit) "search_start c + 2 < length bs" "has bs (search_start c) ''--]''"
    | (miss) "search_start c + 2 < length bs" "\<not> has bs (search_start c) ''--]''" by blast
  then show ?case
  proof cases
    case stop
    then show ?thesis by (auto simp: find_next.simps [of bs c] has_def)
  next
    case hit
    then show ?thesis by (auto simp: find_next.simps [of bs c] Let_def)
  next
    case miss
    have eq: "find_next bs c = find_next bs ?c"
      using miss by (subst find_next.simps) (simp add: Let_def)
    have skip: "search_start c \<le> q \<longleftrightarrow> q = search_start c \<or> Suc (search_start c) \<le> q" for q by auto
    from miss(1) "1.IH" [OF miss(1) refl refl miss(2)] miss(2) show ?thesis
      unfolding eq by (auto simp: skip split: option.splits)
  qed
qed

function cursor_skip :: "bytes \<Rightarrow> nat \<Rightarrow> comment_closer_cursor \<Rightarrow> comment_closer_cursor" where
  "cursor_skip bs minimum c =
     (case next_closer c of
        None \<Rightarrow> c
      | Some position \<Rightarrow>
          if position < minimum then cursor_skip bs minimum (find_next bs c) else c)"
  by pat_completeness auto
termination
proof (relation "measure (\<lambda>(bs, m, c). case next_closer c of
                           None \<Rightarrow> 0 | Some p \<Rightarrow> Suc (length bs - search_start c))")
  fix bs :: bytes and minimum position :: nat and c :: comment_closer_cursor
  assume "next_closer c = Some position" "position < minimum"
  then show "((bs, minimum, find_next bs c), bs, minimum, c)
    \<in> measure (\<lambda>(bs, m, c). case next_closer c of
                 None \<Rightarrow> 0 | Some p \<Rightarrow> Suc (length bs - search_start c))"
    using find_next_spec [of bs c] by (auto simp: has_def split: option.splits)
qed simp

declare cursor_skip.simps [simp del]

definition has_at_or_after ::
  "bytes \<Rightarrow> nat \<Rightarrow> comment_closer_cursor \<Rightarrow> bool \<times> comment_closer_cursor" where
  "has_at_or_after bs minimum c =
     (let c1 = (if \<not> initialized c then find_next bs (c\<lparr>initialized := True\<rparr>) else c);
          c2 = cursor_skip bs minimum c1
      in (next_closer c2 \<noteq> None, c2))"

text \<open>
  The cursor's invariant: everything before \<open>search_start\<close> has been visited once, and the
  closer it holds is the first one at or after some lower bound \<open>low\<close> of the queries to come.
\<close>

definition cursor_inv :: "bytes \<Rightarrow> nat \<Rightarrow> comment_closer_cursor \<Rightarrow> bool" where
  "cursor_inv bs low c \<longleftrightarrow>
     search_start c \<le> length bs \<and> scan_visits c \<le> search_start c \<and>
     (if \<not> initialized c then search_start c = 0
      else case next_closer c of
        None \<Rightarrow> (\<forall>p\<ge>low. \<not> has bs p ''--]'')
      | Some p \<Rightarrow> has bs p ''--]'' \<and> search_start c = Suc p \<and>
                  (\<forall>q. low \<le> q \<and> q < p \<longrightarrow> \<not> has bs q ''--]''))"

lemma cursor_inv_new: "cursor_inv bs low cursor_new"
  by (simp add: cursor_inv_def cursor_new_def)

lemma cursor_inv_mono: "cursor_inv bs low c \<Longrightarrow> low \<le> low' \<Longrightarrow> cursor_inv bs low' c"
  by (auto simp: cursor_inv_def split: option.splits)

lemma cursor_inv_find_next:
  assumes "search_start c \<le> length bs" and "scan_visits c \<le> search_start c" and "initialized c"
    and "\<And>q. low \<le> q \<Longrightarrow> q < search_start c \<Longrightarrow> \<not> has bs q ''--]''"
  shows "cursor_inv bs low (find_next bs c)"
  using find_next_spec [of bs c] assms unfolding cursor_inv_def
  by (auto split: option.splits) (meson linorder_not_less)+

lemma cursor_inv_skip:
  "cursor_inv bs minimum c \<Longrightarrow> initialized c \<Longrightarrow>
   cursor_inv bs minimum (cursor_skip bs minimum c) \<and>
   (next_closer (cursor_skip bs minimum c) \<noteq> None \<longleftrightarrow> (\<exists>p\<ge>minimum. has bs p ''--]''))"
proof (induction bs minimum c rule: cursor_skip.induct)
  case (1 bs minimum c)
  show ?case
  proof (cases "next_closer c")
    case None
    with 1 show ?thesis by (auto simp: cursor_skip.simps [of bs minimum c] cursor_inv_def)
  next
    case (Some p)
    show ?thesis
    proof (cases "p < minimum")
      case True
      have "cursor_inv bs minimum (find_next bs c)"
        using "1.prems" Some True by (intro cursor_inv_find_next) (auto simp: cursor_inv_def)
      moreover have "initialized (find_next bs c)"
        using find_next_spec [of bs c] "1.prems" by simp
      ultimately show ?thesis
        using "1.IH" [OF Some True] Some True by (simp add: cursor_skip.simps [of bs minimum c])
    next
      case False
      with Some "1.prems" show ?thesis
        by (auto simp: cursor_skip.simps [of bs minimum c] cursor_inv_def)
    qed
  qed
qed

lemma has_at_or_after_spec:
  assumes "cursor_inv bs low c" and "low \<le> minimum"
  shows "fst (has_at_or_after bs minimum c) \<longleftrightarrow> (\<exists>p\<ge>minimum. has bs p ''--]'')"
    and "cursor_inv bs minimum (snd (has_at_or_after bs minimum c))"
proof -
  define c1 where "c1 = (if \<not> initialized c then find_next bs (c\<lparr>initialized := True\<rparr>) else c)"
  have "cursor_inv bs minimum c1 \<and> initialized c1"
  proof (cases "initialized c")
    case True
    with assms show ?thesis by (simp add: c1_def cursor_inv_mono)
  next
    case False
    have "cursor_inv bs minimum (find_next bs (c\<lparr>initialized := True\<rparr>))"
      using assms(1) False by (intro cursor_inv_find_next) (auto simp: cursor_inv_def)
    with False find_next_spec [of bs "c\<lparr>initialized := True\<rparr>"] show ?thesis
      by (simp add: c1_def)
  qed
  from cursor_inv_skip [OF this [THEN conjunct1] this [THEN conjunct2]]
  show "fst (has_at_or_after bs minimum c) \<longleftrightarrow> (\<exists>p\<ge>minimum. has bs p ''--]'')"
    and "cursor_inv bs minimum (snd (has_at_or_after bs minimum c))"
    by (simp_all add: has_at_or_after_def Let_def c1_def)
qed

subsection \<open>The main loop\<close>

record scan_state =
  tokens :: "extracted_token list"
  closers :: comment_closer_cursor
  comment_active :: bool
  closer_bracket :: "nat option"
  bracket_run :: "(char \<times> nat) option"
  index :: nat

definition can_slice :: "bytes \<Rightarrow> nat \<Rightarrow> nat \<Rightarrow> bool" where
  "can_slice text start e \<longleftrightarrow>
     start \<le> e \<and> e \<le> length text \<and> boundary text start \<and> boundary text e"

definition push_token ::
  "extracted_token list \<Rightarrow> bytes \<Rightarrow> token \<Rightarrow> nat \<Rightarrow> nat \<Rightarrow> extracted_token list option" where
  "push_token ts text token start e =
     (if can_slice text start e then Some (ts @ [mk_token text token start e]) else None)"

definition bracket_offset :: "char \<Rightarrow> nat \<Rightarrow> (char \<times> nat) option \<Rightarrow> (char \<times> nat) option \<times> nat" where
  "bracket_offset b start run =
     (if b = CHR ''['' \<or> b = CHR '']'' then
        (case run of
           Some (active, run_start) \<Rightarrow>
             if active = b then (run, start - run_start) else (Some (b, start), 0)
         | None \<Rightarrow> (Some (b, start), 0))
      else (None, 0))"

text \<open>
  The body of the loop in its four phases: the state of the comment before the token is read,
  the test for a comment opener (which may move the cursor), the token, and the state after it.
\<close>

definition comment_before :: "bytes \<Rightarrow> scan_state \<Rightarrow> bool \<times> nat option" where
  "comment_before text st =
     (let start = index st;
          closer_bracket1 = (if closer_bracket st = Some start then None else closer_bracket st)
      in case (if comment_active st then comment_closer_bracket_at text start else None) of
           Some bracket \<Rightarrow> (False, Some bracket)
         | None \<Rightarrow> (comment_active st, closer_bracket1))"

definition comment_opener ::
  "bytes \<Rightarrow> bool \<Rightarrow> nat \<Rightarrow> comment_closer_cursor \<Rightarrow> bool \<times> comment_closer_cursor" where
  "comment_opener text trailing_comment_closer start c =
     (if has text start ''[!--'' then
        if trailing_comment_closer then (True, c) else has_at_or_after text (start + 4) c
      else (False, c))"

definition comment_after ::
  "bytes \<Rightarrow> nat \<Rightarrow> token \<Rightarrow> nat \<Rightarrow> bool \<Rightarrow> nat option \<Rightarrow> bool \<times> nat option" where
  "comment_after text start token e was_comment_active bracket =
     (let (active, bracket') =
            (if was_comment_active \<and> ends_with (slice text start e) ''--'' \<and>
                get text e = Some (CHR '']'')
             then (False, Some e) else (was_comment_active, bracket))
      in (if token = LeftComment then True else active, bracket'))"

definition scan_step :: "bytes \<Rightarrow> bool \<Rightarrow> scan_state \<Rightarrow> scan_state option" where
  "scan_step text trailing_comment_closer st =
     (let start = index st;
          (run, bracket_run_offset) = bracket_offset (text ! start) start (bracket_run st);
          force_right_bracket = (closer_bracket st = Some start);
          (active1, bracket1) = comment_before text st;
          (valid_comment_opener, cursor) =
            comment_opener text trailing_comment_closer start (closers st)
      in case next_token text start valid_comment_opener force_right_bracket bracket_run_offset of
           None \<Rightarrow> None
         | Some (token, e) \<Rightarrow>
             let (active2, bracket2) = comment_after text start token e active1 bracket1
             in map_option
                  (\<lambda>ts. \<lparr>tokens = ts, closers = cursor, comment_active = active2,
                         closer_bracket = bracket2, bracket_run = run, index = e\<rparr>)
                  (push_token (tokens st) text token start e))"

text \<open>Whatever the flags of the state, a step is one \<open>next_token\<close> followed by one push.\<close>

definition step_token :: "bytes \<Rightarrow> bool \<Rightarrow> scan_state \<Rightarrow> (token \<times> nat) option" where
  "step_token text trailing st =
     next_token text (index st) (fst (comment_opener text trailing (index st) (closers st)))
       (closer_bracket st = Some (index st))
       (snd (bracket_offset (text ! index st) (index st) (bracket_run st)))"

lemma scan_step_Some:
  assumes "scan_step text trailing st = Some st'"
  obtains token where "step_token text trailing st = Some (token, index st')"
    and "push_token (tokens st) text token (index st) (index st') = Some (tokens st')"
    and "closers st' = snd (comment_opener text trailing (index st) (closers st))"
  using assms unfolding scan_step_def step_token_def Let_def case_prod_beta
  by (auto split: option.splits)

lemma scan_step_total:
  "step_token text trailing st = Some (token, e) \<Longrightarrow> can_slice text (index st) e \<Longrightarrow>
   scan_step text trailing st \<noteq> None"
  unfolding scan_step_def step_token_def Let_def case_prod_beta push_token_def by simp

lemma opener_has: "fst (comment_opener text trailing i c) \<longrightarrow> has text i ''[!--''"
  by (simp add: comment_opener_def)

lemma step_token_cases:
  assumes "index st < length text" and "step_token text trailing st = Some (t, e)"
  shows "advances text (index st) e \<or> next_char_end text (index st) = Some e"
  using assms(2) unfolding step_token_def by (rule next_token_cases [OF assms(1) opener_has])

lemma scan_step_progress:
  assumes "scan_step text trailing st = Some st'" and "index st < length text"
  shows "index st < index st'"
  using scan_step_Some [OF assms(1)] step_token_cases [OF assms(2)]
    next_char_end_advances(1) [OF assms(2)] by (metis advances_def)

function scan_loop :: "bytes \<Rightarrow> bool \<Rightarrow> scan_state \<Rightarrow> scan_state option" where
  "scan_loop text trailing st =
     (if index st < length text then
        (case scan_step text trailing st of
           None \<Rightarrow> None
         | Some st' \<Rightarrow> scan_loop text trailing st')
      else Some st)"
  by pat_completeness auto
termination
  by (relation "measure (\<lambda>(text, t, st). length text - index st)")
    (auto dest: scan_step_progress intro: diff_less_mono2)

declare scan_loop.simps [simp del]

definition extract_all_with_comment_scan_visits ::
  "bytes \<Rightarrow> bool \<Rightarrow> (extracted_token list \<times> nat) option" where
  "extract_all_with_comment_scan_visits text trailing_comment_closer =
     (case push_token [] text InputStart 0 0 of
        None \<Rightarrow> None
      | Some ts \<Rightarrow>
          (case scan_loop text trailing_comment_closer
                  \<lparr>tokens = ts, closers = cursor_new, comment_active = False,
                   closer_bracket = None, bracket_run = None, index = 0\<rparr> of
             None \<Rightarrow> None
           | Some st \<Rightarrow>
               map_option (\<lambda>us. (us, scan_visits (closers st)))
                 (push_token (tokens st) text InputEnd (length text) (length text))))"

definition extract_all_with_trailing_comment_closer ::
  "bytes \<Rightarrow> bool \<Rightarrow> extracted_token list option" where
  "extract_all_with_trailing_comment_closer text trailing_comment_closer =
     map_option fst (extract_all_with_comment_scan_visits text trailing_comment_closer)"

definition extract_all :: "bytes \<Rightarrow> extracted_token list option" where
  "extract_all text = extract_all_with_trailing_comment_closer text False"

subsection \<open>Comment openers\<close>

lemma scan_literal_comment:
  assumes "scan_literal bs i v f off = Some (LeftComment, e)"
  shows "v"
  using assms unfolding scan_literal_def Let_def by (elim if_SomeE) (auto split: if_splits)

lemma next_token_comment:
  assumes "next_token bs i v f off = Some (LeftComment, e)"
  shows "v"
proof -
  have "scan_newline bs i \<noteq> Some (LeftComment, e)"
    by (auto simp: scan_newline_def split: prod.splits)
  moreover have "scan_identifier_or_email bs i \<noteq> (LeftComment, e)"
    by (auto simp: scan_identifier_or_email_def Let_def)
  moreover have "scan_repeated_symbol bs i \<noteq> Some (LeftComment, e)"
    by (auto simp: scan_repeated_symbol_def Let_def)
  moreover have "v \<or> scan_literal bs i v f off \<noteq> Some (LeftComment, e)"
    using scan_literal_comment by blast
  ultimately show ?thesis
    using assms unfolding next_token_def Let_def
    by (elim if_SomeE) (auto split: option.splits if_splits)
qed

lemma next_token_opener:
  assumes "has bs i ''[!--''"
  shows "next_token bs i True f off = Some (LeftComment, i + 4)"
proof -
  have b: "i < length bs" "bs ! i = CHR ''[''" using has_0 [OF assms] by simp_all
  have none: "scan_variable bs i = None" "scan_newline bs i = None"
    using b by (auto simp: scan_variable_def scan_newline_def newline_loop.simps [of bs i]
                           scan_newline_once_def get_def dest!: has_0)
  have "scan_literal bs i True f off = Some (LeftComment, i + 4)"
    using b by (simp add: scan_literal_def)
  with b none show ?thesis
    by (simp add: next_token_def ascii_defs is_discarded_control_def)
qed

lemma next_token_total: "boundary bs i \<Longrightarrow> next_token bs i v f off \<noteq> None"
  by (auto simp: next_token_def Let_def next_char_end_def split: option.splits)

subsection \<open>The invariant of the main loop\<close>

definition comment_ok :: "bytes \<Rightarrow> bool \<Rightarrow> extracted_token \<Rightarrow> bool" where
  "comment_ok text trailing t \<longleftrightarrow>
     (et_token t = LeftComment \<longleftrightarrow>
      has text (et_start t) ''[!--'' \<and> (trailing \<or> (\<exists>p\<ge>et_start t + 4. has text p ''--]'')))"

definition on_boundaries :: "bytes \<Rightarrow> extracted_token \<Rightarrow> bool" where
  "on_boundaries text t \<longleftrightarrow> boundary text (et_start t) \<and> boundary text (et_end t)"

definition lex_inv :: "bytes \<Rightarrow> bool \<Rightarrow> scan_state \<Rightarrow> bool" where
  "lex_inv text trailing st \<longleftrightarrow>
     (\<exists>mid. tokens st = mk_token text InputStart 0 0 # mid \<and> tiles text 0 mid (index st) \<and>
            list_all (on_boundaries text) mid \<and> list_all (comment_ok text trailing) mid \<and>
            list_all (\<lambda>t. token_shape (et_token t) (et_slice t)) mid) \<and>
     index st \<le> length text \<and> boundary text (index st) \<and>
     cursor_inv text (index st + 4) (closers st)"

lemma step_token_advances:
  assumes "valid_utf8 text" and "boundary text (index st)" and "index st < length text"
    and "step_token text trailing st = Some (t, e)"
  shows "advances text (index st) e"
  using step_token_cases [OF assms(3,4)] next_char_end_advances(2) [OF assms(3) _ assms(1,2)] by blast

lemma step_token_comment:
  assumes "cursor_inv text (index st + 4) (closers st)"
    and "step_token text trailing st = Some (t, e)"
  shows "comment_ok text trailing (mk_token text t (index st) e)"
proof -
  let ?v = "fst (comment_opener text trailing (index st) (closers st))"
  have v: "?v \<longleftrightarrow> has text (index st) ''[!--'' \<and>
      (trailing \<or> (\<exists>p\<ge>index st + 4. has text p ''--]''))"
    using has_at_or_after_spec(1) [OF assms(1) order_refl] by (simp add: comment_opener_def)
  have "t = LeftComment \<longleftrightarrow> ?v"
  proof
    assume "t = LeftComment"
    with assms(2) show ?v unfolding step_token_def by (auto dest: next_token_comment)
  next
    assume v: ?v
    with opener_has have "has text (index st) ''[!--''" by blast
    from next_token_opener [OF this] assms(2) v show "t = LeftComment"
      by (simp add: step_token_def)
  qed
  with v show ?thesis by (simp add: comment_ok_def)
qed

lemma step_token_shape:
  assumes "index st < length text" and "step_token text trailing st = Some (t, e)" and "e \<le> length text"
  shows "token_shape t (slice text (index st) e)"
  using assms(2) unfolding step_token_def
  by (rule next_token_shape [OF assms(1) opener_has _ assms(3)])

lemma scan_step_inv:
  assumes "valid_utf8 text" and "lex_inv text trailing st" and "index st < length text"
  shows "\<exists>st'. scan_step text trailing st = Some st' \<and> lex_inv text trailing st'"
proof -
  from assms(2) obtain mid where mid: "tokens st = mk_token text InputStart 0 0 # mid"
    "tiles text 0 mid (index st)" "list_all (on_boundaries text) mid"
    "list_all (comment_ok text trailing) mid" "list_all (\<lambda>t. token_shape (et_token t) (et_slice t)) mid"
    and b: "boundary text (index st)" and c: "cursor_inv text (index st + 4) (closers st)"
    by (auto simp: lex_inv_def)
  have "step_token text trailing st \<noteq> None"
    unfolding step_token_def using next_token_total [OF b] .
  then obtain t e where t: "step_token text trailing st = Some (t, e)" by auto
  have adv: "index st < e" "e \<le> length text" "boundary text e"
    using step_token_advances [OF assms(1) b assms(3) t] assms(1) b by (auto simp: advances_def)
  then have "scan_step text trailing st \<noteq> None"
    using b t by (intro scan_step_total) (auto simp: can_slice_def)
  then obtain st' where st': "scan_step text trailing st = Some st'" by auto
  then obtain u where u: "step_token text trailing st = Some (u, index st')"
    "push_token (tokens st) text u (index st) (index st') = Some (tokens st')"
    "closers st' = snd (comment_opener text trailing (index st) (closers st))"
    by (rule scan_step_Some)
  from u(1) t have e: "u = t" "index st' = e" by auto
  have "tokens st' = mk_token text InputStart 0 0 # mid @ [mk_token text t (index st) e]"
    using u(2) mid(1) e by (auto simp: push_token_def split: if_splits)
  moreover have "cursor_inv text (e + 4) (closers st')"
    using has_at_or_after_spec(2) [OF c order_refl] c adv(1)
    by (auto simp: u(3) comment_opener_def elim!: cursor_inv_mono)
  ultimately have "lex_inv text trailing st'"
    using mid adv b step_token_comment [OF c t] step_token_shape [OF assms(3) t adv(2)] e
    by (auto simp: lex_inv_def tiles_append on_boundaries_def)
  with st' show ?thesis by blast
qed

lemma scan_loop_inv:
  "valid_utf8 bs \<Longrightarrow> lex_inv bs trailing st \<Longrightarrow>
   \<exists>st'. scan_loop bs trailing st = Some st' \<and> lex_inv bs trailing st' \<and> index st' = length bs"
proof (induction bs trailing st rule: scan_loop.induct)
  case (1 bs trailing st)
  show ?case
  proof (cases "index st < length bs")
    case True
    with "1.prems" obtain st' where st': "scan_step bs trailing st = Some st'"
      "lex_inv bs trailing st'" using scan_step_inv by blast
    from "1.IH" [OF True st'(1) "1.prems"(1) st'(2)] True st'(1) show ?thesis
      by (simp add: scan_loop.simps [of bs trailing st])
  next
    case False
    with "1.prems" show ?thesis
      by (auto simp: scan_loop.simps [of bs trailing st] lex_inv_def)
  qed
qed

text \<open>What the lexer returns, for every valid text.\<close>

lemma extract_all_spec:
  assumes "valid_utf8 text"
  obtains mid visits where
    "extract_all_with_comment_scan_visits text trailing =
       Some (mk_token text InputStart 0 0 # mid @
             [mk_token text InputEnd (length text) (length text)], visits)"
    and "tiles text 0 mid (length text)" and "list_all (on_boundaries text) mid"
    and "list_all (comment_ok text trailing) mid"
    and "list_all (\<lambda>t. token_shape (et_token t) (et_slice t)) mid" and "visits \<le> length text"
proof -
  let ?st = "\<lparr>tokens = [mk_token text InputStart 0 0], closers = cursor_new, comment_active = False,
              closer_bracket = None, bracket_run = None, index = 0\<rparr>"
  have "lex_inv text trailing ?st" by (simp add: lex_inv_def cursor_inv_new)
  with scan_loop_inv [OF assms] obtain st where st: "scan_loop text trailing ?st = Some st"
    "lex_inv text trailing st" "index st = length text" by blast
  then obtain mid where "tokens st = mk_token text InputStart 0 0 # mid"
    "tiles text 0 mid (length text)" "list_all (on_boundaries text) mid"
    "list_all (comment_ok text trailing) mid"
    "list_all (\<lambda>t. token_shape (et_token t) (et_slice t)) mid" "scan_visits (closers st) \<le> length text"
    by (auto simp: lex_inv_def cursor_inv_def)
  with st(1) show thesis
    by (intro that [of mid "scan_visits (closers st)"])
      (auto simp: extract_all_with_comment_scan_visits_def push_token_def can_slice_def)
qed

lemma extract_all_eq:
  assumes "valid_utf8 text"
  obtains mid where
    "extract_all_with_trailing_comment_closer text trailing =
       Some (mk_token text InputStart 0 0 # mid @
             [mk_token text InputEnd (length text) (length text)])"
    and "tiles text 0 mid (length text)" and "list_all (on_boundaries text) mid"
    and "list_all (comment_ok text trailing) mid"
    and "list_all (\<lambda>t. token_shape (et_token t) (et_slice t)) mid"
  using assms by (rule extract_all_spec [of _ trailing])
    (auto simp: extract_all_with_trailing_comment_closer_def)

lemma valid_ascii: "list_all is_ascii s \<Longrightarrow> valid_utf8 s"
proof (induction s)
  case (Cons c s)
  then show ?case using valid_append_char [of "[c]" s] by (simp add: is_ascii_def)
qed simp

subsection \<open>Properties\<close>

text \<open>
  C1: The lexer never panics on a Rust string and loses nothing: between one \<open>InputStart\<close> and one
  \<open>InputEnd\<close> the tokens tile the text with consecutive non-empty spans that start and end on
  character boundaries, whether or not a trailing comment closer is assumed.
\<close>

theorem lexer_tiles_text:
  assumes "valid_utf8 text"
  shows "\<exists>mid. extract_all_with_trailing_comment_closer text trailing =
           Some (mk_token text InputStart 0 0 # mid @
                 [mk_token text InputEnd (length text) (length text)]) \<and>
         tiles text 0 mid (length text) \<and> list_all (on_boundaries text) mid"
  using assms by (rule extract_all_eq [of _ trailing]) blast

lemma lexer_tiles_text_witness:
  "\<exists>mid. extract_all_with_trailing_comment_closer ''[[a]] [!--'' True =
           Some (mk_token ''[[a]] [!--'' InputStart 0 0 # mid @
                 [mk_token ''[[a]] [!--'' InputEnd 10 10]) \<and>
         tiles ''[[a]] [!--'' 0 mid 10 \<and> list_all (on_boundaries ''[[a]] [!--'') mid"
  using lexer_tiles_text [of "''[[a]] [!--''" True] by (simp add: valid_ascii is_ascii_def eval_nat_numeral)

text \<open>
  Concatenating the slices of the tokens gives the text back, and there are at most two
  more tokens than bytes.
\<close>

theorem lexer_lossless:
  assumes "valid_utf8 text"
  shows "\<exists>ts. extract_all text = Some ts \<and> concat (map et_slice ts) = text \<and>
              length ts \<le> length text + 2"
proof -
  obtain mid where mid: "extract_all_with_trailing_comment_closer text False =
       Some (mk_token text InputStart 0 0 # mid @
             [mk_token text InputEnd (length text) (length text)])"
    "tiles text 0 mid (length text)"
    using assms by (rule extract_all_eq)
  then show ?thesis
    using tiles_concat [OF mid(2)] tiles_length [OF mid(2)]
    by (auto simp: extract_all_def)
qed

lemma lexer_lossless_witness:
  "\<exists>ts. extract_all ''**b** $]]'' = Some ts \<and> concat (map et_slice ts) = ''**b** $]]'' \<and>
        length ts \<le> 11"
  using lexer_lossless [of "''**b** $]]''"] by (simp add: valid_ascii is_ascii_def eval_nat_numeral)

text \<open>
  A token is a comment opener exactly where the text reads \<open>[!--\<close> and a closer \<open>--]\<close> follows
  it (or the segment after the text is known to bring one): an unclosed comment never swallows
  the page.
\<close>

theorem comment_opener_iff_closed:
  assumes "valid_utf8 text"
  shows "\<exists>ts. extract_all_with_trailing_comment_closer text trailing = Some ts \<and>
    (\<forall>t \<in> set ts. et_token t \<noteq> InputStart \<longrightarrow> et_token t \<noteq> InputEnd \<longrightarrow>
       (et_token t = LeftComment \<longleftrightarrow>
        has text (et_start t) ''[!--'' \<and>
        (trailing \<or> (\<exists>p\<ge>et_start t + 4. has text p ''--]''))))"
  using assms by (rule extract_all_eq [of _ trailing]) (auto simp: comment_ok_def list_all_iff)

lemma comment_opener_iff_closed_witness:
  "\<exists>ts. extract_all_with_trailing_comment_closer ''[!--x--]'' False = Some ts \<and>
    (\<forall>t \<in> set ts. et_token t \<noteq> InputStart \<longrightarrow> et_token t \<noteq> InputEnd \<longrightarrow>
       (et_token t = LeftComment \<longleftrightarrow>
        has ''[!--x--]'' (et_start t) ''[!--'' \<and>
        (\<exists>p\<ge>et_start t + 4. has ''[!--x--]'' p ''--]'')))"
  using comment_opener_iff_closed [of "''[!--x--]''" False] by (simp add: valid_ascii is_ascii_def eval_nat_numeral)

text \<open>
  C11: Every token between \<open>InputStart\<close> and \<open>InputEnd\<close> spells its kind: punctuation tokens carry
  exactly their literal, identifiers are non-empty and alphanumeric, variables read \<open>{$name}\<close>,
  dividers and float clears have at least four symbols, headings one to six, URLs one of the four
  schemes and a body, and no lexed token has a kind reserved for generated text.
\<close>

theorem token_slices_spell_their_kind:
  assumes "valid_utf8 text"
  shows "\<exists>mid. extract_all_with_trailing_comment_closer text trailing =
           Some (mk_token text InputStart 0 0 # mid @
                 [mk_token text InputEnd (length text) (length text)]) \<and>
         (\<forall>t \<in> set mid. token_shape (et_token t) (et_slice t))"
  using assms by (rule extract_all_eq [of _ trailing]) (auto simp: list_all_iff)

lemma token_slices_spell_their_kind_witness:
  "\<exists>mid. extract_all_with_trailing_comment_closer ''+ h ~~~~'' False =
           Some (mk_token ''+ h ~~~~'' InputStart 0 0 # mid @ [mk_token ''+ h ~~~~'' InputEnd 8 8]) \<and>
         (\<forall>t \<in> set mid. token_shape (et_token t) (et_slice t))"
  using token_slices_spell_their_kind [of "''+ h ~~~~''" False] by (simp add: valid_ascii is_ascii_def eval_nat_numeral)

text \<open>
  Looking for comment closers is linear: over a whole run the cursor inspects each
  position of the text at most once, however many openers ask.
\<close>

theorem comment_scan_linear:
  assumes "valid_utf8 text"
  shows "\<exists>ts visits. extract_all_with_comment_scan_visits text trailing = Some (ts, visits) \<and>
                     visits \<le> length text"
  using assms by (rule extract_all_spec [of _ trailing]) blast

lemma comment_scan_linear_witness:
  "\<exists>ts visits. extract_all_with_comment_scan_visits ''[!--[!--a'' False = Some (ts, visits) \<and> visits \<le> 9"
  using comment_scan_linear [of "''[!--[!--a''" False] by (simp add: valid_ascii is_ascii_def eval_nat_numeral)

end
