(* ===== verification/Tokenizer.thy ===== *)
theory Tokenizer
  imports Lexer
begin

text \<open>
  \<open>src/src/tokenizer.rs\<close> and the validated segmented input of \<open>src/src/delayed.rs\<close>: a page whose
  runtime values are delayed is a sequence of segments.  Authored text and source-identical
  runtime text is lexed; scalars become one opaque token; generated slots become an empty token
  at the slot.  A slice off a character boundary panics, which is \<open>None\<close>.
\<close>

subsection \<open>Segments\<close>

datatype generated_kind = PageLink | TagLinks

datatype text_origin = Authored | RuntimeScalar | RuntimeLiteral

record generated_input =
  gi_start :: nat
  gi_end :: nat
  gi_id :: nat
  gi_kind :: generated_kind
  gi_occurrence :: nat

datatype input_segment = TextSegment nat nat text_origin | Generated generated_input

fun source_range :: "input_segment \<Rightarrow> nat \<times> nat" where
  "source_range (TextSegment i j origin) = (i, j)"
| "source_range (Generated g) = (gi_start g, gi_end g)"

datatype delayed_error =
  InvalidSegments | DuplicateBinding | BindingSchemaMismatch | UnresolvedGeneratedOwner | WrongMode

datatype delayed_marker =
  GeneratedMarker generated_input | RuntimeLiteralMarker nat nat | RuntimeScalarMarker nat nat

fun marker_generated :: "delayed_marker \<Rightarrow> generated_input option" where
  "marker_generated (GeneratedMarker g) = Some g"
| "marker_generated (RuntimeLiteralMarker i j) = None"
| "marker_generated (RuntimeScalarMarker i j) = None"

fun marker_runtime_literal :: "delayed_marker \<Rightarrow> (nat \<times> nat) option" where
  "marker_runtime_literal (RuntimeLiteralMarker i j) = Some (i, j)"
| "marker_runtime_literal (GeneratedMarker g) = None"
| "marker_runtime_literal (RuntimeScalarMarker i j) = None"

fun marker_runtime_scalar :: "delayed_marker \<Rightarrow> (nat \<times> nat) option" where
  "marker_runtime_scalar (RuntimeScalarMarker i j) = Some (i, j)"
| "marker_runtime_scalar (GeneratedMarker g) = None"
| "marker_runtime_scalar (RuntimeLiteralMarker i j) = None"

type_synonym markers = "nat \<rightharpoonup> delayed_marker"

record tokenization =
  tk_tokens :: "extracted_token list"
  tk_full_text :: bytes
  tk_markers :: markers

definition with_tokens :: "tokenization \<Rightarrow> extracted_token list \<Rightarrow> tokenization" where
  "with_tokens t ts = t\<lparr>tk_tokens := ts\<rparr>"

definition tokenize :: "bytes \<Rightarrow> tokenization option" where
  "tokenize text =
     map_option (\<lambda>ts. \<lparr>tk_tokens = ts, tk_full_text = text, tk_markers = Map.empty\<rparr>) (extract_all text)"

subsection \<open>Tokenizing segments\<close>

definition lexed_origin :: "text_origin \<Rightarrow> bool" where
  "lexed_origin origin \<longleftrightarrow> origin = Authored \<or> origin = RuntimeLiteral"

text \<open>
  \<open>trailing[index]\<close> says whether a later authored or literal segment holds a comment closer; the
  reverse loop with \<open>found\<close> is a right fold.
\<close>

fun segment_has_closer :: "bytes \<Rightarrow> input_segment \<Rightarrow> bool" where
  "segment_has_closer text (TextSegment i j origin) \<longleftrightarrow>
     lexed_origin origin \<and> contains_sub (slice text i j) ''--]''"
| "segment_has_closer text (Generated g) \<longleftrightarrow> False"

fun trailing_closers_loop :: "bytes \<Rightarrow> input_segment list \<Rightarrow> bool list \<times> bool" where
  "trailing_closers_loop text [] = ([], False)"
| "trailing_closers_loop text (s # ss) =
     (let (trailing, found) = trailing_closers_loop text ss
      in (found # trailing, found \<or> segment_has_closer text s))"

definition trailing_authored_comment_closers :: "bytes \<Rightarrow> input_segment list \<Rightarrow> bool list" where
  "trailing_authored_comment_closers text segments = fst (trailing_closers_loop text segments)"

text \<open>The inner loop that merges following text segments of the same origin.\<close>

fun merge_text ::
  "text_origin \<Rightarrow> nat \<Rightarrow> bool \<Rightarrow> (input_segment \<times> bool) list \<Rightarrow>
   nat \<times> bool \<times> (input_segment \<times> bool) list" where
  "merge_text origin e trailing ((TextSegment i j next_origin, next_trailing) # rest) =
     (if next_origin \<noteq> origin then (e, trailing, (TextSegment i j next_origin, next_trailing) # rest)
      else merge_text origin j next_trailing rest)"
| "merge_text origin e trailing rest = (e, trailing, rest)"

lemma merge_text_length:
  "merge_text origin e trailing rest = (e', trailing', rest') \<Longrightarrow> length rest' \<le> length rest"
  by (induction origin e trailing rest rule: merge_text.induct) (auto split: if_splits)

definition shift_token :: "nat \<Rightarrow> extracted_token \<Rightarrow> extracted_token" where
  "shift_token start t = t\<lparr>et_start := et_start t + start, et_end := et_end t + start\<rparr>"

definition is_input_edge :: "extracted_token \<Rightarrow> bool" where
  "is_input_edge t \<longleftrightarrow> et_token t = InputStart \<or> et_token t = InputEnd"

definition lex_segment :: "bytes \<Rightarrow> nat \<Rightarrow> nat \<Rightarrow> bool \<Rightarrow> extracted_token list option" where
  "lex_segment text start e trailing =
     map_option (\<lambda>ts. map (shift_token start) (filter (\<lambda>t. \<not> is_input_edge t) ts))
       (extract_all_with_trailing_comment_closer (slice text start e) trailing)"

fun generated_token :: "generated_kind \<Rightarrow> token" where
  "generated_token PageLink = GeneratedPageLink"
| "generated_token TagLinks = GeneratedTagLinks"

definition tokenize_text ::
  "bytes \<Rightarrow> text_origin \<Rightarrow> nat \<Rightarrow> nat \<Rightarrow> bool \<Rightarrow> extracted_token list \<times> markers \<Rightarrow>
   (extracted_token list \<times> markers) option" where
  "tokenize_text text origin start e trailing acc =
     (if \<not> can_slice text start e then None
      else if lexed_origin origin then
        map_option
          (\<lambda>ts. (fst acc @ ts,
                 if origin = RuntimeLiteral then (snd acc)(start \<mapsto> RuntimeLiteralMarker start e) else snd acc))
          (lex_segment text start e trailing)
      else if slice text start e \<noteq> [] then
        Some (fst acc @ [mk_token text RuntimeText start e],
              (snd acc)(start \<mapsto> RuntimeScalarMarker start e))
      else Some acc)"

definition tokenize_generated ::
  "bytes \<Rightarrow> generated_input \<Rightarrow> extracted_token list \<times> markers \<Rightarrow>
   (extracted_token list \<times> markers) option" where
  "tokenize_generated text g acc =
     (let start = gi_start g in
      map_option (\<lambda>ts. (ts, (snd acc)(start \<mapsto> GeneratedMarker g)))
        (push_token (fst acc) text (generated_token (gi_kind g)) start start))"

function tokenize_loop ::
  "bytes \<Rightarrow> (input_segment \<times> bool) list \<Rightarrow> extracted_token list \<times> markers \<Rightarrow>
   (extracted_token list \<times> markers) option" where
  "tokenize_loop text [] acc = Some acc"
| "tokenize_loop text ((TextSegment start e origin, trailing) # rest) acc =
     (case merge_text origin e trailing rest of
        (e', trailing', rest') \<Rightarrow>
          (case tokenize_text text origin start e' trailing' acc of
             None \<Rightarrow> None
           | Some acc' \<Rightarrow> tokenize_loop text rest' acc'))"
| "tokenize_loop text ((Generated g, trailing) # rest) acc =
     (case tokenize_generated text g acc of
        None \<Rightarrow> None
      | Some acc' \<Rightarrow> tokenize_loop text rest acc')"
  by pat_completeness auto
termination
  by (relation "measure (\<lambda>(text, segments, acc). length segments)")
    (auto simp: less_Suc_eq_le dest!: merge_text_length [OF sym])

definition tokenize_delayed_segments :: "bytes \<Rightarrow> input_segment list \<Rightarrow> tokenization option" where
  "tokenize_delayed_segments text segments =
     (case push_token [] text InputStart 0 0 of
        None \<Rightarrow> None
      | Some ts \<Rightarrow>
          (case tokenize_loop text
                  (zip segments (trailing_authored_comment_closers text segments)) (ts, Map.empty) of
             None \<Rightarrow> None
           | Some (us, markers) \<Rightarrow>
               map_option (\<lambda>vs. \<lparr>tk_tokens = vs, tk_full_text = text, tk_markers = markers\<rparr>)
                 (push_token us text InputEnd (length text) (length text))))"

subsection \<open>Validated input\<close>

record delayed_input =
  di_segments :: "input_segment list"
  di_tokenization :: tokenization

definition segment_ok :: "bytes \<Rightarrow> nat \<Rightarrow> (nat \<times> nat) set \<Rightarrow> input_segment \<Rightarrow> bool" where
  "segment_ok source cursor occurrences segment \<longleftrightarrow>
     (case source_range segment of (i, j) \<Rightarrow>
        i = cursor \<and> i \<le> j \<and> j \<le> length source \<and> boundary source i \<and> boundary source j \<and>
        (case segment of
           Generated g \<Rightarrow> (gi_id g, gi_occurrence g) \<notin> occurrences \<and> gi_start g \<noteq> gi_end g
         | TextSegment _ _ _ \<Rightarrow> True))"

fun validate_loop ::
  "bytes \<Rightarrow> nat \<Rightarrow> (nat \<times> nat) set \<Rightarrow> input_segment list \<Rightarrow> nat option" where
  "validate_loop source cursor occurrences [] = Some cursor"
| "validate_loop source cursor occurrences (s # ss) =
     (if segment_ok source cursor occurrences s then
        validate_loop source (snd (source_range s))
          (case s of Generated g \<Rightarrow> insert (gi_id g, gi_occurrence g) occurrences
                   | TextSegment _ _ _ \<Rightarrow> occurrences) ss
      else None)"

text \<open>The outer option is the panic, the inner sum the \<open>Result\<close>.\<close>

definition delayed_input_new ::
  "bytes \<Rightarrow> input_segment list \<Rightarrow> (delayed_error + delayed_input) option" where
  "delayed_input_new source segments =
     (if segments = [] then Some (Inl InvalidSegments)
      else case validate_loop source 0 {} segments of
        None \<Rightarrow> Some (Inl InvalidSegments)
      | Some cursor \<Rightarrow>
          if cursor \<noteq> length source then Some (Inl InvalidSegments)
          else map_option (\<lambda>t. Inr \<lparr>di_segments = segments, di_tokenization = t\<rparr>)
                 (tokenize_delayed_segments source segments))"

subsection \<open>Contiguous segments\<close>

text \<open>What \<open>DelayedInput::new\<close> checks of the ranges, as a predicate.\<close>

fun contiguous :: "bytes \<Rightarrow> nat \<Rightarrow> input_segment list \<Rightarrow> nat \<Rightarrow> bool" where
  "contiguous source c [] d \<longleftrightarrow> c = d"
| "contiguous source c (s # ss) d \<longleftrightarrow>
     (case source_range s of (i, j) \<Rightarrow>
        i = c \<and> i \<le> j \<and> j \<le> length source \<and> boundary source i \<and> boundary source j \<and>
        contiguous source j ss d)"

definition generated_nonempty :: "input_segment \<Rightarrow> bool" where
  "generated_nonempty s \<longleftrightarrow> (case s of Generated g \<Rightarrow> gi_start g \<noteq> gi_end g | TextSegment _ _ _ \<Rightarrow> True)"

lemma generated_nonempty_simps [simp]:
  "generated_nonempty (TextSegment i j origin)"
  "generated_nonempty (Generated g) \<longleftrightarrow> gi_start g \<noteq> gi_end g"
  by (simp_all add: generated_nonempty_def)

fun generated_ids :: "input_segment list \<Rightarrow> (nat \<times> nat) list" where
  "generated_ids [] = []"
| "generated_ids (TextSegment i j origin # ss) = generated_ids ss"
| "generated_ids (Generated g # ss) = (gi_id g, gi_occurrence g) # generated_ids ss"

lemma validate_loop_iff:
  "validate_loop source c occ ss = Some d \<longleftrightarrow>
   contiguous source c ss d \<and> list_all generated_nonempty ss \<and>
   distinct (generated_ids ss) \<and> set (generated_ids ss) \<inter> occ = {}"
proof (induction ss arbitrary: c occ)
  case (Cons s ss)
  show ?case
    by (cases s) (auto simp: Cons.IH segment_ok_def)
qed auto

lemma contiguous_append:
  "contiguous source c (ss @ ts) e \<longleftrightarrow> (\<exists>d. contiguous source c ss d \<and> contiguous source d ts e)"
  by (induction ss arbitrary: c) (auto split: prod.splits)

lemma contiguous_le: "contiguous source c ss d \<Longrightarrow> c \<le> d"
  by (induction ss arbitrary: c) (auto intro: order_trans)

lemma merge_text_run:
  "merge_text origin e trailing rest = (e', trailing', rest') \<Longrightarrow> contiguous source e (map fst rest) d \<Longrightarrow>
   boundary source e \<Longrightarrow> e \<le> length source \<Longrightarrow>
   \<exists>run. map fst rest = run @ map fst rest' \<and> contiguous source e run e' \<and>
         contiguous source e' (map fst rest') d \<and> boundary source e' \<and> e' \<le> length source \<and>
         (\<forall>s\<in>set run. \<exists>i j. s = TextSegment i j origin)"
proof (induction origin e trailing rest rule: merge_text.induct)
  case (1 origin e trailing i j next_origin next_trailing rest)
  show ?case
  proof (cases "next_origin = origin")
    case True
    with 1 obtain run where "map fst rest = run @ map fst rest'" "contiguous source j run e'"
      "contiguous source e' (map fst rest') d" "boundary source e'" "e' \<le> length source"
      "\<forall>s\<in>set run. \<exists>i j. s = TextSegment i j origin" by auto
    with True "1.prems" show ?thesis
      by (intro exI [of _ "TextSegment i j origin # run"]) auto
  next
    case False
    with "1.prems" show ?thesis by auto
  qed
qed auto

subsection \<open>What the tokens of segments cover\<close>

lemma slice_slice: "b + s \<le> e \<Longrightarrow> slice (slice text s e) a b = slice text (a + s) (b + s)"
  by (simp add: slice_def drop_take add.commute min_def)

lemma tiles_shift:
  "tiles (slice text s e) i ts j \<Longrightarrow> s \<le> e \<Longrightarrow> e \<le> length text \<Longrightarrow>
   tiles text (i + s) (map (shift_token s) ts) (j + s)"
  by (induction ts arbitrary: i) (auto simp: shift_token_def length_slice slice_slice)

lemma valid_slice:
  assumes "valid_utf8 text" and "can_slice text i j"
  shows "valid_utf8 (slice text i j)"
proof -
  from assms have j: "valid_utf8 (take j text)" and ij: "i \<le> j" "j \<le> length text"
    by (auto simp: can_slice_def dest: boundary_split)
  from assms have "valid_utf8 (take i text)" by (auto simp: can_slice_def dest: boundary_split)
  moreover have "take j text = take i text @ slice text i j"
    using ij by (simp add: slice_def flip: take_add)
  ultimately show ?thesis using j valid_utf8_append by metis
qed

lemma boundary_slice:
  assumes "boundary (slice text s e) i" and "i \<le> e - s" and "can_slice text s e"
  shows "boundary text (i + s)"
  using assms by (auto simp: boundary_def can_slice_def slice_def add.commute)

text \<open>No lexed token has a kind of its own for the edges or for generated text.\<close>

lemma token_shape_lexed:
  "token_shape t s \<Longrightarrow>
   t \<notin> {InputStart, InputEnd, RuntimeText, GeneratedPageLink, GeneratedTagLinks}"
  by (auto simp: token_shape_def spelling_def spellings_def)

definition lexed_token :: "extracted_token \<Rightarrow> bool" where
  "lexed_token t \<longleftrightarrow>
     et_token t \<notin> {InputStart, InputEnd, RuntimeText, GeneratedPageLink, GeneratedTagLinks}"

lemma lex_segment_spec:
  assumes "valid_utf8 text" and "can_slice text start e"
  shows "\<exists>ts. lex_segment text start e trailing = Some ts \<and> tiles text start ts e \<and>
    (\<forall>t\<in>set ts. on_boundaries text t \<and> lexed_token t)"
proof -
  let ?s = "slice text start e"
  have len: "length ?s = e - start" "start \<le> e" "e \<le> length text"
    using assms(2) by (auto simp: can_slice_def length_slice)
  obtain mid where mid: "extract_all_with_trailing_comment_closer ?s trailing =
       Some (mk_token ?s InputStart 0 0 # mid @ [mk_token ?s InputEnd (length ?s) (length ?s)])"
    "tiles ?s 0 mid (length ?s)" "list_all (on_boundaries ?s) mid"
    "list_all (\<lambda>t. token_shape (et_token t) (et_slice t)) mid"
    using valid_slice [OF assms] by (rule extract_all_eq)
  have "\<forall>t\<in>set mid. \<not> is_input_edge t \<and> lexed_token t"
    using mid(4) token_shape_lexed by (fastforce simp: is_input_edge_def lexed_token_def list_all_iff)
  moreover from this have "filter (\<lambda>t. \<not> is_input_edge t) mid = mid" by (simp add: filter_id_conv)
  moreover have "tiles text start (map (shift_token start) mid) e"
    using tiles_shift [OF mid(2)] len by simp
  moreover have "\<forall>t\<in>set mid. on_boundaries text (shift_token start t)"
  proof
    fix t assume "t \<in> set mid"
    with mid(2,3) have "on_boundaries ?s t" "et_start t \<le> e - start" "et_end t \<le> e - start"
      using tiles_bounds len by (fastforce simp: list_all_iff)+
    then show "on_boundaries text (shift_token start t)"
      using boundary_slice [OF _ _ assms(2)] by (simp add: on_boundaries_def shift_token_def)
  qed
  ultimately show ?thesis
    using mid(1) by (auto simp: lex_segment_def is_input_edge_def shift_token_def lexed_token_def)
qed

fun segment_text :: "bytes \<Rightarrow> input_segment \<Rightarrow> bytes" where
  "segment_text text (TextSegment i j origin) = slice text i j"
| "segment_text text (Generated g) = []"

fun generated_slots :: "input_segment list \<Rightarrow> (token \<times> nat) list" where
  "generated_slots [] = []"
| "generated_slots (TextSegment i j origin # ss) = generated_slots ss"
| "generated_slots (Generated g # ss) = (generated_token (gi_kind g), gi_start g) # generated_slots ss"

definition is_generated_token :: "extracted_token \<Rightarrow> bool" where
  "is_generated_token t \<longleftrightarrow> et_token t = GeneratedPageLink \<or> et_token t = GeneratedTagLinks"

definition token_slots :: "extracted_token list \<Rightarrow> (token \<times> nat) list" where
  "token_slots ts = map (\<lambda>t. (et_token t, et_start t)) (filter is_generated_token ts)"

text \<open>Every byte of the token comes from a text segment of an origin in \<open>P\<close>.\<close>

definition from_origin :: "input_segment list \<Rightarrow> (text_origin \<Rightarrow> bool) \<Rightarrow> extracted_token \<Rightarrow> bool" where
  "from_origin segs P t \<longleftrightarrow>
     (\<forall>k. et_start t \<le> k \<and> k < et_end t \<longrightarrow>
        (\<exists>i j origin. TextSegment i j origin \<in> set segs \<and> i \<le> k \<and> k < j \<and> P origin))"

definition marked :: "markers \<Rightarrow> input_segment list \<Rightarrow> extracted_token \<Rightarrow> bool" where
  "marked m segs t \<longleftrightarrow>
     (if et_token t = RuntimeText then
        from_origin segs (\<lambda>origin. origin = RuntimeScalar) t \<and>
        m (et_start t) = Some (RuntimeScalarMarker (et_start t) (et_end t))
      else if is_generated_token t then
        et_start t = et_end t \<and>
        (\<exists>g. Generated g \<in> set segs \<and> et_start t = gi_start g \<and>
             et_token t = generated_token (gi_kind g) \<and> m (et_start t) = Some (GeneratedMarker g))
      else lexed_token t \<and> from_origin segs lexed_origin t)"

definition placed :: "bytes \<Rightarrow> nat \<Rightarrow> nat \<Rightarrow> extracted_token \<Rightarrow> bool" where
  "placed text c d t \<longleftrightarrow>
     c \<le> et_start t \<and> et_start t < d \<and> et_start t \<le> et_end t \<and> et_end t \<le> d \<and> d \<le> length text \<and>
     et_slice t = slice text (et_start t) (et_end t) \<and> on_boundaries text t"

definition emitted ::
  "bytes \<Rightarrow> markers \<Rightarrow> nat \<Rightarrow> input_segment list \<Rightarrow> extracted_token list \<Rightarrow> nat \<Rightarrow> bool" where
  "emitted text m c segs ts d \<longleftrightarrow>
     concat (map et_slice ts) = concat (map (segment_text text) segs) \<and>
     list_all (placed text c d) ts \<and> sorted_wrt (\<lambda>a b. et_end a \<le> et_start b) ts \<and>
     list_all (marked m segs) ts \<and> token_slots ts = generated_slots segs"

lemma generated_slots_append: "generated_slots (xs @ ys) = generated_slots xs @ generated_slots ys"
  by (induction xs rule: generated_slots.induct) auto

lemma from_origin_mono:
  "from_origin segs P t \<Longrightarrow> set segs \<subseteq> set segs' \<Longrightarrow> from_origin segs' P t"
  by (fastforce simp: from_origin_def)

lemma marked_mono:
  assumes "marked m segs t" and "set segs \<subseteq> set segs'" and "m' (et_start t) = m (et_start t)"
  shows "marked m' segs' t"
  using assms from_origin_mono [OF _ assms(2)] by (auto simp: marked_def split: if_splits)

lemma emitted_append:
  assumes "emitted text m c ss ts d" and "emitted text m' d ss' ts' e"
    and "\<And>k. k < d \<Longrightarrow> m' k = m k" and "c \<le> d" and "d \<le> e" and "e \<le> length text"
  shows "emitted text m' c (ss @ ss') (ts @ ts') e"
proof -
  have p: "t \<in> set ts \<Longrightarrow> placed text c d t" and p': "t \<in> set ts' \<Longrightarrow> placed text d e t" for t
    using assms(1,2) by (auto simp: emitted_def list_all_iff)
  have m: "marked m' (ss @ ss') t" if "t \<in> set ts" for t
  proof (rule marked_mono)
    show "marked m ss t" using assms(1) that by (simp add: emitted_def list_all_iff)
    show "m' (et_start t) = m (et_start t)" using p [OF that] assms(3) by (simp add: placed_def)
  qed simp
  have m': "marked m' (ss @ ss') t" if "t \<in> set ts'" for t
  proof (rule marked_mono)
    show "marked m' ss' t" using assms(2) that by (simp add: emitted_def list_all_iff)
  qed simp_all
  have w: "placed text c e t" if "t \<in> set ts" for t
    using p [OF that] assms(4,5,6) by (simp add: placed_def)
  have w': "placed text c e t" if "t \<in> set ts'" for t
    using p' [OF that] assms(4,5,6) by (simp add: placed_def)
  have o: "et_end t \<le> et_start u" if "t \<in> set ts" "u \<in> set ts'" for t u
    using p [OF that(1)] p' [OF that(2)] by (simp add: placed_def)
  show ?thesis
    unfolding emitted_def
  proof (intro conjI)
    show "concat (map et_slice (ts @ ts')) = concat (map (segment_text text) (ss @ ss'))"
      "token_slots (ts @ ts') = generated_slots (ss @ ss')"
      using assms(1,2) by (simp_all add: emitted_def token_slots_def generated_slots_append)
    show "list_all (placed text c e) (ts @ ts')" "list_all (marked m' (ss @ ss')) (ts @ ts')"
      using m m' w w' by (auto simp: list_all_iff)
    show "sorted_wrt (\<lambda>a b. et_end a \<le> et_start b) (ts @ ts')"
      using assms(1,2) o by (simp add: emitted_def sorted_wrt_append)
  qed
qed

text \<open>A run of text segments of one origin.\<close>

lemma run_text:
  "contiguous text c run d \<Longrightarrow> \<forall>s\<in>set run. \<exists>i j. s = TextSegment i j origin \<Longrightarrow>
   c \<le> d \<and> concat (map (segment_text text) run) = slice text c d \<and> generated_slots run = [] \<and>
   (\<forall>k. c \<le> k \<and> k < d \<longrightarrow> (\<exists>i j. TextSegment i j origin \<in> set run \<and> i \<le> k \<and> k < j))"
proof (induction run arbitrary: c)
  case (Cons s run)
  then obtain j where s: "s = TextSegment c j origin" and cj: "c \<le> j" and run: "contiguous text j run d"
    by (auto split: prod.splits)
  from Cons.IH [OF run] Cons.prems(2)
  have IH: "j \<le> d" "concat (map (segment_text text) run) = slice text j d" "generated_slots run = []"
    "\<forall>k. j \<le> k \<and> k < d \<longrightarrow> (\<exists>i j. TextSegment i j origin \<in> set run \<and> i \<le> k \<and> k < j)" by auto
  have "\<exists>i j'. TextSegment i j' origin \<in> set (s # run) \<and> i \<le> k \<and> k < j'" if "c \<le> k \<and> k < d" for k
    using IH(4) that s by (cases "k < j") (fastforce simp: not_less)+
  with IH cj s show ?case by (simp add: slice_append)
qed simp

lemma tiles_emitted:
  assumes "tiles text c ts d" and "c \<le> d" and "d \<le> length text"
    and "\<forall>t\<in>set ts. on_boundaries text t \<and> marked m run t \<and> \<not> is_generated_token t"
    and "concat (map (segment_text text) run) = slice text c d" and "generated_slots run = []"
  shows "emitted text m c run ts d"
proof -
  have b: "t \<in> set ts \<Longrightarrow> c \<le> et_start t \<and> et_start t < et_end t \<and> et_end t \<le> d \<and>
      et_slice t = slice text (et_start t) (et_end t)" for t
    using tiles_bounds [OF assms(1)] by blast
  have "sorted_wrt (\<lambda>a b. et_end a \<le> et_start b) ts"
    using assms(1)
  proof (induction ts arbitrary: c)
    case (Cons u ts)
    then show ?case using tiles_bounds by fastforce
  qed simp
  moreover have "list_all (placed text c d) ts"
    using b assms(3,4) by (fastforce simp: list_all_iff placed_def)
  moreover have "filter is_generated_token ts = []" using assms(4) by (simp add: filter_empty_conv)
  ultimately show ?thesis
    using assms tiles_concat [OF assms(1)] by (simp add: emitted_def token_slots_def list_all_iff)
qed

text \<open>One step of the loop.\<close>

lemma tokenize_text_spec:
  assumes "valid_utf8 text" and "can_slice text c e" and "contiguous text c run e"
    and "\<forall>s\<in>set run. \<exists>i j. s = TextSegment i j origin"
  shows "\<exists>new m'. tokenize_text text origin c e trailing (ts, m) = Some (ts @ new, m') \<and>
    emitted text m' c run new e \<and> (\<forall>k<c. m' k = m k)"
proof -
  note r = run_text [OF assms(3,4)]
  have le: "e \<le> length text" "c \<le> e" using assms(2) by (auto simp: can_slice_def)
  show ?thesis
  proof (cases "lexed_origin origin")
    case True
    obtain new where new: "lex_segment text c e trailing = Some new" "tiles text c new e"
      "\<forall>t\<in>set new. on_boundaries text t \<and> lexed_token t"
      using lex_segment_spec [OF assms(1,2)] by blast
    let ?m = "if origin = RuntimeLiteral then m(c \<mapsto> RuntimeLiteralMarker c e) else m"
    have "from_origin run lexed_origin t" if "t \<in> set new" for t
      unfolding from_origin_def
    proof (intro allI impI)
      fix k assume "et_start t \<le> k \<and> k < et_end t"
      with tiles_bounds [OF new(2) that] have "c \<le> k \<and> k < e" by simp
      with r True show "\<exists>i j origin. TextSegment i j origin \<in> set run \<and> i \<le> k \<and> k < j \<and> lexed_origin origin"
        by blast
    qed
    then have "\<forall>t\<in>set new. on_boundaries text t \<and> marked ?m run t \<and> \<not> is_generated_token t"
      using new(3) by (auto simp: marked_def lexed_token_def is_generated_token_def)
    with new(2) r le have "emitted text ?m c run new e" by (intro tiles_emitted) auto
    with True new(1) assms(2) show ?thesis
      by (intro exI [of _ new] exI [of _ ?m]) (simp add: tokenize_text_def)
  next
    case False
    then have origin: "origin = RuntimeScalar" by (cases origin) (auto simp: lexed_origin_def)
    show ?thesis
    proof (cases "c = e")
      case True
      then have "emitted text m c run [] e" using r by (simp add: emitted_def token_slots_def)
      with True False assms(2) show ?thesis by (auto simp: tokenize_text_def)
    next
      case neq: False
      let ?t = "mk_token text RuntimeText c e" and ?m = "m(c \<mapsto> RuntimeScalarMarker c e)"
      have "from_origin run (\<lambda>origin. origin = RuntimeScalar) ?t"
        using r origin by (auto simp: from_origin_def)
      then have "\<forall>t\<in>set [?t]. on_boundaries text t \<and> marked ?m run t \<and> \<not> is_generated_token t"
        using assms(2) by (auto simp: marked_def on_boundaries_def can_slice_def is_generated_token_def)
      moreover have "tiles text c [?t] e" using le neq by simp
      ultimately have "emitted text ?m c run [?t] e" using r le by (intro tiles_emitted) auto
      moreover have "slice text c e \<noteq> []" using le neq slice_nonempty by simp
      ultimately show ?thesis
        using False assms(2) by (intro exI [of _ "[?t]"] exI [of _ ?m]) (simp add: tokenize_text_def)
    qed
  qed
qed

lemma tokenize_generated_spec:
  assumes "contiguous text c [Generated g] d" and "gi_start g \<noteq> gi_end g"
  shows "\<exists>new m'. tokenize_generated text g (ts, m) = Some (ts @ new, m') \<and>
    emitted text m' c [Generated g] new d \<and> (\<forall>k<c. m' k = m k)"
proof -
  let ?t = "mk_token text (generated_token (gi_kind g)) c c" and ?m = "m(c \<mapsto> GeneratedMarker g)"
  have c: "gi_start g = c" "gi_end g = d" "c < d" "d \<le> length text" "boundary text c"
    using assms by auto
  have kind: "generated_token (gi_kind g) \<in> {GeneratedPageLink, GeneratedTagLinks}"
    by (cases "gi_kind g") auto
  have "marked ?m [Generated g] ?t" using c kind by (auto simp: marked_def is_generated_token_def)
  moreover have "placed text c d ?t" using c by (simp add: placed_def on_boundaries_def)
  ultimately have "emitted text ?m c [Generated g] [?t] d"
    using c kind by (auto simp: emitted_def token_slots_def is_generated_token_def)
  with c show ?thesis
    by (intro exI [of _ "[?t]"] exI [of _ ?m])
      (simp add: tokenize_generated_def push_token_def can_slice_def Let_def)
qed

lemma emitted_Nil: "d \<le> length text \<Longrightarrow> emitted text m d [] [] d"
  by (simp add: emitted_def token_slots_def)

lemma tokenize_loop_spec:
  "valid_utf8 bs \<Longrightarrow> contiguous bs c (map fst zs) (length bs) \<Longrightarrow>
   list_all generated_nonempty (map fst zs) \<Longrightarrow> acc = (ts, m) \<Longrightarrow>
   \<exists>new m'. tokenize_loop bs zs acc = Some (ts @ new, m') \<and>
     emitted bs m' c (map fst zs) new (length bs) \<and> (\<forall>k<c. m' k = m k)"
proof (induction bs zs acc arbitrary: c ts m rule: tokenize_loop.induct)
  case (1 bs acc)
  then show ?case by (auto simp: emitted_Nil)
next
  case (2 bs start e origin trailing rest acc)
  obtain e' trailing' rest' where mt: "merge_text origin e trailing rest = (e', trailing', rest')"
    by (cases "merge_text origin e trailing rest") auto
  have st: "start = c" "c \<le> e" "e \<le> length bs" "boundary bs c" "boundary bs e"
    "contiguous bs e (map fst rest) (length bs)"
    using "2.prems"(2) by auto
  obtain run where run: "map fst rest = run @ map fst rest'" "contiguous bs e run e'"
    "contiguous bs e' (map fst rest') (length bs)" "boundary bs e'" "e' \<le> length bs"
    "\<forall>s\<in>set run. \<exists>i j. s = TextSegment i j origin"
    using merge_text_run [OF mt st(6,5,3)] by blast
  let ?run = "TextSegment c e origin # run"
  have crun: "contiguous bs c ?run e'" using st run by simp
  have slice: "can_slice bs c e'"
    using st run contiguous_le [OF crun] by (simp add: can_slice_def)
  obtain new m1 where one: "tokenize_text bs origin c e' trailing' (ts, m) = Some (ts @ new, m1)"
    "emitted bs m1 c ?run new e'" "\<forall>k<c. m1 k = m k"
    using tokenize_text_spec [OF "2.prems"(1) slice crun] run(6) by fastforce
  have gen: "list_all generated_nonempty (map fst rest')"
    using "2.prems"(3) run(1) by simp
  obtain new' m2 where two: "tokenize_loop bs rest' (ts @ new, m1) = Some ((ts @ new) @ new', m2)"
    "emitted bs m2 e' (map fst rest') new' (length bs)" "\<forall>k<e'. m2 k = m1 k"
    using "2.IH" [OF mt [symmetric] refl, of "(ts @ new, m1)" e' "ts @ new" m1] one(1) "2.prems"(1,4)
      run(3) gen st(1) by auto
  have "emitted bs m2 c (?run @ map fst rest') (new @ new') (length bs)"
    using emitted_append [OF one(2) two(2)] two(3) contiguous_le [OF crun] run(5) by simp
  moreover have "\<forall>k<c. m2 k = m k" using one(3) two(3) contiguous_le [OF crun] by simp
  ultimately show ?case
    using mt one(1) two(1) "2.prems"(4) st(1) run(1)
    by (intro exI [of _ "new @ new'"] exI [of _ m2]) simp
next
  case (3 bs g trailing rest acc)
  have st: "contiguous bs c [Generated g] (gi_end g)" "gi_start g \<noteq> gi_end g" "c \<le> gi_end g"
    "gi_end g \<le> length bs" "contiguous bs (gi_end g) (map fst rest) (length bs)"
    "list_all generated_nonempty (map fst rest)"
    using "3.prems"(2,3) by auto
  obtain new m1 where one: "tokenize_generated bs g (ts, m) = Some (ts @ new, m1)"
    "emitted bs m1 c [Generated g] new (gi_end g)" "\<forall>k<c. m1 k = m k"
    using tokenize_generated_spec [OF st(1,2)] by blast
  obtain new' m2 where two: "tokenize_loop bs rest (ts @ new, m1) = Some ((ts @ new) @ new', m2)"
    "emitted bs m2 (gi_end g) (map fst rest) new' (length bs)" "\<forall>k<gi_end g. m2 k = m1 k"
    using "3.IH" [of "(ts @ new, m1)" "gi_end g" "ts @ new" m1] one(1) "3.prems"(1,4) st(5,6) by auto
  have "emitted bs m2 c ([Generated g] @ map fst rest) (new @ new') (length bs)"
    using emitted_append [OF one(2) two(2)] two(3) st(3,4) by simp
  moreover have "\<forall>k<c. m2 k = m k" using one(3) two(3) st(3) by simp
  ultimately show ?case
    using one(1) two(1) "3.prems"(4)
    by (intro exI [of _ "new @ new'"] exI [of _ m2]) simp
qed

lemma length_trailing_closers: "length (fst (trailing_closers_loop text ss)) = length ss"
  by (induction ss) (auto simp: split: prod.splits)

lemma tokenize_delayed_segments_spec:
  assumes "valid_utf8 text" and "contiguous text 0 segments (length text)"
    and "list_all generated_nonempty segments"
  shows "\<exists>new m. tokenize_delayed_segments text segments =
      Some \<lparr>tk_tokens = mk_token text InputStart 0 0 # new @
                        [mk_token text InputEnd (length text) (length text)],
            tk_full_text = text, tk_markers = m\<rparr> \<and>
    emitted text m 0 segments new (length text)"
proof -
  let ?zs = "zip segments (trailing_authored_comment_closers text segments)"
  have zs: "map fst ?zs = segments"
    by (simp add: trailing_authored_comment_closers_def length_trailing_closers)
  obtain new m where "tokenize_loop text ?zs ([mk_token text InputStart 0 0], Map.empty) =
      Some ([mk_token text InputStart 0 0] @ new, m)" "emitted text m 0 segments new (length text)"
    using tokenize_loop_spec [OF assms(1), of 0 ?zs, unfolded zs, OF assms(2,3) refl] by blast
  then show ?thesis
    by (auto simp: tokenize_delayed_segments_def push_token_def can_slice_def)
qed

lemma delayed_input_new_cases:
  assumes "valid_utf8 source" and "delayed_input_new source segments = Some (Inr d)"
  obtains new m where "contiguous source 0 segments (length source)"
    and "list_all generated_nonempty segments" and "emitted source m 0 segments new (length source)"
    and "d = \<lparr>di_segments = segments, di_tokenization =
               \<lparr>tk_tokens = mk_token source InputStart 0 0 # new @
                            [mk_token source InputEnd (length source) (length source)],
                tk_full_text = source, tk_markers = m\<rparr>\<rparr>"
proof -
  from assms(2) have v: "validate_loop source 0 {} segments = Some (length source)"
    by (auto simp: delayed_input_new_def split: if_splits option.splits)
  then have c: "contiguous source 0 segments (length source)" "list_all generated_nonempty segments"
    by (simp_all add: validate_loop_iff)
  with tokenize_delayed_segments_spec [OF assms(1) c] assms(2) v show thesis
    by (auto simp: delayed_input_new_def split: if_splits intro: that)
qed

lemma trailing_closers_found:
  "snd (trailing_closers_loop text ss) \<longleftrightarrow> (\<exists>s\<in>set ss. segment_has_closer text s)"
  by (induction ss) (auto split: prod.splits)

lemma extract_all_strip:
  assumes "valid_utf8 text"
  obtains mid where "extract_all text = Some (mk_token text InputStart 0 0 # mid @
      [mk_token text InputEnd (length text) (length text)])"
    and "lex_segment text 0 (length text) False = Some mid"
proof -
  obtain mid where mid: "extract_all_with_trailing_comment_closer text False =
       Some (mk_token text InputStart 0 0 # mid @
             [mk_token text InputEnd (length text) (length text)])"
    "list_all (\<lambda>t. token_shape (et_token t) (et_slice t)) mid"
    using assms by (rule extract_all_eq)
  have "\<forall>t\<in>set mid. \<not> is_input_edge t"
    using mid(2) token_shape_lexed by (fastforce simp: is_input_edge_def list_all_iff)
  then have "filter (\<lambda>t. \<not> is_input_edge t) mid = mid" by (simp add: filter_id_conv)
  moreover have "shift_token 0 = id" by (auto simp: shift_token_def)
  ultimately have "lex_segment text 0 (length text) False = Some mid"
    using mid(1) by (simp add: lex_segment_def is_input_edge_def)
  with mid(1) show thesis by (intro that) (simp_all add: extract_all_def)
qed

lemma delayed_input_accepts:
  assumes "valid_utf8 source" and "segments \<noteq> []" and "contiguous source 0 segments (length source)"
    and "list_all generated_nonempty segments" and "distinct (generated_ids segments)"
  shows "\<exists>t. delayed_input_new source segments = Some (Inr \<lparr>di_segments = segments, di_tokenization = t\<rparr>)"
proof -
  from assms have "validate_loop source 0 {} segments = Some (length source)"
    by (simp add: validate_loop_iff)
  with assms(2) tokenize_delayed_segments_spec [OF assms(1,3,4)] show ?thesis
    by (auto simp: delayed_input_new_def)
qed

definition slot_example :: "input_segment list" where
  "slot_example =
     [TextSegment 0 1 Authored,
      Generated \<lparr>gi_start = 1, gi_end = 3, gi_id = 7, gi_kind = TagLinks, gi_occurrence = 0\<rparr>,
      TextSegment 3 4 RuntimeScalar]"

lemma slot_example_valid: "valid_utf8 ''a%%b''"
  by (simp add: valid_ascii is_ascii_def)

lemma slot_example_accepted:
  obtains d t where "delayed_input_new ''a%%b'' slot_example = Some (Inr d)"
    and "t \<in> set (tk_tokens (di_tokenization d))" and "\<not> is_input_edge t"
proof -
  obtain d where d: "delayed_input_new ''a%%b'' slot_example = Some (Inr d)"
    using delayed_input_accepts [OF slot_example_valid, of slot_example]
    by (auto simp: slot_example_def boundary_def is_cont_def)
  with slot_example_valid obtain new m where new: "emitted ''a%%b'' m 0 slot_example new (length ''a%%b'')"
    "set new \<subseteq> set (tk_tokens (di_tokenization d))"
    by (rule delayed_input_new_cases) auto
  from new(1) have "token_slots new \<noteq> []" by (simp add: emitted_def slot_example_def)
  then obtain t where "t \<in> set new" "is_generated_token t"
    by (auto simp: token_slots_def filter_empty_conv)
  with new(2) d show thesis by (intro that) (auto simp: is_generated_token_def is_input_edge_def)
qed

subsection \<open>Properties\<close>

text \<open>
  C2: \<open>DelayedInput::new\<close> never panics on a Rust string, accepts exactly the non-empty segment
  lists that partition the source at character boundaries with non-empty generated slots of
  distinct (id, occurrence) pairs, and answers \<open>InvalidSegments\<close> for all others.
\<close>

theorem delayed_input_new_validates:
  assumes "valid_utf8 source"
  shows "if segments \<noteq> [] \<and> contiguous source 0 segments (length source) \<and>
            list_all generated_nonempty segments \<and> distinct (generated_ids segments)
         then \<exists>t. delayed_input_new source segments =
                  Some (Inr \<lparr>di_segments = segments, di_tokenization = t\<rparr>)
         else delayed_input_new source segments = Some (Inl InvalidSegments)"
proof (cases "segments \<noteq> [] \<and> contiguous source 0 segments (length source) \<and>
            list_all generated_nonempty segments \<and> distinct (generated_ids segments)")
  case True
  with delayed_input_accepts [OF assms] show ?thesis by auto
next
  case False
  then have "segments = [] \<or> validate_loop source 0 {} segments \<noteq> Some (length source)"
    by (auto simp: validate_loop_iff)
  with False show ?thesis by (auto simp: delayed_input_new_def split: option.splits)
qed

lemma delayed_input_new_validates_witness:
  "(\<exists>t. delayed_input_new ''a%%b'' slot_example =
        Some (Inr \<lparr>di_segments = slot_example, di_tokenization = t\<rparr>)) \<and>
   delayed_input_new ''a%%b'' [TextSegment 0 3 Authored] = Some (Inl InvalidSegments)"
  using delayed_input_new_validates [of "''a%%b''" slot_example]
    delayed_input_new_validates [of "''a%%b''" "[TextSegment 0 3 Authored]"]
  by (simp add: valid_ascii is_ascii_def slot_example_def boundary_def is_cont_def)

text \<open>
  C12: The tokens of an accepted input carry, in order, exactly the text of its text segments and
  one empty token per generated slot, at the slot and of the slot's kind; their spans are ordered,
  disjoint and on character boundaries.
\<close>

theorem delayed_tokens_conserve_segments:
  assumes "valid_utf8 source" and "delayed_input_new source segments = Some (Inr d)"
  shows "\<exists>new. tk_tokens (di_tokenization d) =
           mk_token source InputStart 0 0 # new @
           [mk_token source InputEnd (length source) (length source)] \<and>
         concat (map et_slice new) = concat (map (segment_text source) segments) \<and>
         token_slots new = generated_slots segments \<and>
         sorted_wrt (\<lambda>a b. et_end a \<le> et_start b) new \<and>
         list_all (\<lambda>t. on_boundaries source t \<and>
                       et_slice t = slice source (et_start t) (et_end t)) new"
proof -
  from assms obtain new m where "emitted source m 0 segments new (length source)"
    "tk_tokens (di_tokenization d) = mk_token source InputStart 0 0 # new @
       [mk_token source InputEnd (length source) (length source)]"
    by (rule delayed_input_new_cases) auto
  then show ?thesis by (intro exI [of _ new]) (auto simp: emitted_def placed_def list_all_iff)
qed

lemma delayed_tokens_conserve_segments_witness:
  "\<exists>d new. delayed_input_new ''a%%b'' slot_example = Some (Inr d) \<and>
     tk_tokens (di_tokenization d) =
       mk_token ''a%%b'' InputStart 0 0 # new @ [mk_token ''a%%b'' InputEnd 4 4] \<and>
     concat (map et_slice new) = ''ab'' \<and> token_slots new = [(GeneratedTagLinks, 1)]"
proof (rule slot_example_accepted)
  fix d assume d: "delayed_input_new ''a%%b'' slot_example = Some (Inr d)"
  from delayed_tokens_conserve_segments [OF slot_example_valid d] d show ?thesis
    by (auto simp: slot_example_def slice_def eval_nat_numeral)
qed

text \<open>
  C13: Runtime values stay out of the grammar.  In an accepted input a token the lexer produced
  covers bytes of authored or source-identical segments only; the bytes of a runtime scalar reach
  the parser only inside a \<open>RuntimeText\<close> token; and each runtime or generated token finds its
  marker at its offset.
\<close>

theorem runtime_values_never_lexed:
  assumes "valid_utf8 source" and "delayed_input_new source segments = Some (Inr d)"
    and "t \<in> set (tk_tokens (di_tokenization d))" and "\<not> is_input_edge t"
  shows "if et_token t = RuntimeText then
           from_origin segments (\<lambda>origin. origin = RuntimeScalar) t \<and>
           tk_markers (di_tokenization d) (et_start t) =
             Some (RuntimeScalarMarker (et_start t) (et_end t))
         else if is_generated_token t then
           et_slice t = [] \<and>
           (\<exists>g. Generated g \<in> set segments \<and> et_start t = gi_start g \<and>
                et_token t = generated_token (gi_kind g) \<and>
                tk_markers (di_tokenization d) (et_start t) = Some (GeneratedMarker g))
         else from_origin segments lexed_origin t"
proof -
  from assms(1,2) obtain new m where new: "emitted source m 0 segments new (length source)"
    "di_tokenization d = \<lparr>tk_tokens = mk_token source InputStart 0 0 # new @
       [mk_token source InputEnd (length source) (length source)],
       tk_full_text = source, tk_markers = m\<rparr>"
    by (rule delayed_input_new_cases) auto
  with assms(3,4) have "t \<in> set new" by (auto simp: is_input_edge_def)
  with new(1) have "marked m segments t" "placed source 0 (length source) t"
    by (simp_all add: emitted_def list_all_iff)
  with new(2) show ?thesis by (auto simp: marked_def placed_def)
qed

lemma runtime_values_never_lexed_witness:
  "\<exists>d t. delayed_input_new ''a%%b'' slot_example = Some (Inr d) \<and>
     t \<in> set (tk_tokens (di_tokenization d)) \<and> \<not> is_input_edge t \<and>
     (if et_token t = RuntimeText then
        from_origin slot_example (\<lambda>origin. origin = RuntimeScalar) t \<and>
        tk_markers (di_tokenization d) (et_start t) =
          Some (RuntimeScalarMarker (et_start t) (et_end t))
      else if is_generated_token t then
        et_slice t = [] \<and>
        (\<exists>g. Generated g \<in> set slot_example \<and> et_start t = gi_start g \<and>
             et_token t = generated_token (gi_kind g) \<and>
             tk_markers (di_tokenization d) (et_start t) = Some (GeneratedMarker g))
      else from_origin slot_example lexed_origin t)"
proof (rule slot_example_accepted)
  fix d t
  assume d: "delayed_input_new ''a%%b'' slot_example = Some (Inr d)"
    and t: "t \<in> set (tk_tokens (di_tokenization d))" "\<not> is_input_edge t"
  from runtime_values_never_lexed [OF slot_example_valid d t] d t show ?thesis by blast
qed

text \<open>
  A single authored segment is the ordinary tokenizer: the delayed path gives the tokens of
  \<open>tokenize\<close> and no marker.
\<close>

theorem single_segment_is_tokenize:
  assumes "valid_utf8 text"
  shows "tokenize_delayed_segments text [TextSegment 0 (length text) Authored] = tokenize text"
  using assms
  by (rule extract_all_strip)
    (simp add: tokenize_delayed_segments_def tokenize_def push_token_def can_slice_def
      trailing_authored_comment_closers_def tokenize_text_def lexed_origin_def)

text \<open>
  The reverse pass computes, for each segment, whether a comment closer lies in a later
  authored or source-identical segment; runtime scalars and generated slots never count.
\<close>

theorem trailing_closers_look_ahead:
  assumes "n < length segments"
  shows "trailing_authored_comment_closers text segments ! n \<longleftrightarrow>
         (\<exists>i j origin. TextSegment i j origin \<in> set (drop (Suc n) segments) \<and>
            lexed_origin origin \<and> contains_sub (slice text i j) ''--]'')"
proof -
  have closer: "segment_has_closer text s \<longleftrightarrow> (\<exists>i j origin. s = TextSegment i j origin \<and>
      lexed_origin origin \<and> contains_sub (slice text i j) ''--]'')" for s
    by (cases s) auto
  have "fst (trailing_closers_loop text segments) ! n \<longleftrightarrow>
      (\<exists>s\<in>set (drop (Suc n) segments). segment_has_closer text s)"
    using assms
  proof (induction segments arbitrary: n)
    case (Cons s ss)
    then show ?case
      using trailing_closers_found [of _ ss] by (cases n) (auto simp: case_prod_beta)
  qed simp
  then show ?thesis by (auto simp: trailing_authored_comment_closers_def closer)
qed

lemma trailing_closers_look_ahead_witness:
  "trailing_authored_comment_closers ''a--]'' [TextSegment 0 1 Authored, TextSegment 1 4 Authored] ! 0"
  using trailing_closers_look_ahead [of 0 "[TextSegment 0 1 Authored, TextSegment 1 4 Authored]" "''a--]''"]
  by (simp add: lexed_origin_def contains_sub_def slice_def)

lemma single_segment_is_tokenize_witness:
  "tokenize_delayed_segments ''[[a]]'' [TextSegment 0 5 Authored] = tokenize ''[[a]]''"
  using single_segment_is_tokenize [of "''[[a]]''"]
  by (simp add: valid_ascii is_ascii_def eval_nat_numeral)

end
