(* ===== verification/Indices.thy ===== *)
theory Indices
  imports Tokenizer
begin

text \<open>
  \<open>src/src/utf16.rs\<close> (\<open>Utf16IndexMap\<close>), the span conversion of \<open>src/src/parsing/token/mod.rs\<close>,
  \<open>src/src/text.rs\<close> (\<open>FullText\<close>), \<open>src/src/next_index.rs\<close> (\<open>Incrementer\<close>) and
  \<open>src/src/id_prefix.rs\<close> (\<open>isolate_ids\<close>): the small index and text helpers around the tokens.
\<close>

subsection \<open>UTF-16 indices\<close>

text \<open>A character is encoded by two UTF-16 units exactly when it takes four UTF-8 bytes.\<close>

definition len_utf16 :: "bytes \<Rightarrow> nat" where
  "len_utf16 ch = (if length ch = 4 then 2 else 1)"

fun utf16_loop ::
  "bytes list \<Rightarrow> nat \<Rightarrow> nat \<Rightarrow> nat option \<Rightarrow> (nat \<rightharpoonup> nat) \<Rightarrow> (nat \<rightharpoonup> nat) \<times> nat \<times> nat option" where
  "utf16_loop [] utf8_index utf16_index last_utf8_index m = (m, utf16_index, last_utf8_index)"
| "utf16_loop (ch # chs) utf8_index utf16_index last_utf8_index m =
     utf16_loop chs (utf8_index + length ch) (utf16_index + len_utf16 ch)
       (Some (utf8_index + length ch)) (m(utf8_index \<mapsto> utf16_index))"

definition utf16_index_map_new :: "bytes \<Rightarrow> nat \<rightharpoonup> nat" where
  "utf16_index_map_new text =
     (case utf16_loop (chars text) 0 0 None Map.empty of
        (m, utf16_index, Some utf8_index) \<Rightarrow> m(utf8_index \<mapsto> utf16_index)
      | (m, utf16_index, None) \<Rightarrow> m(0 \<mapsto> 0))"

definition get_index_opt :: "(nat \<rightharpoonup> nat) \<Rightarrow> nat \<Rightarrow> nat option" where
  "get_index_opt m utf8_index = m utf8_index"

text \<open>\<open>get_index\<close> panics on a missing index: \<open>None\<close> is the panic.\<close>

definition get_index :: "(nat \<rightharpoonup> nat) \<Rightarrow> nat \<Rightarrow> nat option" where
  "get_index m utf8_index = get_index_opt m utf8_index"

definition to_utf16_indices :: "extracted_token \<Rightarrow> (nat \<rightharpoonup> nat) \<Rightarrow> extracted_token option" where
  "to_utf16_indices t m =
     (case get_index m (et_start t) of
        None \<Rightarrow> None
      | Some i \<Rightarrow> map_option (\<lambda>j. t\<lparr>et_start := i, et_end := j\<rparr>) (get_index m (et_end t)))"

definition utf16_length :: "bytes \<Rightarrow> nat" where
  "utf16_length s = sum_list (map len_utf16 (chars s))"

lemma utf16_length_append: "valid_utf8 s \<Longrightarrow> utf16_length (s @ t) = utf16_length s + utf16_length t"
  by (simp add: utf16_length_def chars_append)

lemma utf16_loop_below:
  "k < i \<Longrightarrow> fst (utf16_loop cs i u l m) k = m k"
  by (induction cs i u l m rule: utf16_loop.induct) auto

lemma utf16_loop_at:
  "list_all (\<lambda>c. c \<noteq> []) (xs @ c # ys) \<Longrightarrow>
   fst (utf16_loop (xs @ c # ys) i u l m) (i + length (concat xs)) =
     Some (u + sum_list (map len_utf16 xs))"
proof (induction xs arbitrary: i u l m)
  case Nil
  then have "i < i + length c" by simp
  then show ?case by (simp add: utf16_loop_below)
next
  case (Cons x xs)
  then show ?case using Cons.IH [of "i + length x"] by (simp add: add.assoc)
qed

lemma utf16_loop_new:
  "fst (utf16_loop cs i u l m) k \<noteq> m k \<Longrightarrow>
   \<exists>xs c ys. cs = xs @ c # ys \<and> k = i + length (concat xs)"
proof (induction cs arbitrary: i u l m)
  case (Cons ch chs)
  show ?case
  proof (cases "k = i")
    case True
    then show ?thesis by (intro exI [of _ "[]"] exI [of _ ch] exI [of _ chs]) simp
  next
    case False
    then have "fst (utf16_loop chs (i + length ch) (u + len_utf16 ch) (Some (i + length ch)) (m(i \<mapsto> u))) k
        \<noteq> (m(i \<mapsto> u)) k"
      using Cons.prems by simp
    from Cons.IH [OF this] obtain xs c ys where
      "chs = xs @ c # ys" "k = i + length ch + length (concat xs)" by blast
    then show ?thesis by (intro exI [of _ "ch # xs"]) auto
  qed
qed simp

lemma utf16_loop_totals:
  "snd (utf16_loop cs i u l m) =
   (u + sum_list (map len_utf16 cs), if cs = [] then l else Some (i + length (concat cs)))"
  by (induction cs arbitrary: i u l m) (simp_all add: add.assoc)

lemma utf16_index_map_new_eq:
  "utf16_index_map_new s = (fst (utf16_loop (chars s) 0 0 None Map.empty))(length s \<mapsto> utf16_length s)"
proof -
  obtain m u l where loop: "utf16_loop (chars s) 0 0 None Map.empty = (m, u, l)"
    by (cases "utf16_loop (chars s) 0 0 None Map.empty")
  have "snd (utf16_loop (chars s) 0 0 None Map.empty) =
      (utf16_length s, if chars s = [] then None else Some (length s))"
    using utf16_loop_totals [of "chars s" 0 0 None Map.empty] by (simp add: utf16_length_def)
  with loop have "u = utf16_length s" "l = (if chars s = [] then None else Some (length s))"
    by simp_all
  moreover have "chars s = [] \<longleftrightarrow> s = []" by (cases s) auto
  moreover have "s = [] \<Longrightarrow> utf16_length s = 0" by (simp add: utf16_length_def)
  ultimately show ?thesis
    using loop by (auto simp: utf16_index_map_new_def)
qed

lemma utf16_index_map_new_iff:
  assumes "valid_utf8 s"
  shows "utf16_index_map_new s k =
         (if boundary s k then Some (utf16_length (take k s)) else None)"
proof (cases "boundary s k")
  case True
  then have k: "k \<le> length s" by (auto simp: boundary_def)
  note split = boundary_split [OF assms True k]
  show ?thesis
  proof (cases "k = length s")
    case True
    then show ?thesis by (simp add: utf16_index_map_new_eq)
  next
    case False
    with k obtain c ys where cs: "chars (drop k s) = c # ys" by (cases "drop k s") auto
    have eq: "chars s = chars (take k s) @ c # ys"
      using chars_append [of "take k s" "drop k s"] split cs by simp
    have "list_all (\<lambda>c. c \<noteq> []) (chars s)" using chars_nonempty by (auto simp: list_all_iff)
    with utf16_loop_at [of "chars (take k s)" c ys 0] eq k
    have "fst (utf16_loop (chars s) 0 0 None Map.empty) k = Some (utf16_length (take k s))"
      by (simp add: utf16_length_def)
    with False \<open>boundary s k\<close> show ?thesis by (simp add: utf16_index_map_new_eq)
  qed
next
  case False
  have "fst (utf16_loop (chars s) 0 0 None Map.empty) k = None"
  proof (rule ccontr)
    assume "fst (utf16_loop (chars s) 0 0 None Map.empty) k \<noteq> None"
    with utf16_loop_new [of "chars s" 0 0 None Map.empty k]
    obtain xs c ys where xs: "chars s = xs @ c # ys" "k = length (concat xs)" by auto
    from assms xs(1) have v: "valid_utf8 (concat xs)"
      by (intro valid_concat) (simp add: valid_utf8_def)
    have "s = concat xs @ concat (c # ys)" using xs(1) concat_chars [of s] by simp
    with xs(2) have "take k s = concat xs" "k \<le> length s" by simp_all
    with v boundary_at [OF assms, of k] False show False by simp
  qed
  moreover from False have "k \<noteq> length s" by auto
  ultimately show ?thesis using False by (simp add: utf16_index_map_new_eq)
qed

lemma utf16_length_mono:
  assumes "valid_utf8 s" and "boundary s i" and "boundary s j" and "i \<le> j"
  shows "utf16_length (take i s) \<le> utf16_length (take j s)"
proof -
  have le: "i \<le> length s" "j \<le> length s" using assms(2,3) by (auto simp: boundary_def)
  have "take j s = take i s @ slice s i j"
    using slice_append [of 0 i j s] assms(4) by (simp add: slice_def)
  with boundary_split [OF assms(1,2) le(1)] show ?thesis by (simp add: utf16_length_append)
qed

subsection \<open>Full text\<close>

definition slice_impl :: "bytes \<Rightarrow> nat \<Rightarrow> nat \<Rightarrow> bytes option" where
  "slice_impl full_text start e =
     (if start > e then None
      else if can_slice full_text start e then Some (slice full_text start e) else None)"

definition full_slice :: "bytes \<Rightarrow> extracted_token \<Rightarrow> extracted_token \<Rightarrow> bytes option" where
  "full_slice full_text start_token end_token = slice_impl full_text (et_start start_token) (et_end end_token)"

definition slice_partial :: "bytes \<Rightarrow> extracted_token \<Rightarrow> extracted_token \<Rightarrow> bytes option" where
  "slice_partial full_text start_token end_token =
     slice_impl full_text (et_start start_token) (et_start end_token)"

definition slice_range :: "bytes \<Rightarrow> nat \<Rightarrow> nat \<Rightarrow> bytes option" where
  "slice_range full_text start e = slice_impl full_text start e"

lemma extract_all_abut:
  assumes "valid_utf8 s" and "extract_all s = Some ts"
  shows "abut s 0 ts (length s)" and "list_all (on_boundaries s) ts"
proof -
  let ?n = "length s"
  obtain mid where mid: "extract_all_with_trailing_comment_closer s False =
       Some (mk_token s InputStart 0 0 # mid @ [mk_token s InputEnd ?n ?n])"
    "tiles s 0 mid ?n" "list_all (on_boundaries s) mid"
    using assms(1) by (rule extract_all_eq)
  with assms(2) show "abut s 0 ts ?n" "list_all (on_boundaries s) ts"
    by (auto simp: extract_all_def abut_append on_boundaries_def intro: tiles_abut)
qed

lemma abut_slices:
  assumes "abut s 0 ts (length s)" and "ts = xs @ a # ys @ b # zs"
  shows "et_start a \<le> et_start b" "et_start b \<le> et_end b" "et_end b \<le> length s"
    and "concat (map et_slice (a # ys)) = slice s (et_start a) (et_start b)"
    and "concat (map et_slice (a # ys @ [b])) = slice s (et_start a) (et_end b)"
proof -
  from assms obtain i j k where m: "abut s i (a # ys) j" "abut s j [b] k" "abut s k zs (length s)"
    by (auto simp: abut_append)
  note c = abut_concat [OF m(1)] abut_le [OF m(1)] abut_le [OF m(2)] abut_le [OF m(3)]
  from m(1,2) have i: "i = et_start a" and b: "j = et_start b" "k = et_end b" "et_slice b = slice s j k"
    by auto
  show "et_start a \<le> et_start b" "et_start b \<le> et_end b" "et_end b \<le> length s"
    using c i b by auto
  show "concat (map et_slice (a # ys)) = slice s (et_start a) (et_start b)"
    using c(1) i b by simp
  then show "concat (map et_slice (a # ys @ [b])) = slice s (et_start a) (et_end b)"
    using c b i slice_append [of i j k s] by (simp flip: append_assoc)
qed

subsection \<open>Incrementing indices\<close>

type_synonym incrementer = "nat option"

definition incrementer_disabled :: incrementer where
  "incrementer_disabled = None"

definition incrementer_default :: incrementer where
  "incrementer_default = Some 0"

fun incrementer_next :: "incrementer \<Rightarrow> nat option \<times> incrementer" where
  "incrementer_next None = (None, None)"
| "incrementer_next (Some value) = (Some value, Some (value + 1))"

text \<open>
  The trait \<open>NextIndex\<close> asks an implementation to answer \<open>None\<close> when it is disabled and otherwise
  to give a fresh index each time.
\<close>

fun run_next :: "('s \<Rightarrow> nat option \<times> 's) \<Rightarrow> nat \<Rightarrow> 's \<Rightarrow> nat option list" where
  "run_next nxt 0 s = []"
| "run_next nxt (Suc n) s = (case nxt s of (i, s') \<Rightarrow> i # run_next nxt n s')"

locale next_index =
  fixes nxt :: "'s \<Rightarrow> nat option \<times> 's"
    and enabled :: "'s \<Rightarrow> bool"
    and issued :: "'s \<Rightarrow> nat set"
  assumes next_disabled: "\<not> enabled s \<Longrightarrow> nxt s = (None, s)"
    and next_enabled: "enabled s \<Longrightarrow> \<exists>i s'. nxt s = (Some i, s') \<and> enabled s' \<and> i \<notin> issued s \<and>
                                        insert i (issued s) \<subseteq> issued s'"
begin

lemma run_disabled: "\<not> enabled s \<Longrightarrow> run_next nxt n s = replicate n None"
  by (induction n) (auto simp: next_disabled)

lemma run_enabled:
  "enabled s \<Longrightarrow> \<exists>is. run_next nxt n s = map Some is \<and> length is = n \<and> distinct is \<and>
                  set is \<inter> issued s = {}"
proof (induction n arbitrary: s)
  case (Suc n)
  from next_enabled [OF Suc.prems] obtain i s' where i: "nxt s = (Some i, s')" "enabled s'"
    "i \<notin> issued s" "insert i (issued s) \<subseteq> issued s'" by blast
  from Suc.IH [OF i(2)] obtain js where "run_next nxt n s' = map Some js" "length js = n"
    "distinct js" "set js \<inter> issued s' = {}" by blast
  with i show ?case by (intro exI [of _ "i # js"]) auto
qed simp

end

definition incrementer_issued :: "incrementer \<Rightarrow> nat set" where
  "incrementer_issued s = (case s of None \<Rightarrow> {} | Some n \<Rightarrow> {..<n})"

interpretation incrementer: next_index incrementer_next "\<lambda>s. s \<noteq> None" incrementer_issued
  by unfold_locales (auto simp: incrementer_issued_def)

subsection \<open>Isolated ids\<close>

text \<open>The loop of \<open>isolate_ids\<close> over the characters: the text so far and its two flags.\<close>

fun collapse_loop :: "bytes list \<Rightarrow> bytes list \<Rightarrow> bool \<Rightarrow> bool \<Rightarrow> bytes list" where
  "collapse_loop [] collapsed pending_space started = collapsed"
| "collapse_loop (ch # chs) collapsed pending_space started =
     (if is_whitespace ch then
        collapse_loop chs collapsed (if started then True else pending_space) started
      else collapse_loop chs ((if pending_space then collapsed @ ['' ''] else collapsed) @ [ch]) False True)"

definition isolate_ids :: "bytes \<Rightarrow> bytes" where
  "isolate_ids id_string =
     (if id_string = [] then []
      else let collapsed = concat (collapse_loop (chars id_string) [] False False) in
        if collapsed = [] then ''u-''
        else if starts_with id_string ''u-'' then collapsed
        else ''u-'' @ (if is_whitespace (hd (chars id_string)) then '' '' else []) @ collapsed)"

text \<open>
  Words separated by single spaces: the characters of a collapsed text.
\<close>

fun single_spaced :: "bytes list \<Rightarrow> bool" where
  "single_spaced [] \<longleftrightarrow> True"
| "single_spaced [c] \<longleftrightarrow> \<not> is_whitespace c"
| "single_spaced (c # d # cs) \<longleftrightarrow>
     \<not> is_whitespace c \<and> (if is_whitespace d then d = '' '' \<and> cs \<noteq> [] \<and> single_spaced cs
                         else single_spaced (d # cs))"

lemma space_whitespace [simp]: "is_whitespace '' ''"
  by (simp add: is_whitespace_def)

lemma single_spaced_snoc:
  "single_spaced cs \<Longrightarrow> \<not> is_whitespace c \<Longrightarrow> single_spaced (cs @ [c])"
  by (induction cs rule: single_spaced.induct) auto

lemma single_spaced_snoc2:
  "single_spaced cs \<Longrightarrow> cs \<noteq> [] \<Longrightarrow> \<not> is_whitespace c \<Longrightarrow> single_spaced (cs @ ['' '', c])"
  by (induction cs rule: single_spaced.induct) auto

lemma collapse_single_spaced:
  "single_spaced out \<Longrightarrow> (started \<longleftrightarrow> out \<noteq> []) \<Longrightarrow> (pending \<longrightarrow> started) \<Longrightarrow>
   single_spaced (collapse_loop cs out pending started)"
  by (induction cs out pending started rule: collapse_loop.induct)
    (auto simp: single_spaced_snoc single_spaced_snoc2)

lemma collapse_utf8:
  "list_all utf8_char cs \<Longrightarrow> list_all utf8_char out \<Longrightarrow>
   list_all utf8_char (collapse_loop cs out pending started)"
  by (induction cs out pending started rule: collapse_loop.induct) auto

text \<open>A text that is collapsed already is left alone.\<close>

lemma single_spaced_hd: "single_spaced (c # cs) \<Longrightarrow> \<not> is_whitespace c"
  by (cases cs) auto

lemma collapse_pending:
  "single_spaced cs \<Longrightarrow> cs \<noteq> [] \<Longrightarrow>
   collapse_loop cs out True True = collapse_loop cs (out @ ['' '']) False True"
  by (cases cs) (auto dest: single_spaced_hd)

lemma collapse_id: "single_spaced cs \<Longrightarrow> collapse_loop cs out False True = out @ cs"
proof (induction cs arbitrary: out rule: single_spaced.induct)
  case (3 c d cs)
  show ?case
  proof (cases "is_whitespace d")
    case True
    with 3 have d: "d = '' ''" "cs \<noteq> []" "single_spaced cs" "\<not> is_whitespace c" by auto
    from d True "3.IH"(1) [OF True d(3), of "out @ [c, '' '']"]
    show ?thesis by (simp add: collapse_pending)
  next
    case False
    with 3 have d: "single_spaced (d # cs)" "\<not> is_whitespace c" by auto
    with "3.IH"(2) [OF False d(1), of "out @ [c]"] show ?thesis by simp
  qed
qed auto

lemma collapse_start:
  "single_spaced cs \<Longrightarrow> cs \<noteq> [] \<Longrightarrow> collapse_loop cs out False False = collapse_loop cs out False True"
  by (cases cs) (auto dest: single_spaced_hd)

lemma collapse_eq: "single_spaced cs \<Longrightarrow> collapse_loop cs [] False False = cs"
  by (cases "cs = []") (simp_all add: collapse_start collapse_id)

lemma collapse_prefix:
  "\<not> is_whitespace a \<Longrightarrow> \<not> is_whitespace b \<Longrightarrow>
   \<exists>cs'. collapse_loop (a # b # cs) [] False False = a # b # cs'"
proof -
  have "\<exists>cs'. collapse_loop cs out p st = out @ cs'" for cs out p st
    by (induction cs out p st rule: collapse_loop.induct) auto
  from this [of cs "[a, b]" False True] show "\<not> is_whitespace a \<Longrightarrow> \<not> is_whitespace b \<Longrightarrow> ?thesis"
    by auto
qed

lemma chars_u_prefix: "chars (''u-'' @ s) = ''u'' # ''-'' # chars s"
  using chars_append_char [of "''u''" "''-'' @ s"] chars_append_char [of "''-''" s] by simp

lemma u_not_whitespace: "\<not> is_whitespace ''u''" "\<not> is_whitespace ''-''"
  by (simp_all add: is_whitespace_def)

lemma single_spaced_u:
  "single_spaced cs \<Longrightarrow> cs \<noteq> [] \<Longrightarrow>
   single_spaced (''u'' # ''-'' # cs) \<and> single_spaced (''u'' # ''-'' # '' '' # cs)"
  by (cases cs) (auto simp: u_not_whitespace dest: single_spaced_hd)

text \<open>The characters of every non-empty result.\<close>

lemma isolate_ids_chars:
  assumes "valid_utf8 s" and "s \<noteq> []"
  shows "\<exists>cs. chars (isolate_ids s) = ''u'' # ''-'' # cs \<and> single_spaced (''u'' # ''-'' # cs) \<and>
              list_all utf8_char (''u'' # ''-'' # cs)"
proof -
  let ?c = "collapse_loop (chars s) [] False False"
  have ss: "single_spaced ?c" by (rule collapse_single_spaced) auto
  have u8: "list_all utf8_char ?c"
    using assms(1) by (intro collapse_utf8) (simp_all add: valid_utf8_def)
  then have cc: "chars (concat ?c) = ?c" by (rule chars_concat)
  have u: "list_all utf8_char [''u'', ''-'']" "list_all utf8_char ['' '']" by simp_all
  have sp: "chars ('' '' @ x) = '' '' # chars x" for x by (rule chars_append_char) simp
  consider (empty) "concat ?c = []" | (prefix) "concat ?c \<noteq> []" "starts_with s ''u-''"
    | (add) "concat ?c \<noteq> []" "\<not> starts_with s ''u-''" by blast
  then show ?thesis
  proof cases
    case empty
    then have "isolate_ids s = ''u-'' @ []" using assms(2) by (simp add: isolate_ids_def Let_def del: concat_eq_Nil_conv)
    then show ?thesis using chars_u_prefix [of "[]"] u by (simp add: u_not_whitespace)
  next
    case prefix
    then have "isolate_ids s = concat ?c" using assms(2) by (simp add: isolate_ids_def Let_def del: concat_eq_Nil_conv)
    moreover obtain t where "s = ''u-'' @ t" using prefix(2) by (metis starts_with_take)
    then have "chars s = ''u'' # ''-'' # chars t" by (simp only: chars_u_prefix)
    then obtain cs where "?c = ''u'' # ''-'' # cs"
      using collapse_prefix [OF u_not_whitespace, of "chars t"] by auto
    ultimately show ?thesis using ss u8 cc by auto
  next
    case add
    from add(1) have ne: "?c \<noteq> []" by auto
    note su = single_spaced_u [OF ss ne]
    show ?thesis
    proof (cases "is_whitespace (hd (chars s))")
      case True
      with add assms(2) have "isolate_ids s = ''u-'' @ '' '' @ concat ?c"
        by (simp add: isolate_ids_def Let_def del: concat_eq_Nil_conv)
      then have "chars (isolate_ids s) = ''u'' # ''-'' # '' '' # ?c"
        by (simp only: chars_u_prefix sp cc)
      with su u8 u show ?thesis by (simp add: u_not_whitespace)
    next
      case False
      with add assms(2) have "isolate_ids s = ''u-'' @ concat ?c" by (simp add: isolate_ids_def Let_def del: concat_eq_Nil_conv)
      then have "chars (isolate_ids s) = ''u'' # ''-'' # ?c" by (simp only: chars_u_prefix cc)
      with su u8 u show ?thesis by (simp add: u_not_whitespace)
    qed
  qed
qed

subsection \<open>Properties\<close>

text \<open>
  C14: The UTF-16 map of a text is defined exactly at its character boundaries, where it gives the
  number of UTF-16 units before the boundary.
\<close>

theorem utf16_map_exact:
  assumes "valid_utf8 text"
  shows "get_index (utf16_index_map_new text) i =
         (if boundary text i then Some (utf16_length (take i text)) else None)"
  using utf16_index_map_new_iff [OF assms] by (simp add: get_index_def get_index_opt_def)

lemma utf16_map_exact_witness:
  "get_index (utf16_index_map_new [CHR ''a'', CHR 0xF0, CHR 0x9F, CHR 0x98, CHR 0x80, CHR ''b'']) 5 = Some 3 \<and>
   get_index (utf16_index_map_new [CHR ''a'', CHR 0xF0, CHR 0x9F, CHR 0x98, CHR 0x80, CHR ''b'']) 3 = None"
  using utf16_map_exact [of "[CHR ''a'', CHR 0xF0, CHR 0x9F, CHR 0x98, CHR 0x80, CHR ''b'']" 5]
    utf16_map_exact [of "[CHR ''a'', CHR 0xF0, CHR 0x9F, CHR 0x98, CHR 0x80, CHR ''b'']" 3]
  by (simp add: valid_utf8_def utf8_width_def is_cont_def boundary_def utf16_length_def len_utf16_def)

text \<open>
  The tokens the lexer extracts can always be converted to UTF-16 indices: the conversion
  never panics, keeps kind and slice, and the converted spans still abut.
\<close>

theorem tokens_convert_to_utf16:
  assumes "valid_utf8 text" and "extract_all text = Some ts" and "t \<in> set ts"
  shows "to_utf16_indices t (utf16_index_map_new text) =
           Some (t\<lparr>et_start := utf16_length (take (et_start t) text),
                   et_end := utf16_length (take (et_start t) text) + utf16_length (et_slice t)\<rparr>)"
proof -
  have b: "on_boundaries text t" using extract_all_abut(2) [OF assms(1,2)] assms(3) by (simp add: list_all_iff)
  obtain xs zs where ts: "ts = xs @ t # zs" using assms(3) by (meson split_list)
  with extract_all_abut(1) [OF assms(1,2)] obtain i where
    t: "et_start t \<le> et_end t" "et_slice t = slice text (et_start t) (et_end t)"
    by (auto simp: abut_append)
  have s: "boundary text (et_start t)" "boundary text (et_end t)"
    using b by (simp_all add: on_boundaries_def)
  then have le: "et_start t \<le> length text" by (auto simp: boundary_def)
  have "take (et_end t) text = take (et_start t) text @ et_slice t"
    using slice_append [of 0 "et_start t" "et_end t"] t by (simp add: slice_def)
  with boundary_split [OF assms(1) s(1) le]
  have "utf16_length (take (et_end t) text) = utf16_length (take (et_start t) text) + utf16_length (et_slice t)"
    by (simp add: utf16_length_append)
  with s show ?thesis
    by (simp add: to_utf16_indices_def get_index_def get_index_opt_def utf16_index_map_new_iff [OF assms(1)])
qed

lemma tokens_convert_to_utf16_witness:
  "\<exists>ts t. extract_all ''a'' = Some ts \<and> t \<in> set ts \<and>
     to_utf16_indices t (utf16_index_map_new ''a'') =
       Some (t\<lparr>et_start := utf16_length (take (et_start t) ''a''),
               et_end := utf16_length (take (et_start t) ''a'') + utf16_length (et_slice t)\<rparr>)"
proof -
  have v: "valid_utf8 ''a''" by (simp add: valid_ascii is_ascii_def)
  then obtain mid where "extract_all ''a'' = Some (mk_token ''a'' InputStart 0 0 # mid @
      [mk_token ''a'' InputEnd (length ''a'') (length ''a'')])"
    by (rule extract_all_strip)
  then obtain ts t where ts: "extract_all ''a'' = Some ts" "t \<in> set ts" by fastforce
  from tokens_convert_to_utf16 [OF v ts] ts show ?thesis by blast
qed

text \<open>
  Slicing the full text between two tokens of a tokenization, the second after the first,
  never panics, and gives the slices of the tokens between them put together: up to and including
  the end token for \<open>slice\<close>, without it for \<open>slice_partial\<close>.
\<close>

theorem full_text_slices_join_tokens:
  assumes "valid_utf8 text" and "extract_all text = Some (xs @ a # ys @ b # zs)"
  shows "full_slice text a b = Some (concat (map et_slice (a # ys @ [b]))) \<and>
         slice_partial text a b = Some (concat (map et_slice (a # ys)))"
proof -
  note f = abut_slices [OF extract_all_abut(1) [OF assms] refl]
  have "on_boundaries text a" "on_boundaries text b"
    using extract_all_abut(2) [OF assms] by simp_all
  with f show ?thesis
    by (auto simp: full_slice_def slice_partial_def slice_impl_def can_slice_def on_boundaries_def)
qed

lemma full_text_slices_join_tokens_witness:
  "\<exists>a ys b. extract_all ''ab'' = Some ([] @ a # ys @ b # []) \<and>
     full_slice ''ab'' a b = Some (concat (map et_slice (a # ys @ [b]))) \<and>
     slice_partial ''ab'' a b = Some (concat (map et_slice (a # ys)))"
proof -
  have v: "valid_utf8 ''ab''" by (simp add: valid_ascii is_ascii_def)
  then obtain mid where "extract_all ''ab'' = Some (mk_token ''ab'' InputStart 0 0 # mid @
      [mk_token ''ab'' InputEnd (length ''ab'') (length ''ab'')])"
    by (rule extract_all_strip)
  then obtain a ys b where ts: "extract_all ''ab'' = Some ([] @ a # ys @ b # [])" by fastforce
  from full_text_slices_join_tokens [OF v ts] ts show ?thesis by blast
qed

text \<open>
  The incrementer keeps the contract of \<open>NextIndex\<close>: disabled it always answers \<open>None\<close>, and
  enabled, \<open>n\<close> calls give \<open>n\<close> pairwise distinct indices, none issued before.
\<close>

theorem incrementer_unique:
  "run_next incrementer_next n incrementer_disabled = replicate n None \<and>
   (\<exists>is. run_next incrementer_next n (Some start) = map Some is \<and> length is = n \<and> distinct is \<and>
         set is \<inter> {..<start} = {})"
  using incrementer.run_disabled [of None n] incrementer.run_enabled [of "Some start" n]
  by (simp add: incrementer_disabled_def incrementer_issued_def)

text \<open>
  Isolating ids is idempotent, keeps the empty id, and otherwise gives valid text that starts
  with \<open>u-\<close> and separates words by single spaces, so an isolated id never collides with an
  unprefixed one.
\<close>

theorem isolate_ids_isolated:
  assumes "valid_utf8 id_string"
  shows "isolate_ids (isolate_ids id_string) = isolate_ids id_string \<and>
         (isolate_ids id_string = [] \<longleftrightarrow> id_string = []) \<and>
         (id_string \<noteq> [] \<longrightarrow> starts_with (isolate_ids id_string) ''u-'' \<and>
            single_spaced (chars (isolate_ids id_string)) \<and> valid_utf8 (isolate_ids id_string))"
proof (cases "id_string = []")
  case True
  then show ?thesis by (simp add: isolate_ids_def)
next
  case False
  from isolate_ids_chars [OF assms False] obtain cs where
    cs: "chars (isolate_ids id_string) = ''u'' # ''-'' # cs" "single_spaced (''u'' # ''-'' # cs)"
    "list_all utf8_char (''u'' # ''-'' # cs)" by blast
  from arg_cong [OF cs(1), of concat] have eq: "isolate_ids id_string = ''u-'' @ concat cs" by simp
  have "isolate_ids (''u-'' @ concat cs) = concat (collapse_loop (chars (''u-'' @ concat cs)) [] False False)"
    using collapse_eq [OF cs(2)] cs(1) eq by (simp add: isolate_ids_def Let_def)
  also have "\<dots> = ''u-'' @ concat cs" using collapse_eq [OF cs(2)] cs(1) eq by simp
  finally have "isolate_ids (isolate_ids id_string) = isolate_ids id_string" by (simp only: eq)
  moreover have "valid_utf8 (isolate_ids id_string)" using cs(1,3) by (simp add: valid_utf8_def)
  ultimately show ?thesis using eq cs(1,2) False by simp
qed

lemma isolate_ids_isolated_witness:
  "starts_with (isolate_ids ''a  b'') ''u-'' \<and> single_spaced (chars (isolate_ids ''a  b''))"
  using isolate_ids_isolated [of "''a  b''"] by (simp add: valid_ascii is_ascii_def)

end
