(* ===== verification/Url.thy ===== *)
theory Url
  imports Prelude
begin

text \<open>
  \<open>src/src/url.rs\<close>: which links are URLs, which are dangerous, and what a link is rewritten to.
  The regular expression \<open>^[\w\-]+$\<close> matches Unicode word characters; which characters outside
  ASCII are word characters is the \<open>regex\<close> crate's table, the parameter \<open>word\<close>.  The trait
  \<open>BuildSiteUrl\<close> is implemented by the embedding application, the parameter \<open>build_url\<close>.
\<close>

definition is_url :: "bytes \<Rightarrow> bool" where
  "is_url url \<longleftrightarrow>
     (case get url 0 of
        None \<Rightarrow> False
      | Some b \<Rightarrow>
          if b = CHR ''b'' then starts_with url ''blob:''
          else if b = CHR ''c'' then
            starts_with url ''chrome-extension://'' \<or> starts_with url ''chrome://'' \<or>
            starts_with url ''content://'' \<or> starts_with url ''cvs://''
          else if b = CHR ''d'' then starts_with url ''dns:''
          else if b = CHR ''f'' then
            starts_with url ''feed:'' \<or> starts_with url ''file://'' \<or> starts_with url ''ftp://''
          else if b = CHR ''g'' then starts_with url ''git://'' \<or> starts_with url ''gopher://''
          else if b = CHR ''h'' then starts_with url ''http://'' \<or> starts_with url ''https://''
          else if b = CHR ''i'' then
            starts_with url ''irc6://'' \<or> starts_with url ''irc://'' \<or> starts_with url ''ircs://''
          else if b = CHR ''m'' then starts_with url ''mailto:''
          else if b = CHR ''r'' then starts_with url ''resource://'' \<or> starts_with url ''rtmp://''
          else if b = CHR ''s'' then
            starts_with url ''sftp://'' \<or> starts_with url ''ssh://'' \<or> starts_with url ''svn://''
          else if b = CHR ''t'' then starts_with url ''telnet://''
          else False)"

datatype href_kind = NoOp | Invalid | Anchor | External | AbsolutePath | Relative

definition scheme_char :: "(bytes \<Rightarrow> bool) \<Rightarrow> bytes \<Rightarrow> bool" where
  "scheme_char word ch \<longleftrightarrow>
     (case ch of
        [c] \<Rightarrow> is_alnum c \<or> c = CHR ''_'' \<or> c = CHR ''-''
      | _ \<Rightarrow> word ch)"

definition dangerous_scheme :: "(bytes \<Rightarrow> bool) \<Rightarrow> bytes \<Rightarrow> bool" where
  "dangerous_scheme word url \<longleftrightarrow>
     (if starts_with url ''/'' then False
      else case split_once (CHR '':'') url of
        None \<Rightarrow> False
      | Some (scheme, _) \<Rightarrow>
          if \<not> (scheme \<noteq> [] \<and> list_all (scheme_char word) (chars scheme)) then True
          else eq_ignore_ascii_case scheme ''javascript'' \<or> eq_ignore_ascii_case scheme ''data'')"

definition classify_href :: "(bytes \<Rightarrow> bool) \<Rightarrow> bytes \<Rightarrow> href_kind" where
  "classify_href word url =
     (if url = ''javascript:;'' then NoOp
      else if starts_with url ''#'' then Anchor
      else if starts_with url ''//'' \<or> starts_with url ''news://'' \<or> starts_with url ''mms://'' \<or> is_url url
        then External
      else if starts_with url ''/'' then AbsolutePath
      else if dangerous_scheme word url then Invalid
      else Relative)"

definition hex_digit :: "nat \<Rightarrow> char" where
  "hex_digit n = ''0123456789ABCDEF'' ! n"

definition percent_encode_byte :: "char \<Rightarrow> bytes" where
  "percent_encode_byte b =
     (if is_ascii b then [b]
      else [CHR ''%'', hex_digit (byte b div 16), hex_digit (byte b mod 16)])"

definition percent_encode_non_ascii :: "bytes \<Rightarrow> bytes" where
  "percent_encode_non_ascii value =
     (if list_all is_ascii value then value else concat (map percent_encode_byte value))"

definition normalize_href :: "(bytes \<Rightarrow> bool) \<Rightarrow> bytes \<Rightarrow> bytes option \<Rightarrow> bytes" where
  "normalize_href word url extra =
     (case classify_href word url of
        NoOp \<Rightarrow> url
      | External \<Rightarrow>
          (case extra of Some e \<Rightarrow> percent_encode_non_ascii (url @ e) | None \<Rightarrow> percent_encode_non_ascii url)
      | Anchor \<Rightarrow>
          (case extra of Some e \<Rightarrow> percent_encode_non_ascii (url @ e) | None \<Rightarrow> percent_encode_non_ascii url)
      | AbsolutePath \<Rightarrow>
          (case extra of Some e \<Rightarrow> percent_encode_non_ascii (url @ e) | None \<Rightarrow> percent_encode_non_ascii url)
      | Invalid \<Rightarrow> ''#invalid-url''
      | Relative \<Rightarrow> CHR ''/'' # url @ (case extra of None \<Rightarrow> [] | Some e \<Rightarrow> e))"

definition normalize_page_href :: "bytes \<Rightarrow> bytes option \<Rightarrow> bytes" where
  "normalize_page_href page extra =
     (let extra = (case extra of None \<Rightarrow> [] | Some e \<Rightarrow> e);
          href = (if starts_with page ''/'' then page @ extra else CHR ''/'' # page @ extra)
      in percent_encode_non_ascii href)"

datatype link_location = LinkUrl bytes | LinkPage "bytes option" bytes "bytes option"

fun normalize_link ::
  "(bytes \<Rightarrow> bool) \<Rightarrow> (bytes \<Rightarrow> bytes \<Rightarrow> bytes option \<Rightarrow> bytes) \<Rightarrow> link_location \<Rightarrow> bytes" where
  "normalize_link word build_url (LinkUrl url) = normalize_href word url None"
| "normalize_link word build_url (LinkPage site page extra) =
     (case site of
        Some site \<Rightarrow> build_url site page extra
      | None \<Rightarrow> normalize_page_href page extra)"

subsection \<open>Percent encoding\<close>

lemma percent_encode_concat: "percent_encode_non_ascii s = concat (map percent_encode_byte s)"
proof -
  have "list_all is_ascii s \<Longrightarrow> concat (map percent_encode_byte s) = s"
    by (induction s) (auto simp: percent_encode_byte_def)
  then show ?thesis by (simp add: percent_encode_non_ascii_def)
qed

lemma percent_encode_append:
  "percent_encode_non_ascii (s @ t) = percent_encode_non_ascii s @ percent_encode_non_ascii t"
  by (simp add: percent_encode_concat)

lemma percent_encode_ascii: "list_all is_ascii s \<Longrightarrow> percent_encode_non_ascii s = s"
  by (simp add: percent_encode_non_ascii_def)

lemma hex_digit_alnum: "n < 16 \<Longrightarrow> is_digit (hex_digit n) \<or> is_upper (hex_digit n)"
  by (auto simp: hex_digit_def less_Suc_eq numeral_eq_Suc is_digit_def is_upper_def)

lemma byte_high: "byte b div 16 < 16"
proof -
  have "byte b < 16 * 16" using nat_of_char_less_256 [of b] by simp
  then show ?thesis by (rule less_mult_imp_div_less)
qed

lemma percent_encode_byte_ascii: "list_all is_ascii (percent_encode_byte b)"
proof -
  show ?thesis
    using byte_high [of b] hex_digit_alnum [of "byte b div 16"] hex_digit_alnum [of "byte b mod 16"]
    by (auto simp: percent_encode_byte_def ascii_defs)
qed

lemma percent_encode_is_ascii: "list_all is_ascii (percent_encode_non_ascii s)"
  using percent_encode_byte_ascii by (simp add: percent_encode_concat list_all_iff)

lemma starts_with_encode:
  assumes "starts_with s p" and "list_all is_ascii p"
  shows "starts_with (percent_encode_non_ascii (s @ e)) p"
proof -
  from assms(1) obtain t where "s = p @ t" by (auto simp: starts_with_prefix prefix_def)
  with percent_encode_ascii [OF assms(2)] show ?thesis
    by (simp add: percent_encode_append)
qed

text \<open>Decoding, as an independent check that the encoding loses nothing.\<close>

definition hex_value :: "char \<Rightarrow> nat" where
  "hex_value c = (if is_digit c then byte c - 48 else byte c - 55)"

fun percent_decode_high :: "bytes \<Rightarrow> bytes" where
  "percent_decode_high [] = []"
| "percent_decode_high (c # cs) =
     (case cs of
        a # b # rest \<Rightarrow>
          if c = CHR ''%'' \<and> 8 \<le> hex_value a
          then char_of (16 * hex_value a + hex_value b) # percent_decode_high rest
          else c # percent_decode_high cs
      | _ \<Rightarrow> c # percent_decode_high cs)"

lemma hex_value_digit: "n < 16 \<Longrightarrow> hex_value (hex_digit n) = n"
  by (auto simp: hex_digit_def hex_value_def is_digit_def less_Suc_eq numeral_eq_Suc)

lemma percent_decode_other: "CHR ''%'' \<noteq> c \<Longrightarrow> percent_decode_high (c # cs) = c # percent_decode_high cs"
  by (auto split: list.splits)

lemma percent_decode_encode:
  "CHR ''%'' \<notin> set s \<Longrightarrow> percent_decode_high (percent_encode_non_ascii s) = s"
  unfolding percent_encode_concat
proof (induction s)
  case (Cons c s)
  show ?case
  proof (cases "is_ascii c")
    case True
    with Cons show ?thesis
      by (simp add: percent_encode_byte_def percent_decode_other del: percent_decode_high.simps(2))
  next
    case False
    have "byte c div 16 < 16" by (rule byte_high)
    moreover have "8 \<le> byte c div 16" using False by (simp add: is_ascii_def)
    moreover have "16 * (byte c div 16) + byte c mod 16 = byte c" by simp
    moreover have "CHR ''%'' \<notin> set s" using Cons.prems by simp
    ultimately show ?thesis
      using False Cons.IH by (simp add: percent_encode_byte_def hex_value_digit)
  qed
qed simp

subsection \<open>What a browser would run\<close>

text \<open>
  An independent notion of danger: the scheme a browser sees after it strips leading control
  characters and spaces and deletes tabs and newlines, as the URL standard prescribes, compared
  case-insensitively.
\<close>

definition browser_view :: "bytes \<Rightarrow> bytes" where
  "browser_view url =
     to_ascii_lowercase
       (filter (\<lambda>c. c \<notin> {CHR 0x09, CHR 0x0A, CHR 0x0D}) (dropWhile (\<lambda>c. byte c \<le> 32) url))"

definition script_url :: "bytes \<Rightarrow> bool" where
  "script_url url \<longleftrightarrow>
     list_ex (starts_with (browser_view url)) [''javascript:'', ''data:'', ''vbscript:'']"

definition external_prefixes :: "bytes list" where
  "external_prefixes =
     [''#'', ''/'', ''news://'', ''mms://'', ''blob:'', ''chrome-extension://'', ''chrome://'',
      ''content://'', ''cvs://'', ''dns:'', ''feed:'', ''file://'', ''ftp://'', ''git://'', ''gopher://'',
      ''http://'', ''https://'', ''irc6://'', ''irc://'', ''ircs://'', ''mailto:'', ''resource://'',
      ''rtmp://'', ''sftp://'', ''ssh://'', ''svn://'', ''telnet://'']"

lemma is_url_prefix: "is_url url \<Longrightarrow> \<exists>p\<in>set external_prefixes. starts_with url p"
  unfolding is_url_def external_prefixes_def by (auto split: option.splits if_splits)

lemma browser_view_lit:
  assumes "list_all (\<lambda>c. 32 < byte c) p" and "p \<noteq> []"
  shows "starts_with (browser_view (p @ s)) (to_ascii_lowercase p)"
proof -
  from assms obtain c q where p: "p = c # q" "32 < byte c" by (cases p) auto
  then have "dropWhile (\<lambda>c. byte c \<le> 32) (p @ s) = p @ s" by simp
  moreover have "filter (\<lambda>c. c \<notin> {CHR 0x09, CHR 0x0A, CHR 0x0D}) p = p"
    unfolding filter_id_conv using assms(1) by (auto simp: list_all_iff)
  ultimately have "browser_view (p @ s) = to_ascii_lowercase p @
      to_ascii_lowercase (filter (\<lambda>c. c \<notin> {CHR 0x09, CHR 0x0A, CHR 0x0D}) s)"
    unfolding browser_view_def to_ascii_lowercase_def by (simp only: filter_append map_append)
  then show ?thesis by simp
qed

definition clashes :: "bytes \<Rightarrow> bytes \<Rightarrow> bool" where
  "clashes p d \<longleftrightarrow> list_ex (\<lambda>(a, b). a \<noteq> b) (zip p d)"

lemma clashes_starts_with:
  "starts_with s p \<Longrightarrow> clashes p d \<Longrightarrow> \<not> starts_with s d"
  unfolding clashes_def
proof (induction p arbitrary: s d)
  case (Cons c p)
  then show ?case by (cases s; cases d) auto
qed simp

lemma external_clashes:
  "list_all (\<lambda>p. list_all (\<lambda>c. 32 < byte c) p \<and> p \<noteq> [] \<and>
               list_all (clashes (to_ascii_lowercase p)) [''javascript:'', ''data:'', ''vbscript:''])
     external_prefixes"
  unfolding external_prefixes_def clashes_def to_ascii_lowercase_def
  by (simp add: to_lower_def is_upper_def)

lemma external_not_script:
  assumes "p \<in> set external_prefixes" and "starts_with url p"
  shows "\<not> script_url url"
proof -
  from assms(2) obtain t where url: "url = p @ t" by (auto simp: starts_with_prefix prefix_def)
  have p: "list_all (\<lambda>c. 32 < byte c) p" "p \<noteq> []"
    "list_all (clashes (to_ascii_lowercase p)) [''javascript:'', ''data:'', ''vbscript:'']"
    using external_clashes assms(1) unfolding list_all_iff by blast+
  from browser_view_lit [OF p(1,2)] have "starts_with (browser_view url) (to_ascii_lowercase p)"
    unfolding url .
  from clashes_starts_with [OF this] p(3) show ?thesis by (simp add: script_url_def)
qed

lemma normalize_href_prefix:
  "normalize_href word url extra = ''javascript:;'' \<and> url = ''javascript:;'' \<or>
   (\<exists>p\<in>set external_prefixes. starts_with (normalize_href word url extra) p)"
proof -
  have enc: "starts_with s p \<Longrightarrow> p \<in> set external_prefixes \<Longrightarrow>
      (\<exists>p\<in>set external_prefixes. starts_with (percent_encode_non_ascii (s @ e)) p)" for s p e
    using starts_with_encode [of s p e] by (auto simp: external_prefixes_def is_ascii_def)
  have kept: "\<exists>p\<in>set external_prefixes. starts_with url p" if
    "classify_href word url \<in> {Anchor, External, AbsolutePath}"
  proof (cases "is_url url")
    case True
    then show ?thesis by (rule is_url_prefix)
  next
    case False
    have "starts_with url ''//'' \<Longrightarrow> starts_with url ''/''" by (cases url) auto
    with False that show ?thesis
      by (auto simp: classify_href_def external_prefixes_def split: if_splits)
  qed
  show ?thesis
  proof (cases "classify_href word url")
    case NoOp
    then show ?thesis by (auto simp: normalize_href_def classify_href_def split: if_splits)
  next
    case Invalid
    then show ?thesis by (auto simp: normalize_href_def external_prefixes_def)
  next
    case Relative
    then show ?thesis by (auto simp: normalize_href_def external_prefixes_def split: option.splits)
  next
    case Anchor
    with kept enc [of url _ "[]"] enc [of url] show ?thesis
      by (auto simp: normalize_href_def split: option.splits)
  next
    case External
    with kept enc [of url _ "[]"] enc [of url] show ?thesis
      by (auto simp: normalize_href_def split: option.splits)
  next
    case AbsolutePath
    with kept enc [of url _ "[]"] enc [of url] show ?thesis
      by (auto simp: normalize_href_def split: option.splits)
  qed
qed

lemma normalize_href_not_script:
  "url \<noteq> ''javascript:;'' \<Longrightarrow> \<not> script_url (normalize_href word url extra)"
  using normalize_href_prefix [of word url extra] external_not_script by blast

lemma normalize_href_ascii_fixed:
  assumes "list_all is_ascii url" and "classify_href word url \<noteq> Invalid" and "classify_href word url \<noteq> Relative"
  shows "normalize_href word url None = url"
  using assms by (cases "classify_href word url") (simp_all add: normalize_href_def percent_encode_ascii)

subsection \<open>Properties\<close>

text \<open>
  C4: No link the renderer normalizes runs script: whatever the URL, its extra part and the word
  table, what \<open>normalize_href\<close> returns is not seen by a browser as a \<open>javascript:\<close>, \<open>data:\<close> or
  \<open>vbscript:\<close> URL, the inert link \<open>javascript:;\<close> apart.
\<close>

theorem normalize_href_never_script:
  assumes "url \<noteq> ''javascript:;''"
  shows "\<not> script_url (normalize_href word url extra)"
  using normalize_href_not_script [OF assms] .

lemma normalize_href_never_script_witness:
  "\<not> script_url (normalize_href (\<lambda>_. True) ''JavaScript:alert(1)'' None) \<and>
   script_url ''JavaScript:alert(1)''"
proof -
  have "script_url ''JavaScript:alert(1)''" by code_simp
  with normalize_href_never_script [of "''JavaScript:alert(1)''" "\<lambda>_. True" None] show ?thesis by simp
qed

text \<open>
  A \<open>javascript:\<close> or \<open>data:\<close> URL, with its scheme in any mix of cases, is replaced by
  \<open>#invalid-url\<close>.
\<close>

theorem dangerous_schemes_replaced:
  assumes "CHR '':'' \<notin> set scheme"
    and "eq_ignore_ascii_case scheme ''javascript'' \<or> eq_ignore_ascii_case scheme ''data''"
    and "scheme @ '':'' @ rest \<noteq> ''javascript:;''"
  shows "normalize_href word (scheme @ '':'' @ rest) extra = ''#invalid-url''"
proof -
  let ?url = "scheme @ '':'' @ rest"
  have "to_ascii_lowercase ''javascript'' = ''javascript''" "to_ascii_lowercase ''data'' = ''data''"
    by code_simp+
  with assms(2) have lower: "to_ascii_lowercase scheme = ''javascript'' \<or> to_ascii_lowercase scheme = ''data''"
    by (auto simp: eq_ignore_ascii_case_def)
  have "32 < byte c" if "c \<in> set scheme" for c
  proof -
    have "to_lower c \<in> set (to_ascii_lowercase scheme)" using that by (simp add: to_ascii_lowercase_def)
    with lower have "96 < byte (to_lower c)" by auto
    then show ?thesis by (simp add: byte_to_lower split: if_splits)
  qed
  then have "list_all (\<lambda>c. 32 < byte c) (scheme @ '':'')" by (auto simp: list_all_iff)
  then have "starts_with (browser_view ((scheme @ '':'') @ rest)) (to_ascii_lowercase (scheme @ '':''))"
    by (rule browser_view_lit) simp
  moreover have "to_lower (CHR '':'') = CHR '':''" by code_simp
  then have "to_ascii_lowercase (scheme @ '':'') = to_ascii_lowercase scheme @ '':''"
    by (simp add: to_ascii_lowercase_def)
  ultimately have "script_url ?url" using lower by (auto simp: script_url_def)
  then have no: "\<not> starts_with ?url p" if "p \<in> set external_prefixes" for p
    using external_not_script that by blast
  then have "\<not> is_url ?url" using is_url_prefix by blast
  moreover have "\<not> starts_with ?url ''#''" "\<not> starts_with ?url ''/''" "\<not> starts_with ?url ''news://''"
    "\<not> starts_with ?url ''mms://''" using no by (auto simp: external_prefixes_def)
  moreover from this have "\<not> starts_with ?url ''//''" by (cases ?url) auto
  moreover have "split_once (CHR '':'') ?url = Some (scheme, rest)"
    using assms(1) by (simp add: split_once_Some)
  ultimately show ?thesis
    using assms(2,3) by (simp add: normalize_href_def classify_href_def dangerous_scheme_def)
qed

lemma dangerous_schemes_replaced_witness:
  "normalize_href (\<lambda>_. False) (''DaTa'' @ '':'' @ ''text/html,x'') None = ''#invalid-url''"
proof -
  have "eq_ignore_ascii_case ''DaTa'' ''data''" by code_simp
  with dangerous_schemes_replaced [of "''DaTa''" "''text/html,x''" "\<lambda>_. False" None] show ?thesis by simp
qed

text \<open>
  Percent encoding gives ASCII, leaves ASCII text alone, and loses nothing: decoding the
  escapes of high bytes gives the text back when it holds no percent sign of its own.
\<close>

theorem percent_encoding_roundtrip:
  "list_all is_ascii (percent_encode_non_ascii s) \<and>
   (list_all is_ascii s \<longrightarrow> percent_encode_non_ascii s = s) \<and>
   (CHR ''%'' \<notin> set s \<longrightarrow> percent_decode_high (percent_encode_non_ascii s) = s)"
  using percent_encode_is_ascii percent_encode_ascii percent_decode_encode by blast

lemma percent_encoding_roundtrip_witness:
  "percent_decode_high (percent_encode_non_ascii [CHR ''a'', CHR 0xC3, CHR 0xA9]) =
     [CHR ''a'', CHR 0xC3, CHR 0xA9]"
  using percent_encoding_roundtrip [of "[CHR ''a'', CHR 0xC3, CHR 0xA9]"] by simp

text \<open>
  Normalizing an ASCII link twice is normalizing it once.
\<close>

theorem normalize_href_idempotent:
  assumes "list_all is_ascii url"
  shows "normalize_href word (normalize_href word url None) None = normalize_href word url None"
proof (cases "classify_href word url = Invalid \<or> classify_href word url = Relative")
  case False
  with normalize_href_ascii_fixed [OF assms] show ?thesis by simp
next
  case True
  then show ?thesis
  proof
    assume "classify_href word url = Invalid"
    then have "normalize_href word url None = ''#invalid-url''" by (simp add: normalize_href_def)
    moreover have "classify_href word ''#invalid-url'' = Anchor" by (simp add: classify_href_def)
    ultimately show ?thesis
      using normalize_href_ascii_fixed [of "''#invalid-url''" word] by (simp add: is_ascii_def)
  next
    assume rel: "classify_href word url = Relative"
    then have n: "normalize_href word url None = CHR ''/'' # url" by (simp add: normalize_href_def)
    have "classify_href word (CHR ''/'' # url) \<in> {External, AbsolutePath}"
      by (auto simp: classify_href_def)
    then have "normalize_href word (CHR ''/'' # url) None = CHR ''/'' # url"
      using assms by (intro normalize_href_ascii_fixed) (auto simp: is_ascii_def)
    with n show ?thesis by simp
  qed
qed

lemma normalize_href_idempotent_witness:
  "normalize_href (\<lambda>_. False) (normalize_href (\<lambda>_. False) ''scp-001'' None) None =
   normalize_href (\<lambda>_. False) ''scp-001'' None"
  using normalize_href_idempotent [of "''scp-001''" "\<lambda>_. False"] by (simp add: is_ascii_def)

end
