(* ===== verification/Escapes.thy ===== *)
theory Escapes
  imports Prelude
begin

text \<open>
  \<open>src/src/render/html/escape.rs\<close>: escaping of text for HTML, and \<open>src/src/parsing/string.rs\<close>:
  double-quoted strings with backslash escapes.
\<close>

subsection \<open>HTML escapes\<close>

definition html_escaped :: "char \<Rightarrow> bytes option" where
  "html_escaped b =
     (if b = CHR ''>'' then Some ''&gt;''
      else if b = CHR ''<'' then Some ''&lt;''
      else if b = CHR ''&'' then Some ''&amp;''
      else if b = CHR 0x27 then Some ''&#39;''
      else if b = CHR 0x22 then Some ''&quot;''
      else if b = CHR 0x00 then Some '' ''
      else None)"

definition wikidot_raw_escaped :: "char \<Rightarrow> bytes option" where
  "wikidot_raw_escaped b = (if b = CHR '' '' then Some ''&#32;'' else html_escaped b)"

text \<open>
  The loop both functions share: unescaped runs are copied whole, from \<open>start\<close> to the byte that
  is escaped.
\<close>

fun escape_loop ::
  "(char \<Rightarrow> bytes option) \<Rightarrow> bytes \<Rightarrow> bytes \<Rightarrow> nat \<Rightarrow> nat \<Rightarrow> bytes \<Rightarrow> nat \<times> bytes" where
  "escape_loop esc s [] index start buffer = (start, buffer)"
| "escape_loop esc s (b # bs) index start buffer =
     (case esc b of
        None \<Rightarrow> escape_loop esc s bs (index + 1) start buffer
      | Some escaped \<Rightarrow>
          escape_loop esc s bs (index + 1) (index + 1)
            ((if start < index then buffer @ slice s start index else buffer) @ escaped))"

definition escape_with :: "(char \<Rightarrow> bytes option) \<Rightarrow> bytes \<Rightarrow> bytes \<Rightarrow> bytes" where
  "escape_with esc buffer s =
     (case escape_loop esc s s 0 0 buffer of
        (start, buffer') \<Rightarrow>
          if start < length s then buffer' @ slice s start (length s) else buffer')"

definition escape :: "bytes \<Rightarrow> bytes \<Rightarrow> bytes" where
  "escape buffer s = escape_with html_escaped buffer s"

definition escape_wikidot_raw :: "bytes \<Rightarrow> bytes \<Rightarrow> bytes" where
  "escape_wikidot_raw buffer s = escape_with wikidot_raw_escaped buffer s"

definition escape_byte :: "(char \<Rightarrow> bytes option) \<Rightarrow> char \<Rightarrow> bytes" where
  "escape_byte esc b = (case esc b of None \<Rightarrow> [b] | Some e \<Rightarrow> e)"

lemma slice_next:
  "i \<le> j \<Longrightarrow> j < length s \<Longrightarrow> slice s i (Suc j) = slice s i j @ [s ! j]"
  by (simp add: slice_def Suc_diff_le take_Suc_conv_app_nth)

lemma escape_loop_spec:
  "bs = drop index s \<Longrightarrow> start \<le> index \<Longrightarrow> index \<le> length s \<Longrightarrow>
   (\<forall>k. start \<le> k \<and> k < index \<longrightarrow> esc (s ! k) = None) \<Longrightarrow>
   (case escape_loop esc s bs index start buffer of (start', buffer') \<Rightarrow>
      buffer' @ slice s start' (length s) =
      buffer @ slice s start index @ concat (map (escape_byte esc) bs))"
proof (induction esc s bs index start buffer rule: escape_loop.induct)
  case (1 esc s index start buffer)
  then have "index = length s" by simp
  then show ?case by simp
next
  case (2 esc s b bs index start buffer)
  have lt: "index < length s" using "2.prems"(1) by (metis drop_all list.distinct(1) not_less)
  then have b: "s ! index = b" "bs = drop (Suc index) s"
    using "2.prems"(1) by (metis Cons_nth_drop_Suc list.inject)+
  show ?case
  proof (cases "esc b")
    case None
    have "\<forall>k. start \<le> k \<and> k < index + 1 \<longrightarrow> esc (s ! k) = None"
      using "2.prems"(4) None b(1) by (auto simp: less_Suc_eq)
    with "2.IH"(1) [OF None] "2.prems" lt b
    have "case escape_loop esc s bs (index + 1) start buffer of (start', buffer') \<Rightarrow>
      buffer' @ slice s start' (length s) =
      buffer @ slice s start (index + 1) @ concat (map (escape_byte esc) bs)" by simp
    moreover have "slice s start (index + 1) = slice s start index @ [b]"
      using slice_next "2.prems"(2) lt b by simp
    moreover have "escape_byte esc b = [b]" using None by (simp add: escape_byte_def)
    ultimately show ?thesis using None by simp
  next
    case (Some e)
    let ?buf = "(if start < index then buffer @ slice s start index else buffer) @ e"
    have "case escape_loop esc s bs (index + 1) (index + 1) ?buf of (start', buffer') \<Rightarrow>
      buffer' @ slice s start' (length s) =
      ?buf @ slice s (index + 1) (index + 1) @ concat (map (escape_byte esc) bs)"
      using "2.IH"(2) [OF Some] "2.prems" lt b by simp
    moreover have "?buf = buffer @ slice s start index @ e"
      using "2.prems"(2) by (cases "start = index") auto
    moreover have "escape_byte esc b = e" using Some by (simp add: escape_byte_def)
    ultimately show ?thesis using Some by simp
  qed
qed

lemma escape_with_eq: "escape_with esc buffer s = buffer @ concat (map (escape_byte esc) s)"
proof -
  obtain start buffer' where l: "escape_loop esc s s 0 0 buffer = (start, buffer')" by fastforce
  have "buffer' @ slice s start (length s) = buffer @ concat (map (escape_byte esc) s)"
    using escape_loop_spec [of s 0 s 0 esc buffer] l by simp
  moreover have "slice s start (length s) = []" if "\<not> start < length s"
    using that by (simp add: slice_def)
  ultimately show ?thesis
    using l by (cases "start < length s") (auto simp: escape_with_def)
qed

text \<open>Reading the entities back.\<close>

definition entities :: "(bytes \<times> char) list" where
  "entities = [(''&gt;'', CHR ''>''), (''&lt;'', CHR ''<''), (''&amp;'', CHR ''&''),
               (''&#39;'', CHR 0x27), (''&quot;'', CHR 0x22), (''&#32;'', CHR '' '')]"

fun first_entity :: "(bytes \<times> char) list \<Rightarrow> bytes \<Rightarrow> (bytes \<times> char) option" where
  "first_entity [] s = None"
| "first_entity ((e, c) # es) s = (if starts_with s e then Some (e, c) else first_entity es s)"

function unescape :: "bytes \<Rightarrow> bytes" where
  "unescape [] = []"
| "unescape (b # bs) =
     (case first_entity entities (b # bs) of
        Some (e, c) \<Rightarrow> c # unescape (drop (length e - 1) bs)
      | None \<Rightarrow> b # unescape bs)"
  by pat_completeness auto
termination by (relation "measure length") auto

lemma first_entity_plain: "b \<noteq> CHR ''&'' \<Longrightarrow> first_entity entities (b # bs) = None"
  by (simp add: entities_def)

lemma unescape_escape_byte:
  assumes "b \<noteq> CHR 0x00"
  shows "unescape (escape_byte wikidot_raw_escaped b @ t) = b # unescape t"
    and "unescape (escape_byte html_escaped b @ t) = b # unescape t"
  using assms by (auto simp: escape_byte_def wikidot_raw_escaped_def html_escaped_def first_entity_plain entities_def)

lemma unescape_escape:
  "CHR 0x00 \<notin> set s \<Longrightarrow> unescape (concat (map (escape_byte html_escaped) s)) = s"
  "CHR 0x00 \<notin> set s \<Longrightarrow> unescape (concat (map (escape_byte wikidot_raw_escaped) s)) = s"
  by (induction s) (auto simp: unescape_escape_byte simp del: unescape.simps(2))

lemma escape_byte_safe:
  "c \<in> set (escape_byte html_escaped b) \<Longrightarrow> c \<notin> {CHR ''<'', CHR ''>'', CHR 0x22, CHR 0x27, CHR 0x00}"
  "c \<in> set (escape_byte wikidot_raw_escaped b) \<Longrightarrow> c \<notin> {CHR ''<'', CHR ''>'', CHR 0x22, CHR 0x27, CHR 0x00}"
  by (auto simp: escape_byte_def html_escaped_def wikidot_raw_escaped_def split: if_splits)

subsection \<open>Quoted strings\<close>

definition escape_char :: "bytes \<Rightarrow> bytes option" where
  "escape_char ch =
     (if ch = [CHR 0x5C] then Some [CHR 0x5C]
      else if ch = [CHR 0x22] then Some [CHR 0x22]
      else if ch = [CHR 0x27] then Some [CHR 0x27]
      else if ch = ''r'' then Some [CHR 0x0D]
      else if ch = ''n'' then Some [CHR 0x0A]
      else if ch = ''t'' then Some [CHR 0x09]
      else None)"

fun parse_string_loop :: "bytes list \<Rightarrow> bytes \<Rightarrow> bool \<Rightarrow> bytes" where
  "parse_string_loop [] output wants_escape = output"
| "parse_string_loop (ch # chs) output wants_escape =
     (if wants_escape then
        parse_string_loop chs
          (case escape_char ch of Some r \<Rightarrow> output @ r | None \<Rightarrow> output @ [CHR 0x5C] @ ch) False
      else if ch = [CHR 0x5C] then parse_string_loop chs output True
      else parse_string_loop chs (output @ ch) False)"

definition parse_string :: "bytes \<Rightarrow> bytes" where
  "parse_string input =
     (let input = (case strip_prefix [CHR 0x22] input of
                     None \<Rightarrow> input
                   | Some stripped \<Rightarrow>
                       (case strip_suffix [CHR 0x22] stripped of None \<Rightarrow> input | Some i \<Rightarrow> i))
      in if CHR 0x5C \<notin> set input then input
         else parse_string_loop (chars input) [] False)"

text \<open>How an author writes a string so that it reads back.\<close>

definition quote_char :: "bytes \<Rightarrow> bytes" where
  "quote_char ch =
     (if ch = [CHR 0x5C] \<or> ch = [CHR 0x22] then CHR 0x5C # ch
      else if ch = [CHR 0x0D] then [CHR 0x5C, CHR ''r'']
      else if ch = [CHR 0x0A] then [CHR 0x5C, CHR ''n'']
      else if ch = [CHR 0x09] then [CHR 0x5C, CHR ''t'']
      else ch)"

definition quote_string :: "bytes \<Rightarrow> bytes" where
  "quote_string s = [CHR 0x22] @ concat (map quote_char (chars s)) @ [CHR 0x22]"

lemma parse_string_loop_output:
  "parse_string_loop cs out w = out @ parse_string_loop cs [] w"
proof (induction cs arbitrary: out w)
  case (Cons ch cs)
  have IH: "parse_string_loop cs (out @ x) v = out @ parse_string_loop cs x v" for x v
    using Cons.IH [of "out @ x" v] Cons.IH [of x v] by simp
  show ?case
    using IH [of "[]"] by (auto simp: IH split: option.splits)
qed simp

lemma chars_ascii_Cons: "byte c < 128 \<Longrightarrow> chars (c # x) = [c] # chars x"
  using chars_append_char [of "[c]" x] by simp

lemma quote_char_cases:
  obtains (plain) "ch \<noteq> [CHR 0x5C]" "quote_char ch = ch"
    | (escaped) c d where "ch = [d]" "quote_char ch = [CHR 0x5C, c]" "byte c < 128"
        "escape_char [c] = Some [d]"
proof (cases "ch \<in> {[CHR 0x5C], [CHR 0x22], [CHR 0x0D], [CHR 0x0A], [CHR 0x09]}")
  case True
  then show thesis
    by (elim insertE emptyE) (auto simp: quote_char_def escape_char_def intro: escaped)
qed (auto simp: quote_char_def intro: plain)

lemma chars_quote_char:
  assumes "utf8_char ch"
  shows "parse_string_loop (chars (quote_char ch @ t)) [] False = ch @ parse_string_loop (chars t) [] False"
proof (cases ch rule: quote_char_cases)
  case plain
  then show ?thesis
    using parse_string_loop_output [of "chars t" ch] by (simp add: chars_append_char [OF assms])
next
  case (escaped c d)
  then show ?thesis
    using parse_string_loop_output [of "chars t" ch]
    by (simp add: chars_ascii_Cons del: chars.simps)
qed

lemma parse_quote_loop:
  "list_all utf8_char cs \<Longrightarrow>
   parse_string_loop (chars (concat (map quote_char cs))) [] False = concat cs"
  by (induction cs) (auto simp: chars_quote_char)

lemma quote_char_utf8: "utf8_char ch \<Longrightarrow> valid_utf8 (quote_char ch)"
  using valid_append_char [of "[CHR 0x5C]" ch] valid_append_char [of ch "[]"]
  by (auto simp: quote_char_def valid_utf8_def utf8_width_def)

subsection \<open>Properties\<close>

text \<open>
  C15: HTML escaping appends to the buffer text that holds no tag, quote or NUL byte, so it can
  stand inside element content and attribute values, and that reads back as the text escaped when
  the text has no NUL.  The same holds of the raw escape of Wikidot, which escapes spaces too.
\<close>

theorem escape_neutralizes:
  "\<exists>out out'. escape buffer s = buffer @ out \<and> escape_wikidot_raw buffer s = buffer @ out' \<and>
     set out \<inter> {CHR ''<'', CHR ''>'', CHR 0x22, CHR 0x27, CHR 0x00} = {} \<and>
     set out' \<inter> {CHR ''<'', CHR ''>'', CHR 0x22, CHR 0x27, CHR 0x00} = {} \<and>
     (CHR 0x00 \<notin> set s \<longrightarrow> unescape out = s \<and> unescape out' = s)"
proof -
  have "set (concat (map (escape_byte esc) s)) \<inter> {CHR ''<'', CHR ''>'', CHR 0x22, CHR 0x27, CHR 0x00} = {}"
    if "esc = html_escaped \<or> esc = wikidot_raw_escaped" for esc
    using that escape_byte_safe by fastforce
  then show ?thesis
    using unescape_escape by (auto simp: escape_def escape_wikidot_raw_def escape_with_eq)
qed

lemma escape_neutralizes_witness:
  "\<exists>out. escape ''<p>'' ''a<b&c'' = ''<p>'' @ out \<and>
     set out \<inter> {CHR ''<'', CHR ''>'', CHR 0x22, CHR 0x27, CHR 0x00} = {} \<and> unescape out = ''a<b&c''"
  using escape_neutralizes [of "''<p>''" "''a<b&c''"] by auto

text \<open>
  Any text written as a quoted string, with its backslashes, quotes and line breaks
  escaped, is what \<open>parse_string\<close> reads back.
\<close>

theorem parse_string_quote:
  assumes "valid_utf8 s"
  shows "parse_string (quote_string s) = s"
proof -
  let ?q = "concat (map quote_char (chars s))"
  have u8: "list_all utf8_char (chars s)" using assms by (simp add: valid_utf8_def)
  have strip: "strip_prefix [CHR 0x22] (quote_string s) = Some (?q @ [CHR 0x22])"
    "strip_suffix [CHR 0x22] (?q @ [CHR 0x22]) = Some ?q"
    by (simp_all add: quote_string_def strip_prefix_def strip_suffix_def ends_with_def)
  show ?thesis
  proof (cases "CHR 0x5C \<in> set ?q")
    case True
    with strip parse_quote_loop [OF u8] show ?thesis by (simp add: parse_string_def Let_def)
  next
    case False
    have "quote_char ch = ch" if "ch \<in> set (chars s)" for ch
      using False that by (auto simp: quote_char_def split: if_splits)
    then have "map quote_char (chars s) = chars s" by (simp add: map_idI)
    then have "?q = s" by simp
    with False strip show ?thesis by (simp add: parse_string_def Let_def)
  qed
qed

lemma parse_string_quote_witness:
  "parse_string (quote_string [CHR ''a'', CHR 0x22, CHR 0x5C, CHR 0x0A]) = [CHR ''a'', CHR 0x22, CHR 0x5C, CHR 0x0A]"
  using parse_string_quote [of "[CHR ''a'', CHR 0x22, CHR 0x5C, CHR 0x0A]"]
  by (simp add: valid_utf8_def utf8_width_def)

end
