(* ===== verification/Attributes.thy ===== *)
theory Attributes
  imports Url Indices
begin

text \<open>
  \<open>src/src/tree/attribute/\<close>: the attributes that may reach the page (\<open>safe.rs\<close>), the map that
  holds them (\<open>mod.rs\<close>), and \<open>src/src/parsing/boolean.rs\<close>.  A \<open>BTreeMap\<close> from keys to values is a
  HOL map.  \<open>word\<close> is the table of Unicode word characters of the \<open>regex\<close> crate (see \<open>Url\<close>).
\<close>

subsection \<open>Booleans\<close>

definition boolean_names :: "(bytes \<times> bool) list" where
  "boolean_names =
     [(''true'', True), (''false'', False), (''t'', True), (''f'', False),
      (''1'', True), (''0'', False), (''yes'', True), (''no'', False)]"

fun find_boolean :: "(bytes \<times> bool) list \<Rightarrow> bytes \<Rightarrow> bool option" where
  "find_boolean [] s = None"
| "find_boolean ((name, v) # names) s =
     (if eq_ignore_ascii_case name s then Some v else find_boolean names s)"

definition parse_boolean :: "bytes \<Rightarrow> bool option" where
  "parse_boolean s = find_boolean boolean_names (trim s)"

subsection \<open>Safe attributes\<close>

definition safe_attributes :: "bytes list" where
  "safe_attributes =
     [''accept'', ''align'', ''alt'', ''autocapitalize'', ''autoplay'', ''background'', ''bgcolor'',
      ''border'', ''buffered'', ''checked'', ''cite'', ''class'', ''cols'', ''colspan'',
      ''contenteditable'', ''controls'', ''coords'', ''datetime'', ''decoding'', ''default'', ''dir'',
      ''dirname'', ''disabled'', ''download'', ''draggable'', ''for'', ''form'', ''frameborder'',
      ''headers'', ''height'', ''hidden'', ''high'', ''href'', ''hreflang'', ''id'', ''inputmode'',
      ''ismap'', ''itemprop'', ''kind'', ''label'', ''lang'', ''list'', ''loop'', ''low'', ''max'',
      ''maxlength'', ''min'', ''minlength'', ''multiple'', ''muted'', ''name'', ''optimum'', ''pattern'',
      ''placeholder'', ''poster'', ''preload'', ''readonly'', ''required'', ''reversed'', ''role'',
      ''rows'', ''rowspan'', ''scope'', ''selected'', ''shape'', ''size'', ''sizes'', ''span'',
      ''spellcheck'', ''src'', ''srclang'', ''start'', ''step'', ''style'', ''tabindex'', ''target'',
      ''title'', ''translate'', ''type'', ''usemap'', ''value'', ''width'', ''wrap'']"

definition boolean_attributes :: "bytes list" where
  "boolean_attributes =
     [''allowfullscreen'', ''allowpaymentrequest'', ''async'', ''autofocus'', ''autoplay'',
      ''checked'', ''controls'', ''default'', ''disabled'', ''formnovalidate'', ''hidden'', ''ismap'',
      ''itemscope'', ''loop'', ''multiple'', ''muted'', ''nomodule'', ''novalidate'', ''open'',
      ''playsinline'', ''readonly'', ''required'', ''reversed'', ''selected'', ''truespeed'']"

definition url_attributes :: "bytes list" where
  "url_attributes = [''background'', ''cite'', ''href'', ''poster'', ''src'', ''usemap'']"

text \<open>A set of \<open>UniCase\<close> strings compares without regard to ASCII case.\<close>

definition contains_unicase :: "bytes list \<Rightarrow> bytes \<Rightarrow> bool" where
  "contains_unicase xs x \<longleftrightarrow> list_ex (eq_ignore_ascii_case x) xs"

definition safe_suffix :: "bytes \<Rightarrow> bool" where
  "safe_suffix s \<longleftrightarrow> s \<noteq> [] \<and> list_all (\<lambda>c. is_alnum c \<or> c = CHR ''-'') s"

fun safe_prefixed :: "bytes list \<Rightarrow> bytes \<Rightarrow> bool" where
  "safe_prefixed [] attribute = False"
| "safe_prefixed (p # ps) attribute =
     (let n = length p in
      if n \<le> length attribute \<and> boundary attribute n \<and>
         eq_ignore_ascii_case (take n attribute) p \<and>
         (if drop n attribute = [] then p = ''data-'' else safe_suffix (drop n attribute))
      then True
      else safe_prefixed ps attribute)"

definition is_safe_attribute :: "bytes \<Rightarrow> bool" where
  "is_safe_attribute attribute \<longleftrightarrow>
     contains_unicase safe_attributes attribute \<or> safe_prefixed [''aria-'', ''data-''] attribute"

subsection \<open>The attribute map\<close>

record attribute_map =
  attr_inner :: "bytes \<rightharpoonup> bytes"
  attr_order :: "bytes list"

definition attribute_map_new :: attribute_map where
  "attribute_map_new = \<lparr>attr_inner = Map.empty, attr_order = []\<rparr>"

definition normalize_usemap :: "bytes \<Rightarrow> bytes" where
  "normalize_usemap value =
     (if length value > 1 \<and> starts_with value ''#'' then value else ''#invalid-url'')"

definition normalize_attribute_value ::
  "(bytes \<Rightarrow> bool) \<Rightarrow> bytes \<Rightarrow> bytes \<Rightarrow> bytes option" where
  "normalize_attribute_value word attribute value =
     (case (if contains_unicase boolean_attributes attribute then parse_boolean value else None) of
        Some False \<Rightarrow> None
      | b \<Rightarrow>
          let value = (if b = Some True then [] else value) in
          Some (if eq_ignore_ascii_case attribute ''usemap'' then normalize_usemap value
                else if contains_unicase url_attributes attribute then normalize_href word value None
                else value))"

definition insert_key :: "bytes \<Rightarrow> bytes \<Rightarrow> attribute_map \<Rightarrow> attribute_map" where
  "insert_key key value m =
     (let m' = (if attr_inner m key = None then m\<lparr>attr_order := attr_order m @ [key]\<rparr> else m)
      in m'\<lparr>attr_inner := (attr_inner m')(key \<mapsto> value)\<rparr>)"

definition attr_insert ::
  "(bytes \<Rightarrow> bool) \<Rightarrow> bytes \<Rightarrow> bytes \<Rightarrow> attribute_map \<Rightarrow> bool \<times> attribute_map" where
  "attr_insert word attribute value m =
     (if \<not> is_safe_attribute attribute then (False, m)
      else case normalize_attribute_value word attribute value of
        None \<Rightarrow> (False, m)
      | Some value \<Rightarrow> (True, insert_key (to_ascii_lowercase attribute) value m))"

text \<open>
  \<open>from_arguments\<close> iterates a hash map: the entries in the order of the iteration.  It writes the
  inner map only.
\<close>

fun from_arguments_loop ::
  "(bytes \<Rightarrow> bool) \<Rightarrow> (bytes \<times> bytes) list \<Rightarrow> attribute_map \<Rightarrow> attribute_map" where
  "from_arguments_loop word [] m = m"
| "from_arguments_loop word ((key, value) # rest) m =
     from_arguments_loop word rest
       (if is_safe_attribute key then
          (case normalize_attribute_value word key value of
             None \<Rightarrow> m
           | Some value \<Rightarrow> m\<lparr>attr_inner := (attr_inner m)(to_ascii_lowercase key \<mapsto> value)\<rparr>)
        else m)"

definition from_arguments :: "(bytes \<Rightarrow> bool) \<Rightarrow> (bytes \<times> bytes) list \<Rightarrow> attribute_map" where
  "from_arguments word arguments = from_arguments_loop word arguments attribute_map_new"

definition insert_raw :: "bytes \<Rightarrow> bytes \<Rightarrow> attribute_map \<Rightarrow> attribute_map" where
  "insert_raw key value m = insert_key key value m"

definition insert_wikidot_relative_href :: "bytes \<Rightarrow> attribute_map \<Rightarrow> attribute_map" where
  "insert_wikidot_relative_href value m = insert_key ''href'' value m"

definition ordered_keys :: "attribute_map \<Rightarrow> bytes list" where
  "ordered_keys m = filter (\<lambda>key. attr_inner m key \<noteq> None) (attr_order m)"

definition insert_wikidot_iframe_attribute :: "bytes \<Rightarrow> bytes \<Rightarrow> attribute_map \<Rightarrow> attribute_map" where
  "insert_wikidot_iframe_attribute attribute value m =
     m\<lparr>attr_inner := (attr_inner m)(attribute \<mapsto> value)\<rparr>"

definition attr_remove :: "bytes \<Rightarrow> attribute_map \<Rightarrow> bytes option \<times> attribute_map" where
  "attr_remove attribute m =
     (attr_inner m attribute, m\<lparr>attr_inner := (attr_inner m)(attribute := None)\<rparr>)"

definition isolate_id :: "bool \<Rightarrow> attribute_map \<Rightarrow> attribute_map" where
  "isolate_id isolate_user_ids m =
     (case (if isolate_user_ids then attr_inner m ''id'' else None) of
        None \<Rightarrow> m
      | Some value \<Rightarrow>
          let isolated = isolate_ids value in
          if isolated = [] then
            \<lparr>attr_inner = (attr_inner m)(''id'' := None),
             attr_order = filter (\<lambda>key. key \<noteq> ''id'') (attr_order m)\<rparr>
          else m\<lparr>attr_inner := (attr_inner m)(''id'' \<mapsto> isolated)\<rparr>)"

text \<open>
  \<open>From<BTreeMap>\<close> and \<open>Deserialize\<close> insert the entries of a map in the order of its keys: the
  entries as a list.
\<close>

fun attr_from_entries :: "(bytes \<Rightarrow> bool) \<Rightarrow> (bytes \<times> bytes) list \<Rightarrow> attribute_map \<Rightarrow> attribute_map" where
  "attr_from_entries word [] m = m"
| "attr_from_entries word ((key, value) # rest) m =
     attr_from_entries word rest (snd (attr_insert word key value m))"

definition attr_eq :: "attribute_map \<Rightarrow> attribute_map \<Rightarrow> bool" where
  "attr_eq m m' \<longleftrightarrow> attr_inner m = attr_inner m'"

subsection \<open>Case insensitivity\<close>

lemma contains_unicase_lower [simp]:
  "contains_unicase xs (to_ascii_lowercase x) \<longleftrightarrow> contains_unicase xs x"
  unfolding contains_unicase_def by (induction xs) simp_all

lemma take_lower: "take n (to_ascii_lowercase x) = to_ascii_lowercase (take n x)"
  by (simp add: to_ascii_lowercase_def take_map)

lemma drop_lower: "drop n (to_ascii_lowercase x) = to_ascii_lowercase (drop n x)"
  by (simp add: to_ascii_lowercase_def drop_map)

lemma is_cont_lower [simp]: "is_cont (to_lower c) \<longleftrightarrow> is_cont c"
  by (auto simp: is_cont_def byte_to_lower is_upper_def)

lemma boundary_lower [simp]: "boundary (to_ascii_lowercase x) n \<longleftrightarrow> boundary x n"
  by (auto simp: boundary_def to_ascii_lowercase_def)

lemma safe_char_lower:
  "is_alnum (to_lower c) \<or> to_lower c = CHR ''-'' \<longleftrightarrow> is_alnum c \<or> c = CHR ''-''"
proof (cases "is_upper c")
  case True
  then have b: "byte (to_lower c) = byte c + 32" by (simp add: byte_to_lower)
  with True have "is_alnum (to_lower c)" by (simp add: ascii_defs)
  with True show ?thesis by (simp add: is_alnum_def is_alpha_def)
qed (simp add: to_lower_def)

lemma safe_suffix_lower [simp]: "safe_suffix (to_ascii_lowercase x) \<longleftrightarrow> safe_suffix x"
  by (simp add: safe_suffix_def to_ascii_lowercase_def list_all_iff safe_char_lower)

lemma length_lower [simp]: "length (to_ascii_lowercase x) = length x"
  by (simp add: to_ascii_lowercase_def)

lemma lower_Nil [simp]: "to_ascii_lowercase x = [] \<longleftrightarrow> x = []"
  by (simp add: to_ascii_lowercase_def)

lemma safe_prefixed_lower [simp]:
  "safe_prefixed ps (to_ascii_lowercase x) \<longleftrightarrow> safe_prefixed ps x"
proof (induction ps)
  case (Cons p ps)
  then show ?case
    by (simp only: safe_prefixed.simps Let_def take_lower drop_lower length_lower boundary_lower
        eq_ignore_lowercase lower_Nil safe_suffix_lower)
qed simp

lemma is_safe_lower [simp]: "is_safe_attribute (to_ascii_lowercase x) \<longleftrightarrow> is_safe_attribute x"
  by (simp add: is_safe_attribute_def)

subsection \<open>The invariant\<close>

text \<open>
  What every key and value of a map built by the checked operations satisfies: the key is a
  lowercase safe attribute; a boolean attribute is never spelled false; a URL attribute, script
  excluded, holds what \<open>normalize_href\<close> or \<open>normalize_usemap\<close> gives.
\<close>

definition value_safe :: "bytes \<Rightarrow> bytes \<Rightarrow> bool" where
  "value_safe key value \<longleftrightarrow>
     (contains_unicase url_attributes key \<longrightarrow> \<not> script_url value \<or> value = ''javascript:;'') \<and>
     (key = ''usemap'' \<longrightarrow> starts_with value ''#'')"

definition attr_inv :: "attribute_map \<Rightarrow> bool" where
  "attr_inv m \<longleftrightarrow>
     (\<forall>key value. attr_inner m key = Some value \<longrightarrow>
        is_safe_attribute key \<and> to_ascii_lowercase key = key \<and> value_safe key value)"

lemma hash_not_script: "starts_with value ''#'' \<Longrightarrow> \<not> script_url value"
  by (rule external_not_script [of "''#''"]) (simp add: external_prefixes_def)

lemma normalize_attribute_value_safe:
  assumes "normalize_attribute_value word attribute value = Some v"
  shows "value_safe (to_ascii_lowercase attribute) v"
proof -
  obtain w where w: "v = (if eq_ignore_ascii_case attribute ''usemap'' then normalize_usemap w
      else if contains_unicase url_attributes attribute then normalize_href word w None else w)"
    using assms by (auto simp: normalize_attribute_value_def Let_def split: option.splits bool.splits if_splits)
  have "starts_with (normalize_usemap w) ''#''" by (simp add: normalize_usemap_def)
  moreover have "to_ascii_lowercase ''usemap'' = ''usemap''" by code_simp
  then have "to_ascii_lowercase attribute = ''usemap'' \<Longrightarrow> eq_ignore_ascii_case attribute ''usemap''"
    by (simp add: eq_ignore_ascii_case_def)
  moreover have "\<not> script_url (normalize_href word w None) \<or> normalize_href word w None = ''javascript:;''"
    using normalize_href_not_script [of w word None]
    by (cases "w = ''javascript:;''") (auto simp: normalize_href_def classify_href_def)
  ultimately show ?thesis
    unfolding w value_safe_def using hash_not_script by auto
qed

lemma attr_inv_new: "attr_inv attribute_map_new"
  by (simp add: attr_inv_def attribute_map_new_def)

lemma attr_inv_insert: "attr_inv m \<Longrightarrow> attr_inv (snd (attr_insert word attribute value m))"
  by (auto simp: attr_inv_def attr_insert_def insert_key_def Let_def
           dest: normalize_attribute_value_safe split: option.splits)

lemma attr_inv_remove: "attr_inv m \<Longrightarrow> attr_inv (snd (attr_remove attribute m))"
  by (auto simp: attr_inv_def attr_remove_def)

lemma id_value_safe: "value_safe ''id'' value"
proof -
  have "\<not> contains_unicase url_attributes ''id''" by code_simp
  then show ?thesis by (simp add: value_safe_def)
qed

lemma attr_inv_isolate: "attr_inv m \<Longrightarrow> attr_inv (isolate_id b m)"
  by (auto simp: attr_inv_def isolate_id_def Let_def id_value_safe split: option.splits if_splits)

lemma attr_inv_put:
  "attr_inv m \<Longrightarrow> is_safe_attribute key \<Longrightarrow> normalize_attribute_value word key val = Some v \<Longrightarrow>
   attr_inv (m\<lparr>attr_inner := (attr_inner m)(to_ascii_lowercase key \<mapsto> v)\<rparr>)"
  by (auto simp: attr_inv_def dest: normalize_attribute_value_safe)

lemma attr_inv_from_arguments: "attr_inv m \<Longrightarrow> attr_inv (from_arguments_loop word args m)"
proof (induction args arbitrary: m)
  case (Cons arg args)
  obtain key val where arg: "arg = (key, val)" by (cases arg)
  have "attr_inv (if is_safe_attribute key then
          (case normalize_attribute_value word key val of
             None \<Rightarrow> m
           | Some v \<Rightarrow> m\<lparr>attr_inner := (attr_inner m)(to_ascii_lowercase key \<mapsto> v)\<rparr>)
        else m)"
    using Cons.prems attr_inv_put by (simp split: option.split)
  from Cons.IH [OF this] show ?case by (simp add: arg)
qed simp

lemma attr_inv_from_entries: "attr_inv m \<Longrightarrow> attr_inv (attr_from_entries word args m)"
  by (induction word args m rule: attr_from_entries.induct) (auto simp: attr_inv_insert)

subsection \<open>Order\<close>

text \<open>
  The order list names every key once as long as nothing was removed: the invariant of maps built
  by \<open>insert\<close> alone.
\<close>

definition order_inv :: "attribute_map \<Rightarrow> bool" where
  "order_inv m \<longleftrightarrow> distinct (attr_order m) \<and> set (attr_order m) = dom (attr_inner m)"

lemma order_inv_insert_key: "order_inv m \<Longrightarrow> order_inv (insert_key key value m)"
  by (auto simp: order_inv_def insert_key_def Let_def)

lemma order_inv_insert: "order_inv m \<Longrightarrow> order_inv (snd (attr_insert word attribute value m))"
  by (simp add: attr_insert_def order_inv_insert_key split: option.split)

lemma order_inv_isolate: "order_inv m \<Longrightarrow> order_inv (isolate_id b m)"
  by (auto simp: order_inv_def isolate_id_def Let_def split: option.splits if_splits)

lemma order_inv_ordered_keys: "order_inv m \<Longrightarrow> ordered_keys m = attr_order m"
  by (auto simp: order_inv_def ordered_keys_def filter_id_conv)

subsection \<open>Histories of a map\<close>

text \<open>
  Every operation that writes a map: the checked ones, and the three that write a key without a check.
\<close>

datatype attribute_op =
  InsertAttr bytes bytes | RemoveAttr bytes | IsolateId bool
| InsertRaw bytes bytes | InsertRelativeHref bytes | InsertIframe bytes bytes

fun run_attr :: "(bytes \<Rightarrow> bool) \<Rightarrow> attribute_map \<Rightarrow> attribute_op \<Rightarrow> attribute_map" where
  "run_attr word m (InsertAttr a v) = snd (attr_insert word a v m)"
| "run_attr word m (RemoveAttr a) = snd (attr_remove a m)"
| "run_attr word m (IsolateId b) = isolate_id b m"
| "run_attr word m (InsertRaw a v) = insert_raw a v m"
| "run_attr word m (InsertRelativeHref v) = insert_wikidot_relative_href v m"
| "run_attr word m (InsertIframe a v) = insert_wikidot_iframe_attribute a v m"

fun unchecked_key :: "attribute_op \<Rightarrow> bytes option" where
  "unchecked_key (InsertRaw a v) = Some a"
| "unchecked_key (InsertRelativeHref v) = Some ''href''"
| "unchecked_key (InsertIframe a v) = Some a"
| "unchecked_key _ = None"

definition attr_inv_except :: "bytes set \<Rightarrow> attribute_map \<Rightarrow> bool" where
  "attr_inv_except keys m \<longleftrightarrow>
     (\<forall>key value. key \<notin> keys \<longrightarrow> attr_inner m key = Some value \<longrightarrow>
        is_safe_attribute key \<and> to_ascii_lowercase key = key \<and> value_safe key value)"

lemma attr_inv_except_write:
  "attr_inv_except keys m \<Longrightarrow> (key \<notin> keys \<Longrightarrow> is_safe_attribute key \<and> to_ascii_lowercase key = key \<and> value_safe key v) \<Longrightarrow>
     attr_inv_except keys (m\<lparr>attr_inner := (attr_inner m)(key \<mapsto> v)\<rparr>)"
  by (auto simp: attr_inv_except_def)

lemma attr_inv_except_insert_key:
  "attr_inv_except keys m \<Longrightarrow> (key \<notin> keys \<Longrightarrow> is_safe_attribute key \<and> to_ascii_lowercase key = key \<and> value_safe key v) \<Longrightarrow>
     attr_inv_except keys (insert_key key v m)"
  by (auto simp: attr_inv_except_def insert_key_def Let_def)

lemma attr_inv_except_insert:
  "attr_inv_except keys m \<Longrightarrow> attr_inv_except keys (snd (attr_insert word attribute value m))"
  by (auto simp: attr_insert_def intro!: attr_inv_except_insert_key
      dest: normalize_attribute_value_safe split: option.split)

lemma attr_inv_except_isolate: "attr_inv_except keys m \<Longrightarrow> attr_inv_except keys (isolate_id b m)"
  by (auto simp: attr_inv_except_def isolate_id_def Let_def id_value_safe split: option.splits if_splits)

lemma attr_inv_except_of: "attr_inv m \<Longrightarrow> attr_inv_except keys m"
  by (auto simp: attr_inv_except_def attr_inv_def)

lemma run_attr_step:
  assumes "attr_inv_except keys m" "set_option (unchecked_key operation) \<subseteq> keys"
  shows "attr_inv_except keys (run_attr word m operation)"
  using assms
  by (cases operation)
     (auto simp: attr_inv_except_insert attr_inv_except_isolate insert_raw_def insert_wikidot_relative_href_def
       insert_wikidot_iframe_attribute_def intro!: attr_inv_except_insert_key attr_inv_except_write,
      auto simp: attr_inv_except_def attr_remove_def)

lemma run_attr_inv:
  "attr_inv_except keys m \<Longrightarrow> (\<Union>operation\<in>set ops. set_option (unchecked_key operation)) \<subseteq> keys \<Longrightarrow>
     attr_inv_except keys (foldl (run_attr word) m ops)"
  by (induction ops arbitrary: m) (auto intro: run_attr_step)

fun keeps_order :: "attribute_op \<Rightarrow> bool" where
  "keeps_order (RemoveAttr a) \<longleftrightarrow> False"
| "keeps_order (InsertIframe a v) \<longleftrightarrow> False"
| "keeps_order _ \<longleftrightarrow> True"

lemma run_order_inv:
  "order_inv m \<Longrightarrow> list_all keeps_order ops \<Longrightarrow> order_inv (foldl (run_attr word) m ops)"
proof (induction ops arbitrary: m)
  case (Cons operation ops)
  then have "order_inv (run_attr word m operation)"
    by (cases operation) (simp_all add: order_inv_insert order_inv_isolate order_inv_insert_key
        insert_raw_def insert_wikidot_relative_href_def)
  with Cons show ?case by simp
qed simp

subsection \<open>Properties\<close>

text \<open>
  C16: Whatever sequence of operations a map goes through, checked insertions, removals, id isolations
  and the three insertions without a check, every key that none of these three wrote is a safe
  lowercase attribute, and no URL attribute among them has a value that a browser would run; the maps
  built of arguments and of entries hold nothing else.
\<close>

theorem attribute_map_always_safe:
  "attr_inv_except (\<Union>operation\<in>set ops. set_option (unchecked_key operation))
     (foldl (run_attr word) attribute_map_new ops) \<and>
   attr_inv (from_arguments word arguments) \<and> attr_inv (attr_from_entries word entries attribute_map_new)"
proof (intro conjI)
  show "attr_inv_except (\<Union>operation\<in>set ops. set_option (unchecked_key operation))
      (foldl (run_attr word) attribute_map_new ops)"
    by (rule run_attr_inv) (simp_all add: attr_inv_except_def attribute_map_new_def)
  show "attr_inv (from_arguments word arguments)" "attr_inv (attr_from_entries word entries attribute_map_new)"
    using attr_inv_new attr_inv_from_arguments attr_inv_from_entries by (simp_all add: from_arguments_def)
qed

text \<open>
  \<open>insert\<close> accepts an attribute, in any case, exactly when it is safe and is not a boolean
  attribute spelled false; then the lowercase key holds the normalized value and every other key
  is as before.  A refused attribute changes nothing.
\<close>

theorem attr_insert_exact:
  "(fst (attr_insert word attribute value m) \<longleftrightarrow>
      is_safe_attribute attribute \<and>
      \<not> (contains_unicase boolean_attributes attribute \<and> parse_boolean value = Some False)) \<and>
   attr_inner (snd (attr_insert word attribute value m)) key =
     (if fst (attr_insert word attribute value m) \<and> key = to_ascii_lowercase attribute
      then normalize_attribute_value word attribute value else attr_inner m key)"
  by (auto simp: attr_insert_def insert_key_def Let_def normalize_attribute_value_def
           split: option.splits bool.splits)

text \<open>
  A map that was only inserted into and isolated lists each of its keys once, in the order of
  their first insertion.
\<close>

theorem ordered_keys_complete:
  assumes "list_all keeps_order ops"
  shows "distinct (ordered_keys (foldl (run_attr word) attribute_map_new ops)) \<and>
         set (ordered_keys (foldl (run_attr word) attribute_map_new ops)) =
           dom (attr_inner (foldl (run_attr word) attribute_map_new ops))"
proof -
  have "order_inv attribute_map_new" by (simp add: order_inv_def attribute_map_new_def)
  from run_order_inv [OF this assms, of word] show ?thesis
    using order_inv_ordered_keys by (auto simp: order_inv_def)
qed

lemma ordered_keys_complete_witness:
  "distinct (ordered_keys (foldl (run_attr (\<lambda>_. False)) attribute_map_new
     [InsertAttr ''id'' ''a'', InsertAttr ''CLASS'' ''b'', IsolateId True]))"
  using ordered_keys_complete [of "[InsertAttr ''id'' ''a'', InsertAttr ''CLASS'' ''b'', IsolateId True]"
      "\<lambda>_. False"] by simp

text \<open>
  Removing a key leaves it in the order list, so a key that is removed and inserted again is
  listed twice by \<open>ordered_keys\<close>.
\<close>

theorem ordered_keys_after_remove:
  assumes "attr_inner m key = Some v" and "key \<in> set (attr_order m)"
    and "is_safe_attribute key" and "to_ascii_lowercase key = key"
    and "normalize_attribute_value word key value = Some w"
  shows "\<not> distinct (ordered_keys (snd (attr_insert word key value (snd (attr_remove key m)))))"
proof -
  let ?m = "snd (attr_insert word key value (snd (attr_remove key m)))"
  have "attr_order ?m = attr_order m @ [key]" "attr_inner ?m key = Some w"
    using assms by (simp_all add: attr_insert_def attr_remove_def insert_key_def Let_def)
  with assms(2) show ?thesis by (simp add: ordered_keys_def)
qed

lemma ordered_keys_after_remove_witness:
  "\<not> distinct (ordered_keys (snd (attr_insert (\<lambda>_. False) ''class'' ''b''
      (snd (attr_remove ''class'' (\<lparr>attr_inner = [''class'' \<mapsto> ''a''], attr_order = [''class'']\<rparr>))))))"
proof -
  have "is_safe_attribute ''class''"
    by (simp add: is_safe_attribute_def contains_unicase_def safe_attributes_def)
  moreover have "to_ascii_lowercase ''class'' = ''class''" by code_simp
  moreover have "normalize_attribute_value (\<lambda>_. False) ''class'' ''b'' = Some ''b''" by code_simp
  ultimately show ?thesis
    using ordered_keys_after_remove
      [of "\<lparr>attr_inner = [''class'' \<mapsto> ''a''], attr_order = [''class'']\<rparr>" "''class''" "''a''" "\<lambda>_. False" "''b''" "''b''"]
    by simp
qed

end
