(* ===== verification/Arguments.thy ===== *)
theory Arguments
  imports Attributes
begin

text \<open>
  \<open>src/src/parsing/rule/impls/block/arguments.rs\<close>: the arguments of a block, and the attribute maps
  made of them.  A hash map keyed by \<open>ArgumentKey\<close> is the list of its entries in the order in which
  the map would be iterated; inserting at an equal key replaces the value and keeps the stored key,
  as \<open>HashMap::insert\<close> does.
\<close>

subsection \<open>Keys and stores\<close>

record argument_key =
  ak_value :: bytes
  ak_case_sensitive :: bool

definition arg_key_eq :: "argument_key \<Rightarrow> argument_key \<Rightarrow> bool" where
  "arg_key_eq a b \<longleftrightarrow>
     ak_case_sensitive a = ak_case_sensitive b \<and>
     (if ak_case_sensitive a then ak_value a = ak_value b
      else eq_ignore_ascii_case (ak_value a) (ak_value b))"

lemma arg_key_eq_refl [simp]: "arg_key_eq k k"
  by (simp add: arg_key_eq_def)

lemma arg_key_eq_sym: "arg_key_eq a b \<Longrightarrow> arg_key_eq b a"
  by (auto simp: arg_key_eq_def eq_ignore_ascii_case_def)

lemma arg_key_eq_trans: "arg_key_eq a b \<Longrightarrow> arg_key_eq b c \<Longrightarrow> arg_key_eq a c"
  by (auto simp: arg_key_eq_def eq_ignore_ascii_case_def)

text \<open>The hash of a key agrees with its equality: the bytes fed to the hasher.\<close>

definition arg_key_hash :: "argument_key \<Rightarrow> bool \<times> nat \<times> bytes" where
  "arg_key_hash k =
     (ak_case_sensitive k, length (ak_value k),
      map (\<lambda>b. if ak_case_sensitive k then b else to_lower b) (ak_value k))"

lemma arg_key_hash_eq: "arg_key_eq a b \<longleftrightarrow> arg_key_hash a = arg_key_hash b"
  by (auto simp: arg_key_eq_def arg_key_hash_def eq_ignore_ascii_case_def to_ascii_lowercase_def
           dest: arg_cong [where f = length])

locale keyed_store =
  fixes same :: "'k \<Rightarrow> 'k \<Rightarrow> bool"
    and lookup :: "'k \<Rightarrow> 's \<Rightarrow> 'v option"
    and put :: "'k \<Rightarrow> 'v \<Rightarrow> 's \<Rightarrow> 's"
    and delete :: "'k \<Rightarrow> 's \<Rightarrow> 's"
  assumes same_refl: "same k k"
    and same_sym: "same j k \<Longrightarrow> same k j"
    and lookup_put: "lookup k (put j v s) = (if same k j then Some v else lookup k s)"
    and lookup_delete: "lookup k (delete j s) = (if same k j then None else lookup k s)"
begin

definition take :: "'k \<Rightarrow> 's \<Rightarrow> 'v option \<times> 's" where
  "take k s = (lookup k s, delete k s)"

lemma take_put: "same k j \<Longrightarrow> fst (take k (put j v s)) = Some v"
  by (simp add: take_def lookup_put)

lemma take_once: "same k j \<Longrightarrow> fst (take k (snd (take j s))) = None"
  by (simp add: take_def lookup_delete)

lemma take_other: "\<not> same k j \<Longrightarrow> fst (take k (snd (take j s))) = fst (take k s)"
  by (simp add: take_def lookup_delete)

lemma put_last: "same k j \<Longrightarrow> lookup k (put j v (put j w s)) = Some v"
  by (simp add: lookup_put)

end

fun hm_get :: "argument_key \<Rightarrow> (argument_key \<times> 'v) list \<Rightarrow> 'v option" where
  "hm_get k [] = None"
| "hm_get k ((j, v) # es) = (if arg_key_eq k j then Some v else hm_get k es)"

fun hm_insert :: "argument_key \<Rightarrow> 'v \<Rightarrow> (argument_key \<times> 'v) list \<Rightarrow> (argument_key \<times> 'v) list" where
  "hm_insert k v [] = [(k, v)]"
| "hm_insert k v ((j, w) # es) = (if arg_key_eq k j then (j, v) # es else (j, w) # hm_insert k v es)"

definition hm_remove :: "argument_key \<Rightarrow> (argument_key \<times> 'v) list \<Rightarrow> (argument_key \<times> 'v) list" where
  "hm_remove k es = filter (\<lambda>(j, v). \<not> arg_key_eq k j) es"

definition hs_contains :: "argument_key \<Rightarrow> argument_key list \<Rightarrow> bool" where
  "hs_contains k ks \<longleftrightarrow> list_ex (arg_key_eq k) ks"

definition hs_insert :: "argument_key \<Rightarrow> argument_key list \<Rightarrow> argument_key list" where
  "hs_insert k ks = (if hs_contains k ks then ks else ks @ [k])"

definition hs_remove :: "argument_key \<Rightarrow> argument_key list \<Rightarrow> bool \<times> argument_key list" where
  "hs_remove k ks = (hs_contains k ks, filter (\<lambda>j. \<not> arg_key_eq k j) ks)"

lemma hm_get_insert: "hm_get k (hm_insert j v es) = (if arg_key_eq k j then Some v else hm_get k es)"
proof (induction es)
  case (Cons e es)
  obtain i w where e: "e = (i, w)" by (cases e)
  consider "arg_key_eq j i" "arg_key_eq k i" "arg_key_eq k j" | "arg_key_eq j i" "\<not> arg_key_eq k i" "\<not> arg_key_eq k j"
    | "\<not> arg_key_eq j i" "arg_key_eq k i" "\<not> arg_key_eq k j" | "\<not> arg_key_eq j i" "\<not> arg_key_eq k i"
    using arg_key_eq_sym arg_key_eq_trans by blast
  then show ?case using Cons e by cases auto
qed simp

lemma hm_get_remove: "hm_get k (hm_remove j es) = (if arg_key_eq k j then None else hm_get k es)"
proof (induction es)
  case (Cons e es)
  obtain i w where e: "e = (i, w)" by (cases e)
  consider "arg_key_eq j i" "arg_key_eq k i" "arg_key_eq k j" | "arg_key_eq j i" "\<not> arg_key_eq k i" "\<not> arg_key_eq k j"
    | "\<not> arg_key_eq j i" "arg_key_eq k i" "\<not> arg_key_eq k j" | "\<not> arg_key_eq j i" "\<not> arg_key_eq k i"
    using arg_key_eq_sym arg_key_eq_trans by blast
  then show ?case using Cons e by cases (auto simp: hm_remove_def)
qed (simp add: hm_remove_def)

interpretation hm: keyed_store arg_key_eq hm_get hm_insert hm_remove
  by unfold_locales (simp_all add: hm_get_insert hm_get_remove arg_key_eq_sym)

lemma hs_contains_cong: "arg_key_eq j k \<Longrightarrow> hs_contains j ks \<longleftrightarrow> hs_contains k ks"
  by (induction ks) (auto simp: hs_contains_def dest: arg_key_eq_sym arg_key_eq_trans)

lemma hs_contains_insert [simp]: "hs_contains j (hs_insert k ks) \<longleftrightarrow> arg_key_eq j k \<or> hs_contains j ks"
  using hs_contains_cong [of j k ks] by (auto simp: hs_insert_def hs_contains_def)

lemma hs_contains_remove [simp]: "hs_contains j (snd (hs_remove k ks)) \<longleftrightarrow> \<not> arg_key_eq k j \<and> hs_contains j ks"
  by (induction ks) (auto simp: hs_remove_def hs_contains_def dest: arg_key_eq_sym arg_key_eq_trans)

subsection \<open>Arguments\<close>

record arguments =
  arg_inner :: "(argument_key \<times> bytes) list"
  arg_raw :: "(bytes \<times> bytes) list"
  arg_bare :: "argument_key list"
  explicit_empty :: "argument_key list"
  whitespace_empty :: "argument_key list"
  case_sensitive :: bool
  empty_key_present :: bool
  source_present :: bool
  spaced_equals :: bool

definition arguments_new :: arguments where
  "arguments_new =
     \<lparr>arg_inner = [], arg_raw = [], arg_bare = [], explicit_empty = [], whitespace_empty = [],
      case_sensitive = False, empty_key_present = False, source_present = False,
      spaced_equals = False\<rparr>"

definition arguments_new_case_sensitive :: arguments where
  "arguments_new_case_sensitive = arguments_new\<lparr>case_sensitive := True\<rparr>"

definition arg_key :: "arguments \<Rightarrow> bytes \<Rightarrow> argument_key" where
  "arg_key a key = \<lparr>ak_value = key, ak_case_sensitive = case_sensitive a\<rparr>"

definition arg_insert :: "bytes \<Rightarrow> bytes \<Rightarrow> arguments \<Rightarrow> arguments" where
  "arg_insert key val a =
     (let k = arg_key a key in
      a\<lparr>source_present := True,
        arg_bare := snd (hs_remove k (arg_bare a)),
        arg_raw := arg_raw a @ [(key, val)],
        arg_inner := hm_insert k val (arg_inner a)\<rparr>)"

definition arg_insert_bare :: "bytes \<Rightarrow> bytes \<Rightarrow> arguments \<Rightarrow> arguments" where
  "arg_insert_bare key val a =
     (let a' = arg_insert key val a in a'\<lparr>arg_bare := hs_insert (arg_key a' key) (arg_bare a')\<rparr>)"

definition is_explicit_empty :: "arguments \<Rightarrow> bytes \<Rightarrow> bool" where
  "is_explicit_empty a key \<longleftrightarrow> hs_contains (arg_key a key) (explicit_empty a)"

definition arg_take :: "argument_key \<Rightarrow> arguments \<Rightarrow> bytes option \<times> arguments" where
  "arg_take k a =
     (hm_get k (arg_inner a),
      a\<lparr>arg_bare := snd (hs_remove k (arg_bare a)), arg_inner := hm_remove k (arg_inner a)\<rparr>)"

definition take_explicit_empty_value :: "bytes \<Rightarrow> arguments \<Rightarrow> bytes option \<times> arguments" where
  "take_explicit_empty_value key a =
     (let k = arg_key a key in
      if \<not> hs_contains k (explicit_empty a) then (None, a) else arg_take k a)"

definition arg_get :: "bytes \<Rightarrow> arguments \<Rightarrow> bytes option \<times> arguments" where
  "arg_get key a =
     (let k = arg_key a key; empty = hs_contains k (explicit_empty a);
          (v, a') = arg_take k a
      in (map_option (\<lambda>v. if empty then [] else v) v, a'))"

definition get_with_bare :: "bytes \<Rightarrow> arguments \<Rightarrow> (bytes \<times> bool) option \<times> arguments" where
  "get_with_bare key a =
     (let k = arg_key a key; bare = fst (hs_remove k (arg_bare a));
          empty = hs_contains k (explicit_empty a);
          (v, a') = arg_take k a
      in (map_option (\<lambda>v. (if empty then [] else v, bare)) v, a'))"

datatype argument_error = BlockMalformedArguments

text \<open>\<open>get_value\<close> is generic in \<open>FromStr\<close>: the parser of the values is a parameter.\<close>

definition get_value ::
  "(bytes \<Rightarrow> 'a option) \<Rightarrow> bytes \<Rightarrow> arguments \<Rightarrow> (argument_error + 'a option) \<times> arguments" where
  "get_value parse key a =
     (let k = arg_key a key; empty = hs_contains k (explicit_empty a);
          (v, a') = arg_take k a
      in (case v of
            Some argument \<Rightarrow>
              if empty then Inr None
              else (case parse argument of
                      Some x \<Rightarrow> Inr (Some x)
                    | None \<Rightarrow> Inl BlockMalformedArguments)
          | None \<Rightarrow> Inr None, a'))"

definition get_bool :: "bytes \<Rightarrow> arguments \<Rightarrow> (argument_error + bool option) \<times> arguments" where
  "get_bool key a = get_value parse_boolean key a"

definition arg_is_empty :: "arguments \<Rightarrow> bool" where
  "arg_is_empty a \<longleftrightarrow> arg_inner a = []"

definition mark_source_present :: "arguments \<Rightarrow> arguments" where
  "mark_source_present a = a\<lparr>source_present := True\<rparr>"

definition mark_empty_key_present :: "arguments \<Rightarrow> arguments" where
  "mark_empty_key_present a = a\<lparr>empty_key_present := True, source_present := True\<rparr>"

definition mark_explicit_empty :: "bytes \<Rightarrow> arguments \<Rightarrow> arguments" where
  "mark_explicit_empty key a = a\<lparr>explicit_empty := hs_insert (arg_key a key) (explicit_empty a)\<rparr>"

definition mark_whitespace_empty :: "bytes \<Rightarrow> arguments \<Rightarrow> arguments" where
  "mark_whitespace_empty key a = a\<lparr>whitespace_empty := hs_insert (arg_key a key) (whitespace_empty a)\<rparr>"

definition mark_spaced_equals :: "arguments \<Rightarrow> arguments" where
  "mark_spaced_equals a = a\<lparr>spaced_equals := True\<rparr>"

definition count_key :: "arguments \<Rightarrow> bytes \<Rightarrow> nat" where
  "count_key a key = length (filter (\<lambda>(name, v). eq_ignore_ascii_case name key) (arg_raw a))"

definition to_hash_map :: "arguments \<Rightarrow> (bytes \<times> bytes) list" where
  "to_hash_map a =
     map (\<lambda>(k, v). (ak_value k, if hs_contains k (explicit_empty a) then [] else v)) (arg_inner a)"

definition into_raw_vec :: "arguments \<Rightarrow> (bytes \<times> bytes) list" where
  "into_raw_vec a =
     map (\<lambda>(name, v).
            if list_ex (\<lambda>k. eq_ignore_ascii_case (ak_value k) name) (explicit_empty a)
            then (name, []) else (name, v))
       (arg_raw a)"

subsection \<open>Normalized values\<close>

text \<open>
  The loop over the characters with its flags; \<open>changed\<close> only says whether the result has to be
  copied.
\<close>

definition value_space :: "bytes \<Rightarrow> bool" where
  "value_space ch \<longleftrightarrow> ch \<in> {'' '', [CHR 0x09], [CHR 0x0A], [CHR 0x0D]}"

definition value_control :: "bytes \<Rightarrow> bool" where
  "value_control ch \<longleftrightarrow> (case ch of [c] \<Rightarrow> byte c \<le> 31 \<or> byte c = 127 | _ \<Rightarrow> False)"

fun normalize_value_loop :: "bytes list \<Rightarrow> bytes list \<Rightarrow> bool \<Rightarrow> bool \<Rightarrow> bytes list \<times> bool \<times> bool" where
  "normalize_value_loop [] out pending_space changed = (out, pending_space, changed)"
| "normalize_value_loop (ch # chs) out pending_space changed =
     (if value_space ch then
        if out = [] then normalize_value_loop chs out pending_space True
        else normalize_value_loop chs out True (changed \<or> pending_space \<or> ch \<noteq> '' '')
      else if value_control ch then normalize_value_loop chs out pending_space True
      else normalize_value_loop chs ((if pending_space then out @ ['' ''] else out) @ [ch]) False changed)"

definition normalize_wikidot_html_attribute_value :: "bytes \<Rightarrow> bytes" where
  "normalize_wikidot_html_attribute_value v =
     (case normalize_value_loop (chars v) [] False False of
        (out, pending_space, changed) \<Rightarrow>
          if changed \<or> pending_space then concat out else v)"

definition normalize_wikidot_html_id_value :: "bool \<Rightarrow> bool \<Rightarrow> bytes \<Rightarrow> bytes" where
  "normalize_wikidot_html_id_value legacy isolate_user_ids v =
     (if \<not> (legacy \<and> isolate_user_ids) then normalize_wikidot_html_attribute_value v
      else normalize_wikidot_html_attribute_value (isolate_ids v))"

definition take_normalized_wikidot_class :: "arguments \<Rightarrow> bytes option \<times> arguments" where
  "take_normalized_wikidot_class a =
     (let k = \<lparr>ak_value = ''class'', ak_case_sensitive = True\<rparr>;
          empty = hs_contains k (explicit_empty a);
          (v, a') = arg_take k a
      in (map_option (\<lambda>v. if empty then [] else normalize_wikidot_html_attribute_value v) v, a'))"

subsection \<open>Attribute maps\<close>

text \<open>The settings these functions read.\<close>

record attr_settings =
  legacy_layout :: bool
  isolate_user_ids :: bool

definition empty_value_marker :: bytes where
  "empty_value_marker = ''data-ftml-empty-value''"

definition anchor_attribute_keys :: "bytes list" where
  "anchor_attribute_keys = [''class'', ''id'', ''role'', ''style'', ''target'', ''type'']"

fun join :: "bytes \<Rightarrow> bytes list \<Rightarrow> bytes" where
  "join sep [] = []"
| "join sep [x] = x"
| "join sep (x # y # xs) = x @ sep @ join sep (y # xs)"

fun split_char :: "char \<Rightarrow> bytes \<Rightarrow> bytes list" where
  "split_char d [] = [[]]"
| "split_char d (c # cs) =
     (if c = d then [] # split_char d cs
      else (case split_char d cs of [] \<Rightarrow> [[c]] | w # ws \<Rightarrow> (c # w) # ws))"

definition push_name :: "bytes \<Rightarrow> bytes list \<Rightarrow> bytes list" where
  "push_name name names = (if name \<in> set names then names else names @ [name])"

definition marker_names_step ::
  "arguments \<Rightarrow> attribute_map \<Rightarrow> bytes \<times> bytes \<Rightarrow> bytes list \<Rightarrow> bytes list" where
  "marker_names_step a m argument names =
     (let key = arg_key a (fst argument);
          explicit = hs_contains key (explicit_empty a);
          whitespace_only = hs_contains key (whitespace_empty a)
      in if \<not> explicit \<and> \<not> whitespace_only then names
         else case attr_inner m (fst argument) of
           Some stored_value \<Rightarrow> if stored_value = [] then push_name (fst argument) names else names
         | None \<Rightarrow> if explicit \<and> fst argument = ''id'' then push_name ''id'' names else names)"

definition insert_explicit_empty_marker ::
  "(bytes \<Rightarrow> bool) \<Rightarrow> arguments \<Rightarrow> attribute_map \<Rightarrow> attribute_map" where
  "insert_explicit_empty_marker word a m =
     (let names = fold (marker_names_step a m) (arg_raw a) [] in
      if names = [] then m
      else snd (attr_insert word empty_value_marker (join '' '' names) m))"

definition lowercased_data_attribute_key :: "bytes \<Rightarrow> bytes option" where
  "lowercased_data_attribute_key key =
     (if starts_with key ''data-'' then Some (to_ascii_lowercase key) else None)"

text \<open>The key an entry is inserted under; \<open>None\<close> when the entry is skipped.\<close>

definition entry_key :: "attr_settings \<Rightarrow> arguments \<Rightarrow> bytes \<Rightarrow> bytes option" where
  "entry_key settings a key =
     (if legacy_layout settings \<and> eq_ignore_ascii_case key ''hidden'' then None
      else if case_sensitive a \<and> list_ex is_upper key then
        (if legacy_layout settings then lowercased_data_attribute_key key else None)
      else Some key)"

definition entry_step ::
  "(bytes \<Rightarrow> bool) \<Rightarrow> attr_settings \<Rightarrow> arguments \<Rightarrow> (argument_key \<Rightarrow> bytes \<Rightarrow> bool) \<Rightarrow>
   argument_key \<times> bytes \<Rightarrow> attribute_map \<Rightarrow> attribute_map" where
  "entry_step word settings a include entry m =
     (let (key, v) = entry in
      if \<not> include key v then m
      else
        let legacy_id = (legacy_layout settings \<and> eq_ignore_ascii_case (ak_value key) ''id'');
            empty = (hs_contains key (explicit_empty a) \<or>
                     (hs_contains key (whitespace_empty a) \<and> \<not> legacy_id))
        in case entry_key settings a (ak_value key) of
             None \<Rightarrow> m
           | Some k \<Rightarrow>
               snd (attr_insert word k
                 (if empty then []
                  else if legacy_layout settings then
                    (if eq_ignore_ascii_case k ''id''
                     then normalize_wikidot_html_id_value (legacy_layout settings) (isolate_user_ids settings) v
                     else normalize_wikidot_html_attribute_value v)
                  else v) m))"

definition attribute_map_from_entries ::
  "(bytes \<Rightarrow> bool) \<Rightarrow> attr_settings \<Rightarrow> (argument_key \<Rightarrow> bytes \<Rightarrow> bool) \<Rightarrow> arguments \<Rightarrow> attribute_map" where
  "attribute_map_from_entries word settings include a =
     fold (entry_step word settings a include) (arg_inner a) attribute_map_new"

definition to_attribute_map :: "(bytes \<Rightarrow> bool) \<Rightarrow> attr_settings \<Rightarrow> arguments \<Rightarrow> attribute_map" where
  "to_attribute_map word settings a =
     insert_explicit_empty_marker word a
       (isolate_id (isolate_user_ids settings)
         (attribute_map_from_entries word settings (\<lambda>_ _. True) a))"

definition to_wikidot_iframe_attribute_map ::
  "(bytes \<Rightarrow> bool) \<Rightarrow> attr_settings \<Rightarrow> arguments \<Rightarrow> attribute_map" where
  "to_wikidot_iframe_attribute_map word settings a =
     (let m = attribute_map_from_entries word settings (\<lambda>_ _. True) a;
          m = (case (if legacy_layout settings then hm_get (arg_key a ''scrolling'') (arg_inner a) else None) of
                 Some v \<Rightarrow>
                   insert_wikidot_iframe_attribute ''scrolling'' (normalize_wikidot_html_attribute_value v) m
               | None \<Rightarrow> m)
      in isolate_id (isolate_user_ids settings) m)"

definition to_attribute_map_without_bare_where ::
  "(bytes \<Rightarrow> bool) \<Rightarrow> attr_settings \<Rightarrow> (bytes \<Rightarrow> bytes \<Rightarrow> bool) \<Rightarrow> arguments \<Rightarrow> attribute_map" where
  "to_attribute_map_without_bare_where word settings include a =
     insert_explicit_empty_marker word a
       (isolate_id (isolate_user_ids settings)
         (attribute_map_from_entries word settings
           (\<lambda>key v. \<not> hs_contains key (arg_bare a) \<and> include (ak_value key) v) a))"

subsection \<open>Anchors\<close>

definition anchor_verbatim_schemes :: "bytes list" where
  "anchor_verbatim_schemes =
     [''http://'', ''https://'', ''ftp://'', ''mailto:'', ''gopher://'', ''news://'', ''mms://'',
      ''git://'', ''sftp://'', ''ssh://'', ''svn://'', ''telnet://'', ''cvs://'']"

definition anchor_href_is_verbatim :: "bytes \<Rightarrow> bool" where
  "anchor_href_is_verbatim v \<longleftrightarrow>
     starts_with v ''#'' \<or> starts_with v ''/'' \<or> list_ex (starts_with v) anchor_verbatim_schemes"

definition nbsp :: bytes where
  "nbsp = [CHR 0xC2, CHR 0xA0]"

definition trim_nbsp :: "bytes \<Rightarrow> bytes" where
  "trim_nbsp v =
     concat (rev (dropWhile (\<lambda>c. c = nbsp) (rev (dropWhile (\<lambda>c. c = nbsp) (chars v)))))"

fun unsafe_href_loop :: "bytes list \<Rightarrow> bytes \<Rightarrow> bool \<Rightarrow> bool \<Rightarrow> bytes" where
  "unsafe_href_loop [] out separator separator_colon = out"
| "unsafe_href_loop (ch # chs) out separator separator_colon =
     (if ch = [CHR 0x5C] \<or> ch = nbsp then unsafe_href_loop chs out separator separator_colon
      else case ch of
        [c] \<Rightarrow>
          if is_alnum c then
            unsafe_href_loop chs
              ((if separator \<and> out \<noteq> [] then out @ [if separator_colon then CHR '':'' else CHR ''-''] else out)
                @ [to_lower c]) False False
          else unsafe_href_loop chs out True (separator_colon \<or> c = CHR '':'')
      | _ \<Rightarrow> unsafe_href_loop chs out True separator_colon)"

definition normalize_wikidot_unsafe_anchor_href :: "bytes \<Rightarrow> bytes" where
  "normalize_wikidot_unsafe_anchor_href v =
     (let v = normalize_wikidot_html_attribute_value v;
          v = (if starts_with v nbsp \<or> ends_with v nbsp then trim_nbsp v else v)
      in unsafe_href_loop (chars v) [] False False)"

definition replace_spaces :: "bytes \<Rightarrow> bytes" where
  "replace_spaces v = concat (map (\<lambda>c. if c = CHR '' '' then ''%20'' else [c]) v)"

text \<open>One turn of the loop over the raw arguments, with the names seen so far.\<close>

definition anchor_step ::
  "(bytes \<Rightarrow> bool) \<Rightarrow> attr_settings \<Rightarrow> arguments \<Rightarrow> bytes \<times> bytes \<Rightarrow>
   bytes list \<times> attribute_map \<Rightarrow> bytes list \<times> attribute_map" where
  "anchor_step word settings a argument acc =
     (let (seen, m) = acc; name = fst argument in
      if name \<in> set seen then (seen, m)
      else
        let seen = seen @ [name]; key = arg_key a name in
        case hm_get key (arg_inner a) of
          None \<Rightarrow> (seen, m)
        | Some v \<Rightarrow>
            let legacy_id = (legacy_layout settings \<and> eq_ignore_ascii_case name ''id'');
                empty = (hs_contains key (explicit_empty a) \<or>
                         (hs_contains key (whitespace_empty a) \<and> \<not> legacy_id))
            in if eq_ignore_ascii_case name ''href'' then (seen, m)
               else if legacy_layout settings \<and> eq_ignore_ascii_case name ''hidden'' then (seen, m)
               else if starts_with name ''data-'' then
                 (seen, insert_raw (to_ascii_lowercase name)
                          (if empty then [] else normalize_wikidot_html_attribute_value v) m)
               else if case_sensitive a \<and> list_ex is_upper name then (seen, m)
               else if name \<notin> set anchor_attribute_keys then (seen, m)
               else
                 let v' = (if empty then []
                           else if legacy_id
                           then normalize_wikidot_html_id_value (legacy_layout settings) (isolate_user_ids settings) v
                           else normalize_wikidot_html_attribute_value v)
                 in if v' = [] \<and> \<not> empty \<and> v = [] then (seen, m)
                    else (seen, snd (attr_insert word name v' m)))"

definition anchor_href :: "arguments \<Rightarrow> bytes \<Rightarrow> bytes" where
  "anchor_href a href =
     (if hs_contains (arg_key a ''href'') (explicit_empty a) \<and> anchor_href_is_verbatim href then []
      else if anchor_href_is_verbatim href then
        percent_encode_non_ascii (replace_spaces (normalize_wikidot_html_attribute_value href))
      else normalize_wikidot_unsafe_anchor_href href)"

definition to_wikidot_anchor_attribute_map ::
  "(bytes \<Rightarrow> bool) \<Rightarrow> attr_settings \<Rightarrow> arguments \<Rightarrow> attribute_map" where
  "to_wikidot_anchor_attribute_map word settings a =
     (let m = snd (fold (anchor_step word settings a) (arg_raw a) ([], attribute_map_new));
          m = (case hm_get (arg_key a ''href'') (arg_inner a) of
                 Some href \<Rightarrow> insert_wikidot_relative_href (anchor_href a href) m
               | None \<Rightarrow> m)
      in insert_explicit_empty_marker word a (isolate_id (isolate_user_ids settings) m))"

definition retained_key :: "bytes \<Rightarrow> bool" where
  "retained_key key \<longleftrightarrow>
     key \<in> {''class'', ''id'', ''style'', ''role'', ''type''} \<or> starts_with key ''data-''"

definition retain_wikidot_html_attributes :: "(bytes \<Rightarrow> bool) \<Rightarrow> attribute_map \<Rightarrow> attribute_map" where
  "retain_wikidot_html_attributes word m =
     (let m = m\<lparr>attr_inner := (\<lambda>key. if retained_key key then attr_inner m key else None)\<rparr> in
      case attr_inner m empty_value_marker of
        None \<Rightarrow> m
      | Some names \<Rightarrow>
          let kept = filter (\<lambda>name. name \<noteq> [] \<and> attr_inner m name \<noteq> None) (split_char (CHR '' '') names) in
          if kept = [] then snd (attr_remove empty_value_marker m)
          else snd (attr_insert word empty_value_marker (join '' '' kept) m))"

subsection \<open>Reading arguments\<close>

lemma arg_get_eq:
  "arg_get key a =
     (map_option (\<lambda>v. if is_explicit_empty a key then [] else v) (fst (hm.take (arg_key a key) (arg_inner a))),
      a\<lparr>arg_bare := snd (hs_remove (arg_key a key) (arg_bare a)),
        arg_inner := snd (hm.take (arg_key a key) (arg_inner a))\<rparr>)"
  by (simp add: arg_get_def arg_take_def is_explicit_empty_def Let_def hm.take_def)

lemma arg_key_same [simp]:
  "arg_key_eq (arg_key a j) (arg_key a k) \<longleftrightarrow>
   (if case_sensitive a then j = k else eq_ignore_ascii_case j k)"
  by (simp add: arg_key_eq_def arg_key_def)

lemma arg_key_get [simp]: "arg_key (snd (arg_get key a)) k = arg_key a k"
  by (simp add: arg_get_eq arg_key_def)

lemma arg_key_insert [simp]: "arg_key (arg_insert key v a) k = arg_key a k"
  by (simp add: arg_insert_def arg_key_def Let_def)

lemma arg_inner_insert [simp]: "arg_inner (arg_insert k v a) = hm_insert (arg_key a k) v (arg_inner a)"
  by (simp add: arg_insert_def Let_def)

lemma arg_key_update [simp]: "arg_key (a\<lparr>arg_bare := x, arg_inner := y\<rparr>) k = arg_key a k"
  by (simp add: arg_key_def)

lemma insert_all_inner:
  "hm_get (arg_key a key) (arg_inner (fold (\<lambda>(k, v). arg_insert k v) kvs a)) =
   (case find (\<lambda>(k, v). arg_key_eq (arg_key a key) (arg_key a k)) (rev kvs) of
      None \<Rightarrow> hm_get (arg_key a key) (arg_inner a) | Some (k, v) \<Rightarrow> Some v)"
proof (induction kvs rule: rev_induct)
  case (snoc kv kvs)
  have k: "arg_key (fold (\<lambda>(k, v). arg_insert k v) kvs a) j = arg_key a j" for j
    by (induction kvs rule: rev_induct) (auto simp: arg_key_insert split: prod.splits)
  obtain k' v' where kv: "kv = (k', v')" by (cases kv)
  show ?case
    using snoc unfolding kv by (simp add: hm_get_insert k del: arg_key_same)
qed simp

lemma insert_all_raw:
  "arg_raw (fold (\<lambda>(k, v). arg_insert k v) kvs a) = arg_raw a @ kvs \<and>
   explicit_empty (fold (\<lambda>(k, v). arg_insert k v) kvs a) = explicit_empty a \<and>
   case_sensitive (fold (\<lambda>(k, v). arg_insert k v) kvs a) = case_sensitive a"
  by (induction kvs rule: rev_induct) (auto simp: arg_insert_def Let_def)

subsection \<open>Normalized values are clean\<close>

fun clean_value :: "bytes list \<Rightarrow> bool" where
  "clean_value [] \<longleftrightarrow> True"
| "clean_value [c] \<longleftrightarrow> \<not> value_space c \<and> \<not> value_control c"
| "clean_value (c # d # cs) \<longleftrightarrow>
     \<not> value_space c \<and> \<not> value_control c \<and>
     (if value_space d then d = '' '' \<and> cs \<noteq> [] \<and> clean_value cs else clean_value (d # cs))"

lemma value_space_space [simp]: "value_space '' ''"
  by (simp add: value_space_def)

lemma clean_value_hd: "clean_value (c # cs) \<Longrightarrow> \<not> value_space c \<and> \<not> value_control c"
  by (cases cs) auto

lemma clean_value_snoc:
  "clean_value cs \<Longrightarrow> \<not> value_space c \<Longrightarrow> \<not> value_control c \<Longrightarrow> clean_value (cs @ [c])"
  by (induction cs rule: clean_value.induct) auto

lemma clean_value_snoc2:
  "clean_value cs \<Longrightarrow> cs \<noteq> [] \<Longrightarrow> \<not> value_space c \<Longrightarrow> \<not> value_control c \<Longrightarrow>
   clean_value (cs @ ['' '', c])"
  by (induction cs rule: clean_value.induct) auto

lemma normalize_loop_clean:
  "clean_value out \<Longrightarrow> (pending \<longrightarrow> out \<noteq> []) \<Longrightarrow>
   clean_value (fst (normalize_value_loop cs out pending changed))"
  by (induction cs out pending changed rule: normalize_value_loop.induct)
    (auto simp: clean_value_snoc clean_value_snoc2)

lemma normalize_loop_utf8:
  "list_all utf8_char cs \<Longrightarrow> list_all utf8_char out \<Longrightarrow>
   list_all utf8_char (fst (normalize_value_loop cs out pending changed))"
  by (induction cs out pending changed rule: normalize_value_loop.induct) auto

text \<open>Nothing changed means the output is the input.\<close>

lemma normalize_loop_unchanged:
  "normalize_value_loop cs out pending changed = (out', pending', False) \<Longrightarrow>
   \<not> changed \<and>
   concat out' @ (if pending' then '' '' else []) = concat out @ (if pending then '' '' else []) @ concat cs"
proof (induction cs arbitrary: out pending changed)
  case (Cons ch cs)
  consider "value_space ch" "out = []" | "value_space ch" "out \<noteq> []" | "\<not> value_space ch" "value_control ch"
    | "\<not> value_space ch" "\<not> value_control ch" by blast
  then show ?case
  proof cases
    case 1
    with Cons.prems Cons.IH [of "[]" pending True] show ?thesis by auto
  next
    case 2
    with Cons.prems Cons.IH [of out True "changed \<or> pending \<or> ch \<noteq> '' ''"] show ?thesis by auto
  next
    case 3
    with Cons.prems Cons.IH [of out pending True] show ?thesis by auto
  next
    case 4
    with Cons.prems Cons.IH [of "(if pending then out @ ['' ''] else out) @ [ch]" False changed]
    show ?thesis by auto
  qed
qed simp

lemma normalize_value_eq:
  "normalize_wikidot_html_attribute_value v = concat (fst (normalize_value_loop (chars v) [] False False))"
proof -
  obtain out pending changed where l: "normalize_value_loop (chars v) [] False False = (out, pending, changed)"
    by (cases "normalize_value_loop (chars v) [] False False")
  then show ?thesis
    using normalize_loop_unchanged [of "chars v" "[]" False False out pending]
    by (cases changed; cases pending) (auto simp: normalize_wikidot_html_attribute_value_def)
qed

lemma normalize_pending:
  "clean_value cs \<Longrightarrow> cs \<noteq> [] \<Longrightarrow>
   fst (normalize_value_loop cs out True changed) = fst (normalize_value_loop cs (out @ ['' '']) False changed)"
  by (cases cs) (auto dest: clean_value_hd)

lemma normalize_loop_id:
  "clean_value cs \<Longrightarrow> fst (normalize_value_loop cs out False changed) = out @ cs"
proof (induction cs arbitrary: out changed rule: clean_value.induct)
  case (3 c d cs)
  show ?case
  proof (cases "value_space d")
    case True
    with 3 have d: "d = '' ''" "cs \<noteq> []" "clean_value cs" "\<not> value_space c" "\<not> value_control c" by auto
    from d True "3.IH"(1) [OF True d(3), of "out @ [c, '' '']"]
    show ?thesis by (simp add: normalize_pending)
  next
    case False
    with 3 have d: "clean_value (d # cs)" "\<not> value_space c" "\<not> value_control c" by auto
    with "3.IH"(2) [OF False d(1), of "out @ [c]"] show ?thesis by simp
  qed
qed auto

lemma normalized_chars:
  assumes "valid_utf8 v"
  shows "clean_value (chars (normalize_wikidot_html_attribute_value v))"
    and "valid_utf8 (normalize_wikidot_html_attribute_value v)"
    and "normalize_wikidot_html_attribute_value (normalize_wikidot_html_attribute_value v) =
         normalize_wikidot_html_attribute_value v"
proof -
  let ?out = "fst (normalize_value_loop (chars v) [] False False)"
  have u8: "list_all utf8_char ?out"
    using assms by (intro normalize_loop_utf8) (simp_all add: valid_utf8_def)
  have cl: "clean_value ?out" by (rule normalize_loop_clean) auto
  from u8 have c: "chars (concat ?out) = ?out" by (rule chars_concat)
  show "clean_value (chars (normalize_wikidot_html_attribute_value v))"
    "valid_utf8 (normalize_wikidot_html_attribute_value v)"
    using c cl u8 by (simp_all add: normalize_value_eq valid_utf8_def)
  show "normalize_wikidot_html_attribute_value (normalize_wikidot_html_attribute_value v) =
      normalize_wikidot_html_attribute_value v"
    using normalize_loop_id [OF cl, of "[]" False] c by (simp add: normalize_value_eq)
qed

subsection \<open>The maps are safe\<close>

lemma fold_inv: "P s \<Longrightarrow> (\<And>x s. P s \<Longrightarrow> P (f x s)) \<Longrightarrow> P (fold f xs s)"
  by (induction xs arbitrary: s) auto

lemma entry_step_inv: "attr_inv m \<Longrightarrow> attr_inv (entry_step word settings a include entry m)"
  by (auto simp: entry_step_def Let_def attr_inv_insert split: prod.split option.split)

lemma marker_inv: "attr_inv m \<Longrightarrow> attr_inv (insert_explicit_empty_marker word a m)"
  by (simp add: insert_explicit_empty_marker_def Let_def attr_inv_insert)

lemma marker_inv_except:
  "attr_inv_except keys m \<Longrightarrow> attr_inv_except keys (insert_explicit_empty_marker word a m)"
  by (simp add: insert_explicit_empty_marker_def Let_def attr_inv_except_insert)

lemma entries_inv: "attr_inv (attribute_map_from_entries word settings include a)"
  unfolding attribute_map_from_entries_def
  by (rule fold_inv) (simp_all add: attr_inv_new entry_step_inv)

lemma retain_inv: "attr_inv m \<Longrightarrow> attr_inv (retain_wikidot_html_attributes word m)"
proof -
  assume "attr_inv m"
  then have "attr_inv (m\<lparr>attr_inner := (\<lambda>key. if retained_key key then attr_inner m key else None)\<rparr>)"
    by (auto simp: attr_inv_def split: if_splits)
  then show ?thesis
    by (simp add: retain_wikidot_html_attributes_def Let_def attr_inv_insert attr_inv_remove split: option.split)
qed

lemma safe_prefixed_tail: "safe_prefixed ps x \<Longrightarrow> safe_prefixed (p # ps) x"
  by (simp add: Let_def)

lemma marker_key:
  "is_safe_attribute empty_value_marker" "to_ascii_lowercase empty_value_marker = empty_value_marker"
  "retained_key empty_value_marker"
proof -
  show "to_ascii_lowercase empty_value_marker = empty_value_marker"
    by (simp add: empty_value_marker_def to_ascii_lowercase_def to_lower_def is_upper_def)
  show "retained_key empty_value_marker" by (simp add: retained_key_def empty_value_marker_def)
  have "safe_prefixed [''data-''] empty_value_marker"
    by (simp add: empty_value_marker_def boundary_def is_cont_def safe_suffix_def ascii_defs)
  then have "safe_prefixed [''aria-'', ''data-''] empty_value_marker" by (rule safe_prefixed_tail)
  then show "is_safe_attribute empty_value_marker" unfolding is_safe_attribute_def by blast
qed

lemma retain_keys:
  "attr_inner (retain_wikidot_html_attributes word m) key \<noteq> None \<Longrightarrow> retained_key key"
  using marker_key
  by (auto simp: retain_wikidot_html_attributes_def Let_def attr_insert_def attr_remove_def insert_key_def
           split: option.splits if_splits)

subsection \<open>The href of an anchor\<close>

definition href_byte :: "char \<Rightarrow> bool" where
  "href_byte c \<longleftrightarrow> is_lower c \<or> is_digit c \<or> c = CHR '':'' \<or> c = CHR ''-''"

lemma to_lower_href_byte: "is_alnum c \<Longrightarrow> href_byte (to_lower c)"
  by (auto simp: href_byte_def is_alnum_def is_alpha_def is_lower_def is_digit_def is_upper_def byte_to_lower)

lemma href_byte_colon: "href_byte (CHR '':'')" "href_byte (CHR ''-'')"
  by (simp_all add: href_byte_def)

lemma unsafe_href_bytes:
  "list_all href_byte out \<Longrightarrow> list_all href_byte (unsafe_href_loop cs out sep colon)"
proof (induction cs arbitrary: out sep colon)
  case (Cons ch cs)
  show ?case
  proof (cases "ch = [CHR 0x5C] \<or> ch = nbsp \<or> length ch \<noteq> 1")
    case True
    with Cons show ?thesis by (cases ch; cases "tl ch") auto
  next
    case False
    then obtain c where ch: "ch = [c]" by (cases ch) auto
    have "list_all href_byte ((if sep \<and> out \<noteq> [] then out @ [if colon then CHR '':'' else CHR ''-''] else out)
        @ [to_lower c])" if "is_alnum c"
      using Cons.prems that by (simp add: to_lower_href_byte href_byte_colon)
    with False Cons ch show ?thesis by simp
  qed
qed simp

subsection \<open>Properties\<close>

text \<open>
  \<open>get\<close> takes: it answers the value last inserted under the key, compared without case unless
  the arguments are case-sensitive; a second \<open>get\<close> of the key finds nothing; every other key still
  answers as before; and the raw list keeps every argument in the order written.
\<close>

theorem arguments_get_takes_last:
  "let a = fold (\<lambda>(k, v). arg_insert k v) kvs arguments_new in
     fst (arg_get key a) = map_option snd (find (\<lambda>(k, v). eq_ignore_ascii_case key k) (rev kvs)) \<and>
     fst (arg_get other (snd (arg_get key a))) =
       (if eq_ignore_ascii_case other key then None else fst (arg_get other a)) \<and>
     arg_raw a = kvs"
proof -
  define a where "a = fold (\<lambda>(k, v). arg_insert k v) kvs arguments_new"
  have a: "arg_raw a = kvs" "explicit_empty a = []" "\<not> case_sensitive a"
    using insert_all_raw [of kvs arguments_new] by (simp_all add: a_def arguments_new_def)
  have e: "\<not> is_explicit_empty a k" "\<not> is_explicit_empty (snd (arg_get key a)) k" for k
    using a(2) by (simp_all add: is_explicit_empty_def hs_contains_def arg_get_eq)
  have k: "arg_key arguments_new k = arg_key a k" for k
    using a(3) by (simp add: arg_key_def arguments_new_def)
  have last: "hm_get (arg_key a key) (arg_inner a) =
      map_option snd (find (\<lambda>(k, v). eq_ignore_ascii_case key k) (rev kvs))"
    using insert_all_inner [of arguments_new key kvs] a(3)
    by (simp add: k flip: a_def) (simp add: arguments_new_def split: option.split)
  show ?thesis
    unfolding Let_def a_def [symmetric]
    using last a e by (simp add: arg_get_eq hm.take_def hm_get_remove option.map_ident)
qed

text \<open>
  Normalizing an attribute value trims it, collapses runs of blanks and line breaks to single
  spaces and drops control characters; it is idempotent, keeps text valid, and returning the input
  uncopied when nothing changed is unobservable.
\<close>

theorem normalized_value_clean:
  assumes "valid_utf8 v"
  shows "clean_value (chars (normalize_wikidot_html_attribute_value v)) \<and>
         valid_utf8 (normalize_wikidot_html_attribute_value v) \<and>
         normalize_wikidot_html_attribute_value (normalize_wikidot_html_attribute_value v) =
           normalize_wikidot_html_attribute_value v \<and>
         normalize_wikidot_html_attribute_value v =
           concat (fst (normalize_value_loop (chars v) [] False False))"
  using normalized_chars [OF assms] normalize_value_eq by blast

lemma normalized_value_clean_witness:
  "clean_value (chars (normalize_wikidot_html_attribute_value '' a  b '')) \<and>
   normalize_wikidot_html_attribute_value '' a  b '' = ''a b''"
proof -
  have v: "valid_utf8 '' a  b ''" by (simp add: valid_ascii is_ascii_def)
  have "normalize_wikidot_html_attribute_value '' a  b '' = ''a b''" by code_simp
  with normalized_value_clean [OF v, THEN conjunct1] show ?thesis by blast
qed

definition anchor_unchecked :: "bytes set" where
  "anchor_unchecked = insert ''href'' {key. starts_with key ''data-''}"

lemma lower_data_prefix: "starts_with name ''data-'' \<Longrightarrow> starts_with (to_ascii_lowercase name) ''data-''"
proof -
  assume "starts_with name ''data-''"
  then have "to_ascii_lowercase (take (length ''data-'') name) = to_ascii_lowercase ''data-''"
    unfolding starts_with_def by (rule arg_cong)
  moreover have "to_ascii_lowercase ''data-'' = ''data-''" by code_simp
  ultimately show ?thesis by (simp add: starts_with_def take_lower)
qed

lemma anchor_step_inv:
  assumes "attr_inv_except anchor_unchecked (snd acc)"
  shows "attr_inv_except anchor_unchecked (snd (anchor_step word settings a argument acc))"
proof -
  have raw: "attr_inv_except anchor_unchecked (insert_raw (to_ascii_lowercase name) v (snd acc))"
    if "starts_with name ''data-''" for name v
    using lower_data_prefix [OF that]
    unfolding insert_raw_def by (intro attr_inv_except_insert_key [OF assms]) (simp add: anchor_unchecked_def)
  show ?thesis
  proof (cases acc)
    case (Pair seen m)
    then have m: "attr_inv_except anchor_unchecked m"
      "\<And>name v. starts_with name ''data-'' \<Longrightarrow> attr_inv_except anchor_unchecked (insert_raw (to_ascii_lowercase name) v m)"
      using assms raw by simp_all
    show ?thesis
      unfolding anchor_step_def Pair Let_def prod.case
      by (cases "hm_get (arg_key a (fst argument)) (arg_inner a)") (auto simp: m attr_inv_except_insert)
  qed
qed

lemma anchor_map_inv: "attr_inv_except anchor_unchecked (to_wikidot_anchor_attribute_map word settings a)"
proof -
  let ?m = "snd (fold (anchor_step word settings a) (arg_raw a) ([], attribute_map_new))"
  have "attr_inv_except anchor_unchecked (snd (fold (anchor_step word settings a) args acc))"
    if "attr_inv_except anchor_unchecked (snd acc)" for args acc
    using that by (induction args arbitrary: acc) (simp_all add: anchor_step_inv)
  then have "attr_inv_except anchor_unchecked ?m" by (simp add: attr_inv_except_of attr_inv_new)
  moreover have "attr_inv_except anchor_unchecked (insert_wikidot_relative_href v ?m)" for v
    unfolding insert_wikidot_relative_href_def
    by (rule attr_inv_except_insert_key [OF calculation]) (simp add: anchor_unchecked_def)
  ultimately show ?thesis
    by (simp add: to_wikidot_anchor_attribute_map_def Let_def marker_inv_except attr_inv_except_isolate split: option.split)
qed

lemma iframe_map_inv: "attr_inv_except {''scrolling''} (to_wikidot_iframe_attribute_map word settings a)"
proof -
  let ?m = "attribute_map_from_entries word settings (\<lambda>_ _. True) a"
  have "attr_inv_except {''scrolling''} ?m" by (rule attr_inv_except_of [OF entries_inv])
  moreover have "attr_inv_except {''scrolling''} (insert_wikidot_iframe_attribute ''scrolling'' v ?m)" for v
    unfolding insert_wikidot_iframe_attribute_def by (rule attr_inv_except_write [OF calculation]) simp
  ultimately show ?thesis
    by (simp add: to_wikidot_iframe_attribute_map_def Let_def attr_inv_except_isolate split: option.split)
qed

text \<open>
  C17: The attribute maps made of block arguments, filtered by bare arguments or not, and with the
  legacy filter applied or not, only hold safe attributes with safe values.  The map of an iframe has
  besides at most \<open>scrolling\<close>, and that of an anchor its \<open>href\<close> and data attributes, which are written
  without the check.  The legacy filter leaves nothing but \<open>class\<close>, \<open>id\<close>, \<open>style\<close>, \<open>role\<close>, \<open>type\<close> and
  data attributes.
\<close>

theorem argument_maps_safe:
  "attr_inv (to_attribute_map word settings a) \<and>
   attr_inv (to_attribute_map_without_bare_where word settings include a) \<and>
   attr_inv (retain_wikidot_html_attributes word (to_attribute_map word settings a)) \<and>
   attr_inv_except {''scrolling''} (to_wikidot_iframe_attribute_map word settings a) \<and>
   attr_inv_except (insert ''href'' {key. starts_with key ''data-''}) (to_wikidot_anchor_attribute_map word settings a) \<and>
   {key. attr_inner (retain_wikidot_html_attributes word m) key \<noteq> None} \<subseteq> Collect retained_key"
  using retain_keys anchor_map_inv [unfolded anchor_unchecked_def] iframe_map_inv
  by (auto simp: to_attribute_map_def to_attribute_map_without_bare_where_def
           intro!: marker_inv attr_inv_isolate entries_inv retain_inv)

text \<open>
  An anchor whose \<open>href\<close> is not of a known scheme gets one of lowercase letters, digits,
  colons and hyphens only, so it can hold no call, space, quote or markup.
\<close>

theorem unsafe_anchor_href_bytes:
  "list_all href_byte (normalize_wikidot_unsafe_anchor_href v)"
  by (simp add: normalize_wikidot_unsafe_anchor_href_def Let_def unsafe_href_bytes)

lemma href_steps:
  "is_lower c \<Longrightarrow> unsafe_href_loop ([c] # chs) out False col = unsafe_href_loop chs (out @ [c]) False False"
  "is_digit c \<Longrightarrow> unsafe_href_loop ([c] # chs) out False col = unsafe_href_loop chs (out @ [c]) False False"
  "is_lower c \<Longrightarrow> out \<noteq> [] \<Longrightarrow> unsafe_href_loop ([c] # chs) out True True =
     unsafe_href_loop chs (out @ [CHR '':'', c]) False False"
  "is_digit c \<Longrightarrow> out \<noteq> [] \<Longrightarrow> unsafe_href_loop ([c] # chs) out True False =
     unsafe_href_loop chs (out @ [CHR ''-'', c]) False False"
  "unsafe_href_loop ('':'' # chs) out False False = unsafe_href_loop chs out True True"
  "unsafe_href_loop (''('' # chs) out False False = unsafe_href_loop chs out True False"
  "unsafe_href_loop ('')'' # chs) out False False = unsafe_href_loop chs out True False"
  by (auto simp: ascii_defs nbsp_def to_lower_def)

lemma href_example_value: "normalize_wikidot_html_attribute_value ''javascript:alert(1)'' = ''javascript:alert(1)''"
  by (simp add: normalize_wikidot_html_attribute_value_def chars_ascii is_ascii_def value_space_def
      value_control_def del: chars.simps)

lemma href_example_loop:
  "unsafe_href_loop (map (\<lambda>c. [c]) ''javascript:alert(1)'') [] False False = ''javascript:alert-1''"
  by (simp add: href_steps is_lower_def is_digit_def del: unsafe_href_loop.simps(2))

lemma href_example:
  "normalize_wikidot_unsafe_anchor_href ''javascript:alert(1)'' = ''javascript:alert-1''"
proof -
  have "chars ''javascript:alert(1)'' = map (\<lambda>c. [c]) ''javascript:alert(1)''"
    by (rule chars_ascii) (simp add: is_ascii_def)
  with href_example_value href_example_loop show ?thesis
    by (simp add: normalize_wikidot_unsafe_anchor_href_def Let_def nbsp_def ends_with_def
        del: chars.simps list.map)
qed

text \<open>
  C18: The scheme of such an \<open>href\<close> survives: an anchor of \<open>href="javascript:alert(1)"\<close> carries
  \<open>javascript:alert-1\<close>, a URL a browser runs, whatever else its arguments are.
\<close>

theorem anchor_href_keeps_script_scheme:
  assumes "hm_get (arg_key a ''href'') (arg_inner a) = Some ''javascript:alert(1)''"
  shows "attr_inner (to_wikidot_anchor_attribute_map word settings a) ''href'' = Some ''javascript:alert-1'' \<and>
         script_url ''javascript:alert-1''"
proof -
  have verbatim: "\<not> anchor_href_is_verbatim ''javascript:alert(1)''"
    by (simp add: anchor_href_is_verbatim_def anchor_verbatim_schemes_def)
  have isolate: "attr_inner (isolate_id b m) ''href'' = attr_inner m ''href''" for b m
    by (simp add: isolate_id_def Let_def split: option.split)
  have "to_ascii_lowercase empty_value_marker \<noteq> ''href''"
    unfolding marker_key by (simp add: empty_value_marker_def)
  then have marker: "attr_inner (insert_explicit_empty_marker word a m) ''href'' = attr_inner m ''href''" for m
    by (auto simp: insert_explicit_empty_marker_def attr_insert_def insert_key_def Let_def split: option.split)
  have "script_url ''javascript:alert-1''" by code_simp
  with assms verbatim show ?thesis
    by (simp add: to_wikidot_anchor_attribute_map_def Let_def isolate marker insert_wikidot_relative_href_def
        insert_key_def anchor_href_def href_example)
qed

lemma anchor_href_keeps_script_scheme_witness:
  "attr_inner (to_wikidot_anchor_attribute_map (\<lambda>_. False) \<lparr>legacy_layout = True, isolate_user_ids = True\<rparr>
     (arg_insert ''href'' ''javascript:alert(1)'' arguments_new)) ''href'' = Some ''javascript:alert-1''"
  using anchor_href_keeps_script_scheme
    [of "arg_insert ''href'' ''javascript:alert(1)'' arguments_new" "\<lambda>_. False"
        "\<lparr>legacy_layout = True, isolate_user_ids = True\<rparr>"]
  by (simp add: hm_get_insert)

end
