(* ===== verification/Expression.thy ===== *)
theory Expression
  imports Prelude
begin

text \<open>
  \<open>src/src/preproc/parser_functions/expression.rs\<close>: the expressions of \<open>[[#expr]]\<close> and
  \<open>[[#ifexpr]]\<close>.  The operations of \<open>f64\<close> and its conversions from and to text are a record of
  operations, since HOL has no IEEE doubles: nothing below depends on what they compute.  Each
  method of the recursive-descent parser is a definition over the recursive call \<open>rec\<close> it is given;
  \<open>run\<close> ties the knot with fuel, and \<open>run_total\<close> shows that fuel \<open>10 * (length + 1)\<close> is enough.
\<close>

subsection \<open>Values and errors\<close>

record 'f float_ops =
  f_zero :: 'f
  f_one :: 'f
  f_tiny :: 'f
  f_add :: "'f \<Rightarrow> 'f \<Rightarrow> 'f"
  f_sub :: "'f \<Rightarrow> 'f \<Rightarrow> 'f"
  f_mul :: "'f \<Rightarrow> 'f \<Rightarrow> 'f"
  f_div :: "'f \<Rightarrow> 'f \<Rightarrow> 'f"
  f_rem :: "'f \<Rightarrow> 'f \<Rightarrow> 'f"
  f_pow :: "'f \<Rightarrow> 'f \<Rightarrow> 'f"
  f_min :: "'f \<Rightarrow> 'f \<Rightarrow> 'f"
  f_max :: "'f \<Rightarrow> 'f \<Rightarrow> 'f"
  f_neg :: "'f \<Rightarrow> 'f"
  f_abs :: "'f \<Rightarrow> 'f"
  f_trunc :: "'f \<Rightarrow> 'f"
  f_eq :: "'f \<Rightarrow> 'f \<Rightarrow> bool"
  f_lt :: "'f \<Rightarrow> 'f \<Rightarrow> bool"
  f_le :: "'f \<Rightarrow> 'f \<Rightarrow> bool"
  f_is_finite :: "'f \<Rightarrow> bool"
  f_parse :: "bytes \<Rightarrow> 'f option"
  f_scientific :: "'f \<Rightarrow> bytes"
  f_fixed :: "'f \<Rightarrow> bytes"

datatype expression_error =
  ExprInvalid
| UndefinedConstant bytes
| UndefinedFunction bytes
| TooFewParameters bytes
| TooFewArguments bytes nat nat
| TooManyArguments bytes nat nat
| MisplacedComma
| TooManyValues
| SyntaxNear bytes
| DivisionByZero
| RemainderByZero

datatype 'f expr_value = NumberV 'f | BooleanV bool | NullV

definition float_of_bool :: "'f float_ops \<Rightarrow> bool \<Rightarrow> 'f" where
  "float_of_bool F b = (if b then f_one F else f_zero F)"

fun number :: "'f float_ops \<Rightarrow> 'f expr_value \<Rightarrow> 'f" where
  "number F (NumberV x) = x"
| "number F (BooleanV b) = float_of_bool F b"
| "number F NullV = f_zero F"

fun truthy :: "'f float_ops \<Rightarrow> 'f expr_value \<Rightarrow> bool" where
  "truthy F (NumberV x) = (\<not> f_eq F x (f_zero F))"
| "truthy F (BooleanV b) = b"
| "truthy F NullV = False"

definition max_expression_bytes :: nat where
  "max_expression_bytes = 16 * 1024"

definition max_operations :: nat where
  "max_operations = 512"

definition max_parentheses :: nat where
  "max_parentheses = 128"

datatype zero_operator_policy = RuntimeError | ReplaceOperationWithZero

subsection \<open>The parser's state\<close>

record parser_state =
  ps_offset :: nat
  ps_operations :: nat
  ps_parentheses :: nat

type_synonym 'a outcome = "((expression_error + 'a) \<times> parser_state) option"

definition succeed :: "'a \<Rightarrow> parser_state \<Rightarrow> 'a outcome" where
  "succeed x st = Some (Inr x, st)"

definition fail_with :: "expression_error \<Rightarrow> parser_state \<Rightarrow> 'a outcome" where
  "fail_with e st = Some (Inl e, st)"

definition andthen :: "'a outcome \<Rightarrow> ('a \<Rightarrow> parser_state \<Rightarrow> 'b outcome) \<Rightarrow> 'b outcome" where
  "andthen m k =
     (case m of
        None \<Rightarrow> None
      | Some (Inl e, st) \<Rightarrow> Some (Inl e, st)
      | Some (Inr x, st) \<Rightarrow> k x st)"

definition ascii_space :: "char \<Rightarrow> bool" where
  "ascii_space c \<longleftrightarrow> c \<in> {CHR '' '', CHR 0x09, CHR 0x0A, CHR 0x0C, CHR 0x0D}"

definition skip_space :: "bytes \<Rightarrow> parser_state \<Rightarrow> parser_state" where
  "skip_space input st = st\<lparr>ps_offset := scan_while ascii_space input (ps_offset st)\<rparr>"

definition consume :: "bytes \<Rightarrow> bytes \<Rightarrow> parser_state \<Rightarrow> bool \<times> parser_state" where
  "consume input expected st =
     (let st = skip_space input st in
      if starts_with (drop (ps_offset st) input) expected
      then (True, st\<lparr>ps_offset := ps_offset st + length expected\<rparr>)
      else (False, st))"

definition operation :: "parser_state \<Rightarrow> unit outcome" where
  "operation st =
     (let st = st\<lparr>ps_operations := ps_operations st + 1\<rparr> in
      if ps_operations st > max_operations then fail_with ExprInvalid st else succeed () st)"

definition enter_parentheses :: "parser_state \<Rightarrow> unit outcome" where
  "enter_parentheses st =
     (let st = st\<lparr>ps_parentheses := ps_parentheses st + 1\<rparr> in
      if ps_parentheses st > max_parentheses then fail_with ExprInvalid st else succeed () st)"

definition leave_parentheses :: "parser_state \<Rightarrow> parser_state" where
  "leave_parentheses st = st\<lparr>ps_parentheses := ps_parentheses st - 1\<rparr>"

definition remaining :: "bytes \<Rightarrow> parser_state \<Rightarrow> bytes" where
  "remaining input st = drop (ps_offset st) input"

text \<open>
  The methods, and the heads of their loops with what a loop has accumulated.
\<close>

datatype 'f level =
  ParseOr | OrLoop "'f expr_value"
| ParseAnd | AndLoop "'f expr_value"
| ParseComparison
| ParseAdditive | AdditiveLoop "'f expr_value"
| ParseMultiplicative | MultiplicativeLoop "'f expr_value"
| ParsePower
| ParseUnary
| ParsePrimary
| ParseFunction | ArgumentLoop bytes "'f expr_value list"

type_synonym 'f recursor = "'f level \<Rightarrow> parser_state \<Rightarrow> 'f expr_value outcome"

definition operator_rhs :: "'f recursor \<Rightarrow> bytes \<Rightarrow> 'f level \<Rightarrow> parser_state \<Rightarrow> 'f expr_value outcome" where
  "operator_rhs rec operator level st =
     (case rec level st of
        Some (Inl ExprInvalid, st) \<Rightarrow> fail_with (TooFewParameters operator) st
      | r \<Rightarrow> r)"

subsection \<open>The methods\<close>

definition parse_or :: "'f recursor \<Rightarrow> parser_state \<Rightarrow> 'f expr_value outcome" where
  "parse_or rec st = andthen (rec ParseAnd st) (\<lambda>v. rec (OrLoop v))"

definition or_loop :: "'f float_ops \<Rightarrow> bytes \<Rightarrow> 'f recursor \<Rightarrow> 'f expr_value \<Rightarrow> parser_state \<Rightarrow> 'f expr_value outcome" where
  "or_loop F input rec v st =
     (case consume input ''||'' st of
        (True, st) \<Rightarrow>
          andthen (operation st) (\<lambda>_ st.
          andthen (rec ParseAnd st) (\<lambda>right.
            rec (OrLoop (BooleanV (truthy F v \<or> truthy F right)))))
      | (False, st) \<Rightarrow> succeed v st)"

definition parse_and :: "'f recursor \<Rightarrow> parser_state \<Rightarrow> 'f expr_value outcome" where
  "parse_and rec st = andthen (rec ParseComparison st) (\<lambda>v. rec (AndLoop v))"

definition and_loop :: "'f float_ops \<Rightarrow> bytes \<Rightarrow> 'f recursor \<Rightarrow> 'f expr_value \<Rightarrow> parser_state \<Rightarrow> 'f expr_value outcome" where
  "and_loop F input rec v st =
     (case consume input ''&&'' st of
        (True, st) \<Rightarrow>
          andthen (operation st) (\<lambda>_ st.
          andthen (rec ParseComparison st) (\<lambda>right.
            rec (AndLoop (BooleanV (truthy F v \<and> truthy F right)))))
      | (False, st) \<Rightarrow> succeed v st)"

fun find_operator :: "bytes \<Rightarrow> bytes list \<Rightarrow> parser_state \<Rightarrow> bytes option \<times> parser_state" where
  "find_operator input [] st = (None, st)"
| "find_operator input (operator # operators) st =
     (case consume input operator st of
        (True, st) \<Rightarrow> (Some operator, st)
      | (False, st) \<Rightarrow> find_operator input operators st)"

definition comparison_operators :: "bytes list" where
  "comparison_operators = [''>='', ''<='', ''=='', ''!='', ''>'', ''<'']"

definition compare_values :: "'f float_ops \<Rightarrow> bytes \<Rightarrow> 'f \<Rightarrow> 'f \<Rightarrow> bool" where
  "compare_values F operator left right =
     (if operator = ''>='' then f_le F right left
      else if operator = ''<='' then f_le F left right
      else if operator = ''=='' then f_eq F left right
      else if operator = ''!='' then \<not> f_eq F left right
      else if operator = ''>'' then f_lt F right left
      else f_lt F left right)"

definition parse_comparison :: "'f float_ops \<Rightarrow> bytes \<Rightarrow> 'f recursor \<Rightarrow> parser_state \<Rightarrow> 'f expr_value outcome" where
  "parse_comparison F input rec st =
     andthen (rec ParseAdditive st) (\<lambda>left st.
       case find_operator input comparison_operators st of
         (None, st) \<Rightarrow> succeed left st
       | (Some operator, st) \<Rightarrow>
           andthen (operation st) (\<lambda>_ st.
             case rec ParseComparison st of
               Some (Inl ExprInvalid, st) \<Rightarrow>
                 if operator = ''=='' \<and> starts_with (remaining input st) ''=''
                 then fail_with (SyntaxNear (remaining input st)) st
                 else fail_with (TooFewParameters operator) st
             | Some (Inl e, st) \<Rightarrow> fail_with e st
             | Some (Inr right, st) \<Rightarrow>
                 succeed (BooleanV (compare_values F operator (number F left) (number F right))) st
             | None \<Rightarrow> None))"

definition parse_additive :: "'f recursor \<Rightarrow> parser_state \<Rightarrow> 'f expr_value outcome" where
  "parse_additive rec st = andthen (rec ParseMultiplicative st) (\<lambda>v. rec (AdditiveLoop v))"

definition additive_loop :: "'f float_ops \<Rightarrow> bytes \<Rightarrow> 'f recursor \<Rightarrow> 'f expr_value \<Rightarrow> parser_state \<Rightarrow> 'f expr_value outcome" where
  "additive_loop F input rec v st =
     (case find_operator input [''+'', ''-''] st of
        (None, st) \<Rightarrow> succeed v st
      | (Some operator, st) \<Rightarrow>
          andthen (operation st) (\<lambda>_ st.
          andthen (operator_rhs rec operator ParseMultiplicative st) (\<lambda>right.
            rec (AdditiveLoop (NumberV
              ((if operator = ''+'' then f_add F else f_sub F) (number F v) (number F right)))))))"

definition divide :: "'f float_ops \<Rightarrow> zero_operator_policy \<Rightarrow> bytes \<Rightarrow> 'f \<Rightarrow> 'f \<Rightarrow> expression_error + 'f" where
  "divide F policy operator left right =
     (if operator = ''*'' then Inr (f_mul F left right)
      else
        let divisor = (if operator = ''%'' then f_trunc F right else right) in
        if f_eq F divisor (f_zero F) then
          (case policy of
             RuntimeError \<Rightarrow> Inl (if operator = ''%'' then RemainderByZero else DivisionByZero)
           | ReplaceOperationWithZero \<Rightarrow> Inr (f_zero F))
        else Inr (if operator = ''%'' then f_rem F (f_trunc F left) divisor else f_div F left divisor))"

definition parse_multiplicative :: "'f recursor \<Rightarrow> parser_state \<Rightarrow> 'f expr_value outcome" where
  "parse_multiplicative rec st = andthen (rec ParsePower st) (\<lambda>v. rec (MultiplicativeLoop v))"

definition multiplicative_loop ::
  "'f float_ops \<Rightarrow> zero_operator_policy \<Rightarrow> bytes \<Rightarrow> 'f recursor \<Rightarrow> 'f expr_value \<Rightarrow> parser_state \<Rightarrow> 'f expr_value outcome" where
  "multiplicative_loop F policy input rec v st =
     (case find_operator input [''*'', ''/'', ''%''] st of
        (None, st) \<Rightarrow> succeed v st
      | (Some operator, st) \<Rightarrow>
          andthen (operation st) (\<lambda>_ st.
          andthen (operator_rhs rec operator ParsePower st) (\<lambda>right st.
            case divide F policy operator (number F v) (number F right) of
              Inl e \<Rightarrow> fail_with e st
            | Inr x \<Rightarrow> rec (MultiplicativeLoop (NumberV x)) st)))"

definition parse_power :: "'f float_ops \<Rightarrow> bytes \<Rightarrow> 'f recursor \<Rightarrow> parser_state \<Rightarrow> 'f expr_value outcome" where
  "parse_power F input rec st =
     andthen (rec ParseUnary st) (\<lambda>left st.
       case consume input ''^'' st of
         (False, st) \<Rightarrow> succeed left st
       | (True, st) \<Rightarrow>
           andthen (operation st) (\<lambda>_ st.
           andthen (operator_rhs rec ''^'' ParsePower st) (\<lambda>right.
             succeed (NumberV (f_pow F (number F left) (number F right))))))"

definition unary_value :: "'f float_ops \<Rightarrow> bytes \<Rightarrow> 'f expr_value \<Rightarrow> 'f" where
  "unary_value F operator v =
     (if operator = ''+'' then number F v
      else if operator = ''-'' then f_neg F (number F v)
      else float_of_bool F (\<not> truthy F v))"

definition parse_unary :: "'f float_ops \<Rightarrow> bytes \<Rightarrow> 'f recursor \<Rightarrow> parser_state \<Rightarrow> 'f expr_value outcome" where
  "parse_unary F input rec st =
     (case find_operator input [''+'', ''-'', ''!''] st of
        (None, st) \<Rightarrow> rec ParsePrimary st
      | (Some operator, st) \<Rightarrow>
          andthen (operation st) (\<lambda>_ st.
          andthen (rec ParseUnary st) (\<lambda>v. succeed (NumberV (unary_value F operator v)))))"

text \<open>The end of \<open>parse_number\<close>: digits with at most one point.\<close>

function number_end :: "bytes \<Rightarrow> nat \<Rightarrow> bool \<Rightarrow> nat" where
  "number_end input i dot =
     (if i < length input then
        if is_digit (input ! i) then number_end input (i + 1) dot
        else if input ! i = CHR ''.'' \<and> \<not> dot then number_end input (i + 1) True
        else i
      else i)"
  by pat_completeness auto
termination by (relation "measure (\<lambda>(input, i, d). length input - i)") auto

declare number_end.simps [simp del]

definition parse_number :: "'f float_ops \<Rightarrow> bytes \<Rightarrow> parser_state \<Rightarrow> 'f expr_value outcome" where
  "parse_number F input st =
     (let st = skip_space input st; start = ps_offset st;
          st = st\<lparr>ps_offset := number_end input start False\<rparr>;
          digits = slice input start (ps_offset st)
      in if start = ps_offset st \<or> digits = ''.'' then fail_with ExprInvalid st
         else case f_parse F digits of
           None \<Rightarrow> fail_with ExprInvalid st
         | Some x \<Rightarrow> if f_is_finite F x then succeed (NumberV x) st else fail_with ExprInvalid st)"

definition name_start :: "char \<Rightarrow> bool" where
  "name_start c \<longleftrightarrow> is_alpha c \<or> c = CHR ''_''"

definition name_byte :: "char \<Rightarrow> bool" where
  "name_byte c \<longleftrightarrow> is_alnum c \<or> c = CHR ''_''"

definition parse_primary :: "'f float_ops \<Rightarrow> bytes \<Rightarrow> 'f recursor \<Rightarrow> parser_state \<Rightarrow> 'f expr_value outcome" where
  "parse_primary F input rec st =
     (case consume input ''('' st of
        (True, st) \<Rightarrow>
          andthen (enter_parentheses st) (\<lambda>_ st.
          andthen (rec ParseOr st) (\<lambda>v st.
            case consume input '')'' st of
              (False, st) \<Rightarrow> fail_with ExprInvalid st
            | (True, st) \<Rightarrow> succeed v (leave_parentheses st)))
      | (False, st) \<Rightarrow>
          let st = skip_space input st in
          (case get input (ps_offset st) of
             Some c \<Rightarrow> if name_start c then rec ParseFunction st else parse_number F input st
           | None \<Rightarrow> parse_number F input st))"

definition parse_function :: "bytes \<Rightarrow> 'f recursor \<Rightarrow> parser_state \<Rightarrow> 'f expr_value outcome" where
  "parse_function input rec st =
     (let st = skip_space input st; start = ps_offset st;
          st = st\<lparr>ps_offset := scan_while name_byte input start\<rparr>;
          name = slice input start (ps_offset st)
      in if name = ''true'' then succeed (BooleanV True) st
         else if name = ''false'' then succeed (BooleanV False) st
         else if eq_ignore_ascii_case name ''null'' then succeed NullV st
         else case consume input ''('' st of
           (False, st) \<Rightarrow> fail_with (UndefinedConstant name) st
         | (True, st) \<Rightarrow>
             andthen (enter_parentheses st) (\<lambda>_ st.
             andthen (rec ParseOr st) (\<lambda>v. rec (ArgumentLoop name [v]))))"

fun reduce :: "('f \<Rightarrow> 'f \<Rightarrow> 'f) \<Rightarrow> 'f list \<Rightarrow> 'f option" where
  "reduce f [] = None"
| "reduce f (x # xs) = Some (foldl f x xs)"

text \<open>The \<open>match name\<close>; the \<open>expect\<close> of the reductions, a panic, is \<open>None\<close>.\<close>

definition apply_function ::
  "'f float_ops \<Rightarrow> bytes \<Rightarrow> 'f expr_value list \<Rightarrow> (expression_error + 'f expr_value) option" where
  "apply_function F name arguments =
     (let n = length arguments in
      if name = ''abs'' \<and> n = 1 then Some (Inr (NumberV (f_abs F (number F (hd arguments)))))
      else if name = ''abs'' \<and> n = 0 then Some (Inl (TooFewArguments name 1 n))
      else if name = ''abs'' then Some (Inl (TooManyArguments name 1 n))
      else if (name = ''min'' \<or> name = ''max'') \<and> n < 2 then Some (Inl (TooFewArguments name 2 n))
      else if name = ''min'' then map_option (Inr \<circ> NumberV) (reduce (f_min F) (map (number F) arguments))
      else if name = ''max'' then map_option (Inr \<circ> NumberV) (reduce (f_max F) (map (number F) arguments))
      else Some (Inl (UndefinedFunction name)))"

definition argument_loop ::
  "'f float_ops \<Rightarrow> bytes \<Rightarrow> 'f recursor \<Rightarrow> bytes \<Rightarrow> 'f expr_value list \<Rightarrow> parser_state \<Rightarrow> 'f expr_value outcome" where
  "argument_loop F input rec name arguments st =
     (case consume input '','' st of
        (True, st) \<Rightarrow> andthen (rec ParseOr st) (\<lambda>v. rec (ArgumentLoop name (arguments @ [v])))
      | (False, st) \<Rightarrow>
          (case consume input '')'' st of
             (False, st) \<Rightarrow> fail_with ExprInvalid st
           | (True, st) \<Rightarrow>
               andthen (operation (leave_parentheses st)) (\<lambda>_ st.
                 map_option (\<lambda>r. (r, st)) (apply_function F name arguments))))"

subsection \<open>Tying the knot\<close>

fun step :: "'f float_ops \<Rightarrow> zero_operator_policy \<Rightarrow> bytes \<Rightarrow> 'f recursor \<Rightarrow> 'f recursor" where
  "step F policy input rec ParseOr = parse_or rec"
| "step F policy input rec (OrLoop v) = or_loop F input rec v"
| "step F policy input rec ParseAnd = parse_and rec"
| "step F policy input rec (AndLoop v) = and_loop F input rec v"
| "step F policy input rec ParseComparison = parse_comparison F input rec"
| "step F policy input rec ParseAdditive = parse_additive rec"
| "step F policy input rec (AdditiveLoop v) = additive_loop F input rec v"
| "step F policy input rec ParseMultiplicative = parse_multiplicative rec"
| "step F policy input rec (MultiplicativeLoop v) = multiplicative_loop F policy input rec v"
| "step F policy input rec ParsePower = parse_power F input rec"
| "step F policy input rec ParseUnary = parse_unary F input rec"
| "step F policy input rec ParsePrimary = parse_primary F input rec"
| "step F policy input rec ParseFunction = parse_function input rec"
| "step F policy input rec (ArgumentLoop name arguments) = argument_loop F input rec name arguments"

fun run :: "'f float_ops \<Rightarrow> zero_operator_policy \<Rightarrow> bytes \<Rightarrow> nat \<Rightarrow> 'f recursor" where
  "run F policy input 0 = (\<lambda>level st. None)"
| "run F policy input (Suc fuel) = step F policy input (run F policy input fuel)"

subsection \<open>Evaluation\<close>

definition is_control :: "char \<Rightarrow> bool" where
  "is_control c \<longleftrightarrow> byte c < 32 \<or> byte c = 127"

text \<open>The expression is ASCII by then, so its characters are its bytes.\<close>

definition syntax_tail :: "bytes \<Rightarrow> nat \<Rightarrow> bytes" where
  "syntax_tail expression offset = filter (\<lambda>c. \<not> is_control c) (drop offset expression)"

definition leading_identifier :: "bytes \<Rightarrow> bytes option" where
  "leading_identifier tail =
     (let tail = dropWhile ascii_space tail in
      case get tail 0 of
        None \<Rightarrow> None
      | Some c \<Rightarrow> if name_start c then Some (takeWhile name_byte tail) else None)"

definition leading_number :: "bytes \<Rightarrow> bool" where
  "leading_number tail \<longleftrightarrow>
     (let tail = dropWhile ascii_space tail in
      (case get tail 0 of
         None \<Rightarrow> False
       | Some c \<Rightarrow> is_digit c \<or>
           c = CHR ''.'' \<and> (case get tail 1 of None \<Rightarrow> False | Some d \<Rightarrow> is_digit d)))"

definition is_safe_error_tail :: "bytes \<Rightarrow> bool" where
  "is_safe_error_tail tail \<longleftrightarrow>
     tail \<noteq> [] \<and>
     list_all (\<lambda>c. is_alnum c \<or> ascii_space c \<or> c \<in> set ''_|+-*/%<>=!().,'') tail"

definition start_state :: parser_state where
  "start_state = \<lparr>ps_offset = 0, ps_operations = 0, ps_parentheses = 0\<rparr>"

definition evaluate ::
  "'f float_ops \<Rightarrow> zero_operator_policy \<Rightarrow> bytes \<Rightarrow> (expression_error + 'f expr_value) option" where
  "evaluate F policy expression =
     (if length expression > max_expression_bytes then Some (Inl ExprInvalid)
      else if \<not> list_all is_ascii expression then Some (Inl (SyntaxNear expression))
      else case run F policy expression (10 * (length expression + 1)) ParseOr start_state of
        None \<Rightarrow> None
      | Some (Inl ExprInvalid, st) \<Rightarrow>
          let tail = syntax_tail expression (ps_offset st) in
          Some (Inl (if tail = [] then ExprInvalid else SyntaxNear tail))
      | Some (Inl e, st) \<Rightarrow> Some (Inl e)
      | Some (Inr result, st) \<Rightarrow>
          let st = skip_space expression st in
          if ps_offset st \<noteq> length expression then
            let tail = syntax_tail expression (ps_offset st) in
            Some (Inl
              (if starts_with tail '','' \<and> is_safe_error_tail tail then MisplacedComma
               else if leading_number tail then TooManyValues
               else case leading_identifier tail of
                 Some identifier \<Rightarrow> UndefinedConstant identifier
               | None \<Rightarrow> SyntaxNear tail))
          else (case result of
                  NumberV x \<Rightarrow> if f_is_finite F x then Some (Inr result) else Some (Inl ExprInvalid)
                | _ \<Rightarrow> Some (Inr result)))"

subsection \<open>Messages and output\<close>

definition quoted :: "bytes \<Rightarrow> bytes" where
  "quoted name = CHR 0x22 # name @ [CHR 0x22]"

definition arity_message :: "bytes \<Rightarrow> bytes \<Rightarrow> nat \<Rightarrow> nat \<Rightarrow> bytes" where
  "arity_message problem function expected actual =
     ''run-time error: '' @ problem @ '' arguments for function '' @ quoted function @
     ''('' @ decimal expected @ '' -> '' @ decimal actual @ '')''"

fun runtime_message :: "expression_error \<Rightarrow> bytes option" where
  "runtime_message ExprInvalid = None"
| "runtime_message (UndefinedConstant name) = Some (''run-time error: undefined constant '' @ quoted name)"
| "runtime_message (UndefinedFunction name) = Some (''run-time error: undefined function '' @ quoted name)"
| "runtime_message (TooFewParameters operator) =
     Some (''run-time error: too few parameters for operator '' @ quoted operator @ '' (2 -> 1)'')"
| "runtime_message (TooFewArguments function expected actual) =
     Some (arity_message ''too few'' function expected actual)"
| "runtime_message (TooManyArguments function expected actual) =
     Some (arity_message ''too many'' function expected actual)"
| "runtime_message MisplacedComma =
     Some (''parser error: missing token '' @ [CHR 0x60] @ ''('' @ [CHR 0x60] @
       '' or misplaced token '' @ [CHR 0x60] @ '','' @ [CHR 0x60])"
| "runtime_message TooManyValues = Some ''run-time error: too many values in the stack''"
| "runtime_message (SyntaxNear tail) = Some (''syntax error near '' @ CHR 0x60 # tail @ [CHR 0x60])"
| "runtime_message DivisionByZero = Some ''run-time error: division by zero''"
| "runtime_message RemainderByZero = Some ''run-time error: rest-division by zero''"

text \<open>\<open>f_scientific\<close> is \<open>{:.1E}\<close>, \<open>f_fixed\<close> is \<open>{:.12}\<close> and \<open>f_tiny\<close> is \<open>1e-11\<close>.\<close>

definition format_number :: "'f float_ops \<Rightarrow> 'f \<Rightarrow> bytes" where
  "format_number F x =
     (if f_eq F x (f_zero F) then ''0''
      else if f_lt F (f_abs F x) (f_tiny F) then
        (case split_once CHR ''E'' (f_scientific F x) of
           None \<Rightarrow> f_scientific F x
         | Some (mantissa, exponent) \<Rightarrow>
             let exponent = (case strip_prefix ''+'' exponent of Some e \<Rightarrow> e | None \<Rightarrow> exponent);
                 exponent = trim_start_set {CHR ''0''} exponent;
                 exponent = (if exponent = [] then ''0'' else exponent)
             in mantissa @ ''E'' @ exponent)
      else
        let digits = trim_end_set {CHR ''0''} (f_fixed F x) in
        if ends_with digits ''.'' then butlast digits else digits)"

fun format_value :: "'f float_ops \<Rightarrow> 'f expr_value \<Rightarrow> bytes" where
  "format_value F (BooleanV b) = (if b then ''true'' else ''false'')"
| "format_value F NullV = []"
| "format_value F (NumberV x) = format_number F x"

subsection \<open>Termination and resource bounds\<close>

definition ps_ok :: "bytes \<Rightarrow> parser_state \<Rightarrow> bool" where
  "ps_ok input st \<longleftrightarrow>
     ps_offset st \<le> length input \<and> ps_operations st \<le> max_operations \<and>
     ps_parentheses st \<le> max_parentheses"

definition within :: "bytes \<Rightarrow> parser_state \<Rightarrow> parser_state \<Rightarrow> bool" where
  "within input st st' \<longleftrightarrow>
     ps_offset st \<le> ps_offset st' \<and> ps_ok input st' \<and> ps_parentheses st' = ps_parentheses st"

definition error_ok :: "bytes \<Rightarrow> expression_error \<Rightarrow> parser_state \<Rightarrow> bool" where
  "error_ok input e st \<longleftrightarrow>
     ps_offset st \<le> length input \<and> ps_operations st \<le> max_operations + 1 \<and>
     ps_parentheses st \<le> max_parentheses + 1 \<and> (\<forall>n m. e \<noteq> TooFewArguments ''abs'' n m)"

definition returns :: "bytes \<Rightarrow> ('a \<Rightarrow> parser_state \<Rightarrow> bool) \<Rightarrow> 'a outcome \<Rightarrow> bool" where
  "returns input Q m \<longleftrightarrow>
     (case m of
        None \<Rightarrow> False
      | Some (Inl e, st) \<Rightarrow> error_ok input e st
      | Some (Inr x, st) \<Rightarrow> Q x st)"

fun rank :: "'f level \<Rightarrow> nat" where
  "rank ParseOr = 9"
| "rank ParseAnd = 8"
| "rank ParseComparison = 7"
| "rank ParseAdditive = 6"
| "rank ParseMultiplicative = 5"
| "rank ParsePower = 4"
| "rank ParseUnary = 3"
| "rank ParsePrimary = 2"
| "rank ParseFunction = 1"
| "rank _ = 1"

fun level_ok :: "'f level \<Rightarrow> bool" where
  "level_ok (ArgumentLoop name arguments) \<longleftrightarrow> False"
| "level_ok _ \<longleftrightarrow> True"

text \<open>What a call may assume, and the state its result is compared with: the loop over the
  arguments closes the parenthesis that its caller has opened.\<close>

fun ready :: "'f level \<Rightarrow> parser_state \<Rightarrow> bool" where
  "ready (ArgumentLoop name arguments) st \<longleftrightarrow> arguments \<noteq> [] \<and> 0 < ps_parentheses st"
| "ready _ st \<longleftrightarrow> True"

fun outside :: "'f level \<Rightarrow> parser_state \<Rightarrow> parser_state" where
  "outside (ArgumentLoop name arguments) st = leave_parentheses st"
| "outside _ st = st"

definition budget :: "bytes \<Rightarrow> 'f level \<Rightarrow> parser_state \<Rightarrow> nat" where
  "budget input level st = 10 * (length input - ps_offset st) + rank level"

definition rec_ok :: "bytes \<Rightarrow> 'f recursor \<Rightarrow> nat \<Rightarrow> bool" where
  "rec_ok input rec b \<longleftrightarrow>
     (\<forall>level st. ps_ok input st \<and> ready level st \<and> budget input level st < b \<longrightarrow>
        returns input (\<lambda>_. within input (outside level st)) (rec level st))"

lemma level_ok_ready: "level_ok level \<Longrightarrow> ready level st \<and> outside level st = st"
  by (cases level) auto

lemma rank_bound: "1 \<le> rank level \<and> rank level \<le> 9"
  by (cases level) auto

lemma within_refl: "ps_ok input st \<Longrightarrow> within input st st"
  by (simp add: within_def)

lemma within_trans: "within input a b \<Longrightarrow> within input b c \<Longrightarrow> within input a c"
  by (auto simp: within_def)

lemma within_ok: "within input a b \<Longrightarrow> ps_ok input b"
  by (simp add: within_def)

lemma returns_succeed [simp]: "returns input Q (succeed x st) \<longleftrightarrow> Q x st"
  by (simp add: returns_def succeed_def)

lemma returns_fail [simp]: "returns input Q (fail_with e st) \<longleftrightarrow> error_ok input e st"
  by (simp add: returns_def fail_with_def)

lemma returns_andthen:
  assumes "returns input Q m" and "\<And>x st. Q x st \<Longrightarrow> returns input R (k x st)"
  shows "returns input R (andthen m k)"
proof -
  from assms(1) obtain r st where m: "m = Some (r, st)" by (auto simp: returns_def split: option.splits)
  show ?thesis
  proof (cases r)
    case (Inl e)
    with assms(1) m show ?thesis by (simp add: returns_def andthen_def)
  next
    case (Inr x)
    with assms(1) m have "Q x st" by (simp add: returns_def)
    with assms(2) m Inr show ?thesis by (simp add: andthen_def)
  qed
qed

lemma returns_weaken:
  "returns input Q m \<Longrightarrow> (\<And>x st. Q x st \<Longrightarrow> R x st) \<Longrightarrow> returns input R m"
  by (auto simp: returns_def split: option.splits sum.splits)

lemma rec_use:
  assumes "rec_ok input rec b" and "within input st st'" and "level_ok level"
    and "budget input level st' < b"
  shows "returns input (\<lambda>_. within input st) (rec level st')"
proof -
  have "returns input (\<lambda>_. within input st') (rec level st')"
    using assms(1,4) level_ok_ready [OF assms(3), of st'] within_ok [OF assms(2)] unfolding rec_ok_def by metis
  then show ?thesis by (rule returns_weaken) (rule within_trans [OF assms(2)])
qed

text \<open>Calls at the same offset need a smaller rank; calls after progress need nothing.\<close>

lemma budget_rank:
  "within input st st' \<Longrightarrow> rank level' < rank level \<Longrightarrow> budget input level' st' < budget input level st"
  by (auto simp: budget_def within_def ps_ok_def intro: add_le_less_mono)

lemma budget_progress:
  assumes "ps_offset st < ps_offset st'" and "ps_offset st' \<le> length input"
  shows "budget input level' st' < budget input level st"
proof -
  have "Suc (length input - ps_offset st') \<le> length input - ps_offset st" using assms by arith
  then show ?thesis
    unfolding budget_def using rank_bound [of level'] rank_bound [of level] by linarith
qed

lemma skip_space_within: "ps_ok input st \<Longrightarrow> within input st (skip_space input st)"
  by (auto simp: within_def ps_ok_def skip_space_def scan_while_ge scan_while_le)

lemma consume_within:
  assumes "consume input expected st = (b, st')" and "ps_ok input st" and "expected \<noteq> []"
  shows "within input st st'" and "b \<Longrightarrow> ps_offset st < ps_offset st'"
proof -
  let ?s = "skip_space input st"
  have w: "within input st ?s" using assms(2) by (rule skip_space_within)
  have "within input st st' \<and> (b \<longrightarrow> ps_offset st < ps_offset st')"
  proof (cases "starts_with (drop (ps_offset ?s) input) expected")
    case True
    have "length expected \<le> length (drop (ps_offset ?s) input)" using True by (rule starts_with_length)
    moreover have "ps_offset ?s \<le> length input" using w by (simp add: within_def ps_ok_def)
    ultimately have "ps_offset ?s + length expected \<le> length input" by simp
    moreover have "st' = ?s\<lparr>ps_offset := ps_offset ?s + length expected\<rparr>" "b"
      using True assms(1) by (auto simp: consume_def Let_def)
    moreover from assms(3) obtain c cs where "expected = c # cs" by (cases expected) auto
    ultimately show ?thesis using w unfolding within_def ps_ok_def by simp
  next
    case False
    with assms(1) w show ?thesis by (simp add: consume_def Let_def)
  qed
  then show "within input st st'" "b \<Longrightarrow> ps_offset st < ps_offset st'" by auto
qed

lemma find_operator_within:
  "find_operator input operators st = (r, st') \<Longrightarrow> ps_ok input st \<Longrightarrow> [] \<notin> set operators \<Longrightarrow>
   within input st st' \<and> (r \<noteq> None \<longrightarrow> ps_offset st < ps_offset st')"
proof (induction operators arbitrary: st)
  case (Cons operator operators)
  obtain b st1 where c: "consume input operator st = (b, st1)" by fastforce
  note w = consume_within [OF c Cons.prems(2)]
  show ?case
  proof (cases b)
    case True
    with Cons.prems c w show ?thesis by auto
  next
    case False
    with Cons.prems c have "find_operator input operators st1 = (r, st')" by simp
    with Cons.IH [OF this] Cons.prems(3) w show ?thesis
      by (auto simp: within_def)
  qed
qed (auto simp: within_refl)

definition advanced :: "bytes \<Rightarrow> parser_state \<Rightarrow> parser_state \<Rightarrow> bool" where
  "advanced input st st' \<longleftrightarrow> within input st st' \<and> ps_offset st < ps_offset st'"

lemma advanced_within: "advanced input st st' \<Longrightarrow> within input st st'"
  by (simp add: advanced_def)

lemma returns_operation:
  assumes "advanced input st st'"
  shows "returns input (\<lambda>_. advanced input st) (operation st')"
  using assms by (auto simp: operation_def Let_def advanced_def within_def ps_ok_def error_ok_def)

lemma rec_advanced:
  assumes "rec_ok input rec (budget input level st)" and "advanced input st st'" and "level_ok level'"
  shows "returns input (\<lambda>_. advanced input st) (rec level' st')"
proof -
  have "budget input level' st' < budget input level st"
    using assms(2) by (intro budget_progress) (auto simp: advanced_def within_def ps_ok_def)
  then have "returns input (\<lambda>_. within input st') (rec level' st')"
    using assms(1) level_ok_ready [OF assms(3), of st'] within_ok [OF advanced_within [OF assms(2)]]
    unfolding rec_ok_def by metis
  then show ?thesis
    by (rule returns_weaken) (use assms(2) in \<open>auto simp: advanced_def within_def\<close>)
qed

lemma operator_rhs_returns:
  assumes "returns input Q (rec level st)" and "\<And>e st. error_ok input e st \<Longrightarrow> error_ok input (TooFewParameters operator) st"
  shows "returns input Q (operator_rhs rec operator level st)"
  using assms by (auto simp: operator_rhs_def returns_def fail_with_def split: option.splits sum.splits expression_error.splits)

lemma error_ok_params: "error_ok input e st \<Longrightarrow> error_ok input (TooFewParameters operator) st"
  by (simp add: error_ok_def)

text \<open>A call of a lower rank, from a state that the method has reached without failing.\<close>

lemma rec_descend:
  assumes "rec_ok input rec (budget input level st)" and "within input st st'"
    and "level_ok level'" and "rank level' < rank level"
  shows "returns input (\<lambda>_. within input st) (rec level' st')"
  by (rule rec_use [OF assms(1-3) budget_rank [OF assms(2,4)]])

text \<open>The methods, one by one.\<close>

lemma parse_or_returns:
  assumes "rec_ok input rec (budget input ParseOr st)" and "ps_ok input st"
  shows "returns input (\<lambda>_. within input st) (parse_or rec st)"
  unfolding parse_or_def
  by (rule returns_andthen [OF rec_descend [OF assms(1) within_refl [OF assms(2)]]])
    (simp_all add: rec_descend [OF assms(1)])

lemma parse_and_returns:
  assumes "rec_ok input rec (budget input ParseAnd st)" and "ps_ok input st"
  shows "returns input (\<lambda>_. within input st) (parse_and rec st)"
  unfolding parse_and_def
  by (rule returns_andthen [OF rec_descend [OF assms(1) within_refl [OF assms(2)]]])
    (simp_all add: rec_descend [OF assms(1)])

lemma parse_additive_returns:
  assumes "rec_ok input rec (budget input ParseAdditive st)" and "ps_ok input st"
  shows "returns input (\<lambda>_. within input st) (parse_additive rec st)"
  unfolding parse_additive_def
  by (rule returns_andthen [OF rec_descend [OF assms(1) within_refl [OF assms(2)]]])
    (simp_all add: rec_descend [OF assms(1)])

lemma parse_multiplicative_returns:
  assumes "rec_ok input rec (budget input ParseMultiplicative st)" and "ps_ok input st"
  shows "returns input (\<lambda>_. within input st) (parse_multiplicative rec st)"
  unfolding parse_multiplicative_def
  by (rule returns_andthen [OF rec_descend [OF assms(1) within_refl [OF assms(2)]]])
    (simp_all add: rec_descend [OF assms(1)])

lemma advanced_returns: "returns input (\<lambda>_. advanced input st) m \<Longrightarrow> returns input (\<lambda>_. within input st) m"
  by (erule returns_weaken) (rule advanced_within)

lemma or_loop_returns:
  assumes "rec_ok input rec (budget input (OrLoop v) st)" and "ps_ok input st"
  shows "returns input (\<lambda>_. within input st) (or_loop F input rec v st)"
proof -
  obtain b st1 where c: "consume input ''||'' st = (b, st1)" by fastforce
  note w = consume_within [OF c assms(2)]
  have "returns input (\<lambda>_. within input st) (andthen (operation st1) (\<lambda>_ st. andthen (rec ParseAnd st)
      (\<lambda>right. rec (OrLoop (BooleanV (truthy F v \<or> truthy F right))))))" if b
    using w that
    by (intro advanced_returns returns_andthen [OF returns_operation]
        returns_andthen [OF rec_advanced [OF assms(1)]] rec_advanced [OF assms(1)])
      (auto simp: advanced_def)
  with c w show ?thesis by (cases b) (auto simp: or_loop_def)
qed

lemma and_loop_returns:
  assumes "rec_ok input rec (budget input (AndLoop v) st)" and "ps_ok input st"
  shows "returns input (\<lambda>_. within input st) (and_loop F input rec v st)"
proof -
  obtain b st1 where c: "consume input ''&&'' st = (b, st1)" by fastforce
  note w = consume_within [OF c assms(2)]
  have "returns input (\<lambda>_. within input st) (andthen (operation st1) (\<lambda>_ st. andthen (rec ParseComparison st)
      (\<lambda>right. rec (AndLoop (BooleanV (truthy F v \<and> truthy F right))))))" if b
    using w that
    by (intro advanced_returns returns_andthen [OF returns_operation]
        returns_andthen [OF rec_advanced [OF assms(1)]] rec_advanced [OF assms(1)])
      (auto simp: advanced_def)
  with c w show ?thesis by (cases b) (auto simp: and_loop_def)
qed

lemma operator_rhs_advanced:
  assumes "rec_ok input rec (budget input level st)" and "advanced input st st'" and "level_ok level'"
  shows "returns input (\<lambda>_. advanced input st) (operator_rhs rec operator level' st')"
  by (rule operator_rhs_returns) (rule rec_advanced [OF assms], erule error_ok_params)

lemma find_operator_cases:
  assumes "ps_ok input st" and "[] \<notin> set operators"
  obtains st' where "find_operator input operators st = (None, st')" and "within input st st'"
    | operator st' where "find_operator input operators st = (Some operator, st')" and "advanced input st st'"
proof -
  obtain r st' where f: "find_operator input operators st = (r, st')" by fastforce
  from find_operator_within [OF f assms] f that show thesis
    by (cases r) (auto simp: advanced_def)
qed

lemma additive_loop_returns:
  assumes "rec_ok input rec (budget input (AdditiveLoop v) st)" and "ps_ok input st"
  shows "returns input (\<lambda>_. within input st) (additive_loop F input rec v st)"
proof (rule find_operator_cases [OF assms(2), of "[''+'', ''-'']"])
  fix operator st' assume f: "find_operator input [''+'', ''-''] st = (Some operator, st')" and a: "advanced input st st'"
  have "returns input (\<lambda>_. within input st)
      (andthen (operation st') (\<lambda>_ st. andthen (operator_rhs rec operator ParseMultiplicative st) (\<lambda>right.
        rec (AdditiveLoop (NumberV ((if operator = ''+'' then f_add F else f_sub F) (number F v) (number F right)))))))"
    by (intro advanced_returns returns_andthen [OF returns_operation [OF a]]
        returns_andthen [OF operator_rhs_advanced [OF assms(1)]] rec_advanced [OF assms(1)]) simp_all
  with f show ?thesis by (simp add: additive_loop_def)
qed (auto simp: additive_loop_def)

lemma divide_error: "divide F policy operator x y = Inl e \<Longrightarrow> e = RemainderByZero \<or> e = DivisionByZero"
  by (auto simp: divide_def Let_def split: if_splits zero_operator_policy.splits)

lemma error_ok_advanced:
  "advanced input st st' \<Longrightarrow> (\<And>n m. e \<noteq> TooFewArguments ''abs'' n m) \<Longrightarrow> error_ok input e st'"
  by (auto simp: advanced_def within_def ps_ok_def error_ok_def)

lemma error_ok_within:
  "within input st st' \<Longrightarrow> (\<And>n m. e \<noteq> TooFewArguments ''abs'' n m) \<Longrightarrow> error_ok input e st'"
  by (auto simp: within_def ps_ok_def error_ok_def)

lemma multiplicative_loop_returns:
  assumes "rec_ok input rec (budget input (MultiplicativeLoop v) st)" and "ps_ok input st"
  shows "returns input (\<lambda>_. within input st) (multiplicative_loop F policy input rec v st)"
proof (rule find_operator_cases [OF assms(2), of "[''*'', ''/'', ''%'']"])
  fix operator st' assume f: "find_operator input [''*'', ''/'', ''%''] st = (Some operator, st')"
    and a: "advanced input st st'"
  have "returns input (\<lambda>_. advanced input st)
      (case divide F policy operator (number F v) (number F right) of
         Inl e \<Rightarrow> fail_with e st1 | Inr x \<Rightarrow> rec (MultiplicativeLoop (NumberV x)) st1)"
    if "advanced input st st1" for right st1
    using that by (auto dest!: divide_error intro!: error_ok_advanced rec_advanced [OF assms(1)] split: sum.split)
  then have "returns input (\<lambda>_. within input st)
      (andthen (operation st') (\<lambda>_ st. andthen (operator_rhs rec operator ParsePower st) (\<lambda>right st.
        case divide F policy operator (number F v) (number F right) of
          Inl e \<Rightarrow> fail_with e st | Inr x \<Rightarrow> rec (MultiplicativeLoop (NumberV x)) st)))"
    by (intro advanced_returns returns_andthen [OF returns_operation [OF a]]
        returns_andthen [OF operator_rhs_advanced [OF assms(1)]]) simp_all
  with f show ?thesis by (simp add: multiplicative_loop_def)
qed (auto simp: multiplicative_loop_def)

lemma parse_comparison_returns:
  assumes "rec_ok input rec (budget input ParseComparison st)" and "ps_ok input st"
  shows "returns input (\<lambda>_. within input st) (parse_comparison F input rec st)"
  unfolding parse_comparison_def
proof (rule returns_andthen [OF rec_descend [OF assms(1) within_refl [OF assms(2)]]], simp, simp)
  fix left st1 assume w: "within input st st1"
  have ops: "[] \<notin> set comparison_operators" by (simp add: comparison_operators_def)
  show "returns input (\<lambda>_. within input st)
      (case find_operator input comparison_operators st1 of
         (None, st) \<Rightarrow> succeed left st
       | (Some operator, st) \<Rightarrow>
           andthen (operation st) (\<lambda>_ st.
             case rec ParseComparison st of
               Some (Inl ExprInvalid, st) \<Rightarrow>
                 if operator = ''=='' \<and> starts_with (remaining input st) ''=''
                 then fail_with (SyntaxNear (remaining input st)) st
                 else fail_with (TooFewParameters operator) st
             | Some (Inl e, st) \<Rightarrow> fail_with e st
             | Some (Inr right, st) \<Rightarrow>
                 succeed (BooleanV (compare_values F operator (number F left) (number F right))) st
             | None \<Rightarrow> None))" (is "returns input ?Q (case ?found of (None, st) \<Rightarrow> ?none st | (Some operator, st) \<Rightarrow> ?some operator st)")
  proof (rule find_operator_cases [OF within_ok [OF w] ops])
    fix operator st2 assume f: "?found = (Some operator, st2)" and "advanced input st1 st2"
    then have a: "advanced input st st2" using w by (auto simp: advanced_def within_def)
    have "returns input (\<lambda>_. within input st) (?some operator st2)"
      by (rule returns_andthen [OF returns_operation [OF a]])
        (drule rec_advanced [OF assms(1), where level' = ParseComparison], simp,
         auto simp: returns_def fail_with_def succeed_def advanced_def error_ok_def
           split: option.splits sum.splits expression_error.splits)
    with f show ?thesis by simp
  next
    fix st2 assume "?found = (None, st2)" and "within input st1 st2"
    then show ?thesis using within_trans [OF w] by simp
  qed
qed

lemma parse_power_returns:
  assumes "rec_ok input rec (budget input ParsePower st)" and "ps_ok input st"
  shows "returns input (\<lambda>_. within input st) (parse_power F input rec st)"
  unfolding parse_power_def
proof (rule returns_andthen [OF rec_descend [OF assms(1) within_refl [OF assms(2)]]], simp, simp)
  fix left st1 assume w: "within input st st1"
  obtain b st2 where c: "consume input ''^'' st1 = (b, st2)" by fastforce
  note w2 = consume_within [OF c within_ok [OF w]]
  have a: "advanced input st st2" if b
    using w w2 that by (auto simp: advanced_def within_def)
  show "returns input (\<lambda>_. within input st)
      (case consume input ''^'' st1 of
         (True, st) \<Rightarrow>
           andthen (operation st) (\<lambda>_ st.
           andthen (operator_rhs rec ''^'' ParsePower st) (\<lambda>right.
             succeed (NumberV (f_pow F (number F left) (number F right)))))
       | (False, st) \<Rightarrow> succeed left st)"
  proof (cases b)
    case True
    have "returns input (\<lambda>_. advanced input st) (andthen (operation st2) (\<lambda>_ st.
           andthen (operator_rhs rec ''^'' ParsePower st) (\<lambda>right.
             succeed (NumberV (f_pow F (number F left) (number F right))))))"
      by (rule returns_andthen [OF returns_operation [OF a [OF True]]],
          rule returns_andthen [OF operator_rhs_advanced [OF assms(1)]]) simp_all
    with c True show ?thesis by (simp add: advanced_returns)
  next
    case False
    with c w w2 within_trans [OF w] show ?thesis by simp
  qed
qed

lemma parse_unary_returns:
  assumes "rec_ok input rec (budget input ParseUnary st)" and "ps_ok input st"
  shows "returns input (\<lambda>_. within input st) (parse_unary F input rec st)"
proof (rule find_operator_cases [OF assms(2), of "[''+'', ''-'', ''!'']"])
  fix operator st' assume f: "find_operator input [''+'', ''-'', ''!''] st = (Some operator, st')"
    and a: "advanced input st st'"
  have "returns input (\<lambda>_. advanced input st)
      (andthen (operation st') (\<lambda>_ st. andthen (rec ParseUnary st)
        (\<lambda>v. succeed (NumberV (unary_value F operator v)))))"
    by (rule returns_andthen [OF returns_operation [OF a]],
        rule returns_andthen [OF rec_advanced [OF assms(1)]]) simp_all
  with f show ?thesis by (simp add: parse_unary_def advanced_returns)
next
  fix st' assume "find_operator input [''+'', ''-'', ''!''] st = (None, st')" and "within input st st'"
  then show ?thesis using rec_descend [OF assms(1), of st' ParsePrimary] by (simp add: parse_unary_def)
qed simp

lemma number_end_bounds: "i \<le> length input \<Longrightarrow> i \<le> number_end input i d \<and> number_end input i d \<le> length input"
proof (induction input i d rule: number_end.induct)
  case (1 input i d)
  show ?case
    by (subst (1 2) number_end.simps) (use 1 in auto)
qed

lemma parse_number_returns:
  assumes "ps_ok input st"
  shows "returns input (\<lambda>_. within input st) (parse_number F input st)"
proof -
  let ?s = "skip_space input st"
  have "within input st ?s" using assms by (rule skip_space_within)
  moreover from this have "ps_offset ?s \<le> number_end input (ps_offset ?s) False"
    "number_end input (ps_offset ?s) False \<le> length input"
    using number_end_bounds [of "ps_offset ?s" input False] by (auto simp: within_def ps_ok_def)
  ultimately have "within input st (?s\<lparr>ps_offset := number_end input (ps_offset ?s) False\<rparr>)"
    by (simp add: within_def ps_ok_def)
  then show ?thesis by (auto simp: parse_number_def Let_def error_ok_within split: option.split)
qed

text \<open>Between an opening parenthesis and its closing one.\<close>

definition inside :: "bytes \<Rightarrow> parser_state \<Rightarrow> parser_state \<Rightarrow> bool" where
  "inside input st st' \<longleftrightarrow>
     ps_offset st < ps_offset st' \<and> ps_ok input st' \<and> ps_parentheses st' = ps_parentheses st + 1"

lemma returns_enter:
  assumes "advanced input st st'"
  shows "returns input (\<lambda>_. inside input st) (enter_parentheses st')"
  using assms
  by (auto simp: enter_parentheses_def Let_def advanced_def inside_def within_def ps_ok_def error_ok_def)

lemma rec_inside:
  assumes "rec_ok input rec (budget input level st)" and "inside input st st'" and "level_ok level'"
  shows "returns input (\<lambda>_. inside input st) (rec level' st')"
proof -
  have "budget input level' st' < budget input level st"
    using assms(2) by (intro budget_progress) (auto simp: inside_def ps_ok_def)
  then have "returns input (\<lambda>_. within input st') (rec level' st')"
    using assms(1,2) level_ok_ready [OF assms(3), of st'] unfolding rec_ok_def inside_def by metis
  then show ?thesis
    by (rule returns_weaken) (use assms(2) in \<open>auto simp: inside_def within_def\<close>)
qed

lemma inside_leave:
  "inside input st st' \<Longrightarrow> within input st' st'' \<Longrightarrow> advanced input st (leave_parentheses st'')"
  by (auto simp: inside_def within_def advanced_def leave_parentheses_def ps_ok_def)

lemma rec_arguments:
  assumes "rec_ok input rec (budget input level st)" and "inside input st st'" and "arguments \<noteq> []"
  shows "returns input (\<lambda>_. within input st) (rec (ArgumentLoop name arguments) st')"
proof -
  have "budget input (ArgumentLoop name arguments) st' < budget input level st"
    using assms(2) by (intro budget_progress) (auto simp: inside_def ps_ok_def)
  moreover have "ready (ArgumentLoop name arguments) st'" "ps_ok input st'"
    using assms(2,3) by (auto simp: inside_def)
  ultimately have "returns input (\<lambda>_. within input (outside (ArgumentLoop name arguments) st'))
      (rec (ArgumentLoop name arguments) st')"
    using assms(1) unfolding rec_ok_def by blast
  then show ?thesis
    by (rule returns_weaken)
      (use assms(2) in \<open>auto simp: inside_def within_def leave_parentheses_def\<close>)
qed

lemma parse_primary_returns:
  assumes "rec_ok input rec (budget input ParsePrimary st)" and "ps_ok input st"
  shows "returns input (\<lambda>_. within input st) (parse_primary F input rec st)"
proof -
  obtain b st1 where c: "consume input ''('' st = (b, st1)" by fastforce
  note w = consume_within [OF c assms(2)]
  show ?thesis
  proof (cases b)
    case True
    with w have a: "advanced input st st1" by (simp add: advanced_def)
    have "returns input (\<lambda>_. advanced input st)
        (case consume input '')'' st2 of (True, st) \<Rightarrow> succeed v (leave_parentheses st)
           | (False, st) \<Rightarrow> fail_with ExprInvalid st)" if i: "inside input st st2" for v :: "'a expr_value" and st2
    proof -
      obtain b' st3 where c': "consume input '')'' st2 = (b', st3)" by fastforce
      have w': "within input st2 st3"
        using consume_within(1) [OF c'] i by (simp add: inside_def)
      show ?thesis
        using c' inside_leave [OF i w'] error_ok_within [OF w', of ExprInvalid] by (cases b') auto
    qed
    then have "returns input (\<lambda>_. advanced input st)
      (andthen (enter_parentheses st1) (\<lambda>_ st. andthen (rec ParseOr st) (\<lambda>v st.
            case consume input '')'' st of
              (True, st) \<Rightarrow> succeed v (leave_parentheses st)
            | (False, st) \<Rightarrow> fail_with ExprInvalid st)))"
      by (intro returns_andthen [OF returns_enter [OF a]] returns_andthen [OF rec_inside [OF assms(1)]]) simp_all
    with c True show ?thesis by (simp add: parse_primary_def advanced_returns)
  next
    case False
    let ?s = "skip_space input st1"
    have s: "within input st ?s"
      using w(1) skip_space_within [OF within_ok, of input st st1] within_trans by blast
    have "returns input (\<lambda>_. within input st) (rec ParseFunction ?s)"
      by (rule rec_descend [OF assms(1) s]) simp_all
    moreover have "returns input (\<lambda>_. within input st) (parse_number F input ?s)"
      by (rule returns_weaken [OF parse_number_returns [OF within_ok [OF s]]]) (rule within_trans [OF s])
    ultimately show ?thesis
      using c False by (auto simp: parse_primary_def Let_def split: option.split)
  qed
qed

lemma parse_function_returns:
  assumes "rec_ok input rec (budget input ParseFunction st)" and "ps_ok input st"
  shows "returns input (\<lambda>_. within input st) (parse_function input rec st)"
proof -
  define s where "s = skip_space input st"
  define e where "e = scan_while name_byte input (ps_offset s)"
  define st1 where "st1 = s\<lparr>ps_offset := e\<rparr>"
  have "within input st s" unfolding s_def using assms(2) by (rule skip_space_within)
  then have w: "within input st st1"
    by (auto simp: st1_def e_def within_def ps_ok_def scan_while_le intro: order_trans [OF _ scan_while_ge])
  obtain b st2 where c: "consume input ''('' st1 = (b, st2)" by fastforce
  note w2 = consume_within [OF c within_ok [OF w]]
  have call: "returns input (\<lambda>_. within input st) (case consume input ''('' st1 of
           (True, st) \<Rightarrow> andthen (enter_parentheses st) (\<lambda>_ st.
             andthen (rec ParseOr st) (\<lambda>v. rec (ArgumentLoop name [v])))
         | (False, st) \<Rightarrow> fail_with (UndefinedConstant name) st)" for name
  proof (cases b)
    case True
    with w w2 have a: "advanced input st st2" by (auto simp: advanced_def within_def)
    have "returns input (\<lambda>_. within input st) (andthen (enter_parentheses st2) (\<lambda>_ st.
             andthen (rec ParseOr st) (\<lambda>v. rec (ArgumentLoop name [v]))))"
      by (intro returns_andthen [OF returns_enter [OF a]] returns_andthen [OF rec_inside [OF assms(1)]]
          rec_arguments [OF assms(1)]) simp_all
    with c True show ?thesis by simp
  next
    case False
    with c w2 show ?thesis by (auto intro: error_ok_within)
  qed
  have eqs: "skip_space input st = s" "scan_while name_byte input (ps_offset s) = e" "s\<lparr>ps_offset := e\<rparr> = st1"
    by (simp_all add: s_def e_def st1_def)
  show ?thesis
    unfolding parse_function_def Let_def eqs using w call by simp
qed

lemma apply_function_ok:
  "arguments \<noteq> [] \<Longrightarrow>
   (case apply_function F name arguments of
      None \<Rightarrow> False | Some (Inl e) \<Rightarrow> \<forall>n m. e \<noteq> TooFewArguments ''abs'' n m | Some (Inr v) \<Rightarrow> True)"
  by (cases arguments) (simp_all add: apply_function_def Let_def)

lemma apply_function_cases:
  assumes "arguments \<noteq> []"
  obtains e where "apply_function F name arguments = Some (Inl e)" and "\<And>n m. e \<noteq> TooFewArguments ''abs'' n m"
    | v where "apply_function F name arguments = Some (Inr v)"
  using apply_function_ok [OF assms, of F name] by (auto split: option.splits sum.splits)

lemma argument_loop_returns:
  assumes "rec_ok input rec (budget input (ArgumentLoop name arguments) st)" and "ps_ok input st"
    and "ready (ArgumentLoop name arguments) st"
  shows "returns input (\<lambda>_. within input (leave_parentheses st)) (argument_loop F input rec name arguments st)"
proof -
  obtain b st1 where c: "consume input '','' st = (b, st1)" by fastforce
  note w = consume_within [OF c assms(2)]
  obtain b' st2 where c': "consume input '')'' st1 = (b', st2)" by fastforce
  note w' = consume_within [OF c' within_ok [OF w(1)]]
  have more: "returns input (\<lambda>_. within input (leave_parentheses st)) (rec (ArgumentLoop name (arguments @ [v])) st3)"
    if "advanced input st st3" for v st3
  proof -
    have "budget input (ArgumentLoop name (arguments @ [v])) st3 < budget input (ArgumentLoop name arguments) st"
      using that by (intro budget_progress) (auto simp: advanced_def within_def ps_ok_def)
    moreover have "ready (ArgumentLoop name (arguments @ [v])) st3" "ps_ok input st3"
      using assms(3) that by (auto simp: advanced_def within_def)
    ultimately have "returns input (\<lambda>_. within input (outside (ArgumentLoop name (arguments @ [v])) st3))
        (rec (ArgumentLoop name (arguments @ [v])) st3)"
      using assms(1) unfolding rec_ok_def by blast
    then have "returns input (\<lambda>_. within input (leave_parentheses st3)) (rec (ArgumentLoop name (arguments @ [v])) st3)"
      by simp
    then show ?thesis
      by (rule returns_weaken) (use that in \<open>auto simp: advanced_def within_def leave_parentheses_def\<close>)
  qed
  show ?thesis
  proof (cases b)
    case True
    with w have "advanced input st st1" by (simp add: advanced_def)
    then have "returns input (\<lambda>_. within input (leave_parentheses st))
        (andthen (rec ParseOr st1) (\<lambda>v. rec (ArgumentLoop name (arguments @ [v]))))"
      by (intro returns_andthen [OF rec_advanced [OF assms(1)]] more) simp_all
    with c True show ?thesis by (simp add: argument_loop_def)
  next
    case False
    have end_ok: "returns input (\<lambda>_. within input (leave_parentheses st))
        (andthen (operation (leave_parentheses st2)) (\<lambda>_ st. map_option (\<lambda>r. (r, st)) (apply_function F name arguments)))"
      if b'
    proof (rule returns_andthen)
      have "advanced input (leave_parentheses st) (leave_parentheses st2)"
        using w(1) w' that by (auto simp: advanced_def within_def leave_parentheses_def ps_ok_def)
      then show "returns input (\<lambda>_. advanced input (leave_parentheses st)) (operation (leave_parentheses st2))"
        by (rule returns_operation)
      fix st3 assume a: "advanced input (leave_parentheses st) st3"
      have "arguments \<noteq> []" using assms(3) by simp
      then show "returns input (\<lambda>_. within input (leave_parentheses st))
          (map_option (\<lambda>r. (r, st3)) (apply_function F name arguments))"
        by (rule apply_function_cases [where F = F and name = name])
          (use a error_ok_advanced [OF a] advanced_within [OF a] in \<open>auto simp: returns_def\<close>)
    qed
    show ?thesis
    proof (cases b')
      case True
      with c False c' end_ok show ?thesis by (simp add: argument_loop_def)
    next
      case b': False
      have "error_ok input ExprInvalid st2" using w(1) w'(1) within_trans by (blast intro: error_ok_within)
      with c False c' b' show ?thesis by (simp add: argument_loop_def)
    qed
  qed
qed

lemmas method_returns =
  parse_or_returns or_loop_returns parse_and_returns and_loop_returns parse_comparison_returns
  parse_additive_returns additive_loop_returns parse_multiplicative_returns
  multiplicative_loop_returns parse_power_returns parse_unary_returns parse_primary_returns
  parse_function_returns

lemma step_returns:
  assumes "rec_ok input rec (budget input level st)" and "ps_ok input st" and "ready level st"
  shows "returns input (\<lambda>_. within input (outside level st)) (step F policy input rec level st)"
proof (cases level)
  case (ArgumentLoop name arguments)
  with argument_loop_returns [OF assms [unfolded ArgumentLoop]] show ?thesis by simp
qed (use assms method_returns in simp_all)

lemma run_returns: "rec_ok input (run F policy input fuel) fuel"
proof (induction fuel)
  case 0
  show ?case by (simp add: rec_ok_def)
next
  case (Suc fuel)
  show ?case
    unfolding rec_ok_def run.simps
  proof (intro allI impI step_returns)
    fix level st assume "ps_ok input st \<and> ready level st \<and> budget input level st < Suc fuel"
    then show "rec_ok input (run F policy input fuel) (budget input level st)"
      using Suc unfolding rec_ok_def by (meson less_Suc_eq_le less_le_trans)
  qed simp_all
qed

lemma start_ok: "ps_ok input start_state"
  by (simp add: ps_ok_def start_state_def)

lemma run_start_returns:
  "returns input (\<lambda>_. within input start_state) (run F policy input (10 * (length input + 1)) ParseOr start_state)"
proof -
  have "budget input ParseOr start_state < 10 * (length input + 1)"
    by (simp add: budget_def start_state_def)
  then show ?thesis
    using run_returns [of input F policy "10 * (length input + 1)"] start_ok [of input]
    unfolding rec_ok_def by (metis ready.simps(2) outside.simps(2))
qed

subsection \<open>More fuel changes nothing\<close>

definition below :: "'a outcome \<Rightarrow> 'a outcome \<Rightarrow> bool" where
  "below m m' \<longleftrightarrow> m = None \<or> m = m'"

lemma below_refl [simp]: "below m m"
  by (simp add: below_def)

lemma below_andthen: "below m m' \<Longrightarrow> (\<And>x st. below (k x st) (k' x st)) \<Longrightarrow> below (andthen m k) (andthen m' k')"
  by (auto simp: below_def andthen_def split: option.splits sum.splits)

lemma below_operator_rhs:
  "below (rec level st) (rec' level st) \<Longrightarrow>
   below (operator_rhs rec operator level st) (operator_rhs rec' operator level st)"
  by (auto simp: below_def operator_rhs_def)

lemma below_comparison:
  assumes "\<And>level st. below (rec level st) (rec' level st)"
  shows "below (parse_comparison F input rec st) (parse_comparison F input rec' st)"
  unfolding parse_comparison_def
proof (rule below_andthen [OF assms])
  fix left :: "'a expr_value" and st1
  obtain r st2 where f: "find_operator input comparison_operators st1 = (r, st2)" by fastforce
  let ?k = "\<lambda>rec operator st. case rec ParseComparison st of
               Some (Inl ExprInvalid, st) \<Rightarrow>
                 if operator = ''=='' \<and> starts_with (remaining input st) ''=''
                 then fail_with (SyntaxNear (remaining input st)) st
                 else fail_with (TooFewParameters operator) st
             | Some (Inl e, st) \<Rightarrow> fail_with e st
             | Some (Inr right, st) \<Rightarrow>
                 succeed (BooleanV (compare_values F operator (number F left) (number F right))) st
             | None \<Rightarrow> None"
  have "below (?k rec operator st) (?k rec' operator st)" for operator st
    using assms [of ParseComparison st] by (auto simp: below_def)
  then have "below (andthen (operation st2) (\<lambda>_. ?k rec operator)) (andthen (operation st2) (\<lambda>_. ?k rec' operator))"
    for operator by (rule below_andthen [OF below_refl])
  then show "below (case find_operator input comparison_operators st1 of
      (None, st) \<Rightarrow> succeed left st | (Some operator, st) \<Rightarrow> andthen (operation st) (\<lambda>_. ?k rec operator))
     (case find_operator input comparison_operators st1 of
      (None, st) \<Rightarrow> succeed left st | (Some operator, st) \<Rightarrow> andthen (operation st) (\<lambda>_. ?k rec' operator))"
    using f by (cases r) simp_all
qed

lemma below_primary:
  assumes "\<And>level st. below (rec level st) (rec' level st)"
  shows "below (parse_primary F input rec st) (parse_primary F input rec' st)"
proof -
  obtain b st1 where c: "consume input ''('' st = (b, st1)" by fastforce
  show ?thesis
  proof (cases b)
    case True
    with c show ?thesis by (auto simp: parse_primary_def assms intro!: below_andthen)
  next
    case False
    have "below (case found of None \<Rightarrow> m | Some x \<Rightarrow> if name_start x then rec l s else m)
        (case found of None \<Rightarrow> m | Some x \<Rightarrow> if name_start x then rec' l s else m)" for found m l s
      by (cases found) (simp_all add: assms)
    with c False show ?thesis by (simp add: parse_primary_def Let_def)
  qed
qed

lemma below_step:
  assumes "\<And>level st. below (rec level st) (rec' level st)"
  shows "below (step F policy input rec level st) (step F policy input rec' level st)"
proof (cases level)
  case ParseComparison
  then show ?thesis using below_comparison [OF assms] by simp
next
  case ParsePrimary
  then show ?thesis using below_primary [OF assms] by simp
qed (auto simp: parse_or_def or_loop_def parse_and_def and_loop_def parse_additive_def additive_loop_def
    parse_multiplicative_def multiplicative_loop_def parse_power_def parse_unary_def
    parse_function_def argument_loop_def Let_def assms
    intro!: below_andthen below_operator_rhs split: prod.split bool.split option.split sum.split)

lemma run_below: "below (run F policy input n level st) (run F policy input (n + k) level st)"
proof (induction n arbitrary: level st)
  case 0
  show ?case by (simp add: below_def)
next
  case (Suc n)
  then show ?case by (simp add: below_step)
qed

lemma run_mono: "run F policy input n level st = Some r \<Longrightarrow> n \<le> m \<Longrightarrow> run F policy input m level st = Some r"
  using run_below [of F policy input n level st "m - n"] by (simp add: below_def)

subsection \<open>The errors that a parse can raise\<close>

definition raises :: "expression_error set \<Rightarrow> 'a outcome \<Rightarrow> bool" where
  "raises E m \<longleftrightarrow> (case m of Some (Inl e, st) \<Rightarrow> e \<in> E | _ \<Rightarrow> True)"

lemma raises_simps [simp]:
  "raises E None" "raises E (Some (Inr x, st))" "raises E (succeed x st)"
  "raises E (Some (Inl e, st)) \<longleftrightarrow> e \<in> E" "raises E (fail_with e st) \<longleftrightarrow> e \<in> E"
  by (simp_all add: raises_def succeed_def fail_with_def)

lemma raises_andthen: "raises E m \<Longrightarrow> (\<And>x st. raises E (k x st)) \<Longrightarrow> raises E (andthen m k)"
  by (cases m) (auto simp: andthen_def split: sum.splits)

definition no_zero_errors :: "expression_error set" where
  "no_zero_errors = - {DivisionByZero, RemainderByZero}"

lemma raises_operator_rhs:
  "raises no_zero_errors (rec level st) \<Longrightarrow> raises no_zero_errors (operator_rhs rec operator level st)"
  by (auto simp: operator_rhs_def raises_def no_zero_errors_def fail_with_def
      split: option.splits sum.splits expression_error.splits)

lemma raises_operation [simp]:
  "raises no_zero_errors (operation st)" "raises no_zero_errors (enter_parentheses st)"
  by (simp_all add: operation_def enter_parentheses_def Let_def no_zero_errors_def)

lemma raises_number [simp]: "raises no_zero_errors (parse_number F input st)"
  by (auto simp: parse_number_def Let_def no_zero_errors_def split: option.split)

lemma divide_replaced: "divide F ReplaceOperationWithZero operator x y = Inr (projr (divide F ReplaceOperationWithZero operator x y))"
  by (simp add: divide_def Let_def)

lemma raises_primary:
  assumes "\<And>level st. raises no_zero_errors (rec level st)"
  shows "raises no_zero_errors (parse_primary F input rec st)"
proof -
  have "raises no_zero_errors
      (case found of None \<Rightarrow> parse_number F input s | Some x \<Rightarrow> if p x then rec l s else parse_number F input s)"
    for found s l and p :: "char \<Rightarrow> bool" by (cases found) (simp_all add: assms)
  then show ?thesis
    by (auto simp: parse_primary_def Let_def assms no_zero_errors_def
        intro!: raises_andthen [of "- {DivisionByZero, RemainderByZero}"]
          raises_operation [unfolded no_zero_errors_def] assms [unfolded no_zero_errors_def]
        split: prod.split bool.split)
qed

lemma raises_comparison:
  assumes "\<And>level st. raises no_zero_errors (rec level st)"
  shows "raises no_zero_errors (parse_comparison F input rec st)"
proof -
  have "raises no_zero_errors (case rec ParseComparison st of
               Some (Inl ExprInvalid, st) \<Rightarrow>
                 if operator = ''=='' \<and> starts_with (remaining input st) ''=''
                 then fail_with (SyntaxNear (remaining input st)) st
                 else fail_with (TooFewParameters operator) st
             | Some (Inl e, st) \<Rightarrow> fail_with e st
             | Some (Inr right, st) \<Rightarrow>
                 succeed (BooleanV (compare_values F operator (number F left) (number F right))) st
             | None \<Rightarrow> None)" for operator left st
    using assms [of ParseComparison st]
    by (auto simp: no_zero_errors_def split: option.split sum.split expression_error.split)
  then show ?thesis
    unfolding parse_comparison_def
    by (intro raises_andthen [OF assms]) (auto intro!: raises_andthen split: prod.split option.split)
qed

lemma raises_function: "raises no_zero_errors (map_option (\<lambda>r. (r, st)) (apply_function F name arguments))"
  by (auto simp: apply_function_def Let_def no_zero_errors_def raises_def split: option.splits sum.splits if_splits)

lemma raises_arguments:
  assumes "\<And>level st. raises no_zero_errors (rec level st)"
  shows "raises no_zero_errors (argument_loop F input rec name arguments st)"
proof -
  have "raises no_zero_errors (fail_with ExprInvalid s)" for s :: parser_state
    by (simp add: no_zero_errors_def)
  then show ?thesis
    by (auto simp: argument_loop_def intro!: raises_andthen assms raises_function split: prod.split bool.split)
qed

lemma raises_multiplicative:
  assumes "\<And>level st. raises no_zero_errors (rec level st)"
  shows "raises no_zero_errors (multiplicative_loop F ReplaceOperationWithZero input rec v st)"
proof -
  have "raises no_zero_errors (case divide F ReplaceOperationWithZero operator x y of
      Inl e \<Rightarrow> fail_with e st | Inr x \<Rightarrow> rec (MultiplicativeLoop (NumberV x)) st)" for operator x y st
    by (subst divide_replaced) (simp add: assms)
  then show ?thesis
    by (auto simp: multiplicative_loop_def assms intro!: raises_andthen raises_operator_rhs
        split: prod.split option.split)
qed

lemma raises_parse_function:
  assumes "\<And>level st. raises no_zero_errors (rec level st)"
  shows "raises no_zero_errors (parse_function input rec st)"
proof -
  have "raises no_zero_errors (fail_with (UndefinedConstant n) s)" for n and s :: parser_state
    by (simp add: no_zero_errors_def)
  then show ?thesis
    by (auto simp: parse_function_def Let_def intro!: raises_andthen assms split: prod.split bool.split)
qed

lemma run_replaced: "raises no_zero_errors (run F ReplaceOperationWithZero input n level st)"
proof (induction n arbitrary: level st)
  case (Suc n)
  show ?case
  proof (cases level)
    case (MultiplicativeLoop v)
    then show ?thesis by (simp add: raises_multiplicative [OF Suc])
  next
    case ParsePrimary
    then show ?thesis by (simp add: raises_primary [OF Suc])
  next
    case ParseFunction
    then show ?thesis by (simp add: raises_parse_function [OF Suc])
  next
    case ParseComparison
    then show ?thesis by (simp add: raises_comparison [OF Suc])
  next
    case (ArgumentLoop name arguments)
    then show ?thesis by (simp add: raises_arguments [OF Suc])
  qed (auto simp: parse_or_def or_loop_def parse_and_def and_loop_def parse_additive_def additive_loop_def
      parse_multiplicative_def parse_power_def parse_unary_def Suc
      intro!: raises_andthen raises_operator_rhs split: prod.split bool.split option.split)
qed simp

subsection \<open>The properties\<close>

lemma evaluate_returns: "evaluate F policy expression \<noteq> None"
  using run_start_returns [of expression F policy]
  by (auto simp: evaluate_def returns_def Let_def split: option.splits sum.splits expression_error.splits expr_value.splits if_splits)

text \<open>
  C5: the evaluation of every expression ends with a value or an error: the recursive descent
  terminates and the \<open>expect\<close>s of \<open>min\<close> and \<open>max\<close> never panic.
\<close>

theorem evaluate_total: "evaluate F policy expression \<noteq> None"
  by (rule evaluate_returns)

text \<open>
  The same run where every call of a method outside the limits of offset, operations and open
  parentheses gives no result.
\<close>

primrec guarded_run ::
  "'f float_ops \<Rightarrow> zero_operator_policy \<Rightarrow> bytes \<Rightarrow> nat \<Rightarrow> 'f level \<Rightarrow> parser_state \<Rightarrow> 'f expr_value outcome" where
  "guarded_run F policy input 0 = (\<lambda>level st. None)"
| "guarded_run F policy input (Suc fuel) = (\<lambda>level st.
     if ps_offset st \<le> length input \<and> ps_operations st \<le> max_operations \<and> ps_parentheses st \<le> max_parentheses
     then step F policy input (guarded_run F policy input fuel) level st
     else None)"

lemma guarded_run_returns:
  fixes F :: "'f float_ops"
  shows "rec_ok input (guarded_run F policy input fuel) fuel"
proof (induction fuel)
  case 0
  show ?case by (simp add: rec_ok_def)
next
  case (Suc fuel)
  show ?case
    unfolding rec_ok_def
  proof (intro allI impI)
    fix level :: "'f level" and st assume a: "ps_ok input st \<and> ready level st \<and> budget input level st < Suc fuel"
    then have "rec_ok input (guarded_run F policy input fuel) (budget input level st)"
      using Suc unfolding rec_ok_def by (meson less_Suc_eq_le less_le_trans)
    then have "returns input (\<lambda>_. within input (outside level st))
        (step F policy input (guarded_run F policy input fuel) level st)"
      using a by (intro step_returns) simp_all
    then show "returns input (\<lambda>_. within input (outside level st)) (guarded_run F policy input (Suc fuel) level st)"
      using a by (simp add: ps_ok_def)
  qed
qed

lemma guarded_run_below: "below (guarded_run F policy input n level st) (run F policy input n level st)"
proof (induction n arbitrary: level st)
  case 0
  show ?case by (simp add: below_def)
next
  case (Suc n)
  have "below (step F policy input (guarded_run F policy input n) level st)
      (step F policy input (run F policy input n) level st)"
    by (rule below_step [OF Suc.IH])
  then show ?case by (simp add: below_def del: step.simps)
qed

lemma guarded_run_same:
  fixes F :: "'a float_ops"
  shows "guarded_run F policy input (10 * (length input + 1)) ParseOr start_state =
   run F policy input (10 * (length input + 1)) ParseOr start_state"
proof -
  let ?level = "ParseOr :: 'a level"
  have "ps_ok input start_state \<and> ready ?level start_state \<and> budget input ?level start_state < 10 * (length input + 1)"
    by (simp add: budget_def start_state_def ps_ok_def)
  then have "returns input (\<lambda>_. within input (outside ?level start_state))
      (guarded_run F policy input (10 * (length input + 1)) ?level start_state)"
    using guarded_run_returns [of input F policy "10 * (length input + 1)"] unfolding rec_ok_def by blast
  then have some: "guarded_run F policy input (10 * (length input + 1)) ?level start_state \<noteq> None"
    by (intro notI) (simp only: returns_def option.case)
  show ?thesis
    using guarded_run_below [of F policy input "10 * (length input + 1)" ?level start_state]
    unfolding below_def by (rule disjE) (erule notE [OF some], assumption)
qed

text \<open>
  C6: The parser stays within its resources.  At every call of a method the offset is in the input, at
  most \<open>MAX_OPERATIONS\<close> operations have been counted and at most \<open>MAX_PARENTHESES\<close> parentheses are open at
  that moment: the run in which a call outside these limits gives no result is the same run.  An
  operation or parenthesis beyond the limit ends the parse with an error, and a parse that succeeds has
  closed every parenthesis.
\<close>

theorem parse_stays_within_resources:
  "guarded_run F policy input (10 * (length input + 1)) ParseOr start_state =
     run F policy input (10 * (length input + 1)) ParseOr start_state \<and>
   (case run F policy input (10 * (length input + 1)) ParseOr start_state of
     None \<Rightarrow> False
   | Some (Inl e, st) \<Rightarrow> ps_offset st \<le> length input \<and> ps_operations st \<le> 513 \<and> ps_parentheses st \<le> 129
   | Some (Inr v, st) \<Rightarrow> ps_offset st \<le> length input \<and> ps_operations st \<le> 512 \<and> ps_parentheses st = 0)"
  using guarded_run_same [of F policy input] run_start_returns [of input F policy]
  by (auto simp: returns_def error_ok_def within_def ps_ok_def start_state_def max_operations_def
      max_parentheses_def split: option.splits sum.splits)

text \<open>
  The fuel of \<open>evaluate\<close> is no limit of its own: every larger amount gives the same result.
\<close>

theorem fuel_irrelevant:
  "run F policy input (10 * (length input + 1) + k) ParseOr start_state =
   run F policy input (10 * (length input + 1)) ParseOr start_state"
  using run_start_returns [of input F policy]
    run_below [of F policy input "10 * (length input + 1)" ParseOr start_state k]
  by (simp add: below_def returns_def split: option.splits)

text \<open>
  A number that \<open>evaluate\<close> returns is finite, whatever the operations computed on the way, so
  \<open>format_value\<close> never prints an infinity or a NaN.
\<close>

theorem evaluated_numbers_finite:
  "case evaluate F policy expression of Some (Inr (NumberV x)) \<Rightarrow> f_is_finite F x | _ \<Rightarrow> True"
  by (auto simp: evaluate_def Let_def split: option.splits sum.splits expression_error.splits expr_value.splits if_splits)

text \<open>
  Under the policy that replaces an operation by zero, no expression ends with the error of a
  division or of a remainder by zero.
\<close>

theorem replaced_zero_operations_never_fail:
  "evaluate F ReplaceOperationWithZero expression \<noteq> Some (Inl DivisionByZero) \<and>
   evaluate F ReplaceOperationWithZero expression \<noteq> Some (Inl RemainderByZero)"
  using run_replaced [of F expression "10 * (length expression + 1)" ParseOr start_state]
  by (auto simp: evaluate_def raises_def no_zero_errors_def Let_def
      split: option.splits sum.splits expression_error.splits expr_value.splits if_splits)

text \<open>
  The arm of \<open>abs\<close> without arguments is unreachable: no expression ends with the error that
  \<open>abs\<close> has too few arguments, since a call always parses a first one.
\<close>

theorem abs_arity_unreachable:
  "evaluate F policy expression \<noteq> Some (Inl (TooFewArguments ''abs'' n m))"
  using run_start_returns [of expression F policy]
  by (auto simp: evaluate_def returns_def error_ok_def Let_def
      split: option.splits sum.splits expression_error.splits expr_value.splits if_splits)

end
