(* ===== verification/Text_Ranges.thy ===== *)
theory Text_Ranges
  imports Prelude
begin

text \<open>
  Replacing ranges of a text, as the passes over the source do it: the code collects ranges from left
  to right and applies them from the last to the first with \<open>String::replace_range\<close>; this is the
  same as splicing the text once (\<open>splice_to\<close>), and it never cuts inside a character.
\<close>

subsection \<open>Cuts of valid text\<close>

lemma ascii_valid: "list_all is_ascii s \<Longrightarrow> valid_utf8 s"
  by (auto simp: valid_utf8_def chars_ascii list_all_iff is_ascii_def)

lemma slice_valid:
  assumes "valid_utf8 s" and "boundary s i" and "boundary s j" and "i \<le> j" and "j \<le> length s"
  shows "valid_utf8 (slice s i j)"
proof -
  have "valid_utf8 (take j s)" "valid_utf8 (take i s)"
    using boundary_split [OF assms(1)] assms(2-5) by auto
  moreover have "take j s = take i s @ slice s i j"
    using assms(4) by (simp add: slice_def flip: take_add)
  ultimately show ?thesis by (simp add: valid_utf8_append)
qed

lemma drop_valid: "valid_utf8 s \<Longrightarrow> boundary s i \<Longrightarrow> valid_utf8 (drop i s)"
  using boundary_split [of s i] by (cases "i \<le> length s") auto

lemma valid_ascii_append: "list_all is_ascii p \<Longrightarrow> valid_utf8 (p @ s) \<longleftrightarrow> valid_utf8 s"
  using valid_utf8_append [OF ascii_valid] .

lemma valid_append_ascii: "list_all is_ascii p \<Longrightarrow> valid_utf8 (s @ p) \<Longrightarrow> valid_utf8 s"
proof (cases p)
  case (Cons c cs)
  assume a: "list_all is_ascii p" "valid_utf8 (s @ p)"
  have "boundary (s @ p) (length s)"
    by (rule boundary_of_ascii) (use a(1) Cons in auto)
  with boundary_split [OF a(2), of "length s"] show ?thesis by simp
qed simp

lemma ascii_take: "list_all is_ascii s \<Longrightarrow> list_all is_ascii (take n s)"
  by (auto simp: list_all_iff dest: in_set_takeD)

lemma ascii_drop: "list_all is_ascii s \<Longrightarrow> list_all is_ascii (drop n s)"
  by (auto simp: list_all_iff dest: in_set_dropD)

lemma ascii_boundary: "list_all is_ascii s \<Longrightarrow> i \<le> length s \<Longrightarrow> boundary s i"
  by (cases "i = length s") (auto simp: list_all_length intro: boundary_of_ascii)

lemma trim_start_set_valid:
  assumes "\<And>c. c \<in> S \<Longrightarrow> is_ascii c" and "valid_utf8 s"
  shows "valid_utf8 (trim_start_set S s)"
proof -
  have "list_all is_ascii (takeWhile (\<lambda>c. c \<in> S) s)"
    using assms(1) by (auto simp: list_all_iff dest: set_takeWhileD)
  from valid_ascii_append [OF this, of "dropWhile (\<lambda>c. c \<in> S) s"] assms(2)
  show ?thesis by (simp add: trim_start_set_def)
qed

lemma trim_end_set_valid:
  assumes "\<And>c. c \<in> S \<Longrightarrow> is_ascii c" and "valid_utf8 s"
  shows "valid_utf8 (trim_end_set S s)"
proof -
  have "list_all is_ascii (rev (takeWhile (\<lambda>c. c \<in> S) (rev s)))"
    using assms(1) by (auto simp: list_all_iff dest: set_takeWhileD)
  moreover have "s = trim_end_set S s @ rev (takeWhile (\<lambda>c. c \<in> S) (rev s))"
    unfolding trim_end_set_def by (metis rev_append rev_rev_ident takeWhile_dropWhile_id)
  ultimately show ?thesis using valid_append_ascii assms(2) by metis
qed

subsection \<open>Lines\<close>

text \<open>\<open>split_inclusive\<close> at the line feeds.\<close>

fun split_inclusive :: "bytes \<Rightarrow> bytes list" where
  "split_inclusive [] = []"
| "split_inclusive (c # cs) =
     (if c = CHR 0x0A then [c] # split_inclusive cs
      else (case split_inclusive cs of
              [] \<Rightarrow> [[c]]
            | l # ls \<Rightarrow> (c # l) # ls))"

lemma concat_split_inclusive [simp]: "concat (split_inclusive s) = s"
  by (induction s) (auto split: list.split)

lemma split_inclusive_Cons:
  "split_inclusive t = l # ls \<Longrightarrow>
   t = l @ concat ls \<and> ls = split_inclusive (concat ls) \<and> l \<noteq> [] \<and> (ls = [] \<or> last l = CHR 0x0A)"
proof (induction t arbitrary: l ls)
  case (Cons c t)
  show ?case
  proof (cases "c = CHR 0x0A")
    case True
    with Cons.prems show ?thesis by auto
  next
    case nl: False
    show ?thesis
    proof (cases "split_inclusive t")
      case Nil
      with Cons.prems nl have "l = [c]" "ls = []" by auto
      with Nil concat_split_inclusive [of t] show ?thesis by simp
    next
      case (Cons m ms)
      with Cons.prems nl have l: "l = c # m" "ls = ms" by auto
      from Cons.IH [OF Cons] concat_split_inclusive [of t] Cons show ?thesis by (auto simp: l)
    qed
  qed
qed simp

subsection \<open>Ordered ranges\<close>

fun ordered_ranges :: "bytes \<Rightarrow> nat \<Rightarrow> ((nat \<times> nat) \<times> 'a) list \<Rightarrow> bool" where
  "ordered_ranges s pos [] \<longleftrightarrow> True"
| "ordered_ranges s pos (((i, e), x) # rs) \<longleftrightarrow>
     pos \<le> i \<and> i < e \<and> e \<le> length s \<and> boundary s i \<and> boundary s e \<and> ordered_ranges s e rs"

lemma ordered_ranges_weaken: "ordered_ranges s i ms \<Longrightarrow> j \<le> i \<Longrightarrow> ordered_ranges s j ms"
  by (cases ms) (auto simp: split_paired_all)

lemma ordered_ranges_fst: "map fst rs = map fst ms \<Longrightarrow> ordered_ranges s i rs \<longleftrightarrow> ordered_ranges s i ms"
proof (induction rs arbitrary: ms i)
  case (Cons r rs)
  then obtain a x y ms' where "r = (a, x)" "ms = (a, y) # ms'" "map fst rs = map fst ms'"
    by (cases ms; cases r) auto
  with Cons.IH show ?case by (cases a) simp
qed simp

lemma ordered_starts:
  "ordered_ranges s i ms \<Longrightarrow> sorted (map (\<lambda>m. fst (fst m)) ms) \<and> distinct (map (\<lambda>m. fst (fst m)) ms) \<and>
   (\<forall>m \<in> set ms. i \<le> fst (fst m))"
proof (induction s i ms rule: ordered_ranges.induct)
  case (2 s pos i e x rs)
  then have "sorted (map (\<lambda>m. fst (fst m)) rs)" "distinct (map (\<lambda>m. fst (fst m)) rs)" "\<forall>m \<in> set rs. e \<le> fst (fst m)"
    by simp_all
  with 2(2) show ?case by fastforce
qed simp

subsection \<open>Replacing ranges\<close>

text \<open>\<open>String::replace_range\<close> panics off character boundaries.\<close>

definition replace_range :: "bytes \<Rightarrow> nat \<Rightarrow> nat \<Rightarrow> bytes \<Rightarrow> bytes option" where
  "replace_range s i e v =
     (if i \<le> e \<and> e \<le> length s \<and> boundary s i \<and> boundary s e then Some (take i s @ v @ drop e s) else None)"

fun replace_all :: "((nat \<times> nat) \<times> bytes) list \<Rightarrow> bytes \<Rightarrow> bytes option" where
  "replace_all [] s = Some s"
| "replace_all (((i, e), v) # rs) s =
     (case replace_range s i e v of None \<Rightarrow> None | Some t \<Rightarrow> replace_all rs t)"

text \<open>The specification: the text up to \<open>k\<close> with the ranges replaced all at once.\<close>

fun splice_to :: "bytes \<Rightarrow> nat \<Rightarrow> nat \<Rightarrow> ((nat \<times> nat) \<times> bytes) list \<Rightarrow> bytes" where
  "splice_to s pos k [] = slice s pos k"
| "splice_to s pos k (((i, e), v) # rs) = slice s pos i @ v @ splice_to s e k rs"

definition ranges_below :: "nat \<Rightarrow> ((nat \<times> nat) \<times> 'a) list \<Rightarrow> bool" where
  "ranges_below k rs \<longleftrightarrow> list_all (\<lambda>r. snd (fst r) \<le> k) rs"

lemma ordered_ranges_snoc:
  "ordered_ranges s pos (rs @ [((i, e), x)]) \<longleftrightarrow>
   ordered_ranges s pos rs \<and> ranges_below i rs \<and> pos \<le> i \<and> i < e \<and> e \<le> length s \<and> boundary s i \<and> boundary s e"
proof (induction rs arbitrary: pos)
  case (Cons r rs)
  obtain i' e' x' where r: "r = ((i', e'), x')" by (metis prod.exhaust)
  show ?case by (auto simp: r Cons ranges_below_def)
qed (auto simp: ranges_below_def)

lemma splice_to_snoc: "splice_to s pos k (rs @ [((i, e), v)]) = splice_to s pos i rs @ v @ slice s e k"
  by (induction s pos i rs rule: splice_to.induct) auto

text \<open>A text that does not begin inside a character.\<close>

definition head_ok :: "bytes \<Rightarrow> bool" where
  "head_ok t \<longleftrightarrow> t = [] \<or> \<not> is_cont (hd t)"

lemma valid_head_ok: "valid_utf8 t \<Longrightarrow> head_ok t"
  using valid_utf8_hd by (auto simp: head_ok_def)

lemma ascii_head_ok: "list_all is_ascii t \<Longrightarrow> head_ok t"
  by (simp add: ascii_valid valid_head_ok)

lemma head_ok_append: "head_ok s \<Longrightarrow> head_ok t \<Longrightarrow> head_ok (s @ t)"
  by (cases s) (simp_all add: head_ok_def)

lemma head_ok_take: "head_ok t \<Longrightarrow> head_ok (take n t)"
  by (cases t; cases n) (simp_all add: head_ok_def)

lemma head_ok_slice: "valid_utf8 s \<Longrightarrow> boundary s i \<Longrightarrow> head_ok (slice s i j)"
  unfolding slice_def by (intro head_ok_take valid_head_ok drop_valid)

lemma boundary_before:
  assumes "boundary s i" and "i \<le> k" and "k \<le> length s" and "head_ok t" and "boundary s k"
  shows "boundary (take k s @ t) i"
proof (cases "i < k")
  case True
  with assms(1,3) show ?thesis by (auto simp: boundary_def nth_append)
next
  case False
  then have "i = k" using assms(2) by simp
  then show ?thesis using assms(3,4) by (cases t) (auto simp: boundary_def nth_append head_ok_def)
qed

lemma replace_range_step:
  assumes "i < e" and "e \<le> k" and "k \<le> length s"
    and "boundary s i" and "boundary s e" and "boundary s k" and "head_ok t"
  shows "replace_range (take k s @ t) i e v = Some (take i s @ (v @ slice s e k @ t))"
proof -
  have "boundary (take k s @ t) i" "boundary (take k s @ t) e"
    using assms by (auto intro!: boundary_before)
  then show ?thesis using assms(1-3) by (simp add: replace_range_def slice_def drop_take min_def)
qed

lemma replace_all_splice:
  "ordered_ranges s 0 rs \<Longrightarrow> ranges_below k rs \<Longrightarrow> k \<le> length s \<Longrightarrow> boundary s k \<Longrightarrow> valid_utf8 s \<Longrightarrow>
   head_ok t \<Longrightarrow> list_all (\<lambda>r. head_ok (snd r)) rs \<Longrightarrow>
   replace_all (rev rs) (take k s @ t) = Some (splice_to s 0 k rs @ t)"
proof (induction rs arbitrary: k t rule: rev_induct)
  case (snoc r rs)
  obtain i e v where r: "r = ((i, e), v)" by (metis prod.exhaust)
  from snoc.prems(1) have o: "ordered_ranges s 0 rs" "ranges_below i rs" "i < e" "e \<le> length s" "boundary s i" "boundary s e"
    by (auto simp: r ordered_ranges_snoc)
  have ek: "e \<le> k" and v: "head_ok v" and vs: "list_all (\<lambda>r. head_ok (snd r)) rs"
    using snoc.prems(2,7) by (auto simp: r ranges_below_def)
  have t: "head_ok (v @ slice s e k @ t)"
    using v snoc.prems(6) by (intro head_ok_append head_ok_slice snoc.prems(5) o(6))
  have "replace_range (take k s @ t) i e v = Some (take i s @ (v @ slice s e k @ t))"
    by (rule replace_range_step) (use snoc.prems o ek in auto)
  with snoc.IH [OF o(1,2) _ o(5) snoc.prems(5) t vs] o ek show ?case
    by (simp add: r splice_to_snoc)
qed (simp add: slice_def)

lemma splice_shift:
  "ordered_ranges s e rs \<Longrightarrow> i \<le> e \<Longrightarrow> e \<le> k \<Longrightarrow> ranges_below k rs \<Longrightarrow>
   splice_to s i k rs = slice s i e @ splice_to s e k rs"
  by (cases rs) (auto simp: slice_append)

lemma ranges_below_length: "ordered_ranges s i rs \<Longrightarrow> ranges_below (length s) rs"
  by (induction s i rs rule: ordered_ranges.induct) (auto simp: ranges_below_def)

lemma replace_all_splices:
  assumes "ordered_ranges s 0 rs" and "valid_utf8 s" and "list_all (\<lambda>r. head_ok (snd r)) rs"
  shows "replace_all (rev rs) s = Some (splice_to s 0 (length s) rs)"
  using replace_all_splice [OF assms(1) ranges_below_length [OF assms(1)] order_refl boundary_length assms(2) _ assms(3), of "[]"]
  by (simp add: head_ok_def)

lemma splice_to_valid:
  "ordered_ranges s pos rs \<Longrightarrow> ranges_below k rs \<Longrightarrow> pos \<le> k \<Longrightarrow> k \<le> length s \<Longrightarrow> boundary s pos \<Longrightarrow>
   boundary s k \<Longrightarrow> valid_utf8 s \<Longrightarrow> list_all (\<lambda>r. valid_utf8 (snd r)) rs \<Longrightarrow> valid_utf8 (splice_to s pos k rs)"
proof (induction s pos k rs rule: splice_to.induct)
  case (2 s pos k i e v rs)
  have "valid_utf8 (slice s pos i)" by (rule slice_valid) (use 2 in auto)
  moreover have "valid_utf8 (splice_to s e k rs)" by (rule 2(1)) (use 2 in \<open>auto simp: ranges_below_def\<close>)
  ultimately show ?case using 2 by (simp add: valid_utf8_append)
qed (simp add: slice_valid)

end
