(* ===== verification/Page_Ref.thy ===== *)
theory Page_Ref
  imports Text_Ranges
begin

text \<open>
  \<open>src/src/data/page_ref.rs\<close>: references to pages, as links and includes name them.  The slug
  normalization is the crate \<open>wikidot_normalize\<close>, a parameter \<open>slug\<close> here.  Slicing a string
  off a character boundary panics, which is \<open>None\<close>.
\<close>

subsection \<open>Text without surrounding space\<close>

definition trimmed :: "bytes \<Rightarrow> bool" where
  "trimmed s \<longleftrightarrow> s \<noteq> [] \<and> valid_utf8 s \<and> \<not> is_whitespace (hd (chars s)) \<and> \<not> is_whitespace (last (chars s))"

lemma chars_Nil_iff [simp]: "chars s = [] \<longleftrightarrow> s = []"
  by (cases s) auto

lemma trim_start_id: "\<not> is_whitespace (hd (chars s)) \<Longrightarrow> trim_start s = s"
  unfolding trim_start_def using concat_chars [of s] by (cases "chars s") auto

lemma trim_end_id: "\<not> is_whitespace (last (chars s)) \<Longrightarrow> trim_end s = s"
  unfolding trim_end_def using concat_chars [of s]
  by (cases "chars s" rule: rev_cases) auto

lemma trim_trimmed [simp]: "trimmed s \<Longrightarrow> trim s = s"
  by (simp add: trimmed_def trim_def trim_start_id trim_end_id)

lemma trimmed_append:
  assumes "trimmed s" and "trimmed t" and "valid_utf8 m"
  shows "trimmed (s @ m @ t)"
proof -
  from assms have c: "chars (s @ m @ t) = chars s @ chars m @ chars t"
    by (simp add: trimmed_def chars_append)
  have "valid_utf8 (s @ m @ t)" using assms by (simp add: trimmed_def valid_utf8_append)
  with assms(1,2) show ?thesis by (simp add: trimmed_def c)
qed

lemma space_ascii: "is_whitespace [c] \<longleftrightarrow> c \<in> {CHR 0x09, CHR 0x0A, CHR 0x0B, CHR 0x0C, CHR 0x0D, CHR 0x20}"
  by (auto simp: is_whitespace_def)

lemma trimmed_ascii:
  "s \<noteq> [] \<Longrightarrow> list_all is_ascii s \<Longrightarrow> \<not> is_whitespace [hd s] \<Longrightarrow> \<not> is_whitespace [last s] \<Longrightarrow> trimmed s"
  by (simp add: trimmed_def ascii_valid chars_ascii hd_map last_map)

subsection \<open>Page references\<close>

record page_ref =
  pr_site :: "bytes option"
  pr_page :: bytes
  pr_extra :: "bytes option"

datatype page_ref_parse_error = PageRefParseError

definition find_char :: "(char \<Rightarrow> bool) \<Rightarrow> bytes \<Rightarrow> nat option" where
  "find_char p s = (let i = length (takeWhile (\<lambda>c. \<not> p c) s) in if i < length s then Some i else None)"

definition canonical_include_site :: "bytes \<Rightarrow> bytes option" where
  "canonical_include_site raw =
     (let trimmed = trim raw;
          trimmed = (case strip_suffix ''.'' trimmed of Some t \<Rightarrow> t | None \<Rightarrow> trimmed);
          suffix_length = length ''.wikidot.com''
      in if length trimmed < suffix_length then Some raw
         else let i = length trimmed - suffix_length in
           if \<not> boundary trimmed i then None
           else let prefix = take i trimmed; suffix = drop i trimmed in
             if \<not> eq_ignore_ascii_case suffix ''.wikidot.com'' then Some raw
             else if prefix = [] \<or> \<not> list_all (\<lambda>b. is_alnum b \<or> b = CHR ''-'') prefix then Some raw
             else Some prefix)"

definition split_page :: "bytes \<Rightarrow> bytes \<times> bytes option" where
  "split_page page =
     (case find_char (\<lambda>c. c = CHR ''#'' \<or> c = CHR ''/'') page of
        None \<Rightarrow> (page, None)
      | Some i \<Rightarrow> (take i page, Some (drop i page)))"

definition page_and_site :: "(bytes \<Rightarrow> bytes) \<Rightarrow> bytes \<Rightarrow> bytes \<Rightarrow> page_ref" where
  "page_and_site slug site page =
     (case split_page page of (page, extra) \<Rightarrow>
        \<lparr>pr_site = Some (slug site), pr_page = slug page, pr_extra = extra\<rparr>)"

definition page_only :: "(bytes \<Rightarrow> bytes) \<Rightarrow> bytes \<Rightarrow> page_ref" where
  "page_only slug page =
     (case split_page page of (page, extra) \<Rightarrow>
        \<lparr>pr_site = None, pr_page = slug page, pr_extra = extra\<rparr>)"

definition page_ref_new :: "(bytes \<Rightarrow> bytes) \<Rightarrow> bytes option \<Rightarrow> bytes \<Rightarrow> page_ref" where
  "page_ref_new slug site page =
     (case site of Some site \<Rightarrow> page_and_site slug site page | None \<Rightarrow> page_only slug page)"

definition page_ref_fields :: "page_ref \<Rightarrow> bytes option \<times> bytes \<times> bytes option" where
  "page_ref_fields r = (pr_site r, pr_page r, pr_extra r)"

definition fields_or :: "page_ref \<Rightarrow> bytes \<Rightarrow> bytes \<times> bytes \<times> bytes" where
  "fields_or r current_site =
     ((case pr_site r of Some s \<Rightarrow> s | None \<Rightarrow> current_site), pr_page r,
      (case pr_extra r of Some e \<Rightarrow> e | None \<Rightarrow> []))"

text \<open>
  \<open>parse\<close> and \<open>parse_include\<close> have the same text but for the treatment of the site: \<open>site_of\<close>.
\<close>

definition parse_with ::
  "(bytes \<Rightarrow> bytes option) \<Rightarrow> (bytes \<Rightarrow> bytes) \<Rightarrow> bytes \<Rightarrow> (page_ref_parse_error + page_ref) option" where
  "parse_with site_of slug s =
     (let s = trim s;
          checked = (\<lambda>r. if pr_page r = [] then Inl PageRefParseError else Inr r)
      in if s = [] then Some (Inl PageRefParseError)
         else if find_char (\<lambda>c. c = CHR '':'') s = Some 0 then
           (case find_char (\<lambda>c. c = CHR '':'') (tl s) of
              None \<Rightarrow> Some (Inl PageRefParseError)
            | Some i \<Rightarrow>
                if i = 0 then Some (Inl PageRefParseError)
                else let idx = i + 1; site = trim (slice s 1 idx); page = trim (drop (idx + 1) s) in
                  map_option (\<lambda>site. checked (page_and_site slug site page)) (site_of site))
         else Some (checked (page_only slug s)))"

definition page_ref_parse :: "(bytes \<Rightarrow> bytes) \<Rightarrow> bytes \<Rightarrow> page_ref_parse_error + page_ref" where
  "page_ref_parse slug s = the (parse_with Some slug s)"

definition parse_include :: "(bytes \<Rightarrow> bytes) \<Rightarrow> bytes \<Rightarrow> (page_ref_parse_error + page_ref) option" where
  "parse_include slug s = parse_with canonical_include_site slug s"

definition page_ref_display :: "page_ref \<Rightarrow> bytes" where
  "page_ref_display r =
     (case pr_site r of Some site \<Rightarrow> '':'' @ site @ '':'' | None \<Rightarrow> []) @ pr_page r"

subsection \<open>Off-site references\<close>

lemma find_char_simps [simp]:
  "find_char p [] = None"
  "find_char p (c # s) = (if p c then Some 0 else map_option Suc (find_char p s))"
  by (simp_all add: find_char_def Let_def)

lemma find_char_append: "list_all (\<lambda>c. \<not> p c) x \<Longrightarrow> p c \<Longrightarrow> find_char p (x @ c # y) = Some (length x)"
  by (induction x) simp_all

lemma find_char_None: "find_char p s = None \<longleftrightarrow> list_all (\<lambda>c. \<not> p c) s"
  by (induction s) simp_all

lemma split_page_None: "list_all (\<lambda>c. c \<noteq> CHR ''#'' \<and> c \<noteq> CHR ''/'') page \<Longrightarrow> split_page page = (page, None)"
  using find_char_None [of "\<lambda>c. c = CHR ''#'' \<or> c = CHR ''/''" page] by (simp add: split_page_def)

lemma parse_off_site:
  assumes "trimmed site" and "CHR '':'' \<notin> set site" and "trimmed page"
  shows "parse_with site_of slug (CHR '':'' # site @ CHR '':'' # page) =
         map_option (\<lambda>site. let r = page_and_site slug site page in
             if pr_page r = [] then Inl PageRefParseError else Inr r) (site_of site)"
proof -
  let ?s = "CHR '':'' # site @ CHR '':'' # page"
  have colon: "trimmed '':''" by (rule trimmed_ascii) (simp_all add: is_ascii_def space_ascii)
  have "valid_utf8 (site @ '':'')"
    using assms(1) colon by (simp add: trimmed_def valid_utf8_append)
  with trimmed_append [OF colon assms(3), of "site @ '':''"] have t: "trim ?s = ?s" by simp
  have f: "find_char (\<lambda>c. c = CHR '':'') (site @ CHR '':'' # page) = Some (length site)"
    using assms(2) by (intro find_char_append) (auto simp: list_all_iff)
  have f0: "find_char (\<lambda>c. c = CHR '':'') ?s = Some 0"
    using find_char_append [of "\<lambda>c. c = CHR '':''" "[]"] by simp
  have site: "slice ?s 1 (length site + 1) = site" by (simp add: slice_def)
  have "drop (length site + 1) (site @ CHR '':'' # page) = page"
    using drop_append [of "length site + 1" site] by simp
  then have page: "drop (length site + 1 + 1) ?s = page" by simp
  have "site \<noteq> []" using assms(1) by (simp add: trimmed_def)
  then show ?thesis
    unfolding parse_with_def t Let_def f0 list.sel f option.case site page
      trim_trimmed [OF assms(1)] trim_trimmed [OF assms(3)] by simp
qed

subsection \<open>Host forms\<close>

lemma name_byte_ascii: "is_alnum b \<or> b = CHR ''-'' \<Longrightarrow> is_ascii b \<and> \<not> is_whitespace [b] \<and> b \<noteq> CHR ''.'' \<and> b \<noteq> CHR '':''"
  by (auto simp: ascii_defs space_ascii)

lemma to_lower_alpha: "to_lower c = d \<Longrightarrow> is_lower d \<Longrightarrow> is_alpha c"
  by (auto simp: to_lower_def is_alpha_def split: if_splits)

lemma to_lower_dot: "to_lower c = CHR ''.'' \<Longrightarrow> c = CHR ''.''"
  using byte_to_lower [of c] by (auto simp: to_lower_def is_upper_def split: if_splits)

definition host_form :: "bytes \<Rightarrow> bytes \<Rightarrow> bytes \<Rightarrow> bool" where
  "host_form name host dot \<longleftrightarrow>
     name \<noteq> [] \<and> list_all (\<lambda>b. is_alnum b \<or> b = CHR ''-'') name \<and>
     eq_ignore_ascii_case host ''.wikidot.com'' \<and> (dot = [] \<or> dot = ''.'')"

lemma host_bytes:
  assumes "eq_ignore_ascii_case host ''.wikidot.com''"
  obtains h m where "host = h @ [m]" and "is_alpha m" and "length host = 12"
    and "list_all (\<lambda>c. is_alpha c \<or> c = CHR ''.'') host"
proof -
  have m: "map to_lower host = map to_lower ''.wikidot.com''"
    using assms by (simp add: eq_ignore_ascii_case_def to_ascii_lowercase_def)
  have low: "map to_lower ''.wikidot.com'' = ''.wikidot.com''"
    by (simp add: to_lower_def is_upper_def)
  have len: "length host = 12" using arg_cong [OF m, of length] by simp
  then obtain h m' where h: "host = h @ [m']" by (cases host rule: rev_cases) auto
  have "to_lower m' = CHR ''m''"
    using arg_cong [OF m, of last] h low by simp
  then have "is_alpha m'" by (rule to_lower_alpha) (simp add: is_lower_def)
  moreover have "is_alpha c \<or> c = CHR ''.''" if "c \<in> set host" for c
  proof -
    have "to_lower c \<in> set ''.wikidot.com''"
      using that m low by (metis image_eqI list.set_map)
    then consider "to_lower c = CHR ''.''" | "is_lower (to_lower c)"
      by (auto simp: is_lower_def)
    then show ?thesis using to_lower_alpha to_lower_dot by cases blast+
  qed
  ultimately show thesis using that h len by (simp add: list_all_iff)
qed

lemma host_form_site:
  assumes "host_form name host dot"
  shows "trimmed (name @ host @ dot)" and "CHR '':'' \<notin> set (name @ host @ dot)"
    and "canonical_include_site (name @ host @ dot) = Some name"
proof -
  from assms have n: "name \<noteq> []" "list_all (\<lambda>b. is_alnum b \<or> b = CHR ''-'') name"
    and hf: "eq_ignore_ascii_case host ''.wikidot.com''" and d: "dot = [] \<or> dot = ''.''"
    by (auto simp: host_form_def)
  obtain h m where h: "host = h @ [m]" "is_alpha m" "length host = 12"
    and hall: "list_all (\<lambda>c. is_alpha c \<or> c = CHR ''.'') host"
    using hf by (rule host_bytes)
  let ?s = "name @ host @ dot"
  have alpha: "is_ascii c \<and> \<not> is_whitespace [c] \<and> c \<noteq> CHR ''.'' \<and> c \<noteq> CHR '':''" if "is_alpha c" for c
    using that name_byte_ascii [of c] by (simp add: is_alnum_def)
  have good: "is_ascii c \<and> \<not> is_whitespace [c] \<and> c \<noteq> CHR '':''" if "c \<in> set ?s" for c
  proof -
    from that n(2) hall d consider "is_alnum c \<or> c = CHR ''-''" | "is_alpha c" | "c = CHR ''.''"
      by (auto simp: list_all_iff)
    then show ?thesis
      using name_byte_ascii [of c] alpha [of c] by cases (auto simp: is_ascii_def space_ascii)
  qed
  then show t: "trimmed ?s"
  proof (intro trimmed_ascii)
    show ne: "?s \<noteq> []" using n(1) by simp
    show "list_all is_ascii ?s" unfolding list_all_iff using good by blast
    show "\<not> is_whitespace [hd ?s]" "\<not> is_whitespace [last ?s]"
      using good hd_in_set [OF ne] last_in_set [OF ne] by blast+
  qed
  show "CHR '':'' \<notin> set ?s" using good by blast
  have e: "ends_with (name @ host) ''.'' = False"
    using alpha [OF h(2)] h(1) by (simp add: ends_with_def)
  have "ends_with (name @ host @ ''.'') ''.''" by (simp add: ends_with_def)
  with e d have strip: "(case strip_suffix ''.'' ?s of Some t \<Rightarrow> t | None \<Rightarrow> ?s) = name @ host"
    by (auto simp: strip_suffix_def)
  have b: "boundary (name @ host) (length name)"
    using good h by (intro boundary_of_ascii) (auto simp: nth_append)
  show "canonical_include_site ?s = Some name"
    unfolding canonical_include_site_def Let_def trim_trimmed [OF t] strip
    using h(3) b hf n by simp
qed

text \<open>
  An include of the host form of a site, \<open>slug.wikidot.com\<close> in any case and with or without a
  final point, is an include of the site \<open>slug\<close>.
\<close>

theorem include_host_form:
  assumes "host_form name host dot" and "trimmed page"
  shows "parse_include slug (CHR '':'' # (name @ host @ dot) @ CHR '':'' # page) =
         Some (page_ref_parse slug (CHR '':'' # name @ CHR '':'' # page))"
proof -
  note s = host_form_site [OF assms(1)]
  from assms(1) have n: "name \<noteq> []" and nb: "\<And>c. c \<in> set name \<Longrightarrow> is_ascii c \<and> \<not> is_whitespace [c] \<and> c \<noteq> CHR '':''"
    using name_byte_ascii by (auto simp: host_form_def list_all_iff)
  have t: "trimmed name"
    using n nb by (intro trimmed_ascii) (auto simp: list_all_iff)
  have c: "CHR '':'' \<notin> set name" using nb by blast
  show ?thesis
    unfolding parse_include_def page_ref_parse_def parse_off_site [OF s(1,2) assms(2)]
      parse_off_site [OF t c assms(2)] s(3)
    by simp
qed

theorem include_host_form_witness:
  "parse_include (\<lambda>s. s) '':scp-jp.WikiDot.com.:component:box'' =
     Some (page_ref_parse (\<lambda>s. s) '':scp-jp:component:box'')"
proof -
  have "host_form ''scp-jp'' ''.WikiDot.com'' ''.''"
    unfolding host_form_def by code_simp
  moreover have "trimmed ''component:box''"
    by (rule trimmed_ascii) (simp_all add: is_ascii_def space_ascii)
  ultimately show ?thesis using include_host_form [of "''scp-jp''" "''.WikiDot.com''" "''.''" "''component:box''"] by simp
qed

lemma site_panics:
  assumes "utf8_char ch" and "1 < length ch" and "\<not> is_whitespace ch"
    and "length w = 11" and "list_all is_alnum w" and "trimmed page"
  shows "parse_include slug (CHR '':'' # (ch @ w) @ CHR '':'' # page) = None"
proof -
  from assms(1,2) obtain c d cs where ch: "ch = c # d # cs"
    by (cases ch; cases "tl ch") auto
  have cont: "is_cont x" if "x \<in> set (d # cs)" for x
    using utf8_char_tail [of c "d # cs"] assms(1) that by (simp add: ch)
  have high: "\<not> is_ascii x" if "x \<in> set (d # cs)" for x
    using cont [OF that] by (simp add: is_cont_def is_ascii_def)
  have "\<not> is_ascii c"
    using utf8_char_width [of c "d # cs"] assms(1)
    by (simp add: ch utf8_width_def is_ascii_def split: if_splits)
  moreover have "is_ascii (CHR '':'')" by (simp add: is_ascii_def)
  ultimately have no_colon: "CHR '':'' \<notin> set ch" using high [of "CHR '':''"] by (auto simp: ch)
  have w: "w \<noteq> []" "list_all is_ascii w" "valid_utf8 w"
    using assms(4,5) is_alnum_ascii by (auto simp: list_all_iff intro: ascii_valid)
  have wl: "is_alnum (last w)" using assms(5) last_in_set [OF w(1)] by (simp add: list_all_iff)
  have t: "trimmed (ch @ w)"
    using assms(1,3) w(3) wl name_byte_ascii [of "last w"] w(1)
    by (simp add: trimmed_def valid_append_char chars_append_char chars_ascii [OF w(2)] last_map)
  have nc: "CHR '':'' \<notin> set (ch @ w)"
    using no_colon assms(5) name_byte_ascii by (auto simp: list_all_iff)
  have e: "\<not> ends_with (ch @ w) ''.''"
    using wl name_byte_ascii [of "last w"] w(1)
    by (cases w rule: rev_cases) (auto simp: ends_with_def)
  let ?i = "length (ch @ w) - length ''.wikidot.com''"
  have i: "?i = length cs + 1" using assms(4) by (simp add: ch)
  have "is_cont ((ch @ w) ! ?i)"
  proof -
    have "(ch @ w) ! ?i = (d # cs) ! length cs" unfolding i by (simp add: ch nth_append nth_Cons')
    also have "\<dots> \<in> set (d # cs)" by (rule nth_mem) simp
    finally show ?thesis by (rule cont)
  qed
  then have "\<not> boundary (ch @ w) ?i"
    using i assms(4) by (auto simp: boundary_def)
  then have "canonical_include_site (ch @ w) = None"
    unfolding canonical_include_site_def Let_def trim_trimmed [OF t] strip_suffix_def
    using e assms(4) by (simp add: ch)
  then show ?thesis
    unfolding parse_include_def parse_off_site [OF t nc assms(6)] by simp
qed

text \<open>
  C10: an include whose site is a character outside ASCII followed by eleven letters or digits
  panics: the host suffix is split off twelve bytes before the end, in the middle of that character.
\<close>

theorem include_site_panics:
  assumes "utf8_char ch" and "1 < length ch" and "\<not> is_whitespace ch"
    and "length w = 11" and "list_all is_alnum w" and "trimmed page"
  shows "parse_include slug (CHR '':'' # (ch @ w) @ CHR '':'' # page) = None"
  using assms by (rule site_panics)

theorem include_site_panics_witness:
  "parse_include (\<lambda>s. s) (CHR '':'' # ([CHR 0xC3, CHR 0xA9] @ ''aaaaaaaaaaa'') @ CHR '':'' # ''page'') = None"
proof (rule include_site_panics)
  show "\<not> is_whitespace [CHR 0xC3, CHR 0xA9]" by (simp add: is_whitespace_def)
  show "trimmed ''page''" by (rule trimmed_ascii) (simp_all add: is_ascii_def space_ascii)
qed (simp_all add: is_cont_def ascii_defs)

definition normal_ref :: "(bytes \<Rightarrow> bytes) \<Rightarrow> page_ref \<Rightarrow> bool" where
  "normal_ref slug r \<longleftrightarrow>
     slug (pr_page r) = pr_page r \<and> trimmed (pr_page r) \<and>
     list_all (\<lambda>c. c \<noteq> CHR ''#'' \<and> c \<noteq> CHR ''/'') (pr_page r) \<and>
     (case pr_site r of
        Some site \<Rightarrow> slug site = site \<and> trimmed site \<and> CHR '':'' \<notin> set site
      | None \<Rightarrow> hd (pr_page r) \<noteq> CHR '':'')"

text \<open>
  A reference reads back from its display, given that the slug normalization leaves
  normalized names alone; only the extra part, which the display omits, is lost.
\<close>

theorem page_ref_display_parse:
  assumes "normal_ref slug r"
  shows "page_ref_parse slug (page_ref_display r) = Inr (r\<lparr>pr_extra := None\<rparr>)"
proof (cases "pr_site r")
  case None
  from assms None have r: "slug (pr_page r) = pr_page r" "trimmed (pr_page r)" "hd (pr_page r) \<noteq> CHR '':''"
    and sp: "split_page (pr_page r) = (pr_page r, None)"
    by (auto simp: normal_ref_def intro: split_page_None)
  from r(2) obtain c cs where p: "pr_page r = c # cs" by (cases "pr_page r") (auto simp: trimmed_def)
  with r(3) have "find_char (\<lambda>c. c = CHR '':'') (pr_page r) \<noteq> Some 0" by auto
  then show ?thesis
    using None r sp p by (simp add: page_ref_parse_def parse_with_def page_ref_display_def Let_def page_only_def)
next
  case (Some site)
  from assms Some have r: "slug (pr_page r) = pr_page r" "trimmed (pr_page r)" "slug site = site"
      "trimmed site" "CHR '':'' \<notin> set site"
    and sp: "split_page (pr_page r) = (pr_page r, None)"
    by (auto simp: normal_ref_def intro: split_page_None)
  have "page_ref_display r = CHR '':'' # site @ CHR '':'' # pr_page r"
    by (simp add: page_ref_display_def Some)
  moreover have "pr_page r \<noteq> []" using r(2) by (simp add: trimmed_def)
  ultimately show ?thesis
    using r sp Some
    by (simp add: page_ref_parse_def parse_off_site [OF r(4,5,2)] page_and_site_def)
qed

theorem page_ref_display_parse_witness:
  "page_ref_parse to_ascii_lowercase '':scp-jp:component:box'' =
     Inr \<lparr>pr_site = Some ''scp-jp'', pr_page = ''component:box'', pr_extra = None\<rparr>"
proof -
  let ?r = "\<lparr>pr_site = Some ''scp-jp'', pr_page = ''component:box'', pr_extra = Some ''/edit''\<rparr>"
  have t: "trimmed ''scp-jp''" "trimmed ''component:box''"
    by (rule trimmed_ascii; simp add: is_ascii_def space_ascii)+
  have "to_ascii_lowercase ''scp-jp'' = ''scp-jp''" "to_ascii_lowercase ''component:box'' = ''component:box''"
    by (simp_all add: to_ascii_lowercase_def to_lower_def is_upper_def)
  with t have "normal_ref to_ascii_lowercase ?r" by (simp add: normal_ref_def)
  from page_ref_display_parse [OF this] show ?thesis by (simp add: page_ref_display_def)
qed

end
