(* ===== verification/Include_Parse.thy ===== *)
theory Include_Parse
  imports Page_Ref
begin

text \<open>
  \<open>src/src/includes/parse.rs\<close>, \<open>include_ref.rs\<close> and the grammar \<open>grammar.pest\<close>: one include block and
  its arguments.  The rules of the grammar are written out as functions from an offset to the
  offset after the match; an ordered choice takes its first alternative that matches and a
  repetition never gives back what it has taken, as in every parsing expression grammar.
  Hash maps are association lists without duplicate keys.
\<close>

subsection \<open>The grammar\<close>

definition grammar_space :: "char \<Rightarrow> bool" where
  "grammar_space c \<longleftrightarrow> c = CHR '' '' \<or> c = CHR 0x0A \<or> c = CHR 0x09"

definition peg_whitespace :: "bytes \<Rightarrow> nat \<Rightarrow> nat option" where
  "peg_whitespace s i = (let e = scan_while grammar_space s i in if e = i then None else Some e)"

definition peg_comment :: "bytes \<Rightarrow> nat \<Rightarrow> nat option" where
  "peg_comment s i =
     (if has s i ''[!--'' then map_option (\<lambda>k. i + 4 + k + 3) (find_sub ''--]'' (drop (i + 4) s)) else None)"

lemma peg_comment_bounds: "peg_comment s i = Some e \<Longrightarrow> i + 7 \<le> e \<and> e \<le> length s"
  by (auto simp: peg_comment_def has_def dest: find_sub_Some split: if_splits)

function peg_space :: "bytes \<Rightarrow> nat \<Rightarrow> nat" where
  "peg_space s i =
     (if i < length s \<and> grammar_space (s ! i) then peg_space s (i + 1)
      else (case peg_comment s i of Some e \<Rightarrow> peg_space s e | None \<Rightarrow> i))"
  by pat_completeness auto
termination
  by (relation "measure (\<lambda>(s, i). length s - i)") (auto dest: peg_comment_bounds)

declare peg_space.simps [simp del]

definition peg_stray_open_brackets :: "bytes \<Rightarrow> nat \<Rightarrow> nat" where
  "peg_stray_open_brackets s i =
     (if has s i ''[!--'' then i
      else let j = scan_while (\<lambda>c. c = CHR ''['') s i in if j = i then i else peg_space s j)"

definition name_stop :: "char \<Rightarrow> bool" where
  "name_stop c \<longleftrightarrow> c \<in> {CHR '' '', CHR 0x0A, CHR 0x09, CHR ''['', CHR ''|'', CHR '']'', CHR 0x22, CHR 0x27}"

definition peg_page_ref :: "bytes \<Rightarrow> nat \<Rightarrow> nat option" where
  "peg_page_ref s i =
     (let e = scan_while (\<lambda>c. \<not> name_stop c \<and> c \<noteq> CHR '':'') s (i + 1);
          j = (if get s i = Some (CHR '':'') \<and> e \<noteq> i + 1 \<and> get s e = Some (CHR '':'') then e + 1 else i);
          k = scan_while (\<lambda>c. \<not> name_stop c) s j
      in if k = j then None else Some k)"

definition peg_include_end :: "bytes \<Rightarrow> nat \<Rightarrow> bool" where
  "peg_include_end s i \<longleftrightarrow>
     has s i '']]'' \<and>
     (i + 2 = length s \<or> get s (i + 2) = Some (CHR 0x0A) \<or> get s (i + 2) = Some (CHR 0x0D))"

function peg_argument_tail :: "bytes \<Rightarrow> nat \<Rightarrow> nat" where
  "peg_argument_tail s i =
     (if i < length s \<and> \<not> peg_include_end s i then peg_argument_tail s (i + 1) else i)"
  by pat_completeness auto
termination by (relation "measure (\<lambda>(s, i). length s - i)") auto

declare peg_argument_tail.simps [simp del]

text \<open>
  The optional tail of the rule \<open>include\<close> with the offset after it, and the rule: the spans of
  \<open>page_ref\<close> and \<open>argument_tail\<close>, and the end of the block.
\<close>

definition peg_tail :: "bytes \<Rightarrow> nat \<Rightarrow> (nat \<times> nat) option \<times> nat" where
  "peg_tail s j =
     (case peg_whitespace s j of
        None \<Rightarrow> (None, j)
      | Some k \<Rightarrow>
          let k = peg_stray_open_brackets s k; m = peg_argument_tail s k in (Some (k, m), m))"

definition peg_include :: "bytes \<Rightarrow> ((nat \<times> nat) \<times> (nat \<times> nat) option \<times> nat) option" where
  "peg_include s =
     (if \<not> (starts_with s ''[['' \<and> eq_ignore_ascii_case (slice s 2 9) ''include'') then None
      else case peg_whitespace s 9 of
        None \<Rightarrow> None
      | Some i \<Rightarrow>
          (case peg_page_ref s i of
             None \<Rightarrow> None
           | Some j \<Rightarrow>
               (case peg_tail s j of (tail, e) \<Rightarrow>
                  if peg_include_end s e then Some ((i, j), tail, e + 2) else None)))"

subsection \<open>Arguments\<close>

record raw_include_argument =
  ra_key :: bytes
  ra_value :: bytes
  authored_empty_value :: bool

definition include_argument_trim :: "char set" where
  "include_argument_trim = {CHR '' '', CHR 0x09, CHR 0x0A, CHR 0x0D, CHR 0x00, CHR 0x0B}"

definition trim_include_space_start :: "bytes \<Rightarrow> bytes" where
  "trim_include_space_start source = trim_start_set include_argument_trim source"

definition complete_comment_end :: "bytes \<Rightarrow> nat \<Rightarrow> nat option" where
  "complete_comment_end bs start = peg_comment bs start"

definition variable_byte :: "char \<Rightarrow> bool" where
  "variable_byte c \<longleftrightarrow> is_alnum c \<or> c = CHR ''-'' \<or> c = CHR ''_''"

function include_argument_key_end :: "bytes \<Rightarrow> nat \<Rightarrow> nat" where
  "include_argument_key_end bs index =
     (if index < length bs then
        if variable_byte (bs ! index) then include_argument_key_end bs (index + 1)
        else if has bs index ''{$'' then
          let name_start = index + 2; e = scan_while variable_byte bs name_start in
          if e = name_start \<or> get bs e \<noteq> Some (CHR ''}'') then index
          else include_argument_key_end bs (e + 1)
        else index
      else index)"
  by pat_completeness auto
termination
proof (relation "measure (\<lambda>(bs, i). length bs - i)")
  fix bs :: bytes and i ns e :: nat
  assume "i < length bs" "ns = i + 2" "e = scan_while variable_byte bs ns"
  then show "((bs, e + 1), bs, i) \<in> measure (\<lambda>(bs, i). length bs - i)"
    using scan_while_ge [of ns variable_byte bs] by auto
qed auto

declare include_argument_key_end.simps [simp del]

definition scan_include_argument_segment ::
  "bytes \<Rightarrow> raw_include_argument list \<Rightarrow> raw_include_argument list" where
  "scan_include_argument_segment segment arguments =
     (let source = trim_include_space_start segment; key_end = include_argument_key_end source 0 in
      if key_end = 0 then arguments
      else case strip_prefix ''='' (trim_include_space_start (drop key_end source)) of
        None \<Rightarrow> arguments
      | Some after_equals \<Rightarrow>
          let val = trim_end_set include_argument_trim (trim_include_space_start after_equals) in
          arguments @ [\<lparr>ra_key = take key_end source, ra_value = val, authored_empty_value = (val = [])\<rparr>])"

datatype include_parse_error = IncludeParseError

function scan_arguments_loop ::
  "bytes \<Rightarrow> nat \<Rightarrow> nat \<Rightarrow> raw_include_argument list \<Rightarrow> include_parse_error + raw_include_argument list" where
  "scan_arguments_loop tail segment_start index arguments =
     (if index < length tail then
        if has tail index ''[!--'' then
          (case complete_comment_end tail index of
             Some e \<Rightarrow> scan_arguments_loop tail segment_start e arguments
           | None \<Rightarrow> Inl IncludeParseError)
        else if tail ! index = CHR ''|'' then
          scan_arguments_loop tail (index + 1) (index + 1)
            (scan_include_argument_segment (slice tail segment_start index) arguments)
        else scan_arguments_loop tail segment_start (index + 1) arguments
      else Inr (scan_include_argument_segment (drop segment_start tail) arguments))"
  by pat_completeness auto
termination
  by (relation "measure (\<lambda>(tail, s, i, a). length tail - i)")
    (auto simp: complete_comment_end_def dest: peg_comment_bounds)

declare scan_arguments_loop.simps [simp del]

definition scan_include_arguments :: "bytes \<Rightarrow> include_parse_error + raw_include_argument list" where
  "scan_include_arguments tail = scan_arguments_loop tail 0 0 []"

subsection \<open>Variables\<close>

text \<open>The matches of the regular expression for \<open>{$name}\<close>, from left to right: start, name, end.\<close>

definition variable_at :: "bytes \<Rightarrow> nat \<Rightarrow> (bytes \<times> nat) option" where
  "variable_at s i =
     (if has s i ''{$'' then
        let e = scan_while variable_byte s (i + 2) in
        if e = i + 2 \<or> get s e \<noteq> Some (CHR ''}'') then None else Some (slice s (i + 2) e, e + 1)
      else None)"

lemma variable_at_bounds:
  assumes "variable_at s i = Some (name, e)"
  shows "i + 3 < e" and "e \<le> length s" and "has s i ''{$''" and "s ! (e - 1) = CHR ''}''"
    and "name = slice s (i + 2) (e - 1)" and "list_all variable_byte name" and "name \<noteq> []"
proof -
  let ?e = "scan_while variable_byte s (i + 2)"
  from assms have h: "has s i ''{$''" and e: "e = ?e + 1" and ne: "?e \<noteq> i + 2"
    and g: "get s ?e = Some (CHR ''}'')" and n: "name = slice s (i + 2) ?e"
    by (auto simp: variable_at_def Let_def split: if_splits)
  have ge: "i + 2 \<le> ?e" by (rule scan_while_ge)
  with e ne g show "i + 3 < e" "e \<le> length s" "s ! (e - 1) = CHR ''}''" "name = slice s (i + 2) (e - 1)" "has s i ''{$''"
    by (auto simp: get_Some_iff h n)
  have le: "?e \<le> length s" using g by (simp add: get_Some_iff)
  have "variable_byte (name ! k)" if "k < length name" for k
    using that scan_while_all [of "i + 2" "i + 2 + k" variable_byte s] le
    by (simp add: n length_slice) (simp add: slice_def)
  then show "list_all variable_byte name" by (simp add: list_all_length)
  show "name \<noteq> []" using ge ne le length_slice [of ?e s "i + 2"] n by auto
qed

function variable_matches :: "bytes \<Rightarrow> nat \<Rightarrow> (nat \<times> bytes \<times> nat) list" where
  "variable_matches s i =
     (if i < length s then
        (case variable_at s i of
           Some (name, e) \<Rightarrow> (i, name, e) # variable_matches s e
         | None \<Rightarrow> variable_matches s (i + 1))
      else [])"
  by pat_completeness auto
termination
  by (relation "measure (\<lambda>(s, i). length s - i)") (auto dest: variable_at_bounds)

declare variable_matches.simps [simp del]

type_synonym variable_map = "(bytes \<times> bytes) list"

definition expansion_space :: "char set" where
  "expansion_space = {CHR '' '', CHR 0x09, CHR 0x0D, CHR 0x0A}"

definition expansion_of :: "variable_map \<Rightarrow> bytes option \<Rightarrow> bytes \<Rightarrow> bytes \<Rightarrow> bytes" where
  "expansion_of arguments blocked_name name matched =
     (if blocked_name = Some name then matched
      else case map_of arguments name of
        Some v \<Rightarrow> trim_end_set expansion_space v
      | None \<Rightarrow> matched)"

fun expand_loop ::
  "bytes \<Rightarrow> variable_map \<Rightarrow> bytes option \<Rightarrow> nat \<Rightarrow> (nat \<times> bytes \<times> nat) list \<Rightarrow> bytes \<Rightarrow> nat \<Rightarrow>
   (bytes \<times> nat) option" where
  "expand_loop expression arguments blocked_name limit [] expanded copied_until = Some (expanded, copied_until)"
| "expand_loop expression arguments blocked_name limit ((i, name, e) # ms) expanded copied_until =
     (let replacement = expansion_of arguments blocked_name name (slice expression i e);
          literal = slice expression copied_until i
      in if length expanded + length literal + length replacement > limit then None
         else expand_loop expression arguments blocked_name limit ms (expanded @ literal @ replacement) e)"

definition expand_argument_expression_once ::
  "bytes \<Rightarrow> variable_map \<Rightarrow> bytes option \<Rightarrow> nat \<Rightarrow> bytes option" where
  "expand_argument_expression_once expression arguments blocked_name limit =
     (case expand_loop expression arguments blocked_name limit (variable_matches expression 0) [] 0 of
        None \<Rightarrow> None
      | Some (expanded, copied_until) \<Rightarrow>
          let remainder = drop copied_until expression in
          if length expanded + length remainder > limit then None else Some (expanded @ remainder))"

fun expand_argument_expression ::
  "nat \<Rightarrow> bytes \<Rightarrow> variable_map \<Rightarrow> bytes option \<Rightarrow> nat \<Rightarrow> bytes" where
  "expand_argument_expression 0 expression arguments blocked_name limit = expression"
| "expand_argument_expression (Suc rounds) expression arguments blocked_name limit =
     (case expand_argument_expression_once expression arguments blocked_name limit of
        None \<Rightarrow> expression
      | Some expanded \<Rightarrow>
          if expanded = expression then expression
          else expand_argument_expression rounds expanded arguments blocked_name limit)"

definition is_static_identifier :: "bytes \<Rightarrow> bool" where
  "is_static_identifier v \<longleftrightarrow> v \<noteq> [] \<and> list_all variable_byte v"

definition reference_to :: "bytes \<Rightarrow> bytes" where
  "reference_to key = ''{$'' @ key @ ''}''"

definition insert_new :: "bytes \<Rightarrow> bytes \<Rightarrow> variable_map \<Rightarrow> variable_map" where
  "insert_new k v m = (if map_of m k = None then m @ [(k, v)] else m)"

definition same_map :: "variable_map \<Rightarrow> variable_map \<Rightarrow> bool" where
  "same_map a b \<longleftrightarrow>
     list_all (\<lambda>(k, v). map_of b k = map_of a k) a \<and> list_all (\<lambda>(k, v). map_of a k = map_of b k) b"

fun static_arguments :: "raw_include_argument list \<Rightarrow> variable_map \<Rightarrow> variable_map" where
  "static_arguments [] m = m"
| "static_arguments (a # as) m =
     static_arguments as
       (if authored_empty_value a \<or> \<not> is_static_identifier (ra_key a) \<or> contains_sub (ra_value a) ''{$''
        then m else insert_new (ra_key a) (ra_value a) m)"

definition round_limit :: "raw_include_argument list \<Rightarrow> nat" where
  "round_limit raw = min 128 (max 1 (length raw * 2))"

definition include_argument_expansion_allowance :: nat where
  "include_argument_expansion_allowance = 64 * 1024"

definition raw_size :: "raw_include_argument list \<Rightarrow> nat" where
  "raw_size raw = sum_list (map (\<lambda>a. length (ra_key a) + length (ra_value a)) raw)"

definition expansion_limit :: "raw_include_argument list \<Rightarrow> nat" where
  "expansion_limit raw = raw_size raw + include_argument_expansion_allowance"

text \<open>What one argument contributes to a round: \<open>None\<close> when it is skipped.\<close>

definition resolve_argument ::
  "nat \<Rightarrow> nat \<Rightarrow> variable_map \<Rightarrow> raw_include_argument \<Rightarrow> (bytes \<times> bytes) option" where
  "resolve_argument rounds limit arguments a =
     (if authored_empty_value a then None
      else let key = expand_argument_expression rounds (ra_key a) arguments None limit in
        if \<not> is_static_identifier key then None
        else
          let self_reference = reference_to key;
              blocked_name =
                (if contains_sub (ra_value a) self_reference \<and>
                    (case map_of arguments key of Some v \<Rightarrow> contains_sub v self_reference | None \<Rightarrow> False)
                 then Some key else None);
              val = expand_argument_expression rounds (ra_value a) arguments blocked_name limit
          in if trim_end_set expansion_space val = reference_to key then None else Some (key, val))"

text \<open>A round over all arguments; \<open>None\<close> when the sizes exceed the limit.\<close>

fun resolve_round ::
  "nat \<Rightarrow> nat \<Rightarrow> variable_map \<Rightarrow> raw_include_argument list \<Rightarrow> variable_map \<Rightarrow> nat \<Rightarrow> variable_map option" where
  "resolve_round rounds limit arguments [] next_map next_size = Some next_map"
| "resolve_round rounds limit arguments (a # as) next_map next_size =
     (case resolve_argument rounds limit arguments a of
        None \<Rightarrow> resolve_round rounds limit arguments as next_map next_size
      | Some (key, val) \<Rightarrow>
          if map_of next_map key \<noteq> None then resolve_round rounds limit arguments as next_map next_size
          else let next_size = next_size + length key + length val in
            if next_size > limit then None
            else resolve_round rounds limit arguments as (next_map @ [(key, val)]) next_size)"

fun resolve_rounds ::
  "nat \<Rightarrow> nat \<Rightarrow> nat \<Rightarrow> raw_include_argument list \<Rightarrow> variable_map \<Rightarrow> variable_map" where
  "resolve_rounds 0 rounds limit raw arguments = arguments"
| "resolve_rounds (Suc n) rounds limit raw arguments =
     (case resolve_round rounds limit arguments raw [] 0 of
        None \<Rightarrow> arguments
      | Some next_map \<Rightarrow>
          if same_map next_map arguments then arguments
          else resolve_rounds n rounds limit raw next_map)"

definition resolve_include_arguments :: "raw_include_argument list \<Rightarrow> variable_map" where
  "resolve_include_arguments raw =
     resolve_rounds (round_limit raw) (round_limit raw) (expansion_limit raw) raw (static_arguments raw [])"

subsection \<open>Include blocks\<close>

record include_ref =
  ir_page_ref :: page_ref
  ir_variables :: variable_map
  spaced_empty_separator :: bool

definition include_ref_new :: "page_ref \<Rightarrow> variable_map \<Rightarrow> include_ref" where
  "include_ref_new r variables = \<lparr>ir_page_ref = r, ir_variables = variables, spaced_empty_separator = False\<rparr>"

definition with_spaced_empty_separator :: "bool \<Rightarrow> include_ref \<Rightarrow> include_ref" where
  "with_spaced_empty_separator b r = r\<lparr>spaced_empty_separator := b\<rparr>"

definition validate_include_page_ref :: "page_ref \<Rightarrow> include_parse_error + page_ref" where
  "validate_include_page_ref r = (if pr_page r = [] then Inl IncludeParseError else Inr r)"

definition spaced_separator :: "bytes \<Rightarrow> bool" where
  "spaced_separator tail \<longleftrightarrow>
     (case strip_prefix ''|'' tail of
        None \<Rightarrow> False
      | Some spacing \<Rightarrow> spacing \<noteq> [] \<and> list_all (\<lambda>c. c = CHR '' '' \<or> c = CHR 0x09) spacing)"

text \<open>The outer option is the panic of \<open>PageRef::parse_include\<close>.\<close>

definition process_pairs :: "(bytes \<Rightarrow> bytes) \<Rightarrow> bytes \<Rightarrow> bytes \<Rightarrow> (include_parse_error + include_ref) option" where
  "process_pairs slug page_raw argument_tail =
     (case parse_include slug page_raw of
        None \<Rightarrow> None
      | Some (Inl e) \<Rightarrow> Some (Inl IncludeParseError)
      | Some (Inr r) \<Rightarrow>
          Some (case validate_include_page_ref r of
            Inl e \<Rightarrow> Inl e
          | Inr r \<Rightarrow>
              (case scan_include_arguments argument_tail of
                 Inl e \<Rightarrow> Inl e
               | Inr raw \<Rightarrow>
                   Inr (with_spaced_empty_separator (spaced_separator argument_tail)
                          (include_ref_new r (resolve_include_arguments raw))))))"

definition parse_include_block ::
  "(bytes \<Rightarrow> bytes) \<Rightarrow> bytes \<Rightarrow> nat \<Rightarrow> (include_parse_error + include_ref \<times> nat) option" where
  "parse_include_block slug source start =
     (if \<not> (start \<le> length source \<and> boundary source start) then None
      else let s = drop start source in
        case peg_include s of
          None \<Rightarrow> Some (Inl IncludeParseError)
        | Some ((i, j), tail, e) \<Rightarrow>
            map_option (map_sum id (\<lambda>r. (r, start + e)))
              (process_pairs slug (slice s i j)
                (case tail of Some (k, m) \<Rightarrow> slice s k m | None \<Rightarrow> [])))"

subsection \<open>The size of the resolved arguments\<close>

definition map_size :: "variable_map \<Rightarrow> nat" where
  "map_size m = sum_list (map (\<lambda>(k, v). length k + length v) m)"

definition resolved :: "nat \<Rightarrow> variable_map \<Rightarrow> bool" where
  "resolved limit m \<longleftrightarrow>
     distinct (map fst m) \<and> list_all (\<lambda>(k, v). is_static_identifier k) m \<and> map_size m \<le> limit"

lemma map_size_append [simp]: "map_size (a @ b) = map_size a + map_size b"
  by (simp add: map_size_def)

lemma map_size_simps [simp]: "map_size [] = 0" "map_size ((k, v) # m) = length k + length v + map_size m"
  by (simp_all add: map_size_def)

lemma map_of_new: "map_of m k = None \<longleftrightarrow> k \<notin> set (map fst m)"
  by (simp add: map_of_eq_None_iff)

lemma static_arguments_resolved:
  "distinct (map fst m) \<Longrightarrow> list_all (\<lambda>(k, v). is_static_identifier k) m \<Longrightarrow>
   distinct (map fst (static_arguments raw m)) \<and>
   list_all (\<lambda>(k, v). is_static_identifier k) (static_arguments raw m) \<and>
   map_size (static_arguments raw m) \<le> map_size m + raw_size raw"
proof (induction raw m rule: static_arguments.induct)
  case (2 a as m)
  let ?m = "if authored_empty_value a \<or> \<not> is_static_identifier (ra_key a) \<or> contains_sub (ra_value a) ''{$''
        then m else insert_new (ra_key a) (ra_value a) m"
  have "distinct (map fst ?m)" "list_all (\<lambda>(k, v). is_static_identifier k) ?m"
    using 2(2,3) by (auto simp: insert_new_def map_of_new)
  from "2.IH" [OF this] show ?case
    by (auto simp: insert_new_def raw_size_def)
qed (simp add: raw_size_def)

lemma resolve_argument_static: "resolve_argument rounds limit m a = Some (k, v) \<Longrightarrow> is_static_identifier k"
  by (auto simp: resolve_argument_def Let_def split: if_splits)

lemma resolve_round_resolved:
  "resolve_round rounds limit arguments raw m sz = Some m' \<Longrightarrow> sz = map_size m \<Longrightarrow>
   resolved limit m \<Longrightarrow> resolved limit m'"
proof (induction rounds limit arguments raw m sz rule: resolve_round.induct)
  case (2 rounds limit arguments a as m sz)
  show ?case
  proof (cases "resolve_argument rounds limit arguments a")
    case None
    with 2 show ?thesis by simp
  next
    case (Some kv)
    obtain k v where kv: "kv = (k, v)" by fastforce
    note stat = resolve_argument_static [OF Some [unfolded kv]]
    show ?thesis
    proof (cases "map_of m k = None")
      case True
      with 2(4) Some kv have le: "sz + length k + length v \<le> limit"
        and r: "resolve_round rounds limit arguments as (m @ [(k, v)]) (sz + length k + length v) = Some m'"
        by (auto simp: Let_def split: if_splits)
      have "resolved limit (m @ [(k, v)])"
        using 2(5,6) le stat True by (simp add: resolved_def map_of_new)
      with 2(3) [OF Some kv [symmetric] _ refl] True le r 2(5) show ?thesis by simp
    next
      case False
      with 2 Some kv show ?thesis by simp
    qed
  qed
qed simp

lemma resolve_rounds_resolved:
  "resolved limit m \<Longrightarrow> resolved limit (resolve_rounds n rounds limit raw m)"
proof (induction n rounds limit raw m rule: resolve_rounds.induct)
  case (2 n rounds limit raw m)
  have "resolved limit m'" if "resolve_round rounds limit m raw [] 0 = Some m'" for m'
    using resolve_round_resolved [OF that] by (simp add: resolved_def)
  with 2 show ?case by (auto split: option.split)
qed simp

text \<open>
  C8: however its arguments refer to each other, an include block ends up with one value per
  name, names of letters, digits, hyphens and underscores only, and values whose total size is
  bounded by that of the arguments as written plus the allowance of 64 KiB.
\<close>

theorem resolved_arguments_bounded:
  "distinct (map fst (resolve_include_arguments raw)) \<and>
   list_all (\<lambda>(k, v). is_static_identifier k) (resolve_include_arguments raw) \<and>
   map_size (resolve_include_arguments raw) \<le> raw_size raw + 65536"
proof -
  have "resolved (expansion_limit raw) (static_arguments raw [])"
    using static_arguments_resolved [of "[]" raw] by (simp add: resolved_def expansion_limit_def)
  from resolve_rounds_resolved [OF this] show ?thesis
    by (simp add: resolve_include_arguments_def resolved_def expansion_limit_def
        include_argument_expansion_allowance_def)
qed

subsection \<open>Arguments without references\<close>

lemma no_reference: "\<not> contains_sub s ''{$'' \<Longrightarrow> \<not> has s i ''{$''"
  using find_sub_None [of "''{$''" s] by (auto simp: contains_sub_def has_def starts_with_def)

lemma no_variable_matches: "\<not> contains_sub s ''{$'' \<Longrightarrow> variable_matches s i = []"
  by (induction s i rule: variable_matches.induct)
    (subst variable_matches.simps, simp add: variable_at_def no_reference)

lemma expand_plain:
  assumes "\<not> contains_sub s ''{$''"
  shows "expand_argument_expression rounds s m b limit = s"
  using no_variable_matches [OF assms, of 0]
  by (cases rounds) (simp_all add: expand_argument_expression_once_def)

lemma starts_contains: "starts_with s p \<Longrightarrow> p \<noteq> [] \<Longrightarrow> contains_sub s p"
  by (cases s) (auto simp: contains_sub_def starts_with_def)

lemma contains_append: "contains_sub s p \<Longrightarrow> p \<noteq> [] \<Longrightarrow> contains_sub (s @ t) p"
proof -
  assume a: "contains_sub s p" and p: "p \<noteq> []"
  then obtain i where "i + length p \<le> length s" "starts_with (drop i s) p"
    using find_sub_Some [of p s] by (auto simp: contains_sub_def)
  then have "starts_with (drop i (s @ t)) p" by (simp add: starts_with_def)
  with p show ?thesis using find_sub_None [of p "s @ t"] by (auto simp: contains_sub_def)
qed

lemma static_plain: "is_static_identifier k \<Longrightarrow> \<not> contains_sub k ''{$''"
proof
  assume k: "is_static_identifier k" and "contains_sub k ''{$''"
  then obtain i where i: "i + 2 \<le> length k" "starts_with (drop i k) ''{$''"
    using find_sub_Some [of "''{$''" k] by (auto simp: contains_sub_def)
  then obtain t where "drop i k = CHR ''{'' # t" by (cases "drop i k") auto
  then have "CHR ''{'' \<in> set k" by (metis in_set_dropD list.set_intros(1))
  with k have "variable_byte (CHR ''{'')" by (simp add: is_static_identifier_def list_all_iff)
  then show False by (simp add: variable_byte_def ascii_defs)
qed

definition plain_argument :: "raw_include_argument \<Rightarrow> bool" where
  "plain_argument a \<longleftrightarrow>
     \<not> authored_empty_value a \<and> is_static_identifier (ra_key a) \<and> \<not> contains_sub (ra_value a) ''{$''"

definition as_written :: "raw_include_argument list \<Rightarrow> variable_map" where
  "as_written raw = map (\<lambda>a. (ra_key a, ra_value a)) raw"

lemma map_of_insert_new: "map_of (insert_new k v m) = map_of [(k, v)] ++ map_of m"
  by (auto simp: insert_new_def fun_eq_iff map_add_def split: option.split)

lemma static_arguments_plain:
  "list_all plain_argument raw \<Longrightarrow> map_of (static_arguments raw m) = map_of (as_written raw) ++ map_of m"
  by (induction raw m rule: static_arguments.induct)
    (auto simp: plain_argument_def as_written_def map_of_insert_new fun_eq_iff map_add_def split: option.split)

lemma resolve_plain:
  assumes "plain_argument a"
  shows "resolve_argument rounds limit m a = Some (ra_key a, ra_value a)"
proof -
  from assms have a: "\<not> authored_empty_value a" "is_static_identifier (ra_key a)" "\<not> contains_sub (ra_value a) ''{$''"
    by (auto simp: plain_argument_def)
  have "trim_end_set expansion_space (ra_value a) \<noteq> reference_to (ra_key a)"
  proof
    assume t: "trim_end_set expansion_space (ra_value a) = reference_to (ra_key a)"
    have "ra_value a = trim_end_set expansion_space (ra_value a) @
        rev (takeWhile (\<lambda>c. c \<in> expansion_space) (rev (ra_value a)))"
      unfolding trim_end_set_def by (metis rev_append rev_rev_ident takeWhile_dropWhile_id)
    moreover have "contains_sub (reference_to (ra_key a)) ''{$''"
      by (rule starts_contains) (simp_all add: reference_to_def)
    ultimately show False using a(3) contains_append [of "reference_to (ra_key a)" "''{$''"] t by (metis list.distinct(1))
  qed
  then show ?thesis
    using a by (simp add: resolve_argument_def expand_plain static_plain Let_def)
qed

lemma resolve_round_plain:
  "list_all plain_argument raw \<Longrightarrow> sz + raw_size raw \<le> limit \<Longrightarrow>
   \<exists>m'. resolve_round rounds limit arguments raw m sz = Some m' \<and> map_of m' = map_of (as_written raw) ++ map_of m"
proof (induction raw arbitrary: m sz)
  case (Cons a raw)
  let ?k = "ra_key a" and ?v = "ra_value a"
  have r: "resolve_argument rounds limit arguments a = Some (?k, ?v)"
    using Cons.prems(1) by (simp add: resolve_plain)
  show ?case
  proof (cases "map_of m ?k = None")
    case True
    have "sz + length ?k + length ?v + raw_size raw \<le> limit"
      using Cons.prems(2) by (simp add: raw_size_def)
    then obtain m' where "resolve_round rounds limit arguments raw (m @ [(?k, ?v)]) (sz + length ?k + length ?v) = Some m'"
      and "map_of m' = map_of (as_written raw) ++ map_of (m @ [(?k, ?v)])"
      using Cons.IH [of "sz + length ?k + length ?v" "m @ [(?k, ?v)]"] Cons.prems(1) by auto
    with True r Cons.prems(2) show ?thesis
      by (auto simp: Let_def as_written_def raw_size_def fun_eq_iff map_add_def split: option.split)
  next
    case False
    moreover have "sz + raw_size raw \<le> limit" using Cons.prems(2) by (simp add: raw_size_def)
    ultimately show ?thesis
      using Cons.IH [of sz m] Cons.prems(1) r
      by (auto simp: as_written_def fun_eq_iff map_add_def split: option.split)
  qed
qed (simp add: as_written_def)

text \<open>
  Arguments whose names and values refer to no variable mean what they say: each name has the
  first value written for it.
\<close>

theorem plain_arguments_as_written:
  assumes "list_all plain_argument raw"
  shows "map_of (resolve_include_arguments raw) = map_of (as_written raw)"
proof -
  let ?s = "static_arguments raw []"
  have s: "map_of ?s = map_of (as_written raw)"
    using static_arguments_plain [OF assms, of "[]"] by simp
  obtain m where m: "resolve_round (round_limit raw) (expansion_limit raw) ?s raw [] 0 = Some m"
    and eq: "map_of m = map_of (as_written raw)"
    using resolve_round_plain [OF assms, of 0 "expansion_limit raw" _ ?s "[]"]
    by (auto simp: expansion_limit_def)
  have "same_map m ?s" using s eq by (simp add: same_map_def list_all_iff)
  moreover obtain n where "round_limit raw = Suc n"
    by (cases "round_limit raw") (simp_all add: round_limit_def)
  ultimately show ?thesis
    using m s by (simp add: resolve_include_arguments_def)
qed

theorem plain_arguments_as_written_witness:
  "let raw = [\<lparr>ra_key = ''a'', ra_value = ''x'', authored_empty_value = False\<rparr>,
              \<lparr>ra_key = ''a'', ra_value = ''y'', authored_empty_value = False\<rparr>]
   in map_of (resolve_include_arguments raw) ''a'' = Some ''x''"
proof -
  have "list_all plain_argument [\<lparr>ra_key = ''a'', ra_value = ''x'', authored_empty_value = False\<rparr>,
              \<lparr>ra_key = ''a'', ra_value = ''y'', authored_empty_value = False\<rparr>]"
    by (simp add: plain_argument_def is_static_identifier_def variable_byte_def ascii_defs contains_sub_def)
  from plain_arguments_as_written [OF this] show ?thesis by (simp add: as_written_def)
qed

subsection \<open>The extent of a block\<close>

lemma peg_whitespace_ge: "peg_whitespace s i = Some e \<Longrightarrow> i < e"
  using scan_while_ge [of i grammar_space s] by (auto simp: peg_whitespace_def Let_def split: if_splits)

lemma peg_page_ref_ge: "peg_page_ref s i = Some e \<Longrightarrow> i < e"
proof -
  assume a: "peg_page_ref s i = Some e"
  let ?site = "scan_while (\<lambda>c. \<not> name_stop c \<and> c \<noteq> CHR '':'') s (i + 1)"
  let ?j = "if get s i = Some (CHR '':'') \<and> ?site \<noteq> i + 1 \<and> get s ?site = Some (CHR '':'') then ?site + 1 else i"
  have "i \<le> ?j" using scan_while_ge [of "i + 1" "\<lambda>c. \<not> name_stop c \<and> c \<noteq> CHR '':''" s] by auto
  moreover have "?j < e"
    using a scan_while_ge [of ?j "\<lambda>c. \<not> name_stop c" s]
    by (auto simp: peg_page_ref_def Let_def split: if_splits)
  ultimately show "i < e" by linarith
qed

lemma peg_space_ge: "i \<le> peg_space s i"
proof (induction s i rule: peg_space.induct)
  case (1 s i)
  show ?case
  proof (cases "i < length s \<and> grammar_space (s ! i)")
    case True
    then show ?thesis using 1(1) by (simp add: peg_space.simps [of s i])
  next
    case False
    with 1(2) peg_comment_bounds [of s i] show ?thesis
      by (cases "peg_comment s i") (auto simp: peg_space.simps [of s i] dest: order_trans [rotated])
  qed
qed

lemma peg_stray_ge: "i \<le> peg_stray_open_brackets s i"
  using scan_while_ge [of i "\<lambda>c. c = CHR ''[''" s] peg_space_ge order_trans
  by (fastforce simp: peg_stray_open_brackets_def Let_def)

lemma peg_argument_tail_ge: "i \<le> peg_argument_tail s i"
proof (induction s i rule: peg_argument_tail.induct)
  case (1 s i)
  then show ?case by (subst peg_argument_tail.simps) auto
qed

lemma peg_tail_ge: "j \<le> snd (peg_tail s j)"
proof (cases "peg_whitespace s j")
  case (Some k)
  have "j \<le> k" using peg_whitespace_ge [OF Some] by simp
  also have "k \<le> peg_stray_open_brackets s k" by (rule peg_stray_ge)
  also have "\<dots> \<le> peg_argument_tail s \<dots>" by (rule peg_argument_tail_ge)
  finally show ?thesis by (simp add: peg_tail_def Some Let_def)
qed (simp add: peg_tail_def)

lemma peg_include_extent:
  assumes "peg_include s = Some (page, tail, e)"
  shows "starts_with s ''[[''" and "13 \<le> e" and "peg_include_end s (e - 2)"
proof -
  from assms obtain i j m where i: "peg_whitespace s 9 = Some i" and j: "peg_page_ref s i = Some j"
    and "starts_with s ''[[''" and m: "peg_tail s j = (tail, m)" "e = m + 2" "peg_include_end s m"
    by (auto simp: peg_include_def split: if_splits option.splits prod.splits)
  moreover have "j \<le> m" using peg_tail_ge [of j s] m(1) by simp
  ultimately show "starts_with s ''[[''" "13 \<le> e" "peg_include_end s (e - 2)"
    using peg_whitespace_ge [OF i] peg_page_ref_ge [OF j] by auto
qed

lemma process_pairs_page:
  "process_pairs slug page_raw tail = Some (Inr r) \<Longrightarrow> pr_page (ir_page_ref r) \<noteq> []"
  by (auto simp: process_pairs_def validate_include_page_ref_def with_spaced_empty_separator_def
      include_ref_new_def split: option.splits sum.splits if_splits)

lemma block_extent:
  assumes "valid_utf8 source" and "parse_include_block slug source start = Some (Inr (r, e))"
  shows "start + 13 \<le> e \<and> e \<le> length source \<and> boundary source start \<and> boundary source e \<and>
         has source start ''[['' \<and> has source (e - 2) '']]'' \<and>
         (e = length source \<or> source ! e = CHR 0x0A \<or> source ! e = CHR 0x0D) \<and>
         pr_page (ir_page_ref r) \<noteq> []"
proof -
  let ?s = "drop start source"
  from assms(2) obtain page tail n where st: "start \<le> length source" "boundary source start"
    and p: "peg_include ?s = Some (page, tail, n)" and e: "e = start + n"
    and pr: "process_pairs slug (slice ?s (fst page) (snd page))
      (case tail of Some (k, m) \<Rightarrow> slice ?s k m | None \<Rightarrow> []) = Some (Inr r)"
    by (auto simp: parse_include_block_def Let_def map_sum_def split: if_splits option.splits sum.splits)
  note x = peg_include_extent [OF p]
  have h: "has ?s (n - 2) '']]''" using x(3) by (simp add: peg_include_end_def)
  have len: "n \<le> length ?s" using has_length [OF h] x(2) by simp
  have ce: "e - 2 = start + (n - 2)" using e x(2) by simp
  have hs: "has source (e - 2) '']]''"
  proof -
    have "start + (n - 2) + length '']]'' \<le> length source" using len st(1) x(2) by simp
    with h show ?thesis unfolding ce has_def by (simp add: add.commute)
  qed
  have has_start: "has source start ''[[''"
    using x(1) starts_with_length [OF x(1)] st(1) by (simp add: has_def starts_with_def)
  have "is_ascii (source ! (e - 2))" "e - 2 < length source"
    using has_0 [OF hs] by (simp_all add: is_ascii_def)
  then have "boundary source (e - 2)" by (rule boundary_of_ascii [rotated])
  from boundary_lit [OF assms(1) hs _ this] have "boundary source (e - 2 + 2)"
    by (simp add: is_ascii_def)
  moreover have "e - 2 + 2 = e" using e x(2) by simp
  ultimately have b: "boundary source e" by (simp only:)
  have n2: "n - 2 + 2 = n" using x(2) by simp
  have "n = length ?s \<or> get ?s n = Some (CHR 0x0A) \<or> get ?s n = Some (CHR 0x0D)"
    using x(3) unfolding peg_include_end_def n2 by blast
  then have "e = length source \<or> source ! e = CHR 0x0A \<or> source ! e = CHR 0x0D"
    using e st(1) by (auto simp: get_Some_iff)
  with st e x(2) len b hs has_start process_pairs_page [OF pr] show ?thesis by auto
qed

text \<open>
  A parsed include block spans from its opener to a \<open>]]\<close> at the end of a line, its end is a
  position where the text can be cut, and it names a page.
\<close>

theorem include_block_extent:
  assumes "valid_utf8 source" and "parse_include_block slug source start = Some (Inr (r, e))"
  shows "start + 13 \<le> e \<and> e \<le> length source \<and> boundary source start \<and> boundary source e \<and>
         has source start ''[['' \<and> has source (e - 2) '']]'' \<and>
         (e = length source \<or> source ! e = CHR 0x0A \<or> source ! e = CHR 0x0D) \<and>
         pr_page (ir_page_ref r) \<noteq> []"
  using assms by (rule block_extent)

theorem include_block_extent_witness:
  "\<exists>r. parse_include_block (\<lambda>s. s) ''[[include box]]'' 0 = Some (Inr (r, 15)) \<and> pr_page (ir_page_ref r) \<noteq> []"
proof -
  have r: "parse_include_block (\<lambda>s. s) ''[[include box]]'' 0 =
      Some (Inr (include_ref_new \<lparr>pr_site = None, pr_page = ''box'', pr_extra = None\<rparr> [], 15))" (is "_ = Some (Inr (?r, 15))")
  proof -
    have "peg_include ''[[include box]]'' = Some ((10, 13), None, 15)" by code_simp
    moreover have "parse_include (\<lambda>s. s) ''box'' = Some (Inr \<lparr>pr_site = None, pr_page = ''box'', pr_extra = None\<rparr>)"
    proof -
      have "trimmed ''box''" by (rule trimmed_ascii) (simp_all add: is_ascii_def space_ascii)
      then show ?thesis by (simp add: parse_include_def parse_with_def page_only_def split_page_def Let_def)
    qed
    moreover have "resolve_include_arguments [] = []"
      by (simp add: resolve_include_arguments_def round_limit_def same_map_def eval_nat_numeral)
    ultimately show ?thesis
      by (simp add: parse_include_block_def slice_def process_pairs_def validate_include_page_ref_def
          scan_include_arguments_def scan_arguments_loop.simps scan_include_argument_segment_def
          include_argument_key_end.simps trim_include_space_start_def trim_start_set_def
          with_spaced_empty_separator_def include_ref_new_def spaced_separator_def strip_prefix_def starts_with_def)
  qed
  have "valid_utf8 ''[[include box]]''" by (rule ascii_valid) (simp add: is_ascii_def)
  from include_block_extent [OF this r] r show ?thesis by blast
qed

end
