(* ===== verification/Include_Values.thy ===== *)
theory Include_Values
  imports Include_Parse
begin

text \<open>
  The values of the variables of an include block are text again: every cut that
  \<open>src/src/includes/parse.rs\<close> makes in the arguments, and every cut of an expansion, is at a
  character boundary.
\<close>

subsection \<open>Cuts of valid text\<close>

lemma argument_trim_ascii: "c \<in> include_argument_trim \<Longrightarrow> is_ascii c"
  by (auto simp: include_argument_trim_def is_ascii_def)

lemma expansion_space_ascii: "c \<in> expansion_space \<Longrightarrow> is_ascii c"
  by (auto simp: expansion_space_def is_ascii_def)

lemma variable_byte_ascii: "variable_byte c \<Longrightarrow> is_ascii c"
  by (auto simp: variable_byte_def ascii_defs)

lemma grammar_space_ascii: "grammar_space c \<Longrightarrow> is_ascii c"
  by (auto simp: grammar_space_def is_ascii_def)

subsection \<open>Variables\<close>

lemma variable_match_range:
  assumes "variable_at s i = Some (name, e)" and "valid_utf8 s"
  shows "i < e \<and> e \<le> length s \<and> boundary s i \<and> boundary s e"
proof -
  note b = variable_at_bounds [OF assms(1)]
  have i: "boundary s i" using has_0 [OF b(3)] by (intro boundary_of_ascii) (auto simp: is_ascii_def)
  have "boundary s (e - 1)" using b(1,2,4) by (intro boundary_of_ascii) (auto simp: is_ascii_def)
  then have "boundary s (Suc (e - 1))"
    using b(1,2,4) by (intro boundary_ascii [OF assms(2)]) (auto simp: is_ascii_def)
  with b i show ?thesis by simp
qed

lemma variable_matches_ordered:
  "valid_utf8 s \<Longrightarrow> ordered_ranges s i (map (\<lambda>(i, name, e). ((i, e), name)) (variable_matches s i))"
proof (induction s i rule: variable_matches.induct)
  case (1 s i)
  show ?case
  proof (cases "i < length s")
    case True
    show ?thesis
    proof (cases "variable_at s i")
      case None
      with 1 True have "ordered_ranges s (i + 1) (map (\<lambda>(i, name, e). ((i, e), name)) (variable_matches s (i + 1)))" by simp
      then show ?thesis
        using None True by (subst variable_matches.simps) (simp add: ordered_ranges_weaken)
    next
      case (Some m)
      obtain name e where m: "m = (name, e)" by fastforce
      show ?thesis
        using variable_match_range [OF Some [unfolded m] "1.prems"] 1(2) [OF True Some m [symmetric] "1.prems"] True Some m
        by (subst variable_matches.simps) simp
    qed
  qed (simp add: variable_matches.simps)
qed

abbreviation valid_values :: "variable_map \<Rightarrow> bool" where
  "valid_values m \<equiv> list_all (\<lambda>(k, v). valid_utf8 v) m"

lemma map_of_value_valid: "valid_values m \<Longrightarrow> map_of m k = Some v \<Longrightarrow> valid_utf8 v"
  by (auto simp: list_all_iff dest: map_of_SomeD)

lemma expand_loop_valid:
  "expand_loop expression arguments blocked limit ms expanded copied = Some (expanded', copied') \<Longrightarrow>
   ordered_ranges expression copied (map (\<lambda>(i, name, e). ((i, e), name)) ms) \<Longrightarrow>
   boundary expression copied \<Longrightarrow> valid_utf8 expression \<Longrightarrow> valid_values arguments \<Longrightarrow> valid_utf8 expanded \<Longrightarrow>
   valid_utf8 expanded' \<and> boundary expression copied'"
proof (induction expression arguments blocked limit ms expanded copied rule: expand_loop.induct)
  case (2 expression arguments blocked limit i name e ms expanded copied)
  have b: "copied \<le> i" "i < e" "e \<le> length expression" "boundary expression i" "boundary expression e"
    using 2(3) by auto
  have l: "valid_utf8 (slice expression copied i)" "valid_utf8 (slice expression i e)"
    using b 2(4,5) by (auto intro: slice_valid)
  then have "valid_utf8 (expansion_of arguments blocked name (slice expression i e))"
    using map_of_value_valid [OF "2.prems"(5)] expansion_space_ascii
    by (auto simp: expansion_of_def intro: trim_end_set_valid split: option.split)
  with l "2.prems"(6) have
    "valid_utf8 (expanded @ slice expression copied i @ expansion_of arguments blocked name (slice expression i e))"
    by (simp add: valid_utf8_append)
  from 2(1) [OF refl refl _ _ _ b(5) "2.prems"(4,5) this] "2.prems"(1,2) show ?case
    by (auto simp: Let_def split: if_splits)
qed simp

lemma expand_once_valid:
  assumes "expand_argument_expression_once expression arguments blocked limit = Some expanded"
    and "valid_utf8 expression" and "valid_values arguments"
  shows "valid_utf8 expanded"
proof -
  from assms(1) obtain x c where l: "expand_loop expression arguments blocked limit (variable_matches expression 0) [] 0 = Some (x, c)"
    and e: "expanded = x @ drop c expression"
    by (auto simp: expand_argument_expression_once_def Let_def split: option.splits if_splits)
  from expand_loop_valid [OF l variable_matches_ordered [OF assms(2)] boundary_0 assms(2,3)]
  have "valid_utf8 x" "boundary expression c" by simp_all
  with drop_valid [OF assms(2)] show ?thesis by (simp add: e valid_utf8_append)
qed

lemma expand_valid:
  "valid_utf8 expression \<Longrightarrow> valid_values arguments \<Longrightarrow>
   valid_utf8 (expand_argument_expression rounds expression arguments blocked limit)"
  by (induction rounds expression arguments blocked limit rule: expand_argument_expression.induct)
    (auto intro: expand_once_valid split: option.split)

abbreviation valid_arguments :: "raw_include_argument list \<Rightarrow> bool" where
  "valid_arguments raw \<equiv> list_all (\<lambda>a. valid_utf8 (ra_value a)) raw"

lemma static_arguments_valid:
  "valid_arguments raw \<Longrightarrow> valid_values m \<Longrightarrow> valid_values (static_arguments raw m)"
proof (induction raw m rule: static_arguments.induct)
  case (2 a as m)
  then have "valid_values (insert_new (ra_key a) (ra_value a) m)" by (simp add: insert_new_def)
  with 2 show ?case by simp
qed simp

lemma resolve_round_valid:
  "resolve_round rounds limit arguments raw m sz = Some m' \<Longrightarrow> valid_arguments raw \<Longrightarrow>
   valid_values arguments \<Longrightarrow> valid_values m \<Longrightarrow> valid_values m'"
proof (induction rounds limit arguments raw m sz rule: resolve_round.induct)
  case (2 rounds limit arguments a as m sz)
  have "valid_utf8 v" if "resolve_argument rounds limit arguments a = Some (k, v)" for k v
    using that 2(5,6) by (auto simp: resolve_argument_def Let_def intro: expand_valid split: if_splits)
  with 2 show ?case by (auto simp: Let_def split: option.splits if_splits prod.splits)
qed simp

lemma resolve_rounds_valid:
  "valid_arguments raw \<Longrightarrow> valid_values m \<Longrightarrow> valid_values (resolve_rounds n rounds limit raw m)"
proof (induction n rounds limit raw m rule: resolve_rounds.induct)
  case (2 n rounds limit raw m)
  then show ?case using resolve_round_valid [of rounds limit m raw "[]" 0] by (auto split: option.split)
qed simp

lemma resolve_arguments_valid: "valid_arguments raw \<Longrightarrow> valid_values (resolve_include_arguments raw)"
  by (simp add: resolve_include_arguments_def resolve_rounds_valid static_arguments_valid)

subsection \<open>Arguments\<close>

lemma key_end_boundary:
  "valid_utf8 s \<Longrightarrow> boundary s i \<Longrightarrow> boundary s (include_argument_key_end s i)"
proof (induction s i rule: include_argument_key_end.induct)
  case (1 s i)
  let ?e = "scan_while variable_byte s (i + 2)"
  show ?case
  proof (cases "i < length s")
    case True
    show ?thesis
    proof (cases "variable_byte (s ! i)")
      case v: True
      have "boundary s (i + 1)"
        using boundary_ascii [OF "1.prems" True variable_byte_ascii [OF v]] by simp
      with 1(1) [OF True v "1.prems"(1)] True v show ?thesis by (subst include_argument_key_end.simps) simp
    next
      case nv: False
      show ?thesis
      proof (cases "has s i ''{$'' \<and> \<not> (?e = i + 2 \<or> get s ?e \<noteq> Some (CHR ''}''))")
        case b: True
        then have g: "?e < length s" "s ! ?e = CHR ''}''" by (auto simp: get_Some_iff)
        then have "boundary s ?e" by (intro boundary_of_ascii) (simp_all add: is_ascii_def)
        from boundary_ascii [OF "1.prems"(1) this] g have "boundary s (?e + 1)" by (simp add: is_ascii_def)
        with 1(2) [OF True nv _ refl refl _ "1.prems"(1)] b True nv show ?thesis
          by (subst include_argument_key_end.simps) (simp add: Let_def)
      next
        case b: False
        with True nv "1.prems"(2) show ?thesis by (subst include_argument_key_end.simps) (auto simp: Let_def)
      qed
    qed
  next
    case False
    with "1.prems"(2) show ?thesis by (simp add: include_argument_key_end.simps)
  qed
qed

lemma segment_valid:
  assumes "valid_utf8 segment" and "valid_arguments arguments"
  shows "valid_arguments (scan_include_argument_segment segment arguments)"
proof -
  have t: "valid_utf8 (trim_include_space_start s)" if "valid_utf8 s" for s
    using trim_start_set_valid [OF argument_trim_ascii that] by (simp add: trim_include_space_start_def)
  let ?s = "trim_include_space_start segment"
  let ?r = "trim_include_space_start (drop (include_argument_key_end ?s 0) ?s)"
  have r: "valid_utf8 ?r" using t assms(1) by (intro t drop_valid key_end_boundary) auto
  have "valid_utf8 v" if "strip_prefix ''='' ?r = Some v" for v
  proof -
    from that have "?r = ''='' @ v" by (auto simp: strip_prefix_def dest: starts_with_take split: if_splits)
    with r show ?thesis using valid_ascii_append [of "''=''" v] by (simp add: is_ascii_def)
  qed
  then have "valid_utf8 (trim_end_set include_argument_trim (trim_include_space_start v))"
    if "strip_prefix ''='' ?r = Some v" for v
    using that t argument_trim_ascii trim_end_set_valid by blast
  with assms(2) show ?thesis
    by (auto simp: scan_include_argument_segment_def Let_def split: option.split)
qed

lemma arguments_loop_valid:
  "scan_arguments_loop tail start i arguments = Inr raw \<Longrightarrow> valid_utf8 tail \<Longrightarrow> boundary tail start \<Longrightarrow>
   start \<le> i \<Longrightarrow> valid_arguments arguments \<Longrightarrow> valid_arguments raw"
proof (induction tail start i arguments rule: scan_arguments_loop.induct)
  case (1 tail start i arguments)
  show ?case
  proof (cases "i < length tail")
    case True
    show ?thesis
    proof (cases "has tail i ''[!--''")
      case c: True
      with "1.prems"(1) True obtain e where e: "complete_comment_end tail i = Some e"
        and r: "scan_arguments_loop tail start e arguments = Inr raw"
        by (subst (asm) scan_arguments_loop.simps) (auto split: option.splits)
      have "i + 7 \<le> e" using e peg_comment_bounds by (simp add: complete_comment_end_def)
      with 1(1) [OF True c e r] "1.prems" show ?thesis by simp
    next
      case nc: False
      show ?thesis
      proof (cases "tail ! i = CHR ''|''")
        case p: True
        have b: "boundary tail i" using True p by (intro boundary_of_ascii) (simp_all add: is_ascii_def)
        have b1: "boundary tail (i + 1)"
          using boundary_ascii [OF "1.prems"(2) b True] p by (simp add: is_ascii_def)
        have "valid_utf8 (slice tail start i)" using "1.prems" b True by (intro slice_valid) auto
        note sv = segment_valid [OF this "1.prems"(5)]
        from "1.prems"(1) True nc p have
          "scan_arguments_loop tail (i + 1) (i + 1) (scan_include_argument_segment (slice tail start i) arguments) = Inr raw"
          by (subst (asm) scan_arguments_loop.simps) simp
        from 1(2) [OF True nc p this "1.prems"(2) b1 order_refl sv] show ?thesis .
      next
        case False
        with "1.prems"(1) True nc have "scan_arguments_loop tail start (i + 1) arguments = Inr raw"
          by (subst (asm) scan_arguments_loop.simps) simp
        from 1(3) [OF True nc False this] "1.prems" show ?thesis by simp
      qed
    qed
  next
    case False
    with "1.prems"(1) have "raw = scan_include_argument_segment (drop start tail) arguments"
      by (subst (asm) scan_arguments_loop.simps) simp
    with segment_valid [OF drop_valid "1.prems"(5)] "1.prems"(2,3) show ?thesis by simp
  qed
qed

lemma arguments_valid: "scan_include_arguments tail = Inr raw \<Longrightarrow> valid_utf8 tail \<Longrightarrow> valid_arguments raw"
  unfolding scan_include_arguments_def by (erule arguments_loop_valid) simp_all

subsection \<open>Blocks\<close>

lemma peg_space_boundary: "valid_utf8 s \<Longrightarrow> boundary s i \<Longrightarrow> boundary s (peg_space s i)"
proof (induction s i rule: peg_space.induct)
  case (1 s i)
  show ?case
  proof (cases "i < length s \<and> grammar_space (s ! i)")
    case True
    with "1.prems" have "boundary s (i + 1)"
      using boundary_ascii grammar_space_ascii by simp
    with 1(1) [OF True "1.prems"(1)] True show ?thesis by (subst peg_space.simps) simp
  next
    case False
    show ?thesis
    proof (cases "peg_comment s i")
      case None
      with False "1.prems"(2) show ?thesis by (subst peg_space.simps) auto
    next
      case (Some e)
      then obtain k where k: "find_sub ''--]'' (drop (i + 4) s) = Some k" "e = i + 4 + k + 3" and h: "has s i ''[!--''"
        by (auto simp: peg_comment_def split: if_splits)
      have f: "k + 3 \<le> length (drop (i + 4) s)" "starts_with (drop k (drop (i + 4) s)) ''--]''"
        using find_sub_Some [OF k(1)] by auto
      have le: "i + 4 \<le> length s" using has_length [OF h] by simp
      have hk: "has s (i + 4 + k) ''--]''"
        using f le by (auto simp: has_iff add.commute add.left_commute)
      have "boundary s (i + 4 + k)"
        using has_0 [OF hk] by (intro boundary_of_ascii) (simp_all add: is_ascii_def)
      from boundary_lit [OF "1.prems"(1) hk _ this] k(2) have "boundary s e" by (simp add: is_ascii_def)
      with 1(2) [OF False Some "1.prems"(1)] False Some show ?thesis by (subst peg_space.simps) auto
    qed
  qed
qed

lemma peg_tail_valid:
  assumes "peg_tail s j = (Some (k, m), e)" and "peg_include_end s e" and "valid_utf8 s"
  shows "valid_utf8 (slice s k m)"
proof -
  let ?w = "scan_while grammar_space s j"
  from assms(1) obtain w where w: "peg_whitespace s j = Some w" and k: "k = peg_stray_open_brackets s w"
    and m: "m = peg_argument_tail s k" "e = m"
    by (auto simp: peg_tail_def Let_def split: option.splits)
  from w have ww: "w = ?w" "?w \<noteq> j" by (auto simp: peg_whitespace_def Let_def split: if_splits)
  have "j < length s \<and> grammar_space (s ! j)"
    using ww(2) by (subst (asm) scan_while.simps) (auto split: if_splits)
  then have "boundary s j" by (intro boundary_of_ascii) (simp_all add: grammar_space_ascii)
  then have bw: "boundary s w" unfolding ww(1) by (intro scan_while_boundary assms(3)) (simp_all add: grammar_space_ascii)
  have bracket: "boundary s (scan_while (\<lambda>c. c = CHR ''['') s w)"
    by (intro scan_while_boundary assms(3) bw) (simp add: is_ascii_def)
  have bk: "boundary s k"
    unfolding k peg_stray_open_brackets_def Let_def using bw peg_space_boundary [OF assms(3) bracket] by simp
  have h: "has s e '']]''" using assms(2) by (simp add: peg_include_end_def)
  have bm: "boundary s m" "m \<le> length s"
    using has_0 [OF h] m(2) by (auto intro: boundary_of_ascii simp: is_ascii_def)
  have "k \<le> m" using peg_argument_tail_ge m(1) by simp
  with bk bm show ?thesis by (intro slice_valid assms(3))
qed

lemma block_values_valid:
  assumes "valid_utf8 source" and "parse_include_block slug source start = Some (Inr (r, e))"
  shows "valid_values (ir_variables r)"
proof -
  let ?s = "drop start source"
  from assms(2) obtain page tail n where st: "start \<le> length source" "boundary source start"
    and p: "peg_include ?s = Some (page, tail, n)"
    and pr: "process_pairs slug (slice ?s (fst page) (snd page))
      (case tail of Some (k, m) \<Rightarrow> slice ?s k m | None \<Rightarrow> []) = Some (Inr r)"
    by (auto simp: parse_include_block_def Let_def map_sum_def split: if_splits option.splits sum.splits)
  let ?t = "case tail of Some (k, m) \<Rightarrow> slice ?s k m | None \<Rightarrow> []"
  from p obtain j m where "peg_tail ?s j = (tail, m)" "peg_include_end ?s m"
    by (auto simp: peg_include_def split: if_splits option.splits prod.splits)
  then have "valid_utf8 ?t"
    using peg_tail_valid drop_valid [OF assms(1) st(2)] by (auto split: option.split)
  moreover from pr obtain raw where "scan_include_arguments ?t = Inr raw"
    and "ir_variables r = resolve_include_arguments raw"
    by (auto simp: process_pairs_def with_spaced_empty_separator_def include_ref_new_def
        split: option.splits sum.splits)
  ultimately show ?thesis using resolve_arguments_valid arguments_valid by simp
qed

end
