(* ===== verification/Includes.thy ===== *)
theory Includes
  imports Include_Values
begin

text \<open>
  \<open>src/src/includes/mod.rs\<close>, \<open>quoted.rs\<close> and \<open>includer/\<close>: the pass that replaces the include blocks of a
  text by the pages they name.  An includer is a record of its two methods over a state.  The
  regular expressions are written out as functions; \<open>\<close>s of a pattern is a Unicode white space.
\<close>

subsection \<open>Includers\<close>

record fetched_page =
  fp_page_ref :: page_ref
  fp_content :: "bytes option"

record ('s, 'e) includer =
  include_pages :: "include_ref list \<Rightarrow> 's \<Rightarrow> ('e + fetched_page list) \<times> 's"
  no_such_include :: "page_ref \<Rightarrow> 's \<Rightarrow> ('e + bytes) \<times> 's"

definition null_include_pages :: "include_ref list \<Rightarrow> 's \<Rightarrow> ('e + fetched_page list) \<times> 's" where
  "null_include_pages includes s =
     (Inr (map (\<lambda>i. \<lparr>fp_page_ref = ir_page_ref i, fp_content = None\<rparr>) includes), s)"

definition null_includer :: "('s, 'e) includer" where
  "null_includer = \<lparr>include_pages = null_include_pages, no_such_include = (\<lambda>r s. (Inr [], s))\<rparr>"

text \<open>The debug includer; \<open>show_map\<close> stands for the \<open>Debug\<close> format of the standard library.\<close>

definition debug_include_pages ::
  "(variable_map \<Rightarrow> bytes) \<Rightarrow> bool \<Rightarrow> include_ref list \<Rightarrow> 's \<Rightarrow> ('e + fetched_page list) \<times> 's" where
  "debug_include_pages show_map first_missing includes s =
     (Inr (map (\<lambda>(index, i).
        \<lparr>fp_page_ref = ir_page_ref i,
         fp_content =
           (if first_missing \<and> index = 0 \<and> length includes > 1 then None
            else Some (''<INCLUDED-PAGE '' @ page_ref_display (ir_page_ref i) @ '' '' @
                       show_map (ir_variables i) @ ''>''))\<rparr>)
        (zip [0..<length includes] includes)), s)"

definition debug_includer :: "(variable_map \<Rightarrow> bytes) \<Rightarrow> bool \<Rightarrow> ('s, 'e) includer" where
  "debug_includer show_map first_missing =
     \<lparr>include_pages = debug_include_pages show_map first_missing,
      no_such_include = (\<lambda>r s. (Inr (''<MISSING-PAGE '' @ page_ref_display r @ ''>''), s))\<rparr>"

text \<open>What the pass relies on: the pages come back one per include, in the order asked for.\<close>

locale honest_includer =
  fixes fetch :: "include_ref list \<Rightarrow> 's \<Rightarrow> ('e + fetched_page list) \<times> 's"
  assumes fetch_refs: "fetch includes s = (Inr pages, s') \<Longrightarrow> map fp_page_ref pages = map ir_page_ref includes"
begin

lemma fetch_length: "fetch includes s = (Inr pages, s') \<Longrightarrow> length pages = length includes"
  by (drule fetch_refs) (metis length_map)

lemma fetch_matches:
  assumes "fetch includes s = (Inr pages, s')"
  shows "list_all (\<lambda>(i, p). ir_page_ref i = fp_page_ref p) (zip includes pages)"
  unfolding list_all_length
proof (intro allI impI)
  fix n assume n: "n < length (zip includes pages)"
  then have "map fp_page_ref pages ! n = fp_page_ref (pages ! n)" and "map ir_page_ref includes ! n = ir_page_ref (includes ! n)"
    by simp_all
  with n fetch_refs [OF assms] show "case zip includes pages ! n of (i, p) \<Rightarrow> ir_page_ref i = fp_page_ref p"
    by simp
qed

end

interpretation null: honest_includer null_include_pages
  by unfold_locales (auto simp: null_include_pages_def)

interpretation debug: honest_includer "debug_include_pages show_map first_missing"
  by unfold_locales
    (auto simp: debug_include_pages_def case_prod_beta intro!: nth_equalityI)

subsection \<open>Finding blocks\<close>

definition quote_space :: "char \<Rightarrow> bool" where
  "quote_space c \<longleftrightarrow> c = CHR '' '' \<or> c = CHR 0x09"

function quote_prefix_end :: "bytes \<Rightarrow> nat \<Rightarrow> nat" where
  "quote_prefix_end s i =
     (let j = scan_while quote_space s i in
      if get s j = Some (CHR ''>'') then quote_prefix_end s (j + 1) else i)"
  by pat_completeness auto
termination
proof (relation "measure (\<lambda>(s, i). length s - i)")
  fix s :: bytes and i j :: nat
  assume "j = scan_while quote_space s i" "get s j = Some (CHR ''>'')"
  then show "((s, j + 1), s, i) \<in> measure (\<lambda>(s, i). length s - i)"
    using scan_while_ge [of i quote_space s] by (auto simp: get_Some_iff)
qed auto

declare quote_prefix_end.simps [simp del]

definition unicode_space_end :: "bytes \<Rightarrow> nat \<Rightarrow> nat" where
  "unicode_space_end s i = i + length (concat (takeWhile is_whitespace (chars (drop i s))))"

text \<open>A match of the pattern at \<open>i\<close>, as its end.\<close>

definition include_match_at :: "bytes \<Rightarrow> nat \<Rightarrow> nat option" where
  "include_match_at s i =
     (if i = 0 \<or> s ! (i - 1) = CHR 0x0A then
        let m = quote_prefix_end s i in
        if has s m ''[['' \<and> eq_ignore_ascii_case (slice s (m + 2) (m + 9)) ''include''
        then let e = unicode_space_end s (m + 9) in if e = m + 9 then None else Some e
        else None
      else None)"

function find_include :: "bytes \<Rightarrow> nat \<Rightarrow> (nat \<times> nat) option" where
  "find_include s i =
     (if i < length s then
        (case include_match_at s i of Some e \<Rightarrow> Some (i, e) | None \<Rightarrow> find_include s (i + 1))
      else None)"
  by pat_completeness auto
termination by (relation "measure (\<lambda>(s, i). length s - i)") auto

declare find_include.simps [simp del]

function find_include_end :: "bytes \<Rightarrow> nat \<Rightarrow> nat \<Rightarrow> nat option" where
  "find_include_end input index end_bound =
     (if index + 2 \<le> end_bound then
        let e = index + 2 in
        if get input index = Some (CHR '']'') \<and> get input (index + 1) = Some (CHR '']'') \<and>
           (e = length input \<or> has input e [CHR 0x0A] \<or> has input e [CHR 0x0D, CHR 0x0A])
        then Some e else find_include_end input (index + 1) end_bound
      else None)"
  by pat_completeness auto
termination by (relation "measure (\<lambda>(s, i, b). b + 2 - i)") auto

declare find_include_end.simps [simp del]

subsection \<open>Quoted blocks\<close>

record offset_segment =
  normalized_start :: nat
  normalized_end :: nat
  original_start :: nat

definition skip_horizontal_space :: "bytes \<Rightarrow> nat \<Rightarrow> nat" where
  "skip_horizontal_space bs offset = scan_while quote_space bs offset"

fun strip_quotes :: "nat \<Rightarrow> bytes \<Rightarrow> nat \<Rightarrow> nat option" where
  "strip_quotes 0 bs offset = Some offset"
| "strip_quotes (Suc n) bs offset =
     (if get bs offset \<noteq> Some (CHR ''>'') then None
      else strip_quotes n bs (skip_horizontal_space bs (offset + 1)))"

definition strip_quote_prefix :: "bytes \<Rightarrow> nat \<Rightarrow> nat option" where
  "strip_quote_prefix line quote_depth = strip_quotes quote_depth line (skip_horizontal_space line 0)"

text \<open>
  The loop over the lines; \<open>offset_of\<close> gives the offset of the content of a line, that of the
  marker for the first one.  Lines are cut after quote marks and blanks, so the cuts never panic.
\<close>

fun normalize_lines ::
  "nat \<Rightarrow> nat \<Rightarrow> nat option \<Rightarrow> nat \<Rightarrow> bytes list \<Rightarrow> bytes \<Rightarrow> offset_segment list \<Rightarrow> bytes \<times> offset_segment list" where
  "normalize_lines quote_depth end_bound marker original [] normalized segments = (normalized, segments)"
| "normalize_lines quote_depth end_bound marker original (line # rest) normalized segments =
     (case (case marker of Some offset \<Rightarrow> Some offset | None \<Rightarrow> strip_quote_prefix line quote_depth) of
        None \<Rightarrow> (normalized, segments)
      | Some offset \<Rightarrow>
          let content = drop offset line;
              segment = \<lparr>normalized_start = length normalized,
                         normalized_end = length (normalized @ content),
                         original_start = original + offset\<rparr>;
              normalized = normalized @ content; segments = segments @ [segment];
              original = original + length line
          in if original \<ge> end_bound then (normalized, segments)
             else normalize_lines quote_depth end_bound None original rest normalized segments)"

definition original_offset :: "offset_segment list \<Rightarrow> nat \<Rightarrow> nat option" where
  "original_offset segments n =
     map_option (\<lambda>g. original_start g + n - normalized_start g)
       (find (\<lambda>g. normalized_start g < n \<and> n \<le> normalized_end g) segments)"

definition normalize_and_parse ::
  "(bytes \<Rightarrow> bytes) \<Rightarrow> bytes \<Rightarrow> nat \<Rightarrow> nat \<Rightarrow> nat \<Rightarrow> nat \<Rightarrow> nat option option" where
  "normalize_and_parse slug input line_start marker_start quote_depth end_bound =
     (case normalize_lines quote_depth end_bound (Some (marker_start - line_start)) line_start
             (split_inclusive (drop line_start input)) [] [] of
        (normalized, segments) \<Rightarrow>
          (case parse_include_block slug normalized 0 of
             None \<Rightarrow> None
           | Some (Inl e) \<Rightarrow> Some None
           | Some (Inr (r, e)) \<Rightarrow> Some (original_offset segments e)))"

definition parse_quoted_include ::
  "(bytes \<Rightarrow> bytes) \<Rightarrow> bytes \<Rightarrow> nat \<Rightarrow> nat \<Rightarrow> nat \<Rightarrow> nat \<Rightarrow> nat option option" where
  "parse_quoted_include slug input line_start marker_start quote_depth candidate_end =
     (case normalize_and_parse slug input line_start marker_start quote_depth candidate_end of
        None \<Rightarrow> None
      | Some (Some e) \<Rightarrow> Some (Some e)
      | Some None \<Rightarrow> normalize_and_parse slug input line_start marker_start quote_depth (length input))"

subsection \<open>Where blocks end\<close>

lemma quote_prefix_end_ge: "i \<le> quote_prefix_end s i"
proof (induction s i rule: quote_prefix_end.induct)
  case (1 s i)
  show ?case
    using 1 [OF refl] scan_while_ge [of i quote_space s]
    by (subst quote_prefix_end.simps) (auto simp: Let_def)
qed

lemma unicode_space_end_ge: "i \<le> unicode_space_end s i"
  by (simp add: unicode_space_end_def)

lemma include_match_at_bounds: "include_match_at s i = Some e \<Longrightarrow> i + 9 < e"
  using quote_prefix_end_ge [of i s] unicode_space_end_ge [of "quote_prefix_end s i + 9" s]
  by (auto simp: include_match_at_def Let_def split: if_splits)

lemma find_include_Some:
  "find_include s i = Some (start, e) \<Longrightarrow> i \<le> start \<and> start < length s \<and> include_match_at s start = Some e"
proof (induction s i rule: find_include.induct)
  case (1 s i)
  show ?case
  proof (cases "i < length s \<and> include_match_at s i = None")
    case True
    with 1 show ?thesis by (auto simp: find_include.simps [of s i])
  next
    case False
    with 1(2) show ?thesis
      by (subst (asm) find_include.simps) (auto split: if_splits option.splits)
  qed
qed

lemma find_include_end_Some:
  "find_include_end input i b = Some e \<Longrightarrow>
   i + 2 \<le> e \<and> e \<le> b \<and> has input (e - 2) '']]'' \<and> (e = length input \<or> input ! e = CHR 0x0A \<or> input ! e = CHR 0x0D)"
proof (induction input i b rule: find_include_end.induct)
  case (1 input i b)
  show ?case
  proof (cases "get input i = Some (CHR '']'') \<and> get input (i + 1) = Some (CHR '']'') \<and>
      (i + 2 = length input \<or> has input (i + 2) [CHR 0x0A] \<or> has input (i + 2) [CHR 0x0D, CHR 0x0A])")
    case True
    have "has input i '']]''"
      using True by (auto simp: has_def get_Some_iff Cons_nth_drop_Suc [symmetric])
    moreover from True "1.prems" have "e = i + 2" "i + 2 \<le> b"
      by (subst (asm) find_include_end.simps, auto simp: Let_def split: if_splits)+
    moreover from True have "i + 2 = length input \<or> input ! (i + 2) = CHR 0x0A \<or> input ! (i + 2) = CHR 0x0D"
      by (auto dest: has_0)
    ultimately show ?thesis by simp
  next
    case False
    with 1 show ?thesis
      by (subst (asm) find_include_end.simps) (auto simp: Let_def split: if_splits)
  qed
qed

lemma parse_include_block_end:
  "parse_include_block slug source start = Some (Inr (r, e)) \<Longrightarrow> start + 13 \<le> e"
  by (auto simp: parse_include_block_def Let_def map_sum_def split: if_splits option.splits sum.splits
      dest: peg_include_extent(2))

text \<open>A segment with content copies a piece of the input that ends with its line.\<close>

definition segment_copies :: "bytes \<Rightarrow> bytes \<Rightarrow> nat \<Rightarrow> offset_segment \<Rightarrow> bool" where
  "segment_copies input normalized start g \<longleftrightarrow>
     (normalized_start g < normalized_end g \<longrightarrow>
        (let n = normalized_end g - normalized_start g; e = original_start g + n in
         start \<le> original_start g \<and> e \<le> length input \<and> normalized_end g \<le> length normalized \<and>
         slice input (original_start g) e = slice normalized (normalized_start g) (normalized_end g) \<and>
         (e = length input \<or> input ! (e - 1) = CHR 0x0A)))"

lemma segment_copies_append:
  "segment_copies input normalized start g \<Longrightarrow> segment_copies input (normalized @ x) start g"
  by (auto simp: segment_copies_def Let_def slice_def)

lemma normalize_lines_copies:
  assumes "normalize_lines quote_depth end_bound marker original lines normalized segments = (normalized', segments')"
    and "lines = split_inclusive (drop original input)" and "original \<le> length input" and "start \<le> original"
    and "list_all (segment_copies input normalized start) segments"
  shows "list_all (segment_copies input normalized' start) segments'"
  using assms
proof (induction lines arbitrary: marker original normalized segments)
  case (Cons line rest)
  note sp = split_inclusive_Cons [OF Cons.prems(2) [symmetric]]
  let ?offset = "case marker of Some offset \<Rightarrow> Some offset | None \<Rightarrow> strip_quote_prefix line quote_depth"
  show ?case
  proof (cases ?offset)
    case None
    with Cons.prems(1,5) show ?thesis by simp
  next
    case (Some offset)
    let ?n = "normalized @ drop offset line" and ?o = "original + length line"
    let ?g = "\<lparr>normalized_start = length normalized, normalized_end = length ?n, original_start = original + offset\<rparr>"
    have inp: "input = take original input @ line @ concat rest"
      using sp by (metis append_take_drop_id)
    have len: "?o \<le> length input" using arg_cong [OF inp, of length] Cons.prems(3) by simp
    have rest: "drop ?o input = concat rest"
      using Cons.prems(3) by (subst inp) (simp add: drop_append)
    have b: "slice input (original + offset) ?o = drop offset line" if "offset < length line"
      using that Cons.prems(3) by (subst inp) (simp add: slice_def)
    have c: "slice ?n (length normalized) (length ?n) = drop offset line"
      by (simp add: slice_def)
    have d: "?o = length input \<or> input ! (?o - 1) = CHR 0x0A"
    proof (cases "rest = []")
      case True
      then show ?thesis using arg_cong [OF inp, of length] Cons.prems(3) by simp
    next
      case False
      with sp have "last line = CHR 0x0A" "line \<noteq> []" by auto
      moreover have "input ! (?o - 1) = last line"
      proof -
        from \<open>line \<noteq> []\<close> obtain cs c' where "line = cs @ [c']" by (cases line rule: rev_cases) auto
        then show ?thesis using Cons.prems(3) by (subst inp) (simp add: nth_append)
      qed
      ultimately show ?thesis by simp
    qed
    have g: "segment_copies input ?n start ?g"
    proof (cases "offset < length line")
      case True
      then have "original + offset + (length line - offset) = ?o" by simp
      with b [OF True] c d len Cons.prems(4) show ?thesis
        by (simp add: segment_copies_def Let_def)
    next
      case False
      then show ?thesis by (simp add: segment_copies_def)
    qed
    have all: "list_all (segment_copies input ?n start) (segments @ [?g])"
      using Cons.prems(5) g segment_copies_append by (auto simp: list_all_iff)
    show ?thesis
    proof (cases "?o \<ge> end_bound")
      case True
      with Cons.prems(1) Some have "normalized' = ?n" "segments' = segments @ [?g]"
        by (auto simp: Let_def)
      with all show ?thesis by (simp only:)
    next
      case False
      with Cons.prems(1) Some
      have "normalize_lines quote_depth end_bound None ?o rest ?n (segments @ [?g]) = (normalized', segments')"
        by (simp add: Let_def)
      moreover have "rest = split_inclusive (drop ?o input)" using sp rest by simp
      moreover have "start \<le> ?o" using Cons.prems(4) by simp
      ultimately show ?thesis by (rule Cons.IH [OF _ _ len _ all])
    qed
  qed
qed simp

lemma original_offset_Some:
  assumes "original_offset segments n = Some e" and "list_all (segment_copies input normalized start) segments"
    and "valid_utf8 input" and "boundary normalized n"
  shows "start < e \<and> e \<le> length input \<and> boundary input e"
proof -
  from assms(1) obtain g where f: "find (\<lambda>g. normalized_start g < n \<and> n \<le> normalized_end g) segments = Some g"
    and e: "e = original_start g + n - normalized_start g"
    by (auto simp: original_offset_def)
  from f have g: "g \<in> set segments" and n: "normalized_start g < n" "n \<le> normalized_end g"
    by (auto simp: find_Some_iff)
  let ?e = "original_start g + (normalized_end g - normalized_start g)"
  from g assms(2) n have start: "start \<le> original_start g" and le: "?e \<le> length input" "normalized_end g \<le> length normalized"
    and sl: "slice input (original_start g) ?e = slice normalized (normalized_start g) (normalized_end g)"
    and last: "?e = length input \<or> input ! (?e - 1) = CHR 0x0A"
    by (auto simp: list_all_iff segment_copies_def Let_def)
  have e2: "e = original_start g + (n - normalized_start g)" using e n by simp
  have "boundary input e"
  proof (cases "n = normalized_end g")
    case True
    show ?thesis
    proof (cases "?e = length input")
      case False
      with last have nl: "input ! (?e - 1) = CHR 0x0A" by simp
      have "boundary input (?e - 1)"
        using nl le n by (intro boundary_of_ascii) (auto simp: is_ascii_def)
      then have "boundary input (Suc (?e - 1))"
        using nl le n assms(3) by (intro boundary_ascii) (auto simp: is_ascii_def)
      moreover have "Suc (?e - 1) = e" using True n e2 by simp
      ultimately show ?thesis by simp
    qed (use True e2 in simp)
  next
    case False
    with n have k: "n - normalized_start g < normalized_end g - normalized_start g" by simp
    have "input ! e = slice input (original_start g) ?e ! (n - normalized_start g)"
      using k le by (simp add: e2 slice_def)
    also have "\<dots> = normalized ! n"
      using k le n unfolding sl by (simp add: slice_def)
    finally have "input ! e = normalized ! n" .
    moreover have "e < length input" using k le e2 by simp
    moreover have "n < length normalized" using False n le by simp
    ultimately show ?thesis using assms(4) n by (auto simp: boundary_def)
  qed
  with start n le e2 show ?thesis by auto
qed

text \<open>The normalized text is made of whole pieces of lines, so it stays valid.\<close>

lemma strip_quotes_boundary:
  "strip_quotes n line i = Some j \<Longrightarrow> valid_utf8 line \<Longrightarrow> boundary line i \<Longrightarrow> boundary line j"
proof (induction n line i rule: strip_quotes.induct)
  case (2 n bs i)
  then have i: "bs ! i = CHR ''>''" "i < length bs"
    by (auto simp: get_Some_iff split: if_splits)
  then have "boundary bs (i + 1)"
    using boundary_ascii [OF "2.prems"(2,3)] by (simp add: is_ascii_def)
  then have "boundary bs (skip_horizontal_space bs (i + 1))"
    unfolding skip_horizontal_space_def
    by (intro scan_while_boundary "2.prems"(2)) (auto simp: quote_space_def is_ascii_def)
  with 2 show ?case by (auto split: if_splits)
qed simp

lemma split_inclusive_valid:
  assumes "split_inclusive t = l # ls" and "valid_utf8 t"
  shows "valid_utf8 l" and "valid_utf8 (concat ls)"
proof -
  note sp = split_inclusive_Cons [OF assms(1)]
  have "boundary t (length l)"
  proof (cases "ls = []")
    case True
    with sp show ?thesis by simp
  next
    case False
    with sp obtain l' where l: "l = l' @ [CHR 0x0A]" by (cases l rule: rev_cases) auto
    with sp have nl: "t ! length l' = CHR 0x0A" "length l' < length t" by (auto simp: nth_append)
    then have "boundary t (length l')" by (intro boundary_of_ascii) (auto simp: is_ascii_def)
    then have "boundary t (Suc (length l'))"
      using nl assms(2) by (intro boundary_ascii) (auto simp: is_ascii_def)
    then show ?thesis by (simp add: l)
  qed
  from boundary_split [OF assms(2) this] sp show "valid_utf8 l" "valid_utf8 (concat ls)"
    by (metis append_eq_conv_conj le_add1 length_append)+
qed

lemma normalize_lines_valid:
  assumes "normalize_lines quote_depth end_bound marker original lines normalized segments = (normalized', segments')"
    and "lines = split_inclusive t" and "valid_utf8 t" and "valid_utf8 normalized"
    and "case marker of Some offset \<Rightarrow> lines \<noteq> [] \<and> boundary (hd lines) offset | None \<Rightarrow> True"
  shows "valid_utf8 normalized'"
  using assms
proof (induction lines arbitrary: marker original normalized segments t)
  case (Cons line rest)
  note sp = split_inclusive_Cons [OF Cons.prems(2) [symmetric]]
  note v = split_inclusive_valid [OF Cons.prems(2) [symmetric] Cons.prems(3)]
  let ?offset = "case marker of Some offset \<Rightarrow> Some offset | None \<Rightarrow> strip_quote_prefix line quote_depth"
  show ?case
  proof (cases ?offset)
    case None
    with Cons.prems(1,4) show ?thesis by simp
  next
    case (Some offset)
    have b: "boundary line offset"
    proof (cases marker)
      case None
      with Some have "strip_quotes quote_depth line (skip_horizontal_space line 0) = Some offset"
        by (simp add: strip_quote_prefix_def)
      then show ?thesis
      proof (rule strip_quotes_boundary [OF _ v(1)])
        show "boundary line (skip_horizontal_space line 0)"
          unfolding skip_horizontal_space_def
          by (intro scan_while_boundary v(1)) (auto simp: quote_space_def is_ascii_def)
      qed
    next
      case (Some offset')
      with \<open>?offset = Some offset\<close> Cons.prems(5) show ?thesis by simp
    qed
    have "valid_utf8 (drop offset line)"
    proof (cases "offset \<le> length line")
      case True
      then show ?thesis using boundary_split [OF v(1) b] by simp
    qed simp
    with Cons.prems(4) have n: "valid_utf8 (normalized @ drop offset line)" by (simp add: valid_utf8_append)
    show ?thesis
    proof (cases "original + length line \<ge> end_bound")
      case True
      with Cons.prems(1) Some n show ?thesis by (auto simp: Let_def)
    next
      case False
      with Cons.prems(1) Some
      have r: "normalize_lines quote_depth end_bound None (original + length line) rest (normalized @ drop offset line)
          (segments @ [\<lparr>normalized_start = length normalized, normalized_end = length (normalized @ drop offset line),
            original_start = original + offset\<rparr>]) = (normalized', segments')"
        by (simp add: Let_def)
      from sp have "rest = split_inclusive (concat rest)" by blast
      from Cons.IH [OF r this v(2) n] show ?thesis by simp
    qed
  qed
qed simp

subsection \<open>The search loop\<close>

lemma normalize_and_parse_end:
  assumes "normalize_and_parse slug input line_start marker_start quote_depth end_bound = Some (Some e)"
    and "line_start \<le> length input"
  shows "line_start < e"
proof -
  obtain normalized segments where n: "normalize_lines quote_depth end_bound (Some (marker_start - line_start)) line_start
      (split_inclusive (drop line_start input)) [] [] = (normalized, segments)" by fastforce
  with assms(1) obtain m where o: "original_offset segments m = Some e"
    by (auto simp: normalize_and_parse_def split: option.splits sum.splits)
  then obtain g where f: "find (\<lambda>g. normalized_start g < m \<and> m \<le> normalized_end g) segments = Some g"
    and e: "e = original_start g + m - normalized_start g"
    by (auto simp: original_offset_def)
  from f have g: "g \<in> set segments" "normalized_start g < m" "m \<le> normalized_end g"
    by (auto simp: find_Some_iff)
  have "list_all (segment_copies input normalized line_start) segments"
    by (rule normalize_lines_copies [OF n refl assms(2)]) simp_all
  with g have "line_start \<le> original_start g" by (auto simp: list_all_iff segment_copies_def Let_def)
  with e g show ?thesis by simp
qed

lemma parse_quoted_include_end:
  "parse_quoted_include slug input line_start marker_start quote_depth candidate_end = Some (Some e) \<Longrightarrow>
   line_start \<le> length input \<Longrightarrow> line_start < e"
  by (auto simp: parse_quoted_include_def split: option.splits dest: normalize_and_parse_end)

definition push_block ::
  "(nat \<times> nat) \<times> include_ref \<Rightarrow> (((nat \<times> nat) \<times> include_ref) list \<times> (nat \<times> nat) list) option \<Rightarrow>
   (((nat \<times> nat) \<times> include_ref) list \<times> (nat \<times> nat) list) option" where
  "push_block b = map_option (\<lambda>(blocks, quoted). (b # blocks, quoted))"

definition push_quoted ::
  "nat \<times> nat \<Rightarrow> (((nat \<times> nat) \<times> include_ref) list \<times> (nat \<times> nat) list) option \<Rightarrow>
   (((nat \<times> nat) \<times> include_ref) list \<times> (nat \<times> nat) list) option" where
  "push_quoted q = map_option (\<lambda>(blocks, quoted). (blocks, q # quoted))"

lemma push_block_Some: "push_block b m = Some (xs, ys) \<longleftrightarrow> (\<exists>bs. m = Some (bs, ys) \<and> xs = b # bs)"
  by (cases m) (auto simp: push_block_def)

lemma push_quoted_Some: "push_quoted q m = Some (xs, ys) \<longleftrightarrow> (\<exists>qs. m = Some (xs, qs) \<and> ys = q # qs)"
  by (cases m) (auto simp: push_quoted_def)

text \<open>
  The loop: the ranges and includes of the blocks, and the ranges of the consumed quoted blocks.
  A match without \<open>[[\<close> would be a panic.
\<close>

function include_loop ::
  "(bytes \<Rightarrow> bytes) \<Rightarrow> bytes \<Rightarrow> nat \<Rightarrow> (((nat \<times> nat) \<times> include_ref) list \<times> (nat \<times> nat) list) option" where
  "include_loop slug input search_start =
     (case find_include input search_start of
        None \<Rightarrow> Some ([], [])
      | Some (start, match_end) \<Rightarrow>
          (case find_sub ''[['' (slice input start match_end) of
             None \<Rightarrow> None
           | Some marker_offset \<Rightarrow>
               (case find_include_end input match_end (length input) of
                  None \<Rightarrow> include_loop slug input (length input)
                | Some candidate_end \<Rightarrow>
                    if marker_offset = 0 then
                      (case parse_include_block slug input start of
                         None \<Rightarrow> None
                       | Some (Inl e) \<Rightarrow> include_loop slug input candidate_end
                       | Some (Inr (r, e)) \<Rightarrow> push_block ((start, e), r) (include_loop slug input e))
                    else
                      let marker_start = start + marker_offset;
                          quote_depth = length (filter (\<lambda>c. c = CHR ''>'') (slice input start marker_start))
                      in (case parse_quoted_include slug input start marker_start quote_depth candidate_end of
                            None \<Rightarrow> None
                          | Some None \<Rightarrow> include_loop slug input candidate_end
                          | Some (Some e) \<Rightarrow> push_quoted (start, e) (include_loop slug input e)))))"
  by pat_completeness auto
termination
proof (relation "measure (\<lambda>(slug, input, i). length input - i)", goal_cases)
  case (2 slug input i x start m)
  then show ?case by (auto dest: find_include_Some)
next
  case (3 slug input i x start m)
  then show ?case
    by (auto dest!: find_include_Some include_match_at_bounds find_include_end_Some)
next
  case (4 slug input i x start m)
  then show ?case by (auto dest!: find_include_Some parse_include_block_end)
next
  case (5 slug input i x start m)
  then show ?case
    by (auto dest!: find_include_Some include_match_at_bounds find_include_end_Some)
next
  case (6 slug input i x start m)
  then show ?case by (auto dest!: find_include_Some parse_quoted_include_end [OF _ less_imp_le])
qed simp

declare include_loop.simps [simp del]

subsection \<open>The ranges the loop finds\<close>

lemma quote_prefix_all:
  "i \<le> k \<Longrightarrow> k < quote_prefix_end s i \<Longrightarrow> s ! k = CHR ''>'' \<or> quote_space (s ! k)"
proof (induction s i rule: quote_prefix_end.induct)
  case (1 s i)
  let ?j = "scan_while quote_space s i"
  show ?case
  proof (cases "get s ?j = Some (CHR ''>'')")
    case True
    then have e: "quote_prefix_end s i = quote_prefix_end s (?j + 1)"
      by (subst quote_prefix_end.simps) (simp add: Let_def)
    consider "k < ?j" | "k = ?j" | "?j + 1 \<le> k" by linarith
    then show ?thesis
    proof cases
      case 1
      then show ?thesis using scan_while_all [OF "1.prems"(1), of quote_space s] by simp
    next
      case 2
      then show ?thesis using True by (simp add: get_Some_iff)
    next
      case 3
      then show ?thesis using 1(1) [OF refl True] "1.prems"(2) e by simp
    qed
  next
    case False
    then have "quote_prefix_end s i = i"
      by (subst quote_prefix_end.simps) (simp add: Let_def)
    with "1.prems" show ?thesis by simp
  qed
qed

lemma has_nth_starts: "has s i p \<longleftrightarrow> i + length p \<le> length s \<and> starts_with (drop i s) p"
  by (rule has_iff)

lemma include_match_marker:
  assumes "include_match_at s i = Some e" and "find_sub ''[['' (slice s i e) = Some off"
  shows "i + off < length s" and "s ! (i + off) = CHR ''[''"
    and "\<And>k. i \<le> k \<Longrightarrow> k < i + off \<Longrightarrow> s ! k = CHR ''>'' \<or> quote_space (s ! k)"
proof -
  let ?m = "quote_prefix_end s i"
  from assms(1) have h: "has s ?m ''[[''" and e: "?m + 9 < e"
    using unicode_space_end_ge [of "?m + 9" s]
    by (auto simp: include_match_at_def Let_def split: if_splits)
  have m: "i \<le> ?m" by (rule quote_prefix_end_ge)
  have ml: "?m + 2 \<le> length s" using has_length [OF h] by simp
  have at_m: "starts_with (drop (?m - i) (slice s i e)) ''[[''"
    using h m e by (simp add: slice_def has_def starts_with_def drop_take take_take min_def)
  have o: "off + 2 \<le> length (slice s i e)" "starts_with (drop off (slice s i e)) ''[[''"
    using find_sub_Some [OF assms(2)] by auto
  have "off \<le> ?m - i"
    using find_sub_least [OF assms(2), of "?m - i"] at_m by (meson not_le)
  then have le: "i + off \<le> ?m" using m by simp
  then show l: "i + off < length s" using ml by simp
  from o have "slice s i e ! off = CHR ''[''"
    by (cases "drop off (slice s i e)") (auto dest: nth_via_drop)
  then show "s ! (i + off) = CHR ''[''"
    using o(1) l by (simp add: slice_def)
  show "\<And>k. i \<le> k \<Longrightarrow> k < i + off \<Longrightarrow> s ! k = CHR ''>'' \<or> quote_space (s ! k)"
    using quote_prefix_all le by (meson less_le_trans)
qed

lemma include_match_boundary:
  assumes "valid_utf8 s" and "include_match_at s i = Some e" and "i < length s"
  shows "boundary s i"
proof (cases "i = 0")
  case False
  with assms(2) have nl: "s ! (i - 1) = CHR 0x0A"
    by (auto simp: include_match_at_def split: if_splits)
  have "boundary s (i - 1)"
    using nl assms(3) by (intro boundary_of_ascii) (auto simp: is_ascii_def)
  then have "boundary s (Suc (i - 1))"
    using nl assms(1,3) by (intro boundary_ascii) (auto simp: is_ascii_def)
  with False show ?thesis by simp
qed simp

lemma first_line:
  "n < length t \<Longrightarrow> (\<And>k. k < n \<Longrightarrow> t ! k \<noteq> CHR 0x0A) \<Longrightarrow>
   split_inclusive t \<noteq> [] \<and> n < length (hd (split_inclusive t)) \<and> hd (split_inclusive t) ! n = t ! n"
proof (induction t arbitrary: n)
  case (Cons c t)
  show ?case
  proof (cases n)
    case 0
    then show ?thesis by (auto split: list.split)
  next
    case (Suc m)
    have c: "c \<noteq> CHR 0x0A" using Cons.prems(2) [of 0] Suc by simp
    have "t ! k \<noteq> CHR 0x0A" if "k < m" for k using Cons.prems(2) [of "Suc k"] Suc that by simp
    with Cons.IH [of m] Cons.prems(1) Suc c show ?thesis by (auto split: list.split)
  qed
qed simp

lemma normalize_and_parse_range:
  assumes "normalize_and_parse slug input start (start + off) quote_depth end_bound = Some (Some e)"
    and "valid_utf8 input" and "boundary input start" and "start + off < length input"
    and "input ! (start + off) = CHR ''[''"
    and "\<And>k. start \<le> k \<Longrightarrow> k < start + off \<Longrightarrow> input ! k = CHR ''>'' \<or> quote_space (input ! k)"
  shows "start < e \<and> e \<le> length input \<and> boundary input e"
proof -
  let ?t = "drop start input"
  obtain normalized segments where n: "normalize_lines quote_depth end_bound (Some off) start
      (split_inclusive ?t) [] [] = (normalized, segments)" by fastforce
  with assms(1) obtain r m where p: "parse_include_block slug normalized 0 = Some (Inr (r, m))"
    and o: "original_offset segments m = Some e"
    by (auto simp: normalize_and_parse_def split: option.splits sum.splits)
  have v: "valid_utf8 ?t" using boundary_split [OF assms(2,3)] assms(4) by simp
  have "?t ! k \<noteq> CHR 0x0A" if "k < off" for k
    using assms(6) [of "start + k"] that assms(4) by (auto simp: quote_space_def)
  from first_line [of off ?t, OF _ this] assms(4,5)
  have l: "split_inclusive ?t \<noteq> []" "off < length (hd (split_inclusive ?t))" "hd (split_inclusive ?t) ! off = CHR ''[''"
    by auto
  then have "boundary (hd (split_inclusive ?t)) off"
    by (intro boundary_of_ascii) (auto simp: is_ascii_def)
  with l normalize_lines_valid [OF n refl v] have "valid_utf8 normalized" by simp
  from block_extent [OF this p] have "boundary normalized m" by simp
  moreover have "list_all (segment_copies input normalized start) segments"
    using assms(4) by (intro normalize_lines_copies [OF n refl]) simp_all
  ultimately show ?thesis using original_offset_Some [OF o _ assms(2)] by blast
qed

fun blocks_of :: "((nat \<times> nat) \<times> 'a option) list \<Rightarrow> ((nat \<times> nat) \<times> 'a) list" where
  "blocks_of [] = []"
| "blocks_of ((a, Some r) # ms) = (a, r) # blocks_of ms"
| "blocks_of ((a, None) # ms) = blocks_of ms"

fun quoted_of :: "((nat \<times> nat) \<times> 'a option) list \<Rightarrow> (nat \<times> nat) list" where
  "quoted_of [] = []"
| "quoted_of ((a, Some r) # ms) = quoted_of ms"
| "quoted_of ((a, None) # ms) = a # quoted_of ms"

lemma include_loop_found:
  assumes "find_include input i = Some (start, match_end)"
  shows "include_loop slug input i = (case find_sub ''[['' (slice input start match_end) of
             None \<Rightarrow> None
           | Some marker_offset \<Rightarrow>
               (case find_include_end input match_end (length input) of
                  None \<Rightarrow> include_loop slug input (length input)
                | Some candidate_end \<Rightarrow>
                    if marker_offset = 0 then
                      (case parse_include_block slug input start of
                         None \<Rightarrow> None
                       | Some (Inl e) \<Rightarrow> include_loop slug input candidate_end
                       | Some (Inr (r, e)) \<Rightarrow> push_block ((start, e), r) (include_loop slug input e))
                    else
                      let marker_start = start + marker_offset;
                          quote_depth = length (filter (\<lambda>c. c = CHR ''>'') (slice input start marker_start))
                      in (case parse_quoted_include slug input start marker_start quote_depth candidate_end of
                            None \<Rightarrow> None
                          | Some None \<Rightarrow> include_loop slug input candidate_end
                          | Some (Some e) \<Rightarrow> push_quoted (start, e) (include_loop slug input e))))"
  by (subst include_loop.simps) (simp add: assms)

text \<open>Induction over the branches of the loop that return.\<close>

lemma include_loop_induct [consumes 1, case_names none skip block quoted]:
  assumes "include_loop slug input i = Some (blocks, quoted)"
    and none: "\<And>i. P i [] []"
    and skip: "\<And>i j blocks quoted. i \<le> j \<Longrightarrow> P j blocks quoted \<Longrightarrow> P i blocks quoted"
    and block: "\<And>i start e r blocks quoted. i \<le> start \<Longrightarrow> parse_include_block slug input start = Some (Inr (r, e)) \<Longrightarrow>
      P e blocks quoted \<Longrightarrow> P i (((start, e), r) # blocks) quoted"
    and quoted: "\<And>i start m off d ce e blocks quoted. i \<le> start \<Longrightarrow> start < length input \<Longrightarrow>
      include_match_at input start = Some m \<Longrightarrow> find_sub ''[['' (slice input start m) = Some off \<Longrightarrow>
      parse_quoted_include slug input start (start + off) d ce = Some (Some e) \<Longrightarrow>
      P e blocks quoted \<Longrightarrow> P i blocks ((start, e) # quoted)"
  shows "P i blocks quoted"
  using assms(1) block quoted
proof (induction slug input i arbitrary: blocks quoted rule: include_loop.induct)
  case (1 slug input i)
  show ?case
  proof (cases "find_include input i")
    case None
    with "1.prems"(1) none show ?thesis by (subst (asm) include_loop.simps) simp
  next
    case (Some m)
    obtain start match_end where m: "m = (start, match_end)" by fastforce
    from find_include_Some [OF Some [unfolded m]]
    have st: "i \<le> start" "start < length input" and mat: "include_match_at input start = Some match_end" by auto
    note eq = include_loop_found [OF Some [unfolded m], of slug]
    from "1.prems"(1) eq obtain off where off: "find_sub ''[['' (slice input start match_end) = Some off"
      by (auto split: option.splits)
    show ?thesis
    proof (cases "find_include_end input match_end (length input)")
      case None
      with eq off "1.prems"(1) have "include_loop slug input (length input) = Some (blocks, quoted)" by simp
      from "1.IH"(1) [OF Some m [symmetric] off None this "1.prems"(2,3)] st show ?thesis
        by (intro skip [of i "length input"]) simp
    next
      case ce: (Some ce)
      have ge: "i \<le> ce"
        using find_include_end_Some [OF ce] include_match_at_bounds [OF mat] st by linarith
      show ?thesis
      proof (cases "off = 0")
        case True
        with eq off ce "1.prems"(1) obtain x where x: "parse_include_block slug input start = Some x"
          by (auto split: option.splits)
        show ?thesis
        proof (cases x)
          case (Inl err)
          with eq off ce True x "1.prems"(1) have "include_loop slug input ce = Some (blocks, quoted)" by simp
          from skip [OF ge "1.IH"(2) [OF Some m [symmetric] off ce True x Inl this "1.prems"(2,3)]] show ?thesis .
        next
          case (Inr re)
          obtain r e where re: "re = (r, e)" by fastforce
          from "1.prems"(1) [unfolded eq off ce] True x Inr re obtain bs where
            l: "include_loop slug input e = Some (bs, quoted)" and b: "blocks = ((start, e), r) # bs"
            by (auto simp: push_block_Some)
          from "1.IH"(3) [OF Some m [symmetric] off ce True x Inr re [symmetric] l "1.prems"(2,3)]
          show ?thesis unfolding b by (rule "1.prems"(2) [OF st(1) x [unfolded Inr re]])
        qed
      next
        case False
        let ?d = "length (filter (\<lambda>c. c = CHR ''>'') (slice input start (start + off)))"
        from False eq off ce "1.prems"(1) obtain x where x: "parse_quoted_include slug input start (start + off) ?d ce = Some x"
          by (auto simp: Let_def split: option.splits)
        show ?thesis
        proof (cases x)
          case None
          with eq off ce False x "1.prems"(1) have "include_loop slug input ce = Some (blocks, quoted)" by simp
          from skip [OF ge "1.IH"(4) [OF Some m [symmetric] off ce False refl refl x None this "1.prems"(2,3)]] show ?thesis .
        next
          case e: (Some e)
          from "1.prems"(1) [unfolded eq off ce] False x e obtain qs where
            l: "include_loop slug input e = Some (blocks, qs)" and q: "quoted = (start, e) # qs"
            by (auto simp: push_quoted_Some Let_def)
          from "1.IH"(5) [OF Some m [symmetric] off ce False refl refl x e l "1.prems"(2,3)]
          show ?thesis unfolding q by (rule "1.prems"(3) [OF st mat off x [unfolded e]])
        qed
      qed
    qed
  qed
qed

lemma include_loop_ordered:
  assumes "include_loop slug input i = Some (blocks, quoted)" and "valid_utf8 input"
  shows "\<exists>ms. ordered_ranges input i ms \<and> blocks = blocks_of ms \<and> quoted = quoted_of ms"
  using assms(1)
proof (induction rule: include_loop_induct)
  case none
  show ?case by (intro exI [of _ "[]"]) simp
next
  case (skip i j)
  then show ?case using ordered_ranges_weaken by blast
next
  case (block i start e r bs qs)
  from block(3) obtain ms where "ordered_ranges input e ms" "bs = blocks_of ms" "qs = quoted_of ms" by blast
  with block_extent [OF assms(2) block(2)] block(1) show ?case
    by (intro exI [of _ "((start, e), Some r) # ms"]) simp
next
  case (quoted i start m off d ce e bs qs)
  note bd = include_match_boundary [OF assms(2) quoted(3,2)]
  have "start < e \<and> e \<le> length input \<and> boundary input e"
    using quoted(5) normalize_and_parse_range [OF _ assms(2) bd include_match_marker [OF quoted(3,4)]]
    by (auto simp: parse_quoted_include_def split: option.splits)
  moreover from quoted(6) obtain ms where "ordered_ranges input e ms" "bs = blocks_of ms" "qs = quoted_of ms" by blast
  ultimately show ?case
    using quoted(1) bd by (intro exI [of _ "((start, e), None) # ms"]) simp
qed

lemma include_loop_values:
  assumes "include_loop slug input i = Some (blocks, quoted)" and "valid_utf8 input"
  shows "list_all (\<lambda>b. valid_values (ir_variables (snd b))) blocks"
  using assms(1)
proof (induction rule: include_loop_induct)
  case (block i start e r bs qs)
  with block_values_valid [OF assms(2) block(2)] show ?case by simp
qed simp_all

subsection \<open>ASCII text never panics\<close>

lemma set_concat_dropWhile: "set (concat (dropWhile p xs)) \<subseteq> set (concat xs)"
  by (auto dest: set_dropWhileD)

lemma set_trim: "set (trim s) \<subseteq> set s"
proof -
  have "set (trim_start s) \<subseteq> set s" for s
    using set_concat_dropWhile [of is_whitespace "chars s"] unfolding trim_start_def concat_chars .
  moreover have "set (trim_end s) \<subseteq> set s" for s
  proof -
    have "set (concat (rev xs)) = set (concat xs)" for xs :: "bytes list" by simp
    with set_concat_dropWhile [of is_whitespace "rev (chars s)"] show ?thesis
      unfolding trim_end_def by (metis concat_chars)
  qed
  ultimately show ?thesis unfolding trim_def by blast
qed

lemma ascii_trim: "list_all is_ascii s \<Longrightarrow> list_all is_ascii (trim s)"
  using set_trim by (force simp: list_all_iff)

lemmas ascii_cuts = ascii_trim ascii_take ascii_drop

lemma canonical_site_ascii:
  assumes "list_all is_ascii raw"
  shows "canonical_include_site raw \<noteq> None"
proof -
  have "boundary t (length t - n)" if "t = trim raw \<or> Some t = strip_suffix ''.'' (trim raw)" for t n
    using that ascii_cuts [OF ascii_trim [OF assms]] ascii_trim [OF assms]
    by (intro ascii_boundary) (auto simp: strip_suffix_def split: if_splits)
  then show ?thesis
    by (auto simp: canonical_include_site_def Let_def split: option.split)
qed

lemma parse_include_ascii: "list_all is_ascii s \<Longrightarrow> parse_include slug s \<noteq> None"
  using canonical_site_ascii
  by (auto simp: parse_include_def parse_with_def Let_def slice_def ascii_cuts split: option.splits)

lemma process_pairs_total: "parse_include slug name \<noteq> None \<Longrightarrow> process_pairs slug name tail \<noteq> None"
  by (cases "parse_include slug name") (auto simp: process_pairs_def split: sum.splits)

lemma parse_block_ascii:
  assumes "list_all is_ascii source" and "start \<le> length source"
  shows "parse_include_block slug source start \<noteq> None"
proof -
  have "process_pairs slug (slice (drop start source) i j) tail \<noteq> None" for i j tail
    using assms(1) by (intro process_pairs_total parse_include_ascii) (simp add: slice_def ascii_cuts)
  then show ?thesis
    using ascii_boundary [OF assms] assms(2)
    by (auto simp: parse_include_block_def Let_def split: option.splits)
qed

lemma normalize_lines_ascii:
  "normalize_lines quote_depth end_bound marker original lines normalized segments = (normalized', segments') \<Longrightarrow>
   list_all (list_all is_ascii) lines \<Longrightarrow> list_all is_ascii normalized \<Longrightarrow> list_all is_ascii normalized'"
proof (induction quote_depth end_bound marker original lines normalized segments rule: normalize_lines.induct)
  case (2 quote_depth end_bound marker original line rest normalized segments)
  then show ?case
    by (auto simp: Let_def ascii_drop split: option.splits if_splits)
qed simp

lemma parse_quoted_ascii:
  assumes "list_all is_ascii input"
  shows "parse_quoted_include slug input a b c d \<noteq> None"
proof -
  have "set l \<subseteq> set (drop a input)" if "l \<in> set (split_inclusive (drop a input))" for l
    using that concat_split_inclusive [of "drop a input"] by (metis UN_upper set_concat)
  then have "list_all (list_all is_ascii) (split_inclusive (drop a input))"
    using ascii_drop [OF assms, of a] by (fastforce simp: list_all_iff)
  then have ascii: "list_all is_ascii normalized"
    if "normalize_lines c e m n (split_inclusive (drop a input)) [] [] = (normalized, segments)" for e m n normalized segments
    using normalize_lines_ascii [OF that] by simp
  have n: "normalize_and_parse slug input a b c e \<noteq> None" for e
  proof -
    obtain normalized segments where l: "normalize_lines c e (Some (b - a)) a (split_inclusive (drop a input)) [] [] = (normalized, segments)"
      by fastforce
    have "parse_include_block slug normalized 0 \<noteq> None"
      by (rule parse_block_ascii) (use ascii [OF l] in simp_all)
    with l show ?thesis by (auto simp: normalize_and_parse_def split: sum.split)
  qed
  show ?thesis using n by (auto simp: parse_quoted_include_def split: option.splits)
qed

lemma include_match_has_marker:
  assumes "include_match_at s i = Some e"
  shows "find_sub ''[['' (slice s i e) \<noteq> None"
proof -
  let ?m = "quote_prefix_end s i"
  from assms have h: "has s ?m ''[[''" and e: "?m + 9 < e"
    using unicode_space_end_ge [of "?m + 9" s]
    by (auto simp: include_match_at_def Let_def split: if_splits)
  have "starts_with (drop (?m - i) (slice s i e)) ''[[''"
    using h e quote_prefix_end_ge [of i s]
    by (simp add: slice_def has_def starts_with_def drop_take take_take min_def)
  then show ?thesis by (subst find_sub_None) auto
qed

lemma include_loop_ascii:
  "list_all is_ascii input \<Longrightarrow> include_loop slug input i \<noteq> None"
proof (induction slug input i rule: include_loop.induct)
  case (1 slug input i)
  show ?case
  proof
    assume l: "include_loop slug input i = None"
    then obtain start m where f: "find_include input i = Some (start, m)"
      by (subst (asm) include_loop.simps) (auto split: option.splits)
    from find_include_Some [OF f] have st: "start < length input" and mat: "include_match_at input start = Some m" by auto
    obtain off where off: "find_sub ''[['' (slice input start m) = Some off"
      using include_match_has_marker [OF mat] by auto
    note eq = l [unfolded include_loop_found [OF f] off option.case]
    show False
    proof (cases "find_include_end input m (length input)")
      case None
      with eq have "include_loop slug input (length input) = None" by simp
      with "1.IH"(1) [OF f refl off None "1.prems"] show False by simp
    next
      case ce: (Some ce)
      show False
      proof (cases "off = 0")
        case True
        obtain x where x: "parse_include_block slug input start = Some x"
          using parse_block_ascii [OF "1.prems" less_imp_le [OF st], of slug] by fastforce
        show False
        proof (cases x)
          case (Inl err)
          with eq ce True x have "include_loop slug input ce = None" by simp
          with "1.IH"(2) [OF f refl off ce True x Inl "1.prems"] show False by simp
        next
          case (Inr re)
          obtain r e where re: "re = (r, e)" by fastforce
          with eq ce True x Inr have "include_loop slug input e = None" by (simp add: push_block_def)
          with "1.IH"(3) [OF f refl off ce True x Inr re [symmetric] "1.prems"] show False by simp
        qed
      next
        case False
        let ?d = "length (filter (\<lambda>c. c = CHR ''>'') (slice input start (start + off)))"
        obtain x where x: "parse_quoted_include slug input start (start + off) ?d ce = Some x"
          using parse_quoted_ascii [OF "1.prems"] by fastforce
        show False
        proof (cases x)
          case None
          with eq ce False x have "include_loop slug input ce = None" by (simp add: Let_def)
          with "1.IH"(4) [OF f refl off ce False refl refl x None "1.prems"] show False by simp
        next
          case (Some e)
          with eq ce False x have "include_loop slug input e = None" by (simp add: push_quoted_def Let_def)
          with "1.IH"(5) [OF f refl off ce False refl refl x Some "1.prems"] show False by simp
        qed
      qed
    qed
  qed
qed

end
