(* ===== verification/Include_Pass.thy ===== *)
theory Include_Pass
  imports Includes "HOL-Library.Multiset"
begin

text \<open>
  The substitution of \<open>src/src/includes/mod.rs\<close>: the variables of the included pages, the
  replacement of the ranges from the last to the first, and the pass \<open>include\<close> as a whole.
\<close>

subsection \<open>Variables\<close>

definition variable_ranges :: "bytes \<Rightarrow> variable_map \<Rightarrow> ((nat \<times> nat) \<times> bytes) list" where
  "variable_ranges content variables =
     concat (map (\<lambda>(i, name, e). case map_of variables name of Some v \<Rightarrow> [((i, e), v)] | None \<Rightarrow> [])
       (variable_matches content 0))"

definition replace_variables :: "bytes \<Rightarrow> variable_map \<Rightarrow> bytes option" where
  "replace_variables content variables = replace_all (rev (variable_ranges content variables)) content"

text \<open>Reading the text once from left to right.\<close>

function substituted :: "variable_map \<Rightarrow> bytes \<Rightarrow> nat \<Rightarrow> bytes" where
  "substituted variables s i =
     (if i < length s then
        (case variable_at s i of
           Some (name, e) \<Rightarrow>
             (case map_of variables name of Some v \<Rightarrow> v | None \<Rightarrow> slice s i e) @ substituted variables s e
         | None \<Rightarrow> s ! i # substituted variables s (i + 1))
      else [])"
  by pat_completeness auto
termination
  by (relation "measure (\<lambda>(m, s, i). length s - i)") (auto dest: variable_at_bounds)

declare substituted.simps [simp del]

definition ranges_from :: "variable_map \<Rightarrow> bytes \<Rightarrow> nat \<Rightarrow> ((nat \<times> nat) \<times> bytes) list" where
  "ranges_from variables s i =
     concat (map (\<lambda>(i, name, e). case map_of variables name of Some v \<Rightarrow> [((i, e), v)] | None \<Rightarrow> [])
       (variable_matches s i))"

lemma ranges_from_ordered: "valid_utf8 s \<Longrightarrow> ordered_ranges s i (ranges_from variables s i)"
proof (induction s i rule: variable_matches.induct)
  case (1 s i)
  show ?case
  proof (cases "i < length s")
    case True
    show ?thesis
    proof (cases "variable_at s i")
      case None
      with 1 True have "ordered_ranges s (i + 1) (ranges_from variables s (i + 1))" by simp
      then have "ordered_ranges s i (ranges_from variables s (i + 1))" by (rule ordered_ranges_weaken) simp
      with None True show ?thesis
        by (simp add: ranges_from_def variable_matches.simps [of s i])
    next
      case (Some m)
      obtain name e where m: "m = (name, e)" by fastforce
      note r = variable_match_range [OF Some [unfolded m] "1.prems"]
      have o: "ordered_ranges s e (ranges_from variables s e)"
        using 1(2) [OF True Some m [symmetric] "1.prems"] .
      then have "ordered_ranges s i (ranges_from variables s e)" by (rule ordered_ranges_weaken) (use r in simp)
      with o r show ?thesis
        by (auto simp: ranges_from_def variable_matches.simps [of s i] True Some m split: option.split)
    qed
  qed (simp add: ranges_from_def variable_matches.simps)
qed

lemma splice_substituted:
  "valid_utf8 s \<Longrightarrow> i \<le> length s \<Longrightarrow> splice_to s i (length s) (ranges_from variables s i) = substituted variables s i"
proof (induction s i rule: variable_matches.induct)
  case (1 s i)
  show ?case
  proof (cases "i < length s")
    case True
    show ?thesis
    proof (cases "variable_at s i")
      case None
      let ?rs = "ranges_from variables s (i + 1)"
      note o = ranges_from_ordered [OF "1.prems"(1), of "i + 1" variables]
      have "splice_to s i (length s) ?rs = slice s i (i + 1) @ splice_to s (i + 1) (length s) ?rs"
        by (rule splice_shift [OF o]) (use True ranges_below_length [OF o] in auto)
      moreover have "slice s i (i + 1) = [s ! i]"
        using True by (simp add: slice_def take_Suc_conv_app_nth hd_drop_conv_nth take_Suc)
      moreover have "ranges_from variables s i = ?rs"
        using None True by (simp add: ranges_from_def variable_matches.simps [of s i])
      ultimately show ?thesis
        using 1(1) [OF True None "1.prems"(1)] True None by (simp add: substituted.simps [of variables s i])
    next
      case (Some m)
      obtain name e where m: "m = (name, e)" by fastforce
      note r = variable_match_range [OF Some [unfolded m] "1.prems"(1)]
      let ?rs = "ranges_from variables s e"
      have IH: "splice_to s e (length s) ?rs = substituted variables s e"
        using 1(2) [OF True Some m [symmetric] "1.prems"(1)] r by simp
      note o = ranges_from_ordered [OF "1.prems"(1), of e variables]
      show ?thesis
      proof (cases "map_of variables name")
        case None
        have "splice_to s i (length s) ?rs = slice s i e @ splice_to s e (length s) ?rs"
          by (rule splice_shift [OF o]) (use r ranges_below_length [OF o] in auto)
        with None IH True Some m show ?thesis
          by (simp add: substituted.simps [of variables s i] ranges_from_def variable_matches.simps [of s i])
      next
        case v: (Some v)
        with IH True Some m show ?thesis
          by (simp add: substituted.simps [of variables s i] ranges_from_def variable_matches.simps [of s i])
      qed
    qed
  qed (use 1 in \<open>simp add: ranges_from_def variable_matches.simps substituted.simps slice_def\<close>)
qed

lemma replace_variables_eq:
  assumes "valid_utf8 content" and "list_all (\<lambda>(k, v). valid_utf8 v) variables"
  shows "replace_variables content variables = Some (substituted variables content 0)"
proof -
  let ?rs = "ranges_from variables content 0"
  have "list_all (\<lambda>r. head_ok (snd r)) ?rs"
    using map_of_value_valid [OF assms(2)] valid_head_ok
    by (auto simp: ranges_from_def list_all_iff split: option.splits)
  with replace_all_splices [OF ranges_from_ordered [OF assms(1), of 0 variables] assms(1)]
    splice_substituted [OF assms(1), of 0 variables]
  show ?thesis by (simp add: replace_variables_def variable_ranges_def ranges_from_def)
qed

text \<open>
  The variables of an included page are replaced in one pass from left to right: no value is
  searched for variables again, unknown variables stay, and no cut falls inside a character.
\<close>

theorem variables_replaced_once:
  assumes "valid_utf8 content" and "list_all (\<lambda>(k, v). valid_utf8 v) variables"
  shows "replace_variables content variables = Some (substituted variables content 0)"
  using assms by (rule replace_variables_eq)

theorem variables_replaced_once_witness:
  "replace_variables ''{$a}-{$b}'' [(''a'', ''{$b}'')] = Some ''{$b}-{$b}''"
proof -
  have "valid_utf8 ''{$a}-{$b}''" "valid_utf8 ''{$b}''"
    by (rule ascii_valid; simp add: is_ascii_def)+
  then have "replace_variables ''{$a}-{$b}'' [(''a'', ''{$b}'')] = Some (substituted [(''a'', ''{$b}'')] ''{$a}-{$b}'' 0)"
    by (intro variables_replaced_once) simp_all
  also have "substituted [(''a'', ''{$b}'')] ''{$a}-{$b}'' 0 = ''{$b}-{$b}''" by code_simp
  finally show ?thesis .
qed

subsection \<open>Substituting the pages\<close>

type_synonym include_replacement = "(nat \<times> nat) \<times> (include_ref \<times> fetched_page) option"

text \<open>The line endings put around a page, as the text around the block has them.\<close>

definition line_ending_before :: "bytes \<Rightarrow> nat \<Rightarrow> bytes" where
  "line_ending_before input i =
     (if i > 0 then if ends_with (take i input) [CHR 0x0D, CHR 0x0A] then [CHR 0x0D, CHR 0x0A] else [CHR 0x0A]
      else [])"

definition line_ending_after :: "bytes \<Rightarrow> nat \<Rightarrow> bytes" where
  "line_ending_after input e =
     (if e < length input
      then if starts_with (drop e input) [CHR 0x0D, CHR 0x0A] then [CHR 0x0D, CHR 0x0A] else [CHR 0x0A]
      else [])"

definition separated :: "bytes \<Rightarrow> nat \<Rightarrow> nat \<Rightarrow> bytes \<Rightarrow> bytes" where
  "separated input i e v =
     (if v = [] then [] else line_ending_before input i @ v @ line_ending_after input e)"

text \<open>\<open>None\<close> is a panic: slicing the input, or replacing a range of the output, off a boundary.\<close>

definition replace_separated :: "bytes \<Rightarrow> bytes \<Rightarrow> nat \<Rightarrow> nat \<Rightarrow> bytes \<Rightarrow> bytes option" where
  "replace_separated input output i e v =
     (if v \<noteq> [] \<and> \<not> (i \<le> length input \<and> e \<le> length input \<and> boundary input i \<and> boundary input e) then None
      else replace_range output i e (separated input i e v))"

definition page_text ::
  "('s, 'e) includer \<Rightarrow> include_ref \<Rightarrow> fetched_page \<Rightarrow> 's \<Rightarrow> (('e + bytes) \<times> 's) option" where
  "page_text inc r fetched s =
     (case fp_content fetched of
        Some content \<Rightarrow> map_option (\<lambda>t. (Inr t, s)) (replace_variables content (ir_variables r))
      | None \<Rightarrow> Some (no_such_include inc (ir_page_ref r) s))"

fun substitute_loop ::
  "('s, 'e) includer \<Rightarrow> 'e \<Rightarrow> bytes \<Rightarrow> include_replacement list \<Rightarrow> bytes \<Rightarrow> page_ref list \<Rightarrow> 's \<Rightarrow>
   (('e + bytes \<times> page_ref list) \<times> 's) option" where
  "substitute_loop inc invalid input [] result pages s = Some (Inr (result, rev pages), s)"
| "substitute_loop inc invalid input (((i, e), None) # rs) result pages s =
     (case replace_range result i e [] of
        None \<Rightarrow> None
      | Some result \<Rightarrow> substitute_loop inc invalid input rs result pages s)"
| "substitute_loop inc invalid input (((i, e), Some (r, fetched)) # rs) result pages s =
     (if ir_page_ref r \<noteq> fp_page_ref fetched then Some (Inl invalid, s)
      else case page_text inc r fetched s of
        None \<Rightarrow> None
      | Some (Inl err, s) \<Rightarrow> Some (Inl err, s)
      | Some (Inr v, s) \<Rightarrow>
          (case replace_separated input result i e v of
             None \<Rightarrow> None
           | Some result \<Rightarrow> substitute_loop inc invalid input rs result (pages @ [ir_page_ref r]) s))"

definition substitute_replacements ::
  "('s, 'e) includer \<Rightarrow> 'e \<Rightarrow> bytes \<Rightarrow> include_replacement list \<Rightarrow> 's \<Rightarrow>
   (('e + bytes \<times> page_ref list) \<times> 's) option" where
  "substitute_replacements inc invalid input replacements s =
     substitute_loop inc invalid input (rev replacements) input [] s"

definition include_replacements ::
  "((nat \<times> nat) \<times> include_ref) list \<Rightarrow> fetched_page list \<Rightarrow> (nat \<times> nat) list \<Rightarrow> include_replacement list" where
  "include_replacements blocks fetched quoted =
     sort_key (\<lambda>m. fst (fst m))
       (zip (map fst blocks) (map Some (zip (map snd blocks) fetched)) @ map (\<lambda>range. (range, None)) quoted)"

definition include_fn ::
  "bool \<Rightarrow> (bytes \<Rightarrow> bytes) \<Rightarrow> bytes \<Rightarrow> ('s, 'e) includer \<Rightarrow> 'e \<Rightarrow> 's \<Rightarrow>
   (('e + bytes \<times> page_ref list) \<times> 's) option" where
  "include_fn enable_page_syntax slug input inc invalid s =
     (if \<not> enable_page_syntax then Some (Inr (input, []), s)
      else case include_loop slug input 0 of
        None \<Rightarrow> None
      | Some (blocks, quoted) \<Rightarrow>
          (case include_pages inc (map snd blocks) s of
             (Inl err, s) \<Rightarrow> Some (Inl err, s)
           | (Inr fetched, s) \<Rightarrow>
               if length blocks \<noteq> length fetched then Some (Inl invalid, s)
               else substitute_replacements inc invalid input (include_replacements blocks fetched quoted) s))"

subsection \<open>What the substitution computes\<close>

text \<open>The text a page stands for when missing pages have the text \<open>missing\<close>, with its line endings.\<close>

definition fetched_text :: "(page_ref \<Rightarrow> bytes) \<Rightarrow> include_ref \<Rightarrow> fetched_page \<Rightarrow> bytes" where
  "fetched_text missing r fetched =
     (case fp_content fetched of
        Some content \<Rightarrow> substituted (ir_variables r) content 0
      | None \<Rightarrow> missing (ir_page_ref r))"

definition replacement_text :: "(page_ref \<Rightarrow> bytes) \<Rightarrow> bytes \<Rightarrow> include_replacement \<Rightarrow> (nat \<times> nat) \<times> bytes" where
  "replacement_text missing input m =
     (case m of ((i, e), x) \<Rightarrow>
        ((i, e), case x of None \<Rightarrow> [] | Some (r, fetched) \<Rightarrow> separated input i e (fetched_text missing r fetched)))"

fun refs_of :: "include_replacement list \<Rightarrow> page_ref list" where
  "refs_of [] = []"
| "refs_of ((a, None) # rs) = refs_of rs"
| "refs_of ((a, Some (r, fetched)) # rs) = ir_page_ref r # refs_of rs"

definition good_replacement :: "include_replacement \<Rightarrow> bool" where
  "good_replacement m \<longleftrightarrow>
     (case m of
        (a, None) \<Rightarrow> True
      | (a, Some (r, fetched)) \<Rightarrow>
          ir_page_ref r = fp_page_ref fetched \<and> valid_values (ir_variables r) \<and>
          (case fp_content fetched of Some content \<Rightarrow> valid_utf8 content | None \<Rightarrow> True))"

lemma substituted_valid:
  assumes "valid_utf8 content" and "valid_values variables"
  shows "valid_utf8 (substituted variables content 0)"
proof -
  let ?rs = "ranges_from variables content 0"
  note o = ranges_from_ordered [OF assms(1), of 0 variables]
  have "list_all (\<lambda>r. valid_utf8 (snd r)) ?rs"
    using map_of_value_valid [OF assms(2)]
    by (auto simp: ranges_from_def list_all_iff split: option.splits)
  with splice_to_valid [OF o ranges_below_length [OF o]] assms(1)
  have "valid_utf8 (splice_to content 0 (length content) ?rs)" by simp
  then show ?thesis using splice_substituted [OF assms(1), of 0 variables] by simp
qed

lemma separated_valid: "valid_utf8 v \<Longrightarrow> valid_utf8 (separated input i e v)"
proof -
  assume v: "valid_utf8 v"
  have a: "valid_utf8 (line_ending_before input i)" "valid_utf8 (line_ending_after input e)"
    by (rule ascii_valid; simp add: line_ending_before_def line_ending_after_def is_ascii_def)+
  then have "valid_utf8 (v @ line_ending_after input e)" using v by (simp add: valid_utf8_append)
  then show ?thesis using a by (simp add: separated_def valid_utf8_append)
qed

lemma replacement_text_valid:
  assumes "good_replacement m" and "\<And>r. valid_utf8 (missing r)"
  shows "valid_utf8 (snd (replacement_text missing input m))"
proof -
  obtain i e x where m: "m = ((i, e), x)" by (metis prod.exhaust)
  show ?thesis
  proof (cases x)
    case (Some rf)
    obtain r f where rf: "rf = (r, f)" by fastforce
    have "valid_utf8 (fetched_text missing r f)"
      using assms by (auto simp: m Some rf good_replacement_def fetched_text_def substituted_valid split: option.splits)
    then show ?thesis by (simp add: m Some rf replacement_text_def separated_valid)
  qed (simp add: m replacement_text_def)
qed

lemma fst_replacement_text [simp]: "fst (replacement_text missing input m) = fst m"
  by (cases m) (auto simp: replacement_text_def split: prod.split)

lemma ranges_below_replacement_text:
  "ranges_below k (map (replacement_text missing input) rs) \<longleftrightarrow> ranges_below k rs"
  by (simp add: ranges_below_def list.pred_map comp_def)

lemma refs_of_snoc: "refs_of (rs @ [m]) = refs_of rs @ refs_of [m]"
  by (induction rs rule: refs_of.induct) simp_all

lemma substitute_loop_splice:
  assumes "valid_utf8 input" and "\<And>r s. no_such_include inc r s = (Inr (missing r), s)" and "\<And>r. valid_utf8 (missing r)"
  shows "ordered_ranges input 0 rs \<Longrightarrow> ranges_below k rs \<Longrightarrow> k \<le> length input \<Longrightarrow> boundary input k \<Longrightarrow>
    valid_utf8 t \<Longrightarrow> list_all good_replacement rs \<Longrightarrow>
    substitute_loop inc invalid input (rev rs) (take k input @ t) pages s =
      Some (Inr (splice_to input 0 k (map (replacement_text missing input) rs) @ t, refs_of rs @ rev pages), s)"
proof (induction rs arbitrary: k t pages rule: rev_induct)
  case (snoc m rs)
  obtain i e x where m: "m = ((i, e), x)" by (metis prod.exhaust)
  from snoc.prems(1) have o: "ordered_ranges input 0 rs" "ranges_below i rs" "i < e" "e \<le> length input"
      "boundary input i" "boundary input e"
    by (auto simp: m ordered_ranges_snoc)
  have ek: "e \<le> k" and g: "good_replacement m" "list_all good_replacement rs"
    using snoc.prems(2,6) by (auto simp: m ranges_below_def)
  have sl: "valid_utf8 (slice input e k @ t)"
    using slice_valid [OF assms(1) o(6) snoc.prems(4) ek snoc.prems(3)] snoc.prems(5)
    by (simp add: valid_utf8_append)
  have step: "replace_range (take k input @ t) i e v = Some (take i input @ (v @ slice input e k @ t))" for v
    using replace_range_step [OF o(3) ek snoc.prems(3) o(5,6) snoc.prems(4) valid_head_ok [OF snoc.prems(5)]] .
  obtain v where rt: "replacement_text missing input m = ((i, e), v)"
    by (simp add: m replacement_text_def)
  have "valid_utf8 v" using replacement_text_valid [OF g(1), of missing input] assms(3) rt by simp
  with sl have t: "valid_utf8 (v @ slice input e k @ t)" by (simp add: valid_utf8_append)
  have IH: "substitute_loop inc invalid input (rev rs) (take i input @ (v @ slice input e k @ t)) ps s =
      Some (Inr (splice_to input 0 i (map (replacement_text missing input) rs) @ (v @ slice input e k @ t),
        refs_of rs @ rev ps), s)" for ps
    by (rule snoc.IH) (use o t g in auto)
  have sp: "splice_to input 0 k (map (replacement_text missing input) (rs @ [m])) =
      splice_to input 0 i (map (replacement_text missing input) rs) @ v @ slice input e k"
    by (simp add: rt splice_to_snoc)
  show ?case
  proof (cases x)
    case None
    then have "v = []" using rt by (simp add: m replacement_text_def)
    then have "substitute_loop inc invalid input (rev (rs @ [m])) (take k input @ t) pages s =
        substitute_loop inc invalid input (rev rs) (take i input @ (v @ slice input e k @ t)) pages s"
      using step [of "[]"] by (simp add: m None)
    with IH [of pages] show ?thesis unfolding sp by (simp add: refs_of_snoc m None)
  next
    case (Some rf)
    obtain r f where rf: "rf = (r, f)" by fastforce
    have v: "v = separated input i e (fetched_text missing r f)"
      using rt by (simp add: m Some rf replacement_text_def)
    have pt: "page_text inc r f s = Some (Inr (fetched_text missing r f), s)"
      using g(1) assms(2)
      by (auto simp: m Some rf good_replacement_def page_text_def fetched_text_def replace_variables_eq split: option.splits)
    have "replace_separated input (take k input @ t) i e (fetched_text missing r f) =
        Some (take i input @ (v @ slice input e k @ t))"
      using step o by (simp add: replace_separated_def v)
    moreover have "ir_page_ref r = fp_page_ref f" using g(1) by (simp add: m Some rf good_replacement_def)
    ultimately have "substitute_loop inc invalid input (rev (rs @ [m])) (take k input @ t) pages s =
        substitute_loop inc invalid input (rev rs) (take i input @ (v @ slice input e k @ t)) (pages @ [ir_page_ref r]) s"
      by (simp add: m Some rf pt)
    with IH [of "pages @ [ir_page_ref r]"] show ?thesis unfolding sp by (simp add: refs_of_snoc m Some rf)
  qed
qed (simp add: slice_def)

subsection \<open>The pass\<close>

text \<open>The matches in document order, each block with its page.\<close>

fun attach :: "((nat \<times> nat) \<times> 'a option) list \<Rightarrow> 'b list \<Rightarrow> ((nat \<times> nat) \<times> ('a \<times> 'b) option) list" where
  "attach [] fs = []"
| "attach ((a, None) # ms) fs = (a, None) # attach ms fs"
| "attach ((a, Some r) # ms) (f # fs) = (a, Some (r, f)) # attach ms fs"
| "attach ((a, Some r) # ms) [] = []"

lemma only_block: "blocks_of ms = [] \<Longrightarrow> quoted_of ms = [] \<Longrightarrow> ms = []"
  by (cases ms rule: blocks_of.cases) auto

lemma attach_mset:
  "length fs = length (blocks_of ms) \<Longrightarrow>
   mset (attach ms fs) =
   mset (zip (map fst (blocks_of ms)) (map Some (zip (map snd (blocks_of ms)) fs)) @ map (\<lambda>a. (a, None)) (quoted_of ms))"
  by (induction ms fs rule: attach.induct) auto

lemma attach_fst: "length fs = length (blocks_of ms) \<Longrightarrow> map fst (attach ms fs) = map fst ms"
  by (induction ms fs rule: attach.induct) auto

lemma include_replacements_attach:
  assumes "ordered_ranges input 0 ms" and "length fetched = length (blocks_of ms)"
  shows "include_replacements (blocks_of ms) fetched (quoted_of ms) = attach ms fetched"
proof -
  have "ordered_ranges input 0 (attach ms fetched)"
    using assms ordered_ranges_fst attach_fst by metis
  from ordered_starts [OF this] have s: "sorted (map (\<lambda>m. fst (fst m)) (attach ms fetched))"
    and d: "distinct (map (\<lambda>m. fst (fst m)) (attach ms fetched))" by simp_all
  note m = attach_mset [OF assms(2)]
  from d have "inj_on (\<lambda>m. fst (fst m)) (set (attach ms fetched))" by (simp add: distinct_map)
  then have "inj_on (\<lambda>m. fst (fst m)) (set (zip (map fst (blocks_of ms)) (map Some (zip (map snd (blocks_of ms)) fetched)) @
      map (\<lambda>a. (a, None)) (quoted_of ms)))"
    using mset_eq_setD [OF m] by simp
  with s m show ?thesis
    unfolding include_replacements_def by (intro sort_key_inj_key_eq) simp_all
qed

lemma refs_of_attach:
  "length fs = length (blocks_of ms) \<Longrightarrow> refs_of (attach ms fs) = map (\<lambda>b. ir_page_ref (snd b)) (blocks_of ms)"
  by (induction ms fs rule: attach.induct) auto

abbreviation valid_page :: "fetched_page \<Rightarrow> bool" where
  "valid_page f \<equiv> (case fp_content f of Some content \<Rightarrow> valid_utf8 content | None \<Rightarrow> True)"

lemma attach_good:
  "map fp_page_ref fs = map (\<lambda>b. ir_page_ref (snd b)) (blocks_of ms) \<Longrightarrow> list_all valid_page fs \<Longrightarrow>
   list_all (\<lambda>b. valid_values (ir_variables (snd b))) (blocks_of ms) \<Longrightarrow> list_all good_replacement (attach ms fs)"
  by (induction ms fs rule: attach.induct) (auto simp: good_replacement_def)

lemma include_fn_splice:
  assumes "valid_utf8 input" and "include_loop slug input 0 = Some (blocks, quoted)"
    and "include_pages inc (map snd blocks) s = (Inr fetched, s')"
    and "map fp_page_ref fetched = map ir_page_ref (map snd blocks)" and "list_all valid_page fetched"
    and "\<And>r s. no_such_include inc r s = (Inr (missing r), s)" and "\<And>r. valid_utf8 (missing r)"
  shows "\<exists>ms. ordered_ranges input 0 ms \<and> blocks_of ms = blocks \<and> quoted_of ms = quoted \<and>
    include_fn True slug input inc invalid s =
      Some (Inr (splice_to input 0 (length input) (map (replacement_text missing input) (attach ms fetched)),
                 map (\<lambda>b. ir_page_ref (snd b)) blocks), s')"
proof -
  from include_loop_ordered [OF assms(2,1)] obtain ms
    where ms: "ordered_ranges input 0 ms" "blocks = blocks_of ms" "quoted = quoted_of ms" by blast
  have len: "length fetched = length (blocks_of ms)"
    using arg_cong [OF assms(4), of length] ms(2) by simp
  have o: "ordered_ranges input 0 (attach ms fetched)"
    using ms(1) ordered_ranges_fst attach_fst [OF len] by metis
  have g: "list_all good_replacement (attach ms fetched)"
    using include_loop_values [OF assms(2,1)] assms(4,5) ms(2) by (intro attach_good) (simp_all add: comp_def)
  have "substitute_loop inc invalid input (rev (attach ms fetched)) (take (length input) input @ []) [] s' =
      Some (Inr (splice_to input 0 (length input) (map (replacement_text missing input) (attach ms fetched)) @ [],
        refs_of (attach ms fetched) @ rev []), s')"
    by (rule substitute_loop_splice [OF assms(1,6,7) o ranges_below_length [OF o] order_refl boundary_length _ g]) simp_all
  then show ?thesis
    using ms len assms(2,3) include_replacements_attach [OF ms(1) len] refs_of_attach [OF len]
    by (intro exI [of _ ms]) (simp add: include_fn_def substitute_replacements_def)
qed

text \<open>
  An includer that answers: its pages are text, in the order asked for, and a missing page has a
  text of its own.
\<close>

locale answering_includer = honest_includer "include_pages inc" for inc :: "('s, 'e) includer" +
  fixes missing :: "page_ref \<Rightarrow> bytes" and answer :: "include_ref list \<Rightarrow> fetched_page list"
  assumes fetch_answers: "include_pages inc includes s = (Inr (answer includes), s)"
    and answer_text: "list_all valid_page (answer includes)"
    and missing_answers: "no_such_include inc r s = (Inr (missing r), s)"
    and missing_text: "valid_utf8 (missing r)"
begin

lemma include_answers:
  assumes "valid_utf8 input" and "include_loop slug input 0 = Some (blocks, quoted)"
  shows "\<exists>ms. ordered_ranges input 0 ms \<and> blocks_of ms = blocks \<and> quoted_of ms = quoted \<and>
    include_fn True slug input inc invalid s =
      Some (Inr (splice_to input 0 (length input)
                   (map (replacement_text missing input) (attach ms (answer (map snd blocks)))),
                 map (\<lambda>b. ir_page_ref (snd b)) blocks), s)"
  using include_fn_splice [OF assms fetch_answers fetch_refs [OF fetch_answers] answer_text missing_answers missing_text] .

end

interpretation stripping: answering_includer null_includer "\<lambda>r. []"
  "map (\<lambda>i. \<lparr>fp_page_ref = ir_page_ref i, fp_content = None\<rparr>)"
  by unfold_locales (auto simp: null_includer_def null_include_pages_def list_all_iff)

subsection \<open>Concrete inputs\<close>

definition example_ref :: include_ref where
  "example_ref = include_ref_new \<lparr>pr_site = None, pr_page = ''box'', pr_extra = None\<rparr> []"

definition example_text :: bytes where
  "example_text = ''a'' @ [CHR 0x0A] @ ''[[include box]]'' @ [CHR 0x0A] @ ''b''"

lemma example_valid: "valid_utf8 example_text"
  by (rule ascii_valid) (simp add: example_text_def is_ascii_def)

lemma example_loop: "include_loop (\<lambda>s. s) example_text 0 = Some ([((2, 17), example_ref)], [])"
proof -
  have f: "find_include example_text 0 = Some (2, 12)" "find_include example_text 17 = None"
    "find_sub ''[['' (slice example_text 2 12) = Some 0"
    "find_include_end example_text 12 (length example_text) = Some 17"
    unfolding example_text_def by code_simp+
  have "peg_include (drop 2 example_text) = Some ((10, 13), None, 15)"
    unfolding example_text_def by code_simp
  moreover have "parse_include (\<lambda>s. s) ''box'' = Some (Inr \<lparr>pr_site = None, pr_page = ''box'', pr_extra = None\<rparr>)"
  proof -
    have "trimmed ''box''" by (rule trimmed_ascii) (simp_all add: is_ascii_def space_ascii)
    then show ?thesis by (simp add: parse_include_def parse_with_def page_only_def split_page_def Let_def)
  qed
  moreover have "resolve_include_arguments [] = []"
    by (simp add: resolve_include_arguments_def round_limit_def same_map_def eval_nat_numeral)
  moreover have "slice (drop 2 example_text) 10 13 = ''box''" "boundary example_text 2" "2 \<le> length example_text"
    unfolding example_text_def by (simp_all add: slice_def boundary_def is_cont_def)
  ultimately have "parse_include_block (\<lambda>s. s) example_text 2 = Some (Inr (example_ref, 17))"
    by (simp add: parse_include_block_def process_pairs_def validate_include_page_ref_def
        scan_include_arguments_def scan_arguments_loop.simps scan_include_argument_segment_def
        include_argument_key_end.simps trim_include_space_start_def trim_start_set_def example_ref_def
        with_spaced_empty_separator_def include_ref_new_def spaced_separator_def strip_prefix_def starts_with_def)
  then have "include_loop (\<lambda>s. s) example_text 0 = push_block ((2, 17), example_ref) (include_loop (\<lambda>s. s) example_text 17)"
    by (subst include_loop_found [OF f(1)]) (simp add: f)
  also have "include_loop (\<lambda>s. s) example_text 17 = Some ([], [])"
    by (subst include_loop.simps) (simp add: f)
  finally show ?thesis by (simp add: push_block_def)
qed

definition panicking_text :: bytes where
  "panicking_text = ''[[include :'' @ [CHR 0xC3, CHR 0xA9] @ ''aaaaaaaaaaa:page]]''"

lemma panicking_loop: "include_loop (\<lambda>s. s) panicking_text 0 = None"
proof -
  have f: "find_include panicking_text 0 = Some (0, 10)" "find_sub ''[['' (slice panicking_text 0 10) = Some 0"
    "find_include_end panicking_text 10 (length panicking_text) = Some 31"
    "peg_include panicking_text = Some ((10, 29), None, 31)"
    unfolding panicking_text_def by code_simp+
  have "parse_include (\<lambda>s. s) (CHR '':'' # ([CHR 0xC3, CHR 0xA9] @ ''aaaaaaaaaaa'') @ CHR '':'' # ''page'') = None"
  proof (rule site_panics)
    show "\<not> is_whitespace [CHR 0xC3, CHR 0xA9]" by (simp add: is_whitespace_def)
    show "trimmed ''page''" by (rule trimmed_ascii) (simp_all add: is_ascii_def space_ascii)
  qed (simp_all add: is_cont_def ascii_defs)
  moreover have "slice panicking_text 10 29 = CHR '':'' # ([CHR 0xC3, CHR 0xA9] @ ''aaaaaaaaaaa'') @ CHR '':'' # ''page''"
    unfolding panicking_text_def by (simp add: slice_def)
  ultimately have "parse_include_block (\<lambda>s. s) panicking_text 0 = None"
    by (simp add: parse_include_block_def process_pairs_def f)
  then show ?thesis by (subst include_loop_found [OF f(1)]) (simp add: f)
qed

text \<open>
  C7: for valid text and an includer that returns its pages in the order asked for, the pass
  succeeds: every block is replaced, in place, by the text of its page with the variables filled in,
  every consumed quoted block is removed, everything else stays, and the pages are reported in
  document order.
\<close>

theorem include_substitutes_pages:
  assumes "valid_utf8 input" and "include_loop slug input 0 = Some (blocks, quoted)"
    and "include_pages inc (map snd blocks) s = (Inr fetched, s')"
    and "map fp_page_ref fetched = map ir_page_ref (map snd blocks)" and "list_all valid_page fetched"
    and "\<And>r s. no_such_include inc r s = (Inr (missing r), s)" and "\<And>r. valid_utf8 (missing r)"
  shows "\<exists>ms. ordered_ranges input 0 ms \<and> blocks_of ms = blocks \<and> quoted_of ms = quoted \<and>
    include_fn True slug input inc invalid s =
      Some (Inr (splice_to input 0 (length input) (map (replacement_text missing input) (attach ms fetched)),
                 map (\<lambda>b. ir_page_ref (snd b)) blocks), s')"
  using assms by (rule include_fn_splice)

theorem include_substitutes_pages_witness:
  "include_fn True (\<lambda>s. s) example_text
     \<lparr>include_pages = (\<lambda>is s. (Inr [\<lparr>fp_page_ref = ir_page_ref example_ref, fp_content = Some ''X''\<rparr>], s)),
      no_such_include = (\<lambda>r s. (Inr [], s))\<rparr> () () =
   Some (Inr (''a'' @ [CHR 0x0A, CHR 0x0A] @ ''X'' @ [CHR 0x0A, CHR 0x0A] @ ''b'', [ir_page_ref example_ref]), ())"
  (is "?l = ?r")
proof -
  have v: "valid_utf8 ''X''" by (rule ascii_valid) (simp add: is_ascii_def)
  have "\<exists>ms. ordered_ranges example_text 0 ms \<and> blocks_of ms = [((2, 17), example_ref)] \<and> quoted_of ms = [] \<and>
    ?l = Some (Inr (splice_to example_text 0 (length example_text) (map (replacement_text (\<lambda>r. []) example_text)
         (attach ms [\<lparr>fp_page_ref = ir_page_ref example_ref, fp_content = Some ''X''\<rparr>])),
       map (\<lambda>b. ir_page_ref (snd b)) [((2 :: nat, 17 :: nat), example_ref)]), ())"
    by (rule include_substitutes_pages [OF example_valid example_loop]) (simp_all add: v)
  then obtain ms where ms: "blocks_of ms = [((2, 17), example_ref)]" "quoted_of ms = []"
    and l: "?l = Some (Inr (splice_to example_text 0 (length example_text) (map (replacement_text (\<lambda>r. []) example_text)
         (attach ms [\<lparr>fp_page_ref = ir_page_ref example_ref, fp_content = Some ''X''\<rparr>])),
       [ir_page_ref example_ref]), ())"
    by auto
  from ms have "ms = [((2, 17), Some example_ref)]" by (cases ms rule: blocks_of.cases) (auto dest: only_block)
  moreover have "substituted [] ''X'' 0 = ''X''" by code_simp
  ultimately show ?thesis
    unfolding l by (simp add: replacement_text_def fetched_text_def separated_def example_ref_def include_ref_new_def
        line_ending_before_def line_ending_after_def example_text_def slice_def ends_with_def)
qed

definition removed_text :: "bytes \<Rightarrow> ((nat \<times> nat) \<times> 'a) list \<Rightarrow> bytes" where
  "removed_text input ms = splice_to input 0 (length input) (map (\<lambda>m. (fst m, [])) ms)"

lemma null_replacement_text:
  "map (replacement_text (\<lambda>r. []) input) (attach ms (map (\<lambda>i. \<lparr>fp_page_ref = ir_page_ref i, fp_content = None\<rparr>) (map snd (blocks_of ms)))) =
   map (\<lambda>m. (fst m, [])) ms"
  by (induction ms rule: blocks_of.induct)
    (auto simp: replacement_text_def fetched_text_def separated_def)

text \<open>
  With the null includer the pass removes the blocks and the consumed quoted blocks and
  nothing else.
\<close>

theorem null_includer_removes_blocks:
  assumes "valid_utf8 input" and "include_loop slug input 0 = Some (blocks, quoted)"
  shows "\<exists>ms. ordered_ranges input 0 ms \<and> blocks_of ms = blocks \<and> quoted_of ms = quoted \<and>
    include_fn True slug input null_includer invalid s =
      Some (Inr (removed_text input ms, map (\<lambda>b. ir_page_ref (snd b)) blocks), s)"
proof -
  have eq: "removed_text input ms = splice_to input 0 (length input) (map (replacement_text (\<lambda>r. []) input)
        (attach ms (map (\<lambda>i. \<lparr>fp_page_ref = ir_page_ref i, fp_content = None\<rparr>) (map snd blocks))))"
    if "blocks_of ms = blocks" for ms
    unfolding removed_text_def that [symmetric] null_replacement_text ..
  from stripping.include_answers [OF assms, of invalid s] show ?thesis
  proof (elim exE conjE, goal_cases)
    case (1 ms)
    from 1(4) have "include_fn True slug input null_includer invalid s =
        Some (Inr (removed_text input ms, map (\<lambda>b. ir_page_ref (snd b)) blocks), s)"
      unfolding eq [OF 1(2)] .
    with 1(1-3) show ?case by (intro exI [of _ ms] conjI)
  qed
qed

theorem null_includer_removes_blocks_witness:
  "include_fn True (\<lambda>s. s) example_text null_includer () () =
   Some (Inr (''a'' @ [CHR 0x0A, CHR 0x0A] @ ''b'', [ir_page_ref example_ref]), ())" (is "?l = _")
proof -
  from null_includer_removes_blocks [OF example_valid example_loop, of "()" "()"]
  obtain ms where ms: "blocks_of ms = [((2, 17), example_ref)]" "quoted_of ms = []"
    and l: "?l = Some (Inr (removed_text example_text ms, [ir_page_ref example_ref]), ())" by auto
  from ms have "ms = [((2, 17), Some example_ref)]" by (cases ms rule: blocks_of.cases) (auto dest: only_block)
  then show ?thesis unfolding l by (simp add: removed_text_def example_text_def slice_def)
qed

text \<open>
  C9: on ASCII text the pass cannot fail: whatever the slug normalization does, the null includer
  gets its pages and the pass returns.  (Outside ASCII it can panic, see \<open>include_fn_panics\<close>.)
\<close>

theorem ascii_includes_return:
  assumes "list_all is_ascii input"
  shows "\<exists>result pages. include_fn enabled slug input null_includer invalid s = Some (Inr (result, pages), s)"
proof -
  obtain blocks quoted where "include_loop slug input 0 = Some (blocks, quoted)"
    using include_loop_ascii [OF assms, of slug 0] by auto
  from stripping.include_answers [OF ascii_valid [OF assms] this, of invalid s] show ?thesis
    by (cases enabled) (auto simp: include_fn_def)
qed

theorem ascii_includes_return_witness:
  "\<exists>result pages. include_fn True (\<lambda>s. s) example_text null_includer () () = Some (Inr (result, pages), ())"
  by (rule ascii_includes_return) (simp add: example_text_def is_ascii_def)

lemma include_fn_panics: "include_fn True (\<lambda>s. s) panicking_text inc invalid s = None"
  by (simp add: include_fn_def panicking_loop)

end
