(* ===== verification/Code_Blocks.thy ===== *)
theory Code_Blocks
  imports Text_Ranges
begin

text \<open>
  \<open>src/src/wikidot_code.rs\<close>: the \<open>[[code]]\<close> blocks of a source, found once for the whole text.  The
  program keeps two memos to stay linear, a cursor over the \<open>]]\<close> ahead and the cleanness of the
  current line; the lemmas show that they answer what a fresh search would.
\<close>

subsection \<open>Searching from an offset\<close>

definition find_from :: "bytes \<Rightarrow> nat \<Rightarrow> bytes \<Rightarrow> nat option" where
  "find_from s i pat = map_option (\<lambda>k. i + k) (find_sub pat (drop i s))"

lemma find_from_Some:
  assumes "find_from s i pat = Some f" and "pat \<noteq> []"
  shows "i \<le> f" and "has s f pat" and "f + length pat \<le> length s" and "\<And>j. i \<le> j \<Longrightarrow> j < f \<Longrightarrow> \<not> has s j pat"
proof -
  from assms(1) obtain k where k: "find_sub pat (drop i s) = Some k" and f: "f = i + k"
    by (auto simp: find_from_def)
  note b = find_sub_Some [OF k]
  show "i \<le> f" by (simp add: f)
  have "0 < length pat" and "k + length pat \<le> length s - i" using assms(2) b by simp_all
  then have "f + length pat \<le> length s" unfolding f by linarith
  with b show h: "has s f pat" by (simp add: has_iff f add.commute)
  then show "f + length pat \<le> length s" by (rule has_length)
  show "\<not> has s j pat" if "i \<le> j" "j < f" for j
    using find_sub_least [OF k, of "j - i"] that by (auto simp: has_iff f)
qed

lemma find_from_None:
  assumes "pat \<noteq> []"
  shows "find_from s i pat = None \<longleftrightarrow> (\<forall>j \<ge> i. \<not> has s j pat)"
proof -
  have "find_from s i pat = None \<longleftrightarrow> (\<forall>k. \<not> starts_with (drop k (drop i s)) pat)"
    using find_sub_None [OF assms, of "drop i s"] by (simp add: find_from_def)
  also have "\<dots> \<longleftrightarrow> (\<forall>j \<ge> i. \<not> has s j pat)"
  proof (intro iffI allI impI)
    fix j assume "\<forall>k. \<not> starts_with (drop k (drop i s)) pat" "i \<le> j"
    then show "\<not> has s j pat" by (metis has_iff drop_drop le_add_diff_inverse2)
  next
    fix k assume a: "\<forall>j \<ge> i. \<not> has s j pat"
    show "\<not> starts_with (drop k (drop i s)) pat"
    proof
      assume st: "starts_with (drop k (drop i s)) pat"
      from starts_with_length [OF st] assms have "k + i + length pat \<le> length s"
        by (cases pat) auto
      with st have "has s (k + i) pat" by (simp add: has_iff)
      with a show False by simp
    qed
  qed
  finally show ?thesis .
qed

lemma find_from_first:
  assumes "pat \<noteq> []" and "i \<le> f" and "has s f pat" and "\<And>j. i \<le> j \<Longrightarrow> j < f \<Longrightarrow> \<not> has s j pat"
  shows "find_from s i pat = Some f"
proof (cases "find_from s i pat")
  case None
  with assms(1-3) show ?thesis by (simp add: find_from_None)
next
  case (Some g)
  note b = find_from_Some [OF Some assms(1)]
  have "\<not> g < f" using assms(4) b(1,2) by blast
  moreover have "\<not> f < g" using b(4) assms(2,3) by blast
  ultimately show ?thesis using Some by simp
qed

lemma find_from_later:
  assumes "pat \<noteq> []" and "i \<le> j" and "find_from s i pat = None \<or> (\<exists>f. find_from s i pat = Some f \<and> j \<le> f)"
  shows "find_from s j pat = find_from s i pat"
proof (cases "find_from s i pat")
  case None
  then have "find_from s j pat = None" using assms(1,2) by (simp add: find_from_None)
  then show ?thesis using None by simp
next
  case (Some f)
  note b = find_from_Some [OF Some assms(1)]
  have "j \<le> f" using assms(3) Some by simp
  then show ?thesis
    unfolding Some using b(2,4) assms(1,2) by (intro find_from_first) auto
qed

lemma has_ascii_boundary:
  assumes "has s i (c # p)" and "is_ascii c"
  shows "boundary s i"
  using has_0 [OF assms(1)] assms(2) by (intro boundary_of_ascii) auto

lemma has_boundary_after:
  assumes "valid_utf8 s" and "has s i p" and "list_all is_ascii p" and "p \<noteq> []"
  shows "boundary s (i + length p)"
proof -
  have "boundary s i" using assms(2-4) by (cases p) (auto intro: has_ascii_boundary)
  from boundary_lit [OF assms(1,2,3) this] show ?thesis .
qed

subsection \<open>The cursor over closing brackets\<close>

record close_bracket_cursor =
  scanned_from :: nat
  found :: "nat option"

definition close_bracket_cursor_new :: close_bracket_cursor where
  "close_bracket_cursor_new = \<lparr>scanned_from = 0, found = None\<rparr>"

definition get_from :: "bytes \<Rightarrow> nat \<Rightarrow> bytes option" where
  "get_from s i = (if i \<le> length s \<and> boundary s i then Some (drop i s) else None)"

definition next_at :: "bytes \<Rightarrow> nat \<Rightarrow> close_bracket_cursor \<Rightarrow> nat option \<times> close_bracket_cursor" where
  "next_at source position c =
     (let fresh = (case get_from source position of None \<Rightarrow> None | Some rest \<Rightarrow> find_from source position '']]'');
          searched = (if get_from source position = None then c else \<lparr>scanned_from = position, found = fresh\<rparr>)
      in if position < scanned_from c then (fresh, c)
         else case found c of
           Some f \<Rightarrow> if f \<ge> position then (Some f, c) else (fresh, searched)
         | None \<Rightarrow> if scanned_from c \<noteq> 0 then (None, c) else (fresh, searched))"

definition cursor_ok :: "bytes \<Rightarrow> close_bracket_cursor \<Rightarrow> bool" where
  "cursor_ok source c \<longleftrightarrow>
     found c = find_from source (scanned_from c) '']]'' \<or> scanned_from c = 0 \<and> found c = None"

lemma cursor_ok_new [simp]: "cursor_ok source close_bracket_cursor_new"
  by (simp add: cursor_ok_def close_bracket_cursor_new_def)

lemma next_at_fresh:
  assumes "cursor_ok source c" and "position \<le> length source" and "boundary source position"
  shows "fst (next_at source position c) = find_from source position '']]''"
    and "cursor_ok source (snd (next_at source position c))"
proof -
  have g: "get_from source position \<noteq> None" using assms(2,3) by (simp add: get_from_def)
  have later: "find_from source position '']]'' = found c"
    if "\<not> position < scanned_from c" "found c = None \<and> scanned_from c \<noteq> 0 \<or> (\<exists>f. found c = Some f \<and> position \<le> f)"
    using that assms(1) by (subst find_from_later [of _ "scanned_from c"]) (auto simp: cursor_ok_def)
  show "fst (next_at source position c) = find_from source position '']]''"
    using g later by (auto simp: next_at_def Let_def split: option.splits)
  show "cursor_ok source (snd (next_at source position c))"
    using g assms(1) by (auto simp: next_at_def Let_def cursor_ok_def split: option.splits)
qed

lemma next_at_ge: "next_at source position c = (Some f, c') \<Longrightarrow> position \<le> f"
  by (auto simp: next_at_def Let_def dest: find_from_Some(1) split: option.splits if_splits)

subsection \<open>Cleanness of the line\<close>

record line_ownership =
  scanned_upto :: nat
  clean :: bool

definition line_ownership_new :: line_ownership where
  "line_ownership_new = \<lparr>scanned_upto = 0, clean = True\<rparr>"

definition line_blank :: "char \<Rightarrow> bool" where
  "line_blank c \<longleftrightarrow> c = CHR '' '' \<or> c = CHR 0x09 \<or> c = CHR 0x00"

fun cleanness :: "bool \<Rightarrow> bytes \<Rightarrow> bool" where
  "cleanness b [] = b"
| "cleanness b (c # cs) =
     cleanness (if c = CHR 0x0A then True else if line_blank c then b else False) cs"

definition ownership_at :: "bytes \<Rightarrow> nat \<Rightarrow> line_ownership \<Rightarrow> bool \<times> line_ownership" where
  "ownership_at source position o1 =
     (let b = cleanness (clean o1) (slice source (scanned_upto o1) position)
      in (b, \<lparr>scanned_upto = position, clean = b\<rparr>))"

definition last_line :: "bytes \<Rightarrow> bytes" where
  "last_line s = rev (takeWhile (\<lambda>c. c \<noteq> CHR 0x0A) (rev s))"

definition has_physical_line_ownership :: "bytes \<Rightarrow> nat \<Rightarrow> bool" where
  "has_physical_line_ownership source opener_start \<longleftrightarrow> list_all line_blank (last_line (take opener_start source))"

lemma cleanness_append: "cleanness b (s @ t) = cleanness (cleanness b s) t"
  by (induction b s rule: cleanness.induct) simp_all

lemma last_line_snoc: "last_line (s @ [c]) = (if c = CHR 0x0A then [] else last_line s @ [c])"
  by (simp add: last_line_def)

lemma cleanness_last_line: "cleanness True s \<longleftrightarrow> list_all line_blank (last_line s)"
  by (induction s rule: rev_induct) (auto simp: cleanness_append last_line_snoc last_line_def)

definition ownership_ok :: "bytes \<Rightarrow> line_ownership \<Rightarrow> bool" where
  "ownership_ok source o1 \<longleftrightarrow> clean o1 = cleanness True (take (scanned_upto o1) source)"

lemma ownership_ok_new [simp]: "ownership_ok source line_ownership_new"
  by (simp add: ownership_ok_def line_ownership_new_def)

lemma ownership_at_physical:
  assumes "ownership_ok source o1" and "scanned_upto o1 \<le> position"
  shows "fst (ownership_at source position o1) = has_physical_line_ownership source position"
    and "ownership_ok source (snd (ownership_at source position o1))"
    and "scanned_upto (snd (ownership_at source position o1)) = position"
proof -
  have "take (scanned_upto o1) source @ slice source (scanned_upto o1) position = take position source"
    using assms(2) by (simp add: slice_def flip: take_add)
  then have "cleanness (clean o1) (slice source (scanned_upto o1) position) = cleanness True (take position source)"
    using assms(1) by (metis cleanness_append ownership_ok_def)
  then show "fst (ownership_at source position o1) = has_physical_line_ownership source position"
    "ownership_ok source (snd (ownership_at source position o1))"
    "scanned_upto (snd (ownership_at source position o1)) = position"
    by (simp_all add: ownership_at_def has_physical_line_ownership_def cleanness_last_line Let_def ownership_ok_def)
qed

subsection \<open>Code markers\<close>

definition ascii_whitespace :: "char set" where
  "ascii_whitespace = {CHR '' '', CHR 0x09, CHR 0x0A, CHR 0x0C, CHR 0x0D}"

definition first_word :: "bytes \<Rightarrow> bytes" where
  "first_word head = takeWhile (\<lambda>c. c \<notin> ascii_whitespace) head"

definition code_opener_end_checked ::
  "bytes \<Rightarrow> nat \<Rightarrow> bool option \<Rightarrow> close_bracket_cursor \<Rightarrow> nat option \<times> close_bracket_cursor" where
  "code_opener_end_checked source opener_start own c =
     (case get_from source opener_start of
        None \<Rightarrow> (None, c)
      | Some rest \<Rightarrow>
          if \<not> starts_with rest ''[['' \<or> own = Some False then (None, c)
          else let head_start = opener_start + 2 in
            (case next_at source head_start c of
               (None, c) \<Rightarrow> (None, c)
             | (Some head_end, c) \<Rightarrow>
                 (if eq_ignore_ascii_case (first_word (slice source head_start head_end)) ''code''
                  then Some (head_end + 2) else None, c)))"

definition code_closer_marker_end ::
  "bytes \<Rightarrow> nat \<Rightarrow> close_bracket_cursor \<Rightarrow> nat option \<times> close_bracket_cursor" where
  "code_closer_marker_end source closer_start c =
     (case get_from source closer_start of
        None \<Rightarrow> (None, c)
      | Some rest \<Rightarrow>
          if \<not> starts_with rest ''[[/'' then (None, c)
          else let head_start = closer_start + 3 in
            (case next_at source head_start c of
               (None, c) \<Rightarrow> (None, c)
             | (Some head_end, c) \<Rightarrow>
                 (if eq_ignore_ascii_case (slice source head_start head_end) ''code''
                  then Some (head_end + 2) else None, c)))"

definition code_closer_terminates :: "bytes \<Rightarrow> nat \<Rightarrow> bool" where
  "code_closer_terminates source closer_end \<longleftrightarrow>
     (case get source closer_end of
        None \<Rightarrow> True
      | Some b \<Rightarrow> b \<in> {CHR '' '', CHR 0x09, CHR 0x0D, CHR 0x0A})"

definition code_closer_end :: "bytes \<Rightarrow> nat \<Rightarrow> close_bracket_cursor \<Rightarrow> nat option \<times> close_bracket_cursor" where
  "code_closer_end source closer_start c =
     (case code_closer_marker_end source closer_start c of
        (Some e, c) \<Rightarrow> (if code_closer_terminates source e then Some e else None, c)
      | (None, c) \<Rightarrow> (None, c))"

text \<open>A marker: whether it closes, its name, and its end.\<close>

definition marker_at :: "bytes \<Rightarrow> nat \<Rightarrow> (bool \<times> bytes \<times> nat) option" where
  "marker_at source marker_start =
     (case get_from source marker_start of
        None \<Rightarrow> None
      | Some rest \<Rightarrow>
          if \<not> starts_with rest ''[['' then None
          else
            let closing = starts_with rest ''[[/'';
                head_start = marker_start + (if closing then 3 else 2)
            in case find_from source head_start '']]'' of
                 None \<Rightarrow> None
               | Some head_end \<Rightarrow>
                   let head = trim_end_set ascii_whitespace (trim_start_set ascii_whitespace (slice source head_start head_end));
                       name = first_word head
                   in if name = [] then None else Some (closing, name, head_end + 2))"

lemma marker_at_ge: "marker_at source i = Some (b, name, e) \<Longrightarrow> i + 4 \<le> e"
  by (auto simp: marker_at_def Let_def dest: find_from_Some(1) split: option.splits if_splits)

lemma find_marker_less: "find_from s i ''[['' = Some m \<Longrightarrow> i \<le> m \<and> m < length s"
  using find_from_Some [of s i "''[[''" m] by fastforce

function bold_depth :: "bytes \<Rightarrow> nat \<Rightarrow> nat \<Rightarrow> nat" where
  "bold_depth body cursor depth =
     (case find_from body cursor ''[['' of
        None \<Rightarrow> depth
      | Some marker_start \<Rightarrow>
          (case marker_at body marker_start of
             None \<Rightarrow> bold_depth body (marker_start + 2) depth
           | Some (closing, name, marker_end) \<Rightarrow>
               bold_depth body marker_end
                 (if \<not> eq_ignore_ascii_case name ''bold'' then depth
                  else if closing then depth - 1 else depth + 1)))"
  by pat_completeness auto
termination
  by (relation "measure (\<lambda>(body, cursor, depth). length body - cursor)")
    (auto dest!: find_marker_less marker_at_ge)

declare bold_depth.simps [simp del]

definition crosses_bold_closer :: "bytes \<Rightarrow> bytes \<Rightarrow> bool" where
  "crosses_bold_closer body rest \<longleftrightarrow>
     (case marker_at rest 0 of
        None \<Rightarrow> False
      | Some (closing, name, e) \<Rightarrow>
          closing \<and> eq_ignore_ascii_case name ''bold'' \<and> bold_depth body 0 0 > 0)"

subsection \<open>Code blocks\<close>

record code_candidate =
  cc_body :: "nat \<times> nat"
  owner_end :: nat
  end_blocks_to_skip :: nat

record open_code =
  oc_opener_start :: nat
  oc_body_start :: nat
  nested_closes :: nat
  fallback_closer :: "(nat \<times> nat) option"

record code_scan =
  cs_output :: "nat \<rightharpoonup> code_candidate"
  cs_stack :: "open_code list"
  cs_ownership :: line_ownership
  cs_brackets :: close_bracket_cursor

definition record_candidate ::
  "bytes \<Rightarrow> nat \<Rightarrow> code_candidate \<Rightarrow> (nat \<rightharpoonup> code_candidate) \<Rightarrow> (nat \<rightharpoonup> code_candidate)" where
  "record_candidate source opener c m =
     (if crosses_bold_closer (slice source (fst (cc_body c)) (snd (cc_body c))) (drop (owner_end c) source)
      then m else m(opener \<mapsto> c))"

text \<open>A terminating closer pops the innermost open block (the stack has its top first).\<close>

definition close_code :: "bytes \<Rightarrow> nat \<Rightarrow> nat \<Rightarrow> open_code list \<Rightarrow> (nat \<rightharpoonup> code_candidate) \<Rightarrow>
    open_code list \<times> (nat \<rightharpoonup> code_candidate)" where
  "close_code source marker_start marker_end stack output =
     (case stack of
        [] \<Rightarrow> ([], output)
      | open # rest \<Rightarrow>
          ((case rest of
              [] \<Rightarrow> []
            | parent # rest \<Rightarrow>
                parent\<lparr>nested_closes := nested_closes parent + (1 + nested_closes open),
                       fallback_closer := Some (marker_start, marker_end)\<rparr> # rest),
           record_candidate source (oc_opener_start open)
             \<lparr>cc_body = (oc_body_start open, marker_start), owner_end = marker_end,
              end_blocks_to_skip = nested_closes open\<rparr> output))"

definition new_open_code :: "nat \<Rightarrow> nat \<Rightarrow> open_code" where
  "new_open_code opener body_start =
     \<lparr>oc_opener_start = opener, oc_body_start = body_start, nested_closes = 0, fallback_closer = None\<rparr>"

lemma code_closer_marker_end_ge: "code_closer_marker_end source i c = (Some e, c') \<Longrightarrow> i + 5 \<le> e"
  by (auto simp: code_closer_marker_end_def Let_def dest!: next_at_ge split: option.splits if_splits prod.splits)

lemma code_closer_end_ge: "code_closer_end source i c = (Some e, c') \<Longrightarrow> i + 5 \<le> e"
  by (auto simp: code_closer_end_def dest!: code_closer_marker_end_ge split: prod.splits option.splits if_splits)

lemma code_opener_end_ge: "code_opener_end_checked source i b c = (Some e, c') \<Longrightarrow> i + 4 \<le> e"
  by (auto simp: code_opener_end_checked_def Let_def dest!: next_at_ge split: option.splits if_splits prod.splits)

function candidates_loop :: "bytes \<Rightarrow> nat \<Rightarrow> code_scan \<Rightarrow> code_scan" where
  "candidates_loop source cursor st =
     (case find_from source cursor ''[['' of
        None \<Rightarrow> st
      | Some marker_start \<Rightarrow>
          (case code_closer_marker_end source marker_start (cs_brackets st) of
             (Some marker_end, brackets) \<Rightarrow>
               let (stack, out1) =
                     (if code_closer_terminates source marker_end
                      then close_code source marker_start marker_end (cs_stack st) (cs_output st)
                      else (cs_stack st, cs_output st))
               in candidates_loop source marker_end
                    (st\<lparr>cs_brackets := brackets, cs_stack := stack, cs_output := out1\<rparr>)
           | (None, brackets) \<Rightarrow>
               (case ownership_at source marker_start (cs_ownership st) of
                  (own, ownership) \<Rightarrow>
                    (case code_opener_end_checked source marker_start (Some own) brackets of
                       (Some body_start, brackets) \<Rightarrow>
                         candidates_loop source body_start
                           (st\<lparr>cs_brackets := brackets, cs_ownership := ownership,
                               cs_stack := new_open_code marker_start body_start # cs_stack st\<rparr>)
                     | (None, brackets) \<Rightarrow>
                         candidates_loop source (marker_start + 2)
                           (st\<lparr>cs_brackets := brackets, cs_ownership := ownership\<rparr>)))))"
  by pat_completeness auto
termination
  by (relation "measure (\<lambda>(source, cursor, st). length source - cursor)")
    (auto dest!: find_marker_less code_closer_marker_end_ge [OF sym] code_opener_end_ge [OF sym])

declare candidates_loop.simps [simp del]

text \<open>What is still open at the end falls back to the last closer inside it.\<close>

fun fallback_loop :: "bytes \<Rightarrow> open_code list \<Rightarrow> (nat \<rightharpoonup> code_candidate) \<Rightarrow> (nat \<rightharpoonup> code_candidate)" where
  "fallback_loop source [] out1 = out1"
| "fallback_loop source [open] out1 =
     (case fallback_closer open of
        None \<Rightarrow> out1
      | Some (i, e) \<Rightarrow>
          record_candidate source (oc_opener_start open)
            \<lparr>cc_body = (oc_body_start open, i), owner_end = e, end_blocks_to_skip = nested_closes open - 1\<rparr> out1)"
| "fallback_loop source (open # parent # rest) out1 =
     (case fallback_closer open of
        None \<Rightarrow> fallback_loop source (parent # rest) out1
      | Some (i, e) \<Rightarrow>
          fallback_loop source
            (parent\<lparr>nested_closes := nested_closes parent + nested_closes open, fallback_closer := Some (i, e)\<rparr> # rest)
            (record_candidate source (oc_opener_start open)
              \<lparr>cc_body = (oc_body_start open, i), owner_end = e, end_blocks_to_skip = nested_closes open - 1\<rparr> out1))"

definition code_scan_new :: code_scan where
  "code_scan_new = \<lparr>cs_output = Map.empty, cs_stack = [], cs_ownership = line_ownership_new,
     cs_brackets = close_bracket_cursor_new\<rparr>"

definition candidates :: "bytes \<Rightarrow> nat \<rightharpoonup> code_candidate" where
  "candidates source =
     (let st = candidates_loop source 0 code_scan_new in fallback_loop source (cs_stack st) (cs_output st))"

definition candidate_at :: "bytes \<Rightarrow> nat \<Rightarrow> code_candidate option" where
  "candidate_at source opener_start = candidates source opener_start"

function inner_loop :: "bytes \<Rightarrow> nat \<Rightarrow> nat \<Rightarrow> nat \<Rightarrow> nat \<Rightarrow> line_ownership \<Rightarrow> close_bracket_cursor \<Rightarrow> code_candidate option" where
  "inner_loop source body_start cursor nested_depth skip ownership brackets =
     (case find_from source cursor ''[['' of
        None \<Rightarrow> None
      | Some marker_start \<Rightarrow>
          (case code_closer_end source marker_start brackets of
             (Some marker_end, brackets) \<Rightarrow>
               if nested_depth > 0
               then inner_loop source body_start marker_end (nested_depth - 1) (skip + 1) ownership brackets
               else if crosses_bold_closer (slice source body_start marker_start) (drop marker_end source) then None
               else Some \<lparr>cc_body = (body_start, marker_start), owner_end = marker_end, end_blocks_to_skip = skip\<rparr>
           | (None, brackets) \<Rightarrow>
               (case ownership_at source marker_start ownership of
                  (own, ownership) \<Rightarrow>
                    (case code_opener_end_checked source marker_start (Some own) brackets of
                       (Some nested, brackets) \<Rightarrow>
                         inner_loop source body_start nested (nested_depth + 1) skip ownership brackets
                     | (None, brackets) \<Rightarrow>
                         inner_loop source body_start (marker_start + 2) nested_depth skip ownership brackets))))"
  by pat_completeness auto
termination
  by (relation "measure (\<lambda>(source, body_start, cursor, rest). length source - cursor)")
    (auto dest!: find_marker_less code_closer_end_ge [OF sym] code_opener_end_ge [OF sym])

declare inner_loop.simps [simp del]

definition candidate_at_inner :: "bytes \<Rightarrow> nat \<Rightarrow> bool \<Rightarrow> code_candidate option" where
  "candidate_at_inner source opener_start require_line_owner =
     (let (own, ownership) =
            (if require_line_owner
             then map_prod Some id (ownership_at source opener_start line_ownership_new)
             else (None, line_ownership_new))
      in case code_opener_end_checked source opener_start own close_bracket_cursor_new of
           (None, brackets) \<Rightarrow> None
         | (Some body_start, brackets) \<Rightarrow> inner_loop source body_start body_start 0 0 ownership brackets)"

definition candidate_at_owned_opener :: "bytes \<Rightarrow> nat \<Rightarrow> bool \<Rightarrow> code_candidate option" where
  "candidate_at_owned_opener source opener_start allow_inner =
     (if has_physical_line_ownership source opener_start then candidate_at source opener_start
      else if allow_inner then candidate_at_inner source opener_start False
      else None)"

text \<open>
  \<open>active_ranges\<close> and \<open>active_body_ranges\<close>: the blocks that are not inside an earlier one.  A block ends
  after its opener (\<open>candidates_ok\<close>), so the loop of the program always moves on.
\<close>

function active_loop :: "bytes \<Rightarrow> (nat \<rightharpoonup> code_candidate) \<Rightarrow> nat \<Rightarrow> (nat \<times> code_candidate) list" where
  "active_loop source m cursor =
     (case find_from source cursor ''[['' of
        None \<Rightarrow> []
      | Some opener_start \<Rightarrow>
          (case m opener_start of
             Some c \<Rightarrow>
               if opener_start < owner_end c then (opener_start, c) # active_loop source m (owner_end c)
               else [(opener_start, c)]
           | None \<Rightarrow> active_loop source m (opener_start + 2)))"
  by pat_completeness auto
termination
  by (relation "measure (\<lambda>(source, m, cursor). length source - cursor)") (auto dest!: find_marker_less)

declare active_loop.simps [simp del]

definition active_ranges :: "bytes \<Rightarrow> (nat \<times> nat) list" where
  "active_ranges source = map (\<lambda>(i, c). (i, owner_end c)) (active_loop source (candidates source) 0)"

definition active_body_ranges :: "bytes \<Rightarrow> (nat \<times> nat) list" where
  "active_body_ranges source = map (\<lambda>(i, c). cc_body c) (active_loop source (candidates source) 0)"

subsection \<open>The memos answer what a fresh search would\<close>

lemma get_from_Some: "get_from s i = Some r \<Longrightarrow> r = drop i s \<and> i \<le> length s \<and> boundary s i"
  by (auto simp: get_from_def split: if_splits)

lemma get_from_starts:
  assumes "get_from s i = Some r" and "starts_with r p"
  shows "has s i p"
  using get_from_Some [OF assms(1)] assms(2) starts_with_length [OF assms(2)] by (auto simp: has_iff)

lemma next_at_new:
  assumes "valid_utf8 source" and "cursor_ok source c" and "has source i p" and "list_all is_ascii p" and "p \<noteq> []"
  shows "fst (next_at source (i + length p) c) = fst (next_at source (i + length p) close_bracket_cursor_new)"
    and "cursor_ok source (snd (next_at source (i + length p) c))"
proof -
  have le: "i + length p \<le> length source" using has_length [OF assms(3)] .
  have b: "boundary source (i + length p)" using assms(1,3-5) by (rule has_boundary_after)
  show "fst (next_at source (i + length p) c) = fst (next_at source (i + length p) close_bracket_cursor_new)"
    "cursor_ok source (snd (next_at source (i + length p) c))"
    using next_at_fresh [OF _ le b] assms(2) by simp_all
qed

lemma closer_fresh:
  assumes "valid_utf8 source" and "cursor_ok source c"
  shows "fst (code_closer_marker_end source i c) = fst (code_closer_marker_end source i close_bracket_cursor_new)"
    and "cursor_ok source (snd (code_closer_marker_end source i c))"
proof -
  have n: "fst (next_at source (i + 3) c) = fst (next_at source (i + 3) close_bracket_cursor_new) \<and>
      cursor_ok source (snd (next_at source (i + 3) c))"
    if "get_from source i = Some r" "starts_with r ''[[/''" for r
    using next_at_new [OF assms get_from_starts [OF that]] by (simp add: is_ascii_def eval_nat_numeral)
  show "fst (code_closer_marker_end source i c) = fst (code_closer_marker_end source i close_bracket_cursor_new)"
    "cursor_ok source (snd (code_closer_marker_end source i c))"
    using n assms(2)
    by (auto simp: code_closer_marker_end_def Let_def split: option.splits prod.splits)
qed

lemma opener_fresh:
  assumes "valid_utf8 source" and "cursor_ok source c"
  shows "fst (code_opener_end_checked source i own c) = fst (code_opener_end_checked source i own close_bracket_cursor_new)"
    and "cursor_ok source (snd (code_opener_end_checked source i own c))"
proof -
  have n: "fst (next_at source (i + 2) c) = fst (next_at source (i + 2) close_bracket_cursor_new) \<and>
      cursor_ok source (snd (next_at source (i + 2) c))"
    if "get_from source i = Some r" "starts_with r ''[[''" for r
    using next_at_new [OF assms get_from_starts [OF that]] by (simp add: is_ascii_def eval_nat_numeral)
  show "fst (code_opener_end_checked source i own c) = fst (code_opener_end_checked source i own close_bracket_cursor_new)"
    "cursor_ok source (snd (code_opener_end_checked source i own c))"
    using n assms(2)
    by (auto simp: code_opener_end_checked_def Let_def split: option.splits prod.splits)
qed

text \<open>The specification: the same loop that searches afresh at every marker.\<close>

definition closer_end_of :: "bytes \<Rightarrow> nat \<Rightarrow> nat option" where
  "closer_end_of source i = fst (code_closer_marker_end source i close_bracket_cursor_new)"

definition opener_end_of :: "bytes \<Rightarrow> nat \<Rightarrow> nat option" where
  "opener_end_of source i =
     fst (code_opener_end_checked source i (Some (has_physical_line_ownership source i)) close_bracket_cursor_new)"

lemma closer_end_of_ge: "closer_end_of source i = Some e \<Longrightarrow> i + 5 \<le> e"
  unfolding closer_end_of_def by (metis code_closer_marker_end_ge prod.collapse)

lemma opener_end_of_ge: "opener_end_of source i = Some e \<Longrightarrow> i + 4 \<le> e"
  unfolding opener_end_of_def by (metis code_opener_end_ge prod.collapse)

function fresh_loop ::
  "bytes \<Rightarrow> nat \<Rightarrow> open_code list \<Rightarrow> (nat \<rightharpoonup> code_candidate) \<Rightarrow> open_code list \<times> (nat \<rightharpoonup> code_candidate)" where
  "fresh_loop source cursor stack out1 =
     (case find_from source cursor ''[['' of
        None \<Rightarrow> (stack, out1)
      | Some i \<Rightarrow>
          (case closer_end_of source i of
             Some e \<Rightarrow>
               (case (if code_closer_terminates source e then close_code source i e stack out1 else (stack, out1)) of
                  (stack, out1) \<Rightarrow> fresh_loop source e stack out1)
           | None \<Rightarrow>
               (case opener_end_of source i of
                  Some b \<Rightarrow> fresh_loop source b (new_open_code i b # stack) out1
                | None \<Rightarrow> fresh_loop source (i + 2) stack out1)))"
  by pat_completeness auto
termination
  by (relation "measure (\<lambda>(source, cursor, rest). length source - cursor)")
    (auto dest!: find_marker_less closer_end_of_ge opener_end_of_ge)

declare fresh_loop.simps [simp del]

definition candidates_fresh :: "bytes \<Rightarrow> nat \<rightharpoonup> code_candidate" where
  "candidates_fresh source = (case fresh_loop source 0 [] Map.empty of (stack, out1) \<Rightarrow> fallback_loop source stack out1)"

lemma candidates_loop_fresh:
  "valid_utf8 source \<Longrightarrow> cursor_ok source (cs_brackets st) \<Longrightarrow> ownership_ok source (cs_ownership st) \<Longrightarrow>
   scanned_upto (cs_ownership st) \<le> cursor \<Longrightarrow>
   (cs_stack (candidates_loop source cursor st), cs_output (candidates_loop source cursor st)) =
   fresh_loop source cursor (cs_stack st) (cs_output st)"
proof (induction source cursor st rule: candidates_loop.induct)
  case (1 source cursor st)
  show ?case
  proof (cases "find_from source cursor ''[[''")
    case None
    then show ?thesis by (simp add: candidates_loop.simps [of source cursor] fresh_loop.simps [of source cursor])
  next
    case (Some i)
    have ci: "cursor \<le> i" using find_marker_less [OF Some] by simp
    obtain r c1 where m: "code_closer_marker_end source i (cs_brackets st) = (r, c1)" by fastforce
    have r: "closer_end_of source i = r" and c1: "cursor_ok source c1"
      using closer_fresh [OF "1.prems"(1,2), of i] m by (simp_all add: closer_end_of_def)
    show ?thesis
    proof (cases r)
      case e: (Some e)
      obtain stack out1 where so: "(if code_closer_terminates source e
          then close_code source i e (cs_stack st) (cs_output st) else (cs_stack st, cs_output st)) = (stack, out1)"
        by fastforce
      let ?st = "st\<lparr>cs_brackets := c1, cs_stack := stack, cs_output := out1\<rparr>"
      have l: "candidates_loop source cursor st = candidates_loop source e ?st"
        by (subst candidates_loop.simps) (simp add: Some m e so)
      have f: "fresh_loop source cursor (cs_stack st) (cs_output st) = fresh_loop source e stack out1"
        by (subst fresh_loop.simps) (simp add: Some r e so)
      have "i + 5 \<le> e" using closer_end_of_ge r e by simp
      then show ?thesis
        unfolding l f using 1(3) [OF Some m [symmetric] e so [symmetric] refl "1.prems"(1)] c1 "1.prems"(3,4) ci by simp
    next
      case None
      obtain own o1 where ow: "ownership_at source i (cs_ownership st) = (own, o1)" by fastforce
      note oa = ownership_at_physical [OF "1.prems"(3), of i]
      have own: "own = has_physical_line_ownership source i" and o1: "ownership_ok source o1" "scanned_upto o1 = i"
        using oa "1.prems"(4) ci ow by simp_all
      obtain b c2 where op: "code_opener_end_checked source i (Some own) c1 = (b, c2)" by fastforce
      have b: "opener_end_of source i = b" and c2: "cursor_ok source c2"
        using opener_fresh [OF "1.prems"(1) c1, of i "Some own"] op by (simp_all add: opener_end_of_def own)
      show ?thesis
      proof (cases b)
        case bs: (Some bs)
        let ?st = "st\<lparr>cs_brackets := c2, cs_ownership := o1, cs_stack := new_open_code i bs # cs_stack st\<rparr>"
        have l: "candidates_loop source cursor st = candidates_loop source bs ?st"
          by (subst candidates_loop.simps) (simp add: Some m None ow op bs)
        have f: "fresh_loop source cursor (cs_stack st) (cs_output st) =
            fresh_loop source bs (new_open_code i bs # cs_stack st) (cs_output st)"
          by (subst fresh_loop.simps) (simp add: Some r None b bs)
        have "i + 4 \<le> bs" using opener_end_of_ge b bs by simp
        then show ?thesis
          unfolding l f using 1(2) [OF Some m [symmetric] None ow [symmetric] op [symmetric] bs "1.prems"(1)] c2 o1 by simp
      next
        case bn: None
        let ?st = "st\<lparr>cs_brackets := c2, cs_ownership := o1\<rparr>"
        have l: "candidates_loop source cursor st = candidates_loop source (i + 2) ?st"
          by (subst candidates_loop.simps) (simp add: Some m None ow op bn)
        have f: "fresh_loop source cursor (cs_stack st) (cs_output st) = fresh_loop source (i + 2) (cs_stack st) (cs_output st)"
          by (subst fresh_loop.simps) (simp add: Some r None b bn)
        show ?thesis
          unfolding l f using 1(1) [OF Some m [symmetric] None ow [symmetric] op [symmetric] bn "1.prems"(1)] c2 o1 by simp
      qed
    qed
  qed
qed

lemma code_scan_new_simps [simp]:
  "cs_stack code_scan_new = []" "cs_output code_scan_new = Map.empty" "cs_brackets code_scan_new = close_bracket_cursor_new"
  "cs_ownership code_scan_new = line_ownership_new" "scanned_upto line_ownership_new = 0"
  by (simp_all add: code_scan_new_def line_ownership_new_def)

lemma candidates_fresh_eq: "valid_utf8 source \<Longrightarrow> candidates source = candidates_fresh source"
  using candidates_loop_fresh [of source code_scan_new 0]
  by (cases "fresh_loop source 0 [] Map.empty") (simp add: candidates_def candidates_fresh_def Let_def)

subsection \<open>Where code blocks are\<close>

lemma find_close_end:
  assumes "valid_utf8 s" and "find_from s i '']]'' = Some f"
  shows "f + 2 \<le> length s" and "boundary s (f + 2)"
proof -
  note b = find_from_Some [OF assms(2)]
  show "f + 2 \<le> length s" using b(3) by simp
  have "boundary s (f + length '']]'')"
    by (rule has_boundary_after [OF assms(1) b(2)]) (simp_all add: is_ascii_def)
  then show "boundary s (f + 2)" by simp
qed

lemma closer_end_of_extent:
  assumes "valid_utf8 s" and "closer_end_of s i = Some e"
  shows "has s i ''[[/''" and "i + 5 \<le> e" and "e \<le> length s" and "boundary s e" and "boundary s i"
proof -
  from assms(2) obtain r f where g: "get_from s i = Some r" "starts_with r ''[[/''"
    and n: "fst (next_at s (i + 3) close_bracket_cursor_new) = Some f" and e: "e = f + 2"
    by (auto simp: closer_end_of_def code_closer_marker_end_def Let_def split: option.splits if_splits prod.splits)
  show h: "has s i ''[[/''" using get_from_starts [OF g] .
  show "boundary s i" using get_from_Some [OF g(1)] by simp
  have "boundary s (i + length ''[[/'')"
    by (rule has_boundary_after [OF assms(1) h]) (simp_all add: is_ascii_def)
  moreover have "i + 3 \<le> length s" using has_length [OF h] by simp
  ultimately have "find_from s (i + 3) '']]'' = Some f"
    using next_at_fresh(1) [of s close_bracket_cursor_new "i + 3"] n by (simp add: eval_nat_numeral)
  from find_close_end [OF assms(1) this] find_from_Some(1) [OF this] e
  show "i + 5 \<le> e" "e \<le> length s" "boundary s e" by simp_all
qed

lemma opener_end_of_extent:
  assumes "valid_utf8 s" and "opener_end_of s i = Some e"
  shows "has s i ''[[''" and "i + 4 \<le> e" and "e \<le> length s" and "boundary s e" and "boundary s i"
proof -
  from assms(2) obtain r f where g: "get_from s i = Some r" "starts_with r ''[[''"
    and n: "fst (next_at s (i + 2) close_bracket_cursor_new) = Some f" and e: "e = f + 2"
    by (auto simp: opener_end_of_def code_opener_end_checked_def Let_def split: option.splits if_splits prod.splits)
  show h: "has s i ''[[''" using get_from_starts [OF g] .
  show "boundary s i" using get_from_Some [OF g(1)] by simp
  have "boundary s (i + length ''[['')"
    by (rule has_boundary_after [OF assms(1) h]) (simp_all add: is_ascii_def)
  moreover have "i + 2 \<le> length s" using has_length [OF h] by simp
  ultimately have "find_from s (i + 2) '']]'' = Some f"
    using next_at_fresh(1) [of s close_bracket_cursor_new "i + 2"] n by (simp add: eval_nat_numeral)
  from find_close_end [OF assms(1) this] find_from_Some(1) [OF this] e
  show "i + 4 \<le> e" "e \<le> length s" "boundary s e" by simp_all
qed

definition candidate_ok :: "bytes \<Rightarrow> nat \<Rightarrow> code_candidate \<Rightarrow> bool" where
  "candidate_ok s i c \<longleftrightarrow>
     (case cc_body c of (b, e) \<Rightarrow>
        i + 4 \<le> b \<and> b \<le> e \<and> e + 5 \<le> owner_end c \<and> owner_end c \<le> length s \<and>
        boundary s i \<and> boundary s b \<and> boundary s e \<and> boundary s (owner_end c) \<and>
        has s i ''[['' \<and> has s e ''[[/'')"

definition fallback_ok :: "bytes \<Rightarrow> nat \<Rightarrow> open_code \<Rightarrow> bool" where
  "fallback_ok s cursor open \<longleftrightarrow>
     (case fallback_closer open of
        None \<Rightarrow> True
      | Some (i, e) \<Rightarrow>
          0 < nested_closes open \<and> oc_body_start open \<le> i \<and> i + 5 \<le> e \<and> e \<le> length s \<and>
          boundary s i \<and> boundary s e \<and> has s i ''[[/'')"

definition open_ok :: "bytes \<Rightarrow> nat \<Rightarrow> open_code \<Rightarrow> bool" where
  "open_ok s cursor open \<longleftrightarrow>
     oc_opener_start open + 4 \<le> oc_body_start open \<and> oc_body_start open \<le> cursor \<and>
     boundary s (oc_opener_start open) \<and> boundary s (oc_body_start open) \<and>
     has s (oc_opener_start open) ''[['' \<and> fallback_ok s cursor open"

fun nested :: "open_code list \<Rightarrow> bool" where
  "nested (open # parent # rest) \<longleftrightarrow> oc_body_start parent \<le> oc_body_start open \<and> nested (parent # rest)"
| "nested _ \<longleftrightarrow> True"

definition outputs_ok :: "bytes \<Rightarrow> (nat \<rightharpoonup> code_candidate) \<Rightarrow> bool" where
  "outputs_ok s m \<longleftrightarrow> (\<forall>i c. m i = Some c \<longrightarrow> candidate_ok s i c)"

lemma outputs_okD: "outputs_ok s m \<Longrightarrow> m i = Some c \<Longrightarrow> candidate_ok s i c"
  by (simp add: outputs_ok_def)

lemma record_candidate_ok:
  "outputs_ok s m \<Longrightarrow> candidate_ok s i c \<Longrightarrow> outputs_ok s (record_candidate s i c m)"
  by (simp add: record_candidate_def outputs_ok_def)

lemma close_code_ok:
  assumes "closer_end_of s i = Some e" and "valid_utf8 s" and "cursor \<le> i"
    and "list_all (open_ok s cursor) stack" and "nested stack" and "outputs_ok s m"
    and "close_code s i e stack m = (stack', m')"
  shows "list_all (open_ok s e) stack' \<and> nested stack' \<and> outputs_ok s m'"
proof (cases stack)
  case Nil
  with assms(6,7) show ?thesis by (simp add: close_code_def)
next
  case (Cons open1 rest)
  note x = closer_end_of_extent [OF assms(2,1)]
  have later: "open_ok s e p" if "open_ok s cursor p" for p
    using that x(2) assms(3) by (auto simp: open_ok_def fallback_ok_def split: option.splits)
  have o: "open_ok s cursor open1" using assms(4) Cons by simp
  then have "candidate_ok s (oc_opener_start open1)
      \<lparr>cc_body = (oc_body_start open1, i), owner_end = e, end_blocks_to_skip = nested_closes open1\<rparr>"
    using x assms(3) by (simp add: candidate_ok_def open_ok_def)
  then have m: "outputs_ok s m'" using assms(6,7) Cons by (auto simp: close_code_def record_candidate_ok)
  show ?thesis
  proof (cases rest)
    case Nil
    with assms(7) Cons m show ?thesis by (auto simp: close_code_def)
  next
    case (Cons parent rest')
    let ?p = "parent\<lparr>nested_closes := nested_closes parent + (1 + nested_closes open1), fallback_closer := Some (i, e)\<rparr>"
    have s': "stack' = ?p # rest'" using assms(7) \<open>stack = open1 # rest\<close> Cons by (simp add: close_code_def)
    have p: "open_ok s cursor parent" "list_all (open_ok s cursor) rest'"
      using assms(4) \<open>stack = open1 # rest\<close> Cons by simp_all
    then have "open_ok s e ?p"
      using x assms(3) by (auto simp: open_ok_def fallback_ok_def)
    moreover have "list_all (open_ok s e) rest'" using p(2) later by (simp add: list_all_iff)
    moreover have "nested (?p # rest')"
      using assms(5) \<open>stack = open1 # rest\<close> Cons by (cases rest') simp_all
    ultimately show ?thesis using s' m by simp
  qed
qed

lemma fresh_loop_ok:
  "valid_utf8 s \<Longrightarrow> list_all (open_ok s cursor) stack \<Longrightarrow> nested stack \<Longrightarrow> outputs_ok s m \<Longrightarrow>
   fresh_loop s cursor stack m = (stack', m') \<Longrightarrow>
   (\<exists>k. list_all (open_ok s k) stack') \<and> nested stack' \<and> outputs_ok s m'"
proof (induction s cursor stack m rule: fresh_loop.induct)
  case (1 s cursor stack m)
  have later: "list_all (open_ok s e) stack" if "cursor \<le> e" for e
    using that "1.prems"(2) by (auto simp: list_all_iff open_ok_def fallback_ok_def split: option.splits)
  show ?case
  proof (cases "find_from s cursor ''[[''")
    case None
    with "1.prems" show ?thesis by (auto simp: fresh_loop.simps [of s cursor])
  next
    case (Some i)
    have ci: "cursor \<le> i" using find_marker_less [OF Some] by simp
    show ?thesis
    proof (cases "closer_end_of s i")
      case e: (Some e)
      obtain st1 m1 where so: "(if code_closer_terminates s e then close_code s i e stack m else (stack, m)) = (st1, m1)"
        by fastforce
      have "list_all (open_ok s e) st1 \<and> nested st1 \<and> outputs_ok s m1"
        using so close_code_ok [OF e "1.prems"(1) ci "1.prems"(2-4)] later closer_end_of_ge [OF e] ci "1.prems"(3,4)
        by (auto split: if_splits)
      moreover have "fresh_loop s e st1 m1 = (stack', m')"
        using "1.prems"(5) by (subst (asm) fresh_loop.simps) (simp add: Some e so)
      ultimately show ?thesis using 1(3) [OF Some e so [symmetric] "1.prems"(1)] by blast
    next
      case cn: None
      show ?thesis
      proof (cases "opener_end_of s i")
        case b: (Some b)
        note x = opener_end_of_extent [OF "1.prems"(1) b]
        have "open_ok s b (new_open_code i b)"
          using x by (simp add: open_ok_def new_open_code_def fallback_ok_def)
        moreover have "list_all (open_ok s b) stack" using later x(2) ci by simp
        moreover have "nested (new_open_code i b # stack)"
          using "1.prems"(2,3) ci x(2) by (cases stack) (auto simp: open_ok_def new_open_code_def)
        moreover have "fresh_loop s b (new_open_code i b # stack) m = (stack', m')"
          using "1.prems"(5) by (subst (asm) fresh_loop.simps) (simp add: Some cn b)
        ultimately show ?thesis using 1(2) [OF Some cn b "1.prems"(1)] "1.prems"(4) by simp
      next
        case None
        have "fresh_loop s (i + 2) stack m = (stack', m')"
          using "1.prems"(5) by (subst (asm) fresh_loop.simps) (simp add: Some cn None)
        moreover have "list_all (open_ok s (i + 2)) stack" using later ci by simp
        ultimately show ?thesis using 1(1) [OF Some cn None "1.prems"(1)] "1.prems"(3,4) by simp
      qed
    qed
  qed
qed

lemma fallback_candidate_ok:
  assumes "open_ok s k open1" and "fallback_closer open1 = Some (i, e)"
  shows "candidate_ok s (oc_opener_start open1)
    \<lparr>cc_body = (oc_body_start open1, i), owner_end = e, end_blocks_to_skip = nested_closes open1 - 1\<rparr>"
  using assms by (simp add: candidate_ok_def open_ok_def fallback_ok_def)

lemma fallback_loop_ok:
  "list_all (open_ok s k) stack \<Longrightarrow> nested stack \<Longrightarrow> outputs_ok s m \<Longrightarrow> outputs_ok s (fallback_loop s stack m)"
proof (induction s stack m rule: fallback_loop.induct)
  case (2 s open1 m)
  then show ?case
    using fallback_candidate_ok by (auto intro: record_candidate_ok split: option.split)
next
  case (3 s open1 parent rest m)
  show ?case
  proof (cases "fallback_closer open1")
    case None
    with 3 show ?thesis by simp
  next
    case (Some ie)
    obtain i e where ie: "ie = (i, e)" by fastforce
    let ?p = "parent\<lparr>nested_closes := nested_closes parent + nested_closes open1, fallback_closer := Some (i, e)\<rparr>"
    have c: "candidate_ok s (oc_opener_start open1)
        \<lparr>cc_body = (oc_body_start open1, i), owner_end = e, end_blocks_to_skip = nested_closes open1 - 1\<rparr>"
      using 3(3) Some ie by (intro fallback_candidate_ok [of s k]) simp_all
    have "open_ok s k ?p"
      using 3(3,4) Some ie by (auto simp: open_ok_def fallback_ok_def)
    moreover have "nested (?p # rest)" using 3(4) by (cases rest) simp_all
    ultimately show ?thesis
      using 3(2) [OF Some ie [symmetric]] 3(3,5) c Some ie by (simp add: record_candidate_ok)
  qed
qed simp

lemma candidates_ok:
  assumes "valid_utf8 source" and "candidates source i = Some c"
  shows "candidate_ok source i c"
proof -
  obtain stack m where l: "fresh_loop source 0 [] Map.empty = (stack, m)" by fastforce
  from fresh_loop_ok [OF assms(1) _ _ _ l] have "(\<exists>k. list_all (open_ok source k) stack) \<and> nested stack \<and> outputs_ok source m"
    by (simp add: outputs_ok_def)
  then have "outputs_ok source (candidates source)"
    using candidates_fresh_eq [OF assms(1)] l fallback_loop_ok by (auto simp: candidates_fresh_def)
  then show ?thesis using assms(2) by (rule outputs_okD)
qed

lemma active_loop_ordered:
  assumes "\<And>i c. m i = Some c \<Longrightarrow> candidate_ok source i c"
  shows "ordered_ranges source cursor (map (\<lambda>(i, c). ((i, owner_end c), c)) (active_loop source m cursor))"
  using assms
proof (induction source m cursor rule: active_loop.induct)
  case (1 source m cursor)
  show ?case
  proof (cases "find_from source cursor ''[[''")
    case None
    then show ?thesis by (simp add: active_loop.simps [of source m cursor])
  next
    case (Some i)
    have ci: "cursor \<le> i" using find_marker_less [OF Some] by simp
    show ?thesis
    proof (cases "m i")
      case None
      then have "ordered_ranges source (i + 2) (map (\<lambda>(i, c). ((i, owner_end c), c)) (active_loop source m (i + 2)))"
        using 1(1) [OF Some None] "1.prems" by simp
      then have "ordered_ranges source cursor (map (\<lambda>(i, c). ((i, owner_end c), c)) (active_loop source m (i + 2)))"
        by (rule ordered_ranges_weaken) (use ci in simp)
      then show ?thesis using Some None by (subst active_loop.simps) simp
    next
      case c: (Some c)
      have ok: "candidate_ok source i c" using "1.prems" c by simp
      then have lt: "i < owner_end c" by (auto simp: candidate_ok_def)
      have "ordered_ranges source (owner_end c) (map (\<lambda>(i, c). ((i, owner_end c), c)) (active_loop source m (owner_end c)))"
        using 1(2) [OF Some c lt] "1.prems" by simp
      with ok lt ci show ?thesis
        by (subst active_loop.simps) (auto simp: Some c candidate_ok_def split: prod.splits)
    qed
  qed
qed

lemma active_ranges_in_order:
  "valid_utf8 source \<Longrightarrow> ordered_ranges source 0 (map (\<lambda>r. (r, ())) (active_ranges source))"
  using active_loop_ordered [of "candidates source" source 0] candidates_ok
    ordered_ranges_fst [of "map (\<lambda>r. (r, ())) (active_ranges source)"
      "map (\<lambda>(i, c). ((i, owner_end c), c)) (active_loop source (candidates source) 0)" source 0]
  by (simp add: active_ranges_def comp_def case_prod_beta)

text \<open>
  C21: the memos of the search for code blocks change nothing: on valid text the blocks are those
  that a loop finds that looks for the next \<open>]]\<close> and at the whole line afresh at every marker.
\<close>

theorem code_memos_transparent:
  assumes "valid_utf8 source"
  shows "candidates source = candidates_fresh source"
  using assms by (rule candidates_fresh_eq)

theorem code_memos_transparent_witness:
  "candidates ''[[code]]x[[/code]]'' 0 = Some \<lparr>cc_body = (8, 9), owner_end = 18, end_blocks_to_skip = 0\<rparr>"
proof -
  have "valid_utf8 ''[[code]]x[[/code]]''" by (rule ascii_valid) (simp add: is_ascii_def)
  then have "candidates ''[[code]]x[[/code]]'' = candidates_fresh ''[[code]]x[[/code]]''"
    by (rule code_memos_transparent)
  moreover have "candidates_fresh ''[[code]]x[[/code]]'' 0 = Some \<lparr>cc_body = (8, 9), owner_end = 18, end_blocks_to_skip = 0\<rparr>"
    by code_simp
  ultimately show ?thesis by (simp only:)
qed

text \<open>
  The active code blocks of valid text are disjoint and in order, and they start and end where
  the text can be cut.
\<close>

theorem code_blocks_in_order:
  assumes "valid_utf8 source"
  shows "ordered_ranges source 0 (map (\<lambda>r. (r, ())) (active_ranges source))"
  using assms by (rule active_ranges_in_order)

theorem code_blocks_in_order_witness:
  "ordered_ranges ''[[code]]x[[/code]]'' 0 (map (\<lambda>r. (r, ())) (active_ranges ''[[code]]x[[/code]]''))"
  by (rule code_blocks_in_order) (rule ascii_valid, simp add: is_ascii_def)

end
