(* ===== verification/Literal.thy ===== *)
theory Literal
  imports Code_Blocks "HOL-Library.Product_Lexorder"
begin

text \<open>
  \<open>src/src/preproc/parser_functions/literal.rs\<close>: the regions of a source that preprocessing must not
  touch, collected from six kinds of markup, merged, and searched by offset.
\<close>

subsection \<open>The index\<close>

text \<open>Merging in order; the accumulator has its last range first.\<close>

fun merge_range :: "(nat \<times> nat) list \<Rightarrow> nat \<times> nat \<Rightarrow> (nat \<times> nat) list" where
  "merge_range [] r = [r]"
| "merge_range (previous # merged) r =
     (if fst r \<le> snd previous then (fst previous, max (snd previous) (snd r)) # merged
      else r # previous # merged)"

definition merge_ranges :: "(nat \<times> nat) list \<Rightarrow> (nat \<times> nat) list" where
  "merge_ranges ranges = rev (foldl merge_range [] (sort ranges))"

text \<open>\<open>partition_point\<close> of the standard library: how many elements lead that satisfy the predicate.\<close>

definition partition_point :: "('a \<Rightarrow> bool) \<Rightarrow> 'a list \<Rightarrow> nat" where
  "partition_point p xs = length (takeWhile p xs)"

definition regions_contain :: "(nat \<times> nat) list \<Rightarrow> nat \<Rightarrow> bool" where
  "regions_contain ranges offset \<longleftrightarrow>
     (let insertion = partition_point (\<lambda>r. fst r \<le> offset) ranges
      in insertion > 0 \<and> offset < snd (ranges ! (insertion - 1)))"

subsection \<open>Words and lines\<close>

definition blanks :: "char set" where
  "blanks = {CHR '' '', CHR 0x09}"

function quote_depth_loop :: "nat \<Rightarrow> bytes \<Rightarrow> nat \<times> bytes" where
  "quote_depth_loop depth body =
     (case strip_prefix ''>'' body of
        Some rest \<Rightarrow> quote_depth_loop (depth + 1) (trim_start_set blanks rest)
      | None \<Rightarrow> (depth, body))"
  by pat_completeness auto
termination
proof (relation "measure (\<lambda>(d, b). length b)")
  fix depth :: nat and body rest :: bytes
  assume "strip_prefix ''>'' body = Some rest"
  then have "length body = Suc (length rest)"
    by (auto simp: strip_prefix_def dest: starts_with_length split: if_splits)
  moreover have "length (trim_start_set blanks rest) \<le> length rest"
    by (simp add: trim_start_set_def length_dropWhile_le)
  ultimately show "((depth + 1, trim_start_set blanks rest), depth, body) \<in> measure (\<lambda>(d, b). length b)" by simp
qed simp

declare quote_depth_loop.simps [simp del]

definition quote_depth_and_body :: "bytes \<Rightarrow> nat \<times> bytes" where
  "quote_depth_and_body body = quote_depth_loop 0 (trim_start_set blanks body)"

text \<open>The first word of \<open>split_ascii_whitespace\<close>.\<close>

definition next_word :: "bytes \<Rightarrow> bytes option" where
  "next_word s = (let w = first_word (trim_start_set ascii_whitespace s) in if w = [] then None else Some w)"

definition before_sub :: "bytes \<Rightarrow> bytes \<Rightarrow> bytes option" where
  "before_sub pat s = map_option (\<lambda>k. take k s) (find_sub pat s)"

definition starts_blank :: "bytes \<Rightarrow> bool" where
  "starts_blank s \<longleftrightarrow> s \<noteq> [] \<and> hd s \<in> ascii_whitespace"

definition without_line_feed :: "bytes \<Rightarrow> bytes" where
  "without_line_feed line = (case strip_suffix [CHR 0x0A] line of Some b \<Rightarrow> b | None \<Rightarrow> line)"

definition without_line_ending :: "bytes \<Rightarrow> bytes" where
  "without_line_ending line =
     (case strip_suffix [CHR 0x0D] (without_line_feed line) of Some b \<Rightarrow> b | None \<Rightarrow> without_line_feed line)"

subsection \<open>Literal blocks\<close>

definition literal_close :: "bytes \<Rightarrow> bytes option" where
  "literal_close name =
     (if name = ''code'' then Some ''[[/code]]''
      else if name = ''html'' then Some ''[[/html]]''
      else if name = ''raw'' then Some ''[[/raw]]''
      else None)"

definition literal_block_at :: "bytes \<Rightarrow> (bytes \<times> nat) option" where
  "literal_block_at lower =
     (case strip_prefix ''[['' lower of
        None \<Rightarrow> None
      | Some marker \<Rightarrow>
          (case before_sub '']]'' (trim_start marker) of
             None \<Rightarrow> None
           | Some head \<Rightarrow>
               (case find_sub '']]'' lower of
                  None \<Rightarrow> None
                | Some k \<Rightarrow>
                    (case next_word (trim_end head) of
                       None \<Rightarrow> None
                     | Some w \<Rightarrow> map_option (\<lambda>close. (close, k + 2)) (literal_close w)))))"

record literal_block =
  lb_close :: bytes
  lb_quote_depth :: nat
  lb_start :: nat

text \<open>One line outside a block: a range or an open block.\<close>

definition literal_line ::
  "nat \<Rightarrow> nat \<Rightarrow> bytes \<Rightarrow> (nat \<times> nat) list \<times> literal_block option" where
  "literal_line quote_depth logical_start lower =
     (case literal_block_at lower of
        None \<Rightarrow> ([], None)
      | Some (close, opener_end) \<Rightarrow>
          (case find_from lower opener_end close of
             Some k \<Rightarrow> ([(logical_start, logical_start + k + length close)], None)
           | None \<Rightarrow> ([], Some \<lparr>lb_close = close, lb_quote_depth = quote_depth, lb_start = logical_start\<rparr>)))"

fun literal_lines ::
  "bytes list \<Rightarrow> nat \<Rightarrow> literal_block option \<Rightarrow> (nat \<times> nat) list \<times> nat \<times> literal_block option" where
  "literal_lines [] offset active = ([], offset, active)"
| "literal_lines (line # rest) offset active =
     (let body = without_line_feed line;
          (quote_depth, logical) = quote_depth_and_body body;
          logical_start = offset + length body - length logical;
          lower = to_ascii_lowercase logical;
          (ranges, active) =
            (case active of
               None \<Rightarrow> literal_line quote_depth logical_start lower
             | Some block \<Rightarrow>
                 if lb_quote_depth block > 0 \<and> quote_depth < lb_quote_depth block
                 then apfst (\<lambda>rs. (lb_start block, offset) # rs) (literal_line quote_depth logical_start lower)
                 else if lb_quote_depth block = 0 \<or> quote_depth = lb_quote_depth block
                 then (case find_sub (lb_close block) lower of
                         Some k \<Rightarrow> ([(lb_start block, logical_start + k + length (lb_close block))], None)
                       | None \<Rightarrow> ([], Some block))
                 else ([], Some block))
      in apfst (\<lambda>rs. ranges @ rs) (literal_lines rest (offset + length line) active))"

definition collect_wikidot_literal_blocks :: "bytes \<Rightarrow> (nat \<times> nat) list" where
  "collect_wikidot_literal_blocks source =
     (case literal_lines (split_inclusive source) 0 None of
        (ranges, offset, None) \<Rightarrow> ranges
      | (ranges, offset, Some block) \<Rightarrow> ranges @ [(lb_start block, length source)])"

subsection \<open>Literal blocks of parser functions\<close>

record pf_block =
  pb_name :: bytes
  pb_close :: bytes
  pb_start :: nat
  pb_depth :: nat

definition strict_literal_name :: "bytes \<Rightarrow> bytes option" where
  "strict_literal_name lower =
     (case strip_prefix ''[['' lower of
        None \<Rightarrow> None
      | Some marker \<Rightarrow>
          if starts_blank marker then None
          else map_option (\<lambda>head. case next_word head of Some w \<Rightarrow> w | None \<Rightarrow> []) (before_sub '']]'' marker))"

definition pf_line :: "nat \<Rightarrow> bytes \<Rightarrow> bytes \<Rightarrow> (nat \<times> nat) list \<times> pf_block option" where
  "pf_line logical_start logical lower =
     (if \<not> starts_with logical ''[['' then ([], None)
      else case find_sub '']]'' lower of
        None \<Rightarrow> ([], None)
      | Some head_end \<Rightarrow>
          let head = slice lower 2 head_end in
          if starts_blank head then ([], None)
          else let name = (case next_word head of Some w \<Rightarrow> w | None \<Rightarrow> []) in
            (case literal_close name of
               None \<Rightarrow> ([], None)
             | Some close \<Rightarrow>
                 (case find_from lower (head_end + 2) close of
                    Some k \<Rightarrow> ([(logical_start, logical_start + k + length close)], None)
                  | None \<Rightarrow> ([], Some \<lparr>pb_name = name, pb_close = close, pb_start = logical_start, pb_depth = 1\<rparr>))))"

definition pf_active_line :: "nat \<Rightarrow> bytes \<Rightarrow> pf_block \<Rightarrow> (nat \<times> nat) list \<times> pf_block option" where
  "pf_active_line logical_start lower block =
     (if strict_literal_name lower = Some (pb_name block)
      then ([], Some (block\<lparr>pb_depth := pb_depth block + 1\<rparr>))
      else case find_sub (pb_close block) lower of
        None \<Rightarrow> ([], Some block)
      | Some k \<Rightarrow>
          if pb_depth block > 1 then ([], Some (block\<lparr>pb_depth := pb_depth block - 1\<rparr>))
          else ([(pb_start block, logical_start + k + length (pb_close block))], None))"

fun pf_lines :: "bytes list \<Rightarrow> nat \<Rightarrow> pf_block option \<Rightarrow> (nat \<times> nat) list \<times> pf_block option" where
  "pf_lines [] offset active = ([], active)"
| "pf_lines (line # rest) offset active =
     (let body = without_line_ending line;
          logical = snd (quote_depth_and_body body);
          logical_start = offset + length body - length logical;
          lower = to_ascii_lowercase logical;
          (ranges, active) =
            (case active of
               Some block \<Rightarrow> pf_active_line logical_start lower block
             | None \<Rightarrow> pf_line logical_start logical lower)
      in apfst (\<lambda>rs. ranges @ rs) (pf_lines rest (offset + length line) active))"

definition collect_parser_function_literal_blocks :: "bytes \<Rightarrow> (nat \<times> nat) list" where
  "collect_parser_function_literal_blocks source =
     (case pf_lines (split_inclusive source) 0 None of
        (ranges, None) \<Rightarrow> ranges
      | (ranges, Some block) \<Rightarrow> ranges @ [(pb_start block, length source)])"

subsection \<open>Ranges on a line\<close>

function paired_line :: "bytes \<Rightarrow> bytes \<Rightarrow> bytes \<Rightarrow> nat \<Rightarrow> nat \<Rightarrow> (nat \<times> nat) list" where
  "paired_line opener closing line offset cursor =
     (if opener = [] then []
      else case find_from line cursor opener of
        None \<Rightarrow> []
      | Some start \<Rightarrow>
          (case find_from line (start + length opener) closing of
             None \<Rightarrow> []
           | Some k \<Rightarrow>
               (offset + start, offset + (k + length closing)) #
               paired_line opener closing line offset (k + length closing)))"
  by pat_completeness auto
termination
proof (relation "measure (\<lambda>(opener, closing, line, offset, cursor). length line - cursor)")
  fix opener closing line :: bytes and offset cursor start k :: nat
  assume o: "opener \<noteq> []" and a: "find_from line cursor opener = Some start"
    and b: "find_from line (start + length opener) closing = Some k"
  have "start + length opener \<le> k" using b by (auto simp: find_from_def)
  moreover have "cursor \<le> start" "start + length opener \<le> length line" using find_from_Some [OF a o] by auto
  moreover have "0 < length opener" using o by simp
  ultimately have "length line - (k + length closing) < length line - cursor" by linarith
  then show "((opener, closing, line, offset, k + length closing), (opener, closing, line, offset, cursor))
      \<in> measure (\<lambda>(opener, closing, line, offset, cursor). length line - cursor)" by simp
qed simp

declare paired_line.simps [simp del]

fun paired_lines :: "bytes \<Rightarrow> bytes \<Rightarrow> bytes list \<Rightarrow> nat \<Rightarrow> (nat \<times> nat) list" where
  "paired_lines opener closing [] offset = []"
| "paired_lines opener closing (line # rest) offset =
     paired_line opener closing line offset 0 @ paired_lines opener closing rest (offset + length line)"

definition collect_same_line_paired_ranges :: "bytes \<Rightarrow> bytes \<Rightarrow> bytes \<Rightarrow> (nat \<times> nat) list" where
  "collect_same_line_paired_ranges source opener closing = paired_lines opener closing (split_inclusive source) 0"

subsection \<open>HTML\<close>

function html_tag_loop :: "bytes \<Rightarrow> nat \<Rightarrow> char option \<Rightarrow> nat option" where
  "html_tag_loop source cursor quote =
     (if cursor < length source then
        let b = source ! cursor in
        if quote = Some b then html_tag_loop source (cursor + 1) None
        else if quote = None \<and> (b = CHR 0x27 \<or> b = CHR 0x22) then html_tag_loop source (cursor + 1) (Some b)
        else if quote = None \<and> b = CHR ''>'' then Some (cursor + 1)
        else html_tag_loop source (cursor + 1) quote
      else None)"
  by pat_completeness auto
termination by (relation "measure (\<lambda>(source, cursor, q). length source - cursor)") auto

declare html_tag_loop.simps [simp del]

definition html_tag_end :: "bytes \<Rightarrow> nat \<Rightarrow> nat option" where
  "html_tag_end source start = html_tag_loop source (start + 1) None"

definition html_tag_name :: "bytes \<Rightarrow> (bytes \<times> bool \<times> bool) option" where
  "html_tag_name tag =
     (case strip_prefix ''<'' tag of
        None \<Rightarrow> None
      | Some rest \<Rightarrow>
          (case strip_suffix ''>'' rest of
             None \<Rightarrow> None
           | Some inside \<Rightarrow>
               let inner = trim inside in
               if inner = [] \<or> starts_with inner ''!'' \<or> starts_with inner ''?'' then None
               else
                 let closing = starts_with inner ''/'';
                     inner = (if closing then trim_start (drop 1 inner) else inner);
                     name = to_ascii_lowercase
                       (takeWhile (\<lambda>c. c \<notin> ascii_whitespace \<and> c \<noteq> CHR ''/'' \<and> c \<noteq> CHR ''>'') inner)
                 in if name = [] then None else Some (name, closing, ends_with inner ''/'')))"

definition html_tag_starts_literal :: "bytes \<Rightarrow> bytes \<Rightarrow> bool" where
  "html_tag_starts_literal name tag \<longleftrightarrow>
     name \<in> set [''code'', ''pre'', ''script'', ''style'', ''textarea''] \<or>
     name = ''div'' \<and>
     (contains_sub (to_ascii_lowercase tag) (''class='' @ [CHR 0x22] @ ''code'' @ [CHR 0x22]) \<or>
      contains_sub (to_ascii_lowercase tag) (''class='' @ [CHR 0x27] @ ''code'' @ [CHR 0x27]))"

text \<open>The open literal element: its name, where its content starts, and its depth.\<close>

definition html_step ::
  "bytes \<Rightarrow> nat \<Rightarrow> nat \<Rightarrow> (bytes \<times> nat \<times> nat) option \<Rightarrow> (nat \<times> nat) list \<times> (bytes \<times> nat \<times> nat) option" where
  "html_step tag tag_start tag_end active =
     (case html_tag_name tag of
        None \<Rightarrow> ([], active)
      | Some (name, closing, self_closing) \<Rightarrow>
          (case active of
             Some (root, content_start, depth) \<Rightarrow>
               if name \<noteq> root then ([], active)
               else if closing then
                 (if depth - 1 = 0 then ([(content_start, tag_start)], None)
                  else ([], Some (root, content_start, depth - 1)))
               else if \<not> self_closing then ([], Some (root, content_start, depth + 1))
               else ([], active)
           | None \<Rightarrow>
               if \<not> closing \<and> \<not> self_closing \<and> html_tag_starts_literal name tag
               then ([], Some (name, tag_end, 1)) else ([], None)))"

lemma html_tag_loop_bounds: "html_tag_loop source cursor q = Some e \<Longrightarrow> cursor < e \<and> e \<le> length source \<and> source ! (e - 1) = CHR ''>''"
proof (induction source cursor q rule: html_tag_loop.induct)
  case (1 source cursor q)
  from "1.prems" have c: "cursor < length source"
    by (subst (asm) html_tag_loop.simps) (auto split: if_splits)
  show ?case
  proof (cases "q = None \<and> source ! cursor = CHR ''>''")
    case True
    with "1.prems" c have "e = cursor + 1"
      by (subst (asm) html_tag_loop.simps) (auto simp: Let_def)
    with True c show ?thesis by simp
  next
    case False
    then obtain q' where "html_tag_loop source (cursor + 1) q' = Some e"
      and "html_tag_loop source (cursor + 1) q' = Some e \<Longrightarrow> cursor + 1 < e \<and> e \<le> length source \<and> source ! (e - 1) = CHR ''>''"
      using 1 c by (subst (asm) (4) html_tag_loop.simps) (auto simp: Let_def split: if_splits)
    then show ?thesis by simp
  qed
qed

lemma find_tag_less: "find_from s i ''<'' = Some m \<Longrightarrow> i \<le> m \<and> m < length s"
  using find_from_Some [of s i "''<''" m] by fastforce

function html_loop ::
  "bytes \<Rightarrow> nat \<Rightarrow> (bytes \<times> nat \<times> nat) option \<Rightarrow> (nat \<times> nat) list \<times> (bytes \<times> nat \<times> nat) option" where
  "html_loop source cursor active =
     (case find_from source cursor ''<'' of
        None \<Rightarrow> ([], active)
      | Some tag_start \<Rightarrow>
          (case html_tag_end source tag_start of
             None \<Rightarrow> ([], active)
           | Some tag_end \<Rightarrow>
               (case html_step (slice source tag_start tag_end) tag_start tag_end active of
                  (ranges, active) \<Rightarrow> apfst (\<lambda>rs. ranges @ rs) (html_loop source tag_end active))))"
  by pat_completeness auto
termination
  by (relation "measure (\<lambda>(source, cursor, a). length source - cursor)")
    (auto simp: html_tag_end_def dest!: find_tag_less html_tag_loop_bounds)

declare html_loop.simps [simp del]

definition collect_html_literal_ranges :: "bytes \<Rightarrow> (nat \<times> nat) list" where
  "collect_html_literal_ranges source =
     (case html_loop source 0 None of
        (ranges, None) \<Rightarrow> ranges
      | (ranges, Some (name, content_start, depth)) \<Rightarrow> ranges @ [(content_start, length source)])"

subsection \<open>Module bodies\<close>

definition bodyless_modules :: "bytes list" where
  "bodyless_modules = [''rate'', ''backlinks'', ''categories'', ''join'', ''pagetree'']"

lemma find_module_less: "find_from s i ''[[module'' = Some m \<Longrightarrow> i \<le> m \<and> m < length s"
  using find_from_Some [of s i "''[[module''" m] by fastforce

function module_loop :: "bytes \<Rightarrow> nat \<Rightarrow> (nat \<times> nat) list" where
  "module_loop lower cursor =
     (case find_from lower cursor ''[[module'' of
        None \<Rightarrow> []
      | Some opn \<Rightarrow>
          let after_name = opn + 8 in
          (case find_from lower after_name '']]'' of
             None \<Rightarrow> []
           | Some k \<Rightarrow>
               let head_end = k + 2; head = slice lower after_name k;
                   name = (case next_word head of Some w \<Rightarrow> w | None \<Rightarrow> []) in
               if \<not> starts_blank head \<or> name = [] \<or> name \<in> set bodyless_modules then module_loop lower after_name
               else
                 (case find_from lower head_end ''[[/module'' of
                    None \<Rightarrow> module_loop lower after_name
                  | Some close \<Rightarrow>
                      if starts_with (trim_start_set blanks (drop (close + 9) lower)) '']]''
                      then (head_end, close) # module_loop lower close
                      else module_loop lower after_name)))"
  by pat_completeness auto
termination
proof (relation "measure (\<lambda>(lower, cursor). length lower - cursor)", goal_cases)
  case (4 lower cursor opn a k e h n close)
  then show ?case
    using find_from_Some [of lower cursor "''[[module''" "opn"] find_from_Some [of lower "opn + 8" "'']]''" k]
      find_from_Some [of lower "k + 2" "''[[/module''" close] by simp
qed (auto dest: find_module_less)

declare module_loop.simps [simp del]

definition collect_module_body_ranges :: "bytes \<Rightarrow> (nat \<times> nat) list" where
  "collect_module_body_ranges source = module_loop (to_ascii_lowercase source) 0"

subsection \<open>The three indexes\<close>

definition literal_ranges :: "bytes \<Rightarrow> (nat \<times> nat) list" where
  "literal_ranges source =
     collect_wikidot_literal_blocks source @ active_ranges source @
     collect_same_line_paired_ranges source ''@@'' ''@@'' @
     collect_same_line_paired_ranges source ''@<'' ''>@'' @
     collect_html_literal_ranges source"

definition literal_region_index :: "bytes \<Rightarrow> (nat \<times> nat) list" where
  "literal_region_index source = merge_ranges (literal_ranges source)"

definition literal_regions_for_typography :: "bytes \<Rightarrow> (nat \<times> nat) list" where
  "literal_regions_for_typography source =
     merge_ranges (literal_region_index source @ collect_module_body_ranges source)"

definition parser_function_literal_ranges :: "bytes \<Rightarrow> (nat \<times> nat) list" where
  "parser_function_literal_ranges source =
     collect_parser_function_literal_blocks source @ collect_same_line_paired_ranges source ''@@'' ''@@''"

definition literal_regions_for_parser_functions :: "bytes \<Rightarrow> (nat \<times> nat) list" where
  "literal_regions_for_parser_functions source = merge_ranges (parser_function_literal_ranges source)"

end
