(* ===== verification/Literal_Index.thy ===== *)
theory Literal_Index
  imports Literal
begin

text \<open>
  What the index of literal regions promises: an offset is in it exactly when it is in one of the
  ranges collected, and all its ranges start and end where the text can be cut.
\<close>

subsection \<open>Merging\<close>

definition in_range :: "nat \<Rightarrow> nat \<times> nat \<Rightarrow> bool" where
  "in_range offset r \<longleftrightarrow> fst r \<le> offset \<and> offset < snd r"

definition apart :: "nat \<times> nat \<Rightarrow> nat \<times> nat \<Rightarrow> bool" where
  "apart later earlier \<longleftrightarrow> fst earlier \<le> fst later \<and> snd earlier < fst later"

lemma merge_range_apart:
  "sorted_wrt apart merged \<Longrightarrow> list_all (\<lambda>x. fst x \<le> fst r) merged \<Longrightarrow> sorted_wrt apart (merge_range merged r)"
  by (induction merged r rule: merge_range.induct)
    (auto simp: apart_def list_all_iff dest: order_trans)

lemma merge_range_starts:
  "list_all (\<lambda>x. fst x \<le> k) merged \<Longrightarrow> fst r \<le> k \<Longrightarrow> list_all (\<lambda>x. fst x \<le> k) (merge_range merged r)"
  by (induction merged r rule: merge_range.induct) auto

lemma merge_range_covers:
  "list_all (\<lambda>x. fst x \<le> fst r) merged \<Longrightarrow>
   list_ex (in_range offset) (merge_range merged r) \<longleftrightarrow> list_ex (in_range offset) merged \<or> in_range offset r"
  by (induction merged r rule: merge_range.induct) (auto simp: in_range_def)

lemma merge_fold:
  "sorted ranges \<Longrightarrow> sorted_wrt apart merged \<Longrightarrow> list_all (\<lambda>r. list_all (\<lambda>x. fst x \<le> fst r) merged) ranges \<Longrightarrow>
   sorted_wrt apart (foldl merge_range merged ranges) \<and>
   (list_ex (in_range offset) (foldl merge_range merged ranges) \<longleftrightarrow>
      list_ex (in_range offset) merged \<or> list_ex (in_range offset) ranges)"
proof (induction ranges arbitrary: merged)
  case (Cons r ranges)
  have r: "list_all (\<lambda>x. fst x \<le> fst r) merged" using Cons.prems(3) by simp
  have le: "fst r \<le> fst x" if "x \<in> set ranges" for x
    using Cons.prems(1) that by (fastforce simp: less_eq_prod_def)
  have "list_all (\<lambda>y. fst y \<le> fst x) (merge_range merged r)" if "x \<in> set ranges" for x
    using Cons.prems(3) that le [OF that] by (intro merge_range_starts) (simp_all add: list_all_iff)
  then have "list_all (\<lambda>x. list_all (\<lambda>y. fst y \<le> fst x) (merge_range merged r)) ranges"
    unfolding list_all_iff [of _ ranges] by blast
  with Cons.IH [OF _ merge_range_apart [OF Cons.prems(2) r]] Cons.prems(1) merge_range_covers [OF r]
  show ?case by auto
qed simp

lemma lookup_apart:
  assumes "sorted_wrt apart (rev ranges)"
  shows "regions_contain ranges offset \<longleftrightarrow> list_ex (in_range offset) ranges"
proof -
  let ?n = "length (takeWhile (\<lambda>r. fst r \<le> offset) ranges)"
  have ap: "fst (ranges ! i) \<le> fst (ranges ! j) \<and> snd (ranges ! i) < fst (ranges ! j)" if "i < j" "j < length ranges" for i j
  proof -
    have "sorted_wrt (\<lambda>a b. apart b a) ranges" using assms by (simp add: sorted_wrt_rev)
    from sorted_wrt_nth_less [OF this that] show ?thesis by (simp add: apart_def)
  qed
  have below: "fst (ranges ! i) \<le> offset" if "i < ?n" for i
    using that nth_length_takeWhile set_takeWhileD takeWhile_nth by (metis nth_mem)
  have len: "?n \<le> length ranges" by (rule length_takeWhile_le)
  show ?thesis
  proof
    assume "regions_contain ranges offset"
    then have "0 < ?n" "offset < snd (ranges ! (?n - 1))"
      by (simp_all add: regions_contain_def partition_point_def Let_def)
    moreover have "fst (ranges ! (?n - 1)) \<le> offset" using \<open>0 < ?n\<close> by (intro below) simp
    moreover have "ranges ! (?n - 1) \<in> set ranges" using \<open>0 < ?n\<close> len by (intro nth_mem) linarith
    ultimately show "list_ex (in_range offset) ranges" by (auto simp: list_ex_iff in_range_def)
  next
    assume "list_ex (in_range offset) ranges"
    then obtain k where k: "k < length ranges" "fst (ranges ! k) \<le> offset" "offset < snd (ranges ! k)"
      by (auto simp: list_ex_length in_range_def)
    have kn: "k < ?n"
    proof (rule ccontr)
      assume "\<not> k < ?n"
      then have n: "?n \<le> k" by simp
      then have "\<not> fst (ranges ! ?n) \<le> offset" using k(1) nth_length_takeWhile [of "\<lambda>r. fst r \<le> offset" ranges] by simp
      moreover have "fst (ranges ! ?n) \<le> fst (ranges ! k)" using ap [of ?n k] n k(1) by (cases "?n = k") auto
      ultimately show False using k(2) by simp
    qed
    have "k = ?n - 1"
    proof (rule ccontr)
      assume "k \<noteq> ?n - 1"
      then have "k < ?n - 1" using kn by simp
      from ap [OF this] have "snd (ranges ! k) < fst (ranges ! (?n - 1))" using len kn by simp
      moreover have "fst (ranges ! (?n - 1)) \<le> offset" using kn by (intro below) simp
      ultimately show False using k(3) by simp
    qed
    moreover have "0 < ?n" using kn by linarith
    ultimately show "regions_contain ranges offset"
      unfolding regions_contain_def partition_point_def Let_def using k(3) by metis
  qed
qed

lemma merged_contain: "regions_contain (merge_ranges ranges) offset \<longleftrightarrow> list_ex (in_range offset) ranges"
proof -
  have f: "sorted_wrt apart (foldl merge_range [] (sort ranges)) \<and>
      (list_ex (in_range offset) (foldl merge_range [] (sort ranges)) \<longleftrightarrow> list_ex (in_range offset) (sort ranges))"
    using merge_fold [of "sort ranges" "[]" offset] by (simp add: list_all_iff)
  have "sorted_wrt apart (rev (merge_ranges ranges))" using f by (simp add: merge_ranges_def)
  from lookup_apart [OF this] have "regions_contain (merge_ranges ranges) offset \<longleftrightarrow> list_ex (in_range offset) (merge_ranges ranges)" .
  also have "\<dots> \<longleftrightarrow> list_ex (in_range offset) ranges"
    using f by (simp add: merge_ranges_def list_ex_iff)
  finally show ?thesis .
qed

subsection \<open>Cuts\<close>

definition cuttable :: "bytes \<Rightarrow> nat \<times> nat \<Rightarrow> bool" where
  "cuttable s r \<longleftrightarrow> fst r \<le> snd r \<and> snd r \<le> length s \<and> boundary s (fst r) \<and> boundary s (snd r)"

lemma merge_range_cuttable:
  "list_all (cuttable s) merged \<Longrightarrow> cuttable s r \<Longrightarrow> list_all (cuttable s) (merge_range merged r)"
  by (induction merged r rule: merge_range.induct) (auto simp: cuttable_def max_def)

lemma merge_fold_cuttable:
  "list_all (cuttable s) merged \<Longrightarrow> list_all (cuttable s) ranges \<Longrightarrow> list_all (cuttable s) (foldl merge_range merged ranges)"
  by (induction ranges arbitrary: merged) (auto intro: merge_range_cuttable)

lemma merge_cuttable: "list_all (cuttable s) ranges \<Longrightarrow> list_all (cuttable s) (merge_ranges ranges)"
  using merge_fold_cuttable [of s "[]" "sort ranges"] by (simp add: merge_ranges_def list_all_iff)

text \<open>A line of a source, by its offset and what follows it.\<close>

definition line_at :: "bytes \<Rightarrow> nat \<Rightarrow> bytes list \<Rightarrow> bool" where
  "line_at s offset lines \<longleftrightarrow>
     offset \<le> length s \<and> boundary s offset \<and> drop offset s = concat lines \<and> lines = split_inclusive (concat lines)"

lemma line_at_start: "line_at s 0 (split_inclusive s)"
  by (simp add: line_at_def)

lemma boundary_after_ascii:
  assumes "valid_utf8 s" and "i < length s" and "is_ascii (s ! i)"
  shows "boundary s (i + 1)"
  using boundary_ascii [OF assms(1) boundary_of_ascii [OF assms(2,3)] assms(2,3)] by simp

lemma line_at_next:
  assumes "valid_utf8 s" and "line_at s offset (line # rest)"
  shows "line_at s (offset + length line) rest" and "offset + length line \<le> length s" and "line \<noteq> []"
proof -
  from assms(2) have d: "drop offset s = line @ concat rest" and le: "offset \<le> length s"
    and sp: "split_inclusive (line @ concat rest) = line # rest"
    by (auto simp: line_at_def)
  from split_inclusive_Cons [OF sp] have l: "rest = split_inclusive (concat rest)" "line \<noteq> []" "rest = [] \<or> last line = CHR 0x0A"
    by auto
  show "line \<noteq> []" by (rule l(2))
  have len: "length s - offset = length line + length (concat rest)" using arg_cong [OF d, of length] by simp
  show le2: "offset + length line \<le> length s" using len le by linarith
  have dr: "drop (offset + length line) s = concat rest"
    using d by (metis append_eq_conv_conj drop_drop add.commute)
  have "boundary s (offset + length line)"
  proof (cases "rest = []")
    case True
    then have "offset + length line = length s" using len le by simp
    then show ?thesis by simp
  next
    case False
    let ?i = "offset + (length line - 1)"
    have lt: "length line - 1 < length line" using l(2) by simp
    have "s ! ?i = drop offset s ! (length line - 1)" using le by simp
    also have "\<dots> = last line" unfolding d using lt l(2) by (simp add: nth_append last_conv_nth)
    finally have "s ! ?i = CHR 0x0A" using l(3) False by simp
    moreover have "?i < length s" using lt le2 by linarith
    ultimately have "boundary s (?i + 1)" by (intro boundary_after_ascii assms(1)) (simp_all add: is_ascii_def)
    moreover have "?i + 1 = offset + length line" using lt by linarith
    ultimately show ?thesis by (simp only:)
  qed
  with dr le2 l(1) show "line_at s (offset + length line) rest" by (simp add: line_at_def)
qed

lemma quote_loop_split:
  "quote_depth_loop depth body = (d, logical) \<Longrightarrow> \<exists>pre. body = pre @ logical \<and> list_all is_ascii pre"
proof (induction depth body rule: quote_depth_loop.induct)
  case (1 depth body)
  show ?case
  proof (cases "strip_prefix ''>'' body")
    case None
    with "1.prems" show ?thesis by (subst (asm) quote_depth_loop.simps) (auto intro: exI [of _ "[]"])
  next
    case (Some rest)
    then have b: "body = ''>'' @ rest" by (auto simp: strip_prefix_def dest: starts_with_take split: if_splits)
    let ?w = "takeWhile (\<lambda>c. c \<in> blanks) rest"
    from "1.prems" Some have "quote_depth_loop (depth + 1) (trim_start_set blanks rest) = (d, logical)"
      by (subst (asm) quote_depth_loop.simps) simp
    from 1(1) [OF Some this] obtain pre where p: "trim_start_set blanks rest = pre @ logical" "list_all is_ascii pre" by blast
    have "list_all is_ascii ?w" by (auto simp: list_all_iff blanks_def is_ascii_def dest: set_takeWhileD)
    moreover have "body = (''>'' @ ?w @ pre) @ logical"
      using b p(1) takeWhile_dropWhile_id [of "\<lambda>c. c \<in> blanks" rest] by (simp add: trim_start_set_def)
    moreover have "is_ascii (CHR ''>'')" by (simp add: is_ascii_def)
    ultimately show ?thesis using p(2) by (intro exI [of _ "''>'' @ ?w @ pre"]) simp
  qed
qed

lemma quote_split:
  assumes "quote_depth_and_body body = (d, logical)"
  shows "\<exists>pre. body = pre @ logical \<and> list_all is_ascii pre"
proof -
  let ?w = "takeWhile (\<lambda>c. c \<in> blanks) body"
  from quote_loop_split [of 0 "trim_start_set blanks body"] assms
  obtain pre where p: "trim_start_set blanks body = pre @ logical" "list_all is_ascii pre"
    by (auto simp: quote_depth_and_body_def)
  have "list_all is_ascii ?w" by (auto simp: list_all_iff blanks_def is_ascii_def dest: set_takeWhileD)
  moreover have "body = (?w @ pre) @ logical"
    using p(1) takeWhile_dropWhile_id [of "\<lambda>c. c \<in> blanks" body] by (simp add: trim_start_set_def)
  ultimately show ?thesis using p(2) by (intro exI [of _ "?w @ pre"]) simp
qed

lemma logical_at:
  assumes "valid_utf8 s" and "line_at s offset (line # rest)" and "prefix body line"
    and "quote_depth_and_body body = (d, logical)"
  shows "offset \<le> offset + length body - length logical" and "boundary s (offset + length body - length logical)"
    and "prefix logical (drop (offset + length body - length logical) s)"
    and "offset + length body - length logical \<le> length s"
proof -
  from quote_split [OF assms(4)] obtain pre where b: "body = pre @ logical" and a: "list_all is_ascii pre" by blast
  have ls: "offset + length body - length logical = offset + length pre" by (simp add: b)
  from assms(2) have d: "drop offset s = line @ concat rest" and le: "offset \<le> length s" and bo: "boundary s offset"
    by (auto simp: line_at_def)
  from assms(3) obtain z where z: "line = body @ z" by (auto simp: prefix_def)
  have d': "drop offset s = pre @ (logical @ z @ concat rest)" using d z b by simp
  have len: "length s - offset = length pre + length (logical @ z @ concat rest)"
    using arg_cong [OF d', of length] by simp
  have h: "has s offset pre"
    using d' len le by (simp add: has_def)
  show "offset \<le> offset + length body - length logical" by (simp add: ls)
  show "boundary s (offset + length body - length logical)" unfolding ls by (rule boundary_lit [OF assms(1) h a bo])
  have "drop (offset + length pre) s = logical @ z @ concat rest"
    using d' by (metis append_eq_conv_conj drop_drop add.commute)
  then show "prefix logical (drop (offset + length body - length logical) s)" unfolding ls by simp
  show "offset + length body - length logical \<le> length s" using has_length [OF h] by (simp add: ls)
qed

lemma to_lower_bracket: "to_lower c = CHR '']'' \<Longrightarrow> c = CHR '']''"
  using byte_to_lower [of c] by (auto simp: to_lower_def is_upper_def split: if_splits)

lemma close_cut:
  assumes "valid_utf8 s" and "prefix logical (drop i s)" and "i \<le> length s"
    and "k + length close \<le> length logical" and "starts_with (drop k (to_ascii_lowercase logical)) close"
    and "close \<noteq> []" and "last close = CHR '']''"
  shows "boundary s (i + k + length close)" and "i + k + length close \<le> length s" and "i \<le> i + k + length close"
proof -
  from assms(2) obtain z where z: "drop i s = logical @ z" by (auto simp: prefix_def)
  let ?j = "k + (length close - 1)"
  have pos: "0 < length close" using assms(6) by simp
  then have j: "?j < length logical" using assms(4) by linarith
  have "close = take (length close) (drop k (to_ascii_lowercase logical))" using assms(5) by (simp add: starts_with_def)
  then have "close ! (length close - 1) = drop k (to_ascii_lowercase logical) ! (length close - 1)"
    using pos by (metis diff_less less_numeral_extra(1) nth_take)
  then have "to_lower (logical ! ?j) = CHR '']''"
    using assms(4,6,7) j by (simp add: last_conv_nth to_ascii_lowercase_def)
  then have l: "logical ! ?j = CHR '']''" by (rule to_lower_bracket)
  have len: "length s - i = length logical + length z" using arg_cong [OF z, of length] by simp
  have "s ! (i + ?j) = drop i s ! ?j" using assms(3) by simp
  also have "\<dots> = CHR '']''" unfolding z using j l by (simp add: nth_append)
  finally have c: "s ! (i + ?j) = CHR '']''" .
  moreover have "i + ?j < length s" using j len by linarith
  ultimately have "boundary s (i + ?j + 1)" by (intro boundary_after_ascii assms(1)) (simp_all add: is_ascii_def)
  moreover have "i + ?j + 1 = i + k + length close" using pos by linarith
  ultimately show "boundary s (i + k + length close)" by (simp only:)
  show "i + k + length close \<le> length s" using assms(4) len pos by linarith
  show "i \<le> i + k + length close" by simp
qed

subsection \<open>The collected ranges\<close>

lemma literal_close_bracket: "literal_close name = Some close \<Longrightarrow> close \<noteq> [] \<and> last close = CHR '']''"
  by (auto simp: literal_close_def split: if_splits)

lemma literal_block_at_close: "literal_block_at lower = Some (close, k) \<Longrightarrow> close \<noteq> [] \<and> last close = CHR '']''"
  by (auto simp: literal_block_at_def dest: literal_close_bracket split: option.splits)

lemma without_line_feed_prefix: "prefix (without_line_feed line) line"
  by (auto simp: without_line_feed_def strip_suffix_def take_is_prefix split: option.split)

lemma without_line_ending_prefix: "prefix (without_line_ending line) line"
  using without_line_feed_prefix [of line] prefix_order.trans [OF take_is_prefix, of "without_line_feed line" line]
  by (auto simp: without_line_ending_def strip_suffix_def split: option.split)

lemma find_close_cut:
  assumes "valid_utf8 s" and "prefix logical (drop i s)" and "i \<le> length s" and "boundary s i"
    and "find_from (to_ascii_lowercase logical) m close = Some k" and "close \<noteq> [] \<and> last close = CHR '']''"
  shows "cuttable s (i, i + k + length close)"
    and "\<And>j. j \<le> i \<Longrightarrow> boundary s j \<Longrightarrow> cuttable s (j, i + k + length close)"
proof -
  have c: "close \<noteq> []" "last close = CHR '']''" using assms(6) by simp_all
  note f = find_from_Some [OF assms(5) c(1)]
  have "starts_with (drop k (to_ascii_lowercase logical)) close" using f(2) by (simp add: has_iff)
  moreover have "k + length close \<le> length logical" using f(3) by (simp add: to_ascii_lowercase_def)
  ultimately have "boundary s (i + k + length close)" "i + k + length close \<le> length s"
    using close_cut [OF assms(1-3) _ _ c] by blast+
  with assms(4) show "cuttable s (i, i + k + length close)"
    "\<And>j. j \<le> i \<Longrightarrow> boundary s j \<Longrightarrow> cuttable s (j, i + k + length close)"
    by (simp_all add: cuttable_def)
qed

lemma find_sub_from: "find_sub pat s = find_from s 0 pat"
  by (simp add: find_from_def map_option_idI)

definition block_ok :: "bytes \<Rightarrow> nat \<Rightarrow> literal_block \<Rightarrow> bool" where
  "block_ok s offset b \<longleftrightarrow>
     lb_start b \<le> offset \<and> boundary s (lb_start b) \<and> lb_close b \<noteq> [] \<and> last (lb_close b) = CHR '']''"

lemma block_ok_later: "block_ok s i b \<Longrightarrow> i \<le> j \<Longrightarrow> block_ok s j b"
  by (auto simp: block_ok_def)

lemma literal_line_ok:
  assumes "valid_utf8 s" and "prefix logical (drop i s)" and "i \<le> length s" and "boundary s i"
    and "literal_line d i (to_ascii_lowercase logical) = (ranges, active)"
  shows "list_all (cuttable s) ranges \<and> pred_option (block_ok s i) active"
proof (cases "literal_block_at (to_ascii_lowercase logical)")
  case None
  with assms(5) show ?thesis by (auto simp: literal_line_def)
next
  case (Some c)
  obtain close e where c: "c = (close, e)" by fastforce
  note cl = literal_block_at_close [OF Some [unfolded c]]
  show ?thesis
  proof (cases "find_from (to_ascii_lowercase logical) e close")
    case None
    with Some c cl assms(4,5) show ?thesis by (auto simp: literal_line_def block_ok_def)
  next
    case k: (Some k)
    have "cuttable s (i, i + k + length close)" by (rule find_close_cut(1) [OF assms(1-4) k cl])
    with Some c k assms(5) show ?thesis by (auto simp: literal_line_def)
  qed
qed

lemma literal_lines_ok:
  "valid_utf8 s \<Longrightarrow> line_at s offset lines \<Longrightarrow> pred_option (block_ok s offset) active \<Longrightarrow>
   literal_lines lines offset active = (ranges, offset', active') \<Longrightarrow>
   list_all (cuttable s) ranges \<and> pred_option (\<lambda>b. boundary s (lb_start b) \<and> lb_start b \<le> length s) active'"
proof (induction lines offset active arbitrary: ranges rule: literal_lines.induct)
  case (1 offset active)
  then show ?case by (cases active) (auto simp: block_ok_def line_at_def)
next
  case (2 line rest offset active)
  let ?body = "without_line_feed line"
  obtain d logical where q: "quote_depth_and_body ?body = (d, logical)" by fastforce
  let ?i = "offset + length ?body - length logical" and ?lower = "to_ascii_lowercase logical"
  let ?step = "case active of
               None \<Rightarrow> literal_line d ?i ?lower
             | Some block \<Rightarrow>
                 if lb_quote_depth block > 0 \<and> d < lb_quote_depth block
                 then apfst (\<lambda>rs. (lb_start block, offset) # rs) (literal_line d ?i ?lower)
                 else if lb_quote_depth block = 0 \<or> d = lb_quote_depth block
                 then (case find_sub (lb_close block) ?lower of
                         Some k \<Rightarrow> ([(lb_start block, ?i + k + length (lb_close block))], None)
                       | None \<Rightarrow> ([], Some block))
                 else ([], Some block)"
  obtain rs a where st: "?step = (rs, a)" by (cases ?step)
  note lg = logical_at [OF 2(2,3) without_line_feed_prefix q]
  note nx = line_at_next [OF 2(2,3)]
  have off: "offset \<le> length s" "boundary s offset" using 2(3) by (simp_all add: line_at_def)
  have ok: "list_all (cuttable s) rs \<and> pred_option (block_ok s ?i) a"
  proof (cases active)
    case None
    with st literal_line_ok [OF 2(2) lg(3,4,2)] show ?thesis by simp
  next
    case (Some block)
    have b: "block_ok s offset block" using 2(4) Some by simp
    obtain rs1 a1 where l: "literal_line d ?i ?lower = (rs1, a1)" by fastforce
    note lo = literal_line_ok [OF 2(2) lg(3,4,2) l]
    have c: "cuttable s (lb_start block, offset)" using b off by (simp add: cuttable_def block_ok_def)
    have f: "cuttable s (lb_start block, ?i + k + length (lb_close block))"
      if "find_sub (lb_close block) ?lower = Some k" for k
      using find_close_cut(2) [OF 2(2) lg(3,4,2) that [unfolded find_sub_from]] b lg(1) by (simp add: block_ok_def)
    show ?thesis
      using st Some l lo c f block_ok_later [OF b lg(1)]
      by (auto simp: block_ok_later split: if_splits option.splits)
  qed
  obtain rs2 where r: "literal_lines rest (offset + length line) a = (rs2, offset', active')" and e: "ranges = rs @ rs2"
    using 2(5) st by (auto simp: q Let_def apfst_def map_prod_def split: prod.splits)
  have "pred_option (block_ok s (offset + length line)) a"
  proof (cases a)
    case (Some blk)
    have "?i \<le> offset + length line"
      using prefix_length_le [OF without_line_feed_prefix [of line]] by linarith
    with ok Some show ?thesis by (auto intro: block_ok_later)
  qed simp
  with 2(1) [OF refl refl q [symmetric] refl refl refl st [symmetric]] nx(1) r 2(2) ok e show ?case by simp
qed

lemma literal_blocks_cuttable:
  assumes "valid_utf8 source"
  shows "list_all (cuttable source) (collect_wikidot_literal_blocks source)"
proof -
  obtain rs o1 a where l: "literal_lines (split_inclusive source) 0 None = (rs, o1, a)" by (metis prod_cases3)
  from literal_lines_ok [OF assms line_at_start _ l] show ?thesis
    using l by (cases a) (auto simp: collect_wikidot_literal_blocks_def cuttable_def)
qed

definition pf_block_ok :: "bytes \<Rightarrow> nat \<Rightarrow> pf_block \<Rightarrow> bool" where
  "pf_block_ok s offset b \<longleftrightarrow>
     pb_start b \<le> offset \<and> boundary s (pb_start b) \<and> pb_close b \<noteq> [] \<and> last (pb_close b) = CHR '']''"

lemma pf_line_ok:
  assumes "valid_utf8 s" and "prefix logical (drop i s)" and "i \<le> length s" and "boundary s i"
    and "pf_line i logical (to_ascii_lowercase logical) = (ranges, active)"
  shows "list_all (cuttable s) ranges \<and> pred_option (pf_block_ok s i) active"
proof -
  let ?lower = "to_ascii_lowercase logical"
  consider "ranges = []" "active = None"
    | h name close where "literal_close name = Some close" "find_from ?lower h close = None" "ranges = []"
        "active = Some \<lparr>pb_name = name, pb_close = close, pb_start = i, pb_depth = 1\<rparr>"
    | h name close k where "literal_close name = Some close" "find_from ?lower h close = Some k"
        "ranges = [(i, i + k + length close)]" "active = None"
    using assms(5) by (auto simp: pf_line_def Let_def split: if_splits option.splits)
  then show ?thesis
  proof cases
    case 2
    then show ?thesis using literal_close_bracket [OF 2(1)] assms(4) by (simp add: pf_block_ok_def)
  next
    case 3
    then show ?thesis using find_close_cut(1) [OF assms(1-4) 3(2) literal_close_bracket [OF 3(1)]] by simp
  qed simp
qed

lemma pf_active_line_ok:
  assumes "valid_utf8 s" and "prefix logical (drop i s)" and "i \<le> length s" and "boundary s i"
    and "pf_block_ok s i block"
    and "pf_active_line i (to_ascii_lowercase logical) block = (ranges, active)"
  shows "list_all (cuttable s) ranges \<and> pred_option (pf_block_ok s i) active"
proof -
  have c: "pb_close block \<noteq> [] \<and> last (pb_close block) = CHR '']''" "pb_start block \<le> i" "boundary s (pb_start block)"
    using assms(5) by (simp_all add: pf_block_ok_def)
  have "cuttable s (pb_start block, i + k + length (pb_close block))"
    if "find_sub (pb_close block) (to_ascii_lowercase logical) = Some k" for k
    using find_close_cut(2) [OF assms(1-4) that [unfolded find_sub_from] c(1) c(2,3)] .
  with assms(5,6) show ?thesis
    by (auto simp: pf_active_line_def pf_block_ok_def split: if_splits option.splits)
qed

lemma pf_lines_ok:
  "valid_utf8 s \<Longrightarrow> line_at s offset lines \<Longrightarrow> pred_option (pf_block_ok s offset) active \<Longrightarrow>
   pf_lines lines offset active = (ranges, active') \<Longrightarrow>
   list_all (cuttable s) ranges \<and> pred_option (\<lambda>b. boundary s (pb_start b) \<and> pb_start b \<le> length s) active'"
proof (induction lines offset active arbitrary: ranges rule: pf_lines.induct)
  case (1 offset active)
  then show ?case by (cases active) (auto simp: pf_block_ok_def line_at_def)
next
  case (2 line rest offset active)
  let ?body = "without_line_ending line"
  obtain d logical where q: "quote_depth_and_body ?body = (d, logical)" by fastforce
  let ?i = "offset + length ?body - length logical" and ?lower = "to_ascii_lowercase logical"
  let ?step = "case active of Some block \<Rightarrow> pf_active_line ?i ?lower block | None \<Rightarrow> pf_line ?i logical ?lower"
  obtain rs a where st: "?step = (rs, a)" by (cases ?step)
  note lg = logical_at [OF 2(2,3) without_line_ending_prefix q]
  note nx = line_at_next [OF 2(2,3)]
  have ok: "list_all (cuttable s) rs \<and> pred_option (pf_block_ok s ?i) a"
  proof (cases active)
    case None
    with st pf_line_ok [OF 2(2) lg(3,4,2)] show ?thesis by simp
  next
    case (Some block)
    have "pf_block_ok s ?i block" using 2(4) Some lg(1) by (auto simp: pf_block_ok_def)
    with Some st pf_active_line_ok [OF 2(2) lg(3,4,2)] show ?thesis by simp
  qed
  have sq: "snd (quote_depth_and_body ?body) = logical" using q by simp
  obtain rs2 where r: "pf_lines rest (offset + length line) a = (rs2, active')" and e: "ranges = rs @ rs2"
    using 2(5) [unfolded pf_lines.simps Let_def sq st] by (cases "pf_lines rest (offset + length line) a") auto
  have "pred_option (pf_block_ok s (offset + length line)) a"
  proof (cases a)
    case (Some blk)
    have "?i \<le> offset + length line"
      using prefix_length_le [OF without_line_ending_prefix [of line]] by linarith
    with ok Some show ?thesis by (auto simp: pf_block_ok_def)
  qed simp
  with 2(1) [OF refl sq [symmetric] refl refl st [symmetric] refl] nx(1) r 2(2) ok e show ?case by simp
qed

lemma pf_blocks_cuttable:
  assumes "valid_utf8 source"
  shows "list_all (cuttable source) (collect_parser_function_literal_blocks source)"
proof -
  obtain rs a where l: "pf_lines (split_inclusive source) 0 None = (rs, a)" by fastforce
  from pf_lines_ok [OF assms line_at_start _ l] show ?thesis
    using l by (cases a) (auto simp: collect_parser_function_literal_blocks_def cuttable_def)
qed

lemma line_has:
  assumes "line_at s offset (line # rest)" and "has line k p"
  shows "has s (offset + k) p"
proof -
  from assms(1) have d: "drop offset s = line @ concat rest" and le: "offset \<le> length s" by (auto simp: line_at_def)
  have len: "length s - offset = length line + length (concat rest)" using arg_cong [OF d, of length] by simp
  have "k + length p \<le> length line" using has_length [OF assms(2)] .
  moreover have "drop (offset + k) s = drop k (line @ concat rest)" using d by (metis drop_drop add.commute)
  ultimately show ?thesis using assms(2) len le by (simp add: has_def take_drop)
qed

lemma paired_line_ok:
  assumes "valid_utf8 s" and "line_at s offset (line # rest)" and "list_all is_ascii opener" and "opener \<noteq> []"
    and "list_all is_ascii closer" and "closer \<noteq> []"
  shows "list_all (cuttable s) (paired_line opener closer line offset cursor)"
  using assms
proof (induction opener closer line offset cursor rule: paired_line.induct)
  case (1 opener closer line offset cursor)
  show ?case
  proof (cases "find_from line cursor opener")
    case None
    then show ?thesis by (subst paired_line.simps) simp
  next
    case (Some start)
    show ?thesis
    proof (cases "find_from line (start + length opener) closer")
      case None
      with Some show ?thesis by (subst paired_line.simps) simp
    next
      case k: (Some k)
      have ho: "has s (offset + start) opener" and hc: "has s (offset + k) closer"
        using line_has [OF "1.prems"(2)] find_from_Some(2) [OF Some "1.prems"(4)] find_from_Some(2) [OF k "1.prems"(6)]
        by auto
      have "boundary s (offset + start)"
        using ho "1.prems"(3,4) by (cases opener) (auto intro: has_ascii_boundary)
      moreover have "boundary s (offset + k + length closer)"
        by (rule has_boundary_after [OF "1.prems"(1) hc "1.prems"(5,6)])
      moreover have "start \<le> k" using find_from_Some(1) [OF k "1.prems"(6)] by simp
      ultimately have "cuttable s (offset + start, offset + (k + length closer))"
        using has_length [OF hc] by (simp add: cuttable_def add.assoc)
      with 1(1) [OF "1.prems"(4) Some k "1.prems"] "1.prems"(4) Some k show ?thesis
        by (subst paired_line.simps) simp
    qed
  qed
qed

lemma paired_lines_ok:
  "valid_utf8 s \<Longrightarrow> line_at s offset lines \<Longrightarrow> list_all is_ascii opener \<Longrightarrow> opener \<noteq> [] \<Longrightarrow>
   list_all is_ascii closer \<Longrightarrow> closer \<noteq> [] \<Longrightarrow> list_all (cuttable s) (paired_lines opener closer lines offset)"
  by (induction opener closer lines offset rule: paired_lines.induct)
    (simp_all add: paired_line_ok line_at_next)

lemma html_loop_ok:
  "valid_utf8 s \<Longrightarrow> pred_option (\<lambda>(n, c, d). c \<le> cursor \<and> boundary s c) active \<Longrightarrow> cursor \<le> length s \<Longrightarrow>
   html_loop s cursor active = (ranges, active') \<Longrightarrow>
   list_all (cuttable s) ranges \<and> pred_option (\<lambda>(n, c, d). c \<le> length s \<and> boundary s c) active'"
proof (induction s cursor active arbitrary: ranges rule: html_loop.induct)
  case (1 s cursor active)
  have stop: "list_all (cuttable s) ranges \<and> pred_option (\<lambda>(n, c, d). c \<le> length s \<and> boundary s c) active'"
    if "ranges = []" "active' = active"
    using that "1.prems"(2,3) by (cases active) auto
  show ?case
  proof (cases "find_from s cursor ''<''")
    case None
    with "1.prems"(4) stop show ?thesis by (subst (asm) html_loop.simps) simp
  next
    case (Some ts)
    show ?thesis
    proof (cases "html_tag_end s ts")
      case None
      with Some "1.prems"(4) stop show ?thesis by (subst (asm) html_loop.simps) simp
    next
      case te: (Some te)
      obtain rs a where st: "html_step (slice s ts te) ts te active = (rs, a)" by fastforce
      obtain rs2 where r: "html_loop s te a = (rs2, active')" and e: "ranges = rs @ rs2"
        using "1.prems"(4) Some te st
        by (subst (asm) html_loop.simps) (auto simp: apfst_def map_prod_def split: prod.splits)
      have f: "cursor \<le> ts" "has s ts ''<''" "ts < length s"
        using find_from_Some [OF Some] by auto
      have t: "ts + 1 < te" "te \<le> length s" "s ! (te - 1) = CHR ''>''"
        using html_tag_loop_bounds te by (auto simp: html_tag_end_def)
      have bs: "boundary s ts" using f(2) by (rule has_ascii_boundary) (simp add: is_ascii_def)
      have "te - 1 < length s" "te - 1 + 1 = te" using t(1,2) by simp_all
      then have be: "boundary s te"
        using boundary_after_ascii [OF "1.prems"(1), of "te - 1"] t(3) by (simp add: is_ascii_def)
      have "list_all (cuttable s) rs \<and> pred_option (\<lambda>(n, c, d). c \<le> te \<and> boundary s c) a"
        using st "1.prems"(2) f t be bs
        by (cases active) (auto simp: html_step_def cuttable_def split: option.splits if_splits prod.splits)
      with 1(1) [OF Some te st [symmetric] "1.prems"(1) _ t(2) r] e show ?thesis by simp
    qed
  qed
qed

lemma html_cuttable:
  assumes "valid_utf8 source"
  shows "list_all (cuttable source) (collect_html_literal_ranges source)"
proof -
  obtain rs a where l: "html_loop source 0 None = (rs, a)" by fastforce
  from html_loop_ok [OF assms _ _ l] show ?thesis
    using l by (cases a) (auto simp: collect_html_literal_ranges_def cuttable_def)
qed

lemma ordered_cuttable:
  "ordered_ranges s i (map (\<lambda>r. (r, ())) rs) \<Longrightarrow> list_all (cuttable s) rs"
proof (induction rs arbitrary: i)
  case (Cons r rs)
  then show ?case by (cases r) (auto simp: cuttable_def)
qed simp

lemma literal_ranges_cuttable: "valid_utf8 source \<Longrightarrow> list_all (cuttable source) (literal_ranges source)"
  using literal_blocks_cuttable html_cuttable ordered_cuttable [OF active_ranges_in_order]
    paired_lines_ok [OF _ line_at_start]
  by (simp add: literal_ranges_def collect_same_line_paired_ranges_def is_ascii_def)

lemma parser_function_ranges_cuttable:
  "valid_utf8 source \<Longrightarrow> list_all (cuttable source) (parser_function_literal_ranges source)"
  using pf_blocks_cuttable paired_lines_ok [OF _ line_at_start]
  by (simp add: parser_function_literal_ranges_def collect_same_line_paired_ranges_def is_ascii_def)

text \<open>
  An offset lies in the merged index exactly when it lies in one of the ranges collected: the
  sort, the merge of touching ranges and the binary search lose and add nothing.
\<close>

theorem literal_index_exact:
  "regions_contain (literal_region_index source) offset \<longleftrightarrow>
     list_ex (\<lambda>r. fst r \<le> offset \<and> offset < snd r) (literal_ranges source)"
  by (simp add: literal_region_index_def merged_contain in_range_def [abs_def])

text \<open>
  Every literal region of valid text starts and ends where the text can be cut.
\<close>

theorem literal_regions_cut:
  assumes "valid_utf8 source"
  shows "list_all (\<lambda>r. fst r \<le> snd r \<and> snd r \<le> length source \<and> boundary source (fst r) \<and> boundary source (snd r))
    (literal_region_index source @ literal_regions_for_parser_functions source)"
  using merge_cuttable [OF literal_ranges_cuttable [OF assms]] merge_cuttable [OF parser_function_ranges_cuttable [OF assms]]
  by (simp add: literal_region_index_def literal_regions_for_parser_functions_def cuttable_def [abs_def])

theorem literal_regions_cut_witness:
  "literal_region_index ''a@@b@@c'' = [(1, 6)] \<and>
   list_all (\<lambda>r. boundary ''a@@b@@c'' (fst r)) (literal_region_index ''a@@b@@c'' @ literal_regions_for_parser_functions ''a@@b@@c'')"
proof -
  have "valid_utf8 ''a@@b@@c''" by (rule ascii_valid) (simp add: is_ascii_def)
  from literal_regions_cut [OF this]
  have "list_all (\<lambda>r. boundary ''a@@b@@c'' (fst r)) (literal_region_index ''a@@b@@c'' @ literal_regions_for_parser_functions ''a@@b@@c'')"
    by (simp add: list_all_iff)
  moreover have "literal_region_index ''a@@b@@c'' = [(1, 6)]" by code_simp
  ultimately show ?thesis by simp
qed

end
