(* ===== verification/Parser_Functions.thy ===== *)
theory Parser_Functions
  imports Expression Literal
begin

text \<open>
  \<open>src/src/preproc/parser_functions/mod.rs\<close>: the pass that resolves \<open>[[#if]]\<close>, \<open>[[#ifexpr]]\<close> and
  \<open>[[#expr]]\<close> in a document, with its budgets.  A budget is the number left; every function that
  scans returns it.  Slices are cut at the brackets and bars the scans stop at, so they do not
  panic; the replacement of the ranges at the end, which could, is modelled with its panic.
\<close>

subsection \<open>Budgets\<close>

definition max_document_candidates :: nat where "max_document_candidates = 65536"
definition max_parser_function_nesting :: nat where "max_parser_function_nesting = 1024"
definition max_unmatched_delimiters :: nat where "max_unmatched_delimiters = max_document_candidates"
definition max_conditional_scan_multiplier :: nat where "max_conditional_scan_multiplier = 32"

definition scan_budget_new :: "nat \<Rightarrow> nat" where
  "scan_budget_new source_len = source_len * max_conditional_scan_multiplier"

datatype 'a scan_result = Found 'a | NotFound | Exhausted

subsection \<open>The index of delimiters\<close>

record delimiter_index =
  unmatched_openers :: "nat list"
  overflowed :: bool

text \<open>The openers are kept with the last one first; the program pushes at the end of a vector.\<close>

function delimiter_loop :: "bytes \<Rightarrow> nat \<Rightarrow> nat list \<Rightarrow> bool \<Rightarrow> delimiter_index" where
  "delimiter_loop source cursor openers over =
     (if cursor + 1 < length source then
        if has source cursor ''[['' then
          (if length openers = max_unmatched_delimiters then delimiter_loop source (cursor + 2) openers True
           else delimiter_loop source (cursor + 2) (if \<not> over then cursor # openers else openers) over)
        else if has source cursor '']]'' then
          delimiter_loop source (cursor + 2) (if \<not> over then tl openers else openers) over
        else delimiter_loop source (cursor + 1) openers over
      else \<lparr>unmatched_openers = rev openers, overflowed = over\<rparr>)"
  by pat_completeness auto
termination by (relation "measure (\<lambda>(source, cursor, rest). length source - cursor)") auto

declare delimiter_loop.simps [simp del]

definition delimiter_index_new :: "bytes \<Rightarrow> delimiter_index" where
  "delimiter_index_new source = delimiter_loop source 0 [] False"

text \<open>\<open>binary_search\<close> in a sorted vector (\<open>unmatched_sorted\<close>) is membership.\<close>

definition is_unmatched_opener :: "delimiter_index \<Rightarrow> nat \<Rightarrow> bool" where
  "is_unmatched_opener index offset \<longleftrightarrow> \<not> overflowed index \<and> offset \<in> set (unmatched_openers index)"

subsection \<open>Bounded searches\<close>

function find_closer :: "bytes \<Rightarrow> nat \<Rightarrow> nat \<Rightarrow> nat scan_result \<times> nat" where
  "find_closer source cursor bud =
     (if cursor + 1 < length source then
        if bud = 0 then (Exhausted, 0)
        else if has source cursor '']]'' then (Found cursor, bud - 1)
        else find_closer source (cursor + 1) (bud - 1)
      else (NotFound, bud))"
  by pat_completeness auto
termination by (relation "measure (\<lambda>(source, cursor, b). length source - cursor)") auto

declare find_closer.simps [simp del]

function find_bytes :: "bytes \<Rightarrow> nat \<Rightarrow> bytes \<Rightarrow> nat \<Rightarrow> nat scan_result \<times> nat" where
  "find_bytes source cursor needle bud =
     (if cursor + length needle \<le> length source then
        if bud = 0 then (Exhausted, 0)
        else if has source cursor needle then (Found cursor, bud - 1)
        else find_bytes source (cursor + 1) needle (bud - 1)
      else (NotFound, bud))"
  by pat_completeness auto
termination
proof (relation "measure (\<lambda>(source, cursor, n, b). length source - cursor)")
  fix source needle :: bytes and cursor bud :: nat
  assume "cursor + length needle \<le> length source" "\<not> has source cursor needle"
  then show "((source, cursor + 1, needle, bud - 1), source, cursor, needle, bud)
      \<in> measure (\<lambda>(source, cursor, n, b). length source - cursor)"
    by (cases needle) (auto simp: has_def)
qed simp

declare find_bytes.simps [simp del]

subsection \<open>Openers\<close>

definition is_crossing_link_opener :: "bytes \<Rightarrow> bool" where
  "is_crossing_link_opener s \<longleftrightarrow>
     list_ex (\<lambda>p. length p \<le> length s \<and> boundary s (length p) \<and> eq_ignore_ascii_case (take (length p) s) p \<and>
                  (case get s (length p) of Some b \<Rightarrow> b \<in> ascii_whitespace | None \<Rightarrow> False))
       [''[[a'', ''[[/a'']"

definition has_opener :: "bytes \<Rightarrow> bytes \<Rightarrow> bool" where
  "has_opener s p \<longleftrightarrow> starts_with s p \<and> (case get s (length p) of Some b \<Rightarrow> b \<in> blanks | None \<Rightarrow> False)"

definition is_ifexpr_opener :: "bytes \<Rightarrow> bool" where
  "is_ifexpr_opener s \<longleftrightarrow> has_opener s ''[[#ifexpr''"

definition is_conditional_opener :: "bytes \<Rightarrow> bool" where
  "is_conditional_opener s \<longleftrightarrow> is_ifexpr_opener s \<or> has_opener s ''[[#if''"

function contains_link :: "bytes \<Rightarrow> nat \<Rightarrow> nat \<Rightarrow> nat \<Rightarrow> bool scan_result \<times> nat" where
  "contains_link source cursor e bud =
     (if cursor + 1 < e then
        if bud = 0 then (Exhausted, 0)
        else if boundary source cursor \<and> is_crossing_link_opener (drop cursor source) then (Found True, bud - 1)
        else contains_link source (cursor + 1) e (bud - 1)
      else (Found False, bud))"
  by pat_completeness auto
termination by (relation "measure (\<lambda>(source, cursor, e, b). e - cursor)") auto

declare contains_link.simps [simp del]

subsection \<open>Candidates\<close>

datatype pf_kind = KIf | KIfExpr | KExpr | KUnsupported | KUnsupportedEmptyName | KWrongCase

record pf_candidate =
  pc_body_start :: nat
  pc_kind :: pf_kind

definition classify_candidate :: "bytes \<Rightarrow> nat \<Rightarrow> pf_candidate option" where
  "classify_candidate source start =
     (let name_start = start + 3; name_end = scan_while is_alnum source name_start in
      case get source name_end of
        None \<Rightarrow> None
      | Some separator \<Rightarrow>
          if separator \<notin> blanks then None
          else
            let name = slice source name_start name_end;
                kind = (if name = ''if'' then KIf
                        else if name = ''ifexpr'' then KIfExpr
                        else if name = ''expr'' then KExpr
                        else if list_ex (eq_ignore_ascii_case name) [''if'', ''ifexpr'', ''expr''] then KWrongCase
                        else if name = [] then KUnsupportedEmptyName
                        else KUnsupported)
            in Some \<lparr>pc_body_start = name_end + 1, pc_kind = kind\<rparr>)"

function recover_loop :: "bytes \<Rightarrow> nat \<Rightarrow> nat \<Rightarrow> nat \<times> nat" where
  "recover_loop source cursor count =
     (if has source cursor ''[[#ifexpr '' then recover_loop source (cursor + 10) (count + 1)
      else if has source cursor ''[[#if '' then recover_loop source (cursor + 6) (count + 1)
      else (cursor, count))"
  by pat_completeness auto
termination
  by (relation "measure (\<lambda>(source, cursor, c). length source - cursor)") (auto dest!: has_length)

declare recover_loop.simps [simp del]

definition recover_unmatched_conditional_prefix :: "bytes \<Rightarrow> nat \<Rightarrow> nat option" where
  "recover_unmatched_conditional_prefix source start =
     (case recover_loop source start 0 of
        (cursor, count) \<Rightarrow>
          if count = 0 \<or> \<not> has source cursor ''[[a '' then None
          else map_option (\<lambda>k. k + 2) (find_from source cursor '']]''))"

subsection \<open>The parts of a conditional\<close>

record flat_parts =
  fp_end :: nat
  fp_condition :: "nat \<times> nat"
  fp_when_true :: "(nat \<times> nat) option"
  fp_when_false :: "(nat \<times> nat) option"

definition is_separator :: "bytes \<Rightarrow> nat \<Rightarrow> bool" where
  "is_separator source cursor \<longleftrightarrow>
     source ! cursor = CHR ''|'' \<and>
     cursor \<noteq> 0 \<and> source ! (cursor - 1) \<in> blanks \<and>
     (case get source (cursor + 1) of Some b \<Rightarrow> b \<in> blanks | None \<Rightarrow> False)"

definition flat_parts_at :: "nat \<Rightarrow> nat \<Rightarrow> (nat \<times> nat \<times> nat) option \<Rightarrow> flat_parts" where
  "flat_parts_at condition_start cursor separators =
     (case separators of
        None \<Rightarrow> \<lparr>fp_end = cursor + 2, fp_condition = (condition_start, cursor), fp_when_true = None, fp_when_false = None\<rparr>
      | Some (sep_first, sep_last, count) \<Rightarrow>
          \<lparr>fp_end = cursor + 2, fp_condition = (condition_start, sep_first),
           fp_when_true = Some (sep_first + 1, if count > 1 then sep_last else cursor),
           fp_when_false = (if count > 1 then Some (sep_last + 1, cursor) else None)\<rparr>)"

text \<open>The separators seen: the first, the last and their number.\<close>

function find_flat_conditional_parts ::
  "bytes \<Rightarrow> nat \<Rightarrow> nat \<Rightarrow> (nat \<times> nat \<times> nat) option \<Rightarrow> nat \<Rightarrow> nat \<Rightarrow> flat_parts scan_result \<times> nat" where
  "find_flat_conditional_parts source condition_start cursor separators nested_candidates bud =
     (if cursor + 1 < length source then
        if bud = 0 then (Exhausted, 0)
        else let bud = bud - 1 in
          if has source cursor '']]'' then (Found (flat_parts_at condition_start cursor separators), bud)
          else
            let nested_candidates = (if cursor > condition_start \<and> has source cursor ''[[#''
                                     then nested_candidates + 1 else nested_candidates)
            in if nested_candidates > max_parser_function_nesting then (Exhausted, bud)
               else find_flat_conditional_parts source condition_start (cursor + 1)
                 (if is_separator source cursor
                  then (case separators of
                          None \<Rightarrow> Some (cursor, cursor, 1)
                        | Some (sep_first, sep_last, count) \<Rightarrow> Some (sep_first, cursor, count + 1))
                  else separators)
                 nested_candidates bud
      else (NotFound, bud))"
  by pat_completeness auto
termination
  by (relation "measure (\<lambda>(source, cs, cursor, rest). length source - cursor)") auto

declare find_flat_conditional_parts.simps [simp del]

subsection \<open>Conditionals that cross a link\<close>

record conditional_parts =
  cp_end :: nat
  cp_condition :: "nat \<times> nat"
  cp_when_true :: "nat \<times> nat"
  cp_when_false :: "(nat \<times> nat) option"

datatype conditional_search =
  SearchFound conditional_parts | SearchCrossingLink conditional_parts | SearchNotFound | SearchExhausted

record search_state =
  ss_depth :: nat
  separator0 :: "nat option"
  separator1 :: "nat option"
  true_branch_whitespace_only :: bool
  crossing_link_depth :: "nat option"
  crossing_link_fallback :: "conditional_parts option"
  crossing_link_confirmed :: bool
  expected_adjacent :: "nat option"
  adjacent_depth :: "nat option"
  adjacent_has_separator :: bool
  suffix_is_adjacent :: bool

definition search_start_state :: search_state where
  "search_start_state =
     \<lparr>ss_depth = 1, separator0 = None, separator1 = None, true_branch_whitespace_only = True,
      crossing_link_depth = None, crossing_link_fallback = None, crossing_link_confirmed = False,
      expected_adjacent = None, adjacent_depth = None, adjacent_has_separator = False,
      suffix_is_adjacent = False\<rparr>"

definition fallback_result :: "search_state \<Rightarrow> conditional_search" where
  "fallback_result st =
     (case crossing_link_fallback st of Some parts \<Rightarrow> SearchCrossingLink parts | None \<Rightarrow> SearchNotFound)"

definition in_true_branch :: "search_state \<Rightarrow> bool" where
  "in_true_branch st \<longleftrightarrow> ss_depth st = 1 \<and> separator0 st \<noteq> None \<and> separator1 st = None"

text \<open>The steps at \<open>[[\<close>, at \<open>]]\<close>, at a bar and at any other byte: a result or the next state.\<close>

definition open_step :: "delimiter_index \<Rightarrow> bytes \<Rightarrow> nat \<Rightarrow> search_state \<Rightarrow> conditional_search + search_state" where
  "open_step idx source cursor st =
     (let rest = drop cursor source; confirmed = (ss_depth st = 1 \<and> crossing_link_confirmed st) in
      if confirmed \<and> suffix_is_adjacent st \<and> is_unmatched_opener idx cursor \<and> is_ifexpr_opener rest
      then Inl (fallback_result st)
      else
        let next_depth = ss_depth st + 1;
            crossing = (in_true_branch st \<and> true_branch_whitespace_only st \<and>
                        crossing_link_fallback st = None \<and> is_crossing_link_opener rest);
            expected = (expected_adjacent st = Some cursor)
        in Inr (st\<lparr>ss_depth := next_depth,
                   suffix_is_adjacent := (suffix_is_adjacent st \<and> \<not> (confirmed \<and> \<not> is_conditional_opener rest)),
                   adjacent_depth := (if expected then Some next_depth else adjacent_depth st),
                   expected_adjacent := (if expected then None else expected_adjacent st),
                   true_branch_whitespace_only := (true_branch_whitespace_only st \<and> \<not> in_true_branch st),
                   crossing_link_depth := (if crossing then Some next_depth else crossing_link_depth st)\<rparr>))"

definition note_crossing :: "bytes \<Rightarrow> nat \<Rightarrow> nat \<Rightarrow> search_state \<Rightarrow> search_state" where
  "note_crossing source condition_start cursor st =
     (case separator0 st of
        None \<Rightarrow> st
      | Some sep_first \<Rightarrow>
          let close_end = cursor + 2 in
          if crossing_link_depth st = Some (ss_depth st) \<and>
             (close_end = length source \<or> is_conditional_opener (drop close_end source))
          then let st = st\<lparr>crossing_link_fallback :=
                   Some \<lparr>cp_end = close_end, cp_condition = (condition_start, sep_first),
                         cp_when_true = (sep_first + 1, close_end), cp_when_false = None\<rparr>\<rparr>
               in if close_end = length source then st\<lparr>crossing_link_confirmed := True\<rparr>
                  else st\<lparr>expected_adjacent := Some close_end\<rparr>
          else st)"

definition leave_crossing :: "search_state \<Rightarrow> search_state" where
  "leave_crossing st =
     (if crossing_link_depth st = Some (ss_depth st) then st\<lparr>crossing_link_depth := None\<rparr> else st)"

definition leave_adjacent :: "search_state \<Rightarrow> search_state" where
  "leave_adjacent st =
     (if adjacent_depth st = Some (ss_depth st)
      then st\<lparr>adjacent_depth := None,
              crossing_link_confirmed := (crossing_link_confirmed st \<or> adjacent_has_separator st),
              suffix_is_adjacent := (suffix_is_adjacent st \<or> adjacent_has_separator st),
              adjacent_has_separator := False\<rparr>
      else st)"

definition close_step :: "bytes \<Rightarrow> nat \<Rightarrow> nat \<Rightarrow> search_state \<Rightarrow> conditional_search + search_state" where
  "close_step source condition_start cursor st =
     (if ss_depth st = 1 then
        Inl (case separator0 st of
               None \<Rightarrow> SearchNotFound
             | Some sep_first \<Rightarrow>
                 SearchFound
                   \<lparr>cp_end = cursor + 2, cp_condition = (condition_start, sep_first),
                    cp_when_true = (sep_first + 1, case separator1 st of Some k \<Rightarrow> k | None \<Rightarrow> cursor),
                    cp_when_false = map_option (\<lambda>k. (k + 1, cursor)) (separator1 st)\<rparr>)
      else
        let st = leave_adjacent (leave_crossing (note_crossing source condition_start cursor st))
        in Inr (st\<lparr>ss_depth := ss_depth st - 1\<rparr>))"

definition double_bar_step :: "search_state \<Rightarrow> search_state" where
  "double_bar_step st =
     st\<lparr>true_branch_whitespace_only := (true_branch_whitespace_only st \<and> \<not> in_true_branch st),
        suffix_is_adjacent := (suffix_is_adjacent st \<and> \<not> (ss_depth st = 1 \<and> crossing_link_confirmed st))\<rparr>"

definition bar_step :: "nat \<Rightarrow> search_state \<Rightarrow> search_state" where
  "bar_step cursor st =
     (if ss_depth st = 1 then
        let st = (if crossing_link_confirmed st then st\<lparr>suffix_is_adjacent := False\<rparr> else st) in
        if separator0 st = None then st\<lparr>separator0 := Some cursor\<rparr>
        else if separator1 st = None then st\<lparr>separator1 := Some cursor\<rparr>
        else st
      else if adjacent_depth st = Some (ss_depth st) then st\<lparr>adjacent_has_separator := True\<rparr>
      else st)"

definition byte_step :: "char \<Rightarrow> search_state \<Rightarrow> search_state" where
  "byte_step b st =
     (if in_true_branch st \<and> b \<notin> ascii_whitespace
      then st\<lparr>true_branch_whitespace_only := False,
              suffix_is_adjacent := (suffix_is_adjacent st \<and> \<not> crossing_link_confirmed st)\<rparr>
      else st)"

definition search_end :: "search_state \<Rightarrow> conditional_search" where
  "search_end st =
     (if ss_depth st = 1 \<and> separator1 st = None \<and> crossing_link_confirmed st \<and>
         expected_adjacent st = None \<and> adjacent_depth st = None
      then fallback_result st else SearchNotFound)"

function conditional_loop ::
  "delimiter_index \<Rightarrow> bytes \<Rightarrow> nat \<Rightarrow> nat \<Rightarrow> search_state \<Rightarrow> nat \<Rightarrow> conditional_search \<times> nat" where
  "conditional_loop idx source condition_start cursor st bud =
     (if cursor < length source then
        if bud = 0 then (SearchExhausted, 0)
        else let bud = bud - 1 in
          if has source cursor ''[['' then
            (case open_step idx source cursor st of
               Inl r \<Rightarrow> (r, bud)
             | Inr st \<Rightarrow> conditional_loop idx source condition_start (cursor + 2) st bud)
          else if has source cursor '']]'' then
            (case close_step source condition_start cursor st of
               Inl r \<Rightarrow> (r, bud)
             | Inr st \<Rightarrow> conditional_loop idx source condition_start (cursor + 2) st bud)
          else if source ! cursor = CHR ''|'' then
            if get source (cursor + 1) = Some (CHR ''|'')
            then conditional_loop idx source condition_start (cursor + 2) (double_bar_step st) bud
            else conditional_loop idx source condition_start (cursor + 1) (bar_step cursor st) bud
          else conditional_loop idx source condition_start (cursor + 1) (byte_step (source ! cursor) st) bud
      else (search_end st, bud))"
  by pat_completeness auto
termination
  by (relation "measure (\<lambda>(idx, source, cs, cursor, rest). length source - cursor)") auto

declare conditional_loop.simps [simp del]

definition find_conditional_parts_indexed ::
  "bytes \<Rightarrow> nat \<Rightarrow> delimiter_index \<Rightarrow> nat \<Rightarrow> conditional_search \<times> nat" where
  "find_conditional_parts_indexed source condition_start idx bud =
     conditional_loop idx source condition_start condition_start search_start_state bud"

subsection \<open>Resolving a candidate\<close>

definition trim_blanks :: "bytes \<Rightarrow> bytes" where
  "trim_blanks s = trim_end_set blanks (trim_start_set blanks s)"

definition trim_spaces :: "bytes \<Rightarrow> bytes" where
  "trim_spaces s = trim_end_set {CHR '' ''} (trim_start_set {CHR '' ''} s)"

definition range_of :: "bytes \<Rightarrow> nat \<times> nat \<Rightarrow> bytes" where
  "range_of source r = slice source (fst r) (snd r)"

definition simple_condition :: "bytes \<Rightarrow> bool" where
  "simple_condition condition \<longleftrightarrow>
     (let authored = (if condition \<noteq> [] \<and> last condition \<in> blanks then butlast condition else condition);
          semantic = trim_blanks condition
      in authored \<noteq> [] \<and> semantic \<noteq> ''0'' \<and> semantic \<noteq> ''null'' \<and> \<not> eq_ignore_ascii_case semantic ''false'')"

definition is_safe_legacy_payload :: "bytes \<Rightarrow> bool" where
  "is_safe_legacy_payload payload \<longleftrightarrow>
     list_all (\<lambda>c. is_alnum c \<or> c \<in> ascii_whitespace \<or> c \<in> set ''_|+-*/%<>=!().,'') payload"

text \<open>
  A branch that itself opens a function or a block takes the text up to its closer along.  The first
  definition is the arm of a prefix, the second the arm of a block.
\<close>

definition recover_prefix_residual ::
  "bytes \<Rightarrow> nat \<Rightarrow> bytes \<Rightarrow> bytes \<Rightarrow> nat \<Rightarrow> (nat \<times> bytes) option \<times> nat" where
  "recover_prefix_residual source replacement_end pre payload bud =
     (let payload = (if pre = ''[[#if '' then (case before_sub '' | '' payload of Some p \<Rightarrow> p | None \<Rightarrow> payload)
                     else payload)
      in if \<not> is_safe_legacy_payload payload then (None, bud)
         else case find_closer source replacement_end bud of
           (Found close_start, bud) \<Rightarrow>
             let rest = slice source replacement_end close_start in
             if \<not> is_safe_legacy_payload rest then (None, bud)
             else (Some (close_start + 2, pre @ payload @ rest @ '']]''), bud)
         | (_, bud) \<Rightarrow> (None, bud))"

definition recover_block_residual ::
  "bytes \<Rightarrow> nat \<Rightarrow> bytes \<Rightarrow> bytes \<Rightarrow> nat \<Rightarrow> (nat \<times> bytes) option \<times> nat" where
  "recover_block_residual source replacement_end replacement opener bud =
     (let name = takeWhile is_alnum opener; closing = ''[[/'' @ name @ '']]'' in
      if name = [] then (None, bud)
      else case find_bytes source replacement_end closing bud of
        (Found closing_start, bud) \<Rightarrow>
          let after_closing = closing_start + length closing in
          (case find_closer source after_closing bud of
             (Found outer_close, bud) \<Rightarrow>
               let before_closing = slice source replacement_end closing_start;
                   after_text = slice source after_closing outer_close;
                   after_text = (case strip_prefix '' '' after_text of Some t \<Rightarrow> t | None \<Rightarrow> after_text)
               in (Some (outer_close + 2, replacement @ before_closing @ closing @ '' '' @ after_text @ '']]''), bud)
           | (_, bud) \<Rightarrow> (None, bud))
      | (_, bud) \<Rightarrow> (None, bud))"

definition recover_branch_residual :: "bytes \<Rightarrow> nat \<Rightarrow> bytes \<Rightarrow> nat \<Rightarrow> (nat \<times> bytes) option \<times> nat" where
  "recover_branch_residual source replacement_end replacement bud =
     (case strip_prefix ''[[#expr '' replacement of
        Some payload \<Rightarrow> recover_prefix_residual source replacement_end ''[[#expr '' payload bud
      | None \<Rightarrow>
          (case strip_prefix ''[[#if '' replacement of
             Some payload \<Rightarrow> recover_prefix_residual source replacement_end ''[[#if '' payload bud
           | None \<Rightarrow>
               (case strip_prefix ''[['' replacement of
                  Some opener \<Rightarrow> recover_block_residual source replacement_end replacement opener bud
                | None \<Rightarrow> (None, bud))))"

function single_bracket_loop :: "bytes \<Rightarrow> nat \<Rightarrow> nat \<Rightarrow> nat \<Rightarrow> (nat \<times> bytes) scan_result \<times> nat" where
  "single_bracket_loop source body_start cursor bud =
     (if cursor < length source then
        if bud = 0 then (Exhausted, 0)
        else if source ! cursor = CHR '']'' then (Found (cursor + 1, CHR ''['' # slice source body_start cursor), bud - 1)
        else single_bracket_loop source body_start (cursor + 1) (bud - 1)
      else (NotFound, bud))"
  by pat_completeness auto
termination by (relation "measure (\<lambda>(source, b, cursor, rest). length source - cursor)") auto

declare single_bracket_loop.simps [simp del]

definition resolve_single_bracket_candidate ::
  "bytes \<Rightarrow> pf_candidate \<Rightarrow> nat \<Rightarrow> (nat \<times> bytes) scan_result \<times> nat" where
  "resolve_single_bracket_candidate source candidate bud =
     single_bracket_loop source (pc_body_start candidate) (pc_body_start candidate) bud"

definition resolve_empty_candidate ::
  "bytes \<Rightarrow> pf_candidate \<Rightarrow> nat \<Rightarrow> (nat \<times> bytes) scan_result \<times> nat" where
  "resolve_empty_candidate source candidate bud =
     (case find_closer source (pc_body_start candidate) bud of
        (Found close_start, bud) \<Rightarrow> (Found (close_start + 2, []), bud)
      | (NotFound, bud) \<Rightarrow> (NotFound, bud)
      | (Exhausted, bud) \<Rightarrow> (Exhausted, bud))"

definition resolve_unsupported_candidate ::
  "bytes \<Rightarrow> pf_candidate \<Rightarrow> nat \<Rightarrow> (nat \<times> bytes) scan_result \<times> nat" where
  "resolve_unsupported_candidate source candidate bud = (NotFound, bud)"

text \<open>\<open>evaluate\<close> always returns (\<open>evaluate_returns\<close>), so the arm of \<open>None\<close> is never taken.\<close>

definition evaluated :: "'f float_ops \<Rightarrow> zero_operator_policy \<Rightarrow> bytes \<Rightarrow> expression_error + 'f expr_value" where
  "evaluated F options e = (case evaluate F options e of Some r \<Rightarrow> r | None \<Rightarrow> Inl ExprInvalid)"

definition resolve_expression_candidate ::
  "'f float_ops \<Rightarrow> zero_operator_policy \<Rightarrow> bytes \<Rightarrow> pf_candidate \<Rightarrow> nat \<Rightarrow> (nat \<times> bytes) scan_result \<times> nat" where
  "resolve_expression_candidate F options source candidate bud =
     (case find_closer source (pc_body_start candidate) bud of
        (Found close_start, bud) \<Rightarrow>
          let e = trim_blanks (slice source (pc_body_start candidate) close_start) in
          if e = [] then (Found (close_start + 2, []), bud)
          else (case evaluated F options e of
                  Inr v \<Rightarrow> (Found (close_start + 2, format_value F v), bud)
                | Inl error \<Rightarrow>
                    (case runtime_message error of
                       Some message \<Rightarrow> (Found (close_start + 2, message), bud)
                     | None \<Rightarrow> (NotFound, bud)))
      | (NotFound, bud) \<Rightarrow> resolve_single_bracket_candidate source candidate bud
      | (Exhausted, bud) \<Rightarrow> (Exhausted, bud))"

subsection \<open>Resolving a conditional\<close>

text \<open>
  The parts to use and whether they cross a link: from the indexed search when the true branch starts
  with a link, otherwise the flat parts.
\<close>

definition select_parts ::
  "bytes \<Rightarrow> pf_candidate \<Rightarrow> delimiter_index \<Rightarrow> bool \<Rightarrow> flat_parts \<Rightarrow> nat \<Rightarrow> (conditional_parts \<times> bool) scan_result \<times> nat" where
  "select_parts source candidate idx crossing_link_candidate flat bud =
     (if crossing_link_candidate then
        (case find_conditional_parts_indexed source (pc_body_start candidate) idx bud of
           (SearchFound parts, bud) \<Rightarrow> (Found (parts, False), bud)
         | (SearchCrossingLink parts, bud) \<Rightarrow> (Found (parts, True), bud)
         | (SearchNotFound, bud) \<Rightarrow> (NotFound, bud)
         | (SearchExhausted, bud) \<Rightarrow> (Exhausted, bud))
      else
        (Found (\<lparr>cp_end = fp_end flat, cp_condition = fp_condition flat,
                 cp_when_true = (case fp_when_true flat of
                                   Some r \<Rightarrow> r | None \<Rightarrow> (pc_body_start candidate, pc_body_start candidate)),
                 cp_when_false = fp_when_false flat\<rparr>, False), bud))"

text \<open>
  The truth of the condition, the message of an error, or the result that ends the resolution.  Only
  the two conditionals reach this; the \<open>unreachable!\<close> arm of the others is not modelled.
\<close>

datatype condition_truth = Truth bool | ErrorText bytes | Ends "(nat \<times> bytes) scan_result"

definition plain_condition :: "bytes \<Rightarrow> bool" where
  "plain_condition condition \<longleftrightarrow>
     condition = [] \<or> condition = ''0'' \<or> condition = ''1'' \<or>
     starts_with condition ''0|'' \<or> starts_with condition ''1|'' \<or>
     starts_with condition ''0 |'' \<or> starts_with condition ''1 |''"

definition condition_truth ::
  "'f float_ops \<Rightarrow> zero_operator_policy \<Rightarrow> bytes \<Rightarrow> pf_candidate \<Rightarrow> bool \<Rightarrow> conditional_parts \<Rightarrow> condition_truth" where
  "condition_truth F options source candidate has_branches parts =
     (let raw_condition = range_of source (cp_condition parts); condition = trim_blanks raw_condition in
      if pc_kind candidate = KIf then
        (if \<not> has_branches then
           (if plain_condition (trim_blanks condition) then Ends (Found (cp_end parts, [])) else Ends NotFound)
         else Truth (simple_condition raw_condition))
      else
        (let condition = (if has_branches then condition
                          else trim_blanks (slice source (pc_body_start candidate) (cp_end parts - 2)))
         in if condition = [] then Truth False
            else case evaluated F options condition of
              Inr v \<Rightarrow> Truth (truthy F v)
            | Inl error \<Rightarrow> (case runtime_message error of Some message \<Rightarrow> ErrorText message | None \<Rightarrow> Ends NotFound)))"

definition branch_replacement :: "bytes \<Rightarrow> bool \<Rightarrow> conditional_parts \<Rightarrow> bool \<Rightarrow> bytes" where
  "branch_replacement source has_branches parts b =
     (if \<not> has_branches then []
      else if b then trim_spaces (range_of source (cp_when_true parts))
      else trim_spaces (case cp_when_false parts of None \<Rightarrow> [] | Some r \<Rightarrow> range_of source r))"

text \<open>The end of the resolution: a link crossed is only for a false \<open>ifexpr\<close>, then the residual is recovered.\<close>

definition finish_conditional ::
  "bytes \<Rightarrow> pf_candidate \<Rightarrow> bool \<Rightarrow> conditional_parts \<Rightarrow> bool \<Rightarrow> condition_truth \<Rightarrow> nat \<Rightarrow>
   (nat \<times> bytes) scan_result \<times> nat" where
  "finish_conditional source candidate has_branches parts crossing_link truth bud =
     (case truth of
        Ends r \<Rightarrow> (r, bud)
      | _ \<Rightarrow>
          if crossing_link \<and> (pc_kind candidate \<noteq> KIfExpr \<or> truth \<noteq> Truth False) then (NotFound, bud)
          else
            let replacement = (case truth of Truth b \<Rightarrow> branch_replacement source has_branches parts b
                               | ErrorText message \<Rightarrow> message | Ends r \<Rightarrow> [])
            in case recover_branch_residual source (cp_end parts) replacement bud of
                 (Some recovered, bud) \<Rightarrow> (Found recovered, bud)
               | (None, bud) \<Rightarrow> (Found (cp_end parts, replacement), bud))"

definition resolve_conditional_candidate ::
  "'f float_ops \<Rightarrow> zero_operator_policy \<Rightarrow> bytes \<Rightarrow> pf_candidate \<Rightarrow> delimiter_index \<Rightarrow> nat \<Rightarrow>
   (nat \<times> bytes) scan_result \<times> nat" where
  "resolve_conditional_candidate F options source candidate idx bud =
     (case find_flat_conditional_parts source (pc_body_start candidate) (pc_body_start candidate) None 0 bud of
        (NotFound, bud) \<Rightarrow> resolve_single_bracket_candidate source candidate bud
      | (Exhausted, bud) \<Rightarrow> (Exhausted, bud)
      | (Found flat, bud) \<Rightarrow>
          let has_branches = (fp_when_true flat \<noteq> None);
              crossing_link_candidate =
                (case fp_when_true flat of
                   None \<Rightarrow> False
                 | Some r \<Rightarrow> is_crossing_link_opener (trim_start_set blanks (range_of source r)))
          in case (if crossing_link_candidate then (NotFound, bud)
                   else contains_link source (pc_body_start candidate) (fp_end flat - 2) bud) of
               (Exhausted, bud) \<Rightarrow> (Exhausted, bud)
             | (link, bud) \<Rightarrow>
                 if link = Found True then (NotFound, bud)
                 else if pc_kind candidate = KIfExpr \<and>
                         starts_with (trim_start_set blanks (drop (fp_end flat) source)) ''[[a '' then (NotFound, bud)
                 else (case select_parts source candidate idx crossing_link_candidate flat bud of
                         (Found (parts, crossing_link), bud) \<Rightarrow>
                           finish_conditional source candidate has_branches parts crossing_link
                             (condition_truth F options source candidate has_branches parts) bud
                       | (NotFound, bud) \<Rightarrow> (NotFound, bud)
                       | (Exhausted, bud) \<Rightarrow> (Exhausted, bud)))"

subsection \<open>The pass\<close>

definition resolve_candidate ::
  "'f float_ops \<Rightarrow> zero_operator_policy \<Rightarrow> bytes \<Rightarrow> pf_candidate \<Rightarrow> delimiter_index \<Rightarrow> nat \<Rightarrow>
   (nat \<times> bytes) scan_result \<times> nat" where
  "resolve_candidate F options source candidate idx bud =
     (case pc_kind candidate of
        KIf \<Rightarrow> resolve_conditional_candidate F options source candidate idx bud
      | KIfExpr \<Rightarrow> resolve_conditional_candidate F options source candidate idx bud
      | KExpr \<Rightarrow> resolve_expression_candidate F options source candidate bud
      | KUnsupported \<Rightarrow> resolve_unsupported_candidate source candidate bud
      | KUnsupportedEmptyName \<Rightarrow> resolve_unsupported_candidate source candidate bud
      | KWrongCase \<Rightarrow> resolve_empty_candidate source candidate bud)"

definition no_bar_before_close :: "bytes \<Rightarrow> pf_candidate \<Rightarrow> bool" where
  "no_bar_before_close source candidate \<longleftrightarrow>
     (let body_start = pc_body_start candidate;
          first_close = (case find_from source body_start '']]'' of Some k \<Rightarrow> k | None \<Rightarrow> length source)
      in CHR ''|'' \<notin> set (slice source body_start first_close))"

text \<open>One turn of the loop at the opener; \<open>NotFound\<close> is a \<open>continue\<close> that moves past \<open>[[#\<close>.\<close>

definition examine ::
  "'f float_ops \<Rightarrow> zero_operator_policy \<Rightarrow> bytes \<Rightarrow> (nat \<times> nat) list \<Rightarrow> delimiter_index \<Rightarrow> nat \<Rightarrow> nat \<Rightarrow>
   (nat \<times> bytes) scan_result \<times> nat" where
  "examine F options source regions idx function_start bud =
     (case classify_candidate source function_start of
        None \<Rightarrow> (NotFound, bud)
      | Some candidate \<Rightarrow>
          if regions_contain regions function_start then (NotFound, bud)
          else if pc_kind candidate \<in> {KIf, KIfExpr} \<and> is_unmatched_opener idx function_start then
            (case recover_unmatched_conditional_prefix source function_start of
               Some e \<Rightarrow> (Found (e, []), bud)
             | None \<Rightarrow>
                 if no_bar_before_close source candidate then (NotFound, bud)
                 else resolve_candidate F options source candidate idx bud)
          else resolve_candidate F options source candidate idx bud)"

text \<open>The replacements, and what is left of the two budgets.\<close>

function pass_loop ::
  "'f float_ops \<Rightarrow> zero_operator_policy \<Rightarrow> bytes \<Rightarrow> (nat \<times> nat) list \<Rightarrow> delimiter_index \<Rightarrow> nat \<Rightarrow> nat \<Rightarrow> nat \<Rightarrow>
   ((nat \<times> nat) \<times> bytes) list \<times> nat \<times> nat" where
  "pass_loop F options source regions idx search_start n bud =
     (case find_from source search_start ''[[#'' of
        None \<Rightarrow> ([], n, bud)
      | Some function_start \<Rightarrow>
          if n = 0 then ([], 0, bud)
          else (case examine F options source regions idx function_start bud of
                  (Found (e, replacement), bud) \<Rightarrow>
                    map_prod (Cons ((function_start, e), replacement)) id
                      (pass_loop F options source regions idx e (n - 1) bud)
                | (NotFound, bud) \<Rightarrow> pass_loop F options source regions idx (function_start + 3) (n - 1) bud
                | (Exhausted, bud) \<Rightarrow> ([], n - 1, bud)))"
  by pat_completeness auto
termination by (relation "measure (\<lambda>(F, options, source, regions, idx, search_start, n, bud). n)") auto

declare pass_loop.simps [simp del]

definition apply_replacements :: "bytes \<Rightarrow> ((nat \<times> nat) \<times> bytes) list \<Rightarrow> bytes option" where
  "apply_replacements source replacements =
     (if replacements = [] then Some source else replace_all (rev replacements) source)"

definition resolve_function_pass ::
  "'f float_ops \<Rightarrow> bytes \<Rightarrow> zero_operator_policy \<Rightarrow> nat \<Rightarrow> nat \<Rightarrow> bytes option \<times> nat \<times> nat" where
  "resolve_function_pass F source options n bud =
     map_prod (apply_replacements source) id
       (pass_loop F options source (literal_regions_for_parser_functions source) (delimiter_index_new source) 0 n bud)"

definition resolve_wikidot_parser_functions_with_options ::
  "'f float_ops \<Rightarrow> bytes \<Rightarrow> zero_operator_policy \<Rightarrow> bytes option" where
  "resolve_wikidot_parser_functions_with_options F source options =
     fst (resolve_function_pass F source options max_document_candidates (scan_budget_new (length source)))"

definition resolve_wikidot_parser_functions :: "'f float_ops \<Rightarrow> bytes \<Rightarrow> bytes option" where
  "resolve_wikidot_parser_functions F source =
     resolve_wikidot_parser_functions_with_options F source RuntimeError"

definition substitute_functions :: "'f float_ops \<Rightarrow> bytes \<Rightarrow> bytes option" where
  "substitute_functions F source =
     (if \<not> contains_sub source ''[[#'' then Some source else resolve_wikidot_parser_functions F source)"

end
