(* ===== verification/Function_Pass.thy ===== *)
theory Function_Pass
  imports Parser_Functions Literal_Index
begin

text \<open>
  The pass over parser functions (\<open>src/src/preproc/parser_functions/mod.rs\<close>) proved: every range it
  replaces starts at an opener outside the literal regions and ends after it, at character boundaries
  and in order, so the replacement of the ranges never panics and splices the source once.
\<close>

subsection \<open>Cuts\<close>

lemma close_cut_points:
  assumes "valid_utf8 s" and "has s k '']]''"
  shows "boundary s k" and "boundary s (k + 2)" and "k + 2 \<le> length s"
  using assms(2) has_boundary_after [OF assms] has_length [OF assms(2)]
  by (auto simp: is_ascii_def intro: has_ascii_boundary)

lemma find_closer_Found:
  "find_closer s i b = (Found k, b') \<Longrightarrow> i \<le> k \<and> has s k '']]''"
proof (induction s i b rule: find_closer.induct)
  case (1 s i b)
  from 1(2) have "i + 1 < length s \<and> b \<noteq> 0" by (auto simp: find_closer.simps [of s i b] split: if_splits)
  with 1 show ?case by (cases "has s i '']]''") (auto simp: find_closer.simps [of s i b])
qed

lemma find_bytes_Found:
  "find_bytes s i needle b = (Found k, b') \<Longrightarrow> i \<le> k \<and> has s k needle"
proof (induction s i needle b rule: find_bytes.induct)
  case (1 s i needle b)
  from 1(2) have "i + length needle \<le> length s \<and> b \<noteq> 0"
    by (auto simp: find_bytes.simps [of s i needle b] split: if_splits)
  with 1 show ?case by (cases "has s i needle") (auto simp: find_bytes.simps [of s i needle b])
qed

lemma head_ok_trim_end: "head_ok t \<Longrightarrow> head_ok (trim_end_set cs t)"
proof -
  assume h: "head_ok t"
  have "prefix (trim_end_set cs t) t"
    unfolding trim_end_set_def by (metis suffix_dropWhile suffix_to_prefix rev_rev_ident)
  then obtain z where "t = trim_end_set cs t @ z" by (auto simp: prefix_def)
  then have "trim_end_set cs t \<noteq> [] \<Longrightarrow> t \<noteq> [] \<and> hd (trim_end_set cs t) = hd t" by (metis append_is_Nil_conv hd_append2)
  with h show ?thesis unfolding head_ok_def by metis
qed

lemma trim_spaces_head: "valid_utf8 t \<Longrightarrow> head_ok (trim_spaces t)"
  unfolding trim_spaces_def by (intro head_ok_trim_end valid_head_ok trim_start_set_valid) (auto simp: is_ascii_def)

lemma head_ok_Cons: "is_ascii c \<Longrightarrow> head_ok (c # t)"
  by (auto simp: head_ok_def is_ascii_def is_cont_def)

lemma message_head: "runtime_message e = Some m \<Longrightarrow> head_ok m"
  by (cases e) (auto simp: arity_message_def is_ascii_def intro!: head_ok_Cons)

text \<open>What the pass relies on of the formatting of \<open>f64\<close>: it prints ASCII.\<close>

definition formats_ascii :: "'f float_ops \<Rightarrow> bool" where
  "formats_ascii F \<longleftrightarrow> (\<forall>x. list_all is_ascii (f_fixed F x) \<and> list_all is_ascii (f_scientific F x))"

lemma butlast_head: "head_ok t \<Longrightarrow> head_ok (butlast t)"
  using head_ok_take [of t "length t - 1"] by (simp add: butlast_conv_take)

lemma format_head: "formats_ascii F \<Longrightarrow> head_ok (format_value F v)"
proof (cases v)
  case (NumberV x)
  assume f: "formats_ascii F"
  then have h: "head_ok (f_fixed F x)" "head_ok (f_scientific F x)"
    by (simp_all add: formats_ascii_def ascii_head_ok)
  have m: "head_ok (a @ ''E'' @ e)" if "split_once CHR ''E'' (f_scientific F x) = Some (a, b)" for a b e
    using h(2) that split_once_Some [of "CHR ''E''" "f_scientific F x" a b] by (cases a) (auto simp: head_ok_def is_cont_def)
  show ?thesis
    using h m by (auto simp: NumberV format_number_def Let_def head_ok_trim_end butlast_head is_ascii_def
      split: option.split intro: head_ok_Cons)
qed (simp_all add: head_ok_def is_cont_def)


subsection \<open>The index of delimiters\<close>

text \<open>The offsets of the openers grow, so the binary search of the program finds them.\<close>

lemma delimiter_loop_sorted:
  "sorted_wrt (>) openers \<Longrightarrow> \<forall>i \<in> set openers. i < cursor \<Longrightarrow>
   sorted_wrt (<) (unmatched_openers (delimiter_loop s cursor openers over))"
proof (induction s cursor openers over rule: delimiter_loop.induct)
  case (1 s cursor openers over)
  note loop = delimiter_loop.simps [of s cursor openers over]
  have less: "\<forall>i \<in> set openers. i < cursor + n" for n using "1.prems"(2) by auto
  have t: "sorted_wrt (>) (tl openers)" "\<forall>i \<in> set (tl openers). i < cursor + 2"
    using "1.prems" less by (cases openers; auto)+
  show ?case
  proof (cases "cursor + 1 < length s")
    case True
    consider "has s cursor ''[[''" "length openers = max_unmatched_delimiters"
      | "has s cursor ''[[''" "length openers \<noteq> max_unmatched_delimiters"
      | "\<not> has s cursor ''[[''" "has s cursor '']]''" | "\<not> has s cursor ''[[''" "\<not> has s cursor '']]''" by blast
    then show ?thesis
    proof cases
      case 1
      with "1.IH"(1) [OF True 1 "1.prems"(1) less] True show ?thesis by (simp add: loop)
    next
      case 2
      have "sorted_wrt (>) (if \<not> over then cursor # openers else openers)"
          "\<forall>i \<in> set (if \<not> over then cursor # openers else openers). i < cursor + 2"
        using "1.prems" less by auto
      from "1.IH"(2) [OF True 2 this] True 2 show ?thesis by (simp add: loop)
    next
      case 3
      have "sorted_wrt (>) (if \<not> over then tl openers else openers)"
          "\<forall>i \<in> set (if \<not> over then tl openers else openers). i < cursor + 2"
        using "1.prems" less t by auto
      from "1.IH"(3) [OF True 3 this] True 3 show ?thesis by (simp add: loop)
    next
      case 4
      from "1.IH"(4) [OF True 4 "1.prems"(1) less] True 4 show ?thesis by (simp add: loop)
    qed
  next
    case False
    with "1.prems"(1) show ?thesis by (simp add: loop sorted_wrt_rev)
  qed
qed

lemma unmatched_sorted: "sorted_wrt (<) (unmatched_openers (delimiter_index_new s))"
  unfolding delimiter_index_new_def by (rule delimiter_loop_sorted) simp_all

subsection \<open>The parts of a conditional\<close>

definition parts_ok :: "bytes \<Rightarrow> nat \<Rightarrow> conditional_parts \<Rightarrow> bool" where
  "parts_ok s b p \<longleftrightarrow>
     b < cp_end p \<and> cp_end p \<le> length s \<and> boundary s (cp_end p) \<and>
     cuttable s (cp_condition p) \<and> cuttable s (cp_when_true p) \<and> pred_option (cuttable s) (cp_when_false p)"

definition flat_ok :: "bytes \<Rightarrow> nat \<Rightarrow> flat_parts \<Rightarrow> bool" where
  "flat_ok s b p \<longleftrightarrow>
     b < fp_end p \<and> fp_end p \<le> length s \<and> boundary s (fp_end p) \<and>
     cuttable s (fp_condition p) \<and> pred_option (cuttable s) (fp_when_true p) \<and> pred_option (cuttable s) (fp_when_false p)"

definition separators_ok :: "bytes \<Rightarrow> nat \<Rightarrow> nat \<Rightarrow> (nat \<times> nat \<times> nat) option \<Rightarrow> bool" where
  "separators_ok s b cursor =
     pred_option (\<lambda>(f, l, n). b \<le> f \<and> f \<le> l \<and> l < cursor \<and> (n > 1 \<longrightarrow> f < l) \<and> n \<ge> 1 \<and> is_separator s f \<and> is_separator s l)"

lemma bar_cut:
  assumes "valid_utf8 s" and "i < length s" and "s ! i = CHR ''|''"
  shows "boundary s i" and "boundary s (i + 1)"
  using boundary_of_ascii [of i s] boundary_after_ascii [OF assms(1,2)] assms(2,3) by (auto simp: is_ascii_def)

lemma flat_parts_at_ok:
  assumes "valid_utf8 s" and "boundary s b" and "b \<le> cursor" and "has s cursor '']]''" and "separators_ok s b cursor seps"
  shows "flat_ok s b (flat_parts_at b cursor seps)"
proof -
  note c = close_cut_points [OF assms(1,4)]
  have bar: "is_separator s i \<Longrightarrow> i < length s \<Longrightarrow> boundary s i \<and> boundary s (i + 1)" for i
    using bar_cut [OF assms(1)] by (auto simp: is_separator_def)
  show ?thesis
  proof (cases seps)
    case None
    then show ?thesis using assms(2,3) c by (simp add: flat_parts_at_def flat_ok_def cuttable_def)
  next
    case (Some x)
    then obtain f l n where x: "x = (f, l, n)" by (cases x) auto
    from assms(5) have o: "b \<le> f" "f \<le> l" "l < cursor" "n > 1 \<longrightarrow> f < l" "is_separator s f" "is_separator s l"
      by (auto simp: separators_ok_def Some x)
    then have "boundary s f" "boundary s (f + 1)" "boundary s l" "boundary s (l + 1)"
      using bar [of f] bar [of l] c(3) by auto
    then show ?thesis using assms(2,3) c o by (auto simp: flat_parts_at_def flat_ok_def cuttable_def Some x)
  qed
qed

lemma find_flat_ok:
  "find_flat_conditional_parts s b cursor seps cands bud = (Found p, bud') \<Longrightarrow>
   valid_utf8 s \<Longrightarrow> boundary s b \<Longrightarrow> b \<le> cursor \<Longrightarrow> separators_ok s b cursor seps \<Longrightarrow> flat_ok s b p"
proof (induction s b cursor seps cands bud rule: find_flat_conditional_parts.induct)
  case (1 s b cursor seps cands bud)
  from "1.prems"(1) have c: "cursor + 1 < length s" "bud \<noteq> 0"
    by (auto simp: find_flat_conditional_parts.simps [of s b cursor seps cands bud] split: if_splits)
  show ?case
  proof (cases "has s cursor '']]''")
    case True
    with "1.prems" c have "p = flat_parts_at b cursor seps"
      by (simp add: find_flat_conditional_parts.simps [of s b cursor seps cands bud] Let_def)
    with flat_parts_at_ok [OF "1.prems"(2-4) True "1.prems"(5)] show ?thesis by simp
  next
    case False
    let ?n = "if b < cursor \<and> has s cursor ''[[#'' then cands + 1 else cands"
    let ?seps = "if is_separator s cursor
      then (case seps of None \<Rightarrow> Some (cursor, cursor, 1) | Some (f, l, n) \<Rightarrow> Some (f, cursor, n + 1)) else seps"
    from "1.prems"(1) c False have n: "\<not> ?n > max_parser_function_nesting"
      and eq: "find_flat_conditional_parts s b (cursor + 1) ?seps ?n (bud - 1) = (Found p, bud')"
      by (auto simp: find_flat_conditional_parts.simps [of s b cursor seps cands bud] Let_def split: if_splits)
    have "separators_ok s b (cursor + 1) ?seps"
      using "1.prems"(4,5) by (auto simp: separators_ok_def split: option.splits prod.splits)
    from "1.IH" [OF c refl False refl n eq "1.prems"(2,3) _ this] "1.prems"(4) show ?thesis by simp
  qed
qed

subsection \<open>The indexed search\<close>

definition bar_at :: "bytes \<Rightarrow> nat \<Rightarrow> nat \<Rightarrow> nat \<Rightarrow> bool" where
  "bar_at s i cursor k \<longleftrightarrow> i \<le> k \<and> k < cursor \<and> k < length s \<and> s ! k = CHR ''|''"

fun bars_ok :: "bytes \<Rightarrow> nat \<Rightarrow> nat \<Rightarrow> nat option \<Rightarrow> nat option \<Rightarrow> bool" where
  "bars_ok s b cursor None None \<longleftrightarrow> True"
| "bars_ok s b cursor None (Some j) \<longleftrightarrow> False"
| "bars_ok s b cursor (Some k) None \<longleftrightarrow> bar_at s b cursor k"
| "bars_ok s b cursor (Some k) (Some j) \<longleftrightarrow> bar_at s b cursor k \<and> bar_at s (k + 1) cursor j"

definition search_ok :: "bytes \<Rightarrow> nat \<Rightarrow> nat \<Rightarrow> search_state \<Rightarrow> bool" where
  "search_ok s b cursor st \<longleftrightarrow>
     bars_ok s b cursor (separator0 st) (separator1 st) \<and> pred_option (parts_ok s b) (crossing_link_fallback st)"

definition search_result_ok :: "bytes \<Rightarrow> nat \<Rightarrow> conditional_search \<Rightarrow> bool" where
  "search_result_ok s b r =
     (case r of SearchFound p \<Rightarrow> parts_ok s b p | SearchCrossingLink p \<Rightarrow> parts_ok s b p | _ \<Rightarrow> True)"

lemma bar_at_later: "bar_at s i c k \<Longrightarrow> c \<le> c' \<Longrightarrow> bar_at s i c' k"
  by (simp add: bar_at_def)

lemma search_ok_later: "search_ok s b c st \<Longrightarrow> c \<le> c' \<Longrightarrow> search_ok s b c' st"
  by (cases "separator0 st"; cases "separator1 st") (auto simp: search_ok_def bar_at_later)

lemma search_first: "search_ok s b c st \<Longrightarrow> separator0 st = Some k \<Longrightarrow> bar_at s b c k"
  by (cases "separator1 st") (auto simp: search_ok_def)

lemma bar_at_cut: "valid_utf8 s \<Longrightarrow> bar_at s i c k \<Longrightarrow> boundary s k \<and> boundary s (k + 1)"
  using bar_cut by (auto simp: bar_at_def)

lemma fallback_result_ok: "search_ok s b c st \<Longrightarrow> search_result_ok s b (fallback_result st)"
  by (auto simp: search_ok_def fallback_result_def search_result_ok_def split: option.split)

lemma search_ok_same:
  "search_ok s b c st \<Longrightarrow> separator0 st' = separator0 st \<Longrightarrow> separator1 st' = separator1 st \<Longrightarrow>
   crossing_link_fallback st' = crossing_link_fallback st \<Longrightarrow> search_ok s b c st'"
  by (simp add: search_ok_def)

lemma open_step_ok:
  "search_ok s b c st \<Longrightarrow>
   (case open_step idx s c st of Inl r \<Rightarrow> search_result_ok s b r | Inr st' \<Rightarrow> search_ok s b c st')"
  by (auto simp: open_step_def Let_def fallback_result_ok elim: search_ok_same)

lemma note_crossing_ok:
  assumes "valid_utf8 s" and "boundary s b" and "has s c '']]''" and "b \<le> c" and "search_ok s b c st"
  shows "search_ok s b c (note_crossing s b c st)"
proof (cases "separator0 st")
  case (Some k)
  note cut = close_cut_points [OF assms(1,3)]
  from search_first [OF assms(5) Some] have k: "bar_at s b c k" .
  from bar_at_cut [OF assms(1) this] k cut assms(2,4)
  have "parts_ok s b \<lparr>cp_end = c + 2, cp_condition = (b, k), cp_when_true = (k + 1, c + 2), cp_when_false = None\<rparr>"
    by (auto simp: parts_ok_def cuttable_def bar_at_def)
  with assms(5) Some show ?thesis by (auto simp: note_crossing_def Let_def search_ok_def)
qed (use assms(5) in \<open>simp add: note_crossing_def\<close>)

lemma leave_ok: "search_ok s b c st \<Longrightarrow> search_ok s b c (leave_adjacent (leave_crossing st))"
  by (simp add: leave_adjacent_def leave_crossing_def search_ok_def)

lemma close_step_ok:
  assumes "valid_utf8 s" and "boundary s b" and "has s c '']]''" and "b \<le> c" and "search_ok s b c st"
  shows "case close_step s b c st of Inl r \<Rightarrow> search_result_ok s b r | Inr st' \<Rightarrow> search_ok s b c st'"
proof (cases "ss_depth st = 1")
  case True
  note cut = close_cut_points [OF assms(1,3)]
  show ?thesis
  proof (cases "separator0 st")
    case (Some k)
    from search_first [OF assms(5) Some] have k: "bar_at s b c k" .
    have j: "bar_at s (k + 1) c j" if "separator1 st = Some j" for j
      using assms(5) Some that by (simp add: search_ok_def)
    show ?thesis
      using bar_at_cut [OF assms(1) k] k bar_at_cut [OF assms(1) j] j cut assms(2,4) True Some
      by (cases "separator1 st") (auto simp: close_step_def search_result_ok_def parts_ok_def cuttable_def bar_at_def)
  qed (use True in \<open>simp add: close_step_def search_result_ok_def\<close>)
next
  case False
  have "search_ok s b c (leave_adjacent (leave_crossing (note_crossing s b c st)))"
    by (intro leave_ok note_crossing_ok assms)
  with False show ?thesis by (simp add: close_step_def Let_def search_ok_def)
qed

lemma double_bar_ok: "search_ok s b c st \<Longrightarrow> search_ok s b c (double_bar_step st)"
  by (simp add: double_bar_step_def search_ok_def)

lemma byte_step_ok: "search_ok s b c st \<Longrightarrow> search_ok s b c (byte_step x st)"
  by (simp add: byte_step_def search_ok_def)

lemma bar_step_ok:
  assumes "search_ok s b c st" and "c < length s" and "s ! c = CHR ''|''" and "b \<le> c"
  shows "search_ok s b (c + 1) (bar_step c st)"
proof -
  have here: "i \<le> c \<Longrightarrow> bar_at s i (c + 1) c" for i using assms(2,3) by (simp add: bar_at_def)
  have later: "search_ok s b (c + 1) st" by (rule search_ok_later [OF assms(1)]) simp
  have k: "k < c" if "separator0 st = Some k" for k using search_first [OF assms(1) that] by (simp add: bar_at_def)
  show ?thesis
    using later here [OF assms(4)] here k
    by (cases "separator0 st"; cases "separator1 st") (auto simp: bar_step_def Let_def search_ok_def Suc_le_eq)
qed

lemma conditional_loop_ok:
  "conditional_loop idx s b cursor st bud = (r, bud') \<Longrightarrow> valid_utf8 s \<Longrightarrow> boundary s b \<Longrightarrow> b \<le> cursor \<Longrightarrow>
   search_ok s b cursor st \<Longrightarrow> search_result_ok s b r"
proof (induction idx s b cursor st bud rule: conditional_loop.induct)
  case (1 idx s b cursor st bud)
  note loop = conditional_loop.simps [of idx s b cursor st bud]
  note prems = "1.prems"
  show ?case
  proof (cases "cursor < length s \<and> bud \<noteq> 0")
    case False
    with prems(1,5) show ?thesis
      by (auto simp: loop search_end_def fallback_result_ok split: if_splits) (simp_all add: search_result_ok_def)
  next
    case True
    then have c: "cursor < length s" "bud \<noteq> 0" by auto
    have later: "search_ok s b (cursor + 2) st'" if "search_ok s b cursor st'" for st'
      using search_ok_later [OF that] by simp
    consider (op) "has s cursor ''[[''"
      | (cl) "\<not> has s cursor ''[[''" "has s cursor '']]''"
      | (db) "\<not> has s cursor ''[[''" "\<not> has s cursor '']]''" "s ! cursor = CHR ''|''" "get s (cursor + 1) = Some (CHR ''|'')"
      | (ba) "\<not> has s cursor ''[[''" "\<not> has s cursor '']]''" "s ! cursor = CHR ''|''" "get s (cursor + 1) \<noteq> Some (CHR ''|'')"
      | (by') "\<not> has s cursor ''[[''" "\<not> has s cursor '']]''" "s ! cursor \<noteq> CHR ''|''" by blast
    then show ?thesis
    proof cases
      case op
      show ?thesis
      proof (cases "open_step idx s cursor st")
        case (Inl x)
        with op c prems(1) open_step_ok [OF prems(5), of idx] show ?thesis by (simp add: loop Let_def)
      next
        case (Inr st')
        with op c prems(1) have "conditional_loop idx s b (cursor + 2) st' (bud - 1) = (r, bud')" by (simp add: loop Let_def)
        moreover have "search_ok s b (cursor + 2) st'" using open_step_ok [OF prems(5), of idx] Inr later by simp
        ultimately show ?thesis using "1.IH"(1) [OF c refl op Inr] prems(2-4) by simp
      qed
    next
      case cl
      note ok = close_step_ok [OF prems(2,3) cl(2) prems(4,5)]
      show ?thesis
      proof (cases "close_step s b cursor st")
        case (Inl x)
        with cl c prems(1) ok show ?thesis by (simp add: loop Let_def)
      next
        case (Inr st')
        with cl c prems(1) have "conditional_loop idx s b (cursor + 2) st' (bud - 1) = (r, bud')" by (simp add: loop Let_def)
        moreover have "search_ok s b (cursor + 2) st'" using ok Inr later by simp
        ultimately show ?thesis using "1.IH"(2) [OF c refl cl Inr] prems(2-4) by simp
      qed
    next
      case db
      with c prems(1) have "conditional_loop idx s b (cursor + 2) (double_bar_step st) (bud - 1) = (r, bud')"
        by (simp add: loop Let_def)
      moreover have "search_ok s b (cursor + 2) (double_bar_step st)" using double_bar_ok [OF prems(5)] later by simp
      ultimately show ?thesis using "1.IH"(3) [OF c refl db] prems(2-4) by simp
    next
      case ba
      with c prems(1) have "conditional_loop idx s b (cursor + 1) (bar_step cursor st) (bud - 1) = (r, bud')"
        by (simp add: loop Let_def)
      with bar_step_ok [OF prems(5) c(1) ba(3) prems(4)] show ?thesis
        using "1.IH"(4) [OF c refl ba] prems(2-4) by simp
    next
      case by'
      with c prems(1) have "conditional_loop idx s b (cursor + 1) (byte_step (s ! cursor) st) (bud - 1) = (r, bud')"
        by (simp add: loop Let_def)
      moreover have "search_ok s b (cursor + 1) (byte_step (s ! cursor) st)"
        using search_ok_later [OF byte_step_ok [OF prems(5)]] by simp
      ultimately show ?thesis using "1.IH"(5) [OF c refl by'] prems(2-4) by simp
    qed
  qed
qed

lemma search_start_ok: "search_ok s b b search_start_state"
  by (simp add: search_ok_def search_start_state_def)

lemma find_indexed_ok:
  "find_conditional_parts_indexed s b idx bud = (r, bud') \<Longrightarrow> valid_utf8 s \<Longrightarrow> boundary s b \<Longrightarrow> search_result_ok s b r"
  unfolding find_conditional_parts_indexed_def by (erule conditional_loop_ok) (simp_all add: search_start_ok)

subsection \<open>Resolutions\<close>

fun resolution_ok :: "bytes \<Rightarrow> nat \<Rightarrow> (nat \<times> bytes) scan_result \<Rightarrow> bool" where
  "resolution_ok s b (Found (e, v)) \<longleftrightarrow> b < e \<and> e \<le> length s \<and> boundary s e \<and> head_ok v"
| "resolution_ok s b NotFound \<longleftrightarrow> True"
| "resolution_ok s b Exhausted \<longleftrightarrow> True"

lemma head_ok_Nil [simp]: "head_ok []"
  by (simp add: head_ok_def)

lemma classify_body_start:
  assumes "valid_utf8 s" and "has s i ''[[#''" and "classify_candidate s i = Some c"
  shows "i < pc_body_start c" and "pc_body_start c \<le> length s" and "boundary s (pc_body_start c)"
proof -
  let ?e = "scan_while is_alnum s (i + 3)"
  from assms(3) obtain x where x: "get s ?e = Some x" "x \<in> blanks" "pc_body_start c = ?e + 1"
    by (auto simp: classify_candidate_def Let_def split: option.splits if_splits)
  have "i + 3 \<le> ?e" by (rule scan_while_ge)
  then show "i < pc_body_start c" by (simp add: x(3))
  from x(1,2) have l: "?e < length s" "is_ascii (s ! ?e)" by (auto simp: get_Some_iff blanks_def is_ascii_def)
  then show "pc_body_start c \<le> length s" by (simp add: x(3))
  show "boundary s (pc_body_start c)" unfolding x(3) by (rule boundary_after_ascii [OF assms(1) l])
qed

lemma single_bracket_ok:
  "single_bracket_loop s b cursor bud = (r, bud') \<Longrightarrow> valid_utf8 s \<Longrightarrow> b \<le> cursor \<Longrightarrow> resolution_ok s b r"
proof (induction s b cursor bud rule: single_bracket_loop.induct)
  case (1 s b cursor bud)
  note loop = single_bracket_loop.simps [of s b cursor bud]
  show ?case
  proof (cases "cursor < length s \<and> bud \<noteq> 0 \<and> s ! cursor \<noteq> CHR '']''")
    case True
    with 1 show ?thesis by (simp add: loop)
  next
    case False
    have "boundary s (cursor + 1)" if "cursor < length s" "s ! cursor = CHR '']''"
      using boundary_after_ascii [OF 1(3) that(1)] that(2) by (simp add: is_ascii_def)
    with False 1(2,4) show ?thesis
      by (auto simp: loop is_ascii_def intro!: head_ok_Cons split: if_splits)
  qed
qed

lemma single_candidate_ok:
  "valid_utf8 s \<Longrightarrow> resolution_ok s (pc_body_start c) (fst (resolve_single_bracket_candidate s c bud))"
  unfolding resolve_single_bracket_candidate_def by (rule single_bracket_ok [OF prod.collapse [symmetric]]) simp_all

lemma closer_ok:
  assumes "valid_utf8 s" and "find_closer s i bud = (Found k, bud')" and "b \<le> i" and "head_ok v"
  shows "resolution_ok s b (Found (k + 2, v))"
  using find_closer_Found [OF assms(2)] close_cut_points [OF assms(1)] assms(3,4) by auto

lemma empty_candidate_ok:
  "valid_utf8 s \<Longrightarrow> resolution_ok s (pc_body_start c) (fst (resolve_empty_candidate s c bud))"
  unfolding resolve_empty_candidate_def
  by (auto simp del: resolution_ok.simps(1) add_2_eq_Suc' simp: closer_ok split: prod.split scan_result.split)

lemma expression_candidate_ok:
  assumes "valid_utf8 s" and "formats_ascii F"
  shows "resolution_ok s (pc_body_start c) (fst (resolve_expression_candidate F options s c bud))"
proof (cases "find_closer s (pc_body_start c) bud")
  case (Pair r bud')
  show ?thesis
  proof (cases r)
    case (Found k)
    with Pair have "resolution_ok s (pc_body_start c) (Found (k + 2, v))" if "head_ok v" for v
      using closer_ok [OF assms(1) _ order_refl that] by simp
    with Pair Found show ?thesis
      by (auto simp del: resolution_ok.simps(1)
          simp: resolve_expression_candidate_def Let_def format_head [OF assms(2)] message_head
          split: sum.split option.split)
  qed (use Pair single_candidate_ok [OF assms(1)] in \<open>simp_all add: resolve_expression_candidate_def\<close>)
qed

lemma strip_prefix_head: "strip_prefix (c # p) v = Some t \<Longrightarrow> is_ascii c \<Longrightarrow> head_ok (v @ w)"
  by (cases v) (auto simp: strip_prefix_def starts_with_Cons is_ascii_def is_cont_def head_ok_def split: if_splits)

lemma recover_prefix_ok:
  assumes "valid_utf8 s" and "b \<le> i" and "recover_prefix_residual s i (CHR ''['' # pre) payload bud = (Some (e, v), bud')"
  shows "resolution_ok s b (Found (e, v))"
proof -
  from assms(3) obtain k bud'' t where k: "find_closer s i bud = (Found k, bud'')" and e: "e = k + 2" "v = CHR ''['' # t"
    by (auto simp: recover_prefix_residual_def Let_def split: prod.splits scan_result.splits if_splits)
  have "head_ok v" unfolding e by (rule head_ok_Cons) (simp add: is_ascii_def)
  from closer_ok [OF assms(1) k assms(2) this] show ?thesis by (simp add: e)
qed

lemma recover_block_ok:
  assumes "valid_utf8 s" and "b \<le> i" and "recover_block_residual s i v0 opener bud = (Some (e, v), bud')"
    and "\<And>w. head_ok (v0 @ w)"
  shows "resolution_ok s b (Found (e, v))"
proof -
  let ?closing = "''[[/'' @ takeWhile is_alnum opener @ '']]''"
  from assms(3) obtain cs k b1 b2 w where f: "find_bytes s i ?closing bud = (Found cs, b1)"
      "find_closer s (cs + length ?closing) b1 = (Found k, b2)" and e: "e = k + 2" "v = v0 @ w"
    by (auto simp: recover_block_residual_def Let_def split: prod.splits scan_result.splits if_splits)
  have "b \<le> cs + length ?closing" using find_bytes_Found [OF f(1)] assms(2) by simp
  from closer_ok [OF assms(1) f(2) this assms(4)] show ?thesis by (simp add: e)
qed

lemma recover_residual_ok:
  assumes "valid_utf8 s" and "b \<le> i" and "recover_branch_residual s i v0 bud = (Some (e, v), bud')"
  shows "resolution_ok s b (Found (e, v))"
proof (cases "strip_prefix ''[[#expr '' v0 = None \<and> strip_prefix ''[[#if '' v0 = None")
  case False
  with assms(3) show ?thesis
    by (auto simp: recover_branch_residual_def simp del: resolution_ok.simps(1)
        split: option.splits intro: recover_prefix_ok [OF assms(1,2)])
next
  case True
  with assms(3) obtain opener where o: "strip_prefix ''[['' v0 = Some opener"
      "recover_block_residual s i v0 opener bud = (Some (e, v), bud')"
    by (auto simp: recover_branch_residual_def split: option.splits)
  show ?thesis
    by (rule recover_block_ok [OF assms(1,2) o(2)]) (rule strip_prefix_head [OF o(1)], simp add: is_ascii_def)
qed

subsection \<open>Conditionals\<close>

lemma range_head:
  assumes "valid_utf8 s" and "cuttable s r"
  shows "head_ok (trim_spaces (range_of s r))"
  using assms by (auto simp: range_of_def cuttable_def intro!: trim_spaces_head slice_valid)

lemma branch_head: "valid_utf8 s \<Longrightarrow> parts_ok s b p \<Longrightarrow> head_ok (branch_replacement s h p t)"
  by (auto simp: branch_replacement_def parts_ok_def range_head trim_spaces_head split: option.split)

lemma finish_ok:
  assumes "valid_utf8 s" and "parts_ok s b p" and "\<And>r. truth = Ends r \<Longrightarrow> resolution_ok s b r"
    and "\<And>m. truth = ErrorText m \<Longrightarrow> head_ok m"
  shows "resolution_ok s b (fst (finish_conditional s c h p x truth bud))"
proof (cases "\<exists>r. truth = Ends r")
  case False
  let ?v = "case truth of Truth t \<Rightarrow> branch_replacement s h p t | ErrorText m \<Rightarrow> m | Ends r \<Rightarrow> []"
  have "head_ok ?v" using assms(4) branch_head [OF assms(1,2)] by (simp split: condition_truth.split)
  with assms(2) have plain: "resolution_ok s b (Found (cp_end p, ?v))" by (simp add: parts_ok_def)
  have "b \<le> cp_end p" using assms(2) by (simp add: parts_ok_def)
  note rec = recover_residual_ok [OF assms(1) this]
  obtain r bud' where r: "recover_branch_residual s (cp_end p) ?v bud = (r, bud')" by (cases "recover_branch_residual s (cp_end p) ?v bud")
  have "resolution_ok s b (case r of Some q \<Rightarrow> Found q | None \<Rightarrow> Found (cp_end p, ?v))"
    using plain rec r by (cases r) (auto simp del: resolution_ok.simps(1))
  moreover have "fst (finish_conditional s c h p x truth bud) =
      (if x \<and> (pc_kind c \<noteq> KIfExpr \<or> truth \<noteq> Truth False) then NotFound
       else (case r of Some q \<Rightarrow> Found q | None \<Rightarrow> Found (cp_end p, ?v)))"
    using False r by (cases truth) (auto simp: finish_conditional_def Let_def split: option.split)
  ultimately show ?thesis by simp
qed (use assms(3) in \<open>auto simp: finish_conditional_def\<close>)

lemma select_ok:
  assumes "valid_utf8 s" and "boundary s b" and "flat_ok s b flat" and "pc_body_start c = b"
    and "select_parts s c idx x flat bud = (Found (p, y), bud')"
  shows "parts_ok s b p"
proof (cases x)
  case True
  with assms(5) obtain r bud'' where "find_conditional_parts_indexed s b idx bud = (r, bud'')"
      "r = SearchFound p \<or> r = SearchCrossingLink p"
    by (auto simp: select_parts_def assms(4) split: prod.splits conditional_search.splits)
  with find_indexed_ok [OF this(1) assms(1,2)] show ?thesis by (auto simp: search_result_ok_def)
next
  case False
  have "b \<le> length s" using assms(3) by (simp add: flat_ok_def)
  with False assms show ?thesis
    by (auto simp: select_parts_def parts_ok_def flat_ok_def cuttable_def split: option.split)
qed

lemma truth_ok:
  assumes "parts_ok s b p"
  shows "condition_truth F options s c h p = Ends r \<Longrightarrow> resolution_ok s b r"
    and "condition_truth F options s c h p = ErrorText m \<Longrightarrow> head_ok m"
  using assms
  by (auto simp: condition_truth_def Let_def parts_ok_def message_head split: if_splits sum.splits option.splits)

lemma conditional_ok:
  assumes "valid_utf8 s" and "boundary s (pc_body_start c)"
  shows "resolution_ok s (pc_body_start c) (fst (resolve_conditional_candidate F options s c idx bud))"
proof -
  let ?b = "pc_body_start c"
  obtain r bud1 where flat: "find_flat_conditional_parts s ?b ?b None 0 bud = (r, bud1)"
    by (cases "find_flat_conditional_parts s ?b ?b None 0 bud")
  show ?thesis
  proof (cases r)
    case (Found flat_p)
    have fok: "flat_ok s ?b flat_p"
      by (rule find_flat_ok [OF flat [unfolded Found] assms]) (simp_all add: separators_ok_def)
    have fin: "resolution_ok s ?b (fst (finish_conditional s c h p y (condition_truth F options s c h p) bud3))"
      if "select_parts s c idx x flat_p bud2 = (Found (p, y), bud3)" for x y p bud2 bud3 h
      using select_ok [OF assms fok refl that] by (intro finish_ok assms(1) truth_ok)
    show ?thesis
      using flat Found fin
      by (auto simp: resolve_conditional_candidate_def Let_def
          simp del: resolution_ok.simps(1) split: prod.split scan_result.split)
  qed (use flat single_candidate_ok [OF assms(1)] in \<open>simp_all add: resolve_conditional_candidate_def\<close>)
qed

lemma candidate_resolution_ok:
  assumes "valid_utf8 s" and "boundary s (pc_body_start c)" and "formats_ascii F"
  shows "resolution_ok s (pc_body_start c) (fst (resolve_candidate F options s c idx bud))"
  by (simp add: conditional_ok [OF assms(1,2)] expression_candidate_ok [OF assms(1,3)] empty_candidate_ok [OF assms(1)]
      resolve_candidate_def resolve_unsupported_candidate_def split: pf_kind.split)

subsection \<open>The pass\<close>

lemma recover_loop_ge: "i \<le> fst (recover_loop s i n)"
proof (induction s i n rule: recover_loop.induct)
  case (1 s i n)
  then show ?case by (auto simp: recover_loop.simps [of s i n])
qed

lemma recover_prefix_end:
  assumes "valid_utf8 s" and "recover_unmatched_conditional_prefix s i = Some e"
  shows "i < e \<and> e \<le> length s \<and> boundary s e"
proof -
  from assms(2) obtain k where f: "find_from s (fst (recover_loop s i 0)) '']]'' = Some k" and e: "e = k + 2"
    by (auto simp: recover_unmatched_conditional_prefix_def split: prod.splits if_splits)
  have "has s k '']]''" "fst (recover_loop s i 0) \<le> k" using find_from_Some [OF f] by auto
  with close_cut_points [OF assms(1)] recover_loop_ge [of i s 0] show ?thesis by (simp add: e)
qed

lemma examine_ok:
  assumes "valid_utf8 s" and "has s i ''[[#''" and "formats_ascii F"
    and "examine F options s regions idx i bud = (Found (e, v), bud')"
  shows "i < e" and "e \<le> length s" and "boundary s e" and "head_ok v" and "classify_candidate s i \<noteq> None"
    and "\<not> regions_contain regions i"
proof -
  from assms(4) obtain c where c: "classify_candidate s i = Some c" and r: "\<not> regions_contain regions i"
    by (auto simp: examine_def split: option.splits if_splits)
  note b = classify_body_start [OF assms(1,2) c]
  have "i < e \<and> e \<le> length s \<and> boundary s e \<and> head_ok v"
  proof (cases "resolve_candidate F options s c idx bud = (Found (e, v), bud')")
    case True
    with candidate_resolution_ok [OF assms(1) b(3) assms(3), of options idx bud] b(1) show ?thesis by simp
  next
    case False
    with assms(4) c r have "recover_unmatched_conditional_prefix s i = Some e" "v = []"
      by (auto simp: examine_def split: option.splits if_splits)
    with recover_prefix_end [OF assms(1)] show ?thesis by simp
  qed
  then show "i < e" "e \<le> length s" "boundary s e" "head_ok v" by simp_all
  show "classify_candidate s i \<noteq> None" "\<not> regions_contain regions i" using c r by simp_all
qed

definition replaced_ok :: "bytes \<Rightarrow> (nat \<times> nat) list \<Rightarrow> (nat \<times> nat) \<times> bytes \<Rightarrow> bool" where
  "replaced_ok s regions r \<longleftrightarrow>
     has s (fst (fst r)) ''[[#'' \<and> classify_candidate s (fst (fst r)) \<noteq> None \<and>
     \<not> regions_contain regions (fst (fst r)) \<and> head_ok (snd r)"

lemma pass_loop_ok:
  "valid_utf8 s \<Longrightarrow> formats_ascii F \<Longrightarrow>
   ordered_ranges s i (fst (pass_loop F options s regions idx i n bud)) \<and>
   list_all (replaced_ok s regions) (fst (pass_loop F options s regions idx i n bud))"
proof (induction F options s regions idx i n bud rule: pass_loop.induct)
  case (1 F options s regions idx i n bud)
  note loop = pass_loop.simps [of F options s regions idx i n bud]
  show ?case
  proof (cases "find_from s i ''[[#'' = None \<or> n = 0")
    case True
    then show ?thesis
      by (cases "find_from s i ''[[#''") (auto simp: loop pass_loop.simps [of F options s regions idx i 0 bud])
  next
    case False
    then obtain fs where fs: "find_from s i ''[[#'' = Some fs" and n: "n \<noteq> 0" by auto
    have h: "has s fs ''[[#''" and ge: "i \<le> fs" using find_from_Some [OF fs] by auto
    obtain r bud' where x: "examine F options s regions idx fs bud = (r, bud')"
      by (cases "examine F options s regions idx fs bud")
    show ?thesis
    proof (cases r)
      case NotFound
      have "ordered_ranges s (fs + 3) (fst (pass_loop F options s regions idx (fs + 3) (n - 1) bud')) \<and>
          list_all (replaced_ok s regions) (fst (pass_loop F options s regions idx (fs + 3) (n - 1) bud'))"
        using "1.IH"(2) [OF fs n x [symmetric] NotFound "1.prems"] .
      with fs n x NotFound ge show ?thesis by (auto simp: loop intro: ordered_ranges_weaken)
    next
      case (Found q)
      obtain e v where q: "q = (e, v)" by (cases q)
      note ok = examine_ok [OF "1.prems"(1) h "1.prems"(2) x [unfolded Found q]]
      have "boundary s fs" using has_ascii_boundary [OF h] by (simp add: is_ascii_def)
      moreover have "ordered_ranges s e (fst (pass_loop F options s regions idx e (n - 1) bud')) \<and>
          list_all (replaced_ok s regions) (fst (pass_loop F options s regions idx e (n - 1) bud'))"
        using "1.IH"(1) [OF fs n x [symmetric] Found q [symmetric] "1.prems"] by simp
      moreover have "replaced_ok s regions ((fs, e), v)" using h ok by (simp add: replaced_ok_def)
      ultimately show ?thesis using fs n x ge ok(1-3) by (simp add: loop Found q)
    qed (use fs n x in \<open>simp add: loop\<close>)
  qed
qed

text \<open>The replacements of a document, the way the entry point collects them.\<close>

definition function_replacements ::
  "'f float_ops \<Rightarrow> zero_operator_policy \<Rightarrow> bytes \<Rightarrow> ((nat \<times> nat) \<times> bytes) list" where
  "function_replacements F options source =
     fst (pass_loop F options source (literal_regions_for_parser_functions source) (delimiter_index_new source) 0
       max_document_candidates (scan_budget_new (length source)))"

lemma resolve_replacements:
  "resolve_wikidot_parser_functions_with_options F source options =
   apply_replacements source (function_replacements F options source)"
  by (simp add: resolve_wikidot_parser_functions_with_options_def resolve_function_pass_def function_replacements_def)

lemma resolve_splices:
  assumes "valid_utf8 source" and "formats_ascii F"
  shows "resolve_wikidot_parser_functions_with_options F source options =
    Some (splice_to source 0 (length source) (function_replacements F options source))"
proof -
  note ok = pass_loop_ok [OF assms, of 0 options "literal_regions_for_parser_functions source" "delimiter_index_new source"
      max_document_candidates "scan_budget_new (length source)", folded function_replacements_def]
  have "list_all (\<lambda>r. head_ok (snd r)) (function_replacements F options source)"
    using ok by (auto simp: list_all_iff replaced_ok_def)
  with ok replace_all_splices [OF _ assms(1)] show ?thesis
    by (simp add: resolve_replacements apply_replacements_def)
qed

subsection \<open>The property\<close>

text \<open>An instance of the operations on numbers, for the witness: integers, printed as \<open>{:.12}\<close> does.\<close>

definition integer_ops :: "int float_ops" where
  "integer_ops =
     \<lparr>f_zero = 0, f_one = 1, f_tiny = 0, f_add = (+), f_sub = (-), f_mul = (*), f_div = (div), f_rem = (mod),
      f_pow = (\<lambda>x y. x ^ nat y), f_min = min, f_max = max, f_neg = uminus, f_abs = abs, f_trunc = id,
      f_eq = (=), f_lt = (<), f_le = (\<le>), f_is_finite = (\<lambda>x. True),
      f_parse = (\<lambda>s. Some (foldl (\<lambda>n c. 10 * n + (int (byte c) - 48)) 0 s)),
      f_scientific = (\<lambda>x. ''0.0E0''),
      f_fixed = (\<lambda>x. (if x < 0 then ''-'' else []) @ decimal (nat (abs x)) @ ''.000000000000'')\<rparr>"

lemma integer_ops_ascii: "formats_ascii integer_ops"
  using decimal_ascii by (auto simp: formats_ascii_def integer_ops_def is_ascii_def)

text \<open>
  C19: the pass over a document never panics: the ranges it replaces are disjoint, in order and cut
  at character boundaries, each starts at a \<open>[[#\<close> outside the literal regions, and the result is the
  source spliced once with their replacements.
\<close>

theorem parser_functions_splice:
  assumes "valid_utf8 source" and "formats_ascii F"
  shows "resolve_wikidot_parser_functions_with_options F source options =
      Some (splice_to source 0 (length source) (function_replacements F options source)) \<and>
    ordered_ranges source 0 (function_replacements F options source) \<and>
    list_all (\<lambda>((i, e), v). has source i ''[[#'' \<and> \<not> regions_contain (literal_regions_for_parser_functions source) i)
      (function_replacements F options source)"
proof -
  note ok = pass_loop_ok [OF assms, of 0 options "literal_regions_for_parser_functions source" "delimiter_index_new source"
      max_document_candidates "scan_budget_new (length source)", folded function_replacements_def]
  then have "list_all (\<lambda>((i, e), v). has source i ''[[#'' \<and> \<not> regions_contain (literal_regions_for_parser_functions source) i)
      (function_replacements F options source)"
    by (auto simp: list_all_iff replaced_ok_def)
  with ok resolve_splices [OF assms] show ?thesis by simp
qed

theorem parser_functions_splice_witness:
  "resolve_wikidot_parser_functions_with_options integer_ops ''a [[#expr 2+2]] b'' RuntimeError = Some ''a 4 b'' \<and>
   ordered_ranges ''a [[#expr 2+2]] b'' 0 (function_replacements integer_ops RuntimeError ''a [[#expr 2+2]] b'')"
proof -
  let ?s = "''a [[#expr 2+2]] b''"
  have "valid_utf8 ?s" by (rule ascii_valid) (simp add: is_ascii_def)
  note p = parser_functions_splice [OF this integer_ops_ascii, of RuntimeError]
  have "find_from ?s 0 ''[[#'' = Some 2" "find_from ?s 15 ''[[#'' = None" by code_simp+
  moreover have "classify_candidate ?s 2 = Some \<lparr>pc_body_start = 10, pc_kind = KExpr\<rparr>" by code_simp
  moreover have "\<not> regions_contain (literal_regions_for_parser_functions ?s) 2" by code_simp
  moreover have "fst (resolve_expression_candidate integer_ops RuntimeError ?s \<lparr>pc_body_start = 10, pc_kind = KExpr\<rparr>
      (scan_budget_new (length ?s))) = Found (15, ''4'')" by code_simp
  then obtain left where "resolve_expression_candidate integer_ops RuntimeError ?s \<lparr>pc_body_start = 10, pc_kind = KExpr\<rparr>
      (scan_budget_new (length ?s)) = (Found (15, ''4''), left)" by (metis surjective_pairing)
  ultimately have "function_replacements integer_ops RuntimeError ?s = [((2, 15), ''4'')]"
    by (simp add: function_replacements_def pass_loop.simps [of _ _ _ _ _ 0] pass_loop.simps [of _ _ _ _ _ 15]
        examine_def resolve_candidate_def max_document_candidates_def)
  then show ?thesis using p by (simp add: slice_def)
qed

end
