(* ===== verification/Function_Values.thy ===== *)
theory Function_Values
  imports Function_Pass
begin

text \<open>
  What a document with one \<open>[[#if]]\<close> resolves to: the branch that the condition selects.
\<close>

definition plain :: "bytes \<Rightarrow> bool" where
  "plain x \<longleftrightarrow> set x \<inter> {CHR ''['', CHR '']'', CHR ''|''} = {}"

lemma plain_Cons [simp]: "plain (c # x) \<longleftrightarrow> c \<noteq> CHR ''['' \<and> c \<noteq> CHR '']'' \<and> c \<noteq> CHR ''|'' \<and> plain x"
  by (auto simp: plain_def)

lemma plain_append [simp]: "plain (x @ y) \<longleftrightarrow> plain x \<and> plain y"
  by (auto simp: plain_def)

lemma plain_Nil [simp]: "plain []"
  by (simp add: plain_def)

lemma drop_Cons_nth: "drop i s = c # x \<Longrightarrow> i < length s \<and> s ! i = c \<and> drop (Suc i) s = x"
  by (metis Cons_nth_drop_Suc drop_all leI list.distinct(1) list.inject)

lemma has_head: "drop i s = c # x \<Longrightarrow> has s i (d # p) \<Longrightarrow> c = d"
  by (simp add: has_def)

lemma has_at: "s = p @ lit @ q \<Longrightarrow> i = length p \<Longrightarrow> has s i lit"
  by (simp add: has_def)

lemma drop_at: "s = p @ q \<Longrightarrow> i = length p \<Longrightarrow> drop i s = q"
  by simp

lemma slice_at: "s = p @ x @ q \<Longrightarrow> i = length p \<Longrightarrow> j = length p + length x \<Longrightarrow> slice s i j = x"
  by (simp add: slice_def)

lemma nth_at: "s = p @ x @ q \<Longrightarrow> length p \<le> k \<Longrightarrow> k < length p + length x \<Longrightarrow> s ! k \<in> set x"
proof -
  assume s: "s = p @ x @ q" and k: "length p \<le> k" "k < length p + length x"
  then have "k - length p < length x" by linarith
  with s k show ?thesis by (simp add: nth_append)
qed

lemma drop_length: "drop i s = x @ y \<Longrightarrow> y \<noteq> [] \<Longrightarrow> i + length x < length s"
proof -
  assume "drop i s = x @ y" "y \<noteq> []"
  then have "length s - i = length x + length y" "0 < length y" by (metis length_append length_drop, simp)
  then show ?thesis by linarith
qed

lemma delimiter_skip:
  "drop i s = x @ y \<Longrightarrow> y \<noteq> [] \<Longrightarrow> set x \<inter> {CHR ''['', CHR '']''} = {} \<Longrightarrow>
   delimiter_loop s i ops v = delimiter_loop s (i + length x) ops v"
proof (induction x arbitrary: i)
  case (Cons c x)
  then have d: "drop i s = c # (x @ y)" by simp
  note n = drop_Cons_nth [OF d]
  have "Suc i < length s" using drop_length [OF Cons.prems(1,2)] by simp
  then have "delimiter_loop s i ops v = delimiter_loop s (Suc i) ops v"
    using Cons.prems(3) has_head [OF d] by (auto simp: delimiter_loop.simps [of s i])
  with Cons.IH [of "Suc i"] n Cons.prems show ?case by simp
qed simp

lemma flat_skip:
  "drop i s = x @ y \<Longrightarrow> y \<noteq> [] \<Longrightarrow> plain x \<Longrightarrow> n \<le> max_parser_function_nesting \<Longrightarrow>
   find_flat_conditional_parts s b i seps n (length x + bud) = find_flat_conditional_parts s b (i + length x) seps n bud"
proof (induction x arbitrary: i)
  case (Cons c x)
  then have d: "drop i s = c # (x @ y)" by simp
  note m = drop_Cons_nth [OF d]
  have l: "Suc i < length s" using drop_length [OF Cons.prems(1,2)] by simp
  have "\<not> is_separator s i" using m Cons.prems(3) by (simp add: is_separator_def)
  with l have "find_flat_conditional_parts s b i seps n (length (c # x) + bud) =
      find_flat_conditional_parts s b (Suc i) seps n (length x + bud)"
    using Cons.prems(3,4) has_head [OF d] by (auto simp: Let_def find_flat_conditional_parts.simps [of s b i])
  with Cons.IH [of "Suc i"] m Cons.prems show ?case by simp
qed simp

lemma lower_open: "eq_ignore_ascii_case (c # x) (CHR ''['' # p) \<Longrightarrow> c = CHR ''[''"
  using byte_to_lower [of c]
  by (auto simp: eq_ignore_ascii_case_def to_ascii_lowercase_def to_lower_def is_upper_def split: if_splits)

lemma crossing_head: "is_crossing_link_opener t \<Longrightarrow> CHR ''['' \<in> set t"
  by (cases t) (auto simp: is_crossing_link_opener_def dest!: lower_open)

lemma contains_link_skip:
  "list_all (\<lambda>k. s ! k \<noteq> CHR ''['') [i..<e] \<Longrightarrow> e \<le> length s \<Longrightarrow> e \<le> i + bud \<Longrightarrow>
   \<exists>bud'. contains_link s i e bud = (Found False, bud') \<and> bud \<le> bud' + (e - i)"
proof (induction s i e bud rule: contains_link.induct)
  case (1 s i e bud)
  show ?case
  proof (cases "i + 1 < e")
    case True
    then have "s ! i \<noteq> CHR ''[''" "i < length s" "bud \<noteq> 0" using "1.prems" by (simp_all add: list_all_iff)
    then have no: "\<not> is_crossing_link_opener (drop i s)"
      by (cases "drop i s")
        (auto simp: is_crossing_link_opener_def dest!: lower_open dest: drop_Cons_nth)
    have "list_all (\<lambda>k. s ! k \<noteq> CHR ''['') [i + 1..<e]" using "1.prems"(1) by (simp add: list_all_iff)
    moreover have "e \<le> i + 1 + (bud - 1)" using "1.prems"(3) \<open>bud \<noteq> 0\<close> by simp
    ultimately obtain bud' where "contains_link s (i + 1) e (bud - 1) = (Found False, bud')" "bud - 1 \<le> bud' + (e - (i + 1))"
      using "1.IH" [OF True \<open>bud \<noteq> 0\<close> _ _ "1.prems"(2)] no by blast
    with True no \<open>bud \<noteq> 0\<close> show ?thesis by (auto simp: contains_link.simps [of s i])
  qed (simp add: contains_link.simps [of s i])
qed

lemma flat_skip_to:
  "s = p @ x @ y \<Longrightarrow> i = length p \<Longrightarrow> y \<noteq> [] \<Longrightarrow> plain x \<Longrightarrow> n \<le> max_parser_function_nesting \<Longrightarrow> j = i + length x \<Longrightarrow>
   B = length x + bud \<Longrightarrow>
   find_flat_conditional_parts s b i seps n B = find_flat_conditional_parts s b j seps n bud"
  by (simp add: flat_skip)

lemma separator_step:
  assumes "s = p @ c # CHR ''|'' # d # q" and "c \<in> blanks" and "d \<in> blanks" and "q \<noteq> []" and "n \<le> max_parser_function_nesting"
    and "k = length p + 1" and "B = Suc bud"
  shows "find_flat_conditional_parts s b k seps n B =
    find_flat_conditional_parts s b (k + 1)
      (case seps of None \<Rightarrow> Some (k, k, 1) | Some (f, l, m) \<Rightarrow> Some (f, k, m + 1)) n bud"
proof -
  have s: "is_separator s k" using assms(2,3) by (simp add: is_separator_def assms(1,6) nth_append get_def)
  have d: "drop k s = CHR ''|'' # d # q" by (simp add: assms(1,6))
  have "\<not> has s k '']]''" "\<not> has s k ''[[#''" using has_head [OF d] by auto
  moreover have "k + 1 < length s" using assms(4) by (cases q) (simp_all add: assms(1,6))
  ultimately show ?thesis
    using s assms(5) by (subst find_flat_conditional_parts.simps) (simp add: Let_def assms(7))
qed

text \<open>The document: one conditional with both branches.\<close>

definition if_document :: "bytes \<Rightarrow> bytes \<Rightarrow> bytes \<Rightarrow> bytes" where
  "if_document c a b = ''[[#if '' @ c @ '' | '' @ a @ '' | '' @ b @ '']]''"

lemma if_document_length: "length (if_document c a b) = length c + length a + length b + 14"
  by (simp add: if_document_def)

lemma if_document_flat:
  assumes "plain c" and "plain a" and "plain b"
  shows "find_flat_conditional_parts (if_document c a b) 6 6 None 0 (length c + length a + length b + 7 + bud) =
    (Found \<lparr>fp_end = length (if_document c a b), fp_condition = (6, length c + 7),
            fp_when_true = Some (length c + 8, length c + length a + 10),
            fp_when_false = Some (length c + length a + 11, length c + length a + length b + 12)\<rparr>, bud)"
proof -
  let ?s = "if_document c a b"
  let ?k = "length c + 7" and ?l = "length c + length a + 10" and ?e = "length c + length a + length b + 12"
  have n: "0 \<le> max_parser_function_nesting" by simp
  have bl: "CHR '' '' \<in> blanks" by (simp add: blanks_def)
  have "find_flat_conditional_parts ?s 6 6 None 0 (length c + length a + length b + 7 + bud) =
      find_flat_conditional_parts ?s 6 ?k None 0 (length a + length b + 6 + bud)"
    by (rule flat_skip_to [of ?s "''[[#if ''" "c @ '' ''" "''| '' @ a @ '' | '' @ b @ '']]''", OF _ _ _ _ n])
      (use assms in \<open>simp_all add: if_document_def\<close>)
  also have "\<dots> = find_flat_conditional_parts ?s 6 (?k + 1) (Some (?k, ?k, 1)) 0 (length a + length b + 5 + bud)"
    using separator_step [of ?s "''[[#if '' @ c" "CHR '' ''" "CHR '' ''" "a @ '' | '' @ b @ '']]''" 0 ?k
        "length a + length b + 6 + bud" "length a + length b + 5 + bud" 6 None, OF _ bl bl _ n]
    by (simp add: if_document_def)
  also have "\<dots> = find_flat_conditional_parts ?s 6 ?l (Some (?k, ?k, 1)) 0 (length b + 3 + bud)"
    by (rule flat_skip_to [of ?s "''[[#if '' @ c @ '' |''" "'' '' @ a @ '' ''" "''| '' @ b @ '']]''", OF _ _ _ _ n])
      (use assms in \<open>simp_all add: if_document_def\<close>)
  also have "\<dots> = find_flat_conditional_parts ?s 6 (?l + 1) (Some (?k, ?l, 2)) 0 (length b + 2 + bud)"
    using separator_step [of ?s "''[[#if '' @ c @ '' | '' @ a" "CHR '' ''" "CHR '' ''" "b @ '']]''" 0 ?l
        "length b + 3 + bud" "length b + 2 + bud" 6 "Some (?k, ?k, 1)", OF _ bl bl _ n]
    by (simp add: if_document_def numeral_2_eq_2)
  also have "\<dots> = find_flat_conditional_parts ?s 6 ?e (Some (?k, ?l, 2)) 0 (Suc bud)"
    by (rule flat_skip_to [of ?s "''[[#if '' @ c @ '' | '' @ a @ '' |''" "'' '' @ b" "'']]''", OF _ _ _ _ n])
      (use assms in \<open>simp_all add: if_document_def\<close>)
  also have "\<dots> = (Found (flat_parts_at 6 ?e (Some (?k, ?l, 2))), bud)"
  proof -
    have "has ?s ?e '']]''"
      by (rule has_at [of _ "''[[#if '' @ c @ '' | '' @ a @ '' | '' @ b" _ "[]"]) (simp_all add: if_document_def)
    then show ?thesis by (subst find_flat_conditional_parts.simps) (simp add: if_document_length)
  qed
  finally show ?thesis by (simp add: flat_parts_at_def if_document_length)
qed

text \<open>The opener of the document is matched, so the index has no unmatched one.\<close>

lemma if_document_matched:
  assumes "plain c" and "plain a" and "plain b"
  shows "delimiter_index_new (if_document c a b) = \<lparr>unmatched_openers = [], overflowed = False\<rparr>"
proof -
  let ?s = "if_document c a b"
  let ?x = "''#if '' @ c @ '' | '' @ a @ '' | '' @ b"
  have s: "?s = ''[['' @ ?x @ '']]''" by (simp add: if_document_def)
  have u: "set ?x \<inter> {CHR ''['', CHR '']''} = {}" using assms by (auto simp: plain_def)
  have "delimiter_loop ?s 0 [] False = delimiter_loop ?s 2 [0] False"
    by (subst delimiter_loop.simps) (simp add: s has_def numeral_2_eq_2 max_unmatched_delimiters_def max_document_candidates_def)
  also have "\<dots> = delimiter_loop ?s (2 + length ?x) [0] False"
    by (rule delimiter_skip [OF _ _ u, of 2 ?s "'']]''"]) (simp_all add: s)
  also have "\<dots> = delimiter_loop ?s (length ?s) [] False"
  proof -
    have d: "drop (2 + length ?x) ?s = '']]''"
      by (rule drop_at [of _ "''[['' @ ?x"]) (simp_all add: if_document_def)
    then have "has ?s (2 + length ?x) '']]''" "\<not> has ?s (2 + length ?x) ''[[''"
      by (simp_all add: has_def if_document_length)
    moreover have "2 + length ?x + 2 = length ?s" by (simp add: if_document_length)
    ultimately show ?thesis
      by (subst delimiter_loop.simps) (simp only: add_less_cancel_left flip: \<open>2 + length ?x + 2 = length ?s\<close>, simp)
  qed
  also have "\<dots> = \<lparr>unmatched_openers = [], overflowed = False\<rparr>" by (simp add: delimiter_loop.simps)
  finally show ?thesis by (simp add: delimiter_index_new_def)
qed

lemma if_document_classified:
  "classify_candidate (if_document c a b) 0 = Some \<lparr>pc_body_start = 6, pc_kind = KIf\<rparr>"
proof -
  let ?s = "if_document c a b"
  have "?s ! 3 = CHR ''i''" "?s ! 4 = CHR ''f''" "?s ! 5 = CHR '' ''" by (simp_all add: if_document_def)
  then have "scan_while is_alnum ?s 3 = 5"
    by (simp add: scan_while.simps [of _ _ 3] scan_while.simps [of _ _ 4] scan_while.simps [of _ _ 5]
        if_document_length ascii_defs)
  moreover have "get ?s 5 = Some (CHR '' '')" "slice ?s 3 5 = ''if''"
    by (simp_all add: if_document_def get_def slice_def)
  ultimately show ?thesis by (simp add: classify_candidate_def blanks_def)
qed

lemma trim_spaces_before: "trim_spaces (CHR '' '' # x) = trim_spaces x"
  by (simp add: trim_spaces_def trim_start_set_def)

lemma trim_spaces_after: "trim_spaces (x @ '' '') = trim_spaces x"
proof (cases "\<forall>c \<in> set x. c = CHR '' ''")
  case True
  then have "dropWhile (\<lambda>c. c = CHR '' '') (x @ '' '') = []" "dropWhile (\<lambda>c. c = CHR '' '') x = []" by simp_all
  then show ?thesis by (simp add: trim_spaces_def trim_start_set_def del: dropWhile_eq_Nil_conv)
next
  case False
  then obtain c where "c \<in> set x" "c \<noteq> CHR '' ''" by blast
  then have "dropWhile (\<lambda>c. c = CHR '' '') (x @ '' '') = dropWhile (\<lambda>c. c = CHR '' '') x @ '' ''" by (rule dropWhile_append1)
  then show ?thesis by (simp add: trim_spaces_def trim_start_set_def trim_end_set_def)
qed

lemma no_residual:
  assumes "CHR ''['' \<notin> set v"
  shows "recover_branch_residual s e v bud = (None, bud)"
proof -
  have "strip_prefix (CHR ''['' # p) v = None" for p
    using assms by (cases v) (auto simp: strip_prefix_def)
  then show ?thesis by (simp add: recover_branch_residual_def)
qed

lemma trim_spaces_subset: "set (trim_spaces x) \<subseteq> set x"
  unfolding trim_spaces_def trim_start_set_def trim_end_set_def
  by (metis set_dropWhileD set_rev subsetI)

lemma if_document_linkless:
  assumes "plain c" and "plain a" and "plain b" and "length (if_document c a b) \<le> bud"
  shows "\<exists>bud'. contains_link (if_document c a b) 6 (length (if_document c a b) - 2) bud = (Found False, bud')"
proof -
  let ?s = "if_document c a b"
  let ?x = "c @ '' | '' @ a @ '' | '' @ b"
  have s: "?s = ''[[#if '' @ ?x @ '']]''" by (simp add: if_document_def)
  have "?s ! k \<noteq> CHR ''[''" if "6 \<le> k" "k < length ?s - 2" for k
  proof -
    have "k < length ''[[#if '' + length ?x" using that by (simp add: if_document_length)
    with that have "?s ! k \<in> set ?x" by (intro nth_at [OF s]) simp_all
    moreover have "CHR ''['' \<notin> set ?x" using assms(1-3) by (auto simp: plain_def)
    ultimately show ?thesis by metis
  qed
  then have l: "list_all (\<lambda>k. ?s ! k \<noteq> CHR ''['') [6..<length ?s - 2]" by (simp add: list_all_iff)
  have "length ?s - 2 \<le> 6 + bud" "length ?s - 2 \<le> length ?s" using assms(4) by linarith+
  from contains_link_skip [OF l this(2,1)] show ?thesis by auto
qed

lemma if_document_value:
  fixes c a b :: bytes
  defines "s \<equiv> if_document c a b"
  assumes "plain c" and "plain a" and "plain b" and "2 * length s \<le> bud"
  shows "\<exists>bud'. resolve_conditional_candidate F options s \<lparr>pc_body_start = 6, pc_kind = KIf\<rparr> idx bud =
    (Found (length s, trim_spaces (if simple_condition (c @ '' '') then a else b)), bud')"
proof -
  let ?x = "trim_spaces (if simple_condition (c @ '' '') then a else b)"
  let ?flat = "\<lparr>fp_end = length s, fp_condition = (6, length c + 7),
            fp_when_true = Some (length c + 8, length c + length a + 10),
            fp_when_false = Some (length c + length a + 11, length c + length a + length b + 12)\<rparr>"
  have len: "length s = length c + length a + length b + 14" by (simp add: s_def if_document_length)
  define r where "r = bud - (length c + length a + length b + 7)"
  have bud: "bud = length c + length a + length b + 7 + r" using assms(5) len by (simp add: r_def)
  have flat: "find_flat_conditional_parts s 6 6 None 0 bud = (Found ?flat, r)"
    unfolding bud s_def by (rule if_document_flat [OF assms(2-4)])
  have "length s \<le> r" using assms(5) len by (simp add: r_def)
  then obtain bud' where link: "contains_link s 6 (length s - 2) r = (Found False, bud')"
    using if_document_linkless [OF assms(2-4), of r] by (auto simp: s_def)
  have slices: "slice s 6 (length c + 7) = c @ '' ''" "slice s (length c + 8) (length c + length a + 10) = '' '' @ a @ '' ''"
      "slice s (length c + length a + 11) (length c + length a + length b + 12) = '' '' @ b"
    by (auto simp: s_def if_document_def intro: slice_at [of _ "''[[#if ''"] slice_at [of _ "''[[#if '' @ c @ '' |''"]
        slice_at [of _ "''[[#if '' @ c @ '' | '' @ a @ '' |''"])
  have "CHR ''['' \<notin> set (CHR '' '' # a @ '' '')" using assms(3) by (simp add: plain_def)
  then have "\<not> is_crossing_link_opener (trim_start_set blanks ('' '' @ a @ '' ''))"
    using crossing_head by (auto simp: trim_start_set_def dest!: crossing_head set_dropWhileD)
  then have no: "\<not> is_crossing_link_opener (trim_start_set blanks (range_of s (length c + 8, length c + length a + 10)))"
    by (simp add: range_of_def slices)
  have v: "branch_replacement s True p t = trim_spaces (if t then a else b)"
    if "cp_when_true p = (length c + 8, length c + length a + 10)"
      "cp_when_false p = Some (length c + length a + 11, length c + length a + length b + 12)" for p t
    using that slices trim_spaces_after [of "CHR '' '' # a"]
    by (simp add: branch_replacement_def range_of_def trim_spaces_before)
  have "CHR ''['' \<notin> set ?x" using trim_spaces_subset assms(3,4) by (auto simp: plain_def)
  note res = no_residual [OF this]
  show ?thesis
    using flat link no res slices
    by (simp add: resolve_conditional_candidate_def select_parts_def condition_truth_def finish_conditional_def v range_of_def)
qed

subsection \<open>The property\<close>

text \<open>
  C20: a document that is one \<open>[[#if c | a | b]]\<close> of text without brackets and bars, outside literal
  regions, resolves to its first branch when the condition is true and to its second when not,
  without the spaces around the branch.
\<close>

theorem if_selects_branch:
  assumes "plain c" and "plain a" and "plain b"
    and "\<not> regions_contain (literal_regions_for_parser_functions (if_document c a b)) 0"
  shows "resolve_wikidot_parser_functions_with_options F (if_document c a b) options =
    Some (trim_spaces (if simple_condition (c @ '' '') then a else b))"
proof -
  let ?s = "if_document c a b" and ?v = "trim_spaces (if simple_condition (c @ '' '') then a else b)"
  let ?regions = "literal_regions_for_parser_functions ?s"
  let ?bud = "scan_budget_new (length ?s)"
  have start: "find_from ?s 0 ''[[#'' = Some 0" by (simp add: find_from_def if_document_def)
  have fin: "find_from ?s (length ?s) ''[[#'' = None" by (simp add: find_from_def)
  have "2 * length ?s \<le> ?bud" by (simp add: scan_budget_new_def max_conditional_scan_multiplier_def)
  from if_document_value [OF assms(1-3) this] obtain bud' where
    r: "resolve_conditional_candidate F options ?s \<lparr>pc_body_start = 6, pc_kind = KIf\<rparr>
      \<lparr>unmatched_openers = [], overflowed = False\<rparr> ?bud = (Found (length ?s, ?v), bud')" by blast
  have "examine F options ?s ?regions \<lparr>unmatched_openers = [], overflowed = False\<rparr> 0 ?bud = (Found (length ?s, ?v), bud')"
    using assms(4) r by (simp add: examine_def if_document_classified resolve_candidate_def is_unmatched_opener_def)
  then have "function_replacements F options ?s = [((0, length ?s), ?v)]"
    using start fin if_document_matched [OF assms(1-3)]
    by (simp add: function_replacements_def pass_loop.simps [of _ _ _ _ _ 0] pass_loop.simps [of _ _ _ _ _ "length ?s"]
        max_document_candidates_def)
  then show ?thesis
    by (simp add: resolve_replacements apply_replacements_def replace_range_def)
qed

theorem if_selects_branch_witness:
  "resolve_wikidot_parser_functions_with_options integer_ops ''[[#if 0 | hidden | shown]]'' RuntimeError = Some ''shown''"
proof -
  have "\<not> regions_contain (literal_regions_for_parser_functions (if_document ''0'' ''hidden'' ''shown'')) 0" by code_simp
  from if_selects_branch [OF _ _ _ this, of integer_ops RuntimeError]
  have "resolve_wikidot_parser_functions_with_options integer_ops (if_document ''0'' ''hidden'' ''shown'') RuntimeError =
    Some (trim_spaces (if simple_condition (''0'' @ '' '') then ''hidden'' else ''shown''))" by simp
  moreover have "trim_spaces (if simple_condition (''0'' @ '' '') then ''hidden'' else ''shown'') = ''shown''" by code_simp
  moreover have "if_document ''0'' ''hidden'' ''shown'' = ''[[#if 0 | hidden | shown]]''" by (simp add: if_document_def)
  ultimately show ?thesis by simp
qed

end
