(* ===== verification/Calendar.thy ===== *)
theory Calendar
  imports Prelude "HOL-Library.Signed_Division"
begin

text \<open>
  \<open>DateItem::format_timestamp\<close> of \<open>src/src/tree/date/mod.rs\<close>: how a Unix timestamp outside the range of
  the calendar library is printed.  The specification is the proleptic Gregorian calendar: leap
  years, lengths of months and the number of days before a year.
\<close>

subsection \<open>The program\<close>

text \<open>
  Integers are \<open>i64\<close> in the program; \<open>civil_fits\<close> shows that no step leaves their range, so they are \<open>int\<close>
  here.  \<open>/\<close> truncates (\<open>sdiv\<close>); \<open>div_euclid\<close> and \<open>rem_euclid\<close> by a positive number are \<open>div\<close> and \<open>mod\<close>.
\<close>

definition era_of :: "int \<Rightarrow> int" where
  "era_of z = (if z \<ge> 0 then z sdiv 146097 else (z - 146096) sdiv 146097)"

definition year_of_era :: "int \<Rightarrow> int" where
  "year_of_era doe = (doe - doe sdiv 1460 + doe sdiv 36524 - doe sdiv 146096) sdiv 365"

definition civil_from_days :: "int \<Rightarrow> int \<times> int \<times> int" where
  "civil_from_days days =
     (let z = days + 719468;
          era = era_of z;
          day_of_era = z - era * 146097;
          yoe = year_of_era day_of_era;
          year = yoe + era * 400;
          day_of_year = day_of_era - (365 * yoe + yoe sdiv 4 - yoe sdiv 100);
          month_prime = (5 * day_of_year + 2) sdiv 153;
          day = day_of_year - (153 * month_prime + 2) sdiv 5 + 1;
          month = (if month_prime < 10 then month_prime + 3 else month_prime - 9);
          year = (if month \<le> 2 then year + 1 else year)
      in (year, month, day))"

subsection \<open>The calendar\<close>

definition leap_year :: "int \<Rightarrow> bool" where
  "leap_year y \<longleftrightarrow> 4 dvd y \<and> (\<not> 100 dvd y \<or> 400 dvd y)"

definition days_in_month :: "int \<Rightarrow> int \<Rightarrow> int" where
  "days_in_month y m =
     (if m = 2 then (if leap_year y then 29 else 28) else if m \<in> {4, 6, 9, 11} then 30 else 31)"

definition valid_date :: "int \<times> int \<times> int \<Rightarrow> bool" where
  "valid_date date \<longleftrightarrow>
     (case date of (y, m, d) \<Rightarrow> 1 \<le> m \<and> m \<le> 12 \<and> 1 \<le> d \<and> d \<le> days_in_month y m)"

text \<open>The days before a year, counted from the first of January of the year 1, and before a month.\<close>

definition days_before_year :: "int \<Rightarrow> int" where
  "days_before_year y = 365 * (y - 1) + (y - 1) div 4 - (y - 1) div 100 + (y - 1) div 400"

definition days_before_month :: "int \<Rightarrow> int \<Rightarrow> int" where
  "days_before_month y m = sum_list (map (days_in_month y) [1..m - 1])"

text \<open>The days from the first of January 1970.\<close>

definition day_number :: "int \<times> int \<times> int \<Rightarrow> int" where
  "day_number date =
     (case date of (y, m, d) \<Rightarrow>
        days_before_year y - days_before_year 1970 + days_before_month y m + d - 1)"

lemma days_before_first_year: "days_before_year 1 = 0"
  by (simp add: days_before_year_def)

lemma div_next: "0 < k \<Longrightarrow> (z + 1) div k = z div k + of_bool (k dvd z + (1::int))"
proof -
  assume k: "0 < k"
  have z: "z + 1 = k * ((z + 1) div k) + (z + 1) mod k" by simp
  have r: "0 \<le> (z + 1) mod k" "(z + 1) mod k < k" using k by simp_all
  show ?thesis
  proof (cases "k dvd z + 1")
    case True
    then have "k * ((z + 1) div k - 1) + (k - 1) = z" by (simp add: right_diff_distrib)
    then have "z div k = (z + 1) div k - 1" using k by (intro int_div_pos_eq [of _ _ _ "k - 1"]) simp_all
    with True show ?thesis by simp
  next
    case False
    then have "(z + 1) mod k \<noteq> 0" by (simp add: dvd_eq_mod_eq_0)
    with r have "0 < (z + 1) mod k" by linarith
    then have "z div k = (z + 1) div k"
      using z r by (intro int_div_pos_eq [of _ _ _ "(z + 1) mod k - 1"]) linarith+
    with False show ?thesis by simp
  qed
qed

lemma day_sums:
  "365 * ((z + 1)::int) + (a + i) - (b + j) + (c + k) = (365 * z + a - b + c) + 365 + i - j + k"
  "(d + 1::int) - (a + i) + (b + j) - (c + k) = (d - a + b - c) + 1 - i + j - k"
  by simp_all

lemma leap_sum:
  "(q \<Longrightarrow> p) \<Longrightarrow> (r \<Longrightarrow> q) \<Longrightarrow>
   D + 365 + of_bool p - of_bool q + of_bool r = D + (if p \<and> (\<not> q \<or> r) then 366 else (365::int))"
  by (cases p; cases q; cases r) simp_all

lemma days_before_next_year: "days_before_year (y + 1) = days_before_year y + (if leap_year y then 366 else 365)"
proof -
  have m: "400 dvd y \<Longrightarrow> 100 dvd y" "100 dvd y \<Longrightarrow> 4 dvd y"
    using dvd_trans [of 100 400 y] dvd_trans [of 4 100 y] by simp_all
  have e: "y + 1 - 1 = (y - 1) + 1" by simp
  have "days_before_year (y + 1) = days_before_year y + 365 + of_bool (4 dvd y - 1 + 1) - of_bool (100 dvd y - 1 + 1) +
      of_bool (400 dvd y - 1 + 1)"
    unfolding days_before_year_def e div_next [OF zero_less_numeral] by (rule day_sums)
  also have "y - 1 + 1 = y" by simp
  finally show ?thesis unfolding leap_year_def by (simp only: leap_sum [OF m(2) m(1)])
qed

lemma months_of_year: "days_before_month y 13 = (if leap_year y then 366 else 365)"
  by (simp add: days_before_month_def upto.simps days_in_month_def)

subsection \<open>The computation is right\<close>

lemma sdiv_pos: "0 \<le> a \<Longrightarrow> 0 < b \<Longrightarrow> (a::int) sdiv b = a div b"
  by (cases "a = 0") (simp_all add: signed_divide_int_def)

lemma era_floor: "era_of z = z div 146097"
proof (cases "z \<ge> 0")
  case False
  let ?q = "z div 146097" and ?r = "z mod 146097"
  have r: "0 \<le> ?r" "?r < 146097" and z: "z = 146097 * ?q + ?r" by simp_all
  have "(z - 146096) sdiv 146097 = - ((146096 - z) div 146097)"
    using False by (simp add: signed_divide_int_def)
  also have "(146096 - z) div 146097 = - ?q"
    by (rule int_div_pos_eq [of _ _ _ "146096 - ?r"]) (use r z in linarith)+
  finally show ?thesis using False by (simp add: era_of_def)
qed (simp add: era_of_def sdiv_pos)

text \<open>The days of an era before its year \<open>y\<close>, the years starting in March.\<close>

definition era_days :: "int \<Rightarrow> int" where
  "era_days y = 365 * y + y div 4 - y div 100"

definition yoe_steps :: "int \<Rightarrow> int" where
  "yoe_steps doe = doe - doe div 1460 + doe div 36524 - doe div 146096"

lemma yoe_steps_step: "yoe_steps d \<le> yoe_steps (d + 1)"
proof -
  have "146096 dvd d + 1 \<Longrightarrow> 36524 dvd d + 1" using dvd_trans [of 36524 146096 "d + 1"] by simp
  moreover have "yoe_steps (d + 1) = yoe_steps d + 1 - of_bool (1460 dvd d + 1) + of_bool (36524 dvd d + 1) - of_bool (146096 dvd d + 1)"
    unfolding yoe_steps_def div_next [OF zero_less_numeral] by (rule day_sums)
  ultimately show ?thesis by (auto simp: of_bool_def)
qed

lemma yoe_steps_mono:
  assumes "0 \<le> a" and "a \<le> b"
  shows "yoe_steps a \<le> yoe_steps b"
  using assms(2)
proof (induction b rule: int_ge_induct)
  case (step b)
  with yoe_steps_step [of b] assms(1) show ?case by simp
qed simp

lemma year_of_era_steps: "0 \<le> doe \<Longrightarrow> year_of_era doe = yoe_steps doe div 365"
proof -
  assume d: "0 \<le> doe"
  then have "0 \<le> yoe_steps doe" using yoe_steps_mono [of 0 doe] by (simp add: yoe_steps_def)
  with d show ?thesis by (simp add: year_of_era_def yoe_steps_def sdiv_pos)
qed

lemma le_div: "0 < k \<Longrightarrow> k * q \<le> a \<Longrightarrow> q \<le> a div (k::int)"
  using zdiv_mono1 [of "k * q" a k] by simp

lemma div_le: "0 < k \<Longrightarrow> a < k * q + k \<Longrightarrow> a div (k::int) \<le> q"
proof -
  assume k: "0 < k" "a < k * q + k"
  have "k * (a div k) \<le> a" using k(1) by (simp add: minus_mod_eq_mult_div [symmetric])
  with k have "k * (a div k) < k * (q + 1)" by (simp add: distrib_left)
  with k(1) show ?thesis by (simp add: mult_less_cancel_left)
qed

lemma div_bounds: "0 < k \<Longrightarrow> k * (a div k) \<le> a \<and> a < k * (a div k) + (k::int)"
  using mult_div_mod_eq [of k a] pos_mod_sign [of k a] pos_mod_bound [of k a] by linarith

lemma era_year_start:
  assumes "0 \<le> y" and "y \<le> 399"
  shows "365 * y \<le> yoe_steps (era_days y)" and "0 < y \<Longrightarrow> yoe_steps (era_days y - 1) < 365 * y"
proof -
  define a c where "a = y div 4" and "c = y div 100"
  define D where "D = 365 * y + a - c"
  have D: "era_days y = D" by (simp add: era_days_def D_def a_def c_def)
  have f: "4 * a \<le> y" "y < 4 * a + 4" "100 * c \<le> y" "y < 100 * c + 100"
    using div_bounds [of 4 y] div_bounds [of 100 y] by (simp_all add: a_def c_def)
  then have g: "0 \<le> c" "0 \<le> a" "a \<le> 99" "25 * c \<le> a" "a < 25 * c + 25" using assms by linarith+
  have "y \<le> 4 * a + 3" using f by linarith
  then have "D div 1460 \<le> a" by (intro div_le) (use f g D_def in linarith)+
  moreover have "c \<le> D div 36524" by (rule le_div) (use f g D_def in linarith)+
  moreover have "D div 146096 \<le> 0" by (rule div_le) (use f g assms(2) D_def in linarith)+
  ultimately have "D \<le> yoe_steps D + a - c" unfolding yoe_steps_def by linarith
  then show "365 * y \<le> yoe_steps (era_days y)" unfolding D unfolding D_def by linarith
  assume "0 < y"
  then have h: "c < a \<or> a = 0 \<and> c = 0" using g by linarith
  then have "a \<le> (D - 1) div 1460" by (intro le_div) (use f g \<open>0 < y\<close> D_def in linarith)+
  moreover have "(D - 1) div 36524 \<le> c" by (rule div_le) (use f g D_def in linarith)+
  moreover have "0 \<le> (D - 1) div 146096" by (rule le_div) (use f g \<open>0 < y\<close> D_def in linarith)+
  ultimately have "yoe_steps (D - 1) \<le> D - 1 - a + c" unfolding yoe_steps_def by linarith
  then show "yoe_steps (era_days y - 1) < 365 * y" unfolding D unfolding D_def by linarith
qed

lemma era_days_step: "era_days (y + 1) = era_days y + 365 + of_bool (4 dvd y + 1) - of_bool (100 dvd y + 1)"
  using day_sums(1) [of y "y div 4" _ "y div 100" _ 0 0]
  unfolding era_days_def div_next [OF zero_less_numeral] by simp

lemma year_of_era_spec:
  assumes "0 \<le> doe" and "doe < 146097"
  shows "0 \<le> year_of_era doe" and "year_of_era doe \<le> 399" and "era_days (year_of_era doe) \<le> doe"
    and "doe < era_days (year_of_era doe + 1) \<or> year_of_era doe = 399"
proof -
  define Y where "Y = year_of_era doe"
  have ends: "yoe_steps 0 = 0" "yoe_steps 146096 = 145999" "era_days 0 = 0" by code_simp+
  have Y: "Y = yoe_steps doe div 365" using year_of_era_steps [OF assms(1)] by (simp add: Y_def)
  have steps: "0 \<le> yoe_steps doe" "yoe_steps doe \<le> 145999"
    using yoe_steps_mono [of 0 doe] yoe_steps_mono [of doe 146096] assms ends by simp_all
  have bounds: "365 * Y \<le> yoe_steps doe" "yoe_steps doe < 365 * Y + 365" using div_bounds [of 365 "yoe_steps doe"] Y by simp_all
  then have range: "0 \<le> Y" "Y \<le> 399" using steps by linarith+
  then show "0 \<le> year_of_era doe" "year_of_era doe \<le> 399" by (simp_all add: Y_def)
  show "era_days (year_of_era doe) \<le> doe"
  proof (rule ccontr)
    assume "\<not> era_days (year_of_era doe) \<le> doe"
    then have less: "doe \<le> era_days Y - 1" by (simp add: Y_def)
    with assms(1) ends(3) have "Y \<noteq> 0" by auto
    with range era_year_start(2) [of Y] have "yoe_steps (era_days Y - 1) < 365 * Y" by linarith
    with yoe_steps_mono [OF assms(1) less] bounds(1) show False by linarith
  qed
  show "doe < era_days (year_of_era doe + 1) \<or> year_of_era doe = 399"
  proof (rule ccontr)
    assume "\<not> (doe < era_days (year_of_era doe + 1) \<or> year_of_era doe = 399)"
    then have le: "era_days (Y + 1) \<le> doe" and Y: "Y + 1 \<le> 399" using range by (auto simp: Y_def)
    have "era_days 0 \<le> era_days (Y + 1)"
      unfolding era_days_def using range div_bounds [of 4 "Y + 1"] div_bounds [of 100 "Y + 1"] by simp
    with ends(3) have "0 \<le> era_days (Y + 1)" by simp
    from yoe_steps_mono [OF this le] era_year_start(1) [OF _ Y] range(1) bounds(2)
    show False by (simp add: distrib_left)
  qed
qed

lemma day_of_year_range:
  assumes "0 \<le> doe" and "doe < 146097"
  defines "Y \<equiv> year_of_era doe"
  shows "0 \<le> doe - era_days Y" and "doe - era_days Y \<le> 365"
    and "doe - era_days Y = 365 \<Longrightarrow> leap_year (Y + 400 * e + 1)"
proof -
  note y = year_of_era_spec [OF assms(1,2), folded Y_def]
  show "0 \<le> doe - era_days Y" using y(3) by simp
  have last_year: "era_days 399 = 145731" by code_simp
  have step: "doe < era_days Y + 365 + of_bool (4 dvd Y + 1) - of_bool (100 dvd Y + 1)" if "Y \<noteq> 399"
    using y(4) that era_days_step [of Y] by simp
  show "doe - era_days Y \<le> 365"
  proof (cases "Y = 399")
    case False
    have "of_bool (4 dvd Y + 1) - of_bool (100 dvd Y + 1) \<le> (1::int)" by (simp add: of_bool_def)
    with step [OF False] show ?thesis by linarith
  qed (use assms(2) last_year in simp)
  assume full: "doe - era_days Y = 365"
  have e: "Y + 400 * e + 1 = Y + 1 + 4 * (100 * e)" "Y + 400 * e + 1 = Y + 1 + 100 * (4 * e)" "Y + 400 * e + 1 = Y + 1 + 400 * e"
    by simp_all
  have "4 dvd Y + 400 * e + 1 \<longleftrightarrow> 4 dvd Y + 1" unfolding e(1) by (rule dvd_add_left_iff) simp
  moreover have "100 dvd Y + 400 * e + 1 \<longleftrightarrow> 100 dvd Y + 1" unfolding e(2) by (rule dvd_add_left_iff) simp
  moreover have "400 dvd Y + 400 * e + 1 \<longleftrightarrow> 400 dvd Y + 1" unfolding e(3) by (rule dvd_add_left_iff) simp
  moreover have "4 dvd Y + 1 \<and> \<not> 100 dvd Y + 1" if "Y \<noteq> 399"
    using step [OF that] full by (auto simp: of_bool_def split: if_splits)
  moreover have "4 dvd Y + 1 \<and> 400 dvd Y + 1" if "Y = 399" unfolding that by simp
  ultimately show "leap_year (Y + 400 * e + 1)" unfolding leap_year_def by blast
qed

text \<open>The months of a year that starts in March: \<open>mp\<close> counts from March.\<close>

definition march_month_days :: "int \<Rightarrow> int" where
  "march_month_days mp = (if mp = 11 then 29 else if mp \<in> {1, 3, 6, 8} then 30 else 31)"

lemma march_months:
  "list_all (\<lambda>doy. let mp = (5 * doy + 2) div 153; day = doy - (153 * mp + 2) div 5 + 1 in
     0 \<le> mp \<and> mp \<le> 11 \<and> 1 \<le> day \<and> day \<le> march_month_days mp \<and> (mp = 11 \<and> day = 29 \<longleftrightarrow> doy = 365)) [0..365]"
  by code_simp

lemma month_of_day:
  assumes "0 \<le> doy" and "doy \<le> 365"
  defines "mp \<equiv> (5 * doy + 2) div 153"
  defines "day \<equiv> doy - (153 * mp + 2) div 5 + 1"
  shows "mp \<in> {0, 1, 2, 3, 4, 5, 6, 7, 8, 9, 10, 11}" and "1 \<le> day" and "day \<le> march_month_days mp"
    and "mp = 11 \<Longrightarrow> day = 29 \<Longrightarrow> doy = 365"
proof -
  have "doy \<in> set [0..365]" using assms(1,2) by simp
  with march_months have m: "0 \<le> mp \<and> mp \<le> 11 \<and> 1 \<le> day \<and> day \<le> march_month_days mp \<and> (mp = 11 \<and> day = 29 \<longleftrightarrow> doy = 365)"
    unfolding list_all_iff Let_def mp_def day_def by blast
  then show "1 \<le> day" "day \<le> march_month_days mp" "mp = 11 \<Longrightarrow> day = 29 \<Longrightarrow> doy = 365" by blast+
  have "x \<in> {0, 1, 2, 3, 4, 5, 6, 7, 8, 9, 10, 11}" if "0 \<le> x" "x \<le> 11" for x :: int
    unfolding insert_iff empty_iff using that by presburger
  with m show "mp \<in> {0, 1, 2, 3, 4, 5, 6, 7, 8, 9, 10, 11}" by blast
qed

lemma shift_div: "0 < k \<Longrightarrow> (y + k * c) div k = y div k + (c::int)"
  by simp

lemma days_before_march_year:
  assumes "0 \<le> Y" and "Y \<le> 399"
  shows "days_before_year (Y + 400 * e + 1) = 146097 * e + era_days Y"
proof -
  have e: "400 * e = 4 * (100 * e)" "400 * e = 100 * (4 * e)" by simp_all
  have "(Y + 400 * e) div 4 = Y div 4 + 100 * e" unfolding e(1) by (rule shift_div) simp
  moreover have "(Y + 400 * e) div 100 = Y div 100 + 4 * e" unfolding e(2) by (rule shift_div) simp
  moreover have "(Y + 400 * e) div 400 = Y div 400 + e" by (rule shift_div) simp
  moreover have "Y div 400 = 0" using assms by (intro div_pos_pos_trivial) simp_all
  moreover have "Y + 400 * e + 1 - 1 = Y + 400 * e" by simp
  moreover have "365 * (Y + 400 * e) + (a + 100 * e) - (b + 4 * e) + (0 + e) = 146097 * e + (365 * Y + a - b)" for a b
    by simp
  ultimately show ?thesis unfolding days_before_year_def era_days_def by (simp only:)
qed

lemma civil_from_days_march:
  fixes days :: int
  defines "doe \<equiv> (days + 719468) mod 146097" and "e \<equiv> (days + 719468) div 146097"
  defines "Y \<equiv> year_of_era doe"
  defines "doy \<equiv> doe - era_days Y"
  defines "mp \<equiv> (5 * doy + 2) div 153"
  shows "civil_from_days days =
    ((if mp < 10 then Y + 400 * e else Y + 400 * e + 1), (if mp < 10 then mp + 3 else mp - 9),
     doy - (153 * mp + 2) div 5 + 1)"
    and "0 \<le> Y" and "Y \<le> 399" and "0 \<le> doy" and "doy \<le> 365" and "doy = 365 \<Longrightarrow> leap_year (Y + 400 * e + 1)"
    and "days = 146097 * e + era_days Y + doy - 719468"
    and "mp \<in> {0, 1, 2, 3, 4, 5, 6, 7, 8, 9, 10, 11}"
proof -
  have doe: "0 \<le> doe" "doe < 146097" by (simp_all add: doe_def)
  note y = year_of_era_spec [OF doe, folded Y_def]
  note d = day_of_year_range [OF doe, folded Y_def, folded doy_def]
  show "0 \<le> Y" "Y \<le> 399" "0 \<le> doy" "doy \<le> 365" "doy = 365 \<Longrightarrow> leap_year (Y + 400 * e + 1)"
    using y(1,2) d(1,2) d(3) [of e] by blast+
  have z: "days + 719468 - e * 146097 = doe"
    unfolding e_def doe_def by (rule minus_div_mult_eq_mod)
  then show "days = 146097 * e + era_days Y + doy - 719468" by (simp add: doy_def)
  have sum: "doe - (365 * Y + Y sdiv 4 - Y sdiv 100) = doy" using y(1) by (simp add: doy_def era_days_def sdiv_pos)
  have mp: "(5 * doy + 2) sdiv 153 = mp" using d(1) by (simp add: mp_def sdiv_pos)
  note m = month_of_day(1) [OF d(1,2), folded mp_def]
  then show "mp \<in> {0, 1, 2, 3, 4, 5, 6, 7, 8, 9, 10, 11}" .
  then have "0 \<le> mp" by auto
  then have ms: "(153 * mp + 2) sdiv 5 = (153 * mp + 2) div 5" by (simp add: sdiv_pos)
  have "(if (if mp < 10 then mp + 3 else mp - 9) \<le> 2 then Y + e * 400 + 1 else Y + e * 400) =
      (if mp < 10 then Y + 400 * e else Y + 400 * e + 1)" using m by auto
  then show "civil_from_days days =
    ((if mp < 10 then Y + 400 * e else Y + 400 * e + 1), (if mp < 10 then mp + 3 else mp - 9),
     doy - (153 * mp + 2) div 5 + 1)"
    unfolding civil_from_days_def Let_def era_floor e_def [symmetric] z Y_def [symmetric] sum mp ms by simp
qed

lemma days_before_months:
  "days_before_month y 1 = 0" "days_before_month y 2 = 31"
  "days_before_month y 3 = 59 + of_bool (leap_year y)" "days_before_month y 4 = 90 + of_bool (leap_year y)"
  "days_before_month y 5 = 120 + of_bool (leap_year y)" "days_before_month y 6 = 151 + of_bool (leap_year y)"
  "days_before_month y 7 = 181 + of_bool (leap_year y)" "days_before_month y 8 = 212 + of_bool (leap_year y)"
  "days_before_month y 9 = 243 + of_bool (leap_year y)" "days_before_month y 10 = 273 + of_bool (leap_year y)"
  "days_before_month y 11 = 304 + of_bool (leap_year y)" "days_before_month y 12 = 334 + of_bool (leap_year y)"
  by (simp_all add: days_before_month_def days_in_month_def upto.simps [of 1])

lemma days_before_month_march:
  "mp \<in> {0, 1, 2, 3, 4, 5, 6, 7, 8, 9} \<Longrightarrow>
    days_before_month y (mp + 3) = 59 + of_bool (leap_year y) + (153 * mp + 2) div 5"
  "mp \<in> {10, 11} \<Longrightarrow> days_before_month y (mp - 9) = (153 * mp + 2) div 5 - 306"
  by (elim insertE emptyE; simp add: days_before_months)+

lemma civil_from_days_spec: "valid_date (civil_from_days days) \<and> day_number (civil_from_days days) = days"
proof -
  define doe e where "doe = (days + 719468) mod 146097" and "e = (days + 719468) div 146097"
  define Y where "Y = year_of_era doe"
  define doy where "doy = doe - era_days Y"
  define mp where "mp = (5 * doy + 2) div 153"
  note c = civil_from_days_march [of days, folded doe_def e_def, folded Y_def, folded doy_def, folded mp_def]
  note m = month_of_day [OF c(4,5), folded mp_def]
  have epoch: "days_before_year 1970 = 719162" by code_simp
  note year = days_before_march_year [OF c(2,3), of e]
  show ?thesis
  proof (cases "mp < 10")
    case True
    with c(8) have mp: "mp \<in> {0, 1, 2, 3, 4, 5, 6, 7, 8, 9}" by auto
    then have "valid_date (civil_from_days days)"
      using m(2,3) True unfolding c(1) by (auto simp: valid_date_def days_in_month_def march_month_days_def)
    moreover have "days_before_year (Y + 400 * e) + 365 + of_bool (leap_year (Y + 400 * e)) = 146097 * e + era_days Y"
      using days_before_next_year [of "Y + 400 * e"] year by (simp add: of_bool_def split: if_splits)
    ultimately show ?thesis
      using True days_before_month_march(1) [OF mp, of "Y + 400 * e"] c(7)
      unfolding c(1) day_number_def epoch by simp
  next
    case False
    with c(8) have mp: "mp \<in> {10, 11}" by auto
    have "doy - (153 * mp + 2) div 5 + 1 \<le> days_in_month (Y + 400 * e + 1) (mp - 9)"
    proof (cases "doy = 365")
      case True
      then show ?thesis using m(3) c(6) mp by (auto simp: days_in_month_def march_month_days_def)
    next
      case False
      then have "mp = 11 \<Longrightarrow> doy - (153 * mp + 2) div 5 + 1 \<noteq> 29" using m(4) by blast
      then show ?thesis using m(3) mp by (auto simp: days_in_month_def march_month_days_def)
    qed
    then have "valid_date (civil_from_days days)"
      using m(2) False mp unfolding c(1) by (auto simp: valid_date_def)
    then show ?thesis
      using False days_before_month_march(2) [OF mp, of "Y + 400 * e + 1"] year c(7)
      unfolding c(1) day_number_def epoch by simp
  qed
qed

lemma days_in_month_range: "28 \<le> days_in_month y m" "days_in_month y m \<le> 31"
  by (auto simp: days_in_month_def)

lemma days_before_next_month: "1 \<le> m \<Longrightarrow> days_before_month y (m + 1) = days_before_month y m + days_in_month y m"
  using upto_rec2 [of 1 m] by (simp add: days_before_month_def)

lemma days_before_month_mono:
  assumes "1 \<le> m" and "m \<le> k"
  shows "days_before_month y m \<le> days_before_month y k"
  using assms(2)
proof (induction k rule: int_ge_induct)
  case (step k)
  with assms(1) days_before_next_month [of k y] days_in_month_range(1) [of y k] show ?case by simp
qed simp

lemma days_before_year_mono: "y \<le> k \<Longrightarrow> days_before_year y \<le> days_before_year k"
proof (induction k rule: int_ge_induct)
  case (step k)
  with days_before_next_year [of k] show ?case by (simp split: if_splits)
qed simp

lemma day_number_month:
  assumes "valid_date (y, m, d)" and "valid_date (y, m', d')" and "m < m'"
  shows "day_number (y, m, d) < day_number (y, m', d')"
proof -
  have "days_before_month y (m + 1) \<le> days_before_month y m'"
    using assms by (intro days_before_month_mono) (simp_all add: valid_date_def)
  with days_before_next_month [of m y] assms show ?thesis by (simp add: day_number_def valid_date_def)
qed

lemma day_number_year:
  assumes "valid_date (y, m, d)" and "valid_date (y', m', d')" and "y < y'"
  shows "day_number (y, m, d) < day_number (y', m', d')"
proof -
  have "days_before_month y m + days_in_month y m \<le> days_before_month y 13"
    using days_before_month_mono [of "m + 1" 13 y] days_before_next_month [of m y] assms(1) by (simp add: valid_date_def)
  then have "days_before_month y m + d \<le> days_before_year (y + 1) - days_before_year y"
    using assms(1) by (simp add: valid_date_def months_of_year days_before_next_year)
  moreover have "days_before_year (y + 1) \<le> days_before_year y'" using assms(3) by (intro days_before_year_mono) simp
  moreover have "0 \<le> days_before_month y' m'"
    using days_before_month_mono [of 1 m' y'] assms(2) by (simp add: days_before_months valid_date_def)
  ultimately show ?thesis using assms(2) by (simp add: day_number_def valid_date_def)
qed

lemma day_number_inj:
  assumes "valid_date date" and "valid_date date'" and "day_number date = day_number date'"
  shows "date = date'"
proof -
  obtain y m d y' m' d' where date: "date = (y, m, d)" "date' = (y', m', d')" by (cases date, cases date') auto
  note assms = assms [unfolded date]
  have "\<not> y < y'" "\<not> y' < y" using day_number_year assms by (metis less_irrefl)+
  then have y: "y = y'" by simp
  note assms = assms [folded y]
  have "\<not> m < m'" "\<not> m' < m" using day_number_month assms by (metis less_irrefl)+
  then have "m = m'" by simp
  with assms(3) y date show ?thesis by (simp add: day_number_def)
qed

text \<open>No step of the computation leaves the range of an \<open>i64\<close>.\<close>

lemma civil_fits:
  assumes "- (2 ^ 63) \<le> timestamp" and "timestamp < (2 ^ 63 :: int)"
  defines "z \<equiv> timestamp div 86400 + 719468"
  shows "- (2 ^ 62) \<le> z - 146096" and "z < 2 ^ 62" and "0 \<le> z - era_of z * 146097" and "z - era_of z * 146097 < 146097"
    and "- (2 ^ 62) \<le> era_of z * 400" and "era_of z * 400 + 400 < 2 ^ 62"
proof -
  define q where "q = timestamp div 86400"
  have "86400 * q \<le> timestamp" "timestamp < 86400 * q + 86400"
    using div_bounds [of 86400 timestamp] by (simp_all add: q_def)
  then have q: "- 106751991167301 \<le> q" "q \<le> 106751991167301" using assms(1,2) by simp_all
  define e where "e = era_of z"
  have e: "146097 * e \<le> z" "z < 146097 * e + 146097" using div_bounds [of 146097 z] by (simp_all add: e_def era_floor)
  have z: "z = q + 719468" by (simp add: z_def q_def)
  have "- (2 ^ 62) \<le> e * 400" "e * 400 + 400 < 2 ^ 62" using q e z by simp_all
  then show "- (2 ^ 62) \<le> era_of z * 400" "era_of z * 400 + 400 < 2 ^ 62" by (simp_all only: e_def)
  show "- (2 ^ 62) \<le> z - 146096" "z < 2 ^ 62" using q z by simp_all
  show "0 \<le> z - era_of z * 146097" "z - era_of z * 146097 < 146097" using e by (simp_all add: e_def [symmetric])
qed

text \<open>
  C22: The civil date that \<open>format_timestamp\<close> computes from a number of days is the date of the
  proleptic Gregorian calendar: a year, month and day are its result exactly when they are a valid
  date whose number of days since 1970-01-01 is the number given.
\<close>

theorem civil_date_exact: "civil_from_days days = date \<longleftrightarrow> valid_date date \<and> day_number date = days"
  using civil_from_days_spec [of days] day_number_inj [of date "civil_from_days days"] by auto

end
