(* ===== verification/Dates.thy ===== *)
theory Dates
  imports Calendar
begin

text \<open>
  \<open>src/src/tree/date/mod.rs\<close>: date items, their timestamps and how they are formatted.

  The calendar types of the \<open>time\<close> crate are the type parameters of \<open>date_item\<close> and its operations
  the fields of \<open>time_library\<close>; the localized texts of the \<open>icu\<close> crates for one date and language are
  the fields of \<open>formatters\<close>.  A formatter writes a text and may then fail (\<open>display\<close>).  Instants and
  \<open>i64\<close> values are \<open>int\<close>, with the saturating operations written out.
\<close>

subsection \<open>Date items\<close>

datatype ('date, 'plain, 'zoned) date_item =
  Date 'date | DateTime 'plain | DateTimeTz 'zoned | Timestamp int

record ('date, 'plain, 'zoned) time_library =
  midnight :: "'date \<Rightarrow> 'plain"
  assume_offset :: "'plain \<Rightarrow> int \<Rightarrow> 'zoned"
  assume_utc :: "'plain \<Rightarrow> 'zoned"
  unix_timestamp :: "'zoned \<Rightarrow> int"
  whole_seconds :: "'zoned \<Rightarrow> int"
  zoned_year :: "'zoned \<Rightarrow> int"
  zoned_month :: "'zoned \<Rightarrow> nat"
  zoned_day :: "'zoned \<Rightarrow> nat"
  zoned_hour :: "'zoned \<Rightarrow> nat"
  zoned_minute :: "'zoned \<Rightarrow> nat"

definition i64_min :: int where "i64_min = - (2 ^ 63)"
definition i64_max :: int where "i64_max = 2 ^ 63 - 1"

definition saturate :: "int \<Rightarrow> int" where
  "saturate n = max i64_min (min i64_max n)"

fun add_timezone :: "('d, 'p, 'z) time_library \<Rightarrow> ('d, 'p, 'z) date_item \<Rightarrow> int \<Rightarrow> ('d, 'p, 'z) date_item option" where
  "add_timezone T (Date date) offset = Some (DateTimeTz (assume_offset T (midnight T date) offset))"
| "add_timezone T (DateTime datetime) offset = Some (DateTimeTz (assume_offset T datetime offset))"
| "add_timezone T (Timestamp ts) offset = Some (Timestamp (saturate (ts + offset)))"
| "add_timezone T (DateTimeTz _) offset = None"

fun timestamp :: "('d, 'p, 'z) time_library \<Rightarrow> ('d, 'p, 'z) date_item \<Rightarrow> int" where
  "timestamp T (Date date) = unix_timestamp T (assume_utc T (midnight T date))"
| "timestamp T (DateTime datetime) = unix_timestamp T (assume_utc T datetime)"
| "timestamp T (DateTimeTz datetime) = unix_timestamp T datetime"
| "timestamp T (Timestamp ts) = ts"

text \<open>The clock is an argument: \<open>now\<close> is the timestamp of the current time.\<close>

definition time_since :: "('d, 'p, 'z) time_library \<Rightarrow> int \<Rightarrow> ('d, 'p, 'z) date_item \<Rightarrow> int" where
  "time_since T now item = saturate (timestamp T item - now)"

text \<open>\<open>None\<close> is the \<open>unreachable!\<close> panic.\<close>

fun to_datetime_tz :: "('d, 'p, 'z) time_library \<Rightarrow> ('d, 'p, 'z) date_item \<Rightarrow> 'z option" where
  "to_datetime_tz T (Date date) = Some (assume_utc T (midnight T date))"
| "to_datetime_tz T (DateTime datetime) = Some (assume_utc T datetime)"
| "to_datetime_tz T (DateTimeTz datetime) = Some datetime"
| "to_datetime_tz T (Timestamp _) = None"

subsection \<open>Timestamps outside the calendar of the library\<close>

definition months :: "bytes list" where
  "months = [''Jan'', ''Feb'', ''Mar'', ''Apr'', ''May'', ''Jun'', ''Jul'', ''Aug'', ''Sep'', ''Oct'', ''Nov'', ''Dec'']"

definition year_text :: "int \<Rightarrow> bytes" where
  "year_text year = (if year < 0 then ''-'' @ zero_padded 4 (nat (- year)) else zero_padded 4 (nat year))"

definition format_timestamp :: "int \<Rightarrow> bytes" where
  "format_timestamp ts =
     (let days = ts div 86400; seconds = ts mod 86400; (year, month, day) = civil_from_days days
      in zero_padded 2 (nat day) @ '' '' @ months ! nat (month - 1) @ '' '' @ year_text year @ '' '' @
         zero_padded 2 (nat (seconds div 3600)) @ '':'' @ zero_padded 2 (nat (seconds mod 3600 div 60)))"

subsection \<open>Limits of a format\<close>

definition MAX_DATE_FORMAT_BYTES :: nat where "MAX_DATE_FORMAT_BYTES = 512"
definition MAX_DATE_FORMAT_DIRECTIVES :: nat where "MAX_DATE_FORMAT_DIRECTIVES = 64"

definition padding_modifier :: "bytes \<Rightarrow> bool" where
  "padding_modifier ch \<longleftrightarrow> ch = ''_'' \<or> ch = ''-'' \<or> ch = ''0''"

fun directives_within :: "bytes list \<Rightarrow> nat \<Rightarrow> bool" where
  "directives_within [] count = True"
| "directives_within (ch # chs) count =
     (if ch \<noteq> ''%'' then directives_within chs count
      else if count + 1 > MAX_DATE_FORMAT_DIRECTIVES then False
      else case chs of
        [] \<Rightarrow> True
      | directive # rest \<Rightarrow>
          if padding_modifier directive
          then (case rest of [] \<Rightarrow> True | _ # rest' \<Rightarrow> directives_within rest' (count + 1))
          else directives_within rest (count + 1))"

definition date_format_within_limits :: "bytes \<Rightarrow> bool" where
  "date_format_within_limits format \<longleftrightarrow>
     length format \<le> MAX_DATE_FORMAT_BYTES \<and> directives_within (chars format) 0"

subsection \<open>Directives\<close>

datatype date_format_flavor = Strftime | Wikidot

datatype 'e io_error = InvalidInput bytes | Other 'e

type_synonym 'e display = "bytes \<times> 'e io_error option"

text \<open>
  The texts of the libraries for one date and one language: \<open>True\<close> asks for the abbreviated form, or
  for the 12-hour clock.
\<close>

record 'e formatters =
  weekday_text :: "bool \<Rightarrow> 'e display"
  month_text :: "bool \<Rightarrow> 'e display"
  datetime_text :: "'e display"
  relative_text :: "int \<Rightarrow> nat \<Rightarrow> bool \<Rightarrow> 'e display"
  day_period_text :: "'e display"
  time_text :: "bool \<Rightarrow> 'e display"
  date_text :: "'e display"
  unlocalized_text :: "bytes \<Rightarrow> 'e display"
  lowercase :: "bytes \<Rightarrow> bytes"

text \<open>\<open>NormalizingWriter\<close> writes the no-break spaces U+00A0 and U+202F as spaces.\<close>

definition no_break_space :: "bytes \<Rightarrow> bool" where
  "no_break_space ch \<longleftrightarrow> ch = [CHR 0xC2, CHR 0xA0] \<or> ch = [CHR 0xE2, CHR 0x80, CHR 0xAF]"

definition normalized_display :: "bytes \<Rightarrow> bytes" where
  "normalized_display s = concat (map (\<lambda>ch. if no_break_space ch then '' '' else ch) (chars s))"

definition append_normalized_display :: "bytes \<Rightarrow> 'e display \<Rightarrow> 'e display" where
  "append_normalized_display rendered d = (rendered @ normalized_display (fst d), snd d)"

text \<open>
  A quantity of time before or after now: the units are numbered second, minute, hour, day.  The
  library phrases only days without a number (\<open>numeric: auto\<close>).
\<close>

definition relative_time_value :: "int \<Rightarrow> int \<Rightarrow> int \<times> nat" where
  "relative_time_value now ts =
     (let delta = ts - now
      in if \<bar>delta\<bar> < 60 then (delta, 0)
         else if \<bar>delta\<bar> < 3600 then (delta sdiv 60, 1)
         else if \<bar>delta\<bar> < 86400 then (delta sdiv 3600, 2)
         else (delta sdiv 86400, 3))"

definition append_relative_time :: "'e formatters \<Rightarrow> int \<Rightarrow> int \<Rightarrow> bytes \<Rightarrow> 'e display" where
  "append_relative_time L now ts rendered =
     (let (value, unit) = relative_time_value now ts
      in append_normalized_display rendered (relative_text L value unit (unit = 3)))"

definition append_timezone_gmt :: "bytes \<Rightarrow> int \<Rightarrow> bytes" where
  "append_timezone_gmt rendered total_seconds =
     (let sign = (if total_seconds < 0 then ''-'' else ''+'');
          hours = \<bar>total_seconds\<bar> sdiv 3600;
          minutes = (\<bar>total_seconds\<bar> smod 3600) sdiv 60
      in if minutes = 0 then rendered @ ''GMT'' @ sign @ zero_padded 2 (nat hours)
         else rendered @ ''GMT'' @ sign @ zero_padded 2 (nat hours) @ '':'' @ zero_padded 2 (nat minutes))"

definition append_localized_day_period :: "'e formatters \<Rightarrow> bool \<Rightarrow> bytes \<Rightarrow> 'e display" where
  "append_localized_day_period L uppercase rendered =
     (case day_period_text L of
        (raw, Some e) \<Rightarrow> (rendered, Some e)
      | (raw, None) \<Rightarrow> append_normalized_display rendered (if uppercase then raw else lowercase L raw, None))"

definition wikidot_format_directive :: "bytes \<Rightarrow> bool" where
  "wikidot_format_directive directive \<longleftrightarrow>
     directive \<in> {''r'', ''R'', ''T'', ''D'', ''a'', ''A'', ''b'', ''B'', ''c'', ''d'', ''e'', ''H'', ''I'', ''m'', ''M'',
       ''p'', ''S'', ''y'', ''Y'', ''z'', ''O''}"

text \<open>The context of a formatting: the clock, the timestamp and offset of the date, the libraries' texts.\<close>

record 'e date_context =
  clock :: int
  date_timestamp :: int
  date_offset :: int
  texts :: "'e formatters"

definition render_directive :: "'e date_context \<Rightarrow> bytes \<Rightarrow> bytes \<Rightarrow> bytes \<Rightarrow> 'e display" where
  "render_directive C rendered directive spec =
     (let L = texts C; display = append_normalized_display rendered
      in if directive = ''%'' then (rendered @ ''%'', None)
         else if directive = ''a'' then display (weekday_text L True)
         else if directive = ''A'' then display (weekday_text L False)
         else if directive = ''b'' then display (month_text L True)
         else if directive = ''B'' then display (month_text L False)
         else if directive = ''c'' then display (datetime_text L)
         else if directive = ''O'' then append_relative_time L (clock C) (date_timestamp C) rendered
         else if directive = ''p'' then append_localized_day_period L True rendered
         else if directive = ''P'' then append_localized_day_period L False rendered
         else if directive = ''r'' then display (time_text L True)
         else if directive = ''X'' then display (time_text L False)
         else if directive = ''x'' then display (date_text L)
         else if directive = ''Z'' \<or> directive = ''z'' then (append_timezone_gmt rendered (date_offset C), None)
         else case unlocalized_text L spec of
           (written, Some e) \<Rightarrow> (rendered, Some e)
         | (written, None) \<Rightarrow> (rendered @ written, None))"

subsection \<open>Formats\<close>

definition invalid_strftime_error :: "bytes \<Rightarrow> bytes \<Rightarrow> 'e io_error" where
  "invalid_strftime_error format message =
     InvalidInput (''invalid strftime format string '' @ [CHR 0x27] @ format @ [CHR 0x27] @ '': '' @ message)"

definition date_format_limit_error :: "'e io_error" where
  "date_format_limit_error = InvalidInput ''strftime format string exceeds supported limits''"

text \<open>What the loop of \<open>format_strftime\<close> does with a complete directive.\<close>

definition push_directive ::
  "'e date_context \<Rightarrow> date_format_flavor \<Rightarrow> bytes \<Rightarrow> bytes \<Rightarrow> bytes \<Rightarrow> bool \<Rightarrow> 'e io_error + bytes" where
  "push_directive C flavor rendered directive spec padded =
     (if flavor = Wikidot \<and> (padded \<or> \<not> wikidot_format_directive directive) then Inr (rendered @ spec)
      else case render_directive C rendered directive spec of
        (rendered', None) \<Rightarrow> Inr rendered'
      | (rendered', Some e) \<Rightarrow> Inl e)"

fun strftime_loop ::
  "'e date_context \<Rightarrow> date_format_flavor \<Rightarrow> bytes \<Rightarrow> bytes list \<Rightarrow> nat \<Rightarrow> nat \<Rightarrow> bytes \<Rightarrow> 'e io_error + bytes" where
  "strftime_loop C flavor format [] i literal_start rendered = Inr (rendered @ drop literal_start format)"
| "strftime_loop C flavor format (ch # chs) i literal_start rendered =
     (if ch \<noteq> ''%'' then strftime_loop C flavor format chs (i + length ch) literal_start rendered
      else let rendered = rendered @ slice format literal_start i
        in case chs of
          [] \<Rightarrow>
            if flavor = Wikidot then strftime_loop C flavor format [] (i + 1) (i + 1) (rendered @ ''%'')
            else Inl (invalid_strftime_error format (''unexpected end of input after '' @ [CHR 0x27] @ ''%'' @ [CHR 0x27]))
        | directive # rest \<Rightarrow>
            let spec_end = i + 1 + length directive
            in if padding_modifier directive then
                 (case rest of
                    [] \<Rightarrow>
                      if flavor = Wikidot
                      then strftime_loop C flavor format [] spec_end spec_end (rendered @ slice format i spec_end)
                      else Inl (invalid_strftime_error format ''unexpected end of input after padding modifier'')
                  | component # rest' \<Rightarrow>
                      let spec_end = spec_end + length component
                      in case push_directive C flavor rendered component (slice format i spec_end) True of
                           Inl e \<Rightarrow> Inl e
                         | Inr rendered \<Rightarrow> strftime_loop C flavor format rest' spec_end spec_end rendered)
               else
                 (case push_directive C flavor rendered directive (slice format i spec_end) False of
                    Inl e \<Rightarrow> Inl e
                  | Inr rendered \<Rightarrow> strftime_loop C flavor format rest spec_end spec_end rendered))"

text \<open>
  The calendar library and the localized texts of a date (by language) are arguments of the entry
  points; \<open>date_of\<close> is \<open>to_datetime_tz\<close> with the context that the loop needs.
\<close>

record ('d, 'p, 'z, 'e) date_libraries =
  calendar :: "('d, 'p, 'z) time_library"
  localized :: "'z \<Rightarrow> bytes \<Rightarrow> 'e formatters"
  now :: int

definition context_of :: "('d, 'p, 'z, 'e) date_libraries \<Rightarrow> 'z \<Rightarrow> bytes \<Rightarrow> 'e date_context" where
  "context_of T datetime language =
     \<lparr>clock = now T, date_timestamp = unix_timestamp (calendar T) datetime,
      date_offset = whole_seconds (calendar T) datetime, texts = localized T datetime language\<rparr>"

definition format_strftime ::
  "('d, 'p, 'z, 'e) date_libraries \<Rightarrow> ('d, 'p, 'z) date_item \<Rightarrow> bytes \<Rightarrow> bytes \<Rightarrow> date_format_flavor \<Rightarrow> 'e io_error + bytes" where
  "format_strftime T item format language flavor =
     (if \<not> date_format_within_limits format then Inl date_format_limit_error
      else case item of
        Timestamp ts \<Rightarrow> Inr (format_timestamp ts)
      | _ \<Rightarrow> strftime_loop (context_of T (the (to_datetime_tz (calendar T) item)) language) flavor format (chars format) 0 0 [])"

definition format_default ::
  "('d, 'p, 'z, 'e) date_libraries \<Rightarrow> ('d, 'p, 'z) date_item \<Rightarrow> bytes \<Rightarrow> 'e io_error + bytes" where
  "format_default T item language =
     (case item of
        Timestamp ts \<Rightarrow> Inr (format_timestamp ts)
      | _ \<Rightarrow>
          let K = calendar T; datetime = the (to_datetime_tz K item); L = localized T datetime language;
              (rendered, failure) = append_normalized_display [] (datetime_text L)
          in if failure \<noteq> None \<and> \<bar>zoned_year K datetime\<bar> \<ge> 10000 then
               Inr (zero_padded 2 (zoned_day K datetime) @ '' '' @ months ! (zoned_month K datetime - 1) @ '' '' @
                 (if zoned_year K datetime < 0 then ''-'' else []) @ decimal (nat \<bar>zoned_year K datetime\<bar>) @ '' '' @
                 zero_padded 2 (zoned_hour K datetime) @ '':'' @ zero_padded 2 (zoned_minute K datetime))
             else if rendered = [] then
               (case append_normalized_display [] (datetime_text L) of
                  (rendered, None) \<Rightarrow> Inr rendered
                | (rendered, Some e) \<Rightarrow> Inl e)
             else Inr rendered)"

definition format_or_default_result :: "'e io_error + bytes \<Rightarrow> 'e io_error + bytes \<Rightarrow> bytes" where
  "format_or_default_result formatted fallback =
     (case formatted of
        Inr datetime \<Rightarrow> datetime
      | Inl _ \<Rightarrow> (case fallback of Inr datetime \<Rightarrow> datetime | Inl _ \<Rightarrow> ''<ERROR>''))"

definition format_plain ::
  "('d, 'p, 'z, 'e) date_libraries \<Rightarrow> ('d, 'p, 'z) date_item \<Rightarrow> bytes option \<Rightarrow> bytes \<Rightarrow> 'e io_error + bytes" where
  "format_plain T item format language =
     (case format of
        Some f \<Rightarrow> format_strftime T item f language Strftime
      | None \<Rightarrow> format_default T item language)"

definition format_wikidot ::
  "('d, 'p, 'z, 'e) date_libraries \<Rightarrow> ('d, 'p, 'z) date_item \<Rightarrow> bytes option \<Rightarrow> bytes \<Rightarrow> 'e io_error + bytes" where
  "format_wikidot T item format language =
     (case format of
        Some f \<Rightarrow>
          format_strftime T item (case strip_suffix ''|agohover'' f of Some s \<Rightarrow> s | None \<Rightarrow> f) language Wikidot
      | None \<Rightarrow> format_default T item language)"

definition format_or_default ::
  "('d, 'p, 'z, 'e) date_libraries \<Rightarrow> ('d, 'p, 'z) date_item \<Rightarrow> bytes option \<Rightarrow> bytes \<Rightarrow> bytes" where
  "format_or_default T item format language =
     format_or_default_result (format_plain T item format language) (format_plain T item None language)"

definition format_or_default_wikidot ::
  "('d, 'p, 'z, 'e) date_libraries \<Rightarrow> ('d, 'p, 'z) date_item \<Rightarrow> bytes option \<Rightarrow> bytes \<Rightarrow> bytes" where
  "format_or_default_wikidot T item format language =
     format_or_default_result (format_wikidot T item format language) (format_wikidot T item None language)"

subsection \<open>Timestamps print to the minute\<close>

lemma year_text_inj: "year_text a = year_text b \<longleftrightarrow> a = b"
proof -
  have minus: "zero_padded w n \<noteq> CHR ''-'' # ds" for w n ds
    using zero_padded_digits [of w n] by (auto simp: is_digit_def)
  show ?thesis
    using minus minus [symmetric] by (auto simp: year_text_def zero_padded_inj split: if_splits)
qed

lemma length_month: "i < 12 \<Longrightarrow> length (months ! i) = 3"
proof -
  have "list_all (\<lambda>m. length m = 3) months" by code_simp
  then show "i < 12 \<Longrightarrow> length (months ! i) = 3" by (simp add: list_all_length months_def)
qed

lemma months_inj: "i < 12 \<Longrightarrow> j < 12 \<Longrightarrow> months ! i = months ! j \<longleftrightarrow> i = j"
proof -
  have "distinct months" by code_simp
  then show "i < 12 \<Longrightarrow> j < 12 \<Longrightarrow> months ! i = months ! j \<longleftrightarrow> i = j"
    by (simp add: nth_eq_iff_index_eq months_def)
qed

text \<open>The text of a number of minutes since 1970.\<close>

definition minute_text :: "int \<Rightarrow> bytes" where
  "minute_text n =
     (let (year, month, day) = civil_from_days (n div 1440)
      in zero_padded 2 (nat day) @ '' '' @ months ! nat (month - 1) @ '' '' @ year_text year @ '' '' @
         zero_padded 2 (nat (n mod 1440 div 60)) @ '':'' @ zero_padded 2 (nat (n mod 1440 mod 60)))"

lemma format_timestamp_minutes: "format_timestamp ts = minute_text (ts div 60)"
proof -
  have days: "ts div 86400 = ts div 60 div 1440" using zdiv_zmult2_eq [of 1440 ts 60] by simp
  have seconds: "ts mod 86400 = 60 * (ts div 60 mod 1440) + ts mod 60" using zmod_zmult2_eq [of 1440 ts 60] by simp
  define n r where "n = ts div 60 mod 1440" and "r = ts mod 60"
  have r: "0 \<le> r" "r < 60" by (simp_all add: r_def)
  then have minutes: "(60 * n + r) div 60 = n" by simp
  have "(60 * n + r) div 3600 = n div 60" using zdiv_zmult2_eq [of 60 "60 * n + r" 60] minutes by simp
  moreover have "(60 * n + r) mod 3600 div 60 = n mod 60"
    using zmod_zmult2_eq [of 60 "60 * n + r" 60] minutes r by simp
  ultimately show ?thesis
    unfolding format_timestamp_def minute_text_def Let_def days seconds n_def [symmetric] r_def [symmetric] by simp
qed

lemma valid_date_bounds:
  assumes "valid_date (y, m, d)"
  shows "1 \<le> m" and "m \<le> 12" and "1 \<le> d" and "d \<le> 31"
  using assms days_in_month_range(2) [of y m] by (simp_all add: valid_date_def)

lemma date_parts:
  assumes "length a = length a'" and "length b = length b'" and "length h = length h'" and "length i = length i'"
    and "a @ '' '' @ b @ '' '' @ y @ '' '' @ h @ '':'' @ i = a' @ '' '' @ b' @ '' '' @ y' @ '' '' @ h' @ '':'' @ i'"
  shows "a = a'" and "b = b'" and "y = y'" and "h = h'" and "i = i'"
  using assms by (simp_all add: append_eq_append_conv)

lemma clock_bounds:
  fixes t :: int
  assumes "0 \<le> t" and "t < 1440"
  shows "0 \<le> t div 60" and "t div 60 < 100" and "0 \<le> t mod 60" and "t mod 60 < 100"
proof -
  show "t div 60 < 100" using assms(2) by (intro le_less_trans [OF div_le [of 60 t 99]]) simp_all
  show "t mod 60 < 100" by (rule less_trans [OF pos_mod_bound]) simp_all
qed (use assms(1) in \<open>simp_all add: pos_imp_zdiv_nonneg_iff\<close>)

lemma length_two_digits: "n < 100 \<Longrightarrow> length (zero_padded 2 (nat n)) = 2"
  by (intro length_zero_padded_two) simp

lemma date_text_inj:
  assumes "valid_date (y, m, d)" and "valid_date (y', m', d')" and "0 \<le> t" "t < 1440" and "0 \<le> t'" "t' < 1440"
    and eq: "zero_padded 2 (nat d) @ '' '' @ months ! nat (m - 1) @ '' '' @ year_text y @ '' '' @
         zero_padded 2 (nat (t div 60)) @ '':'' @ zero_padded 2 (nat (t mod 60)) =
       zero_padded 2 (nat d') @ '' '' @ months ! nat (m' - 1) @ '' '' @ year_text y' @ '' '' @
         zero_padded 2 (nat (t' div 60)) @ '':'' @ zero_padded 2 (nat (t' mod 60))"
  shows "y = y' \<and> m = m' \<and> d = d' \<and> t = t'"
proof -
  note v = valid_date_bounds [OF assms(1)] and v' = valid_date_bounds [OF assms(2)]
  note c = clock_bounds [OF assms(3,4)] and c' = clock_bounds [OF assms(5,6)]
  have front: "length (zero_padded 2 (nat d)) = length (zero_padded 2 (nat d'))"
    "length (months ! nat (m - 1)) = length (months ! nat (m' - 1))"
    using v v' by (simp_all add: length_two_digits length_month)
  have rear: "length (zero_padded 2 (nat (t div 60))) = length (zero_padded 2 (nat (t' div 60)))"
    "length (zero_padded 2 (nat (t mod 60))) = length (zero_padded 2 (nat (t' mod 60)))"
    by (simp_all only: length_two_digits c c')
  note parts = date_parts [OF front rear eq]
  have "d = d'" using parts(1) v(3) v'(3) by (simp add: zero_padded_inj)
  moreover have "m = m'" using parts(2) v(1,2) v'(1,2) by (simp add: months_inj)
  moreover have "y = y'" using parts(3) by (simp only: year_text_inj)
  moreover have "t div 60 = t' div 60" using parts(4) c(1) c'(1) by (simp only: zero_padded_inj eq_nat_nat_iff)
  moreover have "t mod 60 = t' mod 60" using parts(5) c(3) c'(3) by (simp only: zero_padded_inj eq_nat_nat_iff)
  ultimately show ?thesis using mult_div_mod_eq [of 60 t] mult_div_mod_eq [of 60 t'] by metis
qed

text \<open>
  C23: A timestamp outside the calendar prints to the minute and loses nothing else: two timestamps
  have the same text exactly when they lie in the same minute.
\<close>

theorem format_timestamp_exact: "format_timestamp a = format_timestamp b \<longleftrightarrow> a div 60 = b div 60"
proof
  assume eq: "format_timestamp a = format_timestamp b"
  define m n where "m = a div 60" and "n = b div 60"
  obtain y mo d where date: "civil_from_days (m div 1440) = (y, mo, d)" by (cases "civil_from_days (m div 1440)") auto
  obtain y' mo' d' where date': "civil_from_days (n div 1440) = (y', mo', d')" by (cases "civil_from_days (n div 1440)") auto
  have valid: "valid_date (y, mo, d)" "valid_date (y', mo', d')" and days: "day_number (y, mo, d) = m div 1440" "day_number (y', mo', d') = n div 1440"
    using civil_from_days_spec date date' by metis+
  have "minute_text m = minute_text n" using eq by (simp add: format_timestamp_minutes m_def n_def)
  then have "y = y' \<and> mo = mo' \<and> d = d' \<and> m mod 1440 = n mod 1440"
    unfolding minute_text_def date date' by (intro date_text_inj [OF valid]) simp_all
  with days show "a div 60 = b div 60" unfolding m_def [symmetric] n_def [symmetric] by (metis mult_div_mod_eq)
qed (simp add: format_timestamp_minutes)

subsection \<open>A format is a sequence of pieces\<close>

text \<open>
  The specification of formats: literal characters, directives with what introduces them, and a
  directive that the end of the format cuts off.
\<close>

datatype piece = Literal bytes | Directive bytes bytes bool | Unfinished bytes

fun pieces :: "bytes list \<Rightarrow> piece list" where
  "pieces [] = []"
| "pieces (ch # chs) =
     (if ch \<noteq> ''%'' then Literal ch # pieces chs
      else case chs of
        [] \<Rightarrow> [Unfinished ''%'']
      | directive # rest \<Rightarrow>
          if padding_modifier directive
          then (case rest of
                  [] \<Rightarrow> [Unfinished (''%'' @ directive)]
                | component # rest' \<Rightarrow> Directive component (''%'' @ directive @ component) True # pieces rest')
          else Directive directive (''%'' @ directive) False # pieces rest)"

fun written_form :: "piece \<Rightarrow> bytes" where
  "written_form (Literal s) = s"
| "written_form (Directive directive spec padded) = spec"
| "written_form (Unfinished s) = s"

fun is_literal :: "piece \<Rightarrow> bool" where
  "is_literal (Literal s) = True"
| "is_literal (Directive directive spec padded) = False"
| "is_literal (Unfinished s) = False"

definition unfinished_message :: "bytes \<Rightarrow> bytes" where
  "unfinished_message s =
     (if s = ''%'' then ''unexpected end of input after '' @ [CHR 0x27] @ ''%'' @ [CHR 0x27]
      else ''unexpected end of input after padding modifier'')"

fun render_pieces ::
  "'e date_context \<Rightarrow> date_format_flavor \<Rightarrow> bytes \<Rightarrow> piece list \<Rightarrow> bytes \<Rightarrow> 'e io_error + bytes" where
  "render_pieces C flavor format [] rendered = Inr rendered"
| "render_pieces C flavor format (Literal s # ps) rendered = render_pieces C flavor format ps (rendered @ s)"
| "render_pieces C flavor format (Unfinished s # ps) rendered =
     (if flavor = Wikidot then render_pieces C flavor format ps (rendered @ s)
      else Inl (invalid_strftime_error format (unfinished_message s)))"
| "render_pieces C flavor format (Directive directive spec padded # ps) rendered =
     (case push_directive C flavor rendered directive spec padded of
        Inl e \<Rightarrow> Inl e
      | Inr rendered \<Rightarrow> render_pieces C flavor format ps rendered)"

lemma pieces_written: "concat (map written_form (pieces chs)) = concat chs"
  by (induction chs rule: pieces.induct) (auto split: list.splits)

lemma format_induct [case_names Nil Literal Percent Padding Padded Directive]:
  assumes "P []"
    and "\<And>ch chs. ch \<noteq> ''%'' \<Longrightarrow> P chs \<Longrightarrow> P (ch # chs)"
    and "P [''%'']"
    and "\<And>d. padding_modifier d \<Longrightarrow> P [''%'', d]"
    and "\<And>d c chs. padding_modifier d \<Longrightarrow> P chs \<Longrightarrow> P (''%'' # d # c # chs)"
    and "\<And>d chs. \<not> padding_modifier d \<Longrightarrow> P chs \<Longrightarrow> P (''%'' # d # chs)"
  shows "P chs"
proof (induction chs rule: pieces.induct)
  case (2 ch chs)
  show ?case
  proof (cases "ch = ''%''")
    case True
    show ?thesis
    proof (cases chs)
      case (Cons d rest)
      with 2(2,3) True assms(4-6) show ?thesis by (cases "padding_modifier d"; cases rest) simp_all
    qed (simp add: True assms(3))
  qed (use 2(1) assms(2) in simp)
qed (rule assms(1))

lemma directives_within_pieces:
  "count \<le> MAX_DATE_FORMAT_DIRECTIVES \<Longrightarrow>
     directives_within chs count \<longleftrightarrow>
       count + length (filter (\<lambda>p. \<not> is_literal p) (pieces chs)) \<le> MAX_DATE_FORMAT_DIRECTIVES"
  by (induction chs arbitrary: count rule: format_induct) simp_all

lemma slice_from_next:
  assumes "take i f @ concat chs = f" and "chs = ch # rest" and "i \<le> length f" and "k \<le> i"
  shows "slice f k i @ ch = slice f k (i + length ch)" and "i + length ch \<le> length f"
    and "slice f i (i + length ch) = ch"
    and "take (i + length ch) f @ concat rest = f"
proof -
  have f: "f = take i f @ ch @ concat rest" using assms(1,2) by simp
  show le: "i + length ch \<le> length f" using assms(3) by (subst f) simp
  have d: "drop i f = ch @ concat rest" using assms(3) by (subst f) simp
  then show sl: "slice f i (i + length ch) = ch" by (simp add: slice_def)
  show "slice f k i @ ch = slice f k (i + length ch)"
    using slice_append [of k i "i + length ch" f] assms(4) sl by simp
  show "take (i + length ch) f @ concat rest = f" using f d by (simp add: take_add)
qed

lemma strftime_loop_pieces:
  assumes "take i f @ concat chs = f" and "i \<le> length f" and "k \<le> i"
  shows "strftime_loop C flavor f chs i k rendered = render_pieces C flavor f (pieces chs) (rendered @ slice f k i)"
  using assms
proof (induction chs arbitrary: i k rendered rule: format_induct)
  case Nil
  then have "i = length f" by (metis append_Nil2 concat.simps(1) length_take min.absorb2)
  then show ?case by (simp add: slice_def)
next
  case (Literal ch chs)
  note n = slice_from_next [OF Literal(3) refl Literal(4,5)]
  from Literal(1,2) n Literal(5) show ?case by simp
next
  case Percent
  note n = slice_from_next [OF Percent(1) refl Percent(2,3)]
  then have "drop (i + 1) f = []" using Percent(1) by auto
  with n show ?case by (simp add: unfinished_message_def)
next
  case (Padding d)
  note n = slice_from_next [OF Padding(2) refl Padding(3,4)]
  note m = slice_from_next [OF n(4) refl n(2) le_add1 [of i]]
  have "drop (i + 1 + length d) f = []" using m(2,4) by (metis append_Nil2 concat.simps(1) drop_all length_take min.absorb2 order_refl One_nat_def length_Cons list.size(3))
  with n m Padding(1) show ?case by (auto simp: unfinished_message_def padding_modifier_def)
next
  case (Padded d c chs)
  note n = slice_from_next [OF Padded(3) refl Padded(4,5)]
  note m = slice_from_next [OF n(4) refl n(2) le_add1 [of i]]
  note l = slice_from_next [OF m(4) refl m(2), of i]
  have "slice f i (i + length ''%'' + length d + length c) = ''%'' @ d @ c"
    by (simp only: l(1) [symmetric] m(1) [symmetric] n(3) append_assoc)
  with Padded(1,2) n m l show ?case by (simp split: sum.split)
next
  case (Directive d chs)
  note n = slice_from_next [OF Directive(3) refl Directive(4,5)]
  note m = slice_from_next [OF n(4) refl n(2) le_add1 [of i]]
  from Directive(1,2) n m show ?case by (simp split: sum.split)
qed

lemma format_strftime_pieces:
  "strftime_loop C flavor f (chars f) 0 0 [] = render_pieces C flavor f (pieces (chars f)) []"
  using strftime_loop_pieces [of 0 f "chars f" 0 C flavor "[]"] by simp

lemma wikidot_render_pieces:
  assumes "\<And>rendered directive spec. snd (render_directive C rendered directive spec) = None"
  shows "\<exists>out. render_pieces C Wikidot f ps rendered = Inr out"
proof (induction ps arbitrary: rendered)
  case (Cons p ps)
  show ?case
  proof (cases p)
    case (Directive directive spec padded)
    have "\<exists>out. push_directive C Wikidot rendered directive spec padded = Inr out"
      using assms [of rendered directive spec]
      by (cases "render_directive C rendered directive spec") (auto simp: push_directive_def)
    then obtain out where "push_directive C Wikidot rendered directive spec padded = Inr out" by blast
    with Directive Cons.IH show ?thesis by simp
  qed (use Cons.IH in simp_all)
qed simp

text \<open>
  C24: A format that is within the limits is rendered piece by piece: the scan over its bytes does
  what rendering its pieces in order does; the pieces cover the format, and at most 64 of them are
  directives, complete or cut off.
\<close>

theorem date_format_pieces:
  assumes "date_format_within_limits f" and "to_datetime_tz (calendar T) item = Some datetime"
  shows "format_strftime T item f language flavor = render_pieces (context_of T datetime language) flavor f (pieces (chars f)) []
    \<and> concat (map written_form (pieces (chars f))) = f
    \<and> length (filter (\<lambda>p. \<not> is_literal p) (pieces (chars f))) \<le> 64"
proof -
  have "format_strftime T item f language flavor = strftime_loop (context_of T datetime language) flavor f (chars f) 0 0 []"
    using assms by (cases item) (simp_all add: format_strftime_def)
  moreover have "directives_within (chars f) 0" using assms(1) by (simp add: date_format_within_limits_def)
  ultimately show ?thesis
    by (simp add: format_strftime_pieces pieces_written directives_within_pieces MAX_DATE_FORMAT_DIRECTIVES_def)
qed

text \<open>A calendar whose instants are timestamps with an offset, and texts that echo their directive.\<close>

definition plain_calendar :: "(int, int, int \<times> int) time_library" where
  "plain_calendar =
     \<lparr>midnight = (\<lambda>days. 86400 * days), assume_offset = (\<lambda>ts offset. (ts - offset, offset)),
      assume_utc = (\<lambda>ts. (ts, 0)), unix_timestamp = fst, whole_seconds = snd,
      zoned_year = (\<lambda>(ts, offset). fst (civil_from_days ((ts + offset) div 86400))),
      zoned_month = (\<lambda>(ts, offset). nat (fst (snd (civil_from_days ((ts + offset) div 86400))))),
      zoned_day = (\<lambda>(ts, offset). nat (snd (snd (civil_from_days ((ts + offset) div 86400))))),
      zoned_hour = (\<lambda>(ts, offset). nat ((ts + offset) mod 86400 div 3600)),
      zoned_minute = (\<lambda>(ts, offset). nat ((ts + offset) mod 3600 div 60))\<rparr>"

definition echo_texts :: "bytes formatters" where
  "echo_texts =
     \<lparr>weekday_text = (\<lambda>short. (''Friday'', None)), month_text = (\<lambda>short. (''January'', None)),
      datetime_text = (''now'', None), relative_text = (\<lambda>n unit auto. (''soon'', None)),
      day_period_text = (''AM'', None), time_text = (\<lambda>half. (''8:10'', None)), date_text = (''today'', None),
      unlocalized_text = (\<lambda>spec. (spec, None)), lowercase = id\<rparr>"

definition plain_libraries :: "(int, int, int \<times> int, bytes) date_libraries" where
  "plain_libraries = \<lparr>calendar = plain_calendar, localized = (\<lambda>datetime language. echo_texts), now = 0\<rparr>"

lemma date_format_pieces_witness:
  "format_strftime plain_libraries (DateTimeTz (0, 3600)) ''%a %z%'' ''en'' Wikidot = Inr ''Friday GMT+01%''"
proof -
  have "date_format_within_limits ''%a %z%''"
    by (simp add: date_format_within_limits_def MAX_DATE_FORMAT_BYTES_def MAX_DATE_FORMAT_DIRECTIVES_def
        utf8_width_def padding_modifier_def)
  moreover have "to_datetime_tz (calendar plain_libraries) (DateTimeTz (0, 3600)) = Some (0, 3600)" by simp
  ultimately have run: "format_strftime plain_libraries (DateTimeTz (0, 3600)) ''%a %z%'' ''en'' Wikidot =
      render_pieces (context_of plain_libraries (0, 3600) ''en'') Wikidot ''%a %z%'' (pieces (chars ''%a %z%'')) []"
    by (rule date_format_pieces [THEN conjunct1])
  have "char_of (49::nat) = CHR ''1''" "char_of (48::nat) = CHR ''0''" by code_simp+
  then have "render_pieces (context_of plain_libraries (0, 3600) ''en'') Wikidot ''%a %z%'' (pieces (chars ''%a %z%'')) [] = Inr ''Friday GMT+01%''"
    by (simp add: utf8_width_def padding_modifier_def push_directive_def wikidot_format_directive_def render_directive_def
        context_of_def plain_libraries_def plain_calendar_def echo_texts_def append_normalized_display_def
        normalized_display_def no_break_space_def append_timezone_gmt_def signed_divide_int_def signed_modulo_int_def
        zero_padded_def decimal.simps)
  with run show ?thesis by simp
qed

text \<open>
  A relative time is phrased with the largest unit that the distance reaches, as a number of whole
  units that is never zero except for seconds.
\<close>

lemma relative_time_units:
  assumes "relative_time_value t0 ts = (n, unit)"
  shows "unit = 0 \<and> \<bar>n\<bar> < 60 \<or> unit = 1 \<and> 0 < \<bar>n\<bar> \<and> \<bar>n\<bar> < 60 \<or> unit = 2 \<and> 0 < \<bar>n\<bar> \<and> \<bar>n\<bar> < 24 \<or> unit = 3 \<and> 0 < \<bar>n\<bar>"
proof -
  define delta where "delta = ts - t0"
  have abs: "\<bar>delta sdiv k\<bar> = \<bar>delta\<bar> div k" if "0 < k" for k
    using that by (cases "delta = 0") (simp_all add: signed_divide_int_def abs_mult abs_sgn_eq pos_imp_zdiv_nonneg_iff)
  have pos: "k \<le> \<bar>delta\<bar> \<Longrightarrow> 0 < k \<Longrightarrow> 0 < \<bar>delta sdiv k\<bar>" for k
    using le_div [of k 1 "\<bar>delta\<bar>"] by (simp add: abs)
  have less: "\<bar>delta\<bar> < k * c + k \<Longrightarrow> 0 < k \<Longrightarrow> \<bar>delta sdiv k\<bar> < c + 1" for k c
    using div_le [of k "\<bar>delta\<bar>" c] by (simp add: abs)
  note branch = assms [unfolded relative_time_value_def Let_def, folded delta_def]
  consider "\<bar>delta\<bar> < 60" | "60 \<le> \<bar>delta\<bar>" "\<bar>delta\<bar> < 3600" | "3600 \<le> \<bar>delta\<bar>" "\<bar>delta\<bar> < 86400" | "86400 \<le> \<bar>delta\<bar>"
    by linarith
  then show ?thesis
  proof cases
    case 2
    then have "n = delta sdiv 60 \<and> unit = 1" using branch by (simp split: if_splits)
    with 2 pos [of 60] less [of 60 59] show ?thesis by simp
  next
    case 3
    then have "n = delta sdiv 3600 \<and> unit = 2" using branch by (simp split: if_splits)
    with 3 pos [of 3600] less [of 3600 23] show ?thesis by simp
  next
    case 4
    then have "n = delta sdiv 86400 \<and> unit = 3" using branch by (simp split: if_splits)
    with 4 pos [of 86400] show ?thesis by simp
  qed (use branch in simp)
qed

end
