(* ===== verification/Raw_Escapes.thy ===== *)
theory Raw_Escapes
  imports Url Text_Ranges
begin

text \<open>
  \<open>src/src/wikidot_raw_escape.rs\<close>: the complete raw inline constructs \<open>@<...>@\<close> and \<open>@@...@@\<close> that are
  escaped before parsing, and the percent encoding of texts that carry their placeholders; and the users
  of both in \<open>src/src/parsing/rule/impls/block/parser.rs\<close>, which write the placeholders into attribute
  values.  An escape is the pair of its start and end.
\<close>

subsection \<open>Raw constructs\<close>

definition line_end :: "char \<Rightarrow> bool" where
  "line_end c \<longleftrightarrow> c = CHR 0x0A \<or> c = CHR 0x0D"

text \<open>The end of the construct that opens with \<open>@<\<close> at \<open>i\<close>: the first \<open>>@\<close> of the line.\<close>

definition html_close :: "bytes \<Rightarrow> nat \<Rightarrow> nat option" where
  "html_close source i =
     (if source ! i = CHR ''@'' \<and> source ! (i + 1) = CHR ''<''
      then map_option (\<lambda>relative. i + 2 + relative + 2)
             (find_sub ''>@'' (takeWhile (\<lambda>c. \<not> line_end c) (drop (i + 2) source)))
      else None)"

function html_escapes :: "bytes \<Rightarrow> nat \<Rightarrow> (nat \<times> nat) list" where
  "html_escapes source i =
     (if i + 1 < length source
      then (case html_close source i of
              Some e \<Rightarrow> (i, e) # html_escapes source e
            | None \<Rightarrow> html_escapes source (i + 1))
      else [])"
  by pat_completeness auto
termination
  by (relation "measure (\<lambda>(source, i). length source - i)") (auto simp: html_close_def split: if_splits)

declare html_escapes.simps [simp del]

definition scan_raw_html_escapes :: "bytes \<Rightarrow> (nat \<times> nat) list" where
  "scan_raw_html_escapes source = html_escapes source 0"

definition inside :: "nat \<Rightarrow> nat \<times> nat \<Rightarrow> bool" where
  "inside i escape \<longleftrightarrow> fst escape \<le> i \<and> i < snd escape"

function at_close :: "bytes \<Rightarrow> (nat \<times> nat) list \<Rightarrow> nat \<Rightarrow> nat option" where
  "at_close source html cursor =
     (if cursor + 1 < length source
      then if list_ex (inside cursor) html then None
           else if line_end (source ! cursor) then None
           else if source ! cursor = CHR ''@'' \<and> source ! (cursor + 1) = CHR ''@'' then Some cursor
           else at_close source html (cursor + 1)
      else None)"
  by pat_completeness auto
termination by (relation "measure (\<lambda>(source, html, cursor). length source - cursor)") auto

declare at_close.simps [simp del]

function skip_at_pairs :: "bytes \<Rightarrow> nat \<Rightarrow> nat" where
  "skip_at_pairs source i =
     (if i + 1 < length source \<and> source ! i = CHR ''@'' \<and> source ! (i + 1) = CHR ''@''
      then skip_at_pairs source (i + 2) else i)"
  by pat_completeness auto
termination by (relation "measure (\<lambda>(source, i). length source - i)") auto

declare skip_at_pairs.simps [simp del]

lemma skip_at_pairs_ge: "i \<le> skip_at_pairs source i"
proof (induction source i rule: skip_at_pairs.induct)
  case (1 source i)
  then show ?case by (subst skip_at_pairs.simps) auto
qed

lemma at_close_Some:
  "at_close source html cursor = Some c \<Longrightarrow>
     cursor \<le> c \<and> c + 1 < length source \<and> source ! c = CHR ''@'' \<and> source ! (c + 1) = CHR ''@'' \<and>
     (\<forall>k. cursor \<le> k \<and> k \<le> c \<longrightarrow> \<not> line_end (source ! k) \<and> \<not> list_ex (inside k) html)"
proof (induction source html cursor rule: at_close.induct)
  case (1 source html cursor)
  from 1(2) have guard: "cursor + 1 < length source" "\<not> list_ex (inside cursor) html" "\<not> line_end (source ! cursor)"
    by (auto simp: at_close.simps [of source html cursor] split: if_splits)
  show ?case
  proof (cases "source ! cursor = CHR ''@'' \<and> source ! (cursor + 1) = CHR ''@''")
    case True
    with 1(2) guard have "c = cursor" by (simp add: at_close.simps [of source html cursor])
    with True guard show ?thesis by auto
  next
    case False
    with 1(2) guard have rest: "at_close source html (cursor + 1) = Some c"
      by (simp add: at_close.simps [of source html cursor] split: if_splits)
    note ih = 1(1) [OF guard False rest]
    have "\<not> line_end (source ! k) \<and> \<not> list_ex (inside k) html" if "cursor \<le> k" "k \<le> c" for k
      using that ih guard(2,3) by (cases "k = cursor") simp_all
    with ih show ?thesis by auto
  qed
qed

lemma find_inside: "find (inside i) html = Some escape \<Longrightarrow> i < snd escape"
  by (auto simp: inside_def find_Some_iff)

lemma after_at_close: "at_close source html cursor = Some c \<Longrightarrow> cursor < skip_at_pairs source (Suc (Suc c))"
  using at_close_Some [of source html cursor c] skip_at_pairs_ge [of "Suc (Suc c)" source] by auto

function at_escapes :: "bytes \<Rightarrow> (nat \<times> nat) list \<Rightarrow> nat \<Rightarrow> (nat \<times> nat) list" where
  "at_escapes source html i =
     (if i + 1 < length source
      then (case find (inside i) html of
              Some escape \<Rightarrow> at_escapes source html (snd escape)
            | None \<Rightarrow>
                (case if source ! i = CHR ''@'' \<and> source ! (i + 1) = CHR ''@'' then at_close source html (i + 2) else None of
                   Some close \<Rightarrow> (i, close + 2) # at_escapes source html (skip_at_pairs source (close + 2))
                 | None \<Rightarrow> at_escapes source html (i + 1)))
      else [])"
  by pat_completeness auto
termination
  by (relation "measure (\<lambda>(source, html, i). length source - i)")
    (auto dest: find_inside after_at_close split: if_splits)

declare at_escapes.simps [simp del]

definition scan_raw_at_escapes :: "bytes \<Rightarrow> (nat \<times> nat) list \<Rightarrow> (nat \<times> nat) list" where
  "scan_raw_at_escapes source html = at_escapes source html 0"

definition raw_escapes :: "bytes \<Rightarrow> (nat \<times> nat) list" where
  "raw_escapes source =
     (let html = scan_raw_html_escapes source in html @ scan_raw_at_escapes source html)"

subsection \<open>Percent encoding with placeholders\<close>

definition PLACEHOLDER_OPEN :: bytes where "PLACEHOLDER_OPEN = [CHR 0xEE, CHR 0x80, CHR 0x80]"
definition PLACEHOLDER_CLOSE :: bytes where "PLACEHOLDER_CLOSE = [CHR 0xEE, CHR 0x80, CHR 0x81]"

definition unreserved :: "char \<Rightarrow> bool" where
  "unreserved b \<longleftrightarrow> is_alnum b \<or> b = CHR ''-'' \<or> b = CHR ''_'' \<or> b = CHR ''.'' \<or> b = CHR ''~''"

definition push_plain :: "bytes \<Rightarrow> bytes \<Rightarrow> bytes" where
  "push_plain out ch =
     out @ concat (map (\<lambda>b. if unreserved b then [b]
                              else [CHR ''%'', hex_digit (byte b div 16), hex_digit (byte b mod 16)]) ch)"

definition digit_char :: "bytes \<Rightarrow> bool" where
  "digit_char ch \<longleftrightarrow> (case ch of [b] \<Rightarrow> is_digit b | _ \<Rightarrow> False)"

text \<open>The digits of a placeholder and the characters after them; no digits when another character follows.\<close>

fun placeholder_digits :: "bytes list \<Rightarrow> bytes \<Rightarrow> bytes \<times> bytes list" where
  "placeholder_digits [] digits = (digits, [])"
| "placeholder_digits (ch # chs) digits =
     (if ch = PLACEHOLDER_CLOSE then (digits, chs)
      else if digit_char ch then placeholder_digits chs (digits @ ch)
      else ([], ch # chs))"

lemma placeholder_digits_length: "length (snd (placeholder_digits chs digits)) \<le> length chs"
  by (induction chs digits rule: placeholder_digits.induct) auto

function percent_loop :: "bytes list \<Rightarrow> bytes \<Rightarrow> bytes" where
  "percent_loop [] out = out"
| "percent_loop (ch # chs) out =
     (if ch \<noteq> PLACEHOLDER_OPEN then percent_loop chs (push_plain out ch)
      else let (digits, rest) = placeholder_digits chs []
        in if digits = [] then percent_loop rest (push_plain out ch)
           else percent_loop rest (out @ ''%FF'' @ digits @ ''%FF''))"
  by pat_completeness auto
termination
  by (relation "measure (\<lambda>(chs, out). length chs)")
    (auto dest!: arg_cong [of _ _ snd] intro!: le_imp_less_Suc placeholder_digits_length)

definition push_percent_encoded_placeholders :: "bytes \<Rightarrow> bytes \<Rightarrow> bytes" where
  "push_percent_encoded_placeholders out s = percent_loop (chars s) out"

subsection \<open>Placeholders in attribute values\<close>

text \<open>Push \<open>source[cursor..e]\<close> without the elided ranges, which are in the order of their starts.\<close>

fun push_attribute_plain :: "bytes \<Rightarrow> bytes \<Rightarrow> (nat \<times> nat) list \<Rightarrow> nat \<Rightarrow> nat \<Rightarrow> bytes" where
  "push_attribute_plain out source [] cursor e =
     (if cursor < e then out @ slice source cursor e else out)"
| "push_attribute_plain out source ((a, b) # elisions) cursor e =
     (if b \<le> cursor \<or> a \<ge> e then push_attribute_plain out source elisions cursor e
      else let start = max a cursor
        in push_attribute_plain (if start > cursor then out @ slice source cursor start else out) source elisions (min b e) e)"

fun push_escapes :: "bytes \<Rightarrow> bytes \<Rightarrow> (nat \<times> nat) list \<Rightarrow> (nat \<times> nat \<times> nat) list \<Rightarrow> nat \<Rightarrow> bytes \<times> nat" where
  "push_escapes out source elisions [] cursor = (out, cursor)"
| "push_escapes out source elisions ((ordinal, a, b) # escapes) cursor =
     push_escapes (push_attribute_plain out source elisions cursor a @ PLACEHOLDER_OPEN @ decimal (ordinal + 1) @ PLACEHOLDER_CLOSE)
       source elisions escapes b"

definition encoded_attribute_value ::
  "bytes \<Rightarrow> (nat \<times> nat) list \<Rightarrow> (nat \<times> nat) list \<Rightarrow> nat \<Rightarrow> nat \<Rightarrow> bytes option" where
  "encoded_attribute_value source comments segments i e =
     (let escapes = filter (\<lambda>(ordinal, a, b). i \<le> a \<and> b \<le> e) (enumerate 0 (raw_escapes source))
      in if escapes = [] then None
         else let elisions = sort_key fst (comments @ segments);
                  (out, cursor) = push_escapes [] source elisions (sort_key (\<lambda>(ordinal, a, b). a) escapes) i
           in Some (push_attribute_plain out source elisions cursor e))"

text \<open>The ranges of an attribute head that a form feed garbles: up to the end of the second next quote.\<close>

fun second_quote :: "bytes \<Rightarrow> nat \<Rightarrow> nat \<Rightarrow> nat" where
  "second_quote [] cursor quotes = cursor"
| "second_quote (c # cs) cursor quotes =
     (if quotes < 2 then second_quote cs (cursor + 1) (if c = CHR 0x22 then quotes + 1 else quotes) else cursor)"

lemma second_quote_ge: "cursor \<le> second_quote cs cursor quotes"
  by (induction cs cursor quotes rule: second_quote.induct) auto

function formfeed_garbles :: "bytes \<Rightarrow> nat \<Rightarrow> bool \<Rightarrow> (nat \<times> nat) list" where
  "formfeed_garbles bs i in_quote =
     (if i < length bs
      then if bs ! i = CHR 0x22 then formfeed_garbles bs (i + 1) (\<not> in_quote)
           else if bs ! i = CHR 0x0C \<and> \<not> in_quote
           then let cursor = second_quote (drop (i + 1) bs) (i + 1) 0
             in (i, cursor) # formfeed_garbles bs cursor False
           else formfeed_garbles bs (i + 1) in_quote
      else [])"
  by pat_completeness auto
termination
  by (relation "measure (\<lambda>(bs, i, in_quote). length bs - i)")
    (auto intro!: diff_less_mono2 less_le_trans [OF _ second_quote_ge])

declare formfeed_garbles.simps [simp del]

definition head_formfeed_garble_ranges :: "bytes \<Rightarrow> (nat \<times> nat) list" where
  "head_formfeed_garble_ranges head = formfeed_garbles head 0 False"

subsection \<open>The constructs found\<close>

fun in_order :: "nat \<Rightarrow> nat \<Rightarrow> (nat \<times> nat) list \<Rightarrow> bool" where
  "in_order pos n [] \<longleftrightarrow> True"
| "in_order pos n ((i, e) # rs) \<longleftrightarrow> pos \<le> i \<and> i < e \<and> e \<le> n \<and> in_order e n rs"

lemma in_order_weaken: "in_order i n rs \<Longrightarrow> j \<le> i \<Longrightarrow> in_order j n rs"
  by (cases rs) auto

text \<open>A construct with its delimiters, on one line.\<close>

definition construct :: "bytes \<Rightarrow> bytes \<Rightarrow> bytes \<Rightarrow> nat \<times> nat \<Rightarrow> bool" where
  "construct source opener closer r \<longleftrightarrow>
     (case r of (i, e) \<Rightarrow> i + 4 \<le> e \<and> has source i opener \<and> has source (e - 2) closer \<and>
        (\<forall>k < e. i \<le> k \<longrightarrow> \<not> line_end (source ! k)))"

lemma has_two: "has source i [a, b] \<longleftrightarrow> i + 1 < length source \<and> source ! i = a \<and> source ! (i + 1) = b"
proof
  assume "has source i [a, b]"
  then show "i + 1 < length source \<and> source ! i = a \<and> source ! (i + 1) = b"
    using has_length [of source i "[a, b]"] has_nth [of source i "[a, b]" 0] has_nth [of source i "[a, b]" 1] by simp
next
  assume r: "i + 1 < length source \<and> source ! i = a \<and> source ! (i + 1) = b"
  then have "drop i source = a # b # drop (i + 2) source"
    by (metis Cons_nth_drop_Suc Suc_1 Suc_eq_plus1 Suc_lessD add_Suc_right)
  with r show "has source i [a, b]" by (simp add: has_iff)
qed

lemma html_close_construct:
  assumes "html_close source i = Some e" and "i + 1 < length source"
  shows "construct source ''@<'' ''>@'' (i, e)" and "e \<le> length source"
proof -
  define line where "line = takeWhile (\<lambda>c. \<not> line_end c) (drop (i + 2) source)"
  from assms(1) obtain r where open': "source ! i = CHR ''@''" "source ! (i + 1) = CHR ''<''"
    and r: "find_sub ''>@'' line = Some r" and e: "e = i + 2 + r + 2"
    by (auto simp: html_close_def line_def split: if_splits)
  from find_sub_Some [OF r] have close: "r + 2 \<le> length line" "starts_with (drop r line) ''>@''" by simp_all
  have no_end: "\<forall>c \<in> set line. \<not> line_end c" by (auto simp: line_def dest: set_takeWhileD)
  have line: "line ! k = source ! (i + 2 + k)" "\<not> line_end (line ! k)" if "k < length line" for k
    using no_end nth_mem [OF that] that takeWhile_nth [of k "\<lambda>c. \<not> line_end c" "drop (i + 2) source"]
      length_takeWhile_le [of "\<lambda>c. \<not> line_end c" "drop (i + 2) source"]
    by (simp add: line_def, blast)
  have len: "length line \<le> length source - (i + 2)"
    using length_takeWhile_le [of "\<lambda>c. \<not> line_end c" "drop (i + 2) source"] by (simp add: line_def)
  then show "e \<le> length source" using close(1) assms(2) e by simp
  have "has line r ''>@''" using close by (simp add: has_iff)
  then have "line ! r = CHR ''>''" "line ! (r + 1) = CHR ''@''" by (simp_all add: has_two)
  then have "source ! (e - 2) = CHR ''>''" "source ! (e - 1) = CHR ''@''" using close(1) line(1) e by simp_all
  moreover have "e - 2 + 1 < length source" using len close(1) e by simp
  moreover have "e - 2 + 1 = e - 1" using e by simp
  ultimately have h: "has source (e - 2) ''>@''" unfolding has_two by (metis (no_types))
  have "\<not> line_end (source ! k)" if "i \<le> k" "k < e" for k
  proof -
    consider "k = i" | "k = i + 1" | "i + 2 \<le> k" using \<open>i \<le> k\<close> by linarith
    then show ?thesis
    proof cases
      case 3
      then obtain j where "k = i + 2 + j" using le_Suc_ex by blast
      then show ?thesis using line [of j] that(2) close(1) e by simp
    qed (use open' in \<open>simp_all add: line_end_def\<close>)
  qed
  with h open' assms(2) e show "construct source ''@<'' ''>@'' (i, e)" by (simp add: construct_def has_two)
qed

lemma html_escapes_ok:
  "in_order i (length source) (html_escapes source i) \<and>
   (\<forall>r \<in> set (html_escapes source i). construct source ''@<'' ''>@'' r)"
proof (induction source i rule: html_escapes.induct)
  case (1 source i)
  show ?case
  proof (cases "i + 1 < length source")
    case True
    show ?thesis
    proof (cases "html_close source i")
      case None
      with 1 True show ?thesis
        by (simp add: html_escapes.simps [of source i] in_order_weaken [of "Suc i"])
    next
      case (Some e)
      with 1 True html_close_construct [OF Some True] show ?thesis
        by (auto simp: html_escapes.simps [of source i] construct_def)
    qed
  qed (simp add: html_escapes.simps [of source i])
qed

lemma html_escapes_complete:
  "html_close source k = Some e \<Longrightarrow> k + 1 < length source \<Longrightarrow> i \<le> k \<Longrightarrow> list_ex (inside k) (html_escapes source i)"
proof (induction source i rule: html_escapes.induct)
  case (1 source i)
  then have i: "i + 1 < length source" by simp
  show ?case
  proof (cases "html_close source i")
    case None
    with 1 i show ?thesis by (cases "k = i") (auto simp: html_escapes.simps [of source i])
  next
    case (Some e')
    with 1 i show ?thesis by (cases "k < e'") (auto simp: html_escapes.simps [of source i] inside_def)
  qed
qed

lemma at_escapes_ok:
  "in_order i (length source) (at_escapes source html i) \<and>
   (\<forall>r \<in> set (at_escapes source html i). construct source ''@@'' ''@@'' r \<and>
      (\<forall>k. fst r \<le> k \<and> k + 1 < snd r \<and> k \<noteq> fst r + 1 \<longrightarrow> \<not> list_ex (inside k) html))"
proof (induction source html i rule: at_escapes.induct)
  case (1 source html i)
  show ?case
  proof (cases "i + 1 < length source")
    case True
    show ?thesis
    proof (cases "find (inside i) html")
      case (Some r)
      with 1(3) [OF True Some] True find_inside [OF Some] show ?thesis
        by (auto simp: at_escapes.simps [of source html i] intro: in_order_weaken [of "snd r"])
    next
      case None
      define close where
        "close = (if source ! i = CHR ''@'' \<and> source ! (i + 1) = CHR ''@'' then at_close source html (i + 2) else None)"
      show ?thesis
      proof (cases close)
        case none: None
        with 1(1) [OF True None] True None show ?thesis
          by (simp add: at_escapes.simps [of source html i] close_def in_order_weaken [of "Suc i"] split: if_splits)
      next
        case (Some c)
        then have two: "source ! i = CHR ''@''" "source ! (i + 1) = CHR ''@''" and c: "at_close source html (i + 2) = Some c"
          by (auto simp: close_def split: if_splits)
        note at = at_close_Some [OF c]
        have outside: "\<not> list_ex (inside i) html" using None by (auto simp: find_None_iff list_ex_iff)
        have lines: "\<not> line_end (source ! k)" if "i \<le> k" "k < c + 2" for k
        proof -
          have "k = i \<or> k = i + 1 \<or> i + 2 \<le> k \<and> k \<le> c \<or> k = c + 1" using that by linarith
          then show ?thesis using at two by (auto simp: line_end_def)
        qed
        have "construct source ''@@'' ''@@'' (i, c + 2)"
          using lines two at True by (simp add: construct_def has_two)
        moreover have "\<not> list_ex (inside k) html" if "i \<le> k" "k + 1 < c + 2" "k \<noteq> i + 1" for k
          using that at outside by (cases "k = i") auto
        moreover have "in_order (c + 2) (length source) (at_escapes source html (skip_at_pairs source (c + 2)))"
          using 1(2) [OF True None] two c by (auto intro: in_order_weaken [OF _ skip_at_pairs_ge])
        ultimately show ?thesis
          using 1(2) [OF True None] True None two c at by (auto simp: at_escapes.simps [of source html i])
      qed
    qed
  qed (simp add: at_escapes.simps [of source html i])
qed

text \<open>
  C25: The raw constructs found are delimited and lie on one line each; those of either kind are
  disjoint and in order; every complete \<open>@<...>@\<close> that opens at some offset is found, unless an earlier one
  covers its opener; and a construct \<open>@@...@@\<close> shares at most its last byte with one of the others.
\<close>

theorem raw_constructs_found:
  "let html = scan_raw_html_escapes source; at = scan_raw_at_escapes source html in
     (\<forall>r \<in> set html. construct source ''@<'' ''>@'' r) \<and> (\<forall>r \<in> set at. construct source ''@@'' ''@@'' r) \<and>
     in_order 0 (length source) html \<and> in_order 0 (length source) at \<and>
     (\<forall>k e. html_close source k = Some e \<and> k + 1 < length source \<longrightarrow> list_ex (inside k) html) \<and>
     (\<forall>r \<in> set at. \<forall>k. fst r \<le> k \<and> k + 1 < snd r \<longrightarrow> \<not> list_ex (inside k) html)"
proof -
  define html where "html = scan_raw_html_escapes source"
  define at where "at = scan_raw_at_escapes source html"
  have html: "in_order 0 (length source) html" "\<forall>r \<in> set html. construct source ''@<'' ''>@'' r"
    using html_escapes_ok [of 0 source] by (auto simp: html_def scan_raw_html_escapes_def)
  have at: "in_order 0 (length source) at" "\<forall>r \<in> set at. construct source ''@@'' ''@@'' r"
    "\<forall>r \<in> set at. \<forall>k. fst r \<le> k \<and> k + 1 < snd r \<and> k \<noteq> fst r + 1 \<longrightarrow> \<not> list_ex (inside k) html"
    using at_escapes_ok [of 0 source html] by (auto simp: at_def scan_raw_at_escapes_def)
  have "\<not> list_ex (inside k) html" if r: "r \<in> set at" and k: "fst r \<le> k" "k + 1 < snd r" for r k
  proof (cases "k = fst r + 1")
    case True
    have "fst r + 4 \<le> snd r" using at(2) r by (auto simp: construct_def)
    then have out: "\<not> list_ex (inside (fst r)) html" "\<not> list_ex (inside (fst r + 2)) html" using at(3) r by auto
    have "False" if h: "h \<in> set html" "inside k h" for h
    proof -
      have "fst h + 4 \<le> snd h" using html(2) h(1) by (auto simp: construct_def)
      then have "inside (fst r) h \<or> inside (fst r + 2) h" using h(2) True by (auto simp: inside_def)
      with out h(1) show False by (auto simp: list_ex_iff)
    qed
    then show ?thesis by (auto simp: list_ex_iff)
  qed (use at(3) r k in blast)
  with html at html_escapes_complete [of source _ _ 0] show ?thesis
    unfolding Let_def html_def [symmetric] at_def [symmetric] by (auto simp: html_def scan_raw_html_escapes_def)
qed

lemma raw_constructs_found_witness:
  "construct ''@@a@@<b>@'' ''@<'' ''>@'' (4, 9) \<and> construct ''@@a@@<b>@'' ''@@'' ''@@'' (0, 5)"
proof -
  have "scan_raw_html_escapes ''@@a@@<b>@'' = [(4, 9)]" "scan_raw_at_escapes ''@@a@@<b>@'' [(4, 9)] = [(0, 5)]"
    by code_simp+
  with raw_constructs_found [of "''@@a@@<b>@''"] show ?thesis by simp
qed

text \<open>The last byte can indeed be shared: the constructs found in \<open>@@a@@<b>@\<close> overlap.\<close>

lemma raw_constructs_overlap: "raw_escapes ''@@a@@<b>@'' = [(4, 9), (0, 5)]"
  by code_simp

subsection \<open>Placeholders are spelled out\<close>

text \<open>The percent encoding of a text without placeholders, and its decoding.\<close>

definition percent_text :: "bytes \<Rightarrow> bytes" where
  "percent_text s = push_plain [] s"

fun percent_decode :: "bytes \<Rightarrow> bytes" where
  "percent_decode [] = []"
| "percent_decode (c # cs) =
     (case cs of
        a # b # rest \<Rightarrow>
          if c = CHR ''%'' then char_of (16 * hex_value a + hex_value b) # percent_decode rest
          else c # percent_decode cs
      | _ \<Rightarrow> c # percent_decode cs)"

lemma push_plain_text: "push_plain out s = out @ percent_text s"
  by (simp add: percent_text_def push_plain_def)

lemma percent_text_append: "percent_text (s @ t) = percent_text s @ percent_text t"
  by (simp add: percent_text_def push_plain_def)

lemma percent_text_Nil [simp]: "percent_text [] = []"
  by (simp add: percent_text_def push_plain_def)

lemma percent_decode_steps:
  "percent_decode (CHR ''%'' # a # b # rest) = char_of (16 * hex_value a + hex_value b) # percent_decode rest"
  "c \<noteq> CHR ''%'' \<Longrightarrow> percent_decode (c # cs) = c # percent_decode cs"
  by (auto split: list.splits)

declare percent_decode.simps(2) [simp del]

lemma percent_decode_text: "percent_decode (percent_text s) = s"
proof (induction s)
  case (Cons c s)
  have "byte c div 16 < 16" by (rule byte_high)
  moreover have "16 * (byte c div 16) + byte c mod 16 = byte c" by simp
  moreover have "unreserved c \<Longrightarrow> c \<noteq> CHR ''%''"
    by (auto simp: unreserved_def is_alnum_def is_alpha_def is_upper_def is_lower_def is_digit_def)
  ultimately show ?case
    using Cons percent_text_append [of "[c]" s]
    by (auto simp: percent_text_def push_plain_def hex_value_digit percent_decode_steps)
qed simp

text \<open>Text without the opening sentinel, and values that carry placeholders between such texts.\<close>

definition unmarked :: "bytes \<Rightarrow> bool" where
  "unmarked s \<longleftrightarrow> valid_utf8 s \<and> PLACEHOLDER_OPEN \<notin> set (chars s)"

fun with_placeholders :: "(bytes \<times> nat) list \<Rightarrow> bytes \<Rightarrow> bytes" where
  "with_placeholders [] tail = tail"
| "with_placeholders ((p, n) # ps) tail = p @ PLACEHOLDER_OPEN @ decimal n @ PLACEHOLDER_CLOSE @ with_placeholders ps tail"

fun spelled_placeholders :: "(bytes \<times> nat) list \<Rightarrow> bytes \<Rightarrow> bytes" where
  "spelled_placeholders [] tail = percent_text tail"
| "spelled_placeholders ((p, n) # ps) tail = percent_text p @ ''%FF'' @ decimal n @ ''%FF'' @ spelled_placeholders ps tail"

lemma percent_loop_plain: "PLACEHOLDER_OPEN \<notin> set chs \<Longrightarrow> percent_loop (chs @ rest) out = percent_loop rest (out @ percent_text (concat chs))"
  by (induction chs arbitrary: out) (auto simp: push_plain_text percent_text_append)

lemma placeholder_digits_decimal:
  "list_all is_digit ds \<Longrightarrow> placeholder_digits (map (\<lambda>c. [c]) ds @ PLACEHOLDER_CLOSE # rest) digits = (digits @ ds, rest)"
  by (induction ds arbitrary: digits) (auto simp: digit_char_def PLACEHOLDER_CLOSE_def)

lemma sentinel_chars: "utf8_char PLACEHOLDER_OPEN" "utf8_char PLACEHOLDER_CLOSE"
  by (simp_all add: PLACEHOLDER_OPEN_def PLACEHOLDER_CLOSE_def is_cont_def)

lemma percent_loop_placeholder:
  assumes "unmarked p"
  shows "percent_loop (chars (p @ PLACEHOLDER_OPEN @ decimal n @ PLACEHOLDER_CLOSE @ s)) out =
    percent_loop (chars s) (out @ percent_text p @ ''%FF'' @ decimal n @ ''%FF'')"
proof -
  have "chars (p @ PLACEHOLDER_OPEN @ decimal n @ PLACEHOLDER_CLOSE @ s) =
      chars p @ PLACEHOLDER_OPEN # map (\<lambda>c. [c]) (decimal n) @ PLACEHOLDER_CLOSE # chars s"
    using assms decimal_ascii [of n]
    by (simp add: unmarked_def chars_append chars_append_char sentinel_chars chars_append [OF ascii_valid] chars_ascii)
  moreover have "PLACEHOLDER_OPEN \<notin> set (chars p)" using assms by (simp add: unmarked_def)
  ultimately show ?thesis
    using placeholder_digits_decimal [OF decimal_digits, of n "chars s" "[]"] decimal_not_empty [of n]
    by (simp add: percent_loop_plain)
qed

lemma placeholders_spelled_out:
  assumes "\<forall>(p, n) \<in> set ps. unmarked p" and "unmarked tail"
  shows "push_percent_encoded_placeholders out (with_placeholders ps tail) = out @ spelled_placeholders ps tail"
  using assms(1) unfolding push_percent_encoded_placeholders_def
proof (induction ps arbitrary: out)
  case Nil
  have "percent_loop (chars tail @ []) out = percent_loop [] (out @ percent_text (concat (chars tail)))"
    using assms(2) by (intro percent_loop_plain) (simp add: unmarked_def)
  then show ?case by simp
next
  case (Cons x ps)
  obtain p n where x: "x = (p, n)" by (cases x)
  with Cons percent_loop_placeholder [of p n "with_placeholders ps tail" out] show ?case by simp
qed

lemma unmarked_append: "unmarked s \<Longrightarrow> unmarked t \<Longrightarrow> unmarked (s @ t)"
  by (simp add: unmarked_def valid_utf8_append chars_append)

lemma unmarked_Nil: "unmarked []"
  by (simp add: unmarked_def)

lemma unmarked_slice:
  assumes "unmarked s" and "boundary s i" and "boundary s j" and "i \<le> j" and "j \<le> length s"
  shows "unmarked (slice s i j)"
proof -
  have v: "valid_utf8 s" using assms(1) by (simp add: unmarked_def)
  have "valid_utf8 (take i s)" using boundary_split [OF v assms(2)] assms(4,5) by simp
  moreover have slice: "valid_utf8 (slice s i j)" using slice_valid [OF v assms(2-5)] .
  moreover have "s = take i s @ slice s i j @ drop j s"
    using assms(4,5) by (metis append_assoc append_take_drop_id le_add_diff_inverse slice_def take_add)
  ultimately have "set (chars (slice s i j)) \<subseteq> set (chars s)" by (metis chars_append set_append Un_subset_iff sup_ge1 sup_ge2)
  with slice assms(1) show ?thesis by (auto simp: unmarked_def)
qed

lemma push_attribute_plain_ok:
  assumes "unmarked source" and "boundary source e" and "e \<le> length source"
    and "\<forall>(a, b) \<in> set elisions. boundary source a \<and> boundary source b" and "boundary source cursor"
  shows "\<exists>p. push_attribute_plain out source elisions cursor e = out @ p \<and> unmarked p"
  using assms(4,5)
proof (induction elisions arbitrary: out cursor)
  case Nil
  then show ?case
    using assms(1-3) unmarked_slice [of source cursor e] by (auto intro: unmarked_Nil)
next
  case (Cons r elisions)
  obtain a b where r: "r = (a, b)" by (cases r)
  show ?case
  proof (cases "b \<le> cursor \<or> a \<ge> e")
    case True
    with Cons r show ?thesis by simp
  next
    case False
    define start where "start = max a cursor"
    define q where "q = (if start > cursor then slice source cursor start else [])"
    have "boundary source (min b e)" using Cons.prems r assms(2) by (simp add: min_def)
    then obtain p where p: "push_attribute_plain (out @ q) source elisions (min b e) e = (out @ q) @ p" "unmarked p"
      using Cons.IH [of "min b e" "out @ q"] Cons.prems by auto
    have "unmarked q"
      using False Cons.prems r assms(1,3) unmarked_slice [of source cursor start]
      by (auto simp: q_def start_def max_def unmarked_Nil)
    with p(2) have "unmarked (q @ p)" by (intro unmarked_append)
    moreover have "push_attribute_plain out source ((a, b) # elisions) cursor e = push_attribute_plain (out @ q) source elisions (min b e) e"
      using False by (simp add: q_def start_def Let_def)
    ultimately show ?thesis using p(1) r by auto
  qed
qed

lemma push_escapes_ok:
  assumes "unmarked source" and "\<forall>(a, b) \<in> set elisions. boundary source a \<and> boundary source b"
    and "\<forall>(ordinal, a, b) \<in> set escapes. boundary source a \<and> boundary source b \<and> a \<le> length source" and "boundary source cursor"
  shows "\<exists>ps. fst (push_escapes out source elisions escapes cursor) @ tail = out @ with_placeholders ps tail \<and>
    boundary source (snd (push_escapes out source elisions escapes cursor)) \<and>
    map snd ps = map (\<lambda>escape. fst escape + 1) escapes \<and> (\<forall>(p, n) \<in> set ps. unmarked p)"
  using assms(3,4)
proof (induction escapes arbitrary: out cursor)
  case (Cons r escapes)
  obtain n a b where r: "r = (n, a, b)" by (cases r)
  obtain p where p: "push_attribute_plain out source elisions cursor a = out @ p" "unmarked p"
    using push_attribute_plain_ok [OF assms(1) _ _ assms(2) Cons.prems(2), of a out] Cons.prems(1) r by auto
  define out' where "out' = out @ p @ PLACEHOLDER_OPEN @ decimal (n + 1) @ PLACEHOLDER_CLOSE"
  have "\<forall>(ordinal, a, b) \<in> set escapes. boundary source a \<and> boundary source b \<and> a \<le> length source" "boundary source b"
    using Cons.prems(1) r by auto
  from Cons.IH [OF this, of out'] obtain ps where ps: "fst (push_escapes out' source elisions escapes b) @ tail = out' @ with_placeholders ps tail"
    "boundary source (snd (push_escapes out' source elisions escapes b))"
    "map snd ps = map (\<lambda>escape. fst escape + 1) escapes" "\<forall>(p, n) \<in> set ps. unmarked p" by blast
  have "push_escapes out source elisions (r # escapes) cursor = push_escapes out' source elisions escapes b"
    by (simp add: r p(1) out'_def)
  with ps p(2) r show ?case by (intro exI [of _ "(p, n + 1) # ps"]) (simp add: out'_def)
qed simp

lemma construct_boundary:
  assumes "valid_utf8 source" and "construct source [a, b] [c, d] (i, e)" and "list_all is_ascii [a, b, c, d]"
  shows "boundary source i" and "boundary source e" and "i \<le> length source"
proof -
  have i: "i + 1 < length source" "source ! i = a" and e: "e - 2 + 1 < length source" "source ! (e - 2) = c"
    and close: "has source (e - 2) [c, d]" and four: "i + 4 \<le> e"
    using assms(2) by (simp_all add: construct_def has_two)
  show "boundary source i" using i assms(3) by (intro boundary_of_ascii) simp_all
  show "i \<le> length source" using i by simp
  have "boundary source (e - 2)" using e assms(3) by (intro boundary_of_ascii) simp_all
  from boundary_lit [OF assms(1) close _ this] have "boundary source (e - 2 + length [c, d])" using assms(3) by simp
  moreover have "e - 2 + length [c, d] = e" using four by simp
  ultimately show "boundary source e" by (simp only:)
qed

lemma raw_escape_boundary:
  assumes "valid_utf8 source" and "(i, e) \<in> set (raw_escapes source)"
  shows "boundary source i" and "boundary source e" and "i \<le> length source"
proof -
  have "construct source ''@<'' ''>@'' (i, e) \<or> construct source ''@@'' ''@@'' (i, e)"
    using assms(2) html_escapes_ok [of 0 source] at_escapes_ok [of 0 source "scan_raw_html_escapes source"]
    by (auto simp: raw_escapes_def Let_def scan_raw_html_escapes_def scan_raw_at_escapes_def)
  then show "boundary source i" "boundary source e" "i \<le> length source"
    using construct_boundary [OF assms(1)] by (auto simp: is_ascii_def)
qed

text \<open>
  C26: The format of a date whose attribute value holds raw constructs, in a source that does not
  itself contain the opening sentinel U+E000: the value carries exactly one placeholder for each
  construct within it, in the order of their positions, numbered from 1 in the order in which the two
  passes find them (all \<open>@<...>@\<close> of the source first, then all \<open>@@...@@\<close>); and the class name of the date
  spells the value with every placeholder as \<open>%FF<ordinal>%FF\<close> and everything else percent encoded,
  which decodes.
\<close>

theorem attribute_placeholders_spelled:
  assumes "unmarked source" and "boundary source i" and "boundary source e" and "e \<le> length source"
    and "\<forall>(a, b) \<in> set (comments @ segments). boundary source a \<and> boundary source b"
    and "encoded_attribute_value source comments segments i e = Some v"
  shows "\<exists>ps tail. v = with_placeholders ps tail \<and> ps \<noteq> [] \<and>
    map snd ps = map (\<lambda>(n, a, b). n + 1)
      (sort_key (\<lambda>(n, a, b). a) (filter (\<lambda>(n, a, b). i \<le> a \<and> b \<le> e) (enumerate 0 (raw_escapes source)))) \<and>
    push_percent_encoded_placeholders out v = out @ spelled_placeholders ps tail \<and>
    (\<forall>p \<in> set (tail # map fst ps). percent_decode (percent_text p) = p)"
proof -
  define elisions where "elisions = sort_key fst (comments @ segments)"
  define escapes where "escapes = filter (\<lambda>(ordinal, a, b). i \<le> a \<and> b \<le> e) (enumerate 0 (raw_escapes source))"
  define ordered where "ordered = sort_key (\<lambda>(ordinal, a, b). a) escapes"
  define pushed where "pushed = push_escapes [] source elisions ordered i"
  have el: "\<forall>(a, b) \<in> set elisions. boundary source a \<and> boundary source b" using assms(5) by (simp add: elisions_def)
  have set_ordered: "set ordered = {(n, a, b). (n, a, b) \<in> set (enumerate 0 (raw_escapes source)) \<and> i \<le> a \<and> b \<le> e}"
    by (auto simp: ordered_def escapes_def)
  have valid: "valid_utf8 source" using assms(1) by (simp add: unmarked_def)
  have "(a, b) \<in> set (raw_escapes source)" if "(n, a, b) \<in> set ordered" for n a b
    using that nth_mem [of n "raw_escapes source"] by (auto simp: set_ordered in_set_enumerate_eq)
  then have cut: "\<forall>(n, a, b) \<in> set ordered. boundary source a \<and> boundary source b \<and> a \<le> length source"
    using raw_escape_boundary [OF valid] by blast
  have v: "v = push_attribute_plain (fst pushed) source elisions (snd pushed) e" and "escapes \<noteq> []"
    using assms(6) by (auto simp: encoded_attribute_value_def Let_def elisions_def escapes_def ordered_def pushed_def
        split: if_splits prod.splits)
  then have ne: "ordered \<noteq> []" by (metis length_0_conv length_sort ordered_def)
  have "boundary source (snd pushed)" using push_escapes_ok [OF assms(1) el cut assms(2)] by (auto simp: pushed_def)
  from push_attribute_plain_ok [OF assms(1,3,4) el this] obtain tail where
    tail: "v = fst pushed @ tail" "unmarked tail" using v by blast
  from push_escapes_ok [OF assms(1) el cut assms(2), of "[]" tail] obtain ps where
    ps: "v = with_placeholders ps tail" "map snd ps = map (\<lambda>escape. fst escape + 1) ordered" "\<forall>(p, n) \<in> set ps. unmarked p"
    using tail(1) by (auto simp: pushed_def)
  have "map snd ps = map (\<lambda>(n, a, b). n + 1)
      (sort_key (\<lambda>(n, a, b). a) (filter (\<lambda>(n, a, b). i \<le> a \<and> b \<le> e) (enumerate 0 (raw_escapes source))))"
    unfolding ps(2) ordered_def escapes_def by (intro map_cong) (auto simp: split_beta)
  moreover have "ps \<noteq> []" using ps(2) ne by auto
  ultimately show ?thesis
    using ps(1) placeholders_spelled_out [OF ps(3) tail(2)] percent_decode_text by blast
qed

lemma attribute_placeholders_spelled_witness:
  "\<exists>ps tail. ''x'' @ PLACEHOLDER_OPEN @ ''1'' @ PLACEHOLDER_CLOSE = with_placeholders ps tail \<and> ps \<noteq> [] \<and>
     map snd ps = map (\<lambda>(n, a, b). n + 1)
       (sort_key (\<lambda>(n, a, b). a) (filter (\<lambda>(n, a, b). 0 \<le> a \<and> b \<le> 6) (enumerate 0 (raw_escapes ''x@@a@@'')))) \<and>
     push_percent_encoded_placeholders [] (''x'' @ PLACEHOLDER_OPEN @ ''1'' @ PLACEHOLDER_CLOSE) = [] @ spelled_placeholders ps tail \<and>
     (\<forall>p \<in> set (tail # map fst ps). percent_decode (percent_text p) = p)"
proof (rule attribute_placeholders_spelled)
  show "unmarked ''x@@a@@''" unfolding unmarked_def by code_simp
  show "boundary ''x@@a@@'' 0" "boundary ''x@@a@@'' 6" by (simp_all add: boundary_def)
  show "6 \<le> length ''x@@a@@''" by simp
  show "\<forall>(a, b) \<in> set ([] @ []). boundary ''x@@a@@'' a \<and> boundary ''x@@a@@'' b" by simp
  show "encoded_attribute_value ''x@@a@@'' [] [] 0 6 = Some (''x'' @ PLACEHOLDER_OPEN @ ''1'' @ PLACEHOLDER_CLOSE)"
    by code_simp
qed

text \<open>The numbers are those of the passes, not of the positions.\<close>

lemma ordinals_in_pass_order: "encoded_attribute_value ''@@a@@ @<b>@'' [] [] 0 11 =
    Some (PLACEHOLDER_OPEN @ ''2'' @ PLACEHOLDER_CLOSE @ '' '' @ PLACEHOLDER_OPEN @ ''1'' @ PLACEHOLDER_CLOSE)"
  by code_simp

text \<open>
  A placeholder that its closing sentinel does not end is not kept: the digits after the opening
  sentinel are lost when another character follows them.
\<close>

lemma placeholder_digits_lost:
  "push_percent_encoded_placeholders [] (PLACEHOLDER_OPEN @ ''12a'') = ''%EE%80%80a''"
  by code_simp

end
