(* ===== verification/Date_Block.thy ===== *)
theory Date_Block
  imports Dates Raw_Escapes Arguments
begin

text \<open>
  The \<open>[[date]]\<close> block: \<open>src/src/parsing/rule/impls/block/blocks/date.rs\<close>, which reads its value and
  time zone, and \<open>src/src/render/html/element/date.rs\<close>, which renders it.

  The text parsers of the \<open>time\<close> crate, its calendar range and its range of offsets are the fields of
  \<open>date_parsers\<close>.  \<open>parse_fn\<close> is modelled from the point where the parser has returned the value and
  the arguments of the head; rendering gives the attributes and the contents of the \<open>span\<close>.
\<close>

subsection \<open>Integers\<close>

text \<open>\<open>str::parse\<close> for signed integers: an optional sign and digits, within the range of the type.\<close>

definition signed_digits :: "bytes \<Rightarrow> (bool \<times> bytes) option" where
  "signed_digits s =
     (let (negative, digits) =
        (case s of
           [] \<Rightarrow> (False, [])
         | c # cs \<Rightarrow> if c = CHR ''-'' then (True, cs) else if c = CHR ''+'' then (False, cs) else (False, s))
      in if digits \<noteq> [] \<and> list_all is_digit digits then Some (negative, digits) else None)"

definition signed_value :: "bool \<times> bytes \<Rightarrow> int" where
  "signed_value x = (case x of (negative, digits) \<Rightarrow> (if negative then - int (decimal_value digits) else int (decimal_value digits)))"

definition parse_signed :: "nat \<Rightarrow> bytes \<Rightarrow> int option" where
  "parse_signed bits s =
     (case signed_digits s of
        None \<Rightarrow> None
      | Some x \<Rightarrow>
          if - (2 ^ (bits - 1)) \<le> signed_value x \<and> signed_value x < 2 ^ (bits - 1) then Some (signed_value x) else None)"

subsection \<open>Dates\<close>

record ('d, 'p, 'z) date_parsers =
  current_time :: "'z"
  from_unix_timestamp :: "int \<Rightarrow> 'z option"
  parse_rfc3339 :: "bytes \<Rightarrow> 'z option"
  parse_iso_offset :: "bytes \<Rightarrow> 'z option"
  parse_iso_plain :: "bytes \<Rightarrow> 'p option"
  parse_rfc2822 :: "bytes \<Rightarrow> 'z option"
  parse_iso_date :: "bytes \<Rightarrow> 'd option"
  offset_in_range :: "int \<Rightarrow> bool"

definition saturate_long_unix_timestamp :: "bytes \<Rightarrow> int option" where
  "saturate_long_unix_timestamp s =
     (let digits = (case strip_prefix ''-'' s of Some d \<Rightarrow> d | None \<Rightarrow> s)
      in if digits = [] \<or> \<not> list_all is_digit digits then None
         else Some (if starts_with s ''-'' then i64_min else i64_max))"

definition parse_date :: "('d, 'p, 'z) date_parsers \<Rightarrow> bytes \<Rightarrow> ('d, 'p, 'z) date_item option" where
  "parse_date L s =
     (if eq_ignore_ascii_case s ''now'' \<or> s = ''.'' then Some (DateTimeTz (current_time L))
      else case parse_signed 64 s of
        Some ts \<Rightarrow>
          (case from_unix_timestamp L ts of
             Some date \<Rightarrow> Some (DateTimeTz date)
           | None \<Rightarrow> Some (Timestamp ts))
      | None \<Rightarrow>
      case parse_signed 128 s of
        Some ts \<Rightarrow> Some (Timestamp (max i64_min (min i64_max ts)))
      | None \<Rightarrow>
      case saturate_long_unix_timestamp s of
        Some ts \<Rightarrow> Some (Timestamp ts)
      | None \<Rightarrow>
      case parse_rfc3339 L s of
        Some date \<Rightarrow> Some (DateTimeTz date)
      | None \<Rightarrow>
      case parse_iso_offset L s of
        Some date \<Rightarrow> Some (DateTimeTz date)
      | None \<Rightarrow>
      case parse_iso_plain L s of
        Some datetime \<Rightarrow> Some (DateTime datetime)
      | None \<Rightarrow>
      case parse_rfc2822 L s of
        Some date \<Rightarrow> Some (DateTimeTz date)
      | None \<Rightarrow> map_option Date (parse_iso_date L s))"

subsection \<open>Time zones\<close>

datatype timezone_notation = HourMinute int int int | BareSeconds int

text \<open>
  The matches of \<open>([0-9]{1,2}):?([0-9]{2})?$\<close> in the order the regular expression prefers them: how many
  digits of the hour, whether there is a colon, whether there are minutes.
\<close>

definition timezone_shapes :: "(nat \<times> bool \<times> bool) list" where
  "timezone_shapes =
     [(2, True, True), (2, True, False), (2, False, True), (2, False, False),
      (1, True, True), (1, True, False), (1, False, True), (1, False, False)]"

definition timezone_fits :: "bytes \<Rightarrow> nat \<times> bool \<times> bool \<Rightarrow> bool" where
  "timezone_fits s shape =
     (case shape of (hours, colon, minutes) \<Rightarrow>
        length s = hours + of_bool colon + 2 * of_bool minutes \<and>
        list_all is_digit (List.take hours s) \<and> (colon \<longrightarrow> s ! hours = CHR '':'') \<and>
        list_all is_digit (drop (hours + of_bool colon) s))"

definition strip_sign :: "bytes \<Rightarrow> bool option \<times> bytes" where
  "strip_sign s =
     (case s of
        c # cs \<Rightarrow> if c = CHR ''+'' then (Some False, cs) else if c = CHR ''-'' then (Some True, cs) else (None, s)
      | [] \<Rightarrow> (None, s))"

definition timezone_fields :: "(nat \<times> bool \<times> bool) list \<Rightarrow> bytes \<Rightarrow> (bytes \<times> bytes option) option" where
  "timezone_fields shapes s =
     map_option (\<lambda>(hours, colon, minutes).
         (List.take hours s, if minutes then Some (drop (hours + of_bool colon) s) else None))
       (find (timezone_fits s) shapes)"

definition parse_notation :: "bytes \<Rightarrow> timezone_notation option" where
  "parse_notation s =
     (let (sign, rest) = strip_sign s in
      case timezone_fields timezone_shapes rest of
        Some (hour, minute) \<Rightarrow>
          Some (HourMinute (if sign = Some True then -1 else 1) (int (decimal_value hour))
            (case minute of None \<Rightarrow> 0 | Some m \<Rightarrow> int (decimal_value m)))
      | None \<Rightarrow> map_option BareSeconds (parse_signed 32 s))"

fun offset_seconds :: "timezone_notation \<Rightarrow> int" where
  "offset_seconds (HourMinute sign hour minute) = sign * (hour * 3600 + minute * 60)"
| "offset_seconds (BareSeconds seconds) = seconds"

definition get_offset :: "('d, 'p, 'z) date_parsers \<Rightarrow> int \<Rightarrow> int option" where
  "get_offset L seconds = (if offset_in_range L seconds then Some seconds else None)"

definition parse_timezone :: "('d, 'p, 'z) date_parsers \<Rightarrow> bytes \<Rightarrow> int option" where
  "parse_timezone L s =
     (case parse_notation s of
        None \<Rightarrow> None
      | Some n \<Rightarrow> get_offset L (offset_seconds n))"

text \<open>\<open>([0-9]{1,2})(?::([0-9]{2}))?$\<close>: minutes only after a colon, and a colon only before minutes.\<close>

definition wikidot_timezone_shapes :: "(nat \<times> bool \<times> bool) list" where
  "wikidot_timezone_shapes = [(2, True, True), (2, False, False), (1, True, True), (1, False, False)]"

definition parse_wikidot_timezone :: "('d, 'p, 'z) date_parsers \<Rightarrow> bytes \<Rightarrow> int option" where
  "parse_wikidot_timezone L s =
     (let (sign, rest) = strip_sign s; negative = (sign = Some True) in
      case timezone_fields wikidot_timezone_shapes rest of
        None \<Rightarrow> None
      | Some (hour, minute) \<Rightarrow>
          let hour = int (decimal_value hour); minute = (case minute of None \<Rightarrow> 0 | Some m \<Rightarrow> int (decimal_value m))
          in if hour > 23 \<or> minute > 59 \<or> negative \<and> hour = 0 \<and> minute = 0 then None
             else get_offset L ((hour * 3600 + minute * 60) * (if negative then -1 else 1)))"

subsection \<open>The block\<close>

definition split_ago_hover_format :: "bytes option \<Rightarrow> bytes option \<times> bool" where
  "split_ago_hover_format date_format =
     (case date_format of
        Some f \<Rightarrow> (case strip_suffix ''|agohover'' f of Some display \<Rightarrow> (Some display, True) | None \<Rightarrow> (Some f, False))
      | None \<Rightarrow> (None, False))"

definition filter_supported_format :: "bytes option \<Rightarrow> bytes option" where
  "filter_supported_format format =
     (case format of Some f \<Rightarrow> if date_format_within_limits f then Some f else None | None \<Rightarrow> None)"

datatype date_block_error = RuleFailed | MalformedArguments

datatype ('d, 'p, 'z) date_element =
  NoElement | DateElement "('d, 'p, 'z) date_item" "bytes option" bool

text \<open>\<open>name\<close> is the name of the block, \<open>v\<close> the value and \<open>a\<close> the arguments that the head holds.\<close>

definition date_parse_fn ::
  "('d, 'p, 'z) time_library \<Rightarrow> ('d, 'p, 'z) date_parsers \<Rightarrow> bool \<Rightarrow> bytes \<Rightarrow> bytes \<Rightarrow> arguments \<Rightarrow>
     date_block_error + ('d, 'p, 'z) date_element" where
  "date_parse_fn T L legacy name v a =
     (if legacy \<and> name \<noteq> ''date'' then Inl RuleFailed
      else
        let (explicit, a) = take_explicit_empty_value ''format'' a;
            (authored_format, a) = (case explicit of Some f \<Rightarrow> (Some f, a) | None \<Rightarrow> arg_get ''format'' a);
            (format, ago_hover) = split_ago_hover_format authored_format;
            ((format, hover), a) =
              (if legacy then ((authored_format, False), a)
               else let (h, a) = arg_get ''hover'' a
                 in ((filter_supported_format format, h = Some ''true'' \<or> ago_hover), a));
            timezone_count = count_key a ''tz'';
            (arg_timezone, a) = arg_get ''tz'' a
        in if legacy \<and> trim v = [] \<and> arg_is_empty a then Inr NoElement
           else if legacy \<and> (starts_with v ''+'' \<or> parse_signed 128 v = None \<and> saturate_long_unix_timestamp v = None)
           then Inl MalformedArguments
           else case parse_date L v of
             None \<Rightarrow> Inl MalformedArguments
           | Some date \<Rightarrow>
               (case arg_timezone of
                  None \<Rightarrow> Inr (DateElement date format hover)
                | Some arg \<Rightarrow>
                    if legacy then
                      (case (if timezone_count = 1 then parse_wikidot_timezone L arg else None) of
                         Some offset \<Rightarrow>
                           (case add_timezone T date offset of
                              Some date' \<Rightarrow> Inr (DateElement date' format hover)
                            | None \<Rightarrow> Inr (DateElement date format hover))
                       | None \<Rightarrow> Inr (DateElement date format hover))
                    else
                      (case parse_timezone L arg of
                         None \<Rightarrow> Inl MalformedArguments
                       | Some offset \<Rightarrow>
                           (case add_timezone T date offset of
                              Some date' \<Rightarrow> Inr (DateElement date' format hover)
                            | None \<Rightarrow> Inl MalformedArguments))))"

subsection \<open>Rendering\<close>

definition signed_decimal :: "int \<Rightarrow> bytes" where
  "signed_decimal n = (if n < 0 then CHR ''-'' # decimal (nat (- n)) else decimal (nat n))"

definition encode_date_format :: "bytes \<Rightarrow> bytes" where
  "encode_date_format date_format = push_percent_encoded_placeholders [] date_format"

definition push_date_format_class :: "bytes \<Rightarrow> bytes option \<Rightarrow> bool \<Rightarrow> bytes" where
  "push_date_format_class class_text date_format append_ago_hover =
     (case date_format of
        Some f \<Rightarrow> class_text @ '' format_'' @ encode_date_format f @ (if append_ago_hover then ''%7Cagohover'' else [])
      | None \<Rightarrow> if append_ago_hover then class_text @ '' format_'' @ ''%7Cagohover'' else class_text)"

text \<open>\<open>str::replace\<close> of \<open>%g\<close> by \<open>ago\<close>.\<close>

fun replace_ago :: "bytes \<Rightarrow> bytes" where
  "replace_ago (c # d # cs) = (if c = CHR ''%'' \<and> d = CHR ''g'' then ''ago'' @ replace_ago cs else c # replace_ago (d # cs))"
| "replace_ago cs = cs"

definition wikidot_date_attributes ::
  "('d, 'p, 'z) time_library \<Rightarrow> ('d, 'p, 'z) date_item \<Rightarrow> bytes option \<Rightarrow> bool \<Rightarrow> (bytes \<times> bytes) list" where
  "wikidot_date_attributes T date date_format hover =
     (let class_text = ''odate time_'' @ signed_decimal (timestamp T date);
          format = (case date_format of
              Some f \<Rightarrow> if f = [] then None else if contains_sub f ''%g'' then Some (replace_ago f) else Some f
            | None \<Rightarrow> None)
      in [(''class'', push_date_format_class class_text format hover)])"

definition wikijump_date_attributes ::
  "('d, 'p, 'z) time_library \<Rightarrow> int \<Rightarrow> ('d, 'p, 'z) date_item \<Rightarrow> bytes option \<Rightarrow> bool \<Rightarrow> (bytes \<times> bytes) list" where
  "wikijump_date_attributes T current date date_format hover =
     [(''class'', push_date_format_class (''wj-date'' @ (if hover then '' wj-date-hover'' else [])) date_format False),
      (''data-timestamp'', signed_decimal (timestamp T date)),
      (''data-delta'', signed_decimal (time_since T current date))]"

definition WIKIDOT_DEFAULT_DATE_FORMAT :: bytes where
  "WIKIDOT_DEFAULT_DATE_FORMAT = ''%d %b %Y %H:%M''"

text \<open>The attributes and the contents of the \<open>span\<close> of a date.\<close>

definition render_date ::
  "('d, 'p, 'z, 'e) date_libraries \<Rightarrow> bool \<Rightarrow> bytes \<Rightarrow> ('d, 'p, 'z) date_item \<Rightarrow> bytes option \<Rightarrow> bool \<Rightarrow>
     (bytes \<times> bytes) list \<times> bytes" where
  "render_date T legacy language date date_format hover =
     (let supported = filter_supported_format date_format
      in if legacy
         then (wikidot_date_attributes (calendar T) date date_format hover,
               format_or_default T date (Some WIKIDOT_DEFAULT_DATE_FORMAT) ''en'')
         else (wikijump_date_attributes (calendar T) (now T) date supported hover,
               format_or_default T date supported language))"

subsection \<open>Timestamps are clamped\<close>

lemma signed_digits_cases:
  assumes "signed_digits s = Some (negative, digits)"
  shows "digits \<noteq> []" and "list_all is_digit digits"
    and "s = CHR ''-'' # digits \<and> negative \<or> s = CHR ''+'' # digits \<and> \<not> negative \<or> s = digits \<and> \<not> negative"
  using assms by (auto simp: signed_digits_def Let_def split: list.splits if_splits)

lemma digit_not_sign: "list_all is_digit (c # cs) \<Longrightarrow> c \<noteq> CHR ''-'' \<and> c \<noteq> CHR ''+'' \<and> c \<noteq> CHR ''.''  \<and> c \<noteq> CHR ''n'' \<and> c \<noteq> CHR ''N''"
  by (auto simp: is_digit_def)

lemma saturate_long_digits:
  assumes "signed_digits s = Some (negative, digits)" and "\<not> starts_with s ''+''"
  shows "saturate_long_unix_timestamp s = Some (if negative then i64_min else i64_max)"
proof -
  note c = signed_digits_cases [OF assms(1)]
  obtain d ds where d: "digits = d # ds" using c(1) by (cases digits) auto
  then have "d \<noteq> CHR ''-''" using c(2) digit_not_sign by blast
  with c d assms(2) show ?thesis
    by (auto simp: saturate_long_unix_timestamp_def strip_prefix_def Let_def)
qed

lemma digit_to_lower: "is_digit c \<Longrightarrow> to_lower c = c"
  by (simp add: to_lower_def is_digit_def is_upper_def)

lemma not_now: "to_lower c \<noteq> CHR ''n'' \<Longrightarrow> c \<noteq> CHR ''.'' \<Longrightarrow> \<not> eq_ignore_ascii_case (c # cs) ''now'' \<and> c # cs \<noteq> ''.''"
proof -
  have "to_lower (CHR ''n'') = CHR ''n''" by code_simp
  then show "to_lower c \<noteq> CHR ''n'' \<Longrightarrow> c \<noteq> CHR ''.'' \<Longrightarrow> \<not> eq_ignore_ascii_case (c # cs) ''now'' \<and> c # cs \<noteq> ''.''"
    by (simp add: eq_ignore_ascii_case_def to_ascii_lowercase_def)
qed

lemma integer_not_now:
  assumes "signed_digits s = Some x"
  shows "\<not> eq_ignore_ascii_case s ''now''" and "s \<noteq> ''.''"
proof -
  obtain negative digits where x: "x = (negative, digits)" by (cases x)
  note c = signed_digits_cases [OF assms [unfolded x]]
  obtain d ds where d: "digits = d # ds" using c(1) by (cases digits) auto
  then have "to_lower d = d" "d \<noteq> CHR ''.''" "d \<noteq> CHR ''n''" using c(2) digit_to_lower digit_not_sign [of d ds] by simp_all
  then have "\<not> eq_ignore_ascii_case digits ''now'' \<and> digits \<noteq> ''.''" unfolding d by (intro not_now) simp_all
  moreover have "to_lower (CHR ''-'') = CHR ''-''" "to_lower (CHR ''+'') = CHR ''+''" by code_simp+
  then have "\<not> eq_ignore_ascii_case (CHR ''-'' # digits) ''now'' \<and> CHR ''-'' # digits \<noteq> ''.''"
    "\<not> eq_ignore_ascii_case (CHR ''+'' # digits) ''now'' \<and> CHR ''+'' # digits \<noteq> ''.''" by (simp_all add: not_now)
  ultimately show "\<not> eq_ignore_ascii_case s ''now''" "s \<noteq> ''.''" using c(3) by blast+
qed

lemma saturate_long_bound: "2 ^ 127 \<le> n \<Longrightarrow> saturate n = i64_max" "n < - (2 ^ 127) \<Longrightarrow> saturate n = i64_min"
  by (simp_all add: saturate_def i64_max_def i64_min_def)

text \<open>
  An integer of any length is a date: the calendar date of its timestamp where the calendar has
  one, and else the timestamp clamped to 64 bits.  The exception is a number with a plus sign that does
  not fit 128 bits.
\<close>

theorem integer_dates_clamped:
  assumes "signed_digits s = Some x" and "starts_with s ''+'' \<Longrightarrow> signed_value x < 2 ^ 127"
  shows "parse_date L s =
    Some (case if i64_min \<le> signed_value x \<and> signed_value x \<le> i64_max then from_unix_timestamp L (signed_value x) else None of
            Some date \<Rightarrow> DateTimeTz date
          | None \<Rightarrow> Timestamp (saturate (signed_value x)))"
proof -
  define n where "n = signed_value x"
  obtain negative digits where x: "x = (negative, digits)" by (cases x)
  note now = integer_not_now [OF assms(1)]
  have parse64: "parse_signed 64 s = (if i64_min \<le> n \<and> n \<le> i64_max then Some n else None)"
    by (simp add: parse_signed_def assms(1) n_def [symmetric] i64_min_def i64_max_def)
  have parse128: "parse_signed 128 s = (if - (2 ^ 127) \<le> n \<and> n < 2 ^ 127 then Some n else None)"
    by (simp add: parse_signed_def assms(1) n_def [symmetric])
  show ?thesis
  proof (cases "- (2 ^ 127) \<le> n \<and> n < 2 ^ 127")
    case True
    with parse64 parse128 now show ?thesis
      unfolding parse_date_def n_def [symmetric]
      by (simp add: saturate_def i64_min_def i64_max_def split: option.split)
  next
    case False
    then have outside: "\<not> (i64_min \<le> n \<and> n \<le> i64_max)" by (auto simp: i64_min_def i64_max_def)
    have plus: "\<not> starts_with s ''+''"
    proof
      assume "starts_with s ''+''"
      moreover from this have "\<not> negative" using signed_digits_cases [OF assms(1) [unfolded x]] digit_not_sign by (cases digits) auto
      ultimately show False using False assms(2) x by (simp add: n_def signed_value_def)
    qed
    have "saturate n = (if negative then i64_min else i64_max)"
      using False saturate_long_bound [of n] x by (auto simp: n_def signed_value_def)
    moreover have "parse_signed 64 s = None" unfolding parse64 by (rule if_not_P [OF outside])
    moreover have "parse_signed 128 s = None" unfolding parse128 by (rule if_not_P [OF False])
    ultimately show ?thesis
      using saturate_long_digits [OF assms(1) [unfolded x] plus] now outside
      unfolding parse_date_def n_def [symmetric] by (simp only: if_not_P if_False option.case de_Morgan_disj simp_thms)
  qed
qed

text \<open>The exception: such a number is none of the integers, and only the text parsers see it.\<close>

lemma long_plus_not_clamped:
  assumes "signed_digits s = Some x" and "starts_with s ''+''" and "2 ^ 127 \<le> signed_value x"
  shows "parse_signed 64 s = None" and "parse_signed 128 s = None" and "saturate_long_unix_timestamp s = None"
proof -
  show "parse_signed 64 s = None" "parse_signed 128 s = None" using assms(1,3) by (simp_all add: parse_signed_def)
  obtain c cs where "s = CHR ''+'' # cs" using assms(2) by (cases s) auto
  then show "saturate_long_unix_timestamp s = None"
    by (simp add: saturate_long_unix_timestamp_def strip_prefix_def is_digit_def)
qed

definition plain_parsers :: "(int, int, int \<times> int) date_parsers" where
  "plain_parsers =
     \<lparr>current_time = (0, 0), from_unix_timestamp = (\<lambda>ts. if \<bar>ts\<bar> < 10 ^ 11 then Some (ts, 0) else None),
      parse_rfc3339 = (\<lambda>s. None), parse_iso_offset = (\<lambda>s. None), parse_iso_plain = (\<lambda>s. None),
      parse_rfc2822 = (\<lambda>s. None), parse_iso_date = (\<lambda>s. None), offset_in_range = (\<lambda>seconds. \<bar>seconds\<bar> < 93600)\<rparr>"

lemma integer_dates_clamped_witness:
  "parse_date plain_parsers ''-99999999999999999999'' = Some (Timestamp i64_min)"
proof -
  have x: "signed_digits ''-99999999999999999999'' = Some (True, ''99999999999999999999'')"
    by (simp add: signed_digits_def is_digit_def)
  have n: "signed_value (True, ''99999999999999999999'') = -99999999999999999999"
    by (simp add: signed_value_def decimal_value_def)
  show ?thesis
    by (subst integer_dates_clamped [OF x], simp) (simp only: n, simp add: i64_min_def i64_max_def saturate_def)
qed

subsection \<open>Printed offsets are read back\<close>

lemma timezone_fields_two:
  assumes "length h = 2" and "list_all is_digit h"
  shows "timezone_fields timezone_shapes h = Some (h, None)"
  using assms by (simp add: timezone_fields_def timezone_shapes_def timezone_fits_def)

lemma timezone_fields_five:
  assumes "length h = 2" and "list_all is_digit h" and "length m = 2" and "list_all is_digit m"
  shows "timezone_fields timezone_shapes (h @ CHR '':'' # m) = Some (h, Some m)"
  using assms by (simp add: timezone_fields_def timezone_shapes_def timezone_fits_def nth_append)

lemma strip_sign_sign: "strip_sign ((if b then CHR ''-'' else CHR ''+'') # s) = (Some b, s)"
  by (simp add: strip_sign_def)

lemma smod_pos: "0 \<le> a \<Longrightarrow> 0 < b \<Longrightarrow> (a::int) smod b = a mod b"
  unfolding minus_sdiv_mult_eq_smod [symmetric] by (simp only: sdiv_pos minus_div_mult_eq_mod)

lemma minutes_of_seconds:
  assumes "0 \<le> q"
  shows "(60 * q) sdiv 3600 = q div 60" and "((60 * q) smod 3600) sdiv 60 = q mod (60::int)"
proof -
  have a: "0 \<le> 60 * q" "60 * q div 60 = q" "60 * q mod 60 = 0" using assms by simp_all
  show "(60 * q) sdiv 3600 = q div 60"
    using zdiv_zmult2_eq [of 60 "60 * q" 60] a by (simp only: sdiv_pos zero_less_numeral)
  have "(60 * q) mod (60 * 60) = 60 * (q mod 60)" by (rule mult_mod_right [symmetric])
  then have "(60 * q) smod 3600 = 60 * (q mod 60)" using a(1) by (simp only: smod_pos zero_less_numeral) simp
  then show "((60 * q) smod 3600) sdiv 60 = q mod 60" by (simp add: sdiv_pos)
qed

lemma gmt_offset_parts:
  assumes "\<bar>seconds\<bar> = 60 * (60 * h + m)" and "\<bar>seconds\<bar> sdiv 3600 = h" and "(\<bar>seconds\<bar> smod 3600) sdiv 60 = m"
    and "0 \<le> h" and "h < 100" and "0 \<le> m" and "m < 60"
  shows "\<exists>h m. h < 100 \<and> m < 60 \<and> \<bar>seconds\<bar> = int h * 3600 + int m * 60 \<and>
    append_timezone_gmt [] seconds = ''GMT'' @ (if seconds < 0 then CHR ''-'' else CHR ''+'') # zero_padded 2 h @
      (if m = 0 then [] else CHR '':'' # zero_padded 2 m)"
proof (intro exI conjI)
  show "nat h < 100" "nat m < 60" "\<bar>seconds\<bar> = int (nat h) * 3600 + int (nat m) * 60" using assms by simp_all
  have "m = 0 \<longleftrightarrow> nat m = 0" using assms(6) by simp
  then show "append_timezone_gmt [] seconds = ''GMT'' @ (if seconds < 0 then CHR ''-'' else CHR ''+'') # zero_padded 2 (nat h) @
      (if nat m = 0 then [] else CHR '':'' # zero_padded 2 (nat m))"
    unfolding append_timezone_gmt_def assms(2,3) Let_def by simp
qed

lemma gmt_offset:
  assumes "60 dvd seconds" and "\<bar>seconds\<bar> < 360000"
  shows "\<exists>h m. h < 100 \<and> m < 60 \<and> \<bar>seconds\<bar> = int h * 3600 + int m * 60 \<and>
    append_timezone_gmt [] seconds = ''GMT'' @ (if seconds < 0 then CHR ''-'' else CHR ''+'') # zero_padded 2 h @
      (if m = 0 then [] else CHR '':'' # zero_padded 2 m)"
proof -
  from assms(1) obtain q where q: "\<bar>seconds\<bar> = 60 * q" by (metis dvd_abs_iff dvdE)
  then have "0 \<le> q" "q < 6000" using assms(2) by simp_all
  then have "0 \<le> q div 60" "q div 60 < 100" using div_le [of 60 q 99] by (simp_all add: pos_imp_zdiv_nonneg_iff)
  then show ?thesis
    using minutes_of_seconds [OF \<open>0 \<le> q\<close>] by (intro gmt_offset_parts [of _ "q div 60" "q mod 60"]) (simp_all only: q mult_div_mod_eq pos_mod_sign pos_mod_bound zero_less_numeral)
qed

text \<open>
  What the date formatter prints for a UTC offset of whole minutes, without its \<open>GMT\<close>, is a time
  zone that the date block reads back as the same offset.
\<close>

theorem printed_offset_parses:
  assumes "60 dvd seconds" and "\<bar>seconds\<bar> < 360000" and "offset_in_range L seconds"
  shows "parse_timezone L (drop 3 (append_timezone_gmt [] seconds)) = Some seconds"
proof -
  from gmt_offset [OF assms(1,2)] obtain h m where hm: "h < 100" "m < 60" "\<bar>seconds\<bar> = int h * 3600 + int m * 60"
    and printed: "append_timezone_gmt [] seconds = ''GMT'' @ (if seconds < 0 then CHR ''-'' else CHR ''+'') # zero_padded 2 h @
      (if m = 0 then [] else CHR '':'' # zero_padded 2 m)" by blast
  define rest where "rest = zero_padded 2 h @ (if m = 0 then [] else CHR '':'' # zero_padded 2 m)"
  have "timezone_fields timezone_shapes rest = Some (zero_padded 2 h, if m = 0 then None else Some (zero_padded 2 m))"
    using hm timezone_fields_two [OF length_zero_padded_two zero_padded_digits, of h]
      timezone_fields_five [OF length_zero_padded_two zero_padded_digits length_zero_padded_two zero_padded_digits, of h m]
    by (simp add: rest_def)
  then have "parse_notation ((if seconds < 0 then CHR ''-'' else CHR ''+'') # rest) =
      Some (HourMinute (if seconds < 0 then -1 else 1) (int h) (int m))"
    unfolding parse_notation_def strip_sign_sign by (simp add: zero_padded_value)
  moreover have "offset_seconds (HourMinute (if seconds < 0 then -1 else 1) (int h) (int m)) = seconds"
    using hm(3) by (cases "seconds < 0") (simp_all add: abs_if)
  ultimately show ?thesis
    using assms(3) by (simp add: printed parse_timezone_def get_offset_def rest_def [symmetric])
qed

lemma printed_offset_parses_witness: "parse_timezone plain_parsers (drop 3 (append_timezone_gmt [] (- 12600))) = Some (- 12600)"
  by (rule printed_offset_parses) (simp_all add: plain_parsers_def)

text \<open>
  In the legacy layout a blank value is nothing, and not literal text, even when the block has
  arguments: the format and the time zone have been taken out before the arguments are counted.
\<close>

lemma blank_date_with_format:
  "date_parse_fn plain_calendar plain_parsers True ''date'' '' '' (arg_insert ''format'' ''%Y'' arguments_new) = Inr NoElement"
proof -
  have "trim '' '' = []" by code_simp
  then show ?thesis
    by (simp add: date_parse_fn_def Let_def take_explicit_empty_value_def arg_get_def arg_take_def arg_insert_def
        arguments_new_def arg_key_def hs_contains_def hm_remove_def hs_remove_def arg_key_eq_def
        eq_ignore_ascii_case_def arg_is_empty_def split_ago_hover_format_def split: prod.split option.split)
qed

end
