(* ===== verification/Parser_State.thy ===== *)
theory Parser_State
  imports "HOL-Library.Word" Token
begin

unbundle bit_operations_syntax

text \<open>
  \<open>src/src/parsing/parser/wikidot_state.rs\<close>: the part of the parser's state that tracks the legacy layout.
  Depths are saturating counters and flags are bits of 16-bit words; one word packs four small counters
  of crossed closers below five flags.  The state is a copy in every speculative parser, so its
  operations are functions on the record.
\<close>

subsection \<open>The state\<close>

type_synonym u8 = "8 word"
type_synonym u16 = "16 word"
type_synonym u32 = "32 word"

definition saturating_inc :: "'a::len word \<Rightarrow> 'a word" where
  "saturating_inc w = (if w = - 1 then w else w + 1)"

definition saturating_dec :: "'a::len word \<Rightarrow> 'a word" where
  "saturating_dec w = (if w = 0 then 0 else w - 1)"

text \<open>\<open>u32::try_from(n).unwrap_or(d)\<close>.\<close>

definition u32_or :: "nat \<Rightarrow> u32 \<Rightarrow> u32" where
  "u32_or n d = (if n < 2 ^ 32 then of_nat n else d)"

definition COLLAPSIBLE :: u16 where "COLLAPSIBLE = push_bit 0 1"
definition QUOTE_BOUNDARY_CLOSES_BODY :: u16 where "QUOTE_BOUNDARY_CLOSES_BODY = push_bit 1 1"
definition PENDING_COLLAPSIBLE_CLOSER :: u16 where "PENDING_COLLAPSIBLE_CLOSER = push_bit 2 1"
definition COLLAPSIBLE_CLOSED_AT_DEEPER_QUOTE :: u16 where "COLLAPSIBLE_CLOSED_AT_DEEPER_QUOTE = push_bit 3 1"
definition SIMPLE_TABLE_CELL :: u16 where "SIMPLE_TABLE_CELL = push_bit 4 1"
definition MIXED_PARAGRAPH_OWNERSHIP :: u16 where "MIXED_PARAGRAPH_OWNERSHIP = push_bit 5 1"
definition COLLAPSIBLE_CONTENT_CLOSED :: u16 where "COLLAPSIBLE_CONTENT_CLOSED = push_bit 6 1"
definition IFTAGS_LITERAL_SPAN :: u16 where "IFTAGS_LITERAL_SPAN = push_bit 7 1"
definition DEFINITION_LIST_LINE :: u16 where "DEFINITION_LIST_LINE = push_bit 8 1"
definition SINGLE_LINE_CONTENT :: u16 where "SINGLE_LINE_CONTENT = push_bit 9 1"
definition DIV_LITERAL_RECOVERED :: u16 where "DIV_LITERAL_RECOVERED = push_bit 10 1"
definition MODULE_EMPTY_BODY :: u16 where "MODULE_EMPTY_BODY = push_bit 11 1"
definition HEADING_LINE :: u16 where "HEADING_LINE = push_bit 12 1"
definition ADVANCED_TABLE_CELL_BODY :: u16 where "ADVANCED_TABLE_CELL_BODY = push_bit 13 1"
definition BIBLIOGRAPHY_SPLIT_TAIL :: u16 where "BIBLIOGRAPHY_SPLIT_TAIL = push_bit 14 1"
definition MODULE_LINE_VANISHED :: u16 where "MODULE_LINE_VANISHED = push_bit 15 1"
definition CROSSED_COLLAPSIBLE_TAIL :: u16 where "CROSSED_COLLAPSIBLE_TAIL = push_bit 5 1"
definition PENDING_NOTE_LIST_CLOSER :: u16 where "PENDING_NOTE_LIST_CLOSER = push_bit 6 1"
definition SUPPRESS_FOOTNOTE_LIST_BREAK :: u16 where "SUPPRESS_FOOTNOTE_LIST_BREAK = push_bit 7 1"
definition ADVANCED_CELL_PARAGRAPH :: u16 where "ADVANCED_CELL_PARAGRAPH = push_bit 8 1"
definition ROW_ABSORB_DIV_CLOSE :: u16 where "ROW_ABSORB_DIV_CLOSE = push_bit 9 1"

definition SCORED_DIV_DIRECT_INACTIVE :: u32 where "SCORED_DIV_DIRECT_INACTIVE = - 1"
definition LIST_DEPTH_AT_FOOTNOTE_NONE :: u32 where "LIST_DEPTH_AT_FOOTNOTE_NONE = - 1"
definition ROW_SUFFIX_INACTIVE :: u32 where "ROW_SUFFIX_INACTIVE = - 1"

definition CROSSED_CLOSE_SLOTS :: u16 where "CROSSED_CLOSE_SLOTS = 31"

record wikidot_state =
  div_body_depth :: u16
  scored_div_body_depth :: u16
  scored_div_direct :: "u32 \<times> u16"
  scored_span_body_depth :: u16
  span_body_depth :: u16
  size_body_depth :: u8
  anchor_body_depth :: u16
  bibliography_body_depth :: u16
  bibliography_parse_body_depth :: u16
  literal_triple_link_depth :: u8
  simple_table_crossed_closers :: u16
  center_body_depth :: u16
  flags :: u16
  crossed_closes :: u16
  list_depth_at_footnote_packed :: u32
  row_suffix_at :: u32

definition wikidot_state_default :: wikidot_state where
  "wikidot_state_default =
     \<lparr>div_body_depth = 0, scored_div_body_depth = 0, scored_div_direct = (SCORED_DIV_DIRECT_INACTIVE, 0),
      scored_span_body_depth = 0, span_body_depth = 0, size_body_depth = 0, anchor_body_depth = 0,
      bibliography_body_depth = 0, bibliography_parse_body_depth = 0, literal_triple_link_depth = 0,
      simple_table_crossed_closers = 0, center_body_depth = 0, flags = 0, crossed_closes = 0,
      list_depth_at_footnote_packed = LIST_DEPTH_AT_FOOTNOTE_NONE, row_suffix_at = ROW_SUFFIX_INACTIVE\<rparr>"

text \<open>The part of the state that keys the memo of rule attempts.\<close>

definition attempt_key :: "wikidot_state \<Rightarrow> wikidot_state" where
  "attempt_key s = s\<lparr>div_body_depth := min (div_body_depth s) 1, row_suffix_at := ROW_SUFFIX_INACTIVE\<rparr>"

subsection \<open>Depths\<close>

definition enter_wikidot_bibliography_body :: "wikidot_state \<Rightarrow> wikidot_state" where
  "enter_wikidot_bibliography_body s = s\<lparr>bibliography_body_depth := saturating_inc (bibliography_body_depth s)\<rparr>"

definition leave_wikidot_bibliography_body :: "wikidot_state \<Rightarrow> wikidot_state" where
  "leave_wikidot_bibliography_body s = s\<lparr>bibliography_body_depth := saturating_dec (bibliography_body_depth s)\<rparr>"

definition in_wikidot_bibliography_body :: "wikidot_state \<Rightarrow> bool" where
  "in_wikidot_bibliography_body s \<longleftrightarrow> 0 < bibliography_body_depth s"

definition enter_bibliography_parse_body :: "wikidot_state \<Rightarrow> wikidot_state" where
  "enter_bibliography_parse_body s = s\<lparr>bibliography_parse_body_depth := saturating_inc (bibliography_parse_body_depth s)\<rparr>"

definition leave_bibliography_parse_body :: "wikidot_state \<Rightarrow> wikidot_state" where
  "leave_bibliography_parse_body s = s\<lparr>bibliography_parse_body_depth := saturating_dec (bibliography_parse_body_depth s)\<rparr>"

definition in_bibliography_parse_body :: "wikidot_state \<Rightarrow> bool" where
  "in_bibliography_parse_body s \<longleftrightarrow> 0 < bibliography_parse_body_depth s"

definition enter_wikidot_div_body :: "wikidot_state \<Rightarrow> wikidot_state" where
  "enter_wikidot_div_body s = s\<lparr>div_body_depth := saturating_inc (div_body_depth s)\<rparr>"

definition leave_wikidot_div_body :: "wikidot_state \<Rightarrow> wikidot_state" where
  "leave_wikidot_div_body s = s\<lparr>div_body_depth := saturating_dec (div_body_depth s)\<rparr>"

definition in_wikidot_div_body :: "wikidot_state \<Rightarrow> bool" where
  "in_wikidot_div_body s \<longleftrightarrow> 0 < div_body_depth s"

definition enter_wikidot_scored_div_body :: "wikidot_state \<Rightarrow> wikidot_state" where
  "enter_wikidot_scored_div_body s = s\<lparr>scored_div_body_depth := saturating_inc (scored_div_body_depth s)\<rparr>"

definition leave_wikidot_scored_div_body :: "wikidot_state \<Rightarrow> wikidot_state" where
  "leave_wikidot_scored_div_body s = s\<lparr>scored_div_body_depth := saturating_dec (scored_div_body_depth s)\<rparr>"

definition enter_wikidot_span_body :: "bool \<Rightarrow> wikidot_state \<Rightarrow> wikidot_state" where
  "enter_wikidot_span_body scored s =
     (if scored then s\<lparr>scored_span_body_depth := saturating_inc (scored_span_body_depth s)\<rparr>
      else s\<lparr>span_body_depth := saturating_inc (span_body_depth s)\<rparr>)"

definition leave_wikidot_span_body :: "bool \<Rightarrow> wikidot_state \<Rightarrow> wikidot_state" where
  "leave_wikidot_span_body scored s =
     (if scored then s\<lparr>scored_span_body_depth := saturating_dec (scored_span_body_depth s)\<rparr>
      else s\<lparr>span_body_depth := saturating_dec (span_body_depth s)\<rparr>)"

definition in_wikidot_span_body :: "wikidot_state \<Rightarrow> bool" where
  "in_wikidot_span_body s \<longleftrightarrow> 0 < span_body_depth s"

definition enter_wikidot_size_body :: "wikidot_state \<Rightarrow> wikidot_state" where
  "enter_wikidot_size_body s = s\<lparr>size_body_depth := saturating_inc (size_body_depth s)\<rparr>"

definition leave_wikidot_size_body :: "wikidot_state \<Rightarrow> wikidot_state" where
  "leave_wikidot_size_body s = s\<lparr>size_body_depth := saturating_dec (size_body_depth s)\<rparr>"

definition in_wikidot_size_body :: "wikidot_state \<Rightarrow> bool" where
  "in_wikidot_size_body s \<longleftrightarrow> 0 < size_body_depth s"

definition enter_wikidot_anchor_body :: "wikidot_state \<Rightarrow> wikidot_state" where
  "enter_wikidot_anchor_body s = s\<lparr>anchor_body_depth := saturating_inc (anchor_body_depth s)\<rparr>"

definition leave_wikidot_anchor_body :: "wikidot_state \<Rightarrow> wikidot_state" where
  "leave_wikidot_anchor_body s = s\<lparr>anchor_body_depth := saturating_dec (anchor_body_depth s)\<rparr>"

definition in_wikidot_anchor_body :: "wikidot_state \<Rightarrow> bool" where
  "in_wikidot_anchor_body s \<longleftrightarrow> 0 < anchor_body_depth s"

definition in_wikidot_literal_alias_body :: "wikidot_state \<Rightarrow> bool" where
  "in_wikidot_literal_alias_body s \<longleftrightarrow> 0 < scored_div_body_depth s \<or> 0 < scored_span_body_depth s"

definition enter_wikidot_literal_triple_link :: "wikidot_state \<Rightarrow> wikidot_state" where
  "enter_wikidot_literal_triple_link s = s\<lparr>literal_triple_link_depth := saturating_inc (literal_triple_link_depth s)\<rparr>"

definition leave_wikidot_literal_triple_link :: "wikidot_state \<Rightarrow> wikidot_state" where
  "leave_wikidot_literal_triple_link s = s\<lparr>literal_triple_link_depth := saturating_dec (literal_triple_link_depth s)\<rparr>"

definition in_wikidot_literal_triple_link :: "wikidot_state \<Rightarrow> bool" where
  "in_wikidot_literal_triple_link s \<longleftrightarrow> 0 < literal_triple_link_depth s"

definition clear_wikidot_literal_triple_links :: "wikidot_state \<Rightarrow> wikidot_state" where
  "clear_wikidot_literal_triple_links s = s\<lparr>literal_triple_link_depth := 0\<rparr>"

definition enter_wikidot_center_body :: "wikidot_state \<Rightarrow> wikidot_state" where
  "enter_wikidot_center_body s = s\<lparr>center_body_depth := saturating_inc (center_body_depth s)\<rparr>"

definition leave_wikidot_center_body :: "wikidot_state \<Rightarrow> wikidot_state" where
  "leave_wikidot_center_body s = s\<lparr>center_body_depth := saturating_dec (center_body_depth s)\<rparr>"

definition in_wikidot_center_body :: "wikidot_state \<Rightarrow> bool" where
  "in_wikidot_center_body s \<longleftrightarrow> 0 < center_body_depth s"

text \<open>The body of a scored division: where it starts and how many boundaries enclose it.\<close>

definition enter_wikidot_scored_div_direct_body :: "nat \<Rightarrow> nat \<Rightarrow> wikidot_state \<Rightarrow> (u32 \<times> u16) \<times> wikidot_state" where
  "enter_wikidot_scored_div_direct_body body_start boundary_depth s =
     (scored_div_direct s,
      s\<lparr>scored_div_direct := (u32_or body_start (SCORED_DIV_DIRECT_INACTIVE - 1), of_nat (min boundary_depth 65535))\<rparr>)"

definition leave_wikidot_scored_div_direct_body :: "u32 \<times> u16 \<Rightarrow> wikidot_state \<Rightarrow> wikidot_state" where
  "leave_wikidot_scored_div_direct_body saved s = s\<lparr>scored_div_direct := saved\<rparr>"

definition wikidot_scored_div_first_line_suppresses_at :: "bool \<Rightarrow> bool \<Rightarrow> bytes \<Rightarrow> nat \<Rightarrow> wikidot_state \<Rightarrow> bool" where
  "wikidot_scored_div_first_line_suppresses_at legacy discarding source pos s \<longleftrightarrow>
     (let body_start = fst (scored_div_direct s); b = unat body_start
      in legacy \<and> \<not> discarding \<and> body_start \<noteq> SCORED_DIV_DIRECT_INACTIVE \<and> b \<le> pos \<and>
         pos \<le> length source \<and> boundary source b \<and> boundary source pos \<and>
         list_all (\<lambda>c. c \<in> {CHR '' '', CHR 0x09, CHR 0x0D, CHR 0x0A}) (slice source b pos))"

definition wikidot_in_scored_div_direct_body :: "bool \<Rightarrow> bool \<Rightarrow> nat \<Rightarrow> wikidot_state \<Rightarrow> bool" where
  "wikidot_in_scored_div_direct_body legacy discarding body_end_boundary_depth s \<longleftrightarrow>
     legacy \<and> \<not> discarding \<and> fst (scored_div_direct s) \<noteq> SCORED_DIV_DIRECT_INACTIVE \<and>
     body_end_boundary_depth = unat (snd (scored_div_direct s)) + 1"

subsection \<open>Flags\<close>

definition set_flag :: "u16 \<Rightarrow> u16 \<Rightarrow> bool \<Rightarrow> u16" where
  "set_flag w flag v = (if v then w OR flag else w AND NOT flag)"

definition in_wikidot_collapsible :: "wikidot_state \<Rightarrow> bool" where
  "in_wikidot_collapsible s \<longleftrightarrow> flags s AND COLLAPSIBLE \<noteq> 0"

definition quote_boundary_closes_body :: "wikidot_state \<Rightarrow> bool" where
  "quote_boundary_closes_body s \<longleftrightarrow> flags s AND QUOTE_BOUNDARY_CLOSES_BODY \<noteq> 0"

definition pending_wikidot_collapsible_closer :: "wikidot_state \<Rightarrow> bool" where
  "pending_wikidot_collapsible_closer s \<longleftrightarrow> flags s AND PENDING_COLLAPSIBLE_CLOSER \<noteq> 0"

definition wikidot_collapsible_closed_at_deeper_quote :: "wikidot_state \<Rightarrow> bool" where
  "wikidot_collapsible_closed_at_deeper_quote s \<longleftrightarrow> flags s AND COLLAPSIBLE_CLOSED_AT_DEEPER_QUOTE \<noteq> 0"

definition set_in_wikidot_collapsible :: "bool \<Rightarrow> wikidot_state \<Rightarrow> wikidot_state" where
  "set_in_wikidot_collapsible v s = s\<lparr>flags := set_flag (flags s) COLLAPSIBLE v\<rparr>"

definition set_quote_boundary_closes_body :: "bool \<Rightarrow> wikidot_state \<Rightarrow> wikidot_state" where
  "set_quote_boundary_closes_body v s = s\<lparr>flags := set_flag (flags s) QUOTE_BOUNDARY_CLOSES_BODY v\<rparr>"

definition set_pending_wikidot_collapsible_closer :: "bool \<Rightarrow> wikidot_state \<Rightarrow> wikidot_state" where
  "set_pending_wikidot_collapsible_closer v s = s\<lparr>flags := set_flag (flags s) PENDING_COLLAPSIBLE_CLOSER v\<rparr>"

definition set_wikidot_collapsible_closed_at_deeper_quote :: "bool \<Rightarrow> wikidot_state \<Rightarrow> wikidot_state" where
  "set_wikidot_collapsible_closed_at_deeper_quote v s = s\<lparr>flags := set_flag (flags s) COLLAPSIBLE_CLOSED_AT_DEEPER_QUOTE v\<rparr>"

definition mark_wikidot_collapsible_content_closed :: "wikidot_state \<Rightarrow> wikidot_state" where
  "mark_wikidot_collapsible_content_closed s = s\<lparr>flags := set_flag (flags s) COLLAPSIBLE_CONTENT_CLOSED True\<rparr>"

definition take_wikidot_collapsible_content_closed :: "wikidot_state \<Rightarrow> bool \<times> wikidot_state" where
  "take_wikidot_collapsible_content_closed s = (flags s AND COLLAPSIBLE_CONTENT_CLOSED \<noteq> 0, s\<lparr>flags := set_flag (flags s) COLLAPSIBLE_CONTENT_CLOSED False\<rparr>)"

definition in_wikidot_iftags_span :: "wikidot_state \<Rightarrow> bool" where
  "in_wikidot_iftags_span s \<longleftrightarrow> flags s AND IFTAGS_LITERAL_SPAN \<noteq> 0"

definition set_in_wikidot_iftags_span :: "bool \<Rightarrow> wikidot_state \<Rightarrow> wikidot_state" where
  "set_in_wikidot_iftags_span v s = s\<lparr>flags := set_flag (flags s) IFTAGS_LITERAL_SPAN v\<rparr>"

definition in_wikidot_definition_list_line :: "wikidot_state \<Rightarrow> bool" where
  "in_wikidot_definition_list_line s \<longleftrightarrow> flags s AND DEFINITION_LIST_LINE \<noteq> 0"

definition set_in_wikidot_definition_list_line :: "bool \<Rightarrow> wikidot_state \<Rightarrow> wikidot_state" where
  "set_in_wikidot_definition_list_line v s = s\<lparr>flags := set_flag (flags s) DEFINITION_LIST_LINE v\<rparr>"

definition in_wikidot_single_line_content :: "wikidot_state \<Rightarrow> bool" where
  "in_wikidot_single_line_content s \<longleftrightarrow> flags s AND SINGLE_LINE_CONTENT \<noteq> 0"

definition set_in_wikidot_single_line_content :: "bool \<Rightarrow> wikidot_state \<Rightarrow> wikidot_state" where
  "set_in_wikidot_single_line_content v s = s\<lparr>flags := set_flag (flags s) SINGLE_LINE_CONTENT v\<rparr>"

definition in_wikidot_heading_line :: "wikidot_state \<Rightarrow> bool" where
  "in_wikidot_heading_line s \<longleftrightarrow> flags s AND HEADING_LINE \<noteq> 0"

definition set_in_wikidot_heading_line :: "bool \<Rightarrow> wikidot_state \<Rightarrow> wikidot_state" where
  "set_in_wikidot_heading_line v s = s\<lparr>flags := set_flag (flags s) HEADING_LINE v\<rparr>"

definition in_wikidot_advanced_table_cell_body :: "wikidot_state \<Rightarrow> bool" where
  "in_wikidot_advanced_table_cell_body s \<longleftrightarrow> flags s AND ADVANCED_TABLE_CELL_BODY \<noteq> 0"

definition set_in_wikidot_advanced_table_cell_body :: "bool \<Rightarrow> wikidot_state \<Rightarrow> wikidot_state" where
  "set_in_wikidot_advanced_table_cell_body v s = s\<lparr>flags := set_flag (flags s) ADVANCED_TABLE_CELL_BODY v\<rparr>"

definition in_wikidot_simple_table_cell :: "wikidot_state \<Rightarrow> bool" where
  "in_wikidot_simple_table_cell s \<longleftrightarrow> flags s AND SIMPLE_TABLE_CELL \<noteq> 0"

definition set_in_wikidot_simple_table_cell :: "bool \<Rightarrow> wikidot_state \<Rightarrow> wikidot_state" where
  "set_in_wikidot_simple_table_cell v s = s\<lparr>flags := set_flag (flags s) SIMPLE_TABLE_CELL v\<rparr>"

definition bibliography_split_tail :: "wikidot_state \<Rightarrow> bool" where
  "bibliography_split_tail s \<longleftrightarrow> flags s AND BIBLIOGRAPHY_SPLIT_TAIL \<noteq> 0"

definition set_bibliography_split_tail :: "bool \<Rightarrow> wikidot_state \<Rightarrow> wikidot_state" where
  "set_bibliography_split_tail v s = s\<lparr>flags := set_flag (flags s) BIBLIOGRAPHY_SPLIT_TAIL v\<rparr>"

definition mark_wikidot_mixed_paragraph_ownership :: "wikidot_state \<Rightarrow> wikidot_state" where
  "mark_wikidot_mixed_paragraph_ownership s = s\<lparr>flags := set_flag (flags s) MIXED_PARAGRAPH_OWNERSHIP True\<rparr>"

definition take_wikidot_mixed_paragraph_ownership :: "wikidot_state \<Rightarrow> bool \<times> wikidot_state" where
  "take_wikidot_mixed_paragraph_ownership s = (flags s AND MIXED_PARAGRAPH_OWNERSHIP \<noteq> 0, s\<lparr>flags := set_flag (flags s) MIXED_PARAGRAPH_OWNERSHIP False\<rparr>)"

definition mark_wikidot_div_literal_recovered :: "wikidot_state \<Rightarrow> wikidot_state" where
  "mark_wikidot_div_literal_recovered s = s\<lparr>flags := set_flag (flags s) DIV_LITERAL_RECOVERED True\<rparr>"

definition take_wikidot_div_literal_recovered :: "wikidot_state \<Rightarrow> bool \<times> wikidot_state" where
  "take_wikidot_div_literal_recovered s = (flags s AND DIV_LITERAL_RECOVERED \<noteq> 0, s\<lparr>flags := set_flag (flags s) DIV_LITERAL_RECOVERED False\<rparr>)"

definition mark_wikidot_module_empty_body :: "wikidot_state \<Rightarrow> wikidot_state" where
  "mark_wikidot_module_empty_body s = s\<lparr>flags := set_flag (flags s) MODULE_EMPTY_BODY True\<rparr>"

definition take_wikidot_module_empty_body :: "wikidot_state \<Rightarrow> bool \<times> wikidot_state" where
  "take_wikidot_module_empty_body s = (flags s AND MODULE_EMPTY_BODY \<noteq> 0, s\<lparr>flags := set_flag (flags s) MODULE_EMPTY_BODY False\<rparr>)"

definition mark_wikidot_module_line_vanished :: "wikidot_state \<Rightarrow> wikidot_state" where
  "mark_wikidot_module_line_vanished s = s\<lparr>flags := set_flag (flags s) MODULE_LINE_VANISHED True\<rparr>"

definition take_wikidot_module_line_vanished :: "wikidot_state \<Rightarrow> bool \<times> wikidot_state" where
  "take_wikidot_module_line_vanished s = (flags s AND MODULE_LINE_VANISHED \<noteq> 0, s\<lparr>flags := set_flag (flags s) MODULE_LINE_VANISHED False\<rparr>)"

definition wikidot_row_absorb_div_close :: "wikidot_state \<Rightarrow> bool" where
  "wikidot_row_absorb_div_close s \<longleftrightarrow> crossed_closes s AND ROW_ABSORB_DIV_CLOSE \<noteq> 0"

definition set_wikidot_row_absorb_div_close :: "bool \<Rightarrow> wikidot_state \<Rightarrow> wikidot_state" where
  "set_wikidot_row_absorb_div_close v s = s\<lparr>crossed_closes := set_flag (crossed_closes s) ROW_ABSORB_DIV_CLOSE v\<rparr>"

definition take_wikidot_row_absorb_div_close :: "wikidot_state \<Rightarrow> bool \<times> wikidot_state" where
  "take_wikidot_row_absorb_div_close s = (crossed_closes s AND ROW_ABSORB_DIV_CLOSE \<noteq> 0, s\<lparr>crossed_closes := set_flag (crossed_closes s) ROW_ABSORB_DIV_CLOSE False\<rparr>)"

definition arm_wikidot_advanced_cell_paragraph :: "wikidot_state \<Rightarrow> wikidot_state" where
  "arm_wikidot_advanced_cell_paragraph s = s\<lparr>crossed_closes := set_flag (crossed_closes s) ADVANCED_CELL_PARAGRAPH True\<rparr>"

definition take_wikidot_advanced_cell_paragraph :: "wikidot_state \<Rightarrow> bool \<times> wikidot_state" where
  "take_wikidot_advanced_cell_paragraph s = (crossed_closes s AND ADVANCED_CELL_PARAGRAPH \<noteq> 0, s\<lparr>crossed_closes := set_flag (crossed_closes s) ADVANCED_CELL_PARAGRAPH False\<rparr>)"

definition clear_wikidot_advanced_cell_paragraph :: "wikidot_state \<Rightarrow> wikidot_state" where
  "clear_wikidot_advanced_cell_paragraph s = s\<lparr>crossed_closes := set_flag (crossed_closes s) ADVANCED_CELL_PARAGRAPH False\<rparr>"

definition set_crossed_collapsible_tail :: "bool \<Rightarrow> wikidot_state \<Rightarrow> wikidot_state" where
  "set_crossed_collapsible_tail v s = s\<lparr>crossed_closes := set_flag (crossed_closes s) CROSSED_COLLAPSIBLE_TAIL v\<rparr>"

definition take_crossed_collapsible_tail :: "wikidot_state \<Rightarrow> bool \<times> wikidot_state" where
  "take_crossed_collapsible_tail s = (crossed_closes s AND CROSSED_COLLAPSIBLE_TAIL \<noteq> 0, s\<lparr>crossed_closes := set_flag (crossed_closes s) CROSSED_COLLAPSIBLE_TAIL False\<rparr>)"

definition pending_note_list_closer :: "wikidot_state \<Rightarrow> bool" where
  "pending_note_list_closer s \<longleftrightarrow> crossed_closes s AND PENDING_NOTE_LIST_CLOSER \<noteq> 0"

definition set_pending_note_list_closer :: "bool \<Rightarrow> wikidot_state \<Rightarrow> wikidot_state" where
  "set_pending_note_list_closer v s = s\<lparr>crossed_closes := set_flag (crossed_closes s) PENDING_NOTE_LIST_CLOSER v\<rparr>"

definition set_suppress_footnote_list_break :: "bool \<Rightarrow> wikidot_state \<Rightarrow> wikidot_state" where
  "set_suppress_footnote_list_break v s = s\<lparr>crossed_closes := set_flag (crossed_closes s) SUPPRESS_FOOTNOTE_LIST_BREAK v\<rparr>"

definition take_suppress_footnote_list_break :: "wikidot_state \<Rightarrow> bool \<times> wikidot_state" where
  "take_suppress_footnote_list_break s = (crossed_closes s AND SUPPRESS_FOOTNOTE_LIST_BREAK \<noteq> 0, s\<lparr>crossed_closes := set_flag (crossed_closes s) SUPPRESS_FOOTNOTE_LIST_BREAK False\<rparr>)"

subsection \<open>Packed optional offsets\<close>

definition set_wikidot_row_suffix_at :: "nat \<Rightarrow> wikidot_state \<Rightarrow> wikidot_state" where
  "set_wikidot_row_suffix_at b s = s\<lparr>row_suffix_at := u32_or b (ROW_SUFFIX_INACTIVE - 1)\<rparr>"

definition wikidot_row_suffix_at :: "wikidot_state \<Rightarrow> nat option" where
  "wikidot_row_suffix_at s = (if row_suffix_at s = ROW_SUFFIX_INACTIVE then None else Some (unat (row_suffix_at s)))"

definition clear_wikidot_row_suffix_at :: "wikidot_state \<Rightarrow> wikidot_state" where
  "clear_wikidot_row_suffix_at s = s\<lparr>row_suffix_at := ROW_SUFFIX_INACTIVE\<rparr>"

definition list_depth_at_footnote :: "wikidot_state \<Rightarrow> nat option" where
  "list_depth_at_footnote s =
     (if list_depth_at_footnote_packed s = LIST_DEPTH_AT_FOOTNOTE_NONE then None
      else Some (unat (list_depth_at_footnote_packed s)))"

definition set_list_depth_at_footnote :: "nat option \<Rightarrow> wikidot_state \<Rightarrow> wikidot_state" where
  "set_list_depth_at_footnote v s =
     s\<lparr>list_depth_at_footnote_packed :=
         (case v of None \<Rightarrow> LIST_DEPTH_AT_FOOTNOTE_NONE | Some depth \<Rightarrow> u32_or depth (LIST_DEPTH_AT_FOOTNOTE_NONE - 1))\<rparr>"

subsection \<open>Crossed closers\<close>

definition crossed_close_slot :: "bytes \<Rightarrow> (nat \<times> u16) option" where
  "crossed_close_slot name =
     (let name = (case strip_prefix ''block-'' name of Some n \<Rightarrow> n | None \<Rightarrow> name)
      in if eq_ignore_ascii_case name ''div'' then Some (0, 3)
         else if eq_ignore_ascii_case name ''collapsible'' then Some (2, 1)
         else if eq_ignore_ascii_case name ''blockquote'' then Some (3, 1)
         else if eq_ignore_ascii_case name ''anchor'' \<or> eq_ignore_ascii_case name ''a'' then Some (4, 1)
         else None)"

definition record_wikidot_crossed_close :: "bytes \<Rightarrow> wikidot_state \<Rightarrow> wikidot_state" where
  "record_wikidot_crossed_close block_rule_name s =
     (case crossed_close_slot block_rule_name of
        None \<Rightarrow> s
      | Some (shift, limit) \<Rightarrow>
          if drop_bit shift (crossed_closes s) AND limit < limit
          then s\<lparr>crossed_closes := crossed_closes s + push_bit shift 1\<rparr> else s)"

definition has_wikidot_crossed_close :: "wikidot_state \<Rightarrow> bool" where
  "has_wikidot_crossed_close s \<longleftrightarrow> crossed_closes s AND CROSSED_CLOSE_SLOTS \<noteq> 0"

definition take_wikidot_crossed_close :: "bytes \<Rightarrow> wikidot_state \<Rightarrow> bool \<times> wikidot_state" where
  "take_wikidot_crossed_close end_name s =
     (case crossed_close_slot end_name of
        None \<Rightarrow> (False, s)
      | Some (shift, limit) \<Rightarrow>
          if drop_bit shift (crossed_closes s) AND limit = 0 then (False, s)
          else (True, s\<lparr>crossed_closes := crossed_closes s - push_bit shift 1\<rparr>))"

text \<open>Closers of inline formats that a simple table cell has crossed: a set of bits.\<close>

datatype split_delimiter = SplitBold | SplitItalics

fun simple_table_split_closer_bit :: "split_delimiter \<Rightarrow> u16" where
  "simple_table_split_closer_bit SplitBold = push_bit 8 1"
| "simple_table_split_closer_bit SplitItalics = push_bit 9 1"

definition simple_table_closer_bit :: "token \<Rightarrow> u16" where
  "simple_table_closer_bit t =
     (if t = Bold then push_bit 0 1 else if t = Italics then push_bit 1 1
      else if t = DoubleDash then push_bit 2 1 else if t = Underline then push_bit 3 1
      else if t = Superscript then push_bit 4 1 else if t = Subscript then push_bit 5 1
      else if t = RightMonospace then push_bit 6 1 else if t = Color then push_bit 7 1 else 0)"

definition mark_wikidot_simple_table_crossed_closer :: "token \<Rightarrow> wikidot_state \<Rightarrow> wikidot_state" where
  "mark_wikidot_simple_table_crossed_closer t s =
     s\<lparr>simple_table_crossed_closers := simple_table_crossed_closers s OR simple_table_closer_bit t\<rparr>"

definition mark_wikidot_simple_table_crossed_split_closer :: "split_delimiter \<Rightarrow> wikidot_state \<Rightarrow> wikidot_state" where
  "mark_wikidot_simple_table_crossed_split_closer d s =
     s\<lparr>simple_table_crossed_closers := simple_table_crossed_closers s OR simple_table_split_closer_bit d\<rparr>"

definition take_wikidot_simple_table_crossed_closers :: "wikidot_state \<Rightarrow> u16 \<times> wikidot_state" where
  "take_wikidot_simple_table_crossed_closers s =
     (simple_table_crossed_closers s, s\<lparr>simple_table_crossed_closers := 0\<rparr>)"

subsection \<open>Counters and flags\<close>

text \<open>Entering and leaving the same number of times is the identity as long as the counter does not saturate.\<close>

lemma saturating_inc_unat: "unat (saturating_inc w) = min (unat w + 1) (2 ^ LENGTH('a) - 1)" for w :: "'a::len word"
proof (cases "w = - 1")
  case True
  then show ?thesis by (simp add: saturating_inc_def unsigned_minus_1_eq_mask mask_eq_exp_minus_1)
next
  case False
  then have "unat w \<noteq> 2 ^ LENGTH('a) - 1"
    by (metis mask_eq_exp_minus_1 unsigned_minus_1_eq_mask unsigned_word_eqI)
  moreover have "unat w < 2 ^ LENGTH('a)" by (rule unsigned_less)
  ultimately have "unat w + 1 < 2 ^ LENGTH('a)" by linarith
  then show ?thesis using False by (simp add: saturating_inc_def unat_word_ariths)
qed

lemma saturating_dec_unat: "unat (saturating_dec w) = unat w - 1" for w :: "'a::len word"
  by (cases "w = 0") (simp_all add: saturating_dec_def unat_minus_one)

lemma counter_balanced:
  "unat w + n < 2 ^ LENGTH('a) \<Longrightarrow> (saturating_dec ^^ n) ((saturating_inc ^^ n) w) = w" for w :: "'a::len word"
proof -
  assume n: "unat w + n < 2 ^ LENGTH('a)"
  have "unat ((saturating_inc ^^ k) w) = unat w + k" if "k \<le> n" for k
    using that by (induction k) (use n in \<open>simp_all add: saturating_inc_unat\<close>)
  moreover have "unat ((saturating_dec ^^ k) v) = unat v - k" for k and v :: "'a word"
    by (induction k) (simp_all add: saturating_dec_unat)
  ultimately show ?thesis by (simp add: word_unat_eq_iff)
qed

lemma set_flag_bit: "i < 16 \<Longrightarrow> bit (set_flag w (push_bit i 1) v) j \<longleftrightarrow> (if j = i then v else bit w j)"
  using bit_imp_le_length [of w j] by (auto simp: set_flag_def bit_simps)

lemma flag_bit: "w AND push_bit i 1 \<noteq> 0 \<longleftrightarrow> bit w i" for w :: u16
  by (simp add: bit_iff_and_push_bit_not_eq_0)

subsection \<open>The packed counters refine four counters\<close>

datatype crossed = CrossedDiv | CrossedCollapsible | CrossedBlockquote | CrossedAnchor

fun capacity :: "crossed \<Rightarrow> nat" where
  "capacity CrossedDiv = 3"
| "capacity _ = 1"

fun layout :: "crossed \<Rightarrow> nat \<times> nat" where
  "layout CrossedDiv = (0, 2)"
| "layout CrossedCollapsible = (2, 1)"
| "layout CrossedBlockquote = (3, 1)"
| "layout CrossedAnchor = (4, 1)"

definition crossed_kind :: "bytes \<Rightarrow> crossed option" where
  "crossed_kind name =
     map_of [(''div'', CrossedDiv), (''collapsible'', CrossedCollapsible), (''blockquote'', CrossedBlockquote),
         (''anchor'', CrossedAnchor), (''a'', CrossedAnchor)]
       (to_ascii_lowercase (case strip_prefix ''block-'' name of Some n \<Rightarrow> n | None \<Rightarrow> name))"

definition counts :: "wikidot_state \<Rightarrow> crossed \<Rightarrow> nat" where
  "counts s k = unat (crossed_closes s) div 2 ^ fst (layout k) mod 2 ^ snd (layout k)"

text \<open>Everything but the four counters: the other fields and the upper bits of the packed word.\<close>

definition beside_counts :: "wikidot_state \<Rightarrow> wikidot_state \<times> nat" where
  "beside_counts s = (s\<lparr>crossed_closes := 0\<rparr>, unat (crossed_closes s) div 32)"

lemma crossed_close_slot_kind:
  "crossed_close_slot name = map_option (\<lambda>k. (fst (layout k), of_nat (capacity k))) (crossed_kind name)"
proof -
  have "to_ascii_lowercase ''div'' = ''div''" "to_ascii_lowercase ''collapsible'' = ''collapsible''"
    "to_ascii_lowercase ''blockquote'' = ''blockquote''" "to_ascii_lowercase ''anchor'' = ''anchor''"
    "to_ascii_lowercase ''a'' = ''a''" by code_simp+
  then show ?thesis by (simp add: crossed_close_slot_def crossed_kind_def Let_def eq_ignore_ascii_case_def)
qed

lemma slot_value:
  "unat (drop_bit (fst (layout k)) (crossed_closes s) AND of_nat (capacity k)) = counts s k"
proof -
  have m: "of_nat (capacity k) = (mask (snd (layout k)) :: u16)" by (cases k) (simp_all add: mask_eq_exp_minus_1)
  show ?thesis
    unfolding m take_bit_eq_mask [symmetric] counts_def
    by (simp only: unsigned_take_bit_eq unat_drop_bit_eq) (simp only: take_bit_eq_mod drop_bit_eq_div)
qed

lemma field_up:
  assumes "n div 2 ^ i mod 2 ^ k + 1 < (2::nat) ^ k"
  shows "(n + 2 ^ i) div 2 ^ i mod 2 ^ k = n div 2 ^ i mod 2 ^ k + 1"
    and "(n + 2 ^ i) div 2 ^ (i + k) = n div 2 ^ (i + k)"
    and "(n + 2 ^ i) mod 2 ^ i = n mod 2 ^ i"
proof -
  define q m where "q = n div 2 ^ i" and "m = (2::nat) ^ k"
  have d: "(n + 2 ^ i) div 2 ^ i = q + 1" unfolding q_def by (rule div_add_self2) simp
  have q: "q mod m + 1 < m" using assms by (simp add: q_def m_def)
  then show "(n + 2 ^ i) div 2 ^ i mod 2 ^ k = n div 2 ^ i mod 2 ^ k + 1"
    unfolding d m_def [symmetric] q_def [symmetric] by (simp add: mod_Suc)
  have "(q + 1) div m = q div m" using q by (simp add: div_Suc mod_Suc)
  then show "(n + 2 ^ i) div 2 ^ (i + k) = n div 2 ^ (i + k)"
    unfolding power_add div_mult2_eq d m_def [symmetric] q_def [symmetric] .
qed simp

lemma record_shift:
  assumes "counts s k < capacity k"
  defines "w \<equiv> crossed_closes s + push_bit (fst (layout k)) 1"
  shows "unat w = unat (crossed_closes s) + 2 ^ fst (layout k)"
proof -
  define n where "n = unat (crossed_closes s)"
  have c: "counts s k + 1 < 2 ^ snd (layout k)" using assms(1) by (cases k) simp_all
  have "n < 2 ^ LENGTH(16)" unfolding n_def by (rule unsigned_less)
  then have "n < 2 ^ 16" by simp
  have "(n + 2 ^ fst (layout k)) div 2 ^ (fst (layout k) + snd (layout k)) = n div 2 ^ (fst (layout k) + snd (layout k))"
    using c by (intro field_up) (simp add: counts_def n_def)
  moreover have whole: "2 ^ (16 - (fst (layout k) + snd (layout k))) * 2 ^ (fst (layout k) + snd (layout k)) = (2::nat) ^ 16"
    by (cases k) simp_all
  then have below: "x div 2 ^ (fst (layout k) + snd (layout k)) < 2 ^ (16 - (fst (layout k) + snd (layout k))) \<longleftrightarrow> x < 2 ^ 16" for x :: nat
    by (simp only: div_less_iff_less_mult zero_less_power zero_less_numeral)
  ultimately have "n + 2 ^ fst (layout k) < 2 ^ 16" using below [of n] below [of "n + 2 ^ fst (layout k)"] \<open>n < 2 ^ 16\<close> by simp
  then show ?thesis
    unfolding w_def n_def by (cases k) (simp_all add: unat_word_ariths push_bit_eq_mult)
qed

lemma other_field:
  assumes "m div 2 ^ (i + k) = n div (2::nat) ^ (i + k)" and "m mod 2 ^ i = n mod 2 ^ i" and "i + k \<le> a \<or> a + b \<le> i"
  shows "m div 2 ^ a mod 2 ^ b = n div 2 ^ a mod 2 ^ b"
  using assms(3)
proof
  assume "i + k \<le> a"
  then obtain d where "a = i + k + d" using le_Suc_ex by blast
  then have "x div 2 ^ a = x div 2 ^ (i + k) div 2 ^ d" for x :: nat by (simp add: power_add div_mult2_eq)
  then show ?thesis using assms(1) by simp
next
  assume "a + b \<le> i"
  then have "take_bit b (drop_bit a x) = drop_bit a (take_bit (a + b) (take_bit i x))" for x :: nat
    by (simp add: take_bit_drop_bit add.commute)
  then have "x div 2 ^ a mod 2 ^ b = drop_bit a (take_bit (a + b) (x mod 2 ^ i))" for x :: nat
    by (simp only: take_bit_eq_mod [symmetric] drop_bit_eq_div [symmetric])
  then show ?thesis using assms(2) by simp
qed

lemma layouts_disjoint: "j \<noteq> k \<Longrightarrow> fst (layout k) + snd (layout k) \<le> fst (layout j) \<or> fst (layout j) + snd (layout j) \<le> fst (layout k)"
  by (cases j; cases k) simp_all

lemma layout_below: "fst (layout k) + snd (layout k) \<le> 5"
  by (cases k) simp_all

lemma counts_of_closes: "counts (s\<lparr>crossed_closes := w\<rparr>) j = unat w div 2 ^ fst (layout j) mod 2 ^ snd (layout j)"
  by (simp add: counts_def)

lemma bumped:
  assumes "m = n + 2 ^ fst (layout k)" and "n div 2 ^ fst (layout k) mod 2 ^ snd (layout k) < capacity k"
  shows "m div 2 ^ fst (layout k) mod 2 ^ snd (layout k) = n div 2 ^ fst (layout k) mod 2 ^ snd (layout k) + 1"
    and "j \<noteq> k \<Longrightarrow> m div 2 ^ fst (layout j) mod 2 ^ snd (layout j) = n div 2 ^ fst (layout j) mod 2 ^ snd (layout j)"
    and "m div 32 = n div 32"
proof -
  have "n div 2 ^ fst (layout k) mod 2 ^ snd (layout k) + 1 < 2 ^ snd (layout k)" using assms(2) by (cases k) simp_all
  note up = field_up [OF this, folded assms(1)]
  show "m div 2 ^ fst (layout k) mod 2 ^ snd (layout k) = n div 2 ^ fst (layout k) mod 2 ^ snd (layout k) + 1" by (rule up(1))
  show "m div 2 ^ fst (layout j) mod 2 ^ snd (layout j) = n div 2 ^ fst (layout j) mod 2 ^ snd (layout j)" if "j \<noteq> k"
    by (rule other_field [OF up(2,3) layouts_disjoint [OF that]])
  obtain d where "5 = fst (layout k) + snd (layout k) + d" using layout_below [of k] le_Suc_ex by blast
  then have "(2::nat) ^ 5 = 2 ^ (fst (layout k) + snd (layout k)) * 2 ^ d" by (metis power_add)
  then have "x div 32 = x div 2 ^ (fst (layout k) + snd (layout k)) div 2 ^ d" for x :: nat
    by (simp add: div_mult2_eq [symmetric])
  then show "m div 32 = n div 32" using up(2) by simp
qed

lemma record_counts:
  assumes "crossed_kind name = Some k"
  shows "counts (record_wikidot_crossed_close name s) = (counts s)(k := min (counts s k + 1) (capacity k))"
    and "beside_counts (record_wikidot_crossed_close name s) = beside_counts s"
proof -
  have slot: "crossed_close_slot name = Some (fst (layout k), of_nat (capacity k))"
    using assms by (simp add: crossed_close_slot_kind)
  have full: "(drop_bit (fst (layout k)) (crossed_closes s) AND of_nat (capacity k) < of_nat (capacity k)) = (counts s k < capacity k)"
    by (cases k) (simp_all add: word_less_nat_alt slot_value [symmetric])
  have limit: "counts s k \<le> capacity k"
    unfolding counts_def by (cases k) (simp_all add: less_Suc_eq_le [symmetric])
  have "counts (record_wikidot_crossed_close name s) = (counts s)(k := min (counts s k + 1) (capacity k)) \<and>
    beside_counts (record_wikidot_crossed_close name s) = beside_counts s"
  proof (cases "counts s k < capacity k")
    case True
    note b = bumped [OF record_shift [OF True] True [unfolded counts_def]]
    have r: "record_wikidot_crossed_close name s = s\<lparr>crossed_closes := crossed_closes s + push_bit (fst (layout k)) 1\<rparr>"
      using True by (simp add: record_wikidot_crossed_close_def slot full)
    have "counts (record_wikidot_crossed_close name s) j = ((counts s)(k := min (counts s k + 1) (capacity k))) j" for j
      using b(1) b(2) [of j] True unfolding r counts_of_closes by (auto simp: counts_def)
    then show ?thesis using b(3) by (auto simp: r beside_counts_def)
  next
    case False
    with limit have "counts s k = capacity k" by simp
    then show ?thesis using False by (auto simp: record_wikidot_crossed_close_def slot full)
  qed
  then show "counts (record_wikidot_crossed_close name s) = (counts s)(k := min (counts s k + 1) (capacity k))"
    "beside_counts (record_wikidot_crossed_close name s) = beside_counts s" by blast+
qed

lemma counts_capacity: "counts s k \<le> capacity k"
  unfolding counts_def by (cases k) (simp_all add: less_Suc_eq_le [symmetric])

lemma take_shift:
  assumes "0 < counts s k"
  shows "unat (crossed_closes s - push_bit (fst (layout k)) 1) + 2 ^ fst (layout k) = unat (crossed_closes s)"
proof -
  have "2 ^ fst (layout k) \<le> unat (crossed_closes s)"
  proof (rule ccontr)
    assume "\<not> 2 ^ fst (layout k) \<le> unat (crossed_closes s)"
    then have "counts s k = 0" by (simp add: counts_def)
    with assms show False by simp
  qed
  moreover have one: "unat (push_bit (fst (layout k)) (1 :: u16)) = 2 ^ fst (layout k)" by (cases k) (simp_all add: push_bit_eq_mult)
  ultimately have "push_bit (fst (layout k)) 1 \<le> crossed_closes s" by (simp add: word_le_nat_alt)
  then show ?thesis using one \<open>2 ^ fst (layout k) \<le> unat (crossed_closes s)\<close> by (simp add: unat_sub)
qed

lemma take_counts:
  assumes "crossed_kind name = Some k"
  shows "fst (take_wikidot_crossed_close name s) \<longleftrightarrow> 0 < counts s k"
    and "counts (snd (take_wikidot_crossed_close name s)) = (counts s)(k := counts s k - 1)"
    and "beside_counts (snd (take_wikidot_crossed_close name s)) = beside_counts s"
proof -
  have slot: "crossed_close_slot name = Some (fst (layout k), of_nat (capacity k))"
    using assms by (simp add: crossed_close_slot_kind)
  have empty: "(drop_bit (fst (layout k)) (crossed_closes s) AND of_nat (capacity k) = 0) = (counts s k = 0)"
    by (simp add: slot_value [symmetric] unat_eq_0)
  then show "fst (take_wikidot_crossed_close name s) \<longleftrightarrow> 0 < counts s k"
    by (simp add: take_wikidot_crossed_close_def slot)
  have "counts (snd (take_wikidot_crossed_close name s)) = (counts s)(k := counts s k - 1) \<and>
    beside_counts (snd (take_wikidot_crossed_close name s)) = beside_counts s"
  proof (cases "counts s k = 0")
    case True
    with empty show ?thesis by (auto simp: take_wikidot_crossed_close_def slot)
  next
    case False
    define w where "w = crossed_closes s - push_bit (fst (layout k)) 1"
    have n: "unat (crossed_closes s) = unat w + 2 ^ fst (layout k)" using take_shift False by (simp add: w_def)
    define q where "q = unat w div 2 ^ fst (layout k)"
    have "unat (crossed_closes s) div 2 ^ fst (layout k) = q + 1" unfolding n q_def by (rule div_add_self2) simp
    then have c: "counts s k = (q + 1) mod 2 ^ snd (layout k)" by (simp add: counts_def)
    with False have q: "counts s k = q mod 2 ^ snd (layout k) + 1" by (simp add: mod_Suc split: if_splits)
    then have "unat w div 2 ^ fst (layout k) mod 2 ^ snd (layout k) < capacity k"
      using counts_capacity [of s k] by (simp add: q_def)
    note b = bumped [OF n this]
    have t: "snd (take_wikidot_crossed_close name s) = s\<lparr>crossed_closes := w\<rparr>"
      using False empty by (simp add: take_wikidot_crossed_close_def slot w_def)
    have "counts (s\<lparr>crossed_closes := w\<rparr>) j = ((counts s)(k := counts s k - 1)) j" for j
      using b(2) [of j] q unfolding counts_of_closes by (auto simp: counts_def q_def)
    then show ?thesis using b(3) unfolding t by (auto simp: beside_counts_def)
  qed
  then show "counts (snd (take_wikidot_crossed_close name s)) = (counts s)(k := counts s k - 1)"
    "beside_counts (snd (take_wikidot_crossed_close name s)) = beside_counts s" by blast+
qed

lemma unknown_crossed_close:
  assumes "crossed_kind name = None"
  shows "record_wikidot_crossed_close name s = s" and "take_wikidot_crossed_close name s = (False, s)"
  using assms by (simp_all add: record_wikidot_crossed_close_def take_wikidot_crossed_close_def crossed_close_slot_kind)

lemma has_crossed_close: "has_wikidot_crossed_close s \<longleftrightarrow> (\<exists>k. 0 < counts s k)"
proof -
  define n where "n = unat (crossed_closes s)"
  have "crossed_closes s AND 31 = take_bit 5 (crossed_closes s)" by (simp add: take_bit_eq_mask mask_eq_exp_minus_1)
  then have "has_wikidot_crossed_close s \<longleftrightarrow> take_bit 5 n \<noteq> 0"
    unfolding has_wikidot_crossed_close_def CROSSED_CLOSE_SLOTS_def n_def
    by (simp only: unsigned_take_bit_eq [symmetric] unat_eq_0)
  also have "take_bit 5 n = n mod (4 * 2 * 2 * 2)" by (simp add: take_bit_eq_mod)
  also have "\<dots> = 4 * 2 * 2 * (n div (4 * 2 * 2) mod 2) + (4 * 2 * (n div (4 * 2) mod 2) + (4 * (n div 4 mod 2) + n mod 4))"
    by (simp only: mod_mult2_eq)
  also have "\<dots> \<noteq> 0 \<longleftrightarrow> 0 < n mod 4 \<or> 0 < n div 4 mod 2 \<or> 0 < n div 8 mod 2 \<or> 0 < n div 16 mod 2"
    by (simp add: ac_simps del: mod_greater_zero_iff_not_dvd)
  finally have "has_wikidot_crossed_close s \<longleftrightarrow> 0 < n mod 4 \<or> 0 < n div 4 mod 2 \<or> 0 < n div 8 mod 2 \<or> 0 < n div 16 mod 2" .
  moreover have "(\<exists>k. P k) \<longleftrightarrow> P CrossedDiv \<or> P CrossedCollapsible \<or> P CrossedBlockquote \<or> P CrossedAnchor" for P
    by (metis crossed.exhaust)
  ultimately show ?thesis by (simp add: counts_def n_def)
qed

text \<open>
  C27: The packed word of crossed closers behaves as four counters, of the closers of divisions (at most
  three), collapsible blocks, quotes and anchors (at most one each): recording a closer increments its
  counter up to the capacity, taking one succeeds exactly when its counter is positive and decrements
  it, and neither touches another counter, the flags above them or the rest of the state.
\<close>

theorem crossed_closes_refine:
  "(case crossed_kind name of
      None \<Rightarrow> record_wikidot_crossed_close name s = s \<and> take_wikidot_crossed_close name s = (False, s)
    | Some k \<Rightarrow>
        counts (record_wikidot_crossed_close name s) = (counts s)(k := min (counts s k + 1) (capacity k)) \<and>
        beside_counts (record_wikidot_crossed_close name s) = beside_counts s \<and>
        (fst (take_wikidot_crossed_close name s) \<longleftrightarrow> 0 < counts s k) \<and>
        counts (snd (take_wikidot_crossed_close name s)) = (counts s)(k := counts s k - 1) \<and>
        beside_counts (snd (take_wikidot_crossed_close name s)) = beside_counts s) \<and>
   (has_wikidot_crossed_close s \<longleftrightarrow> (\<exists>k. 0 < counts s k))"
  using record_counts [of name] take_counts [of name] unknown_crossed_close [of name] has_crossed_close
  by (simp split: option.split)

end
