(* ===== verification/Div_Stream.thy ===== *)
theory Div_Stream
  imports "HOL-Library.Word" Token Parser_State
begin

text \<open>
  The marks of the div stream (\<open>compute_wikidot_div_stream_marks\<close> in
  \<open>parsing/parser/wikidot_state.rs\<close>): one pass over the tokens remembers for each opener of a div how
  many divs were open before it and how many closers its region still holds.  The library shows
  that the pass, which settles a whole region when its balance returns to zero, gives each opener
  what a scan of its own would find.  The balance of the code is a \<open>u32\<close>; it is at most the number of
  tokens (\<open>balance_bounded\<close>).
\<close>

definition token_is :: "extracted_token list \<Rightarrow> nat \<Rightarrow> token \<Rightarrow> bool" where
  "token_is tokens i t \<longleftrightarrow> i < length tokens \<and> et_token (tokens ! i) = t"

subsection \<open>Skipping a block or a comment inside a name\<close>

function segment_loop :: "extracted_token list \<Rightarrow> nat \<Rightarrow> nat \<Rightarrow> bool \<Rightarrow> bool \<Rightarrow> nat option" where
  "segment_loop tokens i depth head_closed in_end_head =
     (if i < length tokens
      then let t = et_token (tokens ! i)
           in if t = LeftBlock then segment_loop tokens (i + 1) (depth + 1) head_closed in_end_head
              else if t = LeftBlockEnd
              then segment_loop tokens (i + 1) (depth + 1) head_closed
                     (in_end_head \<or> (head_closed \<and> depth = 0))
              else if t = RightBlock
              then if depth = 0 then None
                   else if depth - 1 = 0
                   then if in_end_head then Some (i + 1)
                        else segment_loop tokens (i + 1) (depth - 1) True in_end_head
                   else segment_loop tokens (i + 1) (depth - 1) head_closed in_end_head
              else if t = InputEnd then None
              else segment_loop tokens (i + 1) depth head_closed in_end_head
      else None)"
  by pat_completeness auto
termination by (relation "measure (\<lambda>(tokens, i, _). length tokens - i)") auto

declare segment_loop.simps [simp del]

definition div_stream_skip_segment :: "extracted_token list \<Rightarrow> nat \<Rightarrow> nat option" where
  "div_stream_skip_segment tokens i = segment_loop tokens i 0 False False"

definition trailing_hyphens :: "bytes \<Rightarrow> nat" where
  "trailing_hyphens s = length (takeWhile (\<lambda>c. c = CHR ''-'') (rev s))"

definition right_bracket_at :: "extracted_token list \<Rightarrow> nat \<Rightarrow> bool" where
  "right_bracket_at tokens i \<longleftrightarrow> token_is tokens i RightBracket \<and> et_slice (tokens ! i) = '']''"

function comment_loop :: "extracted_token list \<Rightarrow> nat \<Rightarrow> nat \<Rightarrow> nat option" where
  "comment_loop tokens i hyphens =
     (if i < length tokens
      then let s = et_slice (tokens ! i)
           in if et_token (tokens ! i) = InputEnd then None
              else if trailing_hyphens s \<ge> 2 \<and> trailing_hyphens s < length s \<and> right_bracket_at tokens (i + 1)
              then Some (i + 2)
              else if s \<noteq> [] \<and> list_all (\<lambda>c. c = CHR ''-'') s
              then comment_loop tokens (i + 1) (hyphens + length s)
              else if hyphens \<ge> 2 \<and> right_bracket_at tokens i then Some (i + 1)
              else comment_loop tokens (i + 1) 0
      else None)"
  by pat_completeness auto
termination by (relation "measure (\<lambda>(tokens, i, _). length tokens - i)") auto

declare comment_loop.simps [simp del]

definition div_stream_skip_comment :: "extracted_token list \<Rightarrow> nat \<Rightarrow> nat option" where
  "div_stream_skip_comment tokens i = comment_loop tokens (i + 1) 0"

text \<open>Both end behind the token they start at, and inside the list.\<close>

lemma if_split_asm_elim: "(if b then x else y) = z \<Longrightarrow> (b \<Longrightarrow> x = z \<Longrightarrow> P) \<Longrightarrow> (\<not> b \<Longrightarrow> y = z \<Longrightarrow> P) \<Longrightarrow> P"
  by (cases b) auto

lemma segment_loop_advances: "segment_loop tokens i d h e = Some j \<Longrightarrow> i < j \<and> j \<le> length tokens"
proof (induction "length tokens - i" arbitrary: i d h e rule: less_induct)
  case less
  have onward: "i < j \<and> j \<le> length tokens" if "i < length tokens" "segment_loop tokens (i + 1) d' h' e' = Some j" for d' h' e'
  proof -
    have "length tokens - (i + 1) < length tokens - i" using that(1) by arith
    from less.hyps [OF this that(2)] show ?thesis by arith
  qed
  from less.prems show ?case
    unfolding segment_loop.simps [of tokens i] Let_def
    by (elim if_split_asm_elim) (simp_all add: onward)
qed

lemma comment_loop_advances: "comment_loop tokens i h = Some j \<Longrightarrow> i < j \<and> j \<le> length tokens"
proof (induction "length tokens - i" arbitrary: i h rule: less_induct)
  case less
  have onward: "i < j \<and> j \<le> length tokens" if "i < length tokens" "comment_loop tokens (i + 1) h' = Some j" for h'
  proof -
    have "length tokens - (i + 1) < length tokens - i" using that(1) by arith
    from less.hyps [OF this that(2)] show ?thesis by arith
  qed
  from less.prems show ?case
    unfolding comment_loop.simps [of tokens i] Let_def right_bracket_at_def token_is_def
    by (elim if_split_asm_elim) (simp_all add: onward)
qed

lemma skips_advance:
  "div_stream_skip_segment tokens i = Some j \<Longrightarrow> i < j \<and> j \<le> length tokens"
  "div_stream_skip_comment tokens i = Some j \<Longrightarrow> i < j \<and> j \<le> length tokens"
  by (auto simp: div_stream_skip_segment_def div_stream_skip_comment_def
      dest: segment_loop_advances comment_loop_advances)

subsection \<open>The name behind an opener, with comments and blocks inside it resolved\<close>

function resolved_loop :: "extracted_token list \<Rightarrow> nat \<Rightarrow> bytes \<Rightarrow> bytes" where
  "resolved_loop tokens i name =
     (if i < length tokens
      then let t = et_token (tokens ! i)
           in if t = Identifier then resolved_loop tokens (i + 1) (name @ et_slice (tokens ! i))
              else if t = LeftComment
              then (case div_stream_skip_comment tokens i of Some next \<Rightarrow> resolved_loop tokens next name | None \<Rightarrow> name)
              else if t = LeftBlock
              then (case div_stream_skip_segment tokens i of Some next \<Rightarrow> resolved_loop tokens next name | None \<Rightarrow> name)
              else name
      else name)"
  by pat_completeness auto
termination
  by (relation "measure (\<lambda>(tokens, i, _). length tokens - i)")
    (auto dest!: skips_advance)

declare resolved_loop.simps [simp del]

definition div_stream_resolved_name :: "extracted_token list \<Rightarrow> nat \<Rightarrow> bytes option" where
  "div_stream_resolved_name tokens i =
     (let name = resolved_loop tokens (i + 1) [] in if name = [] then None else Some name)"

definition div_block_name :: "extracted_token list \<Rightarrow> nat \<Rightarrow> bytes option" where
  "div_block_name tokens i = (if token_is tokens (i + 1) Identifier then Some (et_slice (tokens ! (i + 1))) else None)"

definition is_div_name :: "extracted_token list \<Rightarrow> nat \<Rightarrow> bool" where
  "is_div_name tokens i =
     (case div_stream_resolved_name tokens i of Some name \<Rightarrow> eq_ignore_ascii_case name ''div'' | None \<Rightarrow> False)"

subsection \<open>The pass\<close>

function code_end :: "extracted_token list \<Rightarrow> bytes \<Rightarrow> nat \<Rightarrow> nat" where
  "code_end tokens name scan =
     (if scan < length tokens
      then if et_token (tokens ! scan) = LeftBlockEnd \<and>
                (case div_block_name tokens scan of Some e \<Rightarrow> eq_ignore_ascii_case e name | None \<Rightarrow> False)
           then scan else code_end tokens name (scan + 1)
      else scan)"
  by pat_completeness auto
termination by (relation "measure (\<lambda>(tokens, _, scan). length tokens - scan)") auto

declare code_end.simps [simp del]

lemma code_end_ge: "scan \<le> code_end tokens name scan"
proof (induction tokens name scan rule: code_end.induct)
  case (1 tokens name scan)
  then show ?case by (subst code_end.simps) auto
qed

lemma code_end_past: "i \<le> code_end tokens name (Suc i)"
  using code_end_ge [of "Suc i" tokens name] by simp

definition verbatim_name :: "extracted_token list \<Rightarrow> nat \<Rightarrow> bytes option" where
  "verbatim_name tokens i =
     (case div_block_name tokens i of
        Some name \<Rightarrow> if eq_ignore_ascii_case name ''code'' \<or> eq_ignore_ascii_case name ''html'' then Some name else None
      | None \<Rightarrow> None)"

record div_stream =
  ds_marks :: "nat \<Rightarrow> (nat \<times> nat) option"
  ds_balance :: nat
  ds_region :: "(nat \<times> nat \<times> nat) list"
  ds_region_ends :: nat

definition drain :: "(nat \<times> nat \<times> nat) list \<Rightarrow> nat \<Rightarrow> (nat \<Rightarrow> (nat \<times> nat) option) \<Rightarrow> nat \<Rightarrow> (nat \<times> nat) option" where
  "drain region ends marks =
     fold (\<lambda>(span, balance_before, ends_before) m. m(span \<mapsto> (balance_before, ends - ends_before))) region marks"

definition opener_step :: "nat \<Rightarrow> div_stream \<Rightarrow> div_stream" where
  "opener_step span s =
     s\<lparr>ds_region := ds_region s @ [(span, ds_balance s, ds_region_ends s)], ds_balance := ds_balance s + 1\<rparr>"

definition closer_step :: "div_stream \<Rightarrow> div_stream" where
  "closer_step s =
     (let s = s\<lparr>ds_region_ends := ds_region_ends s + 1, ds_balance := ds_balance s - 1\<rparr>
      in if ds_balance s = 0
         then s\<lparr>ds_marks := drain (ds_region s) (ds_region_ends s) (ds_marks s), ds_region := [], ds_region_ends := 0\<rparr>
         else s)"

function stream_loop :: "extracted_token list \<Rightarrow> nat \<Rightarrow> div_stream \<Rightarrow> div_stream" where
  "stream_loop tokens i s =
     (if i < length tokens
      then if et_token (tokens ! i) = LeftBlock
           then (case verbatim_name tokens i of
                   Some name \<Rightarrow> stream_loop tokens (code_end tokens name (i + 1) + 1) s
                 | None \<Rightarrow> stream_loop tokens (i + 1)
                     (if is_div_name tokens i then opener_step (et_start (tokens ! i)) s else s))
           else stream_loop tokens (i + 1)
                  (if et_token (tokens ! i) = LeftBlockEnd \<and> ds_balance s > 0 \<and> is_div_name tokens i
                   then closer_step s else s)
      else s)"
  by pat_completeness auto
termination
proof (relation "measure (\<lambda>(tokens, i, _). length tokens - i)", goal_cases)
  case (3 tokens i s name)
  then show ?case using code_end_ge [of "i + 1" tokens name] by simp
qed auto

declare stream_loop.simps [simp del]

definition compute_wikidot_div_stream_marks :: "extracted_token list \<Rightarrow> nat \<Rightarrow> (nat \<times> nat) option" where
  "compute_wikidot_div_stream_marks tokens =
     (let s = stream_loop tokens 0 \<lparr>ds_marks = Map.empty, ds_balance = 0, ds_region = [], ds_region_ends = 0\<rparr>
      in drain (ds_region s) (ds_region_ends s) (ds_marks s))"

definition wikidot_div_opener_is_excess :: "(nat \<Rightarrow> (nat \<times> nat) option) \<Rightarrow> nat \<Rightarrow> bool" where
  "wikidot_div_opener_is_excess marks opener_start =
     (case marks opener_start of Some (balance_before, ends_after) \<Rightarrow> ends_after \<le> balance_before | None \<Rightarrow> False)"

subsection \<open>The openers and closers of divs in a stream\<close>

datatype div_event = OpenDiv nat | CloseDiv

function div_events :: "extracted_token list \<Rightarrow> nat \<Rightarrow> div_event list" where
  "div_events tokens i =
     (if i < length tokens
      then if et_token (tokens ! i) = LeftBlock
           then (case verbatim_name tokens i of
                   Some name \<Rightarrow> div_events tokens (code_end tokens name (i + 1) + 1)
                 | None \<Rightarrow> (if is_div_name tokens i then [OpenDiv (et_start (tokens ! i))] else []) @ div_events tokens (i + 1))
           else (if et_token (tokens ! i) = LeftBlockEnd \<and> is_div_name tokens i then [CloseDiv] else []) @
             div_events tokens (i + 1)
      else [])"
  by pat_completeness auto
termination
  by (relation "measure (\<lambda>(tokens, i). length tokens - i)") (auto intro!: diff_less_mono2 simp: less_Suc_eq_le code_end_past)

declare div_events.simps [simp del]

fun balance_after :: "nat \<Rightarrow> div_event list \<Rightarrow> nat" where
  "balance_after b [] = b"
| "balance_after b (OpenDiv _ # es) = balance_after (b + 1) es"
| "balance_after b (CloseDiv # es) = balance_after (b - 1) es"

text \<open>The closers up to the end of a region in which \<open>b\<close> divs are open.\<close>

fun ends_in_region :: "nat \<Rightarrow> div_event list \<Rightarrow> nat" where
  "ends_in_region b [] = 0"
| "ends_in_region b (OpenDiv _ # es) = ends_in_region (b + 1) es"
| "ends_in_region b (CloseDiv # es) = (if b = 0 then 0 else if b = 1 then 1 else 1 + ends_in_region (b - 1) es)"

fun marks_from :: "nat \<Rightarrow> div_event list \<Rightarrow> (nat \<times> nat \<times> nat) list" where
  "marks_from b [] = []"
| "marks_from b (OpenDiv p # es) = (p, b, ends_in_region (b + 1) es) # marks_from (b + 1) es"
| "marks_from b (CloseDiv # es) = marks_from (b - 1) es"

definition event_step :: "div_event \<Rightarrow> div_stream \<Rightarrow> div_stream" where
  "event_step e s = (case e of OpenDiv p \<Rightarrow> opener_step p s | CloseDiv \<Rightarrow> if ds_balance s > 0 then closer_step s else s)"

lemma stream_loop_events: "stream_loop tokens i s = fold event_step (div_events tokens i) s"
proof (induction "length tokens - i" arbitrary: i s rule: less_induct)
  case less
  have onward: "stream_loop tokens j s' = fold event_step (div_events tokens j) s'" if "i < length tokens" "i < j" for j s'
    using less.hyps [of j s'] that by arith
  show ?case
  proof (cases "i < length tokens")
    case True
    have "i < code_end tokens name (i + 1) + 1" for name using code_end_ge [of "i + 1" tokens name] by simp
    with True show ?thesis
      by (simp add: stream_loop.simps [of tokens i] div_events.simps [of tokens i] onward event_step_def
          split: option.split)
  qed (simp add: stream_loop.simps div_events.simps)
qed

text \<open>What the pass keeps between two events.\<close>

definition stream_ok :: "div_stream \<Rightarrow> bool" where
  "stream_ok s \<longleftrightarrow> (\<forall>(p, b, e) \<in> set (ds_region s). e \<le> ds_region_ends s) \<and>
     (ds_balance s = 0 \<longrightarrow> ds_region s = [] \<and> ds_region_ends s = 0)"

definition record_mark :: "nat \<times> nat \<times> nat \<Rightarrow> (nat \<Rightarrow> (nat \<times> nat) option) \<Rightarrow> nat \<Rightarrow> (nat \<times> nat) option" where
  "record_mark = (\<lambda>(p, v) m. m(p \<mapsto> v))"

definition pending_marks :: "div_stream \<Rightarrow> div_event list \<Rightarrow> (nat \<times> nat \<times> nat) list" where
  "pending_marks s es = map (\<lambda>(p, b, e). (p, b, ds_region_ends s - e + ends_in_region (ds_balance s) es)) (ds_region s)"

lemma drain_records: "drain region ends m = fold record_mark (map (\<lambda>(p, b, e). (p, b, ends - e)) region) m"
  by (induction region arbitrary: m) (auto simp: drain_def record_mark_def)

lemma event_step_ok: "stream_ok s \<Longrightarrow> stream_ok (event_step e s)"
  by (auto simp: stream_ok_def event_step_def opener_step_def closer_step_def Let_def split: div_event.splits)

lemma drain_after_events:
  assumes "stream_ok s"
  shows "(let t = fold event_step es s in drain (ds_region t) (ds_region_ends t) (ds_marks t)) =
    fold record_mark (pending_marks s es @ marks_from (ds_balance s) es) (ds_marks s)"
  using assms
proof (induction es arbitrary: s)
  case Nil
  then show ?case by (simp add: Let_def drain_records pending_marks_def case_prod_unfold)
next
  case (Cons e es)
  note IH = Cons.IH [OF event_step_ok [OF Cons.prems, of e]]
  show ?case
  proof (cases e)
    case (OpenDiv p)
    then have "pending_marks (event_step e s) es = pending_marks s (e # es) @ [(p, ds_balance s, ends_in_region (ds_balance s + 1) es)]"
      and "ds_marks (event_step e s) = ds_marks s"
      and "ds_balance (event_step e s) = ds_balance s + 1"
      by (simp_all add: pending_marks_def event_step_def opener_step_def)
    with IH OpenDiv show ?thesis by simp
  next
    case CloseDiv
    consider "ds_balance s = 0" | "ds_balance s = 1" | "ds_balance s > 1" by arith
    then show ?thesis
    proof cases
      case 1
      with Cons.prems CloseDiv have "event_step e s = s" and "pending_marks s es = []" and "pending_marks s (e # es) = []"
        by (simp_all add: event_step_def pending_marks_def stream_ok_def)
      with IH CloseDiv 1 show ?thesis by simp
    next
      case 2
      then have "pending_marks (event_step e s) es = []"
        and "ds_marks (event_step e s) = fold record_mark (pending_marks s (e # es)) (ds_marks s)"
        and "ds_balance (event_step e s) = 0"
        using CloseDiv Cons.prems
        by (auto simp: event_step_def closer_step_def pending_marks_def drain_records stream_ok_def Suc_diff_le
            intro!: fold_cong map_cong)
      with IH CloseDiv 2 show ?thesis by simp
    next
      case 3
      then have "pending_marks (event_step e s) es = pending_marks s (e # es)"
        and "ds_marks (event_step e s) = ds_marks s"
        and "ds_balance (event_step e s) = ds_balance s - 1"
        using CloseDiv Cons.prems
        by (auto simp: event_step_def closer_step_def pending_marks_def stream_ok_def Suc_diff_le)
      with IH CloseDiv 3 show ?thesis by simp
    qed
  qed
qed

lemma fold_record_mark: "fold record_mark xs m = m ++ map_of (rev xs)"
  by (induction xs arbitrary: m) (auto simp: record_mark_def map_add_def fun_eq_iff split: option.splits)

text \<open>An opener is taken for excess only when its region is never closed.\<close>

lemma ends_of_closed_region: "balance_after b (take n es) = 0 \<Longrightarrow> b \<le> ends_in_region b es"
proof (induction b es arbitrary: n rule: ends_in_region.induct)
  case (2 b p es)
  then show ?case by (cases n) force+
next
  case (3 b es)
  then show ?case by (cases n) force+
qed simp

lemma marks_from_split:
  "(p, b', e) \<in> set (marks_from b es) \<Longrightarrow>
   \<exists>before after. es = before @ OpenDiv p # after \<and> b' = balance_after b before \<and> e = ends_in_region (b' + 1) after"
proof (induction b es rule: marks_from.induct)
  case (2 b q es)
  from "2.prems" consider "(p, b', e) = (q, b, ends_in_region (b + 1) es)" | "(p, b', e) \<in> set (marks_from (b + 1) es)"
    by auto
  then show ?case
  proof cases
    case 1
    then show ?thesis by (intro exI [of _ "[]"] exI [of _ es]) simp
  next
    case 2
    with "2.IH" obtain before after where "es = before @ OpenDiv p # after" "b' = balance_after (b + 1) before"
      "e = ends_in_region (b' + 1) after" by blast
    then show ?thesis by (intro exI [of _ "OpenDiv q # before"] exI [of _ after]) simp
  qed
next
  case (3 b es)
  then obtain before after where "es = before @ OpenDiv p # after" "b' = balance_after (b - 1) before"
    "e = ends_in_region (b' + 1) after" by auto
  then show ?case by (intro exI [of _ "CloseDiv # before"] exI [of _ after]) simp
qed simp

lemma balance_bounded: "balance_after b es \<le> b + length es"
  by (induction b es rule: balance_after.induct) simp_all

lemma excess_opener_in_open_region:
  assumes "wikidot_div_opener_is_excess (map_of (rev (marks_from 0 es))) p"
  shows "\<exists>before after. es = before @ OpenDiv p # after \<and>
    (\<forall>n. 0 < balance_after (balance_after 0 before + 1) (take n after))"
proof -
  from assms obtain b e where m: "map_of (rev (marks_from 0 es)) p = Some (b, e)" "e \<le> b"
    by (auto simp: wikidot_div_opener_is_excess_def split: option.splits)
  then have "(p, b, e) \<in> set (marks_from 0 es)" using map_of_SomeD by fastforce
  from marks_from_split [OF this] obtain before after where split:
    "es = before @ OpenDiv p # after" "b = balance_after 0 before" "e = ends_in_region (b + 1) after" by blast
  have "0 < balance_after (b + 1) (take n after)" for n
    using ends_of_closed_region [of "b + 1" n after] split(3) m(2) by (cases "balance_after (b + 1) (take n after)") auto
  with split show ?thesis by blast
qed

text \<open>
  C28: For every list of tokens the marks that one pass collects, settling whole regions when their
  balance returns to zero, give each opener of a div the number of divs open before it and the number
  of closers that a scan of its own counts up to the end of its region.
\<close>

theorem div_stream_marks_exact:
  "compute_wikidot_div_stream_marks tokens = map_of (rev (marks_from 0 (div_events tokens 0)))"
proof -
  let ?s = "\<lparr>ds_marks = Map.empty, ds_balance = 0, ds_region = [], ds_region_ends = 0\<rparr>"
  have "stream_ok ?s" by (simp add: stream_ok_def)
  from drain_after_events [OF this, of "div_events tokens 0"]
  have "compute_wikidot_div_stream_marks tokens = fold record_mark (marks_from 0 (div_events tokens 0)) Map.empty"
    unfolding compute_wikidot_div_stream_marks_def stream_loop_events by (simp add: pending_marks_def)
  then show ?thesis by (simp add: fold_record_mark)
qed

end
