(* ===== verification/Scan_Slots.thy ===== *)
theory Scan_Slots
  imports Tokenizer
begin

text \<open>
  The forward scans that the parser remembers (\<open>parsing/parser.rs\<close> and \<open>block/parser.rs\<close>): the next
  \<open>[[/\<close>, the next line break, the next byte that can end a label or a link.  A slot keeps the start
  of the last scan and what it found, and answers a question that lies between the two without
  scanning.  The locale \<open>monotone_slot\<close> states when this is sound; every scan of the parser is an
  interpretation of it, so that the answers never depend on the questions asked before.
\<close>

subsection \<open>A slot\<close>

type_synonym slot = "(nat \<times> nat option) option"

definition slot_hit :: "slot \<Rightarrow> nat \<Rightarrow> nat option option" where
  "slot_hit slot start =
     (case slot of
        None \<Rightarrow> None
      | Some (scanned_from, hit) \<Rightarrow>
          if scanned_from \<le> start \<and> (case hit of None \<Rightarrow> True | Some f \<Rightarrow> start \<le> f) then Some hit else None)"

definition ask_slot :: "(nat \<Rightarrow> nat option) \<Rightarrow> slot \<Rightarrow> nat \<Rightarrow> nat option \<times> slot" where
  "ask_slot search slot start =
     (case slot_hit slot start of
        Some hit \<Rightarrow> (hit, slot)
      | None \<Rightarrow> let hit = search start in (hit, Some (start, hit)))"

definition slot_ok :: "(nat \<Rightarrow> nat option) \<Rightarrow> slot \<Rightarrow> bool" where
  "slot_ok search slot \<longleftrightarrow> (case slot of None \<Rightarrow> True | Some (scanned_from, hit) \<Rightarrow> search scanned_from = hit)"

lemma slot_ok_empty [simp]: "slot_ok search None"
  by (simp add: slot_ok_def)

lemma slot_ok_scanned [simp]: "slot_ok search (Some (start, search start))"
  by (simp add: slot_ok_def)

locale monotone_slot =
  fixes search :: "nat \<Rightarrow> nat option"
  assumes none_later: "search s = None \<Longrightarrow> s \<le> t \<Longrightarrow> search t = None"
    and same_until_hit: "search s = Some n \<Longrightarrow> s \<le> t \<Longrightarrow> t \<le> n \<Longrightarrow> search t = Some n"
begin

lemma hit_fresh: "slot_ok search slot \<Longrightarrow> slot_hit slot start = Some hit \<Longrightarrow> search start = hit"
  using none_later [of "fst (the slot)" start] same_until_hit [of "fst (the slot)" _ start]
  by (auto simp: slot_ok_def slot_hit_def split: option.split_asm if_split_asm)

lemma ask_fresh: "slot_ok search slot \<Longrightarrow> fst (ask_slot search slot start) = search start"
  by (auto simp: ask_slot_def Let_def dest: hit_fresh split: option.splits)

lemma ask_keeps: "slot_ok search slot \<Longrightarrow> slot_ok search (snd (ask_slot search slot start))"
  by (auto simp: ask_slot_def Let_def split: option.splits)

end

text \<open>The first position of a list at which something holds is such a scan, and so is the nearer of two.\<close>

lemma find_slot: "monotone_slot (\<lambda>start. List.find (\<lambda>i. start \<le> i \<and> P i) xs)"
proof
  fix s t n :: nat
  show "List.find (\<lambda>i. s \<le> i \<and> P i) xs = None \<Longrightarrow> s \<le> t \<Longrightarrow> List.find (\<lambda>i. t \<le> i \<and> P i) xs = None"
    by (auto simp: find_None_iff)
  show "List.find (\<lambda>i. s \<le> i \<and> P i) xs = Some n \<Longrightarrow> s \<le> t \<Longrightarrow> t \<le> n \<Longrightarrow> List.find (\<lambda>i. t \<le> i \<and> P i) xs = Some n"
    by (induction xs) (auto split: if_splits)
qed

definition nearer :: "nat option \<Rightarrow> nat option \<Rightarrow> nat option" where
  "nearer a b =
     (case (a, b) of
        (Some m, Some n) \<Rightarrow> Some (min m n)
      | (Some m, None) \<Rightarrow> Some m
      | (None, b) \<Rightarrow> b)"

lemma nearer_slot:
  assumes f: "monotone_slot f" and g: "monotone_slot g"
  shows "monotone_slot (\<lambda>start. nearer (f start) (g start))"
proof
  fix s t n :: nat
  show "nearer (f s) (g s) = None \<Longrightarrow> s \<le> t \<Longrightarrow> nearer (f t) (g t) = None"
    using monotone_slot.none_later [OF f] monotone_slot.none_later [OF g] by (auto simp: nearer_def split: option.splits)
  assume n: "nearer (f s) (g s) = Some n" "s \<le> t" "t \<le> n"
  have fs: "f s = None \<Longrightarrow> f t = None" "f s = Some m \<Longrightarrow> t \<le> m \<Longrightarrow> f t = Some m" for m
    using n(2) monotone_slot.none_later [OF f] monotone_slot.same_until_hit [OF f] by blast+
  have gs: "g s = None \<Longrightarrow> g t = None" "g s = Some m \<Longrightarrow> t \<le> m \<Longrightarrow> g t = Some m" for m
    using n(2) monotone_slot.none_later [OF g] monotone_slot.same_until_hit [OF g] by blast+
  show "nearer (f t) (g t) = Some n"
    using n(1,3) fs gs by (cases "f s"; cases "g s") (auto simp: nearer_def)
qed

lemma nearer_None: "nearer a b = None \<longleftrightarrow> a = None \<and> b = None"
  by (auto simp: nearer_def split: option.splits)

subsection \<open>Scanning the bytes of the source\<close>

definition next_byte :: "bytes \<Rightarrow> (char \<Rightarrow> bool) \<Rightarrow> nat \<Rightarrow> nat option" where
  "next_byte source P start = List.find (\<lambda>i. P (source ! i)) [start..<length source]"

lemma find_append_None: "List.find P xs = None \<Longrightarrow> List.find P (xs @ ys) = List.find P ys"
  by (induction xs) (auto split: if_splits)

lemma next_byte_find: "next_byte source P start = List.find (\<lambda>i. start \<le> i \<and> P (source ! i)) [0..<length source]"
proof (cases "start \<le> length source")
  case True
  have "List.find (\<lambda>i. start \<le> i \<and> P (source ! i)) [0..<start] = None"
    by (simp add: find_None_iff)
  moreover have "[0..<length source] = [0..<start] @ [start..<length source]"
    using True upt_add_eq_append [of 0 start "length source - start"] by simp
  moreover have "List.find (\<lambda>i. start \<le> i \<and> P (source ! i)) [start..<length source] = List.find (\<lambda>i. P (source ! i)) [start..<length source]"
    by (intro find_cong) auto
  ultimately show ?thesis unfolding next_byte_def
    by (simp add: find_append_None)
next
  case False
  then show ?thesis by (simp add: next_byte_def find_None_iff eq_commute [of None])
qed

interpretation byte_slot: monotone_slot "next_byte source P" for source P
  unfolding next_byte_find [abs_def] by (rule find_slot)

lemma next_byte_None: "next_byte source P start = None \<longleftrightarrow> (\<forall>i. start \<le> i \<and> i < length source \<longrightarrow> \<not> P (source ! i))"
  by (auto simp: next_byte_def find_None_iff)

definition find_stop_byte_forward :: "bytes \<Rightarrow> slot \<Rightarrow> bytes \<Rightarrow> nat \<Rightarrow> nat option \<times> slot" where
  "find_stop_byte_forward source slot stop start = ask_slot (next_byte source (\<lambda>c. c \<in> set stop)) slot start"

definition line_break_byte :: "char \<Rightarrow> bool" where
  "line_break_byte c \<longleftrightarrow> c = CHR 0x0D \<or> c = CHR 0x0A"

text \<open>The search slices the source from its start, which panics behind the end.\<close>

definition find_line_break_marker :: "bytes \<Rightarrow> slot \<Rightarrow> nat \<Rightarrow> (nat option \<times> slot) option" where
  "find_line_break_marker source slot start =
     (case slot_hit slot start of
        Some hit \<Rightarrow> Some (hit, slot)
      | None \<Rightarrow>
          if start > length source then None
          else let hit = next_byte source line_break_byte start in Some (hit, Some (start, hit)))"

lemma find_line_break_marker_ask:
  "start \<le> length source \<Longrightarrow>
   find_line_break_marker source slot start = Some (ask_slot (next_byte source line_break_byte) slot start)"
  by (simp add: find_line_break_marker_def ask_slot_def Let_def split: option.split)

subsection \<open>The end heads of the source\<close>

definition end_head_name_end :: "bytes \<Rightarrow> nat \<Rightarrow> nat" where
  "end_head_name_end source name_start =
     (if name_start \<le> length source \<and> boundary source name_start
      then name_start + length (concat (takeWhile (\<lambda>c. \<not> (is_whitespace c \<or> c = '']'')) (chars (drop name_start source))))
      else name_start)"

function end_heads_loop :: "bytes \<Rightarrow> nat \<Rightarrow> (nat \<times> nat) list" where
  "end_heads_loop source pos =
     (if pos \<le> length source \<and> boundary source pos
      then (case find_sub ''[[/'' (drop pos source) of
              None \<Rightarrow> []
            | Some rel \<Rightarrow>
                let close_start = pos + rel
                in (close_start, end_head_name_end source (close_start + 3)) # end_heads_loop source (close_start + 3))
      else [])"
  by pat_completeness auto
termination
  by (relation "measure (\<lambda>(source, pos). length source - pos)") (auto dest!: find_sub_Some)

declare end_heads_loop.simps [simp del]

definition source_end_heads :: "bytes \<Rightarrow> (nat \<times> nat) list" where
  "source_end_heads source = end_heads_loop source 0"

definition first_block_close_from_heads :: "(nat \<times> nat) list \<Rightarrow> nat \<Rightarrow> nat option" where
  "first_block_close_from_heads heads start =
     (let i = length (takeWhile (\<lambda>head. fst head < start) heads)
      in if i < length heads then Some (fst (heads ! i)) else None)"

definition wikidot_first_block_close_after_from_heads :: "(nat \<times> nat) list \<Rightarrow> slot \<Rightarrow> nat \<Rightarrow> nat option \<times> slot" where
  "wikidot_first_block_close_after_from_heads heads slot start = ask_slot (first_block_close_from_heads heads) slot start"

lemma first_block_close_find:
  "first_block_close_from_heads heads start = List.find (\<lambda>i. start \<le> i \<and> True) (map fst heads)"
  by (induction heads) (auto simp: first_block_close_from_heads_def Let_def)

interpretation head_slot: monotone_slot "first_block_close_from_heads heads" for heads
  unfolding first_block_close_find [abs_def] by (rule find_slot)

lemma end_heads_exact:
  assumes "valid_utf8 source"
  shows "pos \<le> length source \<Longrightarrow> boundary source pos \<Longrightarrow>
    map fst (end_heads_loop source pos) = filter (\<lambda>i. has source i ''[[/'') [pos..<length source]"
proof (induction "length source - pos" arbitrary: pos rule: less_induct)
  case less
  show ?case
  proof (cases "find_sub ''[[/'' (drop pos source)")
    case None
    then have "\<not> has source i ''[[/''" if "pos \<le> i" for i
      using that find_sub_None [of "''[[/''" "drop pos source"]
      by (auto simp: has_iff dest!: spec [of _ "i - pos"])
    with None less.prems show ?thesis
      by (auto simp: end_heads_loop.simps [of source pos] filter_empty_conv eq_commute [of "[]"])
  next
    case (Some rel)
    let ?close = "pos + rel"
    have here: "has source ?close ''[[/''" and fits: "?close + 3 \<le> length source"
      using find_sub_Some [OF Some] by (auto simp: has_iff add.commute)
    have before: "\<not> has source i ''[[/''" if "pos \<le> i" "i < ?close" for i
      using find_sub_least [OF Some, of "i - pos"] that by (auto simp: has_iff)
    have chars: "source ! ?close = CHR ''[''" "source ! Suc ?close = CHR ''[''" "source ! Suc (Suc ?close) = CHR ''/''"
      using has_nth [OF here, of 0] has_nth [OF here, of 1] has_nth [OF here, of 2] by (simp_all add: numeral_2_eq_2)
    have after: "\<not> has source (Suc ?close) ''[[/''" "\<not> has source (Suc (Suc ?close)) ''[[/''"
      using has_nth [of source "Suc ?close" "''[[/''" 1] has_nth [of source "Suc (Suc ?close)" "''[[/''" 0] chars by auto
    have "[pos..<length source] = [pos..<?close] @ ?close # Suc ?close # Suc (Suc ?close) # [?close + 3..<length source]"
      using fits upt_add_eq_append [of pos ?close "length source - ?close"]
      by (simp add: upt_conv_Cons numeral_3_eq_3)
    then have cut: "filter (\<lambda>i. has source i ''[[/'') [pos..<length source] =
        ?close # filter (\<lambda>i. has source i ''[[/'') [?close + 3..<length source]"
      using before here after by (simp add: filter_empty_conv)
    have "boundary source ?close"
      by (rule boundary_of_ascii) (use fits chars in \<open>auto simp: is_ascii_def\<close>)
    from boundary_lit [OF assms here _ this] have "boundary source (?close + 3)"
      by (simp add: is_ascii_def numeral_3_eq_3)
    with less.hyps [of "?close + 3"] fits less.prems Some cut show ?thesis
      by (simp add: end_heads_loop.simps [of source pos] Let_def)
  qed
qed

lemma source_end_heads_exact:
  "valid_utf8 source \<Longrightarrow> map fst (source_end_heads source) = filter (\<lambda>i. has source i ''[[/'') [0..<length source]"
  by (simp add: source_end_heads_def end_heads_exact)

lemma find_filter: "List.find P (filter Q xs) = List.find (\<lambda>x. P x \<and> Q x) xs"
  by (induction xs) auto

subsection \<open>The scans of the parser\<close>

record scan_document =
  sd_source :: bytes
  sd_markers :: markers
  sd_heads :: "(nat \<times> nat) list"

record scan_cache =
  end_head_scan :: slot
  line_break_scan :: slot
  lf_line_bounds :: "(nat \<times> nat) option"
  anchor_label_stop :: slot
  link_target_single :: slot
  link_target_triple :: slot
  raw_forbids_stop :: slot

definition empty_scans :: scan_cache where
  "empty_scans = \<lparr>end_head_scan = None, line_break_scan = None, lf_line_bounds = None, anchor_label_stop = None,
     link_target_single = None, link_target_triple = None, raw_forbids_stop = None\<rparr>"

text \<open>Delayed markers lie within the text, so their range ends at its length.\<close>

definition next_marker :: "scan_document \<Rightarrow> (delayed_marker \<Rightarrow> bool) \<Rightarrow> nat \<Rightarrow> nat option" where
  "next_marker doc P start =
     List.find (\<lambda>i. start \<le> i \<and> (case sd_markers doc i of Some m \<Rightarrow> P m | None \<Rightarrow> False)) [0..<Suc (length (sd_source doc))]"

definition is_generated_marker :: "delayed_marker \<Rightarrow> bool" where
  "is_generated_marker m \<longleftrightarrow> marker_generated m \<noteq> None"

definition label_stop_byte :: "char \<Rightarrow> bool" where
  "label_stop_byte c \<longleftrightarrow> c \<in> set [CHR '']'', CHR 0x0A, CHR 0x0D, CHR 0x5C]"

definition label_stop :: "scan_document \<Rightarrow> nat \<Rightarrow> nat option" where
  "label_stop doc start =
     nearer (next_byte (sd_source doc) label_stop_byte start) (next_marker doc is_generated_marker start)"

definition anchor_label_reaches_input_end :: "scan_document \<Rightarrow> nat \<Rightarrow> scan_cache \<Rightarrow> (bool \<times> scan_cache) option" where
  "anchor_label_reaches_input_end doc start cache =
     (case slot_hit (anchor_label_stop cache) start of
        Some stop \<Rightarrow> Some (stop = None, cache)
      | None \<Rightarrow>
          if \<not> (start \<le> length (sd_source doc) \<and> boundary (sd_source doc) start) then None
          else let stop = label_stop doc start
               in Some (stop = None, cache\<lparr>anchor_label_stop := Some (start, stop)\<rparr>))"

definition SINGLE_STOP :: bytes where "SINGLE_STOP = [CHR '' '', CHR 0x09, CHR 0x0A, CHR 0x0D, CHR 0x5C, CHR '']'']"
definition TRIPLE_STOP :: bytes where "TRIPLE_STOP = [CHR ''|'', CHR '']'', CHR 0x0A, CHR 0x0D, CHR 0x5C]"

definition link_target_reaches_input_end :: "scan_document \<Rightarrow> nat \<Rightarrow> bool \<Rightarrow> scan_cache \<Rightarrow> bool \<times> scan_cache" where
  "link_target_reaches_input_end doc start triple cache =
     (if next_marker doc (\<lambda>_. True) start \<noteq> None then (False, cache)
      else if triple
      then (case find_stop_byte_forward (sd_source doc) (link_target_triple cache) TRIPLE_STOP start of
              (stop, slot) \<Rightarrow> (stop = None, cache\<lparr>link_target_triple := slot\<rparr>))
      else (case find_stop_byte_forward (sd_source doc) (link_target_single cache) SINGLE_STOP start of
              (stop, slot) \<Rightarrow> (stop = None, cache\<lparr>link_target_single := slot\<rparr>)))"

definition raw_forbids_link_reaches_input_end :: "scan_document \<Rightarrow> nat \<Rightarrow> scan_cache \<Rightarrow> bool \<times> scan_cache" where
  "raw_forbids_link_reaches_input_end doc start cache =
     (case find_stop_byte_forward (sd_source doc) (raw_forbids_stop cache) ''@'' start of
        (stop, slot) \<Rightarrow> (stop = None, cache\<lparr>raw_forbids_stop := slot\<rparr>))"

definition wikidot_first_block_close_after :: "scan_document \<Rightarrow> nat \<Rightarrow> scan_cache \<Rightarrow> nat option \<times> scan_cache" where
  "wikidot_first_block_close_after doc start cache =
     (case wikidot_first_block_close_after_from_heads (sd_heads doc) (end_head_scan cache) start of
        (close, slot) \<Rightarrow> (close, cache\<lparr>end_head_scan := slot\<rparr>))"

definition wikidot_block_close_marker_ahead :: "scan_document \<Rightarrow> nat \<Rightarrow> scan_cache \<Rightarrow> bool \<times> scan_cache" where
  "wikidot_block_close_marker_ahead doc start cache =
     (case wikidot_first_block_close_after doc start cache of (close, cache) \<Rightarrow> (close \<noteq> None, cache))"

definition line_bounds :: "bytes \<Rightarrow> nat \<Rightarrow> nat \<times> nat" where
  "line_bounds source position =
     (case List.find (\<lambda>i. source ! i = CHR 0x0A) (rev [0..<position]) of Some i \<Rightarrow> i + 1 | None \<Rightarrow> 0,
      case next_byte source (\<lambda>c. c = CHR 0x0A) position of Some i \<Rightarrow> i | None \<Rightarrow> length source)"

definition wikidot_lf_line_bounds :: "scan_document \<Rightarrow> nat \<Rightarrow> scan_cache \<Rightarrow> ((nat \<times> nat) \<times> scan_cache) option" where
  "wikidot_lf_line_bounds doc position cache =
     (case lf_line_bounds cache of
        Some (line_start, line_end) \<Rightarrow>
          if line_start \<le> position \<and> position \<le> line_end then Some ((line_start, line_end), cache)
          else if position \<le> length (sd_source doc) \<and> boundary (sd_source doc) position
          then let bounds = line_bounds (sd_source doc) position in Some (bounds, cache\<lparr>lf_line_bounds := Some bounds\<rparr>)
          else None
      | None \<Rightarrow>
          if position \<le> length (sd_source doc) \<and> boundary (sd_source doc) position
          then let bounds = line_bounds (sd_source doc) position in Some (bounds, cache\<lparr>lf_line_bounds := Some bounds\<rparr>)
          else None)"

text \<open>
  The start of \<open>has_body_end_block_on_line\<close>: without an end head before the next line break the
  body cannot close on this line, and the tokens are not scanned.
\<close>

definition line_has_no_end_head :: "scan_document \<Rightarrow> nat \<Rightarrow> scan_cache \<Rightarrow> (bool \<times> scan_cache) option" where
  "line_has_no_end_head doc start cache =
     (case wikidot_first_block_close_after doc start cache of
        (None, cache) \<Rightarrow> Some (True, cache)
      | (Some close, cache) \<Rightarrow>
          (case find_line_break_marker (sd_source doc) (line_break_scan cache) start of
             None \<Rightarrow> None
           | Some (line_break, slot) \<Rightarrow>
               Some (case line_break of Some b \<Rightarrow> b < close | None \<Rightarrow> False, cache\<lparr>line_break_scan := slot\<rparr>)))"

interpretation marker_slot: monotone_slot "next_marker doc P" for doc P
  unfolding next_marker_def [abs_def] by (rule find_slot)

interpretation label_slot: monotone_slot "label_stop doc" for doc
  unfolding label_stop_def [abs_def] by (rule nearer_slot) unfold_locales

text \<open>A line is the same from each of its positions.\<close>

definition is_line :: "bytes \<Rightarrow> nat \<times> nat \<Rightarrow> bool" where
  "is_line source = (\<lambda>(a, b). a \<le> b \<and> b \<le> length source \<and> (\<forall>i. a \<le> i \<and> i < b \<longrightarrow> source ! i \<noteq> CHR 0x0A) \<and>
     (a = 0 \<or> source ! (a - 1) = CHR 0x0A) \<and> (b = length source \<or> source ! b = CHR 0x0A))"

lemma is_line_unique:
  assumes "is_line source (a, b)" and "is_line source (c, d)" and "a \<le> q" "q \<le> b" "c \<le> q" "q \<le> d"
  shows "(a, b) = (c, d)"
proof -
  have start: False if "is_line source (a, b)" "is_line source (c, d)" "a < c" "c \<le> q" "q \<le> b" for a b c d
  proof -
    have "source ! (c - 1) = CHR 0x0A" "a \<le> c - 1" "c - 1 < b" using that by (auto simp: is_line_def)
    with that(1) show False by (simp add: is_line_def)
  qed
  have stop: False if "is_line source (a, b)" "is_line source (c, d)" "b < d" "c \<le> q" "q \<le> b" for a b c d
  proof -
    have "source ! b = CHR 0x0A" "c \<le> b" using that by (auto simp: is_line_def)
    with that(2,3) show False by (simp add: is_line_def)
  qed
  from assms start [of a b c d] start [of c d a b] stop [of a b c d] stop [of c d a b] show ?thesis
    by (metis linorder_neqE_nat)
qed

lemma find_rev_upt:
  "case List.find P (rev [0..<n]) of
     None \<Rightarrow> \<forall>j<n. \<not> P j
   | Some i \<Rightarrow> i < n \<and> P i \<and> (\<forall>j. i < j \<and> j < n \<longrightarrow> \<not> P j)"
  by (induction n) (auto simp: less_Suc_eq split: option.splits)

lemma next_byte_Some:
  assumes "next_byte source P n = Some i"
  shows "n \<le> i \<and> i < length source \<and> P (source ! i) \<and> (\<forall>j. n \<le> j \<and> j < i \<longrightarrow> \<not> P (source ! j))"
proof -
  from assms obtain k where k: "k < length source - n" "P (source ! (n + k))" "i = n + k"
    "\<forall>j<k. \<not> P (source ! ([n..<length source] ! j))"
    by (auto simp: next_byte_def find_Some_iff)
  have "\<not> P (source ! j)" if "n \<le> j" "j < i" for j
    using k(1,3) that k(4) [rule_format, of "j - n"] by simp
  with k show ?thesis by simp
qed

lemma line_bounds_is_line:
  assumes "n \<le> length source"
  shows "is_line source (line_bounds source n)"
    and "fst (line_bounds source n) \<le> n" and "n \<le> snd (line_bounds source n)"
proof -
  let ?P = "\<lambda>c :: char. c = CHR 0x0A"
  obtain a where a: "a = fst (line_bounds source n)" "a \<le> n" "a = 0 \<or> source ! (a - 1) = CHR 0x0A"
    "\<forall>i. a \<le> i \<and> i < n \<longrightarrow> source ! i \<noteq> CHR 0x0A"
    using find_rev_upt [where P = "\<lambda>i. ?P (source ! i)" and n = n]
    by (cases "List.find (\<lambda>i. ?P (source ! i)) (rev [0..<n])") (auto simp: line_bounds_def Suc_le_eq)
  obtain b where b: "b = snd (line_bounds source n)" "n \<le> b" "b \<le> length source" "b = length source \<or> source ! b = CHR 0x0A"
    "\<forall>i. n \<le> i \<and> i < b \<longrightarrow> source ! i \<noteq> CHR 0x0A"
    using next_byte_Some [of source ?P n] next_byte_None [of source ?P n] assms
    by (cases "next_byte source ?P n") (auto simp: line_bounds_def)
  have eq: "line_bounds source n = (a, b)" using a(1) b(1) by simp
  have "source ! i \<noteq> CHR 0x0A" if "a \<le> i" "i < b" for i
    using a(4) b(5) that by (cases "i < n") auto
  with a(2,3) b(2,3,4) show "is_line source (line_bounds source n)" unfolding eq is_line_def by simp
  show "fst (line_bounds source n) \<le> n" "n \<le> snd (line_bounds source n)" unfolding eq using a(2) b(2) by simp_all
qed

subsection \<open>Any sequence of questions\<close>

datatype scan_query =
  FirstBlockClose nat
| LineWithoutEndHead nat
| LineBounds nat
| AnchorLabel nat
| LinkTarget nat bool
| RawForbids nat

datatype scan_answer = Position "nat option" | Verdict bool | Bounds "nat \<times> nat"

fun ask_scan :: "scan_document \<Rightarrow> scan_query \<Rightarrow> scan_cache \<Rightarrow> (scan_answer \<times> scan_cache) option" where
  "ask_scan doc (FirstBlockClose n) cache = Some (apfst Position (wikidot_first_block_close_after doc n cache))"
| "ask_scan doc (LineWithoutEndHead n) cache = map_option (apfst Verdict) (line_has_no_end_head doc n cache)"
| "ask_scan doc (LineBounds n) cache = map_option (apfst Bounds) (wikidot_lf_line_bounds doc n cache)"
| "ask_scan doc (AnchorLabel n) cache = map_option (apfst Verdict) (anchor_label_reaches_input_end doc n cache)"
| "ask_scan doc (LinkTarget n triple) cache = Some (apfst Verdict (link_target_reaches_input_end doc n triple cache))"
| "ask_scan doc (RawForbids n) cache = Some (apfst Verdict (raw_forbids_link_reaches_input_end doc n cache))"

fun ask_scans :: "scan_document \<Rightarrow> scan_query list \<Rightarrow> scan_cache \<Rightarrow> scan_answer list option" where
  "ask_scans doc [] cache = Some []"
| "ask_scans doc (q # qs) cache =
     (case ask_scan doc q cache of
        None \<Rightarrow> None
      | Some (answer, cache) \<Rightarrow> map_option ((#) answer) (ask_scans doc qs cache))"

fun query_position :: "scan_query \<Rightarrow> nat" where
  "query_position (FirstBlockClose n) = n"
| "query_position (LineWithoutEndHead n) = n"
| "query_position (LineBounds n) = n"
| "query_position (AnchorLabel n) = n"
| "query_position (LinkTarget n triple) = n"
| "query_position (RawForbids n) = n"

text \<open>What the questions mean, as conditions on the text from the position on.\<close>

definition free_of :: "bytes \<Rightarrow> bytes \<Rightarrow> bool" where
  "free_of stop rest \<longleftrightarrow> list_all (\<lambda>c. c \<notin> set stop) rest"

definition no_marker_from :: "scan_document \<Rightarrow> (delayed_marker \<Rightarrow> bool) \<Rightarrow> nat \<Rightarrow> bool" where
  "no_marker_from doc P n \<longleftrightarrow>
     list_all (\<lambda>i. case sd_markers doc i of Some m \<Rightarrow> \<not> P m | None \<Rightarrow> True) [n..<Suc (length (sd_source doc))]"

definition rest_of_line_end :: "bytes \<Rightarrow> nat \<Rightarrow> nat" where
  "rest_of_line_end source n = n + length (takeWhile (\<lambda>c. \<not> line_break_byte c) (drop n source))"

fun meaning :: "scan_document \<Rightarrow> scan_query \<Rightarrow> scan_answer" where
  "meaning doc (FirstBlockClose n) = Position (map_option ((+) n) (find_sub ''[[/'' (drop n (sd_source doc))))"
| "meaning doc (LineWithoutEndHead n) =
     Verdict (list_all (\<lambda>i. \<not> has (sd_source doc) i ''[[/'') [n..<rest_of_line_end (sd_source doc) n])"
| "meaning doc (LineBounds n) = Bounds (line_bounds (sd_source doc) n)"
| "meaning doc (AnchorLabel n) =
     Verdict (free_of [CHR '']'', CHR 0x0A, CHR 0x0D, CHR 0x5C] (drop n (sd_source doc)) \<and> no_marker_from doc is_generated_marker n)"
| "meaning doc (LinkTarget n triple) =
     Verdict (free_of (if triple then TRIPLE_STOP else SINGLE_STOP) (drop n (sd_source doc)) \<and> no_marker_from doc (\<lambda>_. True) n)"
| "meaning doc (RawForbids n) = Verdict (free_of ''@'' (drop n (sd_source doc)))"


lemma next_marker_meaning: "next_marker doc P n = None \<longleftrightarrow> no_marker_from doc P n"
proof -
  have "(case sd_markers doc i of Some m \<Rightarrow> \<not> P m | None \<Rightarrow> True) \<longleftrightarrow> \<not> (case sd_markers doc i of Some m \<Rightarrow> P m | None \<Rightarrow> False)" for i
    by (simp split: option.split)
  then show ?thesis unfolding next_marker_def no_marker_from_def find_None_iff list_all_iff by auto
qed

lemma next_byte_meaning: "next_byte source P n = None \<longleftrightarrow> list_all (\<lambda>c. \<not> P c) (drop n source)"
proof -
  have "(\<forall>i. n \<le> i \<and> i < length source \<longrightarrow> \<not> P (source ! i)) \<longleftrightarrow> (\<forall>i<length source - n. \<not> P (source ! (n + i)))"
    by (metis add_diff_inverse_nat diff_less_mono le_add1 less_diff_conv2 add.commute less_diff_conv not_less)
  then show ?thesis by (simp add: next_byte_None list_all_length)
qed


definition scans_ok :: "scan_document \<Rightarrow> scan_cache \<Rightarrow> bool" where
  "scans_ok doc cache \<longleftrightarrow>
     slot_ok (first_block_close_from_heads (sd_heads doc)) (end_head_scan cache) \<and>
     slot_ok (next_byte (sd_source doc) line_break_byte) (line_break_scan cache) \<and>
     (case lf_line_bounds cache of Some line \<Rightarrow> is_line (sd_source doc) line | None \<Rightarrow> True) \<and>
     slot_ok (label_stop doc) (anchor_label_stop cache) \<and>
     slot_ok (next_byte (sd_source doc) (\<lambda>c. c \<in> set SINGLE_STOP)) (link_target_single cache) \<and>
     slot_ok (next_byte (sd_source doc) (\<lambda>c. c \<in> set TRIPLE_STOP)) (link_target_triple cache) \<and>
     slot_ok (next_byte (sd_source doc) (\<lambda>c. c \<in> set ''@'')) (raw_forbids_stop cache)"

lemma scans_ok_empty: "scans_ok doc empty_scans"
  by (simp add: scans_ok_def empty_scans_def)

definition answers :: "scan_document \<Rightarrow> 'a \<Rightarrow> ('a \<times> scan_cache) option \<Rightarrow> bool" where
  "answers doc a result \<longleftrightarrow> (\<exists>cache. result = Some (a, cache) \<and> scans_ok doc cache)"

lemma first_block_close_answers:
  "scans_ok doc cache \<Longrightarrow>
   answers doc (first_block_close_from_heads (sd_heads doc) n) (Some (wikidot_first_block_close_after doc n cache))"
  using head_slot.ask_fresh [of "sd_heads doc" "end_head_scan cache" n]
    head_slot.ask_keeps [of "sd_heads doc" "end_head_scan cache" n]
  by (auto simp: answers_def scans_ok_def wikidot_first_block_close_after_def
      wikidot_first_block_close_after_from_heads_def split: prod.split)

lemma stop_byte_answers:
  assumes "slot_ok (next_byte source (\<lambda>c. c \<in> set stop)) slot"
    and "find_stop_byte_forward source slot stop n = (hit, slot')"
  shows "hit = None \<longleftrightarrow> free_of stop (drop n source)"
    and "slot_ok (next_byte source (\<lambda>c. c \<in> set stop)) slot'"
  using byte_slot.ask_fresh [OF assms(1), of n] byte_slot.ask_keeps [OF assms(1), of n] assms(2)
    next_byte_meaning [of source "\<lambda>c. c \<in> set stop" n]
  by (simp_all add: find_stop_byte_forward_def free_of_def)

lemma raw_forbids_answers:
  assumes "scans_ok doc cache"
  shows "answers doc (free_of ''@'' (drop n (sd_source doc))) (Some (raw_forbids_link_reaches_input_end doc n cache))"
proof (cases "find_stop_byte_forward (sd_source doc) (raw_forbids_stop cache) ''@'' n")
  case (Pair hit slot)
  then show ?thesis
    using assms stop_byte_answers [OF _ Pair] unfolding scans_ok_def
    by (simp add: answers_def scans_ok_def raw_forbids_link_reaches_input_end_def)
qed

lemma link_target_answers:
  assumes "scans_ok doc cache"
  shows "answers doc (free_of (if triple then TRIPLE_STOP else SINGLE_STOP) (drop n (sd_source doc)) \<and> no_marker_from doc (\<lambda>_. True) n)
     (Some (link_target_reaches_input_end doc n triple cache))"
proof (cases "no_marker_from doc (\<lambda>_. True) n")
  case True
  obtain hit slot where t: "find_stop_byte_forward (sd_source doc) (link_target_triple cache) TRIPLE_STOP n = (hit, slot)"
    by fastforce
  obtain hit' slot' where s: "find_stop_byte_forward (sd_source doc) (link_target_single cache) SINGLE_STOP n = (hit', slot')"
    by fastforce
  show ?thesis
    using assms True stop_byte_answers [OF _ t] stop_byte_answers [OF _ s] t s unfolding scans_ok_def
    by (simp add: answers_def scans_ok_def link_target_reaches_input_end_def next_marker_meaning)
next
  case False
  with assms show ?thesis by (simp add: answers_def link_target_reaches_input_end_def next_marker_meaning)
qed

lemma anchor_label_answers:
  assumes "scans_ok doc cache" and "n \<le> length (sd_source doc)" and "boundary (sd_source doc) n"
  shows "answers doc (free_of [CHR '']'', CHR 0x0A, CHR 0x0D, CHR 0x5C] (drop n (sd_source doc)) \<and>
      no_marker_from doc is_generated_marker n)
    (anchor_label_reaches_input_end doc n cache)"
proof -
  have ok: "slot_ok (label_stop doc) (anchor_label_stop cache)" using assms(1) by (simp add: scans_ok_def)
  have "label_stop doc n = None \<longleftrightarrow> free_of [CHR '']'', CHR 0x0A, CHR 0x0D, CHR 0x5C] (drop n (sd_source doc)) \<and>
      no_marker_from doc is_generated_marker n"
    by (simp add: label_stop_def nearer_None next_byte_meaning next_marker_meaning free_of_def label_stop_byte_def)
  with assms label_slot.hit_fresh [OF ok, of n] show ?thesis
    by (auto simp: answers_def anchor_label_reaches_input_end_def scans_ok_def Let_def split: option.split)
qed

lemma line_bounds_answers:
  assumes "scans_ok doc cache" and "n \<le> length (sd_source doc)" and "boundary (sd_source doc) n"
  shows "answers doc (line_bounds (sd_source doc) n) (wikidot_lf_line_bounds doc n cache)"
proof -
  note fresh = line_bounds_is_line [OF assms(2)]
  have "line = line_bounds (sd_source doc) n"
    if "lf_line_bounds cache = Some line" "fst line \<le> n" "n \<le> snd line" for line
  proof -
    have "is_line (sd_source doc) line" using assms(1) that(1) by (simp add: scans_ok_def)
    with fresh that(2,3) is_line_unique show ?thesis by (metis prod.collapse)
  qed
  with assms fresh(1) show ?thesis
    by (auto simp: answers_def wikidot_lf_line_bounds_def scans_ok_def Let_def split: option.split)
qed


text \<open>An end head before the next line break is one in the rest of the line.\<close>

lemma rest_of_line_break:
  assumes "n \<le> length source"
  shows "rest_of_line_end source n = (case next_byte source line_break_byte n of Some b \<Rightarrow> b | None \<Rightarrow> length source)"
proof (cases "next_byte source line_break_byte n")
  case None
  then have all: "takeWhile (\<lambda>c. \<not> line_break_byte c) (drop n source) = drop n source"
    by (simp add: next_byte_meaning takeWhile_eq_all_conv list_all_iff)
  show ?thesis unfolding rest_of_line_end_def all using None assms by simp
next
  case (Some b)
  from next_byte_Some [OF Some] have "takeWhile (\<lambda>c. \<not> line_break_byte c) (drop n source) = take (b - n) (drop n source)"
    by (intro takeWhile_eq_take_P_nth) auto
  moreover have "b - n \<le> length source - n" "n \<le> b" using next_byte_Some [OF Some] by auto
  ultimately show ?thesis using Some by (simp add: rest_of_line_end_def min_absorb2)
qed

lemma first_block_close_exact:
  assumes "valid_utf8 source"
  shows "first_block_close_from_heads (source_end_heads source) n = List.find (\<lambda>i. n \<le> i \<and> has source i ''[[/'') [0..<length source]"
  by (simp add: first_block_close_find source_end_heads_exact [OF assms] find_filter)

lemma end_head_in_line:
  assumes "valid_utf8 source" and "n \<le> length source"
  shows "list_all (\<lambda>i. \<not> has source i ''[[/'') [n..<rest_of_line_end source n] \<longleftrightarrow>
    (case first_block_close_from_heads (source_end_heads source) n of
       None \<Rightarrow> True
     | Some close \<Rightarrow> (case next_byte source line_break_byte n of Some b \<Rightarrow> b < close | None \<Rightarrow> False))"
proof (cases "first_block_close_from_heads (source_end_heads source) n")
  case None
  then have "\<not> has source i ''[[/''" if "n \<le> i" for i
    using that has_length [of source i "''[[/''"] by (auto simp: first_block_close_exact [OF assms(1)] find_None_iff)
  with None show ?thesis by (simp add: list_all_iff)
next
  case (Some close)
  then obtain k where k: "close = k" "n \<le> k" "has source k ''[[/''" and first: "\<forall>i. n \<le> i \<and> i < k \<longrightarrow> \<not> has source i ''[[/''"
    by (auto simp: first_block_close_exact [OF assms(1)] find_Some_iff)
  have "k < length source" and "\<not> line_break_byte (source ! k)"
    using has_length [OF k(3)] has_0 [OF k(3)] by (auto simp: line_break_byte_def)
  moreover from this have "b \<noteq> k" if "next_byte source line_break_byte n = Some b" for b
    using next_byte_Some [OF that] by auto
  ultimately show ?thesis
    using Some k first
    by (fastforce simp: rest_of_line_break [OF assms(2)] list_all_iff split: option.split)
qed

lemma line_has_no_end_head_answers:
  assumes "scans_ok doc cache" and "sd_heads doc = source_end_heads (sd_source doc)" and "valid_utf8 (sd_source doc)"
    and "n \<le> length (sd_source doc)"
  shows "answers doc (list_all (\<lambda>i. \<not> has (sd_source doc) i ''[[/'') [n..<rest_of_line_end (sd_source doc) n])
    (line_has_no_end_head doc n cache)"
proof -
  let ?close = "first_block_close_from_heads (sd_heads doc) n"
  obtain cache' where c: "wikidot_first_block_close_after doc n cache = (?close, cache')" "scans_ok doc cache'"
    using first_block_close_answers [OF assms(1), of n] by (auto simp: answers_def)
  have slot: "slot_ok (next_byte (sd_source doc) line_break_byte) (line_break_scan cache')"
    using c(2) by (simp add: scans_ok_def)
  obtain slot' where b: "find_line_break_marker (sd_source doc) (line_break_scan cache') n =
      Some (next_byte (sd_source doc) line_break_byte n, slot')"
    and "slot_ok (next_byte (sd_source doc) line_break_byte) slot'"
    using byte_slot.ask_fresh [OF slot, of n] byte_slot.ask_keeps [OF slot, of n] assms(4)
    by (cases "ask_slot (next_byte (sd_source doc) line_break_byte) (line_break_scan cache') n")
      (auto simp: find_line_break_marker_ask)
  with c show ?thesis
    by (simp add: end_head_in_line [OF assms(3,4)] line_has_no_end_head_def answers_def scans_ok_def assms(2) [symmetric]
        split: option.split)
qed

lemma first_block_close_sub:
  assumes "valid_utf8 source"
  shows "first_block_close_from_heads (source_end_heads source) n = map_option ((+) n) (find_sub ''[[/'' (drop n source))"
proof (cases "find_sub ''[[/'' (drop n source)")
  case None
  then have "\<not> has source i ''[[/''" if "n \<le> i" for i
    using that find_sub_None [of "''[[/''" "drop n source"] by (auto simp: has_iff dest!: spec [of _ "i - n"])
  with None show ?thesis by (auto simp: first_block_close_exact [OF assms] find_None_iff)
next
  case (Some k)
  have at: "has source (n + k) ''[[/''" using find_sub_Some [OF Some] by (auto simp: has_iff add.commute)
  have "\<not> has source i ''[[/''" if "n \<le> i" "i < n + k" for i
    using find_sub_least [OF Some, of "i - n"] that by (auto simp: has_iff)
  with at Some has_length [OF at] show ?thesis
    by (auto simp: first_block_close_exact [OF assms] find_Some_iff intro!: exI [of _ "n + k"])
qed

lemma ask_scan_meaning:
  assumes "scans_ok doc cache" and "sd_heads doc = source_end_heads (sd_source doc)" and "valid_utf8 (sd_source doc)"
    and "query_position q \<le> length (sd_source doc)" and "boundary (sd_source doc) (query_position q)"
  shows "answers doc (meaning doc q) (ask_scan doc q cache)"
proof (cases q)
  case (FirstBlockClose n)
  with first_block_close_answers [OF assms(1), of n] first_block_close_sub [OF assms(3), of n] assms(2)
  show ?thesis by (auto simp: answers_def)
next
  case (LineWithoutEndHead n)
  with line_has_no_end_head_answers [OF assms(1-3), of n] assms(4) show ?thesis by (auto simp: answers_def)
next
  case (LineBounds n)
  with line_bounds_answers [OF assms(1), of n] assms(4,5) show ?thesis
    by (cases "line_bounds (sd_source doc) n") (auto simp: answers_def)
next
  case (AnchorLabel n)
  with anchor_label_answers [OF assms(1), of n] assms(4,5) show ?thesis by (auto simp: answers_def)
next
  case (LinkTarget n triple)
  with link_target_answers [OF assms(1), of triple n] show ?thesis by (auto simp: answers_def)
next
  case (RawForbids n)
  with raw_forbids_answers [OF assms(1), of n] show ?thesis by (auto simp: answers_def)
qed

text \<open>
  C29: In a document with its end heads collected, any sequence of scans at character boundaries,
  in any order, panics nowhere and answers each question as the text from its position on says: the
  slots change nothing.
\<close>

theorem scan_slots_transparent:
  assumes "valid_utf8 (sd_source doc)" and "sd_heads doc = source_end_heads (sd_source doc)"
    and "list_all (\<lambda>q. query_position q \<le> length (sd_source doc) \<and> boundary (sd_source doc) (query_position q)) qs"
  shows "ask_scans doc qs empty_scans = Some (map (meaning doc) qs)"
proof -
  have "scans_ok doc cache \<Longrightarrow> ask_scans doc qs cache = Some (map (meaning doc) qs)" for cache
    using assms(3)
  proof (induction qs arbitrary: cache)
    case (Cons q qs)
    with ask_scan_meaning [OF Cons.prems(1) assms(2,1), of q]
    show ?case by (auto simp: answers_def)
  qed simp
  then show ?thesis using scans_ok_empty .
qed


lemma scan_slots_transparent_witness:
  "ask_scans \<lparr>sd_source = ''a]b[[/i]]'', sd_markers = Map.empty, sd_heads = source_end_heads ''a]b[[/i]]''\<rparr>
     [AnchorLabel 0, FirstBlockClose 2, AnchorLabel 1, LineBounds 4, FirstBlockClose 0] empty_scans =
   Some (map (meaning \<lparr>sd_source = ''a]b[[/i]]'', sd_markers = Map.empty, sd_heads = source_end_heads ''a]b[[/i]]''\<rparr>)
     [AnchorLabel 0, FirstBlockClose 2, AnchorLabel 1, LineBounds 4, FirstBlockClose 0])"
  by (rule scan_slots_transparent; code_simp)

end
