(* ===== verification/Body_Ends.thy ===== *)
theory Body_Ends
  imports "HOL-Library.Word" "HOL-Library.Multiset" Parser_State
begin

unbundle bit_operations_syntax

text \<open>
  The stacks of boundaries that can end a body (\<open>parsing/body_end.rs\<close>, \<open>parsing/hidden_body.rs\<close>): the
  names each boundary accepts, the checks of the stack and its fingerprint, which keys the memo of
  body walks.  The fingerprint hashes the address of the static list of names, a parameter \<open>address\<close>.
  The checks that read the tokens at the parser are left out.
\<close>

record body_end_boundary =
  accepts_names :: "bytes list"
  hard :: bool
  confined :: bool

record hidden_body_boundary =
  hidden_names :: "bytes list"
  accepts_newlines_outside_body :: bool

definition names_accept :: "bytes list \<Rightarrow> bytes \<Rightarrow> bool" where
  "names_accept names name \<longleftrightarrow> list_ex (\<lambda>accepted. eq_ignore_ascii_case accepted name) names"

lemma names_accept_simps [simp]:
  "names_accept [] name \<longleftrightarrow> False"
  "names_accept (n # ns) name \<longleftrightarrow> eq_ignore_ascii_case n name \<or> names_accept ns name"
  by (simp_all add: names_accept_def)

subsection \<open>The stack of body ends\<close>

definition crosses_later_list_line :: "bool \<Rightarrow> wikidot_state \<Rightarrow> bytes list \<Rightarrow> bool" where
  "crosses_later_list_line legacy s names \<longleftrightarrow> legacy \<and> \<not> in_wikidot_anchor_body s \<and>
     list_ex (\<lambda>name. eq_ignore_ascii_case name ''footnote'' \<or> eq_ignore_ascii_case name ''li'' \<or>
       eq_ignore_ascii_case name ''ul'' \<or> eq_ignore_ascii_case name ''ol'') names"

definition push_body_end_boundary ::
  "bool \<Rightarrow> wikidot_state \<Rightarrow> bytes list \<Rightarrow> bool \<Rightarrow> body_end_boundary list \<Rightarrow> body_end_boundary list" where
  "push_body_end_boundary legacy s names is_hard stack =
     stack @ [\<lparr>accepts_names = names, hard = is_hard,
       confined = in_wikidot_single_line_content s \<and> \<not> crosses_later_list_line legacy s names\<rparr>]"

text \<open>Popping an empty stack does nothing.\<close>

definition pop_body_end_boundary :: "body_end_boundary list \<Rightarrow> body_end_boundary list" where
  "pop_body_end_boundary stack = butlast stack"

definition body_end_boundary_depth :: "body_end_boundary list \<Rightarrow> nat" where
  "body_end_boundary_depth stack = length stack"

definition body_end_boundaries_is_empty :: "body_end_boundary list \<Rightarrow> bool" where
  "body_end_boundaries_is_empty stack \<longleftrightarrow> stack = []"

definition body_end_boundary_accepts :: "body_end_boundary list \<Rightarrow> bytes \<Rightarrow> bool" where
  "body_end_boundary_accepts stack name \<longleftrightarrow> list_ex (\<lambda>b. names_accept (accepts_names b) name) stack"

fun innermost_list_body :: "body_end_boundary list \<Rightarrow> bool" where
  "innermost_list_body [] = False"
| "innermost_list_body (b # bs) =
     (if confined b then innermost_list_body bs
      else if names_accept (accepts_names b) ''li'' then True
      else if names_accept (accepts_names b) ''ul'' \<or> names_accept (accepts_names b) ''ol'' then False
      else innermost_list_body bs)"

definition wikidot_li_inside_item_body :: "body_end_boundary list \<Rightarrow> bool" where
  "wikidot_li_inside_item_body stack = innermost_list_body (rev stack)"

definition wikidot_top_boundary_is_div_or_collapsible :: "body_end_boundary list \<Rightarrow> bool" where
  "wikidot_top_boundary_is_div_or_collapsible stack \<longleftrightarrow>
     stack \<noteq> [] \<and> \<not> confined (last stack) \<and>
     list_ex (\<lambda>accepted. eq_ignore_ascii_case accepted ''div'' \<or> eq_ignore_ascii_case accepted ''collapsible'')
       (accepts_names (last stack))"

definition free_accepts :: "body_end_boundary \<Rightarrow> bytes \<Rightarrow> bool" where
  "free_accepts b name \<longleftrightarrow> \<not> confined b \<and> names_accept (accepts_names b) name"

definition wikidot_ancestor_boundary_accepts :: "body_end_boundary list \<Rightarrow> bytes \<Rightarrow> bool" where
  "wikidot_ancestor_boundary_accepts stack name \<longleftrightarrow>
     stack \<noteq> [] \<and> list_ex (\<lambda>b. free_accepts b name) (butlast stack)"

text \<open>The ancestors before the last of them that accepts \<open>table\<close>.\<close>

definition before_last_table :: "body_end_boundary list \<Rightarrow> body_end_boundary list option" where
  "before_last_table ancestors =
     (case dropWhile (\<lambda>b. \<not> free_accepts b ''table'') (rev ancestors) of [] \<Rightarrow> None | b # bs \<Rightarrow> Some (rev bs))"

definition wikidot_table_wrapped_by_flat_block :: "body_end_boundary list \<Rightarrow> bool" where
  "wikidot_table_wrapped_by_flat_block stack \<longleftrightarrow>
     stack \<noteq> [] \<and>
     (case before_last_table (butlast stack) of
        None \<Rightarrow> False
      | Some outer \<Rightarrow> list_ex (\<lambda>b. free_accepts b ''div'' \<or> free_accepts b ''collapsible'') outer)"

definition considered_boundaries :: "body_end_boundary list \<Rightarrow> bool \<Rightarrow> body_end_boundary list" where
  "considered_boundaries stack ancestors_only = (if \<not> ancestors_only then stack else butlast stack)"

definition boundary_qualifies :: "body_end_boundary \<Rightarrow> bool \<Rightarrow> bool" where
  "boundary_qualifies b hard_only \<longleftrightarrow> \<not> confined b \<and> (\<not> hard_only \<or> hard b)"

definition qualifying_body_end_boundary_exists :: "body_end_boundary list \<Rightarrow> bool \<Rightarrow> bool \<Rightarrow> bool" where
  "qualifying_body_end_boundary_exists stack ancestors_only hard_only \<longleftrightarrow>
     list_ex (\<lambda>b. boundary_qualifies b hard_only) (considered_boundaries stack ancestors_only)"

subsection \<open>The fingerprint\<close>

type_synonym u64 = "64 word"

definition mix_boundary :: "(bytes list \<Rightarrow> u64) \<Rightarrow> body_end_boundary \<Rightarrow> u64" where
  "mix_boundary address b =
     (let v = address (accepts_names b) * 0x9E3779B97F4A7C15;
          v = v XOR word_rotl 23 (of_nat (length (accepts_names b)));
          v = v XOR push_bit 41 (of_bool (hard b));
          v = v XOR push_bit 42 (of_bool (confined b))
      in v XOR drop_bit 29 v)"

definition body_end_boundary_fingerprint :: "(bytes list \<Rightarrow> u64) \<Rightarrow> body_end_boundary list \<Rightarrow> u64" where
  "body_end_boundary_fingerprint address stack =
     (if stack = [] then 0
      else let ancestors = butlast stack;
               sum = fold (\<lambda>b s. s + mix_boundary address b) ancestors 0;
               exclusive = fold (\<lambda>b x. x XOR mix_boundary address b) ancestors 0;
               combined = (mix_boundary address (last stack) + word_rotl 7 sum) XOR word_rotl 31 exclusive
                 XOR of_nat (length ancestors) * 0xD1B54A32D192ED03
           in combined XOR drop_bit 32 combined)"

text \<open>The order of the ancestors does not change it.\<close>

lemma fingerprint_order:
  assumes "mset ancestors = mset ancestors'"
  shows "body_end_boundary_fingerprint address (ancestors @ [b]) = body_end_boundary_fingerprint address (ancestors' @ [b])"
proof -
  have "fold (\<lambda>b s. s + mix_boundary address b) ancestors 0 = fold (\<lambda>b s. s + mix_boundary address b) ancestors' 0"
    and "fold (\<lambda>b x. x XOR mix_boundary address b) ancestors 0 = fold (\<lambda>b x. x XOR mix_boundary address b) ancestors' 0"
    using assms by (intro fold_permuted_eq [where P = "\<lambda>_. True"]; simp add: ac_simps)+
  with mset_eq_length [OF assms] show ?thesis
    by (simp add: body_end_boundary_fingerprint_def)
qed

text \<open>
  It does change one check of the stack: whether a flat block lies around the innermost table.  Two
  stacks with the same fingerprint can differ in it, for any addresses.
\<close>

definition named_boundary :: "bytes \<Rightarrow> body_end_boundary" where
  "named_boundary name = \<lparr>accepts_names = [name], hard = False, confined = False\<rparr>"

lemma fingerprint_misses_table_order:
  "body_end_boundary_fingerprint address (map named_boundary [''div'', ''table'', ''cell'']) =
   body_end_boundary_fingerprint address (map named_boundary [''table'', ''div'', ''cell''])"
  "wikidot_table_wrapped_by_flat_block (map named_boundary [''div'', ''table'', ''cell''])"
  "\<not> wikidot_table_wrapped_by_flat_block (map named_boundary [''table'', ''div'', ''cell''])"
proof -
  show "body_end_boundary_fingerprint address (map named_boundary [''div'', ''table'', ''cell'']) =
      body_end_boundary_fingerprint address (map named_boundary [''table'', ''div'', ''cell''])"
    using fingerprint_order [of "map named_boundary [''div'', ''table'']" "map named_boundary [''table'', ''div'']" address "named_boundary ''cell''"]
    by (simp add: add_mset_commute)
  show "wikidot_table_wrapped_by_flat_block (map named_boundary [''div'', ''table'', ''cell''])" by code_simp
  show "\<not> wikidot_table_wrapped_by_flat_block (map named_boundary [''table'', ''div'', ''cell''])" by code_simp
qed

text \<open>What is pushed is accepted, and popping takes it away.\<close>

lemma boundary_pop_push: "pop_body_end_boundary (push_body_end_boundary legacy s names is_hard stack) = stack"
  by (simp add: pop_body_end_boundary_def push_body_end_boundary_def)

lemma accepts_push:
  "body_end_boundary_accepts (push_body_end_boundary legacy s names is_hard stack) name \<longleftrightarrow>
   names_accept names name \<or> body_end_boundary_accepts stack name"
  by (auto simp: body_end_boundary_accepts_def push_body_end_boundary_def)

lemma accepts_not_empty: "body_end_boundary_accepts stack name \<Longrightarrow> \<not> body_end_boundaries_is_empty stack"
  by (auto simp: body_end_boundary_accepts_def body_end_boundaries_is_empty_def)

subsection \<open>Hidden bodies\<close>

definition push_hidden_body_boundary :: "bytes list \<Rightarrow> bool \<Rightarrow> hidden_body_boundary list \<Rightarrow> hidden_body_boundary list" where
  "push_hidden_body_boundary names newlines stack =
     stack @ [\<lparr>hidden_names = names, accepts_newlines_outside_body = newlines\<rparr>]"

text \<open>Popping an empty stack panics.\<close>

definition pop_hidden_body_boundary :: "hidden_body_boundary list \<Rightarrow> hidden_body_boundary list option" where
  "pop_hidden_body_boundary stack = (if stack = [] then None else Some (butlast stack))"

definition hidden_body_boundary_accepts :: "hidden_body_boundary list \<Rightarrow> bytes \<Rightarrow> bool" where
  "hidden_body_boundary_accepts stack name \<longleftrightarrow> list_ex (\<lambda>b. names_accept (hidden_names b) name) stack"

end
