(* ===== verification/Parse_Error.thy ===== *)
theory Parse_Error
  imports Token
begin

text \<open>
  Errors of the parser (\<open>parsing/error.rs\<close>): a kind, the rule that failed and the token it failed at.
\<close>

datatype (plugins only: code) parse_error_kind =
    RecursionDepthExceeded | EndOfInput | NoRulesMatch | RuleFailed | NotSupportedMode | NotStartOfLine
    | InvalidInclude | ListEmpty | ListContainsNonItem | ListItemOutsideList | ListDepthExceeded |
    TableContainsNonRow | TableRowContainsNonCell | TableRowOutsideTable | TableCellOutsideTable |
    TabViewEmpty | TabViewContainsNonTab | TabOutsideTabView | FootnotesNested | BlockquoteDepthExceeded
    | RubyTextOutsideRuby | BibliographyContainsNonDefinitionList | NoSuchBlock | BlockDisallowsStar |
    BlockDisallowsScore | BlockMissingName | BlockMissingCloseBrackets | BlockMalformedArguments |
    BlockMissingArguments | BlockExpectedEnd | BlockEndMismatch | NoSuchEmbed | NoSuchModule |
    ModuleMissingName | NoSuchPage | NoSuchVariable | InvalidUrl | NotSupportedInline |
    AnchorBlockWithInsufficientClosers

record parse_error =
  pe_token :: token
  pe_rule :: bytes
  pe_start :: nat
  pe_end :: nat
  pe_kind :: parse_error_kind

definition parse_error_new :: "parse_error_kind \<Rightarrow> bytes \<Rightarrow> extracted_token \<Rightarrow> parse_error" where
  "parse_error_new kind rule t =
     \<lparr>pe_token = et_token t, pe_rule = rule, pe_start = et_start t, pe_end = et_end t, pe_kind = kind\<rparr>"

datatype hidden_body_failure_kind = Recoverable | MustCloseThroughEndOfInput

definition hidden_body_failure :: "parse_error_kind \<Rightarrow> hidden_body_failure_kind" where
  "hidden_body_failure kind =
     (if kind \<in> set [RecursionDepthExceeded, EndOfInput, BlockDisallowsStar, BlockDisallowsScore,
          BlockMissingCloseBrackets, BlockMalformedArguments, BlockMissingArguments]
      then MustCloseThroughEndOfInput else Recoverable)"

definition must_close_hidden_body_through_end_of_input :: "parse_error_kind \<Rightarrow> bool" where
  "must_close_hidden_body_through_end_of_input kind \<longleftrightarrow> hidden_body_failure kind = MustCloseThroughEndOfInput"

definition recoverable_local_failure :: parse_error_kind where
  "recoverable_local_failure = RuleFailed"

lemma local_failure_recoverable: "\<not> must_close_hidden_body_through_end_of_input recoverable_local_failure"
  by (simp add: must_close_hidden_body_through_end_of_input_def hidden_body_failure_def recoverable_local_failure_def)

end
