(* ===== verification/Closer_Scan.thy ===== *)
theory Closer_Scan
  imports "HOL-Library.Word" Body_Ends Parse_Error
begin

text \<open>
  The forward scan from an opener of an inline format to its closer
  (\<open>rule/impls/inline_delimiter.rs\<close>) and its memo of closers proved absent (\<open>parser/closer_scan.rs\<close>).
  The scan skips the bookkeeping of blocks where no block end can change its result, and answers
  from the memo where an earlier scan has reached the end of the input; the library shows that both
  are transparent: the result is that of a scan which does all the work.

  The test \<open>split_delimiter_end\<close> of a closer split by an \<open>iftags\<close> segment (\<open>collect/iftags.rs\<close>) is an
  argument of the scan: whether it succeeds at an index.
\<close>

subsection \<open>The memo\<close>

record absence_proof =
  proof_start :: nat
  last_paragraph_break :: "nat option"

record delimiter_absence =
  da_closer :: token
  da_plain :: "absence_proof option"
  da_context_free :: "absence_proof option"

record closer_scan_cache =
  csc_token_count :: nat
  csc_delimiters :: "delimiter_absence list"
  csc_math :: "nat option"

definition closer_scan_cache_new :: "nat \<Rightarrow> closer_scan_cache" where
  "closer_scan_cache_new token_count = \<lparr>csc_token_count = token_count, csc_delimiters = [], csc_math = None\<rparr>"

definition index_of_current :: "closer_scan_cache \<Rightarrow> nat \<Rightarrow> nat" where
  "index_of_current c remaining_len = csc_token_count c - remaining_len - 1"

definition index_ahead :: "closer_scan_cache \<Rightarrow> nat \<Rightarrow> nat" where
  "index_ahead c remaining_len = csc_token_count c - remaining_len"

definition absence_slot :: "bool \<Rightarrow> delimiter_absence \<Rightarrow> absence_proof option" where
  "absence_slot context_free a = (if context_free then da_context_free a else da_plain a)"

definition absence_answer :: "closer_scan_cache \<Rightarrow> token \<Rightarrow> nat \<Rightarrow> bool \<Rightarrow> bool option" where
  "absence_answer c closer start context_free =
     (case List.find (\<lambda>a. da_closer a = closer) (csc_delimiters c) of
        None \<Rightarrow> None
      | Some a \<Rightarrow>
          (case absence_slot context_free a of
             None \<Rightarrow> None
           | Some p \<Rightarrow>
               if start < proof_start p then None
               else Some (case last_paragraph_break p of Some b \<Rightarrow> start \<le> b | None \<Rightarrow> False)))"

definition delimiter_close_absent :: "closer_scan_cache \<Rightarrow> token \<Rightarrow> nat \<Rightarrow> bool option" where
  "delimiter_close_absent c closer start = absence_answer c closer start False"

definition delimiter_close_absent_context_free :: "closer_scan_cache \<Rightarrow> token \<Rightarrow> nat \<Rightarrow> bool option" where
  "delimiter_close_absent_context_free c closer start = absence_answer c closer start True"

definition better_proof :: "absence_proof \<Rightarrow> absence_proof option \<Rightarrow> absence_proof option" where
  "better_proof p slot =
     (case slot of
        Some existing \<Rightarrow> if proof_start p < proof_start existing then Some p else slot
      | None \<Rightarrow> Some p)"

definition update_absence :: "bool \<Rightarrow> absence_proof \<Rightarrow> delimiter_absence \<Rightarrow> delimiter_absence" where
  "update_absence context_free p a =
     (if context_free then a\<lparr>da_context_free := better_proof p (da_context_free a)\<rparr>
      else a\<lparr>da_plain := better_proof p (da_plain a)\<rparr>)"

text \<open>Only the first entry of a closer is changed; a closer without one gets it at the end.\<close>

fun update_first :: "token \<Rightarrow> bool \<Rightarrow> absence_proof \<Rightarrow> delimiter_absence list \<Rightarrow> delimiter_absence list" where
  "update_first closer context_free p [] =
     [\<lparr>da_closer = closer, da_plain = (if context_free then None else Some p),
       da_context_free = (if context_free then Some p else None)\<rparr>]"
| "update_first closer context_free p (a # as) =
     (if da_closer a = closer then update_absence context_free p a # as else a # update_first closer context_free p as)"

definition record_absence :: "token \<Rightarrow> nat \<Rightarrow> nat option \<Rightarrow> bool \<Rightarrow> closer_scan_cache \<Rightarrow> closer_scan_cache" where
  "record_absence closer start paragraph context_free c =
     c\<lparr>csc_delimiters := update_first closer context_free
         \<lparr>proof_start = start, last_paragraph_break = paragraph\<rparr> (csc_delimiters c)\<rparr>"

definition record_delimiter_close_absent :: "token \<Rightarrow> nat \<Rightarrow> nat option \<Rightarrow> closer_scan_cache \<Rightarrow> closer_scan_cache" where
  "record_delimiter_close_absent closer start paragraph c = record_absence closer start paragraph False c"

definition record_delimiter_close_absent_context_free ::
  "token \<Rightarrow> nat \<Rightarrow> nat option \<Rightarrow> closer_scan_cache \<Rightarrow> closer_scan_cache" where
  "record_delimiter_close_absent_context_free closer start paragraph c = record_absence closer start paragraph True c"

definition math_close_absent :: "closer_scan_cache \<Rightarrow> nat \<Rightarrow> bool" where
  "math_close_absent c start \<longleftrightarrow> (case csc_math c of Some absence \<Rightarrow> absence \<le> start | None \<Rightarrow> False)"

definition record_math_close_absent :: "nat \<Rightarrow> closer_scan_cache \<Rightarrow> closer_scan_cache" where
  "record_math_close_absent start c =
     (case csc_math c of
        Some absence \<Rightarrow> if absence \<le> start then c else c\<lparr>csc_math := Some start\<rparr>
      | None \<Rightarrow> c\<lparr>csc_math := Some start\<rparr>)"

lemma math_absence_grows:
  "math_close_absent (record_math_close_absent p c) q \<longleftrightarrow> p \<le> q \<or> math_close_absent c q"
  by (auto simp: math_close_absent_def record_math_close_absent_def split: option.split)

subsection \<open>Names of blocks\<close>

definition token_at :: "extracted_token list \<Rightarrow> nat \<Rightarrow> token \<Rightarrow> bool" where
  "token_at tokens i t \<longleftrightarrow> i < length tokens \<and> et_token (tokens ! i) = t"

definition segment_head_at :: "extracted_token list \<Rightarrow> nat \<Rightarrow> nat option" where
  "segment_head_at tokens i =
     (let inner = (if token_at tokens (i + 1) Whitespace then i + 2 else i + 1)
      in if token_at tokens inner Identifier \<and>
            (eq_ignore_ascii_case (et_slice (tokens ! inner)) ''iftags'' \<or>
             eq_ignore_ascii_case (et_slice (tokens ! inner)) ''ifcategory'')
         then Some (inner + 1) else None)"

function segment_close_loop :: "extracted_token list \<Rightarrow> nat \<Rightarrow> nat \<Rightarrow> nat option" where
  "segment_close_loop tokens i depth =
     (if i < length tokens
      then let t = et_token (tokens ! i)
           in if t = LineBreak \<or> t = ParagraphBreak \<or> t = InputEnd then None
              else if t = LeftBlock
              then segment_close_loop tokens (i + 1) (if segment_head_at tokens i \<noteq> None then depth + 1 else depth)
              else if t = LeftBlockEnd
              then (case segment_head_at tokens i of
                      None \<Rightarrow> segment_close_loop tokens (i + 1) depth
                    | Some after_name \<Rightarrow>
                        if depth - 1 = 0
                        then if token_at tokens after_name RightBlock \<or> token_at tokens after_name RightLink
                             then Some (after_name + 1) else None
                        else segment_close_loop tokens (i + 1) (depth - 1))
              else segment_close_loop tokens (i + 1) depth
      else None)"
  by pat_completeness auto
termination by (relation "measure (\<lambda>(tokens, i, _). length tokens - i)") auto

declare segment_close_loop.simps [simp del]

definition segment_close_at :: "extracted_token list \<Rightarrow> nat \<Rightarrow> nat option" where
  "segment_close_at tokens i =
     (case segment_head_at tokens i of None \<Rightarrow> None | Some _ \<Rightarrow> segment_close_loop tokens (i + 1) 1)"

lemma segment_head_ahead: "segment_head_at tokens i = Some j \<Longrightarrow> i < j"
  by (auto simp: segment_head_at_def Let_def split: if_splits)

lemma segment_close_loop_ahead: "segment_close_loop tokens i depth = Some j \<Longrightarrow> i < j"
proof (induction "length tokens - i" arbitrary: i depth rule: less_induct)
  case less
  have onward: "i < j" if "i < length tokens" "segment_close_loop tokens (i + 1) d = Some j" for d
  proof -
    have "length tokens - (i + 1) < length tokens - i" using that(1) by arith
    from less.hyps [OF this that(2)] show ?thesis by arith
  qed
  show ?case
  proof (cases "segment_head_at tokens i")
    case None
    with less.prems show ?thesis
      unfolding segment_close_loop.simps [of tokens i] Let_def
      by (simp add: onward split: if_split_asm)
  next
    case (Some k)
    with less.prems segment_head_ahead [OF Some] show ?thesis
      unfolding segment_close_loop.simps [of tokens i] Let_def
      by (simp add: onward split: if_split_asm)
  qed
qed

lemma segment_close_ahead: "segment_close_at tokens i = Some j \<Longrightarrow> i < j"
  by (auto simp: segment_close_at_def dest: segment_close_loop_ahead split: option.splits)

function block_name_loop :: "extracted_token list \<Rightarrow> nat \<Rightarrow> bytes \<Rightarrow> bytes" where
  "block_name_loop tokens i name =
     (if i < length tokens
      then let t = et_token (tokens ! i); s = et_slice (tokens ! i)
           in if t = Whitespace \<or> t = LineBreak \<or> t = ParagraphBreak \<or> t = RightBlock then name
              else if t = LeftBlockStar then block_name_loop tokens (i + 1) name
              else if t = LeftBlock
              then (case segment_close_at tokens i of
                      Some next \<Rightarrow> block_name_loop tokens next name
                    | None \<Rightarrow> block_name_loop tokens (i + 1) (name @ s))
              else block_name_loop tokens (i + 1) (name @ s)
      else name)"
  by pat_completeness auto
termination
  by (relation "measure (\<lambda>(tokens, i, _). length tokens - i)") (auto dest: segment_close_ahead intro: diff_less_mono2)

declare block_name_loop.simps [simp del]

definition block_name_at :: "extracted_token list \<Rightarrow> nat \<Rightarrow> bytes" where
  "block_name_at tokens i =
     (let name = block_name_loop tokens (i + 1) []
      in to_ascii_lowercase (case strip_suffix ''_'' name of Some stem \<Rightarrow> stem | None \<Rightarrow> name))"

definition is_block_name :: "bytes \<Rightarrow> bool" where
  "is_block_name name \<longleftrightarrow> name \<noteq> [] \<and> list_all (\<lambda>b. is_alnum b \<or> b = CHR ''-'' \<or> b = CHR ''_'') name"

text \<open>Identifiers are ASCII, so that \<open>to_lowercase\<close> is the ASCII one.\<close>

definition link_name_at :: "extracted_token list \<Rightarrow> nat \<Rightarrow> bytes option" where
  "link_name_at tokens i =
     (if token_at tokens (i + 1) Identifier then Some (to_ascii_lowercase (et_slice (tokens ! (i + 1)))) else None)"

subsection \<open>Block ends that can reject\<close>

datatype reachable_close_mode = StandardClose | BlockBarrier

record close_context =
  cx_legacy :: bool
  cx_discarding_hidden_body :: bool
  cx_hidden_bodies :: "hidden_body_boundary list"
  cx_body_ends :: "body_end_boundary list"
  cx_wikidot :: wikidot_state

definition end_block_fails :: "close_context \<Rightarrow> bytes \<Rightarrow> reachable_close_mode \<Rightarrow> bool" where
  "end_block_fails cx name mode \<longleftrightarrow>
     (cx_discarding_hidden_body cx \<and> hidden_body_boundary_accepts (cx_hidden_bodies cx) name) \<or>
     (case mode of
        StandardClose \<Rightarrow>
          body_end_boundary_accepts (cx_body_ends cx) name \<or>
          (name = ''span'' \<and> (in_wikidot_span_body (cx_wikidot cx) \<or> in_wikidot_literal_alias_body (cx_wikidot cx))) \<or>
          (name = ''a'' \<and> (in_wikidot_anchor_body (cx_wikidot cx) \<or> in_wikidot_literal_alias_body (cx_wikidot cx))) \<or>
          (name = ''div'' \<and> (in_wikidot_div_body (cx_wikidot cx) \<or> in_wikidot_literal_alias_body (cx_wikidot cx))) \<or>
          (name = ''center'' \<and> in_wikidot_center_body (cx_wikidot cx)) \<or>
          (name = ''bibliography'' \<and> in_wikidot_bibliography_body (cx_wikidot cx))
      | BlockBarrier \<Rightarrow>
          name \<in> set [''div'', ''collapsible'', ''footnote'', ''center'', ''bibliography''] \<and>
          (body_end_boundary_accepts (cx_body_ends cx) name \<or>
           (name = ''div'' \<and> in_wikidot_div_body (cx_wikidot cx)) \<or>
           (name = ''center'' \<and> in_wikidot_center_body (cx_wikidot cx)) \<or>
           (name = ''bibliography'' \<and> in_wikidot_bibliography_body (cx_wikidot cx)) \<or>
           (name = ''collapsible'' \<and> in_wikidot_collapsible (cx_wikidot cx))))"

definition block_end_can_reject :: "close_context \<Rightarrow> reachable_close_mode \<Rightarrow> bool" where
  "block_end_can_reject cx mode \<longleftrightarrow>
     cx_discarding_hidden_body cx \<or>
     (case mode of
        BlockBarrier \<Rightarrow>
          list_ex (\<lambda>name. end_block_fails cx name mode) [''div'', ''collapsible'', ''footnote'', ''center'', ''bibliography'']
      | StandardClose \<Rightarrow>
          \<not> body_end_boundaries_is_empty (cx_body_ends cx) \<or> in_wikidot_span_body (cx_wikidot cx) \<or>
          in_wikidot_literal_alias_body (cx_wikidot cx) \<or> in_wikidot_anchor_body (cx_wikidot cx) \<or>
          in_wikidot_div_body (cx_wikidot cx) \<or> in_wikidot_center_body (cx_wikidot cx) \<or>
          in_wikidot_bibliography_body (cx_wikidot cx))"

lemma end_block_fails_can_reject: "end_block_fails cx name mode \<Longrightarrow> block_end_can_reject cx mode"
  by (cases mode)
    (auto simp: end_block_fails_def block_end_can_reject_def dest: accepts_not_empty)

subsection \<open>The scan\<close>

definition is_half :: "split_delimiter \<Rightarrow> extracted_token \<Rightarrow> bool" where
  "is_half delimiter t =
     (case delimiter of
        SplitBold \<Rightarrow> et_token t = BulletItem
      | SplitItalics \<Rightarrow> et_token t = Other \<and> et_slice t = ''/'')"

type_synonym split_test = "(split_delimiter \<times> (nat \<Rightarrow> bool)) option"

definition split_closes :: "split_test \<Rightarrow> extracted_token list \<Rightarrow> nat \<Rightarrow> bool" where
  "split_closes split tokens i =
     (case split of
        None \<Rightarrow> False
      | Some (delimiter, ends) \<Rightarrow>
          is_half delimiter (tokens ! i) \<and>
          (token_at tokens (i + 1) LeftBlock \<or> token_at tokens (i + 1) LeftComment) \<and> ends i)"

record close_walk =
  cw_paragraph_error :: bool
  cw_open_blocks :: "bytes list"
  cw_pb_stack :: "bytes list"
  cw_saw_break :: bool
  cw_saw_block_pairing :: bool
  cw_last_paragraph_break :: "nat option"

definition close_walk_start :: close_walk where
  "close_walk_start = \<lparr>cw_paragraph_error = False, cw_open_blocks = [], cw_pb_stack = [], cw_saw_break = False,
     cw_saw_block_pairing = False, cw_last_paragraph_break = None\<rparr>"

text \<open>The stack cut at the last occurrence of a name.\<close>

definition truncate_to :: "bytes \<Rightarrow> bytes list \<Rightarrow> bytes list option" where
  "truncate_to name stack =
     (case dropWhile (\<lambda>n. n \<noteq> name) (rev stack) of [] \<Rightarrow> None | _ # rest \<Rightarrow> Some (rev rest))"

definition track_paragraph_blocks :: "extracted_token list \<Rightarrow> nat \<Rightarrow> close_walk \<Rightarrow> close_walk" where
  "track_paragraph_blocks tokens i w =
     (let t = et_token (tokens ! i); name = block_name_at tokens i
      in if t = LeftBlock \<or> t = LeftBlockStar
         then (if is_block_name name then w\<lparr>cw_pb_stack := cw_pb_stack w @ [name]\<rparr> else w)
         else if t = LeftBlockEnd
         then (if is_block_name name
               then (case truncate_to name (cw_pb_stack w) of Some rest \<Rightarrow> w\<lparr>cw_pb_stack := rest\<rparr> | None \<Rightarrow> w)
               else w)
         else w)"

definition closer_reached :: "reachable_close_mode \<Rightarrow> extracted_token list \<Rightarrow> nat \<Rightarrow> close_walk \<Rightarrow> parse_error_kind + unit" where
  "closer_reached mode tokens i w =
     (if cw_paragraph_error w then Inl RuleFailed
      else if mode = StandardClose \<and> 0 < i \<and> et_token (tokens ! (i - 1)) = Whitespace then Inl RuleFailed
      else Inr ())"

definition paragraph_break_step :: "bool \<Rightarrow> nat \<Rightarrow> close_walk \<Rightarrow> close_walk" where
  "paragraph_break_step suppress_breaks position w =
     w\<lparr>cw_last_paragraph_break := Some position, cw_saw_break := True,
       cw_paragraph_error := cw_paragraph_error w \<or> \<not> suppress_breaks \<or> cw_pb_stack w = []\<rparr>"

definition open_block_step :: "bytes option \<Rightarrow> close_walk \<Rightarrow> close_walk" where
  "open_block_step name w =
     w\<lparr>cw_saw_block_pairing := True,
       cw_open_blocks := cw_open_blocks w @ (case name of Some n \<Rightarrow> [n] | None \<Rightarrow> [])\<rparr>"

definition valid_block_name_at :: "extracted_token list \<Rightarrow> nat \<Rightarrow> bytes option" where
  "valid_block_name_at tokens i =
     (let name = block_name_at tokens i in if is_block_name name then Some name else None)"

text \<open>The block end closes an open block, or rejects the scan (\<open>None\<close>), or is passed over.\<close>

definition block_end_step ::
  "close_context \<Rightarrow> reachable_close_mode \<Rightarrow> extracted_token list \<Rightarrow> nat \<Rightarrow> close_walk \<Rightarrow> close_walk option" where
  "block_end_step cx mode tokens i w =
     (let w = w\<lparr>cw_saw_block_pairing := True\<rparr>; name = block_name_at tokens i
      in if \<not> is_block_name name then Some w
         else case truncate_to name (cw_open_blocks w) of
                Some rest \<Rightarrow> Some (w\<lparr>cw_open_blocks := rest\<rparr>)
              | None \<Rightarrow> if end_block_fails cx name mode then None else Some w)"

text \<open>
  The loop of \<open>validate_reachable_close\<close>.  It also answers the state in which it has met the end of
  the input, where the code records the absence of the closer.
\<close>

function close_walk_loop ::
  "close_context \<Rightarrow> reachable_close_mode \<Rightarrow> token \<Rightarrow> split_test \<Rightarrow> bool \<Rightarrow> extracted_token list \<Rightarrow> nat \<Rightarrow> nat \<Rightarrow>
   close_walk \<Rightarrow> (parse_error_kind + unit) \<times> close_walk option" where
  "close_walk_loop cx mode closer split blocks_can_reject tokens scan_start i w =
     (if i < length tokens
      then if split_closes split tokens i then (closer_reached mode tokens i w, None)
           else let t = et_token (tokens ! i);
                    w = track_paragraph_blocks tokens i w;
                    onward = close_walk_loop cx mode closer split blocks_can_reject tokens scan_start (i + 1)
                in if t = InputEnd
                   then (Inl (if cw_paragraph_error w \<or> cw_saw_break w then RuleFailed else EndOfInput), Some w)
                   else if t = ParagraphBreak then onward (paragraph_break_step (cx_legacy cx) (scan_start + i) w)
                   else if (t = LeftBlock \<or> t = LeftBlockStar) \<and> blocks_can_reject
                   then onward (open_block_step (valid_block_name_at tokens i) w)
                   else if t = LeftLink \<and> blocks_can_reject then onward (open_block_step (link_name_at tokens i) w)
                   else if t = LeftBlockEnd \<and> blocks_can_reject
                   then (case block_end_step cx mode tokens i w of
                           None \<Rightarrow> (Inl RuleFailed, None)
                         | Some w \<Rightarrow> onward w)
                   else if t = closer then (closer_reached mode tokens i w, None)
                   else onward w
      else (Inl EndOfInput, None))"
  by pat_completeness auto
termination
  by (relation "measure (\<lambda>(cx, mode, closer, split, blocks_can_reject, tokens, scan_start, i, w). length tokens - i)")
    auto

declare close_walk_loop.simps [simp del]

definition known_absent :: "close_context \<Rightarrow> reachable_close_mode \<Rightarrow> token \<Rightarrow> split_test \<Rightarrow> nat \<Rightarrow> closer_scan_cache \<Rightarrow> bool option" where
  "known_absent cx mode closer split scan_start c =
     (if split \<noteq> None then None
      else case delimiter_close_absent c closer scan_start of
             Some b \<Rightarrow> Some b
           | None \<Rightarrow>
               if block_end_can_reject cx mode then None
               else delimiter_close_absent_context_free c closer scan_start)"

definition record_absent ::
  "bool \<Rightarrow> token \<Rightarrow> split_test \<Rightarrow> nat \<Rightarrow> close_walk option \<Rightarrow> closer_scan_cache \<Rightarrow> closer_scan_cache" where
  "record_absent blocks_can_reject closer split scan_start ended c =
     (case ended of
        None \<Rightarrow> c
      | Some w \<Rightarrow>
          if split = None \<and> \<not> cw_saw_block_pairing w
          then if blocks_can_reject
               then record_delimiter_close_absent closer scan_start (cw_last_paragraph_break w) c
               else record_delimiter_close_absent_context_free closer scan_start (cw_last_paragraph_break w) c
          else c)"

text \<open>The tokens are those after the current one; errors are made at the current token.\<close>

definition validate_reachable_close ::
  "close_context \<Rightarrow> extracted_token list \<Rightarrow> token \<Rightarrow> split_test \<Rightarrow> reachable_close_mode \<Rightarrow> closer_scan_cache \<Rightarrow>
   (parse_error_kind + unit) \<times> closer_scan_cache" where
  "validate_reachable_close cx tokens closer split mode c =
     (let scan_start = index_ahead c (length tokens);
          blocks_can_reject = block_end_can_reject cx mode
      in case known_absent cx mode closer split scan_start c of
           Some paragraph_break \<Rightarrow> (Inl (if paragraph_break then RuleFailed else EndOfInput), c)
         | None \<Rightarrow>
             (case close_walk_loop cx mode closer split blocks_can_reject tokens scan_start 0 close_walk_start of
                (result, ended) \<Rightarrow> (result, record_absent blocks_can_reject closer split scan_start ended c)))"

subsection \<open>Where no block end can reject, blocks need no bookkeeping\<close>

definition pairing_token :: "token \<Rightarrow> bool" where
  "pairing_token t \<longleftrightarrow> t = LeftBlock \<or> t = LeftBlockStar \<or> t = LeftLink \<or> t = LeftBlockEnd"

definition inline_closer :: "token \<Rightarrow> bool" where
  "inline_closer t \<longleftrightarrow> \<not> pairing_token t \<and> t \<noteq> InputEnd \<and> t \<noteq> ParagraphBreak"

definition same_paragraphs :: "close_walk \<Rightarrow> close_walk \<Rightarrow> bool" where
  "same_paragraphs v w \<longleftrightarrow> cw_paragraph_error v = cw_paragraph_error w \<and> cw_pb_stack v = cw_pb_stack w \<and>
     cw_saw_break v = cw_saw_break w"

lemma same_paragraphs_steps:
  assumes "same_paragraphs v w"
  shows "same_paragraphs (track_paragraph_blocks tokens i v) (track_paragraph_blocks tokens i w)"
    and "same_paragraphs (paragraph_break_step legacy n v) (paragraph_break_step legacy n w)"
    and "same_paragraphs v (open_block_step name w)"
    and "block_end_step cx mode tokens i w = Some w' \<Longrightarrow> same_paragraphs v w'"
    and "closer_reached mode tokens i v = closer_reached mode tokens i w"
  using assms
  by (auto simp: same_paragraphs_def track_paragraph_blocks_def paragraph_break_step_def open_block_step_def
      block_end_step_def closer_reached_def Let_def split: option.splits if_splits)

lemma no_block_end_rejects:
  "\<not> block_end_can_reject cx mode \<Longrightarrow> block_end_step cx mode tokens i w \<noteq> None"
  by (auto simp: block_end_step_def Let_def dest: end_block_fails_can_reject split: option.splits)

lemma walk_without_blocks:
  assumes "\<not> block_end_can_reject cx mode" and "inline_closer closer"
  shows "same_paragraphs v w \<Longrightarrow>
    fst (close_walk_loop cx mode closer split False tokens n i v) =
    fst (close_walk_loop cx mode closer split True tokens n i w)"
proof (induction "length tokens - i" arbitrary: i v w rule: less_induct)
  case less
  show ?case
  proof (cases "i < length tokens \<and> \<not> split_closes split tokens i")
    case False
    then show ?thesis
      by (auto simp: close_walk_loop.simps [of _ _ _ _ _ _ _ i] same_paragraphs_steps(5) [OF less.prems])
  next
    case True
    let ?t = "et_token (tokens ! i)"
    let ?v = "track_paragraph_blocks tokens i v" and ?w = "track_paragraph_blocks tokens i w"
    note same = same_paragraphs_steps(1) [OF less.prems, of tokens i]
    have smaller: "length tokens - (i + 1) < length tokens - i" using True by arith
    note IH = less.hyps [OF smaller]
    obtain w' where w': "block_end_step cx mode tokens i ?w = Some w'"
      using no_block_end_rejects [OF assms(1)] by blast
    consider "?t = InputEnd" | "?t = ParagraphBreak" | "?t = LeftBlock \<or> ?t = LeftBlockStar" | "?t = LeftLink"
      | "?t = LeftBlockEnd" | "?t = closer" | "\<not> pairing_token ?t" "?t \<noteq> InputEnd" "?t \<noteq> ParagraphBreak" "?t \<noteq> closer"
      by (auto simp: pairing_token_def)
    then show ?thesis
    proof cases
      case 1
      with True same show ?thesis
        by (simp add: close_walk_loop.simps [of _ _ _ _ _ _ _ i] Let_def same_paragraphs_def)
    next
      case 2
      with True IH [OF same_paragraphs_steps(2) [OF same]] show ?thesis
        by (simp add: close_walk_loop.simps [of _ _ _ _ _ _ _ i] Let_def)
    next
      case 3
      then have "?t \<noteq> closer" using assms(2) by (auto simp: inline_closer_def pairing_token_def)
      with 3 True IH [OF same_paragraphs_steps(3) [OF same]] show ?thesis
        by (auto simp: close_walk_loop.simps [of _ _ _ _ _ _ _ i] Let_def)
    next
      case 4
      then have "?t \<noteq> closer" using assms(2) by (auto simp: inline_closer_def pairing_token_def)
      with 4 True IH [OF same_paragraphs_steps(3) [OF same]] show ?thesis
        by (auto simp: close_walk_loop.simps [of _ _ _ _ _ _ _ i] Let_def)
    next
      case 5
      then have "?t \<noteq> closer" using assms(2) by (auto simp: inline_closer_def pairing_token_def)
      with 5 True IH [OF same_paragraphs_steps(4) [OF same w']] w' show ?thesis
        by (auto simp: close_walk_loop.simps [of _ _ _ _ _ _ _ i] Let_def)
    next
      case 6
      then have "\<not> pairing_token ?t" "?t \<noteq> InputEnd" "?t \<noteq> ParagraphBreak" using assms(2) by (auto simp: inline_closer_def)
      with 6 True same_paragraphs_steps(5) [OF same] show ?thesis
        by (simp add: close_walk_loop.simps [of _ _ _ _ _ _ _ i] Let_def pairing_token_def)
    next
      case 7
      with True IH [OF same] show ?thesis
        by (simp add: close_walk_loop.simps [of _ _ _ _ _ _ _ i] Let_def pairing_token_def)
    qed
  qed
qed

subsection \<open>What a recorded absence means\<close>

definition tokens_end :: "extracted_token list \<Rightarrow> bool" where
  "tokens_end tokens \<longleftrightarrow> (\<forall>i < length tokens. et_token (tokens ! i) = InputEnd \<longleftrightarrow> Suc i = length tokens)"

lemma tokens_end_drop: "tokens_end tokens \<Longrightarrow> tokens_end (drop n tokens)"
  by (auto simp: tokens_end_def)

text \<open>The last paragraph break from \<open>i\<close> on, counted from \<open>n\<close>, or what was known before.\<close>

definition paragraph_tail :: "extracted_token list \<Rightarrow> nat \<Rightarrow> nat \<Rightarrow> nat option \<Rightarrow> nat option \<Rightarrow> bool" where
  "paragraph_tail tokens n i before after \<longleftrightarrow>
     (after = before \<and> (\<forall>j. i \<le> j \<and> j < length tokens \<longrightarrow> et_token (tokens ! j) \<noteq> ParagraphBreak)) \<or>
     (\<exists>l. i \<le> l \<and> l < length tokens \<and> et_token (tokens ! l) = ParagraphBreak \<and> after = Some (n + l) \<and>
        (\<forall>j. l < j \<and> j < length tokens \<longrightarrow> et_token (tokens ! j) \<noteq> ParagraphBreak))"

lemma paragraph_tail_break:
  "et_token (tokens ! i) = ParagraphBreak \<Longrightarrow> i < length tokens \<Longrightarrow>
   paragraph_tail tokens n (Suc i) (Some (n + i)) after \<Longrightarrow> paragraph_tail tokens n i before after"
  unfolding paragraph_tail_def by (metis Suc_leD Suc_le_eq order_refl)

lemma paragraph_tail_other:
  "et_token (tokens ! i) \<noteq> ParagraphBreak \<Longrightarrow>
   paragraph_tail tokens n (Suc i) before after \<Longrightarrow> paragraph_tail tokens n i before after"
  unfolding paragraph_tail_def by (metis Suc_leD Suc_le_eq le_neq_implies_less)

lemma track_keeps [simp]:
  "cw_paragraph_error (track_paragraph_blocks tokens i w) = cw_paragraph_error w"
  "cw_saw_break (track_paragraph_blocks tokens i w) = cw_saw_break w"
  "cw_saw_block_pairing (track_paragraph_blocks tokens i w) = cw_saw_block_pairing w"
  "cw_last_paragraph_break (track_paragraph_blocks tokens i w) = cw_last_paragraph_break w"
  by (simp_all add: track_paragraph_blocks_def Let_def split: option.split)

definition ended_absent ::
  "token \<Rightarrow> bool \<Rightarrow> extracted_token list \<Rightarrow> nat \<Rightarrow> nat \<Rightarrow> close_walk \<Rightarrow> close_walk \<Rightarrow> bool" where
  "ended_absent closer blocks_can_reject tokens n i w w' \<longleftrightarrow>
     (\<forall>j. i \<le> j \<and> j < length tokens \<longrightarrow> et_token (tokens ! j) \<noteq> closer) \<and>
     (\<not> cw_saw_block_pairing w' \<longrightarrow> \<not> cw_saw_block_pairing w \<and>
        (blocks_can_reject \<longrightarrow> (\<forall>j. i \<le> j \<and> j < length tokens \<longrightarrow> \<not> pairing_token (et_token (tokens ! j))))) \<and>
     paragraph_tail tokens n i (cw_last_paragraph_break w) (cw_last_paragraph_break w')"

lemma ended_absent_step:
  assumes "ended_absent closer blocks_can_reject tokens n (Suc i) v w'"
    and "et_token (tokens ! i) \<noteq> closer"
    and "cw_saw_block_pairing v \<longleftrightarrow> cw_saw_block_pairing w \<or> (pairing_token (et_token (tokens ! i)) \<and> blocks_can_reject)"
    and "et_token (tokens ! i) \<noteq> ParagraphBreak" and "cw_last_paragraph_break v = cw_last_paragraph_break w"
  shows "ended_absent closer blocks_can_reject tokens n i w w'"
proof -
  have split: "j = i \<or> Suc i \<le> j" if "i \<le> j" for j using that by arith
  show ?thesis
    using assms split paragraph_tail_other [OF assms(4)] unfolding ended_absent_def by metis
qed

lemma walk_ended_absent:
  assumes closer: "inline_closer closer" and wf: "tokens_end tokens"
  shows "close_walk_loop cx mode closer None blocks_can_reject tokens n i w = (r, Some w') \<Longrightarrow>
    ended_absent closer blocks_can_reject tokens n i w w'"
proof (induction "length tokens - i" arbitrary: i w rule: less_induct)
  case less
  have i: "i < length tokens"
    using less.prems by (simp add: close_walk_loop.simps [of _ _ _ _ _ _ _ i] split: if_split_asm)
  let ?t = "et_token (tokens ! i)" and ?w = "track_paragraph_blocks tokens i w"
  have smaller: "length tokens - (i + 1) < length tokens - i" using i by arith
  have IH: "close_walk_loop cx mode closer None blocks_can_reject tokens n (Suc i) v = (r, Some w') \<Longrightarrow>
      ended_absent closer blocks_can_reject tokens n (Suc i) v w'" for v
    using less.hyps [OF smaller] by simp
  note walk = less.prems [unfolded close_walk_loop.simps [of _ _ _ _ _ _ _ i] Let_def]
  have split: "\<not> split_closes None tokens i" by (simp add: split_closes_def)
  consider "?t = InputEnd" | "?t = ParagraphBreak" | "?t = LeftBlock \<or> ?t = LeftBlockStar" | "?t = LeftLink"
    | "?t = LeftBlockEnd" | "?t = closer" | "\<not> pairing_token ?t" "?t \<noteq> InputEnd" "?t \<noteq> ParagraphBreak" "?t \<noteq> closer"
    by (auto simp: pairing_token_def)
  then show ?case
  proof cases
    case 1
    with wf i have tail: "et_token (tokens ! j) = InputEnd" if "i \<le> j" "j < length tokens" for j
      using that unfolding tokens_end_def by (metis Suc_leI le_antisym not_less_eq_eq)
    from 1 walk i split have "w' = ?w" by simp
    moreover have "InputEnd \<noteq> closer" using closer by (auto simp: inline_closer_def)
    ultimately show ?thesis by (simp add: ended_absent_def paragraph_tail_def pairing_token_def tail)
  next
    case 2
    with closer have "?t \<noteq> closer" by (auto simp: inline_closer_def)
    from 2 walk i split have "close_walk_loop cx mode closer None blocks_can_reject tokens n (Suc i)
        (paragraph_break_step (cx_legacy cx) (n + i) ?w) = (r, Some w')" by simp
    note ended = IH [OF this]
    have tail_pairing: "\<not> pairing_token ParagraphBreak"
      "cw_saw_block_pairing (paragraph_break_step (cx_legacy cx) (n + i) ?w) = cw_saw_block_pairing w"
      by (simp_all add: pairing_token_def paragraph_break_step_def)
    from ended have "paragraph_tail tokens n i (cw_last_paragraph_break w) (cw_last_paragraph_break w')"
      using paragraph_tail_break [OF 2 i] by (simp add: ended_absent_def paragraph_break_step_def)
    moreover have "j = i \<or> Suc i \<le> j" if "i \<le> j" for j using that by arith
    ultimately show ?thesis
      using ended \<open>?t \<noteq> closer\<close> 2 tail_pairing unfolding ended_absent_def by metis
  next
    case 3
    then have t: "?t \<noteq> closer" "pairing_token ?t" "?t \<noteq> ParagraphBreak" using closer by (auto simp: inline_closer_def pairing_token_def)
    show ?thesis
    proof (cases blocks_can_reject)
      case True
      with 3 walk i split have "close_walk_loop cx mode closer None blocks_can_reject tokens n (Suc i)
          (open_block_step (valid_block_name_at tokens i) ?w) = (r, Some w')" by auto
      from ended_absent_step [OF IH [OF this] t(1)] t True show ?thesis by (simp add: open_block_step_def)
    next
      case False
      with 3 walk i split t have "close_walk_loop cx mode closer None blocks_can_reject tokens n (Suc i) ?w = (r, Some w')" by auto
      from ended_absent_step [OF IH [OF this] t(1)] t False show ?thesis by simp
    qed
  next
    case 4
    then have t: "?t \<noteq> closer" "pairing_token ?t" "?t \<noteq> ParagraphBreak" using closer by (auto simp: inline_closer_def pairing_token_def)
    show ?thesis
    proof (cases blocks_can_reject)
      case True
      with 4 walk i split have "close_walk_loop cx mode closer None blocks_can_reject tokens n (Suc i)
          (open_block_step (link_name_at tokens i) ?w) = (r, Some w')" by auto
      from ended_absent_step [OF IH [OF this] t(1)] t True show ?thesis by (simp add: open_block_step_def)
    next
      case False
      with 4 walk i split t have "close_walk_loop cx mode closer None blocks_can_reject tokens n (Suc i) ?w = (r, Some w')" by auto
      from ended_absent_step [OF IH [OF this] t(1)] t False show ?thesis by simp
    qed
  next
    case 5
    then have t: "?t \<noteq> closer" "pairing_token ?t" "?t \<noteq> ParagraphBreak" using closer by (auto simp: inline_closer_def pairing_token_def)
    show ?thesis
    proof (cases blocks_can_reject)
      case True
      with 5 walk i split obtain v where v: "block_end_step cx mode tokens i ?w = Some v"
        "close_walk_loop cx mode closer None blocks_can_reject tokens n (Suc i) v = (r, Some w')"
        by (auto split: option.splits)
      from v(1) have "cw_saw_block_pairing v" "cw_last_paragraph_break v = cw_last_paragraph_break w"
        by (auto simp: block_end_step_def Let_def split: option.splits if_splits)
      with ended_absent_step [OF IH [OF v(2)] t(1)] t True show ?thesis by simp
    next
      case False
      with 5 walk i split t have "close_walk_loop cx mode closer None blocks_can_reject tokens n (Suc i) ?w = (r, Some w')" by auto
      from ended_absent_step [OF IH [OF this] t(1)] t False show ?thesis by simp
    qed
  next
    case 6
    with walk i split closer show ?thesis by (auto simp: inline_closer_def pairing_token_def)
  next
    case 7
    with walk i split have "close_walk_loop cx mode closer None blocks_can_reject tokens n (Suc i) ?w = (r, Some w')"
      by (auto simp: pairing_token_def)
    from ended_absent_step [OF IH [OF this] 7(4)] 7 show ?thesis by simp
  qed
qed

subsection \<open>The memo answers what the scan would\<close>

lemma exists_from: "i < n \<Longrightarrow> (\<exists>j. i \<le> j \<and> j < n \<and> P j) \<longleftrightarrow> P i \<or> (\<exists>j. Suc i \<le> j \<and> j < n \<and> P j)"
  by (metis Suc_leD Suc_leI le_neq_implies_less order_refl)

lemma walk_of_absence:
  assumes wf: "tokens_end tokens"
  shows "(\<forall>j. i \<le> j \<and> j < length tokens \<longrightarrow> et_token (tokens ! j) \<noteq> closer \<and>
      (blocks_can_reject \<longrightarrow> \<not> pairing_token (et_token (tokens ! j)))) \<Longrightarrow> i < length tokens \<Longrightarrow>
    fst (close_walk_loop cx mode closer None blocks_can_reject tokens n i w) =
    Inl (if cw_paragraph_error w \<or> cw_saw_break w \<or>
          (\<exists>j. i \<le> j \<and> j < length tokens \<and> et_token (tokens ! j) = ParagraphBreak) then RuleFailed else EndOfInput)"
proof (induction "length tokens - i" arbitrary: i w rule: less_induct)
  case less
  let ?t = "et_token (tokens ! i)" and ?w = "track_paragraph_blocks tokens i w"
  note i = less.prems(2)
  have smaller: "length tokens - (i + 1) < length tokens - i" using i by arith
  have t: "?t \<noteq> closer" "blocks_can_reject \<Longrightarrow> \<not> pairing_token ?t" using less.prems by auto
  have split: "\<not> split_closes None tokens i" by (simp add: split_closes_def)
  show ?case
  proof (cases "?t = InputEnd")
    case True
    with wf i have "et_token (tokens ! j) = InputEnd" if "i \<le> j" "j < length tokens" for j
      using that unfolding tokens_end_def by (metis Suc_leI le_antisym not_less_eq_eq)
    then have "\<not> (\<exists>j. i \<le> j \<and> j < length tokens \<and> et_token (tokens ! j) = ParagraphBreak)" by fastforce
    with True i split show ?thesis
      by (simp add: close_walk_loop.simps [of _ _ _ _ _ _ _ i] Let_def)
  next
    case False
    with wf i have next_i: "Suc i < length tokens" unfolding tokens_end_def by (metis Suc_lessI)
    have IH: "fst (close_walk_loop cx mode closer None blocks_can_reject tokens n (Suc i) v) =
        Inl (if cw_paragraph_error v \<or> cw_saw_break v \<or>
          (\<exists>j. Suc i \<le> j \<and> j < length tokens \<and> et_token (tokens ! j) = ParagraphBreak) then RuleFailed else EndOfInput)" for v
      using less.hyps [OF smaller, of v] less.prems(1) next_i by simp
    have here: "(\<exists>j. i \<le> j \<and> j < length tokens \<and> et_token (tokens ! j) = ParagraphBreak) \<longleftrightarrow>
        ?t = ParagraphBreak \<or> (\<exists>j. Suc i \<le> j \<and> j < length tokens \<and> et_token (tokens ! j) = ParagraphBreak)"
      using i by (rule exists_from)
    show ?thesis
    proof (cases "?t = ParagraphBreak")
      case True
      with False i split t here show ?thesis
        by (simp add: close_walk_loop.simps [of _ _ _ _ _ _ _ i] Let_def IH paragraph_break_step_def)
    next
      case other: False
      have "fst (close_walk_loop cx mode closer None blocks_can_reject tokens n i w) =
          fst (close_walk_loop cx mode closer None blocks_can_reject tokens n (Suc i) ?w)"
        using False other i split t unfolding close_walk_loop.simps [of _ _ _ _ _ _ _ i] Let_def
        by (cases blocks_can_reject) (simp_all add: pairing_token_def)
      with other here show ?thesis by (simp add: IH)
    qed
  qed
qed

text \<open>A proof in the memo: from its start on there is no closer, and no block if it was plain.\<close>

definition proof_sound :: "extracted_token list \<Rightarrow> token \<Rightarrow> bool \<Rightarrow> absence_proof \<Rightarrow> bool" where
  "proof_sound all closer context_free p \<longleftrightarrow>
     (\<forall>j. proof_start p \<le> j \<and> j < length all \<longrightarrow> et_token (all ! j) \<noteq> closer \<and>
        (\<not> context_free \<longrightarrow> \<not> pairing_token (et_token (all ! j)))) \<and>
     (case last_paragraph_break p of
        None \<Rightarrow> \<forall>j. proof_start p \<le> j \<and> j < length all \<longrightarrow> et_token (all ! j) \<noteq> ParagraphBreak
      | Some l \<Rightarrow> l < length all \<and> et_token (all ! l) = ParagraphBreak \<and>
          (\<forall>j. l < j \<and> j < length all \<longrightarrow> et_token (all ! j) \<noteq> ParagraphBreak))"

definition cache_sound :: "extracted_token list \<Rightarrow> closer_scan_cache \<Rightarrow> bool" where
  "cache_sound all c \<longleftrightarrow> csc_token_count c = length all \<and>
     (\<forall>a \<in> set (csc_delimiters c). \<forall>context_free p. absence_slot context_free a = Some p \<longrightarrow>
        proof_sound all (da_closer a) context_free p)"

lemma cache_sound_new: "cache_sound all (closer_scan_cache_new (length all))"
  by (simp add: cache_sound_def closer_scan_cache_new_def)

lemma update_first_sound:
  assumes "\<forall>a \<in> set as. \<forall>context_free p. absence_slot context_free a = Some p \<longrightarrow> proof_sound all (da_closer a) context_free p"
    and "proof_sound all closer free p"
  shows "\<forall>a \<in> set (update_first closer free p as). \<forall>context_free q.
    absence_slot context_free a = Some q \<longrightarrow> proof_sound all (da_closer a) context_free q"
  using assms(1)
proof (induction as)
  case Nil
  with assms(2) show ?case by (auto simp: absence_slot_def split: if_splits)
next
  case (Cons a as)
  have "proof_sound all (da_closer a) context_free q"
    if "da_closer a = closer" "absence_slot context_free (update_absence free p a) = Some q" for context_free q
  proof -
    have "(context_free = free \<and> q = p) \<or> absence_slot context_free a = Some q"
      using that(2) by (auto simp: absence_slot_def update_absence_def better_proof_def split: if_splits option.splits)
    then show ?thesis using assms(2) Cons.prems that(1) by auto
  qed
  moreover have "da_closer (update_absence free p a) = da_closer a" by (simp add: update_absence_def)
  ultimately show ?case using Cons by auto
qed

lemma record_absence_sound:
  "cache_sound all c \<Longrightarrow> proof_sound all closer context_free \<lparr>proof_start = n, last_paragraph_break = paragraph\<rparr> \<Longrightarrow>
   cache_sound all (record_absence closer n paragraph context_free c)"
  using update_first_sound [of "csc_delimiters c" all closer context_free]
  by (auto simp: cache_sound_def record_absence_def)

lemma ended_absent_proof:
  assumes ended: "ended_absent closer blocks_can_reject (drop n all) n 0 close_walk_start w'"
    and "\<not> cw_saw_block_pairing w'"
  shows "proof_sound all closer (\<not> blocks_can_reject) \<lparr>proof_start = n, last_paragraph_break = cw_last_paragraph_break w'\<rparr>"
proof -
  have at: "et_token (all ! j) = et_token (drop n all ! (j - n))" "j - n < length (drop n all)" if "n \<le> j" "j < length all" for j
    using that by simp_all
  have absent: "et_token (all ! j) \<noteq> closer" "blocks_can_reject \<longrightarrow> \<not> pairing_token (et_token (all ! j))"
    if "n \<le> j" "j < length all" for j
    using ended assms(2) at [OF that] by (simp_all add: ended_absent_def)
  have "paragraph_tail (drop n all) n 0 None (cw_last_paragraph_break w')"
    using ended by (simp add: ended_absent_def close_walk_start_def)
  then consider "cw_last_paragraph_break w' = None" "\<And>j. j < length (drop n all) \<Longrightarrow> et_token (drop n all ! j) \<noteq> ParagraphBreak"
    | l where "cw_last_paragraph_break w' = Some (n + l)" "l < length (drop n all)" "et_token (drop n all ! l) = ParagraphBreak"
      "\<And>j. l < j \<Longrightarrow> j < length (drop n all) \<Longrightarrow> et_token (drop n all ! j) \<noteq> ParagraphBreak"
    by (fastforce simp: paragraph_tail_def)
  then show ?thesis
  proof cases
    case 1
    then have "et_token (all ! j) \<noteq> ParagraphBreak" if "n \<le> j" "j < length all" for j
      using at [OF that] by metis
    with absent 1 show ?thesis by (simp add: proof_sound_def)
  next
    case (2 l)
    have "et_token (all ! j) \<noteq> ParagraphBreak" if "n + l < j" "j < length all" for j
      using at [of j] 2(4) [of "j - n"] that by simp
    with absent 2 show ?thesis by (simp add: proof_sound_def)
  qed
qed

text \<open>The scan without memo that keeps the books of blocks in every context.\<close>

definition full_close_scan ::
  "close_context \<Rightarrow> extracted_token list \<Rightarrow> nat \<Rightarrow> token \<Rightarrow> split_test \<Rightarrow> reachable_close_mode \<Rightarrow> parse_error_kind + unit" where
  "full_close_scan cx all n closer split mode =
     fst (close_walk_loop cx mode closer split True (drop n all) n 0 close_walk_start)"

lemma full_scan_flag:
  "inline_closer closer \<Longrightarrow>
   fst (close_walk_loop cx mode closer split (block_end_can_reject cx mode) (drop n all) n 0 close_walk_start) =
   full_close_scan cx all n closer split mode"
  using walk_without_blocks [of cx mode closer close_walk_start close_walk_start split "drop n all" n 0]
  by (cases "block_end_can_reject cx mode") (simp_all add: full_close_scan_def same_paragraphs_def)

lemma exists_shift: "(\<exists>j < length xs - n. P (xs ! (n + j))) \<longleftrightarrow> (\<exists>j. n \<le> j \<and> j < length xs \<and> P (xs ! j))"
proof
  assume "\<exists>j. n \<le> j \<and> j < length xs \<and> P (xs ! j)"
  then obtain j where j: "n \<le> j" "j < length xs" "P (xs ! j)" by blast
  then show "\<exists>j < length xs - n. P (xs ! (n + j))" by (intro exI [of _ "j - n"]) simp
next
  assume "\<exists>j < length xs - n. P (xs ! (n + j))"
  then obtain j where "j < length xs - n" "P (xs ! (n + j))" by blast
  then show "\<exists>j. n \<le> j \<and> j < length xs \<and> P (xs ! j)" by (intro exI [of _ "n + j"]) simp
qed

lemma last_break_from:
  assumes "proof_sound all closer context_free p" and "proof_start p \<le> n"
  shows "(\<exists>j. n \<le> j \<and> j < length all \<and> et_token (all ! j) = ParagraphBreak) \<longleftrightarrow>
    (case last_paragraph_break p of Some b \<Rightarrow> n \<le> b | None \<Rightarrow> False)"
proof (cases "last_paragraph_break p")
  case None
  with assms show ?thesis by (auto simp: proof_sound_def)
next
  case (Some l)
  with assms(1) have l: "l < length all" "et_token (all ! l) = ParagraphBreak"
    and after: "\<And>j. l < j \<Longrightarrow> j < length all \<Longrightarrow> et_token (all ! j) \<noteq> ParagraphBreak"
    by (auto simp: proof_sound_def)
  have "n \<le> l" if "n \<le> j" "j < length all" "et_token (all ! j) = ParagraphBreak" for j
  proof (rule ccontr)
    assume "\<not> n \<le> l"
    with that(1) have "l < j" by simp
    from after [OF this that(2)] that(3) show False by simp
  qed
  with l Some show ?thesis by auto
qed

lemma sound_proof_answers:
  assumes wf: "tokens_end all" and sound: "proof_sound all closer context_free p"
    and free: "context_free \<longrightarrow> \<not> block_end_can_reject cx mode" and "proof_start p \<le> n" and closer: "inline_closer closer"
  shows "full_close_scan cx all n closer None mode =
    Inl (if (case last_paragraph_break p of Some b \<Rightarrow> n \<le> b | None \<Rightarrow> False) then RuleFailed else EndOfInput)"
proof (cases "n < length all")
  case False
  with sound have "\<not> (case last_paragraph_break p of Some b \<Rightarrow> n \<le> b | None \<Rightarrow> False)"
    by (auto simp: proof_sound_def split: option.splits)
  with False show ?thesis by (simp add: full_close_scan_def close_walk_loop.simps)
next
  case True
  let ?can = "block_end_can_reject cx mode"
  have absent: "\<forall>j. 0 \<le> j \<and> j < length (drop n all) \<longrightarrow> et_token (drop n all ! j) \<noteq> closer \<and>
      (?can \<longrightarrow> \<not> pairing_token (et_token (drop n all ! j)))"
    using sound free assms(4) by (auto simp: proof_sound_def)
  have breaks: "(\<exists>j. 0 \<le> j \<and> j < length (drop n all) \<and> et_token (drop n all ! j) = ParagraphBreak) \<longleftrightarrow>
      (case last_paragraph_break p of Some b \<Rightarrow> n \<le> b | None \<Rightarrow> False)"
    using last_break_from [OF sound assms(4)] exists_shift [of all n "\<lambda>t. et_token t = ParagraphBreak"] True
    by (simp cong: conj_cong)
  from walk_of_absence [OF tokens_end_drop [OF wf, of n] absent, of cx mode n close_walk_start] True breaks
  show ?thesis by (simp add: full_scan_flag [OF closer, symmetric] close_walk_start_def)
qed

lemma known_absent_proof:
  assumes "cache_sound all c" and "known_absent cx mode closer split n c = Some b"
  obtains context_free p where "split = None" "proof_sound all closer context_free p"
    "context_free \<longrightarrow> \<not> block_end_can_reject cx mode" "proof_start p \<le> n"
    "b = (case last_paragraph_break p of Some b \<Rightarrow> n \<le> b | None \<Rightarrow> False)"
proof -
  have answer: "\<exists>p. proof_sound all closer context_free p \<and> proof_start p \<le> n \<and>
      b = (case last_paragraph_break p of Some b \<Rightarrow> n \<le> b | None \<Rightarrow> False)"
    if "absence_answer c closer n context_free = Some b" for context_free
  proof -
    from that obtain a p where a: "List.find (\<lambda>a. da_closer a = closer) (csc_delimiters c) = Some a"
      "absence_slot context_free a = Some p" "proof_start p \<le> n"
      "b = (case last_paragraph_break p of Some b \<Rightarrow> n \<le> b | None \<Rightarrow> False)"
      by (auto simp: absence_answer_def split: option.splits if_splits)
    from a(1) have "a \<in> set (csc_delimiters c)" "da_closer a = closer" by (auto simp: find_Some_iff)
    with assms(1) a show ?thesis by (auto simp: cache_sound_def)
  qed
  from assms(2) consider "split = None" "absence_answer c closer n False = Some b"
    | "split = None" "\<not> block_end_can_reject cx mode" "absence_answer c closer n True = Some b"
    by (cases split) (auto simp: known_absent_def delimiter_close_absent_def delimiter_close_absent_context_free_def
        split: option.splits if_splits)
  then show thesis
  proof cases
    case 1
    with answer [OF 1(2)] that show thesis by blast
  next
    case 2
    with answer [OF 2(3)] that show thesis by blast
  qed
qed

lemma record_absent_sound:
  assumes "cache_sound all c" and "inline_closer closer" and "tokens_end all"
    and walk: "close_walk_loop cx mode closer split blocks_can_reject (drop n all) n 0 close_walk_start = (r, ended)"
  shows "cache_sound all (record_absent blocks_can_reject closer split n ended c)"
proof (cases "\<exists>w. ended = Some w \<and> split = None \<and> \<not> cw_saw_block_pairing w")
  case True
  then obtain w where w: "ended = Some w" "split = None" "\<not> cw_saw_block_pairing w" by blast
  from ended_absent_proof [OF walk_ended_absent [OF assms(2) tokens_end_drop [OF assms(3)]] w(3)] walk w
  have "proof_sound all closer (\<not> blocks_can_reject)
      \<lparr>proof_start = n, last_paragraph_break = cw_last_paragraph_break w\<rparr>" by blast
  with w record_absence_sound [OF assms(1) this] show ?thesis
    by (cases blocks_can_reject)
      (simp_all add: record_absent_def record_delimiter_close_absent_def record_delimiter_close_absent_context_free_def)
next
  case False
  with assms(1) show ?thesis by (auto simp: record_absent_def split: option.split)
qed

lemma validate_full:
  assumes "cache_sound all c" and "tokens_end all" and "inline_closer closer" and "n \<le> length all"
  shows "fst (validate_reachable_close cx (drop n all) closer split mode c) = full_close_scan cx all n closer split mode"
    and "cache_sound all (snd (validate_reachable_close cx (drop n all) closer split mode c))"
proof -
  have start: "index_ahead c (length (drop n all)) = n"
    using assms(1,4) by (simp add: index_ahead_def cache_sound_def)
  have "fst (validate_reachable_close cx (drop n all) closer split mode c) = full_close_scan cx all n closer split mode \<and>
      cache_sound all (snd (validate_reachable_close cx (drop n all) closer split mode c))"
  proof (cases "known_absent cx mode closer split n c")
    case None
    obtain r ended where walk: "close_walk_loop cx mode closer split (block_end_can_reject cx mode) (drop n all) n 0 close_walk_start = (r, ended)"
      by fastforce
    with None record_absent_sound [OF assms(1,3,2) walk] full_scan_flag [OF assms(3), of cx mode split n all]
    show ?thesis by (simp add: validate_reachable_close_def start [simplified] Let_def)
  next
    case (Some b)
    from known_absent_proof [OF assms(1) Some] obtain context_free p where p: "split = None"
      "proof_sound all closer context_free p" "context_free \<longrightarrow> \<not> block_end_can_reject cx mode" "proof_start p \<le> n"
      "b = (case last_paragraph_break p of Some b \<Rightarrow> n \<le> b | None \<Rightarrow> False)" .
    from sound_proof_answers [OF assms(2) p(2-4) assms(3)] Some p(1,5) assms(1)
    show ?thesis by (simp add: validate_reachable_close_def start [simplified] Let_def)
  qed
  then show "fst (validate_reachable_close cx (drop n all) closer split mode c) = full_close_scan cx all n closer split mode"
    and "cache_sound all (snd (validate_reachable_close cx (drop n all) closer split mode c))" by simp_all
qed

subsection \<open>Any sequence of scans\<close>

record close_query =
  cq_context :: close_context
  cq_ahead :: nat
  cq_closer :: token
  cq_split :: split_test
  cq_mode :: reachable_close_mode

primrec close_scans :: "extracted_token list \<Rightarrow> close_query list \<Rightarrow> closer_scan_cache \<Rightarrow> (parse_error_kind + unit) list" where
  "close_scans all [] c = []"
| "close_scans all (q # qs) c =
     (case validate_reachable_close (cq_context q) (drop (cq_ahead q) all) (cq_closer q) (cq_split q) (cq_mode q) c of
        (result, c') \<Rightarrow> result # close_scans all qs c')"

text \<open>
  C30: Over the tokens of a document, any sequence of scans for closers, from any positions and in any
  contexts of the parser, has the results of scans that start afresh and evaluate every block end:
  neither the memo of absent closers nor skipping the blocks can be observed.
\<close>

theorem closer_scans_transparent:
  assumes "tokens_end all" and "list_all (\<lambda>q. inline_closer (cq_closer q) \<and> cq_ahead q \<le> length all) qs"
  shows "close_scans all qs (closer_scan_cache_new (length all)) =
    map (\<lambda>q. full_close_scan (cq_context q) all (cq_ahead q) (cq_closer q) (cq_split q) (cq_mode q)) qs"
proof -
  have "cache_sound all c \<Longrightarrow> close_scans all qs c =
      map (\<lambda>q. full_close_scan (cq_context q) all (cq_ahead q) (cq_closer q) (cq_split q) (cq_mode q)) qs" for c
    using assms(2)
  proof (induction qs arbitrary: c)
    case (Cons q qs)
    then have q: "inline_closer (cq_closer q)" "cq_ahead q \<le> length all" by simp_all
    note one = validate_full [OF Cons.prems(1) assms(1) q, of "cq_context q" "cq_split q" "cq_mode q"]
    with Cons.IH [OF one(2)] Cons.prems(2) show ?case by (auto split: prod.split)
  qed simp
  from this [OF cache_sound_new] show ?thesis .
qed


definition example_context :: close_context where
  "example_context = \<lparr>cx_legacy = True, cx_discarding_hidden_body = False, cx_hidden_bodies = [], cx_body_ends = [],
     cx_wikidot = wikidot_state_default\<rparr>"

definition example_tokens :: "extracted_token list" where
  "example_tokens = map (\<lambda>t. \<lparr>et_token = t, et_slice = [], et_start = 0, et_end = 0\<rparr>)
     [InputStart, Underline, LeftBlockEnd, ParagraphBreak, Underline, Identifier, InputEnd]"

lemma closer_scans_transparent_witness:
  "let scan = \<lambda>n. \<lparr>cq_context = example_context, cq_ahead = n, cq_closer = Superscript, cq_split = None, cq_mode = StandardClose\<rparr>
   in close_scans example_tokens [scan 2, scan 5] (closer_scan_cache_new (length example_tokens)) =
      map (\<lambda>q. full_close_scan (cq_context q) example_tokens (cq_ahead q) (cq_closer q) (cq_split q) (cq_mode q)) [scan 2, scan 5]"
  unfolding Let_def
  by (rule closer_scans_transparent)
    (simp_all add: tokens_end_def example_tokens_def inline_closer_def pairing_token_def less_Suc_eq numeral_eq_Suc all_conj_distrib)

end
