(* ===== verification/Parser_Cursor.thy ===== *)
theory Parser_Cursor
  imports "HOL-Library.Word" Body_Ends Parse_Error
begin

text \<open>
  The cursor of the parser (\<open>parsing/parser.rs\<close>): the fields that each clone of the parser owns, the
  steps over the tokens, the preparation of the lines of a quoted body and the recursion depth.
  The fields that all clones share are not part of it.  An operation that can
  fail answers an error and the cursor it leaves, which is also changed when it fails.
\<close>

subsection \<open>The cursor\<close>

datatype quote_line_state = NeedPrefix | PreparedContent nat | PreparedResidual nat nat

record quote_body_cursor =
  required_depth :: nat
  line_state :: quote_line_state
  literal_residual_quotes :: bool

datatype accepts_partial = AcceptsNone | AcceptsListItem | AcceptsTableRow | AcceptsTableCell | AcceptsTab | AcceptsRuby

record parser_cursor =
  pc_full_text :: bytes
  pc_legacy :: bool
  pc_page_syntax :: bool
  pc_rule :: bytes
  pc_current :: extracted_token
  pc_remaining :: "extracted_token list"
  pc_depth :: nat
  pc_max_recursion_depth :: nat
  pc_discarding_hidden_body :: bool
  pc_hidden_bodies :: "hidden_body_boundary list"
  pc_accepts_partial :: accepts_partial
  pc_accepts_partial_depth :: u16
  pc_in_footnote :: bool
  pc_in_note :: bool
  pc_in_color :: bool
  pc_has_footnote_block :: bool
  pc_start_of_line :: bool
  pc_native_blockquote_depth :: u32
  pc_quote_body_cursor :: "quote_body_cursor option"
  pc_wikidot :: wikidot_state

definition NATIVE_BLOCKQUOTE_DEPTH_NONE :: u32 where "NATIVE_BLOCKQUOTE_DEPTH_NONE = - 1"

text \<open>The parser of a document stands at its first token; no tokens is a panic.\<close>

definition parser_new :: "bytes \<Rightarrow> bool \<Rightarrow> bool \<Rightarrow> extracted_token list \<Rightarrow> nat \<Rightarrow> parser_cursor option" where
  "parser_new full_text legacy page_syntax tokens max_recursion_depth =
     (case tokens of
        [] \<Rightarrow> None
      | t # ts \<Rightarrow> Some
          \<lparr>pc_full_text = full_text, pc_legacy = legacy, pc_page_syntax = page_syntax, pc_rule = ''page'', pc_current = t,
           pc_remaining = ts, pc_depth = 0, pc_max_recursion_depth = max_recursion_depth,
           pc_discarding_hidden_body = False, pc_hidden_bodies = [], pc_accepts_partial = AcceptsNone,
           pc_accepts_partial_depth = 0, pc_in_footnote = False, pc_in_note = False, pc_in_color = False,
           pc_has_footnote_block = False, pc_start_of_line = True,
           pc_native_blockquote_depth = NATIVE_BLOCKQUOTE_DEPTH_NONE, pc_quote_body_cursor = None,
           pc_wikidot = wikidot_state_default\<rparr>)"

type_synonym 'a step_result = "(parse_error + 'a) \<times> parser_cursor"

definition make_err :: "parser_cursor \<Rightarrow> parse_error_kind \<Rightarrow> parse_error" where
  "make_err p kind = parse_error_new kind (pc_rule p) (pc_current p)"

definition make_end_of_input_err :: "parser_cursor \<Rightarrow> parse_error" where
  "make_end_of_input_err p =
     parse_error_new EndOfInput (pc_rule p) (if pc_remaining p = [] then pc_current p else last (pc_remaining p))"

text \<open>The operator \<open>?\<close>: what follows runs when the step has succeeded.\<close>

definition and_then :: "'a step_result \<Rightarrow> ('a \<Rightarrow> parser_cursor \<Rightarrow> 'b step_result) \<Rightarrow> 'b step_result" where
  "and_then m f = (case m of (Inl e, p) \<Rightarrow> (Inl e, p) | (Inr a, p) \<Rightarrow> f a p)"

lemma and_then_simps [simp]:
  "and_then (Inl e, p) f = (Inl e, p)"
  "and_then (Inr a, p) f = f a p"
  by (simp_all add: and_then_def)

subsection \<open>Steps\<close>

definition token_starts_line :: "token \<Rightarrow> bool" where
  "token_starts_line t \<longleftrightarrow> t = InputStart \<or> t = LineBreak \<or> t = ParagraphBreak"

definition is_optional_space_token :: "token \<Rightarrow> bool" where
  "is_optional_space_token t \<longleftrightarrow> t = Whitespace \<or> t = LineBreak \<or> t = ParagraphBreak \<or> t = Equals"

definition break_token :: "extracted_token \<Rightarrow> bool" where
  "break_token t \<longleftrightarrow> et_token t = LineBreak \<or> et_token t = ParagraphBreak"

definition need_prefix :: "quote_body_cursor option \<Rightarrow> quote_body_cursor option" where
  "need_prefix cursor = map_option (line_state_update (\<lambda>_. NeedPrefix)) cursor"

definition parser_step :: "parser_cursor \<Rightarrow> extracted_token step_result" where
  "parser_step p =
     (let p = p\<lparr>pc_start_of_line := token_starts_line (et_token (pc_current p))\<rparr>;
          p = (if break_token (pc_current p) then p\<lparr>pc_quote_body_cursor := need_prefix (pc_quote_body_cursor p)\<rparr> else p)
      in case pc_remaining p of
           t # ts \<Rightarrow> (Inr t, p\<lparr>pc_current := t, pc_remaining := ts\<rparr>)
         | [] \<Rightarrow> (Inl (make_err p EndOfInput), p))"

primrec step_n :: "nat \<Rightarrow> parser_cursor \<Rightarrow> unit step_result" where
  "step_n 0 p = (Inr (), p)"
| "step_n (Suc n) p = and_then (parser_step p) (\<lambda>_. step_n n)"

text \<open>Behind the remaining tokens the index panics.\<close>

definition step_to_remaining :: "nat \<Rightarrow> parser_cursor \<Rightarrow> parser_cursor option" where
  "step_to_remaining i p =
     (if i < length (pc_remaining p)
      then let previous = (if i = 0 then pc_current p else pc_remaining p ! (i - 1))
           in Some (p\<lparr>pc_start_of_line := token_starts_line (et_token previous),
                pc_quote_body_cursor :=
                  (if list_ex break_token (pc_current p # take i (pc_remaining p))
                   then need_prefix (pc_quote_body_cursor p) else pc_quote_body_cursor p),
                pc_current := pc_remaining p ! i, pc_remaining := drop (Suc i) (pc_remaining p)\<rparr>)
      else None)"

definition jump_to_input_end :: "parser_cursor \<Rightarrow> parser_cursor" where
  "jump_to_input_end p =
     (if pc_remaining p = [] then p
      else let n = length (pc_remaining p);
               previous = (if n < 2 then pc_current p else pc_remaining p ! (n - 2))
           in p\<lparr>pc_start_of_line := token_starts_line (et_token previous),
                pc_current := last (pc_remaining p), pc_remaining := []\<rparr>)"

definition look_ahead :: "parser_cursor \<Rightarrow> nat \<Rightarrow> extracted_token option" where
  "look_ahead p offset = (if offset < length (pc_remaining p) then Some (pc_remaining p ! offset) else None)"

definition look_ahead_err :: "parser_cursor \<Rightarrow> nat \<Rightarrow> parse_error + extracted_token" where
  "look_ahead_err p offset = (case look_ahead p offset of Some t \<Rightarrow> Inr t | None \<Rightarrow> Inl (make_err p EndOfInput))"

definition next_two_tokens :: "parser_cursor \<Rightarrow> token \<times> token option" where
  "next_two_tokens p = (et_token (pc_current p), map_option et_token (look_ahead p 0))"

definition next_three_tokens :: "parser_cursor \<Rightarrow> token \<times> token option \<times> token option" where
  "next_three_tokens p =
     (et_token (pc_current p), map_option et_token (look_ahead p 0), map_option et_token (look_ahead p 1))"

definition current_is :: "parser_cursor \<Rightarrow> token \<Rightarrow> bool" where
  "current_is p t \<longleftrightarrow> et_token (pc_current p) = t"

definition get_token :: "token \<Rightarrow> parse_error_kind \<Rightarrow> parser_cursor \<Rightarrow> bytes step_result" where
  "get_token t kind p =
     (if current_is p t then and_then (parser_step p) (\<lambda>_ p'. (Inr (et_slice (pc_current p)), p'))
      else (Inl (make_err p kind), p))"

definition get_optional_token :: "token \<Rightarrow> parser_cursor \<Rightarrow> unit step_result" where
  "get_optional_token t p =
     (if current_is p t then and_then (parser_step p) (\<lambda>_ p'. (Inr (), p')) else (Inr (), p))"

definition get_optional_line_break :: "parser_cursor \<Rightarrow> unit step_result" where
  "get_optional_line_break = get_optional_token LineBreak"

definition get_optional_space :: "parser_cursor \<Rightarrow> unit step_result" where
  "get_optional_space = get_optional_token Whitespace"

text \<open>\<open>assert_step\<close> panics at another token, \<open>check_step\<close> fails (\<open>parsing/check_step.rs\<close>).\<close>

definition assert_step :: "token \<Rightarrow> parser_cursor \<Rightarrow> extracted_token step_result option" where
  "assert_step t p =
     (if current_is p t then Some (and_then (parser_step p) (\<lambda>_ p'. (Inr (pc_current p), p'))) else None)"

definition check_step :: "token \<Rightarrow> parse_error_kind \<Rightarrow> parser_cursor \<Rightarrow> extracted_token step_result" where
  "check_step t kind p =
     (if current_is p t then and_then (parser_step p) (\<lambda>_ p'. (Inr (pc_current p), p'))
      else (Inl (make_err p kind), p))"

lemma step_remaining:
  "parser_step p = (Inr t, p') \<Longrightarrow> pc_remaining p = t # pc_remaining p' \<and> pc_current p' = t"
  by (auto simp: parser_step_def Let_def split: list.splits if_splits)

function get_optional_spaces_any :: "parser_cursor \<Rightarrow> unit step_result" where
  "get_optional_spaces_any p =
     (if is_optional_space_token (et_token (pc_current p))
      then (case parser_step p of
              (Inl e, p') \<Rightarrow> (Inl e, p')
            | (Inr _, p') \<Rightarrow> get_optional_spaces_any p')
      else (Inr (), p))"
  by pat_completeness auto
termination
  by (relation "measure (\<lambda>p. length (pc_remaining p))") (auto dest!: step_remaining [OF sym])

declare get_optional_spaces_any.simps [simp del]

subsection \<open>Fields\<close>

definition cursor_update :: "parser_cursor \<Rightarrow> parser_cursor \<Rightarrow> parser_cursor" where
  "cursor_update p q =
     p\<lparr>pc_accepts_partial := pc_accepts_partial q, pc_accepts_partial_depth := pc_accepts_partial_depth q,
       pc_in_footnote := pc_in_footnote q, pc_in_note := pc_in_note q, pc_in_color := pc_in_color q,
       pc_has_footnote_block := pc_has_footnote_block q, pc_start_of_line := pc_start_of_line q,
       pc_native_blockquote_depth := pc_native_blockquote_depth q,
       pc_quote_body_cursor := pc_quote_body_cursor q, pc_wikidot := pc_wikidot q,
       pc_current := pc_current q, pc_remaining := pc_remaining q\<rparr>"

lemma cursor_update_simps [simp]:
  "pc_current (cursor_update p q) = pc_current q"
  "pc_remaining (cursor_update p q) = pc_remaining q"
  "pc_quote_body_cursor (cursor_update p q) = pc_quote_body_cursor q"
  by (simp_all add: cursor_update_def)

definition set_rule :: "bytes \<Rightarrow> parser_cursor \<Rightarrow> parser_cursor" where
  "set_rule rule p = p\<lparr>pc_rule := rule\<rparr>"

definition clone_with_rule :: "bytes \<Rightarrow> parser_cursor \<Rightarrow> parser_cursor" where
  "clone_with_rule rule p = set_rule rule p"

text \<open>
  The depth also rises when it then exceeds the limit.  The greatest depth reached is shared by all
  clones, so it is an argument and a result of its own.
\<close>

definition depth_increment :: "parser_cursor \<Rightarrow> nat \<Rightarrow> unit step_result \<times> nat" where
  "depth_increment p peak_depth =
     (let p = p\<lparr>pc_depth := pc_depth p + 1\<rparr>;
          peak_depth = (if pc_depth p > peak_depth then pc_depth p else peak_depth)
      in (if pc_depth p > pc_max_recursion_depth p then (Inl (make_err p RecursionDepthExceeded), p) else (Inr (), p),
          peak_depth))"

definition depth_decrement :: "parser_cursor \<Rightarrow> parser_cursor option" where
  "depth_decrement p = (if pc_depth p = 0 then None else Some (p\<lparr>pc_depth := pc_depth p - 1\<rparr>))"

definition accepts_partial_here :: "parser_cursor \<Rightarrow> accepts_partial \<Rightarrow> bool" where
  "accepts_partial_here p a \<longleftrightarrow> pc_accepts_partial p = a \<and> pc_accepts_partial_depth p \<noteq> 0 \<and>
     unat (pc_accepts_partial_depth p) = pc_depth p"

text \<open>The depth has to fit into sixteen bits.\<close>

definition set_accepts_partial_child :: "accepts_partial \<Rightarrow> parser_cursor \<Rightarrow> parser_cursor option" where
  "set_accepts_partial_child a p =
     (if pc_depth p + 1 < 2 ^ 16
      then Some (p\<lparr>pc_accepts_partial := a, pc_accepts_partial_depth := of_nat (pc_depth p + 1)\<rparr>) else None)"

definition native_blockquote_depth :: "parser_cursor \<Rightarrow> nat option" where
  "native_blockquote_depth p =
     (if pc_native_blockquote_depth p = NATIVE_BLOCKQUOTE_DEPTH_NONE then None
      else Some (unat (pc_native_blockquote_depth p)))"

definition in_native_blockquote_line :: "parser_cursor \<Rightarrow> bool" where
  "in_native_blockquote_line p \<longleftrightarrow> pc_native_blockquote_depth p \<noteq> NATIVE_BLOCKQUOTE_DEPTH_NONE"

definition set_native_blockquote_depth :: "nat option \<Rightarrow> parser_cursor \<Rightarrow> parser_cursor" where
  "set_native_blockquote_depth d p =
     p\<lparr>pc_native_blockquote_depth :=
       (case d of
          Some n \<Rightarrow> if n < 2 ^ 32 then of_nat n else NATIVE_BLOCKQUOTE_DEPTH_NONE - 1
        | None \<Rightarrow> NATIVE_BLOCKQUOTE_DEPTH_NONE)\<rparr>"

definition mark_virtual_start_of_line :: "parser_cursor \<Rightarrow> parser_cursor" where
  "mark_virtual_start_of_line p = p\<lparr>pc_start_of_line := True\<rparr>"

definition clear_start_of_line :: "parser_cursor \<Rightarrow> parser_cursor" where
  "clear_start_of_line p = p\<lparr>pc_start_of_line := False\<rparr>"

definition check_page_syntax :: "parser_cursor \<Rightarrow> parse_error + unit" where
  "check_page_syntax p = (if pc_page_syntax p then Inr () else Inl (make_err p NotSupportedMode))"

text \<open>Back over blanks to the start of the physical line.\<close>

fun line_start_before :: "bytes \<Rightarrow> nat \<Rightarrow> bool" where
  "line_start_before source 0 = True"
| "line_start_before source (Suc i) =
     (if source ! i = CHR '' '' \<or> source ! i = CHR 0x09 then line_start_before source i
      else source ! i = CHR 0x0D \<or> source ! i = CHR 0x0A)"

definition current_at_source_line_start :: "parser_cursor \<Rightarrow> bool" where
  "current_at_source_line_start p = line_start_before (pc_full_text p) (et_start (pc_current p))"

subsection \<open>Trying\<close>

definition evaluate_fn :: "(parser_cursor \<Rightarrow> bool step_result) \<Rightarrow> parser_cursor \<Rightarrow> bool" where
  "evaluate_fn f p = (case fst (f p) of Inr b \<Rightarrow> b | Inl _ \<Rightarrow> False)"

definition save_evaluate_fn :: "(parser_cursor \<Rightarrow> bool step_result) \<Rightarrow> parser_cursor \<Rightarrow> extracted_token option \<times> parser_cursor" where
  "save_evaluate_fn f p =
     (case f p of
        (Inr True, q) \<Rightarrow> (Some (pc_current p), cursor_update p q)
      | _ \<Rightarrow> (None, p))"


subsection \<open>The lines of a quoted body\<close>

datatype quote_body_line_status = Inactive | Prepared | Boundary

text \<open>
  The prefix is removed on a clone: it is given to the parser when it is complete.  \<open>Inr None\<close> is
  the end of the body, and the quotes that are left of a deeper token stay current.
\<close>

function strip_body_quotes :: "quote_body_cursor \<Rightarrow> nat \<Rightarrow> parser_cursor \<Rightarrow> parse_error + parser_cursor option" where
  "strip_body_quotes cursor remaining_depth prepared =
     (if et_token (pc_current prepared) \<noteq> Quote then Inr None
      else
        let physical_depth = length (et_slice (pc_current prepared))
        in if physical_depth < remaining_depth
           then (case parser_step prepared of
                   (Inl e, _) \<Rightarrow> Inl e
                 | (Inr _, prepared') \<Rightarrow>
                     (case get_optional_space prepared' of
                        (Inl e, _) \<Rightarrow> Inl e
                      | (Inr _, prepared'') \<Rightarrow>
                          strip_body_quotes cursor (remaining_depth - physical_depth)
                            (mark_virtual_start_of_line prepared'')))
           else let marked = mark_virtual_start_of_line prepared
           in if physical_depth = remaining_depth
              then (case parser_step marked of
                      (Inl e, _) \<Rightarrow> Inl e
                    | (Inr _, prepared') \<Rightarrow>
                        (case get_optional_space prepared' of
                           (Inl e, _) \<Rightarrow> Inl e
                         | (Inr _, prepared'') \<Rightarrow>
                             let q = (if \<not> literal_residual_quotes cursor \<or> et_token (pc_current prepared'') \<noteq> Quote
                                      then mark_virtual_start_of_line prepared'' else prepared'')
                             in Inr (Some (q\<lparr>pc_quote_body_cursor :=
                                  Some (cursor\<lparr>line_state := PreparedContent (et_start (pc_current q))\<rparr>)\<rparr>))))
              else Inr (Some (marked\<lparr>pc_quote_body_cursor :=
                     Some (cursor\<lparr>line_state :=
                       PreparedResidual (et_start (pc_current marked)) remaining_depth\<rparr>)\<rparr>)))"
  by pat_completeness auto

lemma optional_space_cases:
  assumes "get_optional_space p = (Inr u, p')"
  shows "p' = p \<or> et_token (pc_current p) = Whitespace \<and> pc_remaining p = pc_current p' # pc_remaining p'"
  using assms
  by (cases "parser_step p"; cases "fst (parser_step p)")
     (auto simp: get_optional_space_def get_optional_token_def current_is_def dest!: step_remaining split: if_splits)

lemma mark_virtual_simps [simp]:
  "pc_current (mark_virtual_start_of_line p) = pc_current p"
  "pc_remaining (mark_virtual_start_of_line p) = pc_remaining p"
  "pc_quote_body_cursor (mark_virtual_start_of_line p) = pc_quote_body_cursor p"
  by (simp_all add: mark_virtual_start_of_line_def)

termination strip_body_quotes
  by (relation "measure (\<lambda>(_, _, p). length (pc_remaining p))")
     (auto dest!: step_remaining [OF sym] optional_space_cases [OF sym])

declare strip_body_quotes.simps [simp del]

definition prepare_quote_body_line :: "parser_cursor \<Rightarrow> quote_body_line_status step_result" where
  "prepare_quote_body_line p =
     (case pc_quote_body_cursor p of
        None \<Rightarrow> (Inr Inactive, p)
      | Some cursor \<Rightarrow>
          if et_token (pc_current p) = ParagraphBreak then (Inr Boundary, p)
          else if line_state cursor \<noteq> NeedPrefix then (Inr Prepared, p)
          else (case strip_body_quotes cursor (required_depth cursor) p of
                  Inl e \<Rightarrow> (Inl e, p)
                | Inr None \<Rightarrow> (Inr Boundary, p)
                | Inr (Some prepared) \<Rightarrow> (Inr Prepared, cursor_update p prepared)))"

text \<open>The depth of a quote token within the body and in all; a token shorter than what was removed of it is an underflow.\<close>

definition native_blockquote_depths :: "parser_cursor \<Rightarrow> nat \<Rightarrow> (nat \<times> nat) option" where
  "native_blockquote_depths p physical_depth =
     (let plain = Some (physical_depth, (case native_blockquote_depth p of Some d \<Rightarrow> d | None \<Rightarrow> 0) + physical_depth)
      in case pc_quote_body_cursor p of
           None \<Rightarrow> plain
         | Some cursor \<Rightarrow>
             (case line_state cursor of
                PreparedResidual token_start stripped_depth \<Rightarrow>
                  if token_start = et_start (pc_current p)
                  then if physical_depth < stripped_depth then None
                       else Some (physical_depth - stripped_depth, required_depth cursor + physical_depth - stripped_depth)
                  else plain
              | PreparedContent _ \<Rightarrow> Some (physical_depth, required_depth cursor + physical_depth)
              | NeedPrefix \<Rightarrow> plain))"

definition install_quote_body_cursor :: "nat \<Rightarrow> parser_cursor \<Rightarrow> parser_cursor" where
  "install_quote_body_cursor required p =
     p\<lparr>pc_quote_body_cursor :=
       Some \<lparr>required_depth = required, line_state = NeedPrefix, literal_residual_quotes = False\<rparr>\<rparr>"

definition install_quote_body_cursor_with_literal_residuals :: "nat \<Rightarrow> parser_cursor \<Rightarrow> parser_cursor" where
  "install_quote_body_cursor_with_literal_residuals required p =
     p\<lparr>pc_quote_body_cursor :=
       Some \<lparr>required_depth = required, line_state = NeedPrefix, literal_residual_quotes = True\<rparr>\<rparr>"

definition install_quote_body_cursor_at_current_line :: "nat \<Rightarrow> parser_cursor \<Rightarrow> parser_cursor" where
  "install_quote_body_cursor_at_current_line required p =
     p\<lparr>pc_quote_body_cursor :=
       Some \<lparr>required_depth = required, line_state = PreparedContent (et_start (pc_current p)),
             literal_residual_quotes = False\<rparr>\<rparr>"

definition install_quote_body_cursor_at_current_line_with_literal_residuals ::
    "nat \<Rightarrow> parser_cursor \<Rightarrow> parser_cursor" where
  "install_quote_body_cursor_at_current_line_with_literal_residuals required p =
     p\<lparr>pc_quote_body_cursor :=
       Some \<lparr>required_depth = required, line_state = PreparedContent (et_start (pc_current p)),
             literal_residual_quotes = True\<rparr>\<rparr>"

text \<open>No token starts at the greatest offset.\<close>

definition hold_quote_body_through_parent_break :: "parser_cursor \<Rightarrow> parser_cursor" where
  "hold_quote_body_through_parent_break p =
     p\<lparr>pc_quote_body_cursor :=
       map_option (line_state_update (\<lambda>_. PreparedContent (2 ^ 64 - 1))) (pc_quote_body_cursor p)\<rparr>"

definition set_quote_body_literal_residuals :: "bool \<Rightarrow> parser_cursor \<Rightarrow> parser_cursor" where
  "set_quote_body_literal_residuals literal p =
     p\<lparr>pc_quote_body_cursor := map_option (literal_residual_quotes_update (\<lambda>_. literal)) (pc_quote_body_cursor p)\<rparr>"

definition quote_body_literal_residuals :: "parser_cursor \<Rightarrow> bool option" where
  "quote_body_literal_residuals p = map_option literal_residual_quotes (pc_quote_body_cursor p)"

definition quote_body_required_depth :: "parser_cursor \<Rightarrow> nat option" where
  "quote_body_required_depth p = map_option required_depth (pc_quote_body_cursor p)"

definition prepared_content_start :: "parser_cursor \<Rightarrow> nat option" where
  "prepared_content_start p =
     (case pc_quote_body_cursor p of
        Some cursor \<Rightarrow> (case line_state cursor of PreparedContent content_start \<Rightarrow> Some content_start | _ \<Rightarrow> None)
      | None \<Rightarrow> None)"

definition quote_body_close_allowed_here :: "parser_cursor \<Rightarrow> bool" where
  "quote_body_close_allowed_here p \<longleftrightarrow> prepared_content_start p = Some (et_start (pc_current p))"

definition quote_body_needs_prefix :: "parser_cursor \<Rightarrow> bool" where
  "quote_body_needs_prefix p \<longleftrightarrow>
     (case pc_quote_body_cursor p of Some cursor \<Rightarrow> line_state cursor = NeedPrefix | None \<Rightarrow> False)"

text \<open>The line start is behind the last line feed, or the start of the text.\<close>

definition quote_body_line_is_empty_spaced :: "parser_cursor \<Rightarrow> bool" where
  "quote_body_line_is_empty_spaced p \<longleftrightarrow>
     et_token (pc_current p) = LineBreak \<and>
     (case prepared_content_start p of
        None \<Rightarrow> False
      | Some content_start \<Rightarrow>
          content_start = et_start (pc_current p) \<and>
          (let line = rev (takeWhile (\<lambda>c. c \<noteq> CHR 0x0A) (rev (take content_start (pc_full_text p))))
           in line \<noteq> [] \<and> (last line = CHR '' '' \<or> last line = CHR 0x09)))"


definition strip_trailing :: "(char \<Rightarrow> bool) \<Rightarrow> bytes \<Rightarrow> bytes" where
  "strip_trailing P s = rev (dropWhile P (rev s))"

definition is_ascii_space :: "char \<Rightarrow> bool" where
  "is_ascii_space c \<longleftrightarrow> c \<in> set [CHR '' '', CHR 0x09, CHR 0x0A, CHR 0x0C, CHR 0x0D]"

definition ends_with_tab_close :: "bytes \<Rightarrow> bool" where
  "ends_with_tab_close trimmed \<longleftrightarrow> eq_ignore_ascii_case (drop (length trimmed - 8) trimmed) ''[[/tab]]''"

definition quote_body_close_follows_only_literal_quotes :: "parser_cursor \<Rightarrow> bool" where
  "quote_body_close_follows_only_literal_quotes p \<longleftrightarrow>
     (case prepared_content_start p of
        None \<Rightarrow> False
      | Some content_start \<Rightarrow>
          quote_body_literal_residuals p = Some True \<and>
          content_start < et_start (pc_current p) \<and>
          (let prefix = slice (pc_full_text p) content_start (et_start (pc_current p))
           in CHR ''>'' \<in> set prefix \<and> list_all (\<lambda>c. c = CHR ''>'' \<or> is_ascii_space c) prefix))"

definition quote_body_close_follows_tab_close :: "parser_cursor \<Rightarrow> bool" where
  "quote_body_close_follows_tab_close p \<longleftrightarrow>
     (case prepared_content_start p of
        None \<Rightarrow> False
      | Some content_start \<Rightarrow>
          content_start < et_start (pc_current p) \<and>
          ends_with_tab_close
            (strip_trailing is_ascii_space (slice (pc_full_text p) content_start (et_start (pc_current p)))))"

definition wikidot_tabview_close_follows_tab_close :: "parser_cursor \<Rightarrow> nat \<Rightarrow> bool" where
  "wikidot_tabview_close_follows_tab_close p close_start \<longleftrightarrow>
     ends_with_tab_close (strip_trailing (\<lambda>c. is_ascii_space c \<or> c = CHR ''>'') (take close_start (pc_full_text p)))"

subsection \<open>Theorems on steps\<close>

lemma need_prefix_idem [simp]: "need_prefix (need_prefix c) = need_prefix c"
  by (cases c) (simp_all add: need_prefix_def)

lemma step_empty: "pc_remaining p = [] \<Longrightarrow> \<exists>e. parser_step p = (Inl e, p\<lparr>pc_start_of_line := token_starts_line (et_token (pc_current p)),
    pc_quote_body_cursor := (if break_token (pc_current p) then need_prefix (pc_quote_body_cursor p) else pc_quote_body_cursor p)\<rparr>)
    \<and> pe_kind e = EndOfInput"
  by (simp add: parser_step_def Let_def make_err_def parse_error_new_def)

lemma step_to_remaining_zero:
  "pc_remaining p = t # ts \<Longrightarrow> \<exists>p'. parser_step p = (Inr t, p') \<and> step_to_remaining 0 p = Some p'"
  by (simp add: parser_step_def step_to_remaining_def Let_def)

lemma step_to_remaining_Suc:
  assumes "parser_step p = (Inr t, p')"
  shows "step_to_remaining (Suc i) p = step_to_remaining i p'"
proof -
  obtain ts where r: "pc_remaining p = t # ts"
    using step_remaining [OF assms] by simp
  have p': "p' = p\<lparr>pc_start_of_line := token_starts_line (et_token (pc_current p)),
      pc_quote_body_cursor := (if break_token (pc_current p) then need_prefix (pc_quote_body_cursor p) else pc_quote_body_cursor p),
      pc_current := t, pc_remaining := ts\<rparr>"
    using assms r by (simp add: parser_step_def Let_def split: if_splits)
  show ?thesis
    using r by (cases i) (simp_all add: p' step_to_remaining_def Let_def)
qed

lemma step_n_in_range:
  "i < length (pc_remaining p) \<Longrightarrow> \<exists>p'. step_n (Suc i) p = (Inr (), p') \<and> step_to_remaining i p = Some p'"
proof (induction i arbitrary: p)
  case 0
  then show ?case
    using step_to_remaining_zero [of p] by (cases "pc_remaining p") auto
next
  case (Suc i)
  then obtain t ts where r: "pc_remaining p = t # ts" by (cases "pc_remaining p") auto
  obtain q where q: "parser_step p = (Inr t, q)"
    using step_to_remaining_zero [OF r] by blast
  have "i < length (pc_remaining q)"
    using Suc.prems step_remaining [OF q] by simp
  from Suc.IH [OF this] show ?case
    using step_to_remaining_Suc [OF q] by (simp only: step_n.simps q and_then_simps)
qed

lemma step_n_behind:
  "length (pc_remaining p) \<le> i \<Longrightarrow> \<exists>e p'. step_n (Suc i) p = (Inl e, p') \<and> pe_kind e = EndOfInput"
proof (induction i arbitrary: p)
  case 0
  then show ?case using step_empty [of p] by auto
next
  case (Suc i)
  show ?case
  proof (cases "pc_remaining p")
    case Nil
    then show ?thesis using step_empty [of p] by auto
  next
    case (Cons t ts)
    obtain q where q: "parser_step p = (Inr t, q)"
      using step_to_remaining_zero [OF Cons] by blast
    have "length (pc_remaining q) \<le> i"
      using Suc.prems step_remaining [OF q] by simp
    from Suc.IH [OF this] show ?thesis
      by (simp only: step_n.simps q and_then_simps)
  qed
qed

text \<open>
  The jump to a remaining token is the sequence of steps that ends at it: it leaves the same
  cursor, with the same start of line and the same state of the quoted body.  Where the jump has no
  such token, which would be a panic, the steps fail with the end of the input.
\<close>

theorem step_to_remaining_is_steps:
  "case step_to_remaining i p of
     Some p' \<Rightarrow> step_n (Suc i) p = (Inr (), p')
   | None \<Rightarrow> \<exists>e p'. step_n (Suc i) p = (Inl e, p') \<and> pe_kind e = EndOfInput"
proof (cases "i < length (pc_remaining p)")
  case True
  then show ?thesis using step_n_in_range [OF True] by auto
next
  case False
  then have "step_to_remaining i p = None"
    by (simp add: step_to_remaining_def)
  then show ?thesis using step_n_behind [of p i] False by auto
qed


text \<open>
  The jump to the end of the input is the jump to the last token, up to the state of a quoted body,
  which it leaves as it is.
\<close>

lemma jump_to_input_end_is_step:
  "pc_remaining p \<noteq> [] \<Longrightarrow>
     map_option (pc_quote_body_cursor_update (\<lambda>_. c)) (step_to_remaining (length (pc_remaining p) - 1) p) =
     Some (pc_quote_body_cursor_update (\<lambda>_. c) (jump_to_input_end p))"
  by (cases "pc_remaining p" rule: rev_cases)
     (auto simp: step_to_remaining_def jump_to_input_end_def Let_def numeral_2_eq_2 nth_append Suc_le_eq)

text \<open>The optional blanks are the longest run of them; a run up to the last token is an error.\<close>

lemma optional_spaces_run:
  "get_optional_spaces_any p = (Inr u, q) \<Longrightarrow>
     \<exists>blanks. pc_current p # pc_remaining p = blanks @ pc_current q # pc_remaining q \<and>
       list_all (\<lambda>t. is_optional_space_token (et_token t)) blanks \<and> \<not> is_optional_space_token (et_token (pc_current q))"
proof (induction p rule: get_optional_spaces_any.induct)
  case (1 p)
  show ?case
  proof (cases "is_optional_space_token (et_token (pc_current p))")
    case False
    then have "q = p" using "1.prems" by (simp add: get_optional_spaces_any.simps [of p])
    then show ?thesis using False by (intro exI [of _ "[]"]) simp
  next
    case True
    obtain t p' where s: "parser_step p = (Inr t, p')"
      using "1.prems" True by (cases "parser_step p"; cases "fst (parser_step p)")
        (auto simp: get_optional_spaces_any.simps [of p])
    then have "get_optional_spaces_any p' = (Inr u, q)"
      using "1.prems" True by (simp add: get_optional_spaces_any.simps [of p])
    then obtain blanks where "pc_current p' # pc_remaining p' = blanks @ pc_current q # pc_remaining q"
        "list_all (\<lambda>t. is_optional_space_token (et_token t)) blanks" "\<not> is_optional_space_token (et_token (pc_current q))"
      using "1.IH" [OF True s [symmetric] refl] by blast
    then show ?thesis using True step_remaining [OF s] by (intro exI [of _ "pc_current p # blanks"]) simp
  qed
qed

subsection \<open>Theorems on quoted bodies\<close>

definition quote_depth :: "extracted_token list \<Rightarrow> nat" where
  "quote_depth ts = sum_list (map (\<lambda>t. if et_token t = Quote then length (et_slice t) else 0) ts)"

lemma quote_depth_simps [simp]:
  "quote_depth [] = 0"
  "quote_depth (t # ts) = (if et_token t = Quote then length (et_slice t) else 0) + quote_depth ts"
  by (simp_all add: quote_depth_def)

definition quote_prefix_tokens :: "extracted_token list \<Rightarrow> bool" where
  "quote_prefix_tokens ts \<longleftrightarrow> list_all (\<lambda>t. et_token t = Quote \<or> et_token t = Whitespace) ts"

lemma quote_prefix_tokens_simps [simp]:
  "quote_prefix_tokens []"
  "quote_prefix_tokens (t # ts) \<longleftrightarrow> (et_token t = Quote \<or> et_token t = Whitespace) \<and> quote_prefix_tokens ts"
  by (simp_all add: quote_prefix_tokens_def)

text \<open>What a prepared line has used up for a required depth.\<close>

definition stripped_to :: "parser_cursor \<Rightarrow> quote_body_cursor \<Rightarrow> nat \<Rightarrow> parser_cursor \<Rightarrow> extracted_token list \<Rightarrow> bool" where
  "stripped_to p cursor required q eaten \<longleftrightarrow>
     pc_current p # pc_remaining p = eaten @ pc_current q # pc_remaining q \<and> quote_prefix_tokens eaten \<and>
     (\<exists>state. pc_quote_body_cursor q = Some (cursor\<lparr>line_state := state\<rparr>) \<and>
       (case state of
          NeedPrefix \<Rightarrow> False
        | PreparedContent content_start \<Rightarrow> content_start = et_start (pc_current q) \<and> quote_depth eaten = required
        | PreparedResidual token_start stripped \<Rightarrow>
            token_start = et_start (pc_current q) \<and> et_token (pc_current q) = Quote \<and>
            stripped < length (et_slice (pc_current q)) \<and> quote_depth eaten + stripped = required))"

lemma optional_space_eaten:
  assumes "parser_step p = (Inr t, p')" "get_optional_space p' = (Inr u, q)" "et_token (pc_current p) = Quote"
  shows "\<exists>eaten. pc_current p # pc_remaining p = eaten @ pc_current q # pc_remaining q \<and> quote_prefix_tokens eaten \<and>
     quote_depth eaten = length (et_slice (pc_current p))"
  using step_remaining [OF assms(1)] optional_space_cases [OF assms(2)] assms(3)
  by (elim disjE) (auto intro: exI [of _ "[pc_current p]"] exI [of _ "[pc_current p, pc_current p']"])

lemma stripped_to_trans:
  assumes "pc_current p # pc_remaining p = eaten @ pc_current p' # pc_remaining p'" "quote_prefix_tokens eaten"
    "quote_depth eaten = n" "stripped_to p' cursor (required - n) q eaten'" "n \<le> required"
  shows "stripped_to p cursor required q (eaten @ eaten')"
proof -
  have "quote_depth (eaten @ eaten') = n + quote_depth eaten'" "quote_prefix_tokens (eaten @ eaten') = quote_prefix_tokens eaten'"
    using assms(2,3) by (simp_all add: quote_depth_def quote_prefix_tokens_def)
  moreover obtain state where "pc_current p' # pc_remaining p' = eaten' @ pc_current q # pc_remaining q"
      "quote_prefix_tokens eaten'" "pc_quote_body_cursor q = Some (cursor\<lparr>line_state := state\<rparr>)"
      "case state of
          NeedPrefix \<Rightarrow> False
        | PreparedContent content_start \<Rightarrow> content_start = et_start (pc_current q) \<and> quote_depth eaten' = required - n
        | PreparedResidual token_start stripped \<Rightarrow>
            token_start = et_start (pc_current q) \<and> et_token (pc_current q) = Quote \<and>
            stripped < length (et_slice (pc_current q)) \<and> quote_depth eaten' + stripped = required - n"
    using assms(4) unfolding stripped_to_def by blast
  ultimately show ?thesis
    using assms(1,5) unfolding stripped_to_def
    by (intro conjI exI [of _ state]) (auto split: quote_line_state.splits)
qed

lemma strip_body_quotes_stripped:
  "strip_body_quotes cursor required p = Inr (Some q) \<Longrightarrow> \<exists>eaten. stripped_to p cursor required q eaten"
proof (induction cursor required p rule: strip_body_quotes.induct)
  case (1 cursor required p)
  define n where "n = length (et_slice (pc_current p))"
  have quote: "et_token (pc_current p) = Quote"
    using "1.prems" by (simp add: strip_body_quotes.simps [of _ _ p] split: if_splits)
  consider (less) "n < required" | (same) "n = required" | (more) "required < n" by linarith
  then show ?case
  proof cases
    case less
    obtain t p' u r where s: "parser_step p = (Inr t, p')" and o: "get_optional_space p' = (Inr u, r)"
      and rest: "strip_body_quotes cursor (required - n) (mark_virtual_start_of_line r) = Inr (Some q)"
      using "1.prems" quote less
      by (auto simp: strip_body_quotes.simps [of _ _ p] n_def [symmetric] split: prod.splits sum.splits)
    obtain eaten' where "stripped_to (mark_virtual_start_of_line r) cursor (required - n) q eaten'"
      using "1.IH" [of n] quote less s o rest n_def by fastforce
    moreover obtain eaten where "pc_current p # pc_remaining p = eaten @ pc_current r # pc_remaining r"
        "quote_prefix_tokens eaten" "quote_depth eaten = n"
      using optional_space_eaten [OF s o quote] n_def by blast
    ultimately show ?thesis
      using stripped_to_trans [of p eaten "mark_virtual_start_of_line r" n] less by fastforce
  next
    case same
    obtain t p' u r where s: "parser_step (mark_virtual_start_of_line p) = (Inr t, p')" and o: "get_optional_space p' = (Inr u, r)"
      and q: "pc_current q = pc_current r" "pc_remaining q = pc_remaining r"
        "pc_quote_body_cursor q = Some (cursor\<lparr>line_state := PreparedContent (et_start (pc_current r))\<rparr>)"
      using "1.prems" quote same
      by (auto simp: strip_body_quotes.simps [of _ _ p] n_def [symmetric] Let_def split: prod.splits sum.splits if_splits) 
    obtain eaten where "pc_current p # pc_remaining p = eaten @ pc_current r # pc_remaining r"
        "quote_prefix_tokens eaten" "quote_depth eaten = n"
      using optional_space_eaten [OF s o] quote n_def by auto
    then show ?thesis using q same unfolding stripped_to_def by (intro exI [of _ eaten]) auto
  next
    case more
    then have "q = (mark_virtual_start_of_line p)\<lparr>pc_quote_body_cursor :=
        Some (cursor\<lparr>line_state := PreparedResidual (et_start (pc_current p)) required\<rparr>)\<rparr>"
      using "1.prems" quote by (simp add: strip_body_quotes.simps [of _ _ p] n_def [symmetric] Let_def)
    then show ?thesis using more quote unfolding stripped_to_def
      by (intro exI [of _ "[]"] conjI exI [of _ "PreparedResidual (et_start (pc_current p)) required"]) (simp_all add: n_def)
  qed
qed


text \<open>
  C31: Preparing a line of a quoted body is all or nothing.  When the status is not \<open>Prepared\<close>, the
  parser is as it was.  When it is, on a line that needed its prefix, the parser has gone over quotes
  and blanks only, whose depth with the part removed of the current quote token is exactly the depth
  of the body, which stays required; the position noted is that of the current token.  When a quote
  token is left over, its depth in all is that of the quotes of the line, and never underflows.
\<close>

theorem prepare_quote_body_line_exact:
  assumes "pc_quote_body_cursor p = Some cursor" "line_state cursor = NeedPrefix"
    "prepare_quote_body_line p = (r, p')"
  shows "if r = Inr Prepared
         then \<exists>eaten. stripped_to p cursor (required_depth cursor) p' eaten \<and>
           (et_token (pc_current p') = Quote \<longrightarrow> quote_body_close_allowed_here p' \<or>
             (\<exists>inner. native_blockquote_depths p' (length (et_slice (pc_current p'))) =
                Some (inner, quote_depth eaten + length (et_slice (pc_current p'))) \<and> inner > 0))
         else p' = p"
proof (cases "r = Inr Prepared")
  case False
  then have "p' = p"
    using assms by (auto simp: prepare_quote_body_line_def split: if_splits sum.splits option.splits)
  then show ?thesis using False by simp
next
  case True
  then obtain q where q: "strip_body_quotes cursor (required_depth cursor) p = Inr (Some q)" "p' = cursor_update p q"
    using assms by (auto simp: prepare_quote_body_line_def split: if_splits sum.splits option.splits)
  from strip_body_quotes_stripped [OF q(1)] obtain eaten where
    "stripped_to p cursor (required_depth cursor) q eaten" by blast
  then have eaten: "stripped_to p cursor (required_depth cursor) p' eaten"
    unfolding stripped_to_def q(2) cursor_update_simps .
  then obtain state where state: "pc_quote_body_cursor p' = Some (cursor\<lparr>line_state := state\<rparr>)"
      "case state of
          NeedPrefix \<Rightarrow> False
        | PreparedContent content_start \<Rightarrow> content_start = et_start (pc_current p') \<and> quote_depth eaten = required_depth cursor
        | PreparedResidual token_start stripped \<Rightarrow>
            token_start = et_start (pc_current p') \<and> et_token (pc_current p') = Quote \<and>
            stripped < length (et_slice (pc_current p')) \<and> quote_depth eaten + stripped = required_depth cursor"
    unfolding stripped_to_def by blast
  have "quote_body_close_allowed_here p' \<or>
        (\<exists>inner. native_blockquote_depths p' (length (et_slice (pc_current p'))) =
           Some (inner, quote_depth eaten + length (et_slice (pc_current p'))) \<and> inner > 0)"
    using state by (cases state)
      (auto simp: quote_body_close_allowed_here_def prepared_content_start_def native_blockquote_depths_def)
  then show ?thesis using True eaten by auto
qed

lemma prepare_quote_body_line_exact_witness:
  "let t = (\<lambda>tok s i. \<lparr>et_token = tok, et_slice = s, et_start = i, et_end = i + length s\<rparr>);
       p = the (parser_new ''> >> x'' True True [t Quote ''>'' 0, t Whitespace '' '' 1, t Quote ''>>'' 2, t InputEnd [] 6] 8);
       q = snd (prepare_quote_body_line (install_quote_body_cursor 2 p))
   in \<exists>eaten. stripped_to (install_quote_body_cursor 2 p)
        \<lparr>required_depth = 2, line_state = NeedPrefix, literal_residual_quotes = False\<rparr> 2 q eaten \<and>
      native_blockquote_depths q 2 = Some (1, 3)"
proof -
  let ?t = "\<lambda>tok s i. \<lparr>et_token = tok, et_slice = s, et_start = i, et_end = i + length s\<rparr>"
  let ?p = "the (parser_new ''> >> x'' True True [?t Quote ''>'' 0, ?t Whitespace '' '' 1, ?t Quote ''>>'' 2, ?t InputEnd [] 6] 8)"
  let ?q = "install_quote_body_cursor 2 ?p"
  have r: "fst (prepare_quote_body_line ?q) = Inr Prepared" "native_blockquote_depths (snd (prepare_quote_body_line ?q)) 2 = Some (1, 3)"
    by (simp_all add: parser_new_def install_quote_body_cursor_def prepare_quote_body_line_def strip_body_quotes.simps
        parser_step_def break_token_def get_optional_space_def get_optional_token_def current_is_def need_prefix_def
        mark_virtual_start_of_line_def native_blockquote_depths_def cursor_update_def Let_def)
  have c: "pc_quote_body_cursor ?q = Some \<lparr>required_depth = 2, line_state = NeedPrefix, literal_residual_quotes = False\<rparr>"
    by (simp add: install_quote_body_cursor_def)
  show ?thesis
    using prepare_quote_body_line_exact [OF c, of "fst (prepare_quote_body_line ?q)" "snd (prepare_quote_body_line ?q)"] r
    by (auto simp: Let_def)
qed

text \<open>A depth that is set is read again; the greatest value of thirty-two bits stands for no depth.\<close>

lemma native_blockquote_depth_set:
  "native_blockquote_depth (set_native_blockquote_depth None p) = None"
  "n < 2 ^ 32 - 1 \<Longrightarrow> native_blockquote_depth (set_native_blockquote_depth (Some n) p) = Some n"
  "2 ^ 32 \<le> n \<Longrightarrow> native_blockquote_depth (set_native_blockquote_depth (Some n) p) = Some (2 ^ 32 - 2)"
  "native_blockquote_depth (set_native_blockquote_depth (Some (2 ^ 32 - 1)) p) = None"
proof -
  assume n: "n < 2 ^ 32 - 1"
  have "unat (of_nat n :: u32) = n" using n by (simp add: unat_of_nat)
  moreover have "unat (- 1 :: u32) = 2 ^ 32 - 1" by (simp add: unat_eq_nat_uint uint_word_ariths)
  ultimately have "(of_nat n :: u32) \<noteq> - 1" "unat (of_nat n :: u32) = n" using n by auto
  then show "native_blockquote_depth (set_native_blockquote_depth (Some n) p) = Some n"
    using n by (simp add: native_blockquote_depth_def set_native_blockquote_depth_def NATIVE_BLOCKQUOTE_DEPTH_NONE_def)
qed (simp_all add: native_blockquote_depth_def set_native_blockquote_depth_def NATIVE_BLOCKQUOTE_DEPTH_NONE_def)

end
