(* ===== verification/Bibliography.thy ===== *)
theory Bibliography
  imports Prelude "HOL-Library.AList"
begin

text \<open>
  Bibliographies (\<open>tree/bibliography.rs\<close>): the entries with their labels, the index from labels to
  the latest definition and the numbers that are printed.  Elements and wrappers are carried along
  only, so their types are variables.  The index is a hash map of which the code uses lookup,
  insertion and size: here an association list with distinct keys.
\<close>

subsection \<open>Bibliographies\<close>

definition RESIDUAL_LABEL :: bytes where "RESIDUAL_LABEL = [CHR 0x00]"

definition NESTED_LABEL_PREFIX :: bytes where
  "NESTED_LABEL_PREFIX = [CHR 0x01] @ ''nested'' @ [CHR 0x01]"

type_synonym 'e bib_entry = "bytes \<times> 'e list"

record ('e, 'w) bibliography =
  bib_entries :: "'e bib_entry list"
  bib_index :: "(bytes \<times> (nat \<times> nat)) list"
  bib_citations :: "nat list"
  bib_reopened_wrappers :: "'w list list"
  bib_title_wrappers :: "'w list"
  bib_split_tail_next :: nat

definition bibliography_new :: "('e, 'w) bibliography" where
  "bibliography_new =
     \<lparr>bib_entries = [], bib_index = [], bib_citations = [], bib_reopened_wrappers = [], bib_title_wrappers = [],
      bib_split_tail_next = 0\<rparr>"

definition is_residual :: "bytes \<Rightarrow> bool" where
  "is_residual label \<longleftrightarrow> label = RESIDUAL_LABEL"

definition is_nested :: "bytes \<Rightarrow> bool" where
  "is_nested label \<longleftrightarrow> take (length NESTED_LABEL_PREFIX) label = NESTED_LABEL_PREFIX"

definition real_label :: "bytes \<Rightarrow> bytes" where
  "real_label label = (if is_nested label then drop (length NESTED_LABEL_PREFIX) label else label)"

text \<open>The index and the citations of the entries from a position on, added to those before it.\<close>

fun rebuild_loop :: "nat \<Rightarrow> 'e bib_entry list \<Rightarrow> (bytes \<times> (nat \<times> nat)) list \<Rightarrow> nat list \<Rightarrow>
    (bytes \<times> (nat \<times> nat)) list \<times> nat list" where
  "rebuild_loop position [] idx citations = (idx, citations)"
| "rebuild_loop position ((label, _) # es) idx citations =
     (if is_residual label then rebuild_loop (Suc position) es idx (citations @ [0])
      else let citation = length idx + 1
           in rebuild_loop (Suc position) es (AList.update (real_label label) (citation, position) idx)
                (citations @ [citation]))"

definition rebuild_label_index :: "('e, 'w) bibliography \<Rightarrow> ('e, 'w) bibliography" where
  "rebuild_label_index b =
     (case rebuild_loop 0 (bib_entries b) [] [] of
        (idx, citations) \<Rightarrow> b\<lparr>bib_index := idx, bib_citations := citations\<rparr>)"

definition from_entries :: "'e bib_entry list \<Rightarrow> ('e, 'w) bibliography" where
  "from_entries es = rebuild_label_index (bibliography_new\<lparr>bib_entries := es\<rparr>)"

definition citation_at :: "('e, 'w) bibliography \<Rightarrow> nat \<Rightarrow> nat" where
  "citation_at b position = (if position < length (bib_citations b) then bib_citations b ! position else 0)"

definition bib_add :: "bytes \<Rightarrow> 'e list \<Rightarrow> ('e, 'w) bibliography \<Rightarrow> ('e, 'w) bibliography" where
  "bib_add label elements b =
     (let citation = length (bib_index b) + 1; position = length (bib_entries b)
      in b\<lparr>bib_index := AList.update label (citation, position) (bib_index b),
           bib_citations := bib_citations b @ [citation],
           bib_entries := bib_entries b @ [(label, elements)]\<rparr>)"

definition bib_add_residual :: "'e \<Rightarrow> ('e, 'w) bibliography \<Rightarrow> ('e, 'w) bibliography" where
  "bib_add_residual element b =
     (if bib_entries b \<noteq> [] \<and> is_residual (fst (last (bib_entries b)))
      then b\<lparr>bib_entries := butlast (bib_entries b) @
               [(fst (last (bib_entries b)), snd (last (bib_entries b)) @ [element])]\<rparr>
      else b\<lparr>bib_citations := bib_citations b @ [0], bib_entries := bib_entries b @ [(RESIDUAL_LABEL, [element])]\<rparr>)"

definition bib_add_nested :: "bytes \<Rightarrow> ('e, 'w) bibliography \<Rightarrow> nat \<times> ('e, 'w) bibliography" where
  "bib_add_nested label b =
     (let citation = length (bib_index b) + 1; position = length (bib_entries b)
      in (citation, b\<lparr>bib_index := AList.update label (citation, position) (bib_index b),
           bib_citations := bib_citations b @ [citation],
           bib_entries := bib_entries b @ [(NESTED_LABEL_PREFIX @ label, [])]\<rparr>))"

definition allocate_split_tail_citation :: "('e, 'w) bibliography \<Rightarrow> nat \<times> ('e, 'w) bibliography" where
  "allocate_split_tail_citation b =
     (let citation =
        (if bib_split_tail_next b = 0
         then length (filter (\<lambda>(label, _). \<not> is_residual label \<and> \<not> is_nested label) (bib_entries b)) + 1
         else bib_split_tail_next b)
      in (citation, b\<lparr>bib_split_tail_next := citation + 1\<rparr>))"

fun scan_entries :: "('e, 'w) bibliography \<Rightarrow> bytes \<Rightarrow> nat \<Rightarrow> 'e bib_entry list \<Rightarrow> (nat \<times> 'e list) option \<Rightarrow>
    (nat \<times> 'e list) option" where
  "scan_entries b label position [] latest = latest"
| "scan_entries b label position ((ref_label, elements) # es) latest =
     scan_entries b label (Suc position) es
       (if \<not> is_residual ref_label \<and> label = real_label ref_label then Some (citation_at b position, elements) else latest)"

definition get_by_scan :: "('e, 'w) bibliography \<Rightarrow> bytes \<Rightarrow> (nat \<times> 'e list) option" where
  "get_by_scan b label = scan_entries b label 0 (bib_entries b) None"

definition bib_get :: "('e, 'w) bibliography \<Rightarrow> bytes \<Rightarrow> (nat \<times> 'e list) option" where
  "bib_get b label =
     (case map_of (bib_index b) label of
        Some (citation, position) \<Rightarrow>
          if position < length (bib_entries b) \<and> fst (bib_entries b ! position) = label
          then Some (citation, snd (bib_entries b ! position))
          else get_by_scan b label
      | None \<Rightarrow> get_by_scan b label)"

definition bib_reopened_at :: "('e, 'w) bibliography \<Rightarrow> nat \<Rightarrow> 'w list" where
  "bib_reopened_at b i = (if i < length (bib_reopened_wrappers b) then bib_reopened_wrappers b ! i else [])"

text \<open>A deep copy: the next split citation starts afresh.\<close>

definition bib_to_owned :: "('e, 'w) bibliography \<Rightarrow> ('e, 'w) bibliography" where
  "bib_to_owned b =
     (from_entries (bib_entries b))
       \<lparr>bib_reopened_wrappers := bib_reopened_wrappers b, bib_title_wrappers := bib_title_wrappers b\<rparr>"

subsection \<open>Lists of bibliographies\<close>

type_synonym ('e, 'w) bibliography_list = "('e, 'w) bibliography list"

definition bib_list_push :: "('e, 'w) bibliography \<Rightarrow> ('e, 'w) bibliography_list \<Rightarrow> ('e, 'w) bibliography_list" where
  "bib_list_push b bs = bs @ [b]"

definition bib_list_append :: "('e, 'w) bibliography_list \<Rightarrow> ('e, 'w) bibliography_list \<Rightarrow>
    ('e, 'w) bibliography_list \<times> ('e, 'w) bibliography_list" where
  "bib_list_append bs other = (bs @ other, [])"

definition next_index :: "('e, 'w) bibliography_list \<Rightarrow> nat" where
  "next_index bs = length bs"

fun get_reference :: "('e, 'w) bibliography_list \<Rightarrow> bytes \<Rightarrow> (nat \<times> 'e list) option" where
  "get_reference [] label = None"
| "get_reference (b # bs) label =
     (case bib_get b label of Some found \<Rightarrow> Some found | None \<Rightarrow> get_reference bs label)"

definition get_bibliography :: "('e, 'w) bibliography_list \<Rightarrow> nat \<Rightarrow> ('e, 'w) bibliography option" where
  "get_bibliography bs i = (if i < length bs then Some (bs ! i) else None)"


subsection \<open>The meaning of the index\<close>

text \<open>whether an entry defines a label, the labels defined, and the number and place that a label refers to.\<close>

definition defines_as :: "'e bib_entry \<Rightarrow> bytes \<Rightarrow> bool" where
  "defines_as entry label \<longleftrightarrow> \<not> is_residual (fst entry) \<and> real_label (fst entry) = label"

definition defined_labels :: "'e bib_entry list \<Rightarrow> bytes set" where
  "defined_labels es = {label. \<exists>entry \<in> set es. defines_as entry label}"

definition citation_of :: "'e bib_entry list \<Rightarrow> nat \<Rightarrow> nat" where
  "citation_of es position =
     (if is_residual (fst (es ! position)) then 0 else card (defined_labels (take position es)) + 1)"

definition latest_definition :: "'e bib_entry list \<Rightarrow> bytes \<Rightarrow> nat option" where
  "latest_definition es label = find (\<lambda>p. defines_as (es ! p) label) (rev [0..<length es])"

lemma defined_labels_simps [simp]:
  "defined_labels [] = {}"
  "defined_labels (es @ [entry]) = defined_labels es \<union> {label. defines_as entry label}"
  by (auto simp: defined_labels_def)

lemma defined_labels_nth: "label \<in> defined_labels es \<longleftrightarrow> (\<exists>p < length es. defines_as (es ! p) label)"
  by (simp add: defined_labels_def list_ex_iff [symmetric] list_ex_length)

lemma defined_labels_fst: "defined_labels es = {label. \<exists>l \<in> set (map fst es). \<not> is_residual l \<and> real_label l = label}"
  by (auto simp: defined_labels_def defines_as_def)

lemma find_cong_list: "(\<And>x. x \<in> set xs \<Longrightarrow> P x = Q x) \<Longrightarrow> find P xs = find Q xs"
  by (induction xs) auto

lemma latest_definition_simps [simp]:
  "latest_definition [] label = None"
  "latest_definition (es @ [entry]) label =
     (if defines_as entry label then Some (length es) else latest_definition es label)"
proof -
  have "find (\<lambda>p. defines_as ((es @ [entry]) ! p) label) (rev [0..<length es]) =
      find (\<lambda>p. defines_as (es ! p) label) (rev [0..<length es])"
    by (rule find_cong_list) (simp add: nth_append)
  then show "latest_definition (es @ [entry]) label =
     (if defines_as entry label then Some (length es) else latest_definition es label)"
    by (simp add: latest_definition_def)
qed (simp add: latest_definition_def)

lemma citation_of_append [simp]: "p < length es \<Longrightarrow> citation_of (es @ fs) p = citation_of es p"
  by (simp add: citation_of_def nth_append)

lemma latest_definition_less: "latest_definition es label = Some p \<Longrightarrow> p < length es \<and> defines_as (es ! p) label"
  by (auto simp: latest_definition_def find_Some_iff rev_nth)

lemma latest_definition_None: "latest_definition es label = None \<longleftrightarrow> label \<notin> defined_labels es"
  by (auto simp: latest_definition_def find_None_iff defined_labels_nth)

text \<open>The index and the citations that belong to a list of entries.\<close>

definition indexes :: "'e bib_entry list \<Rightarrow> (bytes \<times> (nat \<times> nat)) list \<Rightarrow> nat list \<Rightarrow> bool" where
  "indexes es idx citations \<longleftrightarrow>
     distinct (map fst idx) \<and>
     (\<forall>label. map_of idx label = map_option (\<lambda>p. (citation_of es p, p)) (latest_definition es label)) \<and>
     citations = map (citation_of es) [0..<length es]"

lemma indexes_length:
  assumes "indexes es idx citations"
  shows "length idx = card (defined_labels es)"
proof -
  have "set (map fst idx) = defined_labels es"
  proof (intro set_eqI)
    fix label
    have "label \<notin> set (map fst idx) \<longleftrightarrow> map_of idx label = None"
      by (simp add: map_of_eq_None_iff)
    also have "\<dots> \<longleftrightarrow> label \<notin> defined_labels es"
      using assms by (simp add: indexes_def latest_definition_None)
    finally show "label \<in> set (map fst idx) \<longleftrightarrow> label \<in> defined_labels es" by blast
  qed
  then show ?thesis
    using assms by (metis indexes_def distinct_card length_map)
qed

lemma indexes_Nil [simp]: "indexes [] [] []"
  by (simp add: indexes_def)

lemma map_citations_snoc:
  "map (citation_of (es @ [entry])) [0..<length (es @ [entry])] =
     map (citation_of es) [0..<length es] @ [citation_of (es @ [entry]) (length es)]"
  by simp

lemma indexes_define:
  assumes "indexes es idx citations" "defines_as entry label"
  shows "indexes (es @ [entry]) (AList.update label (length idx + 1, length es) idx) (citations @ [length idx + 1])"
proof -
  have "\<not> is_residual (fst entry)" using assms(2) by (simp add: defines_as_def)
  then have c: "citation_of (es @ [entry]) (length es) = length idx + 1"
    using indexes_length [OF assms(1)] by (simp add: citation_of_def)
  have other: "defines_as entry l \<longleftrightarrow> l = label" for l
    using assms(2) by (auto simp: defines_as_def)
  have "map_of (AList.update label (length idx + 1, length es) idx) l =
      map_option (\<lambda>p. (citation_of (es @ [entry]) p, p)) (latest_definition (es @ [entry]) l)" for l
    using assms(1) c latest_definition_less [of es l]
    by (cases "latest_definition es l") (simp_all add: update_conv' other indexes_def)
  then show ?thesis
    using assms(1) c unfolding indexes_def map_citations_snoc by (simp add: distinct_update)
qed

lemma indexes_residual:
  assumes "indexes es idx citations" "is_residual (fst entry)"
  shows "indexes (es @ [entry]) idx (citations @ [0])"
proof -
  have none: "\<not> defines_as entry l" for l using assms(2) by (simp add: defines_as_def)
  have c: "citation_of (es @ [entry]) (length es) = 0"
    using assms(2) by (simp add: citation_of_def)
  have "map_of idx l = map_option (\<lambda>p. (citation_of (es @ [entry]) p, p)) (latest_definition (es @ [entry]) l)" for l
    using assms(1) latest_definition_less [of es l]
    by (cases "latest_definition es l") (simp_all add: none indexes_def)
  then show ?thesis
    using assms(1) c unfolding indexes_def map_citations_snoc by simp
qed

text \<open>Only the labels of the entries count.\<close>

lemma defines_label: "fst e = fst e' \<Longrightarrow> defines_as e = defines_as e'"
  by (simp add: defines_as_def fun_eq_iff)

lemma indexes_labels:
  assumes "map fst es = map fst fs"
  shows "indexes es = indexes fs"
proof -
  have len: "length es = length fs" using assms by (metis length_map)
  have nth: "fst (es ! p) = fst (fs ! p)" if "p < length fs" for p
    using that assms len by (metis nth_map)
  have d: "defines_as (es ! p) = defines_as (fs ! p)" if "p < length fs" for p
    using defines_label [OF nth [OF that]] .
  have latest: "latest_definition es = latest_definition fs"
    unfolding latest_definition_def len fun_eq_iff
    by (intro allI find_cong_list) (simp add: d)
  have "defined_labels (take p es) = defined_labels (take p fs)" if "p \<le> length fs" for p
    using assms by (simp add: defined_labels_fst take_map [symmetric])
  then have "citation_of es p = citation_of fs p" if "p < length fs" for p
    using that nth by (simp add: citation_of_def)
  moreover have "latest_definition fs l = Some p \<Longrightarrow> p < length fs" for l p
    using latest_definition_less by blast
  ultimately have "map_option (\<lambda>p. (citation_of es p, p)) (latest_definition es l) =
        map_option (\<lambda>p. (citation_of fs p, p)) (latest_definition fs l)"
      "map (citation_of es) [0..<length es] = map (citation_of fs) [0..<length fs]" for l
    by (cases "latest_definition fs l"; simp add: latest len)+
  then show ?thesis by (simp add: indexes_def fun_eq_iff)
qed


subsection \<open>Operations keep the index\<close>

definition bib_ok :: "('e, 'w) bibliography \<Rightarrow> bool" where
  "bib_ok b \<longleftrightarrow> indexes (bib_entries b) (bib_index b) (bib_citations b)"

datatype 'e bib_operation = AddEntry bytes "'e list" | AddResidual 'e | AddNested bytes | AllocateSplitTail

fun bib_apply :: "'e bib_operation \<Rightarrow> ('e, 'w) bibliography \<Rightarrow> ('e, 'w) bibliography" where
  "bib_apply (AddEntry label elements) b = bib_add label elements b"
| "bib_apply (AddResidual element) b = bib_add_residual element b"
| "bib_apply (AddNested label) b = snd (bib_add_nested label b)"
| "bib_apply AllocateSplitTail b = snd (allocate_split_tail_citation b)"

text \<open>
  An added label that is none of the two marks: the lone character U+0000, or one that starts with the
  mark of nested entries.  The code does not check this, and the preprocessor keeps both characters.
\<close>

fun plain_operation :: "'e bib_operation \<Rightarrow> bool" where
  "plain_operation (AddEntry label _) \<longleftrightarrow> \<not> is_residual label \<and> \<not> is_nested label"
| "plain_operation _ \<longleftrightarrow> True"

lemma nested_label [simp]:
  "is_nested (NESTED_LABEL_PREFIX @ label)"
  "real_label (NESTED_LABEL_PREFIX @ label) = label"
  "\<not> is_residual (NESTED_LABEL_PREFIX @ label)"
  by (simp_all add: is_nested_def real_label_def is_residual_def RESIDUAL_LABEL_def NESTED_LABEL_PREFIX_def)

lemma bib_ok_apply: "bib_ok b \<Longrightarrow> plain_operation op \<Longrightarrow> bib_ok (bib_apply op b)"
proof (cases op)
  case (AddEntry label elements)
  assume "bib_ok b" "plain_operation op"
  then show ?thesis
    using indexes_define [of "bib_entries b" "bib_index b" "bib_citations b" "(label, elements)" label]
    by (simp add: AddEntry bib_ok_def bib_add_def defines_as_def real_label_def Let_def)
next
  case (AddNested label)
  assume "bib_ok b"
  then show ?thesis
    using indexes_define [of "bib_entries b" "bib_index b" "bib_citations b" "(NESTED_LABEL_PREFIX @ label, [])" label]
    by (simp add: AddNested bib_ok_def bib_add_nested_def defines_as_def Let_def)
next
  case (AddResidual element)
  assume ok: "bib_ok b"
  show ?thesis
  proof (cases "bib_entries b \<noteq> [] \<and> is_residual (fst (last (bib_entries b)))")
    case True
    then have "map fst (bib_entries (bib_add_residual element b)) = map fst (bib_entries b)"
      by (cases "bib_entries b" rule: rev_cases) (simp_all add: bib_add_residual_def)
    then show ?thesis
      using ok True indexes_labels [of "bib_entries (bib_add_residual element b)" "bib_entries b"]
      by (simp add: AddResidual bib_ok_def) (simp add: bib_add_residual_def)
  next
    case False
    then show ?thesis
      using ok indexes_residual [of "bib_entries b" "bib_index b" "bib_citations b" "(RESIDUAL_LABEL, [element])"]
      by (auto simp: AddResidual bib_ok_def bib_add_residual_def is_residual_def)
  qed
next
  case AllocateSplitTail
  assume "bib_ok b"
  then show ?thesis by (simp add: AllocateSplitTail bib_ok_def allocate_split_tail_citation_def Let_def)
qed

lemma rebuild_loop_indexes:
  "indexes es idx citations \<Longrightarrow> length es = position \<Longrightarrow>
     (case rebuild_loop position fs idx citations of (idx', citations') \<Rightarrow> indexes (es @ fs) idx' citations')"
proof (induction fs arbitrary: es position idx citations)
  case (Cons f fs)
  obtain label elements where f: "f = (label, elements)" by (cases f)
  show ?case
  proof (cases "is_residual label")
    case True
    then have "indexes (es @ [f]) idx (citations @ [0])"
      using indexes_residual [OF Cons.prems(1)] by (simp add: f)
    from Cons.IH [OF this, of "Suc position"] show ?thesis
      using Cons.prems(2) True by (simp add: f)
  next
    case False
    then have "indexes (es @ [f]) (AList.update (real_label label) (length idx + 1, length es) idx) (citations @ [length idx + 1])"
      using indexes_define [OF Cons.prems(1), of f "real_label label"] by (simp add: f defines_as_def)
    from Cons.IH [OF this, of "Suc position"] show ?thesis
      using Cons.prems(2) False by (simp add: f Let_def)
  qed
qed simp

lemma bib_ok_from_entries: "bib_ok (from_entries es)" "bib_entries (from_entries es) = es"
  using rebuild_loop_indexes [of "[]" "[]" "[]" 0 es]
  by (auto simp: from_entries_def rebuild_label_index_def bibliography_new_def bib_ok_def split: prod.splits)

lemma bib_ok_new [simp]: "bib_ok bibliography_new"
  by (simp add: bib_ok_def bibliography_new_def)

lemma bib_ok_fold: "bib_ok b \<Longrightarrow> list_all plain_operation ops \<Longrightarrow> bib_ok (fold bib_apply ops b)"
  by (induction ops arbitrary: b) (simp_all add: bib_ok_apply)

lemma scan_entries_latest:
  assumes "bib_citations b = map (citation_of (es @ fs)) [0..<length (es @ fs)]"
    "latest = map_option (\<lambda>p. (citation_of (es @ fs) p, snd (es ! p))) (latest_definition es label)"
    "position = length es"
  shows "scan_entries b label position fs latest =
    map_option (\<lambda>p. (citation_of (es @ fs) p, snd ((es @ fs) ! p))) (latest_definition (es @ fs) label)"
  using assms
proof (induction fs arbitrary: es position latest)
  case Nil
  then show ?case by simp
next
  case (Cons f fs)
  obtain ref_label elements where f: "f = (ref_label, elements)" by (cases f)
  let ?es = "es @ [f]"
  have d: "defines_as f label \<longleftrightarrow> \<not> is_residual ref_label \<and> label = real_label ref_label"
    by (auto simp: defines_as_def f)
  have at: "citation_at b position = citation_of (es @ f # fs) (length es)"
    using Cons.prems by (simp add: citation_at_def nth_append)
  have "(if defines_as f label then Some (citation_at b position, elements) else latest) =
      map_option (\<lambda>p. (citation_of (?es @ fs) p, snd (?es ! p))) (latest_definition ?es label)"
    using Cons.prems(2) latest_definition_less [of es label] at
    by (cases "latest_definition es label") (auto simp: nth_append f)
  from Cons.IH [OF _ this, of "Suc position"]
  have "scan_entries b label (Suc position) fs (if defines_as f label then Some (citation_at b position, elements) else latest) =
    map_option (\<lambda>p. (citation_of (es @ f # fs) p, snd ((es @ f # fs) ! p))) (latest_definition (es @ f # fs) label)"
    using Cons.prems(1,3) by simp
  then show ?case unfolding d by (simp only: f scan_entries.simps)
qed

lemma bib_get_latest:
  assumes "bib_ok b"
  shows "bib_get b label =
    map_option (\<lambda>p. (citation_of (bib_entries b) p, snd (bib_entries b ! p))) (latest_definition (bib_entries b) label)"
proof -
  have "get_by_scan b label =
    map_option (\<lambda>p. (citation_of (bib_entries b) p, snd (bib_entries b ! p))) (latest_definition (bib_entries b) label)"
    using scan_entries_latest [of b "[]" "bib_entries b" None label 0] assms
    by (simp add: get_by_scan_def bib_ok_def indexes_def)
  then show ?thesis
    using assms by (cases "latest_definition (bib_entries b) label") (auto simp: bib_get_def bib_ok_def indexes_def)
qed

lemma citation_at_ok:
  assumes "bib_ok b"
  shows "citation_at b position = (if position < length (bib_entries b) then citation_of (bib_entries b) position else 0)"
proof -
  have "bib_citations b = map (citation_of (bib_entries b)) [0..<length (bib_entries b)]"
    using assms by (simp add: bib_ok_def indexes_def)
  then show ?thesis by (simp add: citation_at_def)
qed

text \<open>
  C37: Whatever entries, residues and nested entries a bibliography is built from, as long as the label
  of no entry is U+0000 alone or starts with U+0001 nested U+0001, a lookup of any label answers the
  last definition of the label with its elements and its number, which is one more than the number of
  distinct labels defined before it; the number printed for each definition is the same number, and a
  residue has none.
\<close>

theorem bibliography_lookup_exact:
  assumes "list_all plain_operation ops"
  shows "let b = fold bib_apply ops (bibliography_new :: ('e, 'w) bibliography); es = bib_entries b
     in bib_get b label = map_option (\<lambda>p. (citation_of es p, snd (es ! p))) (latest_definition es label) \<and>
        citation_at b position = (if position < length es then citation_of es position else 0)"
proof -
  let ?b = "fold bib_apply ops (bibliography_new :: ('e, 'w) bibliography)"
  have ok: "bib_ok ?b" using assms by (simp add: bib_ok_fold)
  then have "citation_at ?b position = (if position < length (bib_entries ?b) then citation_of (bib_entries ?b) position else 0)"
    by (rule citation_at_ok)
  then show ?thesis using bib_get_latest [OF ok] by (simp add: Let_def)
qed

text \<open>
  The condition on the labels is needed: an author can write a label with the mark, and then the
  original answers the first definition, and a copy of it the last.
\<close>

lemma marked_label_collides:
  "let b = fold bib_apply [AddEntry ''a'' [''first''], AddEntry (NESTED_LABEL_PREFIX @ ''a'') [''second'']]
         (bibliography_new :: (string, unit) bibliography)
   in bib_get b ''a'' = Some (1, [''first'']) \<and> latest_definition (bib_entries b) ''a'' = Some 1 \<and>
      bib_get (bib_to_owned b) ''a'' = Some (2, [''second''])"
  by code_simp

definition example_operations :: "string bib_operation list" where
  "example_operations =
     [AddEntry ''bell'' [''first''], AddResidual ''tail'', AddEntry ''bell'' [''second''], AddNested ''guy'']"

lemma bibliography_lookup_exact_witness:
  "bib_get (fold bib_apply example_operations bibliography_new :: (string, unit) bibliography) ''bell'' = Some (2, [''second''])"
proof -
  let ?b = "fold bib_apply example_operations bibliography_new :: (string, unit) bibliography"
  have "list_all plain_operation example_operations" by code_simp
  note bibliography_lookup_exact [OF this, of "''bell''" 0, where ?'w = unit]
  moreover have es: "bib_entries ?b =
      [(''bell'', [''first'']), (RESIDUAL_LABEL, [''tail'']), (''bell'', [''second'']), (NESTED_LABEL_PREFIX @ ''guy'', [])]"
    by code_simp
  moreover have "latest_definition (bib_entries ?b) ''bell'' = Some 2"
    unfolding es by code_simp
  moreover have "defined_labels (take 2 (bib_entries ?b)) = {''bell''}"
    unfolding es by (auto simp: defined_labels_fst is_residual_def RESIDUAL_LABEL_def real_label_def is_nested_def NESTED_LABEL_PREFIX_def)
  ultimately show ?thesis
    by (simp add: Let_def citation_of_def is_residual_def RESIDUAL_LABEL_def)
qed

text \<open>A bibliography that is copied from its entries alone answers as the original.\<close>

lemma bib_to_owned_same:
  assumes "bib_ok b"
  shows "bib_get (bib_to_owned b) label = bib_get b label" "citation_at (bib_to_owned b) i = citation_at b i"
    "bib_entries (bib_to_owned b) = bib_entries b"
proof -
  have e: "bib_entries (bib_to_owned b) = bib_entries b"
    by (simp add: bib_to_owned_def bib_ok_from_entries)
  then show "bib_entries (bib_to_owned b) = bib_entries b" .
  have "bib_ok (bib_to_owned b)"
    using bib_ok_from_entries(1) [of "bib_entries b"] by (simp add: bib_to_owned_def bib_ok_def)
  then show "bib_get (bib_to_owned b) label = bib_get b label" "citation_at (bib_to_owned b) i = citation_at b i"
    using assms bib_get_latest e by (simp_all add: bib_get_latest citation_at_def bib_ok_def indexes_def)
qed

lemma get_reference_first:
  "get_reference bs label = (case find (\<lambda>b. bib_get b label \<noteq> None) bs of Some b \<Rightarrow> bib_get b label | None \<Rightarrow> None)"
  by (induction bs) (auto split: option.splits)

end
