(* ===== verification/Shared_Items.thy ===== *)
theory Shared_Items
  imports "HOL-Library.Word" Parser_Cursor Bibliography "HOL-Library.Monad_Syntax" "HOL-Library.Sublist"
begin

text \<open>
  What all clones of the parser share (\<open>parsing/parser.rs\<close>): the table of contents, the blocks of
  HTML and code, the footnotes with the tails of their rows and the bibliographies.  A clone that gives
  up is rolled back with the sizes noted before it started; the locale \<open>rollback_journal\<close> is what such
  a note promises.  Elements, code blocks and wrappers are carried along only.
\<close>

subsection \<open>Journals\<close>

locale rollback_journal =
  fixes mark :: "'s \<Rightarrow> 'm"
    and rewind :: "'m \<Rightarrow> 's \<Rightarrow> 's"
    and record_entry :: "'a \<Rightarrow> 's \<Rightarrow> 's option"
    and allowed :: "'m \<Rightarrow> 'a \<Rightarrow> bool"
    and sound :: "'s \<Rightarrow> bool"
  assumes rewind_mark: "sound s \<Longrightarrow> rewind (mark s) s = s"
    and record_sound: "sound s \<Longrightarrow> record_entry x s = Some t \<Longrightarrow> sound t"
    and rewind_record: "sound s \<Longrightarrow> sound t \<Longrightarrow> rewind (mark s) t = s \<Longrightarrow> allowed (mark s) x \<Longrightarrow>
      record_entry x t = Some u \<Longrightarrow> rewind (mark s) u = s"
begin

primrec record_all :: "'a list \<Rightarrow> 's \<Rightarrow> 's option" where
  "record_all [] s = Some s"
| "record_all (x # xs) s = record_entry x s \<bind> record_all xs"

lemma record_all_sound: "sound s \<Longrightarrow> record_all xs s = Some t \<Longrightarrow> sound t"
  by (induction xs arbitrary: s) (auto simp: bind_eq_Some_conv dest: record_sound)

lemma rewind_from:
  "sound s \<Longrightarrow> sound t \<Longrightarrow> rewind (mark s) t = s \<Longrightarrow> list_all (allowed (mark s)) xs \<Longrightarrow>
     record_all xs t = Some u \<Longrightarrow> rewind (mark s) u = s"
proof (induction xs arbitrary: t)
  case (Cons x xs)
  obtain t' where t': "record_entry x t = Some t'" "record_all xs t' = Some u"
    using Cons.prems(5) by (auto simp: bind_eq_Some_conv)
  have allowed: "allowed (mark s) x" "list_all (allowed (mark s)) xs"
    using Cons.prems(4) by simp_all
  have "rewind (mark s) t' = s"
    by (rule rewind_record [OF Cons.prems(1,2,3) allowed(1) t'(1)])
  then show ?case
    by (rule Cons.IH [OF Cons.prems(1) record_sound [OF Cons.prems(2) t'(1)] _ allowed(2) t'(2)])
qed simp

lemma record_all_append: "record_all (xs @ ys) s = record_all xs s \<bind> record_all ys"
  by (induction xs arbitrary: s) (auto split: Option.bind_splits)

text \<open>A property of what is recorded so far and the state it made.\<close>

lemma record_all_invariant:
  assumes "record_all xs s = Some u" "J [] s"
    "\<And>ys x t t'. J ys t \<Longrightarrow> x \<in> set xs \<Longrightarrow> record_entry x t = Some t' \<Longrightarrow> J (ys @ [x]) t'"
  shows "J xs u"
  using assms
proof (induction xs arbitrary: u rule: rev_induct)
  case (snoc x xs)
  obtain t where t: "record_all xs s = Some t" "record_entry x t = Some u"
    using snoc.prems(1) by (auto simp: record_all_append bind_eq_Some_conv)
  have "J xs t" by (rule snoc.IH [OF t(1) snoc.prems(2)]) (use snoc.prems(3) in simp)
  then show ?case using snoc.prems(3) [of xs t x u] t(2) by simp
qed simp

lemma rewind_all: "sound s \<Longrightarrow> list_all (allowed (mark s)) xs \<Longrightarrow> record_all xs s = Some t \<Longrightarrow> rewind (mark s) t = s"
  using rewind_from rewind_mark by blast

end

text \<open>A vector that is pushed to and truncated.\<close>

lemma take_length_le: "take (length ys) xs = ys \<Longrightarrow> length ys \<le> length xs"
  by (metis append_take_drop_id le_add1 length_append)

interpretation vector_journal: rollback_journal "length" "take" "\<lambda>x xs. Some (xs @ [x])" "\<lambda>_ _. True" "\<lambda>_. True"
  by unfold_locales (auto simp: take_length_le)

subsection \<open>Shared items\<close>

record ('e, 'c, 'w) shared_items =
  si_table_of_contents :: "(nat \<times> bytes) list"
  si_html_blocks :: "bytes list"
  si_code_blocks :: "'c list"
  si_footnotes :: "'e list list"
  si_footnote_row_tails :: "'e list list"
  si_bibliographies :: "('e, 'w) bibliography_list"

definition shared_items_new :: "('e, 'c, 'w) shared_items" where
  "shared_items_new =
     \<lparr>si_table_of_contents = [], si_html_blocks = [], si_code_blocks = [], si_footnotes = [], si_footnote_row_tails = [],
      si_bibliographies = []\<rparr>"

text \<open>The parser with its shared items; the flag of the footnote block is one of its own fields.\<close>

type_synonym ('e, 'c, 'w) parser_items = "parser_cursor \<times> ('e, 'c, 'w) shared_items"

record mutable_state =
  ms_footnote_index :: nat
  ms_html_block_index :: nat
  ms_code_block_index :: nat
  ms_table_of_contents_index :: nat
  ms_bibliography_index :: nat
  ms_has_footnote_block :: bool

definition get_mutable_state :: "('e, 'c, 'w) parser_items \<Rightarrow> mutable_state" where
  "get_mutable_state =
     (\<lambda>(p, s). \<lparr>ms_footnote_index = length (si_footnotes s), ms_html_block_index = length (si_html_blocks s),
        ms_code_block_index = length (si_code_blocks s), ms_table_of_contents_index = length (si_table_of_contents s),
        ms_bibliography_index = next_index (si_bibliographies s), ms_has_footnote_block = pc_has_footnote_block p\<rparr>)"

definition reset_mutable_state :: "mutable_state \<Rightarrow> ('e, 'c, 'w) parser_items \<Rightarrow> ('e, 'c, 'w) parser_items" where
  "reset_mutable_state m =
     (\<lambda>(p, s). (p\<lparr>pc_has_footnote_block := ms_has_footnote_block m\<rparr>,
        s\<lparr>si_footnotes := take (ms_footnote_index m) (si_footnotes s),
          si_footnote_row_tails := take (ms_footnote_index m) (si_footnote_row_tails s),
          si_html_blocks := take (ms_html_block_index m) (si_html_blocks s),
          si_code_blocks := take (ms_code_block_index m) (si_code_blocks s),
          si_table_of_contents := take (ms_table_of_contents_index m) (si_table_of_contents s),
          si_bibliographies := take (ms_bibliography_index m) (si_bibliographies s)\<rparr>))"

text \<open>Two registries differ as their bibliographies compare: by their entries alone.\<close>

definition shared_registries_differ :: "('e, 'c, 'w) shared_items \<Rightarrow> ('e, 'c, 'w) shared_items \<Rightarrow> bool" where
  "shared_registries_differ s snapshot \<longleftrightarrow>
     si_footnotes s \<noteq> si_footnotes snapshot \<or> si_footnote_row_tails s \<noteq> si_footnote_row_tails snapshot \<or>
     si_html_blocks s \<noteq> si_html_blocks snapshot \<or> si_code_blocks s \<noteq> si_code_blocks snapshot \<or>
     si_table_of_contents s \<noteq> si_table_of_contents snapshot \<or>
     map bib_entries (si_bibliographies s) \<noteq> map bib_entries (si_bibliographies snapshot)"

definition push_footnote :: "'e list \<Rightarrow> ('e, 'c, 'w) shared_items \<Rightarrow> nat \<times> ('e, 'c, 'w) shared_items" where
  "push_footnote contents s =
     (length (si_footnotes s) + 1,
      s\<lparr>si_footnotes := si_footnotes s @ [contents], si_footnote_row_tails := si_footnote_row_tails s @ [[]]\<rparr>)"

text \<open>Footnotes are numbered from one; zero and a number without a slot are panics.\<close>

definition set_footnote_row_tail :: "nat \<Rightarrow> 'e list \<Rightarrow> ('e, 'c, 'w) shared_items \<Rightarrow> ('e, 'c, 'w) shared_items option" where
  "set_footnote_row_tail i tail s =
     (if 0 < i \<and> i - 1 < length (si_footnote_row_tails s)
      then Some (s\<lparr>si_footnote_row_tails := (si_footnote_row_tails s)[i - 1 := tail]\<rparr>) else None)"

definition footnote_row_tails_flat :: "('e, 'c, 'w) shared_items \<Rightarrow> 'e list" where
  "footnote_row_tails_flat s = concat (si_footnote_row_tails s)"

definition footnote_count :: "('e, 'c, 'w) shared_items \<Rightarrow> nat" where
  "footnote_count s = length (si_footnotes s)"

definition truncate_footnotes :: "nat \<Rightarrow> ('e, 'c, 'w) shared_items \<Rightarrow> ('e, 'c, 'w) shared_items" where
  "truncate_footnotes n s =
     s\<lparr>si_footnotes := take n (si_footnotes s), si_footnote_row_tails := take n (si_footnote_row_tails s)\<rparr>"

text \<open>The footnotes are taken out, the tails of their rows stay.\<close>

definition remove_footnotes :: "('e, 'c, 'w) shared_items \<Rightarrow> 'e list list \<times> ('e, 'c, 'w) shared_items" where
  "remove_footnotes s = (si_footnotes s, s\<lparr>si_footnotes := []\<rparr>)"

definition push_html_block :: "bytes \<Rightarrow> ('e, 'c, 'w) shared_items \<Rightarrow> ('e, 'c, 'w) shared_items" where
  "push_html_block block s = s\<lparr>si_html_blocks := si_html_blocks s @ [block]\<rparr>"

definition push_code_block :: "'c \<Rightarrow> ('e, 'c, 'w) shared_items \<Rightarrow> ('e, 'c, 'w) shared_items" where
  "push_code_block block s = s\<lparr>si_code_blocks := si_code_blocks s @ [block]\<rparr>"

text \<open>The name of an entry is what the text renderer makes of the heading.\<close>

definition push_table_of_contents_entry :: "nat \<Rightarrow> bytes \<Rightarrow> ('e, 'c, 'w) shared_items \<Rightarrow> ('e, 'c, 'w) shared_items" where
  "push_table_of_contents_entry heading_value name s =
     s\<lparr>si_table_of_contents := si_table_of_contents s @ [(heading_value - 1, name)]\<rparr>"

definition push_bibliography :: "('e, 'w) bibliography \<Rightarrow> ('e, 'c, 'w) shared_items \<Rightarrow> nat \<times> ('e, 'c, 'w) shared_items" where
  "push_bibliography b s =
     (next_index (si_bibliographies s), s\<lparr>si_bibliographies := bib_list_push b (si_bibliographies s)\<rparr>)"

definition has_bibliography :: "('e, 'c, 'w) shared_items \<Rightarrow> bool" where
  "has_bibliography s \<longleftrightarrow> si_bibliographies s \<noteq> []"

definition allocate_bibliography_split_citation :: "('e, 'c, 'w) shared_items \<Rightarrow> nat \<times> ('e, 'c, 'w) shared_items" where
  "allocate_bibliography_split_citation s =
     (if si_bibliographies s = [] then (1, s)
      else case allocate_split_tail_citation (last (si_bibliographies s)) of
             (citation, b) \<Rightarrow> (citation, s\<lparr>si_bibliographies := butlast (si_bibliographies s) @ [b]\<rparr>))"

definition append_shared_items :: "bytes list \<Rightarrow> 'c list \<Rightarrow> (nat \<times> bytes) list \<Rightarrow> 'e list list \<Rightarrow>
    ('e, 'w) bibliography_list \<Rightarrow> ('e, 'c, 'w) shared_items \<Rightarrow> ('e, 'c, 'w) shared_items" where
  "append_shared_items html code toc footnotes bibliographies s =
     s\<lparr>si_html_blocks := si_html_blocks s @ html, si_code_blocks := si_code_blocks s @ code,
       si_table_of_contents := si_table_of_contents s @ toc, si_footnotes := si_footnotes s @ footnotes,
       si_footnote_row_tails := si_footnote_row_tails s @ replicate (length footnotes) [],
       si_bibliographies := fst (bib_list_append (si_bibliographies s) bibliographies)\<rparr>"

definition set_footnote_block :: "parser_cursor \<Rightarrow> parser_cursor" where
  "set_footnote_block p = p\<lparr>pc_has_footnote_block := True\<rparr>"

subsection \<open>The journal of a speculative parse\<close>

datatype ('e, 'c, 'w) item_operation =
    PushFootnote "'e list" | SetRowTail nat "'e list" | TruncateFootnotes nat | PushHtml bytes | PushCode 'c
  | PushHeading nat bytes | PushBibliography "('e, 'w) bibliography" | AllocateSplitCitation
  | AppendItems "bytes list" "'c list" "(nat \<times> bytes) list" "'e list list" "('e, 'w) bibliography_list"
  | SetFootnoteBlock

fun item_apply :: "('e, 'c, 'w) item_operation \<Rightarrow> ('e, 'c, 'w) parser_items \<Rightarrow> ('e, 'c, 'w) parser_items option" where
  "item_apply (PushFootnote contents) (p, s) = Some (p, snd (push_footnote contents s))"
| "item_apply (SetRowTail i tail) (p, s) = map_option (Pair p) (set_footnote_row_tail i tail s)"
| "item_apply (TruncateFootnotes n) (p, s) = Some (p, truncate_footnotes n s)"
| "item_apply (PushHtml block) (p, s) = Some (p, push_html_block block s)"
| "item_apply (PushCode block) (p, s) = Some (p, push_code_block block s)"
| "item_apply (PushHeading level name) (p, s) = Some (p, push_table_of_contents_entry level name s)"
| "item_apply (PushBibliography b) (p, s) = Some (p, snd (push_bibliography b s))"
| "item_apply AllocateSplitCitation (p, s) = Some (p, snd (allocate_bibliography_split_citation s))"
| "item_apply (AppendItems html code toc footnotes bibliographies) (p, s) =
     Some (p, append_shared_items html code toc footnotes bibliographies s)"
| "item_apply SetFootnoteBlock (p, s) = Some (set_footnote_block p, s)"

text \<open>The operations that a reset undoes: they touch no footnote and no bibliography of the note.\<close>

fun item_undone :: "mutable_state \<Rightarrow> ('e, 'c, 'w) item_operation \<Rightarrow> bool" where
  "item_undone m (SetRowTail i _) \<longleftrightarrow> ms_footnote_index m < i"
| "item_undone m (TruncateFootnotes n) \<longleftrightarrow> ms_footnote_index m \<le> n"
| "item_undone m AllocateSplitCitation \<longleftrightarrow> False"
| "item_undone m _ \<longleftrightarrow> True"

text \<open>
  Those that it does not undo: a split citation may be taken from a bibliography of the note, and the
  tail of the row of an earlier footnote may be set.
\<close>

fun item_outlives :: "mutable_state \<Rightarrow> ('e, 'c, 'w) item_operation \<Rightarrow> bool" where
  "item_outlives m (SetRowTail i _) \<longleftrightarrow> i \<le> ms_footnote_index m"
| "item_outlives m AllocateSplitCitation \<longleftrightarrow> True"
| "item_outlives m _ \<longleftrightarrow> False"

text \<open>A speculative parse cuts the footnotes back to a count of its own at most.\<close>

fun item_bounded :: "mutable_state \<Rightarrow> ('e, 'c, 'w) item_operation \<Rightarrow> bool" where
  "item_bounded m (TruncateFootnotes n) \<longleftrightarrow> ms_footnote_index m \<le> n"
| "item_bounded m _ \<longleftrightarrow> True"

lemma item_bounded_cases: "item_bounded m x \<longleftrightarrow> item_undone m x \<or> item_outlives m x"
  by (cases x) auto

text \<open>The shared items without the counters of split citations and the contents of the row tails.\<close>

definition settled :: "('e, 'c, 'w) shared_items \<Rightarrow> ('e, 'c, 'w) shared_items" where
  "settled s =
     s\<lparr>si_footnote_row_tails := map (\<lambda>_. []) (si_footnote_row_tails s),
       si_bibliographies := map (\<lambda>b. b\<lparr>bib_split_tail_next := 0\<rparr>) (si_bibliographies s)\<rparr>"

definition items_sound :: "('e, 'c, 'w) parser_items \<Rightarrow> bool" where
  "items_sound = (\<lambda>(p, s). length (si_footnotes s) = length (si_footnote_row_tails s))"


text \<open>What a note of the sizes says of a later state that is rolled back to it.\<close>

lemma rewound_sizes:
  assumes "reset_mutable_state m (p, s) = (p0, s0)" "get_mutable_state (p0, s0) = m"
  shows "ms_footnote_index m \<le> length (si_footnotes s)" "ms_html_block_index m \<le> length (si_html_blocks s)"
    "ms_code_block_index m \<le> length (si_code_blocks s)" "ms_table_of_contents_index m \<le> length (si_table_of_contents s)"
    "ms_bibliography_index m \<le> length (si_bibliographies s)"
proof -
  have m: "m = get_mutable_state (p0, s0)" using assms(2) by simp
  have e: "snd (reset_mutable_state m (p, s)) = s0" using assms(1) by simp
  note eqs = arg_cong [OF e, of si_footnotes] arg_cong [OF e, of si_html_blocks] arg_cong [OF e, of si_code_blocks]
    arg_cong [OF e, of si_table_of_contents] arg_cong [OF e, of si_bibliographies]
  show "ms_footnote_index m \<le> length (si_footnotes s)" "ms_html_block_index m \<le> length (si_html_blocks s)"
    "ms_code_block_index m \<le> length (si_code_blocks s)" "ms_table_of_contents_index m \<le> length (si_table_of_contents s)"
    "ms_bibliography_index m \<le> length (si_bibliographies s)"
    using eqs by (simp_all add: m reset_mutable_state_def get_mutable_state_def next_index_def take_length_le)
qed

lemma item_apply_sound:
  "items_sound t \<Longrightarrow> item_apply x t = Some u \<Longrightarrow> items_sound u"
  by (cases "(x, t)" rule: item_apply.cases)
     (auto simp: items_sound_def push_footnote_def set_footnote_row_tail_def truncate_footnotes_def push_html_block_def
       push_code_block_def push_table_of_contents_entry_def push_bibliography_def allocate_bibliography_split_citation_def
       append_shared_items_def split: if_splits prod.splits)

lemma rewind_now: "items_sound s \<Longrightarrow> reset_mutable_state (get_mutable_state s) s = s"
  by (cases s) (simp add: items_sound_def reset_mutable_state_def get_mutable_state_def next_index_def)

lemma item_apply_rewound:
  assumes "ms_footnote_index m \<le> length (si_footnotes s)" "ms_html_block_index m \<le> length (si_html_blocks s)"
    "ms_code_block_index m \<le> length (si_code_blocks s)" "ms_table_of_contents_index m \<le> length (si_table_of_contents s)"
    "ms_bibliography_index m \<le> length (si_bibliographies s)" "length (si_footnotes s) = length (si_footnote_row_tails s)"
    "item_undone m x" "item_apply x (p, s) = Some u"
  shows "reset_mutable_state m u = reset_mutable_state m (p, s)"
proof (cases x)
  case (SetRowTail i tail)
  then show ?thesis
    using assms(7,8) by (auto simp: set_footnote_row_tail_def reset_mutable_state_def split: if_splits)
next
  case (TruncateFootnotes n)
  then show ?thesis
    using assms(7,8) by (auto simp: truncate_footnotes_def reset_mutable_state_def min_absorb1)
next
  case (AppendItems html code toc footnotes bibliographies)
  then have "u = (p, append_shared_items html code toc footnotes bibliographies s)" using assms(8) by simp
  then show ?thesis
    using assms(1-6) by (simp add: append_shared_items_def bib_list_append_def reset_mutable_state_def)
next
  case (PushBibliography b)
  then have "u = (p, snd (push_bibliography b s))" using assms(8) by simp
  then show ?thesis
    using assms(5) by (simp add: push_bibliography_def bib_list_push_def reset_mutable_state_def)
next
  case (PushFootnote contents)
  then have "u = (p, snd (push_footnote contents s))" using assms(8) by simp
  then show ?thesis
    using assms(1,6) by (simp add: push_footnote_def reset_mutable_state_def)
next
  case (PushHtml block)
  then have "u = (p, push_html_block block s)" using assms(8) by simp
  then show ?thesis using assms(2) by (simp add: push_html_block_def reset_mutable_state_def)
next
  case (PushCode block)
  then have "u = (p, push_code_block block s)" using assms(8) by simp
  then show ?thesis using assms(3) by (simp add: push_code_block_def reset_mutable_state_def)
next
  case (PushHeading level name)
  then have "u = (p, push_table_of_contents_entry level name s)" using assms(8) by simp
  then show ?thesis using assms(4) by (simp add: push_table_of_contents_entry_def reset_mutable_state_def)
next
  case AllocateSplitCitation
  then show ?thesis using assms(7) by simp
next
  case SetFootnoteBlock
  then have "u = (set_footnote_block p, s)" using assms(8) by simp
  then show ?thesis by (simp add: set_footnote_block_def reset_mutable_state_def)
qed

lemma item_rewind:
  assumes "m = get_mutable_state s0" "reset_mutable_state m t = s0" "item_undone m x" "item_apply x t = Some u" "items_sound t"
  shows "reset_mutable_state m u = s0"
proof -
  obtain p s where t: "t = (p, s)" by (cases t)
  obtain q r where s0: "s0 = (q, r)" by (cases s0)
  note sizes = rewound_sizes [OF assms(2) [unfolded t s0] assms(1) [unfolded s0, symmetric]]
  have "length (si_footnotes s) = length (si_footnote_row_tails s)"
    using assms(5) by (simp add: items_sound_def t)
  then show ?thesis
    using item_apply_rewound [OF sizes _ assms(3) assms(4) [unfolded t]] assms(2) by (simp add: t)
qed

interpretation item_journal: rollback_journal get_mutable_state reset_mutable_state item_apply item_undone items_sound
proof
  fix s
  assume "items_sound s"
  then show "reset_mutable_state (get_mutable_state s) s = s"
    using rewind_now by blast
next
  fix s t x
  assume "items_sound s" "item_apply x s = Some t"
  then show "items_sound t" using item_apply_sound by blast
next
  fix s t u x
  assume "items_sound t" "reset_mutable_state (get_mutable_state s) t = s" "item_undone (get_mutable_state s) x"
    "item_apply x t = Some u"
  then show "reset_mutable_state (get_mutable_state s) u = s"
    using item_rewind by blast
qed

lemma undone_speculation:
  "items_sound items \<Longrightarrow> list_all (item_undone (get_mutable_state items)) operations \<Longrightarrow>
     item_journal.record_all operations items = Some later \<Longrightarrow> reset_mutable_state (get_mutable_state items) later = items"
  by (rule item_journal.rewind_all)

subsection \<open>What a reset leaves\<close>

text \<open>An operation that outlives a reset changes no size and no flag, and nothing that is settled.\<close>

lemma map_update_const: "map (\<lambda>_. c) (xs[i := x]) = map (\<lambda>_. c) xs"
  by (simp add: map_replicate_const)

lemma map_replace_last: "xs \<noteq> [] \<Longrightarrow> y = f (last xs) \<Longrightarrow> map f (butlast xs) @ [y] = map f xs"
  by (induction xs rule: rev_induct) auto

lemma outlives_keeps:
  assumes "item_outlives m x" "item_apply x (p, s) = Some u"
  shows "get_mutable_state u = get_mutable_state (p, s)" "settled (snd u) = settled s" "fst u = p"
proof -
  have "get_mutable_state u = get_mutable_state (p, s) \<and> settled (snd u) = settled s \<and> fst u = p"
  proof (cases x)
    case (SetRowTail i tail)
    then show ?thesis
      using assms by (auto simp: set_footnote_row_tail_def get_mutable_state_def settled_def map_update_const split: if_splits)
  next
    case AllocateSplitCitation
    then have u: "u = (p, snd (allocate_bibliography_split_citation s))" using assms(2) by simp
    show ?thesis
      by (simp add: u allocate_bibliography_split_citation_def allocate_split_tail_citation_def get_mutable_state_def
          next_index_def settled_def map_replace_last Let_def)
  qed (use assms(1) in auto)
  then show "get_mutable_state u = get_mutable_state (p, s)" "settled (snd u) = settled s" "fst u = p" by auto
qed

lemma all_outlive_keeps:
  "list_all (item_outlives m) kept \<Longrightarrow> item_journal.record_all kept (p, s) = Some u \<Longrightarrow>
     get_mutable_state u = get_mutable_state (p, s) \<and> settled (snd u) = settled s \<and> fst u = p"
proof (induction kept arbitrary: s)
  case (Cons x xs)
  obtain t where t: "item_apply x (p, s) = Some t" "item_journal.record_all xs t = Some u"
    using Cons.prems(2) by (auto simp: bind_eq_Some_conv)
  obtain s' where s': "t = (p, s')"
    using outlives_keeps(3) [OF _ t(1), of m] Cons.prems(1) by (cases t) auto
  then show ?case
    using Cons.IH [of s'] Cons.prems(1) t(2) outlives_keeps [OF _ t(1), of m] by (simp add: s')
qed auto

text \<open>It is undone all the same, or it can as well be done after the reset.\<close>

lemma take_replace_last:
  "xs \<noteq> [] \<Longrightarrow> n < length xs \<Longrightarrow> take n (butlast xs @ [y]) = take n xs"
  "xs \<noteq> [] \<Longrightarrow> n = length xs \<Longrightarrow> take n (butlast xs @ [y]) = butlast xs @ [y]"
proof -
  assume "xs \<noteq> []" "n < length xs"
  then have "n - length (butlast xs) = 0" "take n (butlast xs) = take n xs" by (auto simp: take_butlast)
  then show "take n (butlast xs @ [y]) = take n xs" by (simp only: take_append take_0 append_Nil2)
qed (rule take_all, simp)

lemma outlives_after_reset:
  assumes "item_outlives m x" "item_apply x (p, s) = Some u" "get_mutable_state (reset_mutable_state m (p, s)) = m"
    "items_sound (p, s)"
  shows "reset_mutable_state m u = reset_mutable_state m (p, s) \<or>
    item_apply x (reset_mutable_state m (p, s)) = Some (reset_mutable_state m u)"
proof (cases x)
  case (SetRowTail i tail)
  obtain p0 s0 where r: "reset_mutable_state m (p, s) = (p0, s0)" by fastforce
  have "ms_footnote_index m \<le> length (si_footnote_row_tails s)"
    using rewound_sizes(1) [OF r] assms(3,4) by (simp add: r items_sound_def)
  then show ?thesis
    using assms(1,2) SetRowTail
    by (auto simp: set_footnote_row_tail_def reset_mutable_state_def take_update_swap split: if_splits)
next
  case AllocateSplitCitation
  obtain p0 s0 where r: "reset_mutable_state m (p, s) = (p0, s0)" by fastforce
  have "ms_bibliography_index m \<le> length (si_bibliographies s)"
    using rewound_sizes(5) [OF r] assms(3) by (simp add: r)
  then consider "ms_bibliography_index m < length (si_bibliographies s)" | "ms_bibliography_index m = length (si_bibliographies s)"
    by linarith
  then show ?thesis
    using assms(2) AllocateSplitCitation
    by cases (auto simp: allocate_bibliography_split_citation_def reset_mutable_state_def take_replace_last
        simp del: take_append split: prod.splits)
qed (use assms(1) in auto)

lemma reset_leaves:
  assumes "items_sound items" "list_all (item_bounded (get_mutable_state items)) operations"
    "item_journal.record_all operations items = Some later"
  shows "\<exists>kept. subseq kept operations \<and> list_all (item_outlives (get_mutable_state items)) kept \<and>
    item_journal.record_all kept items = Some (reset_mutable_state (get_mutable_state items) later)"
proof -
  let ?m = "get_mutable_state items"
  let ?left = "\<lambda>ys t. \<exists>kept. subseq kept ys \<and> list_all (item_outlives ?m) kept \<and>
    item_journal.record_all kept items = Some (reset_mutable_state ?m t)"
  have "items_sound later \<and> ?left operations later"
  proof (rule item_journal.record_all_invariant [OF assms(3), where J = "\<lambda>ys t. items_sound t \<and> ?left ys t"])
    show "items_sound items \<and> ?left [] items"
      using assms(1) rewind_now [OF assms(1)] by (auto intro: exI [of _ "[]"])
  next
    fix ys x t u
    assume before: "items_sound t \<and> ?left ys t" and x: "x \<in> set operations" and u: "item_apply x t = Some u"
    obtain kept where kept: "subseq kept ys" "list_all (item_outlives ?m) kept"
      "item_journal.record_all kept items = Some (reset_mutable_state ?m t)" using before by blast
    obtain p s where t: "t = (p, s)" by (cases t)
    have m: "get_mutable_state (reset_mutable_state ?m t) = ?m"
      using all_outlive_keeps [OF kept(2)] kept(3) by (cases items) simp
    have "item_undone ?m x \<or> item_outlives ?m x"
      using assms(2) x by (auto simp: list_all_iff item_bounded_cases)
    then consider (same) "reset_mutable_state ?m u = reset_mutable_state ?m t"
      | (again) "item_outlives ?m x" "item_apply x (reset_mutable_state ?m t) = Some (reset_mutable_state ?m u)"
    proof
      assume "item_undone ?m x"
      obtain p0 s0 where r: "reset_mutable_state ?m (p, s) = (p0, s0)" by fastforce
      note sizes = rewound_sizes [OF r] 
      show thesis
        by (rule that(1), unfold t, rule item_apply_rewound [OF sizes _ \<open>item_undone ?m x\<close> u [unfolded t]])
          (use m before in \<open>simp_all add: t r items_sound_def\<close>)
    next
      assume "item_outlives ?m x"
      then show thesis
        using that outlives_after_reset [of ?m x p s u] u m before by (auto simp: t)
    qed
    then have "?left (ys @ [x]) u"
    proof cases
      case same
      have "subseq kept (ys @ [x])" using kept(1) by (rule list_emb_prefix)
      then show ?thesis using kept same by auto
    next
      case again
      have "subseq (kept @ [x]) (ys @ [x])" using kept(1) by (rule list_emb_append_mono) simp
      moreover have "item_journal.record_all (kept @ [x]) items = Some (reset_mutable_state ?m u)"
        by (simp add: item_journal.record_all_append kept(3) again(2))
      ultimately show ?thesis using kept(2) again(1) by (intro exI [of _ "kept @ [x]"]) simp
    qed
    then show "items_sound u \<and> ?left (ys @ [x]) u"
      using before item_apply_sound u by blast
  qed
  then show ?thesis by blast
qed

text \<open>
  C36: Rolling back a speculative parse: run any operations on the shared items, pushes of footnotes,
  blocks, headings and bibliographies, appended items, row tails of any footnotes, split citations and
  truncations to no fewer footnotes than before, and reset to the state noted before them.  Then the
  footnotes, the blocks, the headings, the bibliographies with their entries and the flag are as they
  were.  What is left of the operations is exactly what some of the split citations and of the row tails
  of earlier footnotes among them do alone, in their order; without any of these the state is the one
  from before.  And every footnote still has a slot for its row tail.
\<close>

theorem speculation_rolls_back:
  assumes "items_sound items" "list_all (item_bounded (get_mutable_state items)) operations"
    "item_journal.record_all operations items = Some later"
  shows "let rewound = reset_mutable_state (get_mutable_state items) later in
    fst rewound = fst items \<and> settled (snd rewound) = settled (snd items) \<and>
    (\<exists>kept. subseq kept operations \<and> list_all (item_outlives (get_mutable_state items)) kept \<and>
       item_journal.record_all kept items = Some rewound) \<and>
    (list_all (item_undone (get_mutable_state items)) operations \<longrightarrow> rewound = items) \<and> items_sound later"
proof -
  let ?rewound = "reset_mutable_state (get_mutable_state items) later"
  obtain kept where kept: "subseq kept operations" "list_all (item_outlives (get_mutable_state items)) kept"
    "item_journal.record_all kept items = Some ?rewound" using reset_leaves [OF assms] by blast
  have "settled (snd ?rewound) = settled (snd items) \<and> fst ?rewound = fst items"
    using all_outlive_keeps [OF kept(2)] kept(3) by (metis prod.collapse)
  moreover have "list_all (item_undone (get_mutable_state items)) operations \<longrightarrow> ?rewound = items"
    using undone_speculation [OF assms(1) _ assms(3)] by blast
  ultimately show ?thesis
    using kept item_journal.record_all_sound [OF assms(1,3)] unfolding Let_def by blast
qed

definition example_items :: "(string, string, unit) parser_items" where
  "example_items =
     (the (parser_new ''ab'' True True [\<lparr>et_token = InputStart, et_slice = [], et_start = 0, et_end = 0\<rparr>] 8),
      snd (push_footnote [''first''] shared_items_new))"

text \<open>A citation taken from a bibliography that was there before is not given back.\<close>

definition cited_items :: "(string, string, unit) parser_items" where
  "cited_items = (fst example_items, snd (push_bibliography bibliography_new (snd example_items)))"

lemma split_citation_outlives_reset:
  "\<exists>later. item_apply AllocateSplitCitation cited_items = Some later \<and>
     fst (allocate_bibliography_split_citation (snd cited_items)) = 1 \<and>
     fst (allocate_bibliography_split_citation (snd (reset_mutable_state (get_mutable_state cited_items) later))) = 2"
  by (simp add: cited_items_def example_items_def push_footnote_def shared_items_new_def push_bibliography_def bib_list_push_def
      allocate_bibliography_split_citation_def allocate_split_tail_citation_def reset_mutable_state_def get_mutable_state_def
      next_index_def bibliography_new_def)

lemma speculation_rolls_back_witness:
  "\<exists>later. item_journal.record_all [PushFootnote [''second''], SetRowTail 1 [''tail''], PushHtml ''<b>'', SetFootnoteBlock,
       AllocateSplitCitation, AppendItems [''<i>''] [''code''] [(1, ''head'')] [[''third'']] [bibliography_new]] cited_items = Some later \<and>
     length (si_footnotes (snd later)) = 3 \<and> si_footnotes (snd cited_items) = [[''first'']] \<and>
     settled (snd (reset_mutable_state (get_mutable_state cited_items) later)) = settled (snd cited_items)"
proof -
  let ?ops = "[PushFootnote [''second''], SetRowTail 1 [''tail''], PushHtml ''<b>'', SetFootnoteBlock, AllocateSplitCitation,
       AppendItems [''<i>''] [''code''] [(1, ''head'')] [[''third'']] [bibliography_new]] :: (string, string, unit) item_operation list"
  note defs = cited_items_def example_items_def push_footnote_def shared_items_new_def set_footnote_row_tail_def push_html_block_def
    append_shared_items_def push_bibliography_def bib_list_push_def allocate_bibliography_split_citation_def
    allocate_split_tail_citation_def Let_def
  have sound: "items_sound cited_items" by (simp add: items_sound_def defs)
  have bounded: "list_all (item_bounded (get_mutable_state cited_items)) ?ops" by simp
  obtain later where later: "item_journal.record_all ?ops cited_items = Some later" "length (si_footnotes (snd later)) = 3"
    by (simp add: defs)
  moreover have "si_footnotes (snd cited_items) = [[''first'']]" by (simp add: defs)
  ultimately show ?thesis
    using speculation_rolls_back [OF sound bounded later(1)] unfolding Let_def by blast
qed

text \<open>Taking the footnotes out leaves the tails of their rows behind, and the next footnote has the slot of an old one.\<close>

lemma removed_footnotes_leave_tails:
  "let s = snd (push_footnote [''old''] (shared_items_new :: (string, unit, unit) shared_items));
       s = snd (push_footnote [''new''] (snd (remove_footnotes s)))
   in length (si_footnotes s) = 1 \<and> length (si_footnote_row_tails s) = 2"
  by (simp add: push_footnote_def remove_footnotes_def shared_items_new_def)

lemma push_footnote_number:
  "fst (push_footnote contents s) = footnote_count (snd (push_footnote contents s))"
  by (simp add: push_footnote_def footnote_count_def)

lemma push_bibliography_index:
  "get_bibliography (si_bibliographies (snd (push_bibliography b s))) (fst (push_bibliography b s)) = Some b"
  by (simp add: push_bibliography_def next_index_def bib_list_push_def get_bibliography_def)

end
