(* ===== verification/Rule_Attempt.thy ===== *)
theory Rule_Attempt
  imports "HOL-Library.Word" Shared_Items
begin

text \<open>
  Attempts of rules (\<open>parsing/rule/mod.rs\<close>, \<open>parsing/result.rs\<close>, \<open>tree/partial.rs\<close> and the memo of
  attempts in \<open>parsing/parser.rs\<close>): the check of partial elements, the key of an attempt, the memos of
  failures and successes with the eviction of the coldest successes, the greatest depth reached, and
  \<open>Rule::try_consume\<close> over any function of a rule.  The hash of a list of names and the addresses of
  static lists of names are arguments, and so are the elements, of which only their view as a partial
  element counts.  Hash maps are association lists with distinct keys; the clock of 64 bits counts
  the attempts, and is a natural number here.
\<close>

subsection \<open>Partial elements\<close>

datatype (plugins only: code) partial_element =
    WikidotEmptyInlineOwner | WikidotBlockOpen | WikidotBlockClose | WikidotFoster | WikidotCollapsibleTail
  | WikidotCollapsibleHeadingEnd | InlineSizeOpen | InlineSizeClose | InlineSpanOpen | InlineSpanClose
  | InlineFormatOpen | InlineFormatClose | InlineColorOpen | InlineColorClose | InlineAnchorOpen | InlineAnchorClose
  | PartialListItem | PartialTableRow | PartialTableCell | PartialTab | PartialRubyText

definition is_inline_format_control :: "partial_element \<Rightarrow> bool" where
  "is_inline_format_control e \<longleftrightarrow>
     e \<in> set [WikidotEmptyInlineOwner, InlineSizeOpen, InlineSizeClose, InlineSpanOpen, InlineSpanClose, InlineFormatOpen,
       InlineFormatClose, InlineColorOpen, InlineColorClose, InlineAnchorOpen, InlineAnchorClose]"

definition is_wikidot_block_control :: "partial_element \<Rightarrow> bool" where
  "is_wikidot_block_control e \<longleftrightarrow> e = WikidotBlockOpen \<or> e = WikidotBlockClose"

fun partial_error_kind :: "partial_element \<Rightarrow> parse_error_kind" where
  "partial_error_kind PartialListItem = ListItemOutsideList"
| "partial_error_kind PartialTableRow = TableRowOutsideTable"
| "partial_error_kind PartialTableCell = TableCellOutsideTable"
| "partial_error_kind PartialTab = TabOutsideTabView"
| "partial_error_kind PartialRubyText = RubyTextOutsideRuby"
| "partial_error_kind _ = NoRulesMatch"

definition accepts_matches :: "accepts_partial \<Rightarrow> partial_element \<Rightarrow> bool" where
  "accepts_matches a e \<longleftrightarrow>
     (a, e) \<in> set [(AcceptsListItem, PartialListItem), (AcceptsTableRow, PartialTableRow),
       (AcceptsTableCell, PartialTableCell), (AcceptsTab, PartialTab), (AcceptsRuby, PartialRubyText),
       (AcceptsTableRow, WikidotFoster), (AcceptsTableCell, WikidotFoster)]"

definition partial_passes :: "partial_element \<Rightarrow> bool" where
  "partial_passes e \<longleftrightarrow> is_inline_format_control e \<or> is_wikidot_block_control e \<or> e = WikidotFoster \<or>
     e = WikidotCollapsibleTail \<or> e = WikidotCollapsibleHeadingEnd"

fun check_partials :: "('e \<Rightarrow> partial_element option) \<Rightarrow> parser_cursor \<Rightarrow> 'e list \<Rightarrow> parse_error option" where
  "check_partials partial_of p [] = None"
| "check_partials partial_of p (element # elements) =
     (case partial_of element of
        Some e \<Rightarrow>
          if \<not> partial_passes e \<and> \<not> accepts_matches (pc_accepts_partial p) e
          then Some (make_err p (partial_error_kind e)) else check_partials partial_of p elements
      | None \<Rightarrow> check_partials partial_of p elements)"

subsection \<open>Results of rules\<close>

datatype list_type = Bullet | Numbered | Generic

datatype paragraph_split_kind = SplitParagraph | SplitItem list_type

record 'e parse_success =
  ps_item :: "'e list"
  ps_errors :: "parse_error list"
  ps_paragraph_safe :: bool
  ps_paragraph_split :: "(nat \<times> bool \<times> paragraph_split_kind) list option"
  ps_split_close_leftover :: "bytes option"

definition success_value :: "'e list \<Rightarrow> parse_error list \<Rightarrow> bool \<Rightarrow> 'e parse_success" where
  "success_value item errors safe =
     \<lparr>ps_item = item, ps_errors = errors, ps_paragraph_safe = safe, ps_paragraph_split = None,
      ps_split_close_leftover = None\<rparr>"

text \<open>The errors are added to those of the caller, and the caller is safe only if both are.\<close>

definition success_chain :: "'e parse_success \<Rightarrow> parse_error list \<Rightarrow> bool \<Rightarrow> 'e list \<times> parse_error list \<times> bool" where
  "success_chain success all_errors all_safe =
     (ps_item success, all_errors @ ps_errors success, all_safe \<and> ps_paragraph_safe success)"

subsection \<open>The key of an attempt\<close>

record rule_key =
  rk_rule :: bytes
  rk_remaining :: nat
  rk_depth :: "nat option"
  rk_accepts_partial :: accepts_partial
  rk_accepts_partial_offset :: "int option"
  rk_in_footnote :: bool
  rk_in_note :: bool
  rk_in_color :: bool
  rk_has_footnote_block :: bool
  rk_start_of_line :: bool
  rk_native_blockquote_depth :: "nat option"
  rk_quote_body :: "quote_body_cursor option"
  rk_inline_bodies :: u64
  rk_wikidot :: wikidot_state

record body_walk_key =
  wk_attempt :: rule_key
  wk_boundaries :: u64

text \<open>What the memos of one parse hold; the positions say where anything was recorded.\<close>

record 'e stored_success =
  sc_output :: "'e parse_success"
  sc_consumed :: nat
  sc_accepts_partial :: accepts_partial
  sc_accepts_partial_offset :: "int option"
  sc_in_footnote :: bool
  sc_in_note :: bool
  sc_in_color :: bool
  sc_has_footnote_block :: bool
  sc_start_of_line :: bool
  sc_native_blockquote_depth :: u32
  sc_quote_body_cursor :: "quote_body_cursor option"
  sc_wikidot :: wikidot_state

type_synonym success_key = "rule_key \<times> u64"

record 'e attempt_cache =
  ac_peak_depth :: nat
  ac_failures :: "(rule_key \<times> (parse_error \<times> nat)) list"
  ac_failure_positions :: "bool list"
  ac_successes :: "(success_key \<times> ('e stored_success \<times> nat \<times> nat)) list"
  ac_success_positions :: "bool list"
  ac_success_tokens :: nat
  ac_success_clock :: nat
  ac_body_walk_failures :: "(body_walk_key \<times> nat) list"
  ac_body_walk_failure_positions :: "bool list"
  ac_partial_rejections :: "((bytes \<times> bytes \<times> nat \<times> accepts_partial) \<times> parse_error) list"
  ac_inline_container_body_names :: "bytes list"
  ac_body_end_boundaries :: "body_end_boundary list"

definition attempt_cache_new :: "'e attempt_cache" where
  "attempt_cache_new =
     \<lparr>ac_peak_depth = 0, ac_failures = [], ac_failure_positions = [], ac_successes = [], ac_success_positions = [],
      ac_success_tokens = 0, ac_success_clock = 0, ac_body_walk_failures = [], ac_body_walk_failure_positions = [],
      ac_partial_rejections = [], ac_inline_container_body_names = [],
      ac_body_end_boundaries = []\<rparr>"

definition rule_attempt_key :: "(bytes list \<Rightarrow> u64) \<Rightarrow> 'e attempt_cache \<Rightarrow> parser_cursor \<Rightarrow> bytes \<Rightarrow> rule_key option" where
  "rule_attempt_key name_hash c p rule =
     (if pc_discarding_hidden_body p \<or> pc_hidden_bodies p \<noteq> [] then None
      else Some
        \<lparr>rk_rule = rule, rk_remaining = length (pc_remaining p), rk_depth = None,
         rk_accepts_partial = pc_accepts_partial p,
         rk_accepts_partial_offset =
           (if pc_accepts_partial_depth p \<noteq> 0 then Some (int (unat (pc_accepts_partial_depth p)) - int (pc_depth p)) else None),
         rk_in_footnote = pc_in_footnote p, rk_in_note = pc_in_note p, rk_in_color = pc_in_color p,
         rk_has_footnote_block = pc_has_footnote_block p, rk_start_of_line = pc_start_of_line p,
         rk_native_blockquote_depth = native_blockquote_depth p, rk_quote_body = pc_quote_body_cursor p,
         rk_inline_bodies = name_hash (ac_inline_container_body_names c), rk_wikidot = attempt_key (pc_wikidot p)\<rparr>)"

definition rule_attempt_context :: "(bytes list \<Rightarrow> u64) \<Rightarrow> 'e attempt_cache \<Rightarrow> parser_cursor \<Rightarrow> rule_key option" where
  "rule_attempt_context name_hash c p =
     map_option (\<lambda>key. key\<lparr>rk_remaining := 0, rk_start_of_line := False, rk_depth := Some (pc_depth p)\<rparr>)
       (rule_attempt_key name_hash c p [])"

subsection \<open>The greatest depth\<close>

definition start_rule_attempt :: "parser_cursor \<Rightarrow> 'e attempt_cache \<Rightarrow> nat \<times> 'e attempt_cache" where
  "start_rule_attempt p c = (ac_peak_depth c, c\<lparr>ac_peak_depth := pc_depth p\<rparr>)"

definition finish_rule_attempt :: "parser_cursor \<Rightarrow> nat \<Rightarrow> 'e attempt_cache \<Rightarrow> nat \<times> 'e attempt_cache" where
  "finish_rule_attempt p enclosing_peak c =
     (ac_peak_depth c - pc_depth p, c\<lparr>ac_peak_depth := max (ac_peak_depth c) enclosing_peak\<rparr>)"

definition raise_peak :: "nat \<Rightarrow> 'e attempt_cache \<Rightarrow> 'e attempt_cache" where
  "raise_peak depth c = c\<lparr>ac_peak_depth := max (ac_peak_depth c) depth\<rparr>"

subsection \<open>The memo of failures\<close>

definition mark_position :: "nat \<Rightarrow> bool list \<Rightarrow> bool list" where
  "mark_position position positions =
     (let positions = (if length positions \<le> position
                       then positions @ replicate (position + 1 - length positions) False else positions)
      in positions[position := True])"

definition position_marked :: "bool list \<Rightarrow> nat \<Rightarrow> bool" where
  "position_marked positions position \<longleftrightarrow> position < length positions \<and> positions ! position"

text \<open>
  A recorded outcome is good at another depth when its height fits there; an outcome that exceeded the
  limit was recorded for its depth alone.
\<close>

definition at_depth :: "parser_cursor \<Rightarrow> rule_key \<Rightarrow> rule_key" where
  "at_depth p key = key\<lparr>rk_depth := Some (pc_depth p)\<rparr>"

definition failure_entry :: "parser_cursor \<Rightarrow> rule_key \<Rightarrow> 'e attempt_cache \<Rightarrow> (parse_error \<times> nat) option" where
  "failure_entry p key c =
     (case map_of (ac_failures c) key of
        Some (error, height) \<Rightarrow>
          if pc_depth p + height \<le> pc_max_recursion_depth p then Some (error, height)
          else map_of (ac_failures c) (at_depth p key)
      | None \<Rightarrow> map_of (ac_failures c) (at_depth p key))"

definition rule_attempt_failure :: "(bytes list \<Rightarrow> u64) \<Rightarrow> parser_cursor \<Rightarrow> bytes \<Rightarrow> 'e attempt_cache \<Rightarrow>
    parse_error option \<times> 'e attempt_cache" where
  "rule_attempt_failure name_hash p rule c =
     (if \<not> position_marked (ac_failure_positions c) (length (pc_remaining p)) then (None, c)
      else case rule_attempt_key name_hash c p rule of
             None \<Rightarrow> (None, c)
           | Some key \<Rightarrow>
               (case failure_entry p key c of
                  None \<Rightarrow> (None, c)
                | Some (error, height) \<Rightarrow> (Some error, raise_peak (pc_depth p + height) c)))"

definition recorded_key :: "parser_cursor \<Rightarrow> nat \<Rightarrow> rule_key \<Rightarrow> rule_key" where
  "recorded_key p height key = (if pc_depth p + height > pc_max_recursion_depth p then at_depth p key else key)"

definition cache_rule_attempt_failure :: "(bytes list \<Rightarrow> u64) \<Rightarrow> parser_cursor \<Rightarrow> bytes \<Rightarrow> parse_error \<Rightarrow> nat \<Rightarrow>
    'e attempt_cache \<Rightarrow> 'e attempt_cache" where
  "cache_rule_attempt_failure name_hash p rule error height c =
     (case rule_attempt_key name_hash c p rule of
        None \<Rightarrow> c
      | Some key \<Rightarrow>
          c\<lparr>ac_failure_positions := mark_position (length (pc_remaining p)) (ac_failure_positions c),
            ac_failures := AList.update (recorded_key p height key) (error, height) (ac_failures c)\<rparr>)"

subsection \<open>The memo of body walks\<close>

text \<open>A walk over a body that ran to the end of the input does so again from every position it passed.\<close>

definition make_body_walk_key :: "(bytes list \<Rightarrow> u64) \<Rightarrow> (bytes list \<Rightarrow> u64) \<Rightarrow> parser_cursor \<Rightarrow> bytes \<Rightarrow> 'e attempt_cache \<Rightarrow>
    body_walk_key option" where
  "make_body_walk_key name_hash address p rule c =
     map_option (\<lambda>attempt. \<lparr>wk_attempt = attempt, wk_boundaries = body_end_boundary_fingerprint address (ac_body_end_boundaries c)\<rparr>)
       (rule_attempt_key name_hash c p rule)"

definition walk_at_depth :: "parser_cursor \<Rightarrow> body_walk_key \<Rightarrow> body_walk_key" where
  "walk_at_depth p key = key\<lparr>wk_attempt := at_depth p (wk_attempt key)\<rparr>"

definition body_walk_reaches_input_end :: "parser_cursor \<Rightarrow> body_walk_key \<Rightarrow> 'e attempt_cache \<Rightarrow> bool \<times> 'e attempt_cache" where
  "body_walk_reaches_input_end p key c =
     (if \<not> position_marked (ac_body_walk_failure_positions c) (length (pc_remaining p)) then (False, c)
      else let pinned = map_of (ac_body_walk_failures c) (walk_at_depth p key);
               found = (case map_of (ac_body_walk_failures c) key of
                          Some height \<Rightarrow> if pc_depth p + height \<le> pc_max_recursion_depth p then Some height else pinned
                        | None \<Rightarrow> pinned)
           in case found of
                None \<Rightarrow> (False, c)
              | Some height \<Rightarrow> (True, raise_peak (pc_depth p + height) c))"

definition record_walk :: "parser_cursor \<Rightarrow> nat \<Rightarrow> nat \<times> body_walk_key \<Rightarrow> 'e attempt_cache \<Rightarrow> 'e attempt_cache" where
  "record_walk p height =
     (\<lambda>(position, key) c.
        c\<lparr>ac_body_walk_failure_positions := mark_position position (ac_body_walk_failure_positions c),
          ac_body_walk_failures :=
            AList.update (if pc_depth p + height > pc_max_recursion_depth p then walk_at_depth p key else key) height
              (ac_body_walk_failures c)\<rparr>)"

definition cache_body_walk_failure :: "parser_cursor \<Rightarrow> (nat \<times> body_walk_key) list \<Rightarrow> 'e attempt_cache \<Rightarrow> 'e attempt_cache" where
  "cache_body_walk_failure p visited c = fold (record_walk p (ac_peak_depth c - pc_depth p)) visited c"

subsection \<open>The memo of successes\<close>

definition RULE_ATTEMPT_SUCCESS_TOKEN_BUDGET :: nat where "RULE_ATTEMPT_SUCCESS_TOKEN_BUDGET = 4000000"

definition success_boundary_key :: "(bytes list \<Rightarrow> u64) \<Rightarrow> bytes \<Rightarrow> 'e attempt_cache \<Rightarrow> u64" where
  "success_boundary_key address rule c =
     (if rule = ''list'' then body_end_boundary_fingerprint address (ac_body_end_boundaries c) else 0)"

definition success_found_key :: "parser_cursor \<Rightarrow> success_key \<Rightarrow> 'e attempt_cache \<Rightarrow> success_key option" where
  "success_found_key p key c =
     (let deeper = (at_depth p (fst key), snd key);
          pinned = (if map_of (ac_successes c) deeper \<noteq> None then Some deeper else None)
      in case map_of (ac_successes c) key of
           Some (_, height, _) \<Rightarrow> if pc_depth p + height \<le> pc_max_recursion_depth p then Some key else pinned
         | None \<Rightarrow> pinned)"

definition rule_attempt_success :: "(bytes list \<Rightarrow> u64) \<Rightarrow> (bytes list \<Rightarrow> u64) \<Rightarrow> parser_cursor \<Rightarrow> bytes \<Rightarrow>
    'e attempt_cache \<Rightarrow> 'e stored_success option \<times> 'e attempt_cache" where
  "rule_attempt_success name_hash address p rule c =
     (if \<not> position_marked (ac_success_positions c) (length (pc_remaining p)) then (None, c)
      else case rule_attempt_key name_hash c p rule of
             None \<Rightarrow> (None, c)
           | Some attempt \<Rightarrow>
               (case success_found_key p (attempt, success_boundary_key address rule c) c of
                  None \<Rightarrow> (None, c)
                | Some key \<Rightarrow>
                    (case map_of (ac_successes c) key of
                       None \<Rightarrow> (None, c)
                     | Some (success, height, _) \<Rightarrow>
                         let tick = ac_success_clock c + 1;
                             c = c\<lparr>ac_success_clock := tick,
                                   ac_successes := AList.update key (success, height, tick) (ac_successes c)\<rparr>
                         in (Some success, raise_peak (pc_depth p + height) c))))"

text \<open>The coldest entries go until the tokens are within the target.\<close>

fun evict_loop :: "nat \<Rightarrow> (nat \<times> nat \<times> success_key) list \<Rightarrow>
    (success_key \<times> ('e stored_success \<times> nat \<times> nat)) list \<times> nat \<Rightarrow>
    (success_key \<times> ('e stored_success \<times> nat \<times> nat)) list \<times> nat" where
  "evict_loop target [] (entries, tokens) = (entries, tokens)"
| "evict_loop target ((tick, consumed, key) # coldest) (entries, tokens) =
     (if tokens \<le> target then (entries, tokens)
      else evict_loop target coldest
        (if map_of entries key \<noteq> None then (AList.delete key entries, tokens - consumed) else (entries, tokens)))"

definition coldest_first :: "(success_key \<times> ('e stored_success \<times> nat \<times> nat)) list \<Rightarrow> (nat \<times> nat \<times> success_key) list" where
  "coldest_first entries =
     sort_key fst (map (\<lambda>(key, success, _, tick). (tick, sc_consumed success, key)) entries)"

definition evict :: "(success_key \<times> ('e stored_success \<times> nat \<times> nat)) list \<times> nat \<Rightarrow>
    (success_key \<times> ('e stored_success \<times> nat \<times> nat)) list \<times> nat" where
  "evict =
     (\<lambda>(entries, tokens).
        if tokens > RULE_ATTEMPT_SUCCESS_TOKEN_BUDGET
        then evict_loop (RULE_ATTEMPT_SUCCESS_TOKEN_BUDGET * 3 div 4) (coldest_first entries) (entries, tokens)
        else (entries, tokens))"

definition insert_success :: "success_key \<Rightarrow> 'e stored_success \<Rightarrow> nat \<Rightarrow> 'e attempt_cache \<Rightarrow> 'e attempt_cache" where
  "insert_success key success height c =
     (let tick = ac_success_clock c + 1;
          tokens = (case map_of (ac_successes c) key of
                      Some (old, _, _) \<Rightarrow> ac_success_tokens c - sc_consumed old
                    | None \<Rightarrow> ac_success_tokens c) + sc_consumed success;
          (entries, tokens) = evict (AList.update key (success, height, tick) (ac_successes c), tokens)
      in c\<lparr>ac_success_clock := tick, ac_successes := entries, ac_success_tokens := tokens\<rparr>)"

definition new_success :: "parser_cursor \<Rightarrow> parser_cursor \<Rightarrow> 'e parse_success \<Rightarrow> 'e stored_success" where
  "new_success p sub output =
     \<lparr>sc_output = output, sc_consumed = length (pc_remaining p) - length (pc_remaining sub),
      sc_accepts_partial = pc_accepts_partial sub,
      sc_accepts_partial_offset =
        (if pc_accepts_partial_depth sub \<noteq> 0 then Some (int (unat (pc_accepts_partial_depth sub)) - int (pc_depth p)) else None),
      sc_in_footnote = pc_in_footnote sub, sc_in_note = pc_in_note sub, sc_in_color = pc_in_color sub,
      sc_has_footnote_block = pc_has_footnote_block sub, sc_start_of_line = pc_start_of_line sub,
      sc_native_blockquote_depth = pc_native_blockquote_depth sub, sc_quote_body_cursor = pc_quote_body_cursor sub,
      sc_wikidot = pc_wikidot sub\<rparr>"

text \<open>Only a success that left the shared items as they were is recorded; the flag of the footnote block may change.\<close>

definition same_indexes :: "mutable_state \<Rightarrow> mutable_state \<Rightarrow> bool" where
  "same_indexes a b \<longleftrightarrow>
     ms_footnote_index a = ms_footnote_index b \<and> ms_html_block_index a = ms_html_block_index b \<and>
     ms_code_block_index a = ms_code_block_index b \<and> ms_table_of_contents_index a = ms_table_of_contents_index b \<and>
     ms_bibliography_index a = ms_bibliography_index b"

definition cache_rule_attempt_success :: "(bytes list \<Rightarrow> u64) \<Rightarrow> (bytes list \<Rightarrow> u64) \<Rightarrow> parser_cursor \<Rightarrow> bytes \<Rightarrow>
    mutable_state \<Rightarrow> mutable_state \<Rightarrow> parser_cursor \<Rightarrow> 'e parse_success \<Rightarrow> nat \<Rightarrow> 'e attempt_cache \<Rightarrow> 'e attempt_cache" where
  "cache_rule_attempt_success name_hash address p rule before after sub output height c =
     (if rule = ''block'' \<or> \<not> same_indexes after before then c
      else case rule_attempt_key name_hash c p rule of
             None \<Rightarrow> c
           | Some attempt \<Rightarrow>
               let key = (recorded_key p height attempt, success_boundary_key address rule c);
                   c = insert_success key (new_success p sub output) height c
               in c\<lparr>ac_success_positions := mark_position (length (pc_remaining p)) (ac_success_positions c)\<rparr>)"

text \<open>The step over the consumed tokens panics behind the remaining ones.\<close>

definition apply_rule_attempt_success :: "'e stored_success \<Rightarrow> parser_cursor \<Rightarrow> parser_cursor option" where
  "apply_rule_attempt_success success p =
     map_option
       (\<lambda>p. p\<lparr>pc_accepts_partial := sc_accepts_partial success,
          pc_accepts_partial_depth :=
            (case sc_accepts_partial_offset success of
               None \<Rightarrow> 0
             | Some offset \<Rightarrow>
                 let depth = max (int (pc_depth p) + offset) 0 in if depth < 2 ^ 16 then of_int depth else - 1),
          pc_in_footnote := sc_in_footnote success, pc_in_note := sc_in_note success, pc_in_color := sc_in_color success,
          pc_has_footnote_block := sc_has_footnote_block success, pc_start_of_line := sc_start_of_line success,
          pc_native_blockquote_depth := sc_native_blockquote_depth success,
          pc_quote_body_cursor := sc_quote_body_cursor success, pc_wikidot := sc_wikidot success\<rparr>)
       (if sc_consumed success > 0 then step_to_remaining (sc_consumed success - 1) p else Some p)"


subsection \<open>Trying a rule\<close>

record parser_rule =
  pr_name :: bytes
  pr_start_of_line :: bool

definition FAILED_ATTEMPT_MEMO_MIN_TOKENS :: nat where "FAILED_ATTEMPT_MEMO_MIN_TOKENS = 16"

definition partial_rejection :: "parser_cursor \<Rightarrow> bytes \<Rightarrow> bytes \<Rightarrow> nat \<Rightarrow> 'e attempt_cache \<Rightarrow> parse_error option" where
  "partial_rejection p rule parent token_start c =
     map_of (ac_partial_rejections c) (rule, parent, token_start, pc_accepts_partial p)"

definition cache_partial_rejection :: "parser_cursor \<Rightarrow> bytes \<Rightarrow> bytes \<Rightarrow> nat \<Rightarrow> parse_error \<Rightarrow> 'e attempt_cache \<Rightarrow>
    'e attempt_cache" where
  "cache_partial_rejection p rule parent token_start error c =
     c\<lparr>ac_partial_rejections :=
       AList.update (rule, parent, token_start, pc_accepts_partial p) error (ac_partial_rejections c)\<rparr>"

definition outside_error :: "parse_error \<Rightarrow> bool" where
  "outside_error error \<longleftrightarrow> pe_kind error \<in> set [ListItemOutsideList, TableRowOutsideTable, TableCellOutsideTable,
     TabOutsideTabView, RubyTextOutsideRuby]"

definition note_rejection :: "parser_cursor \<Rightarrow> bytes \<Rightarrow> bytes \<Rightarrow> nat \<Rightarrow> parse_error \<Rightarrow> 'e attempt_cache \<Rightarrow> 'e attempt_cache" where
  "note_rejection p rule parent token_start error c =
     (if outside_error error then cache_partial_rejection p rule parent token_start error c else c)"

type_synonym ('e, 'c, 'w) rule_state = "parser_cursor \<times> ('e, 'c, 'w) shared_items \<times> 'e attempt_cache"
type_synonym ('e, 'c, 'w) rule_result = "((parse_error + 'e parse_success) \<times> ('e, 'c, 'w) rule_state) option"

record 'e attempt_environment =
  ae_partial_of :: "'e \<Rightarrow> partial_element option"
  ae_name_hash :: "bytes list \<Rightarrow> u64"
  ae_address :: "bytes list \<Rightarrow> u64"
  ae_at_hidden_body_boundary :: "parser_cursor \<Rightarrow> bool"

text \<open>A recorded success: its output is checked again, then it is applied to the parser.\<close>

definition replay_success :: "'e attempt_environment \<Rightarrow> bytes \<Rightarrow> 'e stored_success \<Rightarrow> ('e, 'c, 'w) rule_state \<Rightarrow>
    ('e, 'c, 'w) rule_result" where
  "replay_success env name success =
     (\<lambda>(p, s, c).
        case check_partials (ae_partial_of env) p (ps_item (sc_output success)) of
          Some error \<Rightarrow>
            (case reset_mutable_state (get_mutable_state (p, s)) (p, s) of
               (p', s') \<Rightarrow> Some (Inl error, p', s', note_rejection p name (pc_rule p) (et_start (pc_current p)) error c))
        | None \<Rightarrow>
            (case apply_rule_attempt_success success p of
               None \<Rightarrow> None
             | Some p' \<Rightarrow> Some (Inr (sc_output success), p', s, c)))"

text \<open>What follows a run of the rule's function on a clone.\<close>

definition finish_consume :: "'e attempt_environment \<Rightarrow> bytes \<Rightarrow> ('e, 'c, 'w) rule_state \<Rightarrow> nat \<Rightarrow>
    (parse_error + 'e parse_success) \<times> ('e, 'c, 'w) rule_state \<Rightarrow> ('e, 'c, 'w) rule_result" where
  "finish_consume env name before enclosing_peak outcome =
     (case (before, outcome) of
        ((p, s, _), (result, sub, s', c)) \<Rightarrow>
          let note = get_mutable_state (p, s);
              (height, c) = finish_rule_attempt p enclosing_peak c
          in (case result of
                Inl error \<Rightarrow>
                  let c = (if length (pc_remaining p) - length (pc_remaining sub) \<ge> FAILED_ATTEMPT_MEMO_MIN_TOKENS
                           then cache_rule_attempt_failure (ae_name_hash env) p name error height c else c);
                      p = (if pc_discarding_hidden_body p \<and> ae_at_hidden_body_boundary env sub then cursor_update p sub else p);
                      (p, s) = reset_mutable_state note (p, s')
                  in Some (Inl error, p, s, c)
              | Inr output \<Rightarrow>
                  (case check_partials (ae_partial_of env) p (ps_item output) of
                     Some error \<Rightarrow>
                       let (q, s) = reset_mutable_state note (p, s')
                       in Some (Inl error, q, s, note_rejection p name (pc_rule p) (et_start (pc_current p)) error c)
                   | None \<Rightarrow>
                       Some (Inr output, cursor_update p sub, s',
                         cache_rule_attempt_success (ae_name_hash env) (ae_address env) p name note
                           (get_mutable_state (sub, s')) sub output height c))))"

definition try_consume :: "'e attempt_environment \<Rightarrow> parser_rule \<Rightarrow> (('e, 'c, 'w) rule_state \<Rightarrow> ('e, 'c, 'w) rule_result) \<Rightarrow>
    ('e, 'c, 'w) rule_state \<Rightarrow> ('e, 'c, 'w) rule_result" where
  "try_consume env rule consume =
     (\<lambda>(p, s, c).
        if pr_start_of_line rule \<and> \<not> pc_start_of_line p then Some (Inl (make_err p NotStartOfLine), p, s, c)
        else case partial_rejection p (pr_name rule) (pc_rule p) (et_start (pc_current p)) c of
               Some error \<Rightarrow> Some (Inl error, p, s, c)
             | None \<Rightarrow>
        (case rule_attempt_failure (ae_name_hash env) p (pr_name rule) c of
           (Some error, c) \<Rightarrow> Some (Inl error, p, s, c)
         | (None, c) \<Rightarrow>
        (case rule_attempt_success (ae_name_hash env) (ae_address env) p (pr_name rule) c of
           (Some success, c) \<Rightarrow> replay_success env (pr_name rule) success (p, s, c)
         | (None, c) \<Rightarrow>
             let (enclosing_peak, c') = start_rule_attempt p c
             in (case consume (clone_with_rule (pr_name rule) p, s, c') of
                   None \<Rightarrow> None
                 | Some outcome \<Rightarrow> finish_consume env (pr_name rule) (p, s, c) enclosing_peak outcome))))"

subsection \<open>Replay\<close>

text \<open>What a rule left in its clone is what a replay makes of the parser.\<close>

lemma apply_new_success:
  assumes "pc_current p # pc_remaining p = passed @ pc_current sub # pc_remaining sub"
  shows "apply_rule_attempt_success (new_success p sub output) p = Some (cursor_update p sub)"
proof -
  have len: "length (pc_remaining p) - length (pc_remaining sub) = length passed"
    using arg_cong [OF assms, of length] by simp
  have depth: "max (int (pc_depth p) + (int (unat (pc_accepts_partial_depth sub)) - int (pc_depth p))) 0 =
      int (unat (pc_accepts_partial_depth sub))" by simp
  have fits: "int (unat (pc_accepts_partial_depth sub)) < 2 ^ 16"
    using unsigned_less [of "pc_accepts_partial_depth sub", where ?'a = int] by simp
  have word: "word_of_int (int (unat (pc_accepts_partial_depth sub))) = pc_accepts_partial_depth sub"
    by simp
  show ?thesis
  proof (cases passed)
    case Nil
    then show ?thesis
      using assms len fits
      by (simp add: apply_rule_attempt_success_def new_success_def cursor_update_def Let_def)
  next
    case (Cons t ts)
    have "pc_remaining p = ts @ pc_current sub # pc_remaining sub" using assms Cons by simp
    then show ?thesis
      using len fits
      by (simp add: apply_rule_attempt_success_def new_success_def cursor_update_def step_to_remaining_def Cons Let_def)
  qed
qed


subsection \<open>Failed attempts\<close>

text \<open>A rule that changes the shared items only by the operations of the parser, below its start.\<close>

definition journaled :: "(('e, 'c, 'w) rule_state \<Rightarrow> ('e, 'c, 'w) rule_result) \<Rightarrow> bool" where
  "journaled consume \<longleftrightarrow>
     (\<forall>p s c result p' s' c'. items_sound (p, s) \<longrightarrow> consume (p, s, c) = Some (result, p', s', c') \<longrightarrow>
       (\<exists>operations later. list_all (item_bounded (get_mutable_state (p, s))) operations \<and>
          item_journal.record_all operations (p, s) = Some later \<and> snd later = s'))"

text \<open>What a reset makes of the items that such a rule leaves: only operations that outlive it are left.\<close>

definition rolled_back :: "parser_cursor \<Rightarrow> ('e, 'c, 'w) shared_items \<Rightarrow> ('e, 'c, 'w) shared_items \<Rightarrow> bool" where
  "rolled_back p s s' \<longleftrightarrow>
     (\<exists>kept. list_all (item_outlives (get_mutable_state (p, s))) kept \<and> item_journal.record_all kept (p, s) = Some (p, s'))"

lemma rolled_back_refl: "rolled_back p s s"
  unfolding rolled_back_def by (rule exI [of _ "[]"]) simp

lemma rolled_back_settled: "rolled_back p s s' \<Longrightarrow> settled s' = settled s"
  unfolding rolled_back_def using all_outlive_keeps by fastforce

lemma record_all_cursor:
  assumes "item_journal.record_all operations (p, s) = Some later"
  shows "\<exists>later'. item_journal.record_all operations (q, s) = Some later' \<and> snd later' = snd later"
  using assms
proof (induction operations arbitrary: p q s)
  case (Cons x xs)
  obtain p1 s1 where 1: "item_apply x (p, s) = Some (p1, s1)" "item_journal.record_all xs (p1, s1) = Some later"
    using Cons.prems by (auto simp: bind_eq_Some_conv)
  have "\<exists>q1. item_apply x (q, s) = Some (q1, s1)"
    using 1(1) by (cases x) auto
  then obtain q1 where "item_apply x (q, s) = Some (q1, s1)" by blast
  then show ?case using Cons.IH [OF 1(2), of q1] by simp
qed auto

lemma journaled_rewinds:
  assumes "journaled consume" "consume (clone_with_rule name p, s, c) = Some (result, sub, s', c')" "items_sound (p, s)"
  shows "rolled_back p s (snd (reset_mutable_state (get_mutable_state (p, s)) (r, s')))"
proof -
  let ?m = "get_mutable_state (p, s)"
  have clone: "get_mutable_state (clone_with_rule name p, s) = ?m" "items_sound (clone_with_rule name p, s)"
    using assms(3) by (simp_all add: get_mutable_state_def items_sound_def clone_with_rule_def set_rule_def)
  obtain operations later where l: "list_all (item_bounded ?m) operations"
    "item_journal.record_all operations (clone_with_rule name p, s) = Some later" "snd later = s'"
    using assms(1,2) clone unfolding journaled_def by metis
  obtain later' where l': "item_journal.record_all operations (p, s) = Some later'" "snd later' = s'"
    using record_all_cursor [OF l(2), of p] l(3) by blast
  obtain kept where kept: "list_all (item_outlives ?m) kept"
    "item_journal.record_all kept (p, s) = Some (reset_mutable_state ?m later')"
    using reset_leaves [OF assms(3) l(1) l'(1)] by blast
  have "fst (reset_mutable_state ?m later') = p" using all_outlive_keeps [OF kept] by simp
  moreover have "snd (reset_mutable_state ?m later') = snd (reset_mutable_state ?m (r, s'))"
    using l'(2) by (cases later') (simp add: reset_mutable_state_def)
  ultimately have "reset_mutable_state ?m later' = (p, snd (reset_mutable_state ?m (r, s')))"
    by (metis prod.collapse)
  then show ?thesis using kept unfolding rolled_back_def by auto
qed

lemma reset_cursor: "fst (reset_mutable_state (get_mutable_state (p, s)) (p, s')) = p"
  by (simp add: reset_mutable_state_def get_mutable_state_def)

lemma reset_now: "items_sound (p, s) \<Longrightarrow> reset_mutable_state (get_mutable_state (p, s)) (p, s) = (p, s)"
  using rewind_now [of "(p, s)"] .

lemma replay_success_error:
  "items_sound (p, s) \<Longrightarrow> replay_success env name success (p, s, c) = Some (Inl error, p', s', c') \<Longrightarrow> p' = p \<and> s' = s"
  by (auto simp: replay_success_def reset_now split: option.splits)

lemma finish_consume_error:
  assumes "finish_consume env name (p, s, c) enclosing_peak (result, sub, s1, c1) = Some (Inl error, p', s', c')"
    "\<And>r. snd (reset_mutable_state (get_mutable_state (p, s)) (r, s1)) = s0"
  shows "s' = s0" "\<not> pc_discarding_hidden_body p \<Longrightarrow> p' = p"
proof -
  have reset: "reset_mutable_state (get_mutable_state (p, s)) (p, s1) = (p, s0)"
    using assms(2) [of p] reset_cursor [of p s s1] by (metis prod.collapse)
  obtain q where other: "reset_mutable_state (get_mutable_state (p, s)) (cursor_update p sub, s1) = (q, s0)"
    using assms(2) by (metis prod.collapse)
  show "s' = s0" "\<not> pc_discarding_hidden_body p \<Longrightarrow> p' = p"
    using assms(1) reset other
    by (auto simp: finish_consume_def finish_rule_attempt_def Let_def split: sum.splits option.splits if_splits prod.splits)
qed

lemma try_consume_cases:
  assumes "try_consume env rule consume (p, s, c) = Some (result, p', s', c')"
  obtains (memo) error where "result = Inl error" "p' = p" "s' = s"
    | (replay) success c1 where "replay_success env (pr_name rule) success (p, s, c1) = Some (result, p', s', c')"
    | (attempt) enclosing_peak c1 c2 outcome where "consume (clone_with_rule (pr_name rule) p, s, c2) = Some outcome"
        "finish_consume env (pr_name rule) (p, s, c1) enclosing_peak outcome = Some (result, p', s', c')"
  using assms unfolding try_consume_def
  by (auto simp: Let_def split: if_splits option.splits prod.splits)

lemma failed_attempt:
  assumes "journaled consume" "items_sound (p, s)"
    "try_consume env rule consume (p, s, c) = Some (Inl error, p', s', c')"
  shows "rolled_back p s s' \<and> (pc_discarding_hidden_body p \<or> p' = p)"
  using assms(3)
proof (cases rule: try_consume_cases)
  case (attempt enclosing_peak c1 c2 outcome)
  obtain result sub s1 c3 where o: "outcome = (result, sub, s1, c3)" by (cases outcome)
  let ?s0 = "snd (reset_mutable_state (get_mutable_state (p, s)) (p, s1))"
  have same: "snd (reset_mutable_state (get_mutable_state (p, s)) (r, s1)) = ?s0" for r
    by (simp add: reset_mutable_state_def)
  have "rolled_back p s ?s0"
    by (rule journaled_rewinds [OF assms(1) attempt(1) [unfolded o] assms(2)])
  then show ?thesis using finish_consume_error [OF attempt(2) [unfolded o] same] by blast
next
  case (replay success c1)
  then show ?thesis using replay_success_error [OF assms(2)] rolled_back_refl by blast
qed (simp add: rolled_back_refl)

lemma try_consume_success:
  assumes "try_consume env rule consume (p, s, c) = Some (Inr output, p', s', c')"
  shows "s' = s \<or> (\<exists>c2 sub c3. consume (clone_with_rule (pr_name rule) p, s, c2) = Some (Inr output, sub, s', c3) \<and>
    p' = cursor_update p sub)"
  using assms
proof (cases rule: try_consume_cases)
  case (attempt enclosing_peak c1 c2 outcome)
  then show ?thesis
    by (auto simp: finish_consume_def finish_rule_attempt_def Let_def split: sum.splits option.splits prod.splits)
qed (auto simp: replay_success_def split: option.splits prod.splits)

lemma rolled_back_journal:
  assumes "rolled_back p s s'"
  shows "\<exists>operations later. list_all (item_bounded (get_mutable_state (p, s))) operations \<and>
    item_journal.record_all operations (p, s) = Some later \<and> snd later = s'"
proof -
  obtain kept where "list_all (item_outlives (get_mutable_state (p, s))) kept" "item_journal.record_all kept (p, s) = Some (p, s')"
    using assms unfolding rolled_back_def by blast
  then show ?thesis by (intro exI [of _ kept] exI [of _ "(p, s')"]) (simp add: list_all_iff item_bounded_cases)
qed

text \<open>Trying is journaled itself, so rules may try rules.\<close>

lemma try_consume_journaled:
  assumes "journaled consume"
  shows "journaled (try_consume env rule consume)"
  unfolding journaled_def
proof (intro allI impI)
  fix p s c result p' s' c'
  assume sound: "items_sound (p, s)" and tried: "try_consume env rule consume (p, s, c) = Some (result, p', s', c')"
  show "\<exists>operations later. list_all (item_bounded (get_mutable_state (p, s))) operations \<and>
      item_journal.record_all operations (p, s) = Some later \<and> snd later = s'"
  proof (cases result)
    case (Inl error)
    then show ?thesis using failed_attempt [OF assms sound] tried rolled_back_journal by blast
  next
    case (Inr success)
    consider "s' = s" | c2 sub c3 where "consume (clone_with_rule (pr_name rule) p, s, c2) = Some (Inr success, sub, s', c3)"
      using try_consume_success tried Inr by blast
    then show ?thesis
    proof cases
      case 1
      then show ?thesis using rolled_back_journal [OF rolled_back_refl [of p s]] by simp
    next
      case 2
      have clone: "get_mutable_state (clone_with_rule (pr_name rule) p, s) = get_mutable_state (p, s)"
        "items_sound (clone_with_rule (pr_name rule) p, s)"
        using sound by (simp_all add: get_mutable_state_def items_sound_def clone_with_rule_def set_rule_def)
      then obtain operations later where l: "list_all (item_bounded (get_mutable_state (p, s))) operations"
          "item_journal.record_all operations (clone_with_rule (pr_name rule) p, s) = Some later" "snd later = s'"
        using assms 2 unfolding journaled_def by metis
      then show ?thesis using record_all_cursor [OF l(2), of p] by metis
    qed
  qed
qed

text \<open>So is one operation, and a step that is undone by a reset to a note of its own.\<close>

lemma journaled_operation:
  assumes "\<And>n. x \<noteq> TruncateFootnotes n"
  shows "journaled (\<lambda>(p, s, c). map_option (\<lambda>(p, s). (result, p, s, c)) (item_apply x (p, s)))"
  unfolding journaled_def
proof (intro allI impI)
  fix p s c result' p' s' c'
  assume "(\<lambda>(p, s, c). map_option (\<lambda>(p, s). (result, p, s, c)) (item_apply x (p, s))) (p, s, c) = Some (result', p', s', c')"
  then have "item_apply x (p, s) = Some (p', s')" by auto
  moreover have "item_bounded (get_mutable_state (p, s)) x" using assms by (cases x) auto
  ultimately show "\<exists>operations later. list_all (item_bounded (get_mutable_state (p, s))) operations \<and>
      item_journal.record_all operations (p, s) = Some later \<and> snd later = s'"
    by (intro exI [of _ "[x]"] exI [of _ "(p', s')"]) simp
qed

lemma journaled_undone:
  assumes "journaled consume"
  shows "journaled (\<lambda>(p, s, c). map_option
    (\<lambda>(result, p', s', c'). case reset_mutable_state (get_mutable_state (p, s)) (p', s') of (p', s') \<Rightarrow> (result, p', s', c'))
    (consume (clone_with_rule name p, s, c)))" (is "journaled ?undone")
  unfolding journaled_def
proof (intro allI impI)
  fix p s c result p' s' c'
  assume sound: "items_sound (p, s)" and u: "?undone (p, s, c) = Some (result, p', s', c')"
  obtain sub s1 where r: "consume (clone_with_rule name p, s, c) = Some (result, sub, s1, c')"
      "reset_mutable_state (get_mutable_state (p, s)) (sub, s1) = (p', s')"
  proof -
    obtain r2 sub s1 c2 where o: "consume (clone_with_rule name p, s, c) = Some (r2, sub, s1, c2)" using u by auto
    obtain p2 s2 where "reset_mutable_state (get_mutable_state (p, s)) (sub, s1) = (p2, s2)" by fastforce
    then show thesis using u o that by auto
  qed
  show "\<exists>operations later. list_all (item_bounded (get_mutable_state (p, s))) operations \<and>
      item_journal.record_all operations (p, s) = Some later \<and> snd later = s'"
    using rolled_back_journal [OF journaled_rewinds [OF assms r(1) sound, of sub]] r(2) by simp
qed

text \<open>And so is a rule that runs another and goes on with what it gives, or gives up with its error.\<close>

lemma bounded_grows:
  assumes "items_sound (p, s)" "list_all (item_bounded (get_mutable_state (p, s))) operations"
    "item_journal.record_all operations (p, s) = Some (q, s')"
  shows "length (si_footnotes s) \<le> length (si_footnotes s')"
proof -
  let ?m = "get_mutable_state (p, s)"
  obtain kept where kept: "list_all (item_outlives ?m) kept"
    "item_journal.record_all kept (p, s) = Some (reset_mutable_state ?m (q, s'))" using reset_leaves [OF assms] by blast
  then have "ms_footnote_index (get_mutable_state (reset_mutable_state ?m (q, s'))) = ms_footnote_index ?m"
    using all_outlive_keeps [OF kept] by simp
  then show ?thesis by (simp add: get_mutable_state_def reset_mutable_state_def)
qed

lemma bounded_later:
  "ms_footnote_index m \<le> ms_footnote_index m' \<Longrightarrow> item_bounded m' x \<Longrightarrow> item_bounded m x"
  by (cases x) auto

lemma journaled_then:
  assumes "journaled first" "\<And>success. journaled (go_on success)"
  shows "journaled (\<lambda>st. first st \<bind>
    (\<lambda>(result, st). case result of Inl error \<Rightarrow> Some (Inl error, st) | Inr success \<Rightarrow> go_on success st))"
  unfolding journaled_def
proof (intro allI impI)
  fix p s c result p' s' c'
  assume sound: "items_sound (p, s)" and run: "first (p, s, c) \<bind>
    (\<lambda>(result, st). case result of Inl error \<Rightarrow> Some (Inl error, st) | Inr success \<Rightarrow> go_on success st) = Some (result, p', s', c')"
  obtain result1 p1 s1 c1 where 1: "first (p, s, c) = Some (result1, p1, s1, c1)"
    using run by (auto simp: bind_eq_Some_conv)
  obtain ops1 q1 where ops1: "list_all (item_bounded (get_mutable_state (p, s))) ops1"
      "item_journal.record_all ops1 (p, s) = Some (q1, s1)"
    using assms(1) sound 1 unfolding journaled_def by (metis prod.collapse)
  show "\<exists>operations later. list_all (item_bounded (get_mutable_state (p, s))) operations \<and>
      item_journal.record_all operations (p, s) = Some later \<and> snd later = s'"
  proof (cases result1)
    case (Inl error)
    then show ?thesis using run 1 ops1 by auto
  next
    case (Inr success)
    then have 2: "go_on success (p1, s1, c1) = Some (result, p', s', c')" using run 1 by simp
    have "items_sound (p1, s1)"
      using item_journal.record_all_sound [OF sound ops1(2)] by (simp add: items_sound_def)
    then obtain ops2 later2 where ops2: "list_all (item_bounded (get_mutable_state (p1, s1))) ops2"
        "item_journal.record_all ops2 (p1, s1) = Some later2" "snd later2 = s'"
      using assms(2) 2 unfolding journaled_def by metis
    obtain later where later: "item_journal.record_all ops2 (q1, s1) = Some later" "snd later = s'"
      using record_all_cursor [OF ops2(2), of q1] ops2(3) by blast
    have grows: "ms_footnote_index (get_mutable_state (p, s)) \<le> ms_footnote_index (get_mutable_state (p1, s1))"
      using bounded_grows [OF sound ops1] by (simp add: get_mutable_state_def)
    then have "list_all (item_bounded (get_mutable_state (p, s))) (ops1 @ ops2)"
      using ops1(1) ops2(1) bounded_later [OF grows] by (auto simp: list_all_iff)
    moreover have "item_journal.record_all (ops1 @ ops2) (p, s) = Some later"
      using ops1(2) later(1) by (simp add: item_journal.record_all_append)
    ultimately show ?thesis using later(2) by blast
  qed
qed

text \<open>
  C32: A failed attempt is rolled back: let a rule change the shared items by any operations of the
  parser, those that a reset does not undo included, short of truncating the footnotes below its start.
  When trying it fails, by the rule, by a memo or by a partial element that the parser does not accept,
  the footnotes, blocks, headings and bibliographies are those from before, but for the counters of
  split citations and the row tails of earlier footnotes: what is left is what some such operations make
  of the items from before.  The parser is the one from before, or it discards a hidden body.  And
  trying the rule keeps the discipline, so rules may try rules.
\<close>

theorem failed_attempt_rolled_back:
  assumes "journaled consume" "items_sound (p, s)"
    "try_consume env rule consume (p, s, c) = Some (Inl error, p', s', c')"
  shows "settled s' = settled s \<and>
    (\<exists>kept. list_all (item_outlives (get_mutable_state (p, s))) kept \<and> item_journal.record_all kept (p, s) = Some (p, s')) \<and>
    (pc_discarding_hidden_body p \<or> p' = p) \<and> journaled (try_consume env rule consume)"
  using failed_attempt [OF assms] try_consume_journaled [OF assms(1)] rolled_back_settled [of p s s']
  unfolding rolled_back_def by blast

text \<open>A rule that pushes a footnote, takes a split citation and then fails.\<close>

definition example_rule :: "(string, string, unit) rule_state \<Rightarrow> (string, string, unit) rule_result" where
  "example_rule =
     (\<lambda>(p, s, c).
        let (_, s) = push_footnote [''lost''] s;
            (_, s) = allocate_bibliography_split_citation s;
            (_, p') = parser_step p
        in Some (Inl (make_err p' RuleFailed), p', s, c))"

definition example_environment :: "string attempt_environment" where
  "example_environment =
     \<lparr>ae_partial_of = (\<lambda>_. None), ae_name_hash = (\<lambda>_. 0), ae_address = (\<lambda>_. 0), ae_at_hidden_body_boundary = (\<lambda>_. False)\<rparr>"

lemma example_rule_journaled: "journaled example_rule"
  unfolding journaled_def
proof (intro allI impI)
  fix p s c result p' s' c'
  assume "example_rule (p, s, c) = Some (result, p', s', c')"
  then have "s' = snd (allocate_bibliography_split_citation (snd (push_footnote [''lost''] s)))"
    by (auto simp: example_rule_def Let_def split: prod.splits)
  then show "\<exists>operations later. list_all (item_bounded (get_mutable_state (p, s))) operations \<and>
      item_journal.record_all operations (p, s) = Some later \<and> snd later = s'"
    by (intro exI [of _ "[PushFootnote [''lost''], AllocateSplitCitation]"]) simp
qed

lemma finish_consume_failure:
  "\<exists>p' s' c'. finish_consume env name before enclosing_peak (Inl error, st) = Some (Inl error, p', s', c')"
  by (cases before; cases st)
     (simp add: finish_consume_def finish_rule_attempt_def Let_def split: prod.splits)

lemma new_cache_answers:
  "partial_rejection p rule parent token_start attempt_cache_new = None"
  "rule_attempt_failure name_hash p rule attempt_cache_new = (None, attempt_cache_new)"
  "rule_attempt_success name_hash address p rule attempt_cache_new = (None, attempt_cache_new)"
  by (simp_all add: partial_rejection_def rule_attempt_failure_def rule_attempt_success_def position_marked_def
      attempt_cache_new_def)

lemma try_consume_new:
  "\<not> pr_start_of_line rule \<Longrightarrow> try_consume env rule consume (p, s, attempt_cache_new) =
     (let (enclosing_peak, c') = start_rule_attempt p attempt_cache_new
      in case consume (clone_with_rule (pr_name rule) p, s, c') of
           None \<Rightarrow> None
         | Some outcome \<Rightarrow> finish_consume env (pr_name rule) (p, s, attempt_cache_new) enclosing_peak outcome)"
  by (simp add: try_consume_def new_cache_answers)

lemma example_rule_fails: "\<exists>error p1 s1. example_rule (p, s, c) = Some (Inl error, p1, s1, c)"
  by (simp add: example_rule_def Let_def split: prod.splits)

lemma failed_attempt_rolled_back_witness:
  "\<exists>error s' c'. try_consume example_environment \<lparr>pr_name = ''footnote'', pr_start_of_line = False\<rparr> example_rule
     (fst cited_items, snd cited_items, attempt_cache_new) = Some (Inl error, fst cited_items, s', c') \<and>
     settled s' = settled (snd cited_items)"
proof -
  let ?rule = "\<lparr>pr_name = ''footnote'', pr_start_of_line = False\<rparr>"
  let ?p = "fst cited_items" and ?s = "snd cited_items"
  obtain enclosing_peak c2 where start: "start_rule_attempt ?p attempt_cache_new = (enclosing_peak, c2 :: string attempt_cache)"
    by fastforce
  obtain error p1 s1 c1 where outcome: "example_rule (clone_with_rule ''footnote'' ?p, ?s, c2) = Some (Inl error, p1, s1, c1)"
    using example_rule_fails by blast
  have "\<exists>p' s' c'. try_consume example_environment ?rule example_rule (?p, ?s, attempt_cache_new) =
      Some (Inl error, p', s', c')"
    using finish_consume_failure by (simp add: try_consume_new start outcome)
  then obtain p' s' c' where tried: "try_consume example_environment ?rule example_rule (?p, ?s, attempt_cache_new) =
      Some (Inl error, p', s', c')"
    by blast
  have "items_sound (?p, ?s)" "\<not> pc_discarding_hidden_body ?p"
    by (simp_all add: items_sound_def cited_items_def example_items_def push_footnote_def shared_items_new_def push_bibliography_def
        parser_new_def)
  then show ?thesis
    using failed_attempt_rolled_back [OF example_rule_journaled _ tried] tried by auto
qed

end
