(* ===== verification/Attempt_Memos.thy ===== *)
theory Attempt_Memos
  imports "HOL-Library.Word" Rule_Attempt
begin

text \<open>
  Theorems on the memos of rule attempts: the memo of successes stays within its budget of tokens by
  giving up its coldest entries, a recorded success is found and replayed as the update it was, and
  the memo of failures is the list of the failures recorded, read from its end.
\<close>

subsection \<open>Eviction\<close>

type_synonym 'e success_entry = "success_key \<times> ('e stored_success \<times> nat \<times> nat)"

definition entry_consumed :: "'e stored_success \<times> nat \<times> nat \<Rightarrow> nat" where
  "entry_consumed v = sc_consumed (fst v)"

definition entry_tick :: "'e stored_success \<times> nat \<times> nat \<Rightarrow> nat" where
  "entry_tick v = snd (snd v)"

definition total_consumed :: "'e success_entry list \<Rightarrow> nat" where
  "total_consumed entries = sum_list (map (entry_consumed \<circ> snd) entries)"

lemma total_consumed_simps [simp]:
  "total_consumed [] = 0"
  "total_consumed ((k, v) # es) = entry_consumed v + total_consumed es"
  by (simp_all add: total_consumed_def)

lemma delete_absent: "k \<notin> fst ` set es \<Longrightarrow> AList.delete k es = es"
  by (induction es) auto

lemma total_delete:
  "distinct (map fst es) \<Longrightarrow> map_of es k = Some v \<Longrightarrow>
     total_consumed es = entry_consumed v + total_consumed (AList.delete k es)"
  by (induction es) (auto simp: delete_absent split: if_splits)

lemma total_update:
  "distinct (map fst es) \<Longrightarrow>
     total_consumed (AList.update k v es) + (case map_of es k of Some w \<Rightarrow> entry_consumed w | None \<Rightarrow> 0) =
     total_consumed es + entry_consumed v"
proof (induction es)
  case (Cons e es)
  obtain k' w where e: "e = (k', w)" by (cases e)
  show ?case
  proof (cases "k' = k")
    case True
    then have "map_of es k = None" using Cons.prems by (simp add: e map_of_eq_None_iff)
    then show ?thesis by (simp add: e True)
  next
    case False
    then show ?thesis using Cons by (simp add: e)
  qed
qed simp

definition coldest_ok :: "'e success_entry list \<Rightarrow> (nat \<times> nat \<times> success_key) list \<Rightarrow> bool" where
  "coldest_ok entries cold \<longleftrightarrow>
     distinct (map (snd \<circ> snd) cold) \<and>
     (\<forall>(tick, consumed, key) \<in> set cold. \<exists>v. map_of entries key = Some v \<and> entry_consumed v = consumed \<and> entry_tick v = tick)"

lemma coldest_ok_tail:
  assumes "coldest_ok entries ((tick, consumed, key) # cold)"
  shows "coldest_ok (AList.delete key entries) cold" "\<exists>v. map_of entries key = Some v \<and> entry_consumed v = consumed"
  using assms unfolding coldest_ok_def
  by (auto simp: map_of_delete image_iff split: prod.splits) fastforce+

text \<open>The loop deletes the first keys until what is left fits, or nothing is left of the list.\<close>

lemma evict_loop_spec:
  assumes "evict_loop target cold (entries, total_consumed entries) = (entries', tokens')"
    "distinct (map fst entries)" "coldest_ok entries cold"
  shows "\<exists>gone kept. cold = gone @ kept \<and> entries' = filter (\<lambda>e. fst e \<notin> (snd \<circ> snd) ` set gone) entries \<and>
     tokens' = total_consumed entries' \<and> (tokens' \<le> target \<or> kept = []) \<and>
     (gone \<noteq> [] \<longrightarrow> target < total_consumed (filter (\<lambda>e. fst e \<notin> (snd \<circ> snd) ` set (butlast gone)) entries))"
  using assms
proof (induction cold arbitrary: entries)
  case Nil
  then show ?case by (intro exI [of _ "[]"]) auto
next
  case (Cons x cold)
  obtain tick consumed key where x: "x = (tick, consumed, key)" by (cases x)
  show ?case
  proof (cases "total_consumed entries \<le> target")
    case True
    show ?thesis
      by (rule exI [of _ "[]"], rule exI [of _ "x # cold"]) (use Cons.prems(1) True in \<open>auto simp: x\<close>)
  next
    case False
    obtain v where v: "map_of entries key = Some v" "entry_consumed v = consumed"
      using coldest_ok_tail(2) Cons.prems(3) x by blast
    have "total_consumed entries - consumed = total_consumed (AList.delete key entries)"
      using total_delete [OF Cons.prems(2) v(1)] v(2) by simp
    then have "evict_loop target cold (AList.delete key entries, total_consumed (AList.delete key entries)) = (entries', tokens')"
      using Cons.prems(1) False v(1) by (simp add: x)
    moreover have "distinct (map fst (AList.delete key entries))"
      using Cons.prems(2) by (rule distinct_delete)
    moreover have "coldest_ok (AList.delete key entries) cold"
      using coldest_ok_tail(1) Cons.prems(3) unfolding x by blast
    ultimately obtain gone kept where g: "cold = gone @ kept"
      "entries' = filter (\<lambda>e. fst e \<notin> (snd \<circ> snd) ` set gone) (AList.delete key entries)"
      "tokens' = total_consumed entries'" "tokens' \<le> target \<or> kept = []"
      "gone \<noteq> [] \<longrightarrow> target < total_consumed (filter (\<lambda>e. fst e \<notin> (snd \<circ> snd) ` set (butlast gone)) (AList.delete key entries))"
      using Cons.IH [of "AList.delete key entries"] by blast
    have merge: "filter (\<lambda>e. fst e \<notin> (snd \<circ> snd) ` set g) (AList.delete key entries) =
        filter (\<lambda>e. fst e \<notin> (snd \<circ> snd) ` set (x # g)) entries" for g :: "(nat \<times> nat \<times> success_key) list"
      by (auto simp: x AList.delete_eq intro: filter_cong)
    have before: "target < total_consumed (filter (\<lambda>e. fst e \<notin> (snd \<circ> snd) ` set (butlast (x # gone))) entries)"
      using g(5) False merge [of "butlast gone"] by (cases "gone = []") auto
    have "entries' = filter (\<lambda>e. fst e \<notin> (snd \<circ> snd) ` set (x # gone)) entries"
      using g(2) merge [of gone] by (rule trans)
    then show ?thesis
      using g(1,3,4) before by (intro exI [of _ "x # gone"] exI [of _ kept]) (simp only: append_Cons simp_thms)
  qed
qed

lemma coldest_first_ok:
  assumes "distinct (map fst entries)"
  shows "coldest_ok entries (coldest_first entries)"
    "(snd \<circ> snd) ` set (coldest_first entries) = fst ` set entries"

proof -
  let ?view = "\<lambda>(key, success, _ :: nat, tick). (tick, sc_consumed success, key)"
  have keys: "map (snd \<circ> snd) (map ?view entries) = map fst entries"
    by (induction entries) auto
  have "distinct (map (snd \<circ> snd) (map ?view entries))" unfolding keys by (rule assms)
  then have "distinct (map (snd \<circ> snd) (coldest_first entries))"
    unfolding coldest_first_def by (simp add: distinct_map del: map_map) 
  then show "coldest_ok entries (coldest_first entries)"
    using assms by (force simp: coldest_ok_def coldest_first_def entry_consumed_def entry_tick_def)
  show "(snd \<circ> snd) ` set (coldest_first entries) = fst ` set entries"
    by (force simp: coldest_first_def)
qed

lemma coldest_first_sorted: "sorted (map fst (coldest_first entries))"
  by (simp add: coldest_first_def)


subsection \<open>The budget\<close>

definition success_ok :: "'e attempt_cache \<Rightarrow> bool" where
  "success_ok c \<longleftrightarrow>
     distinct (map fst (ac_successes c)) \<and> distinct (map (entry_tick \<circ> snd) (ac_successes c)) \<and>
     (\<forall>(k, v) \<in> set (ac_successes c). entry_tick v \<le> ac_success_clock c) \<and>
     ac_success_tokens c = total_consumed (ac_successes c) \<and> ac_success_tokens c \<le> RULE_ATTEMPT_SUCCESS_TOKEN_BUDGET"

lemma evict_spec:
  assumes "evict (entries, total_consumed entries) = (entries', tokens')" "distinct (map fst entries)"
  shows "\<exists>gone kept. coldest_first entries = gone @ kept \<and>
     entries' = filter (\<lambda>e. fst e \<notin> (snd \<circ> snd) ` set gone) entries \<and>
     tokens' = total_consumed entries' \<and> tokens' \<le> RULE_ATTEMPT_SUCCESS_TOKEN_BUDGET \<and>
     (gone \<noteq> [] \<longrightarrow> 3000000 < total_consumed (filter (\<lambda>e. fst e \<notin> (snd \<circ> snd) ` set (butlast gone)) entries))"
proof (cases "total_consumed entries > RULE_ATTEMPT_SUCCESS_TOKEN_BUDGET")
  case True
  then have "evict_loop (RULE_ATTEMPT_SUCCESS_TOKEN_BUDGET * 3 div 4) (coldest_first entries) (entries, total_consumed entries) =
      (entries', tokens')"
    using assms(1) by (simp add: evict_def)
  from evict_loop_spec [OF this assms(2) coldest_first_ok(1) [OF assms(2)]]
  obtain gone kept where g: "coldest_first entries = gone @ kept"
    "entries' = filter (\<lambda>e. fst e \<notin> (snd \<circ> snd) ` set gone) entries" "tokens' = total_consumed entries'"
    "tokens' \<le> RULE_ATTEMPT_SUCCESS_TOKEN_BUDGET * 3 div 4 \<or> kept = []"
    "gone \<noteq> [] \<longrightarrow> RULE_ATTEMPT_SUCCESS_TOKEN_BUDGET * 3 div 4 <
       total_consumed (filter (\<lambda>e. fst e \<notin> (snd \<circ> snd) ` set (butlast gone)) entries)" by blast
  have "tokens' \<le> RULE_ATTEMPT_SUCCESS_TOKEN_BUDGET"
  proof (cases "kept = []")
    case True
    then have "(snd \<circ> snd) ` set gone = fst ` set entries"
      using coldest_first_ok(2) [OF assms(2)] g(1) by simp
    then have "entries' = []" using g(2) by (auto simp: filter_empty_conv)
    then show ?thesis using g(3) by simp
  next
    case False
    then show ?thesis using g(4) by (simp add: RULE_ATTEMPT_SUCCESS_TOKEN_BUDGET_def)
  qed
  moreover have "RULE_ATTEMPT_SUCCESS_TOKEN_BUDGET * 3 div 4 = 3000000"
    by (simp add: RULE_ATTEMPT_SUCCESS_TOKEN_BUDGET_def)
  ultimately show ?thesis using g by (intro exI [of _ gone] exI [of _ kept]) simp
next
  case False
  then have "entries' = entries" "tokens' = total_consumed entries"
    using assms(1) by (auto simp: evict_def)
  then show ?thesis
    using False by (intro exI [of _ "[]"] exI [of _ "coldest_first entries"]) auto
qed

lemma update_in_set: "(k', v') \<in> set (AList.update k v es) \<Longrightarrow> (k', v') = (k, v) \<or> (k', v') \<in> set es"
  by (induction es) (auto split: if_splits)

lemma update_ticks:
  assumes "distinct (map (entry_tick \<circ> snd) es)" "\<forall>(k, v) \<in> set es. entry_tick v < entry_tick w"
  shows "distinct (map (entry_tick \<circ> snd) (AList.update k w es))"
  using assms
proof (induction es)
  case (Cons e es)
  obtain k' v where e: "e = (k', v)" by (cases e)
  show ?case
  proof (cases "k' = k")
    case True
    then show ?thesis using Cons.prems by (force simp: e)
  next
    case False
    have "entry_tick v \<noteq> entry_tick v'" if "(k'', v') \<in> set (AList.update k w es)" for k'' v'
      using update_in_set [OF that] Cons.prems by (force simp: e)
    then have "entry_tick v \<notin> set (map (entry_tick \<circ> snd) (AList.update k w es))" by force
    moreover have "distinct (map (entry_tick \<circ> snd) (AList.update k w es))"
      using Cons.IH Cons.prems by (simp add: e comp_def)
    ultimately show ?thesis using False by (simp add: e comp_def)
  qed
qed simp

lemma filter_distinct_map: "distinct (map f xs) \<Longrightarrow> distinct (map f (filter P xs))"
  by (induction xs) auto

lemma success_ok_insert:
  assumes "success_ok c"
  shows "success_ok (insert_success key success height c)"
proof -
  let ?v = "(success, height, ac_success_clock c + 1)"
  let ?entries = "AList.update key ?v (ac_successes c)"
  have ok: "distinct (map fst (ac_successes c))" "distinct (map (entry_tick \<circ> snd) (ac_successes c))"
    "\<forall>(k, v) \<in> set (ac_successes c). entry_tick v \<le> ac_success_clock c"
    "ac_success_tokens c = total_consumed (ac_successes c)"
    using assms by (simp_all add: success_ok_def)
  have tokens: "(case map_of (ac_successes c) key of Some (old, _, _) \<Rightarrow> ac_success_tokens c - sc_consumed old
      | None \<Rightarrow> ac_success_tokens c) + sc_consumed success = total_consumed ?entries"
    using total_update [OF ok(1), of key ?v] total_delete [OF ok(1), of key]
    by (auto simp: ok(4) entry_consumed_def split: option.splits)
  obtain entries' tokens' where e: "evict (?entries, total_consumed ?entries) = (entries', tokens')" by fastforce
  have keys: "distinct (map fst ?entries)" using ok(1) by (simp add: distinct_update)
  have ticks: "distinct (map (entry_tick \<circ> snd) ?entries)"
    by (rule update_ticks [OF ok(2)]) (use ok(3) in \<open>auto simp: entry_tick_def\<close>)
  have clock: "entry_tick v \<le> ac_success_clock c + 1" if "(k, v) \<in> set ?entries" for k v
    using update_in_set [OF that] ok(3) by (force simp: entry_tick_def)
  obtain gone kept where g: "coldest_first ?entries = gone @ kept" "entries' = filter (\<lambda>e. fst e \<notin> (snd \<circ> snd) ` set gone) ?entries"
    "tokens' = total_consumed entries'" "tokens' \<le> RULE_ATTEMPT_SUCCESS_TOKEN_BUDGET"
    using evict_spec [OF e keys] by blast
  have "insert_success key success height c =
      c\<lparr>ac_success_clock := ac_success_clock c + 1, ac_successes := entries', ac_success_tokens := tokens'\<rparr>"
    using e tokens by (simp add: insert_success_def Let_def)
  then show ?thesis
    using g keys ticks clock by (auto simp: success_ok_def filter_distinct_map)
qed


lemma map_of_delete_other: "k \<noteq> key \<Longrightarrow> map_of (AList.delete key es) k = map_of es k"
  by (simp add: delete_conv')

text \<open>A hit makes its entry the hottest.\<close>

lemma success_ok_touch:
  assumes "success_ok c" "map_of (ac_successes c) key = Some (success, height, tick)"
  shows "success_ok (c\<lparr>ac_success_clock := ac_success_clock c + 1,
    ac_successes := AList.update key (success, height, ac_success_clock c + 1) (ac_successes c)\<rparr>)"
proof -
  let ?v = "(success, height, ac_success_clock c + 1)"
  have ok: "distinct (map fst (ac_successes c))" "distinct (map (entry_tick \<circ> snd) (ac_successes c))"
    "\<forall>(k, v) \<in> set (ac_successes c). entry_tick v \<le> ac_success_clock c"
    "ac_success_tokens c = total_consumed (ac_successes c)" "ac_success_tokens c \<le> RULE_ATTEMPT_SUCCESS_TOKEN_BUDGET"
    using assms(1) by (simp_all add: success_ok_def)
  have "total_consumed (AList.update key ?v (ac_successes c)) = total_consumed (ac_successes c)"
    using total_update [OF ok(1), of key ?v] assms(2) by (simp add: entry_consumed_def)
  moreover have "distinct (map (entry_tick \<circ> snd) (AList.update key ?v (ac_successes c)))"
    by (rule update_ticks [OF ok(2)]) (use ok(3) in \<open>auto simp: entry_tick_def\<close>)
  moreover have "entry_tick v \<le> ac_success_clock c + 1" if "(k, v) \<in> set (AList.update key ?v (ac_successes c))" for k v
    using update_in_set [OF that] ok(3) by (force simp: entry_tick_def)
  ultimately show ?thesis
    using ok by (auto simp: success_ok_def distinct_update)
qed

lemma success_ok_positions [simp]: "success_ok (c\<lparr>ac_success_positions := positions\<rparr>) = success_ok c"
  by (simp add: success_ok_def)

lemma success_ok_lookup:
  assumes "success_ok c"
  shows "success_ok (snd (rule_attempt_success name_hash address p rule c))"
proof -
  have touch: "success_ok (raise_peak d (c\<lparr>ac_success_clock := ac_success_clock c + 1,
      ac_successes := AList.update key (success, height, ac_success_clock c + 1) (ac_successes c)\<rparr>))"
    if "map_of (ac_successes c) key = Some (success, height, tick)" for d key success height tick
    using success_ok_touch [OF assms that] by (simp add: raise_peak_def success_ok_def)
  show ?thesis
  proof (cases "position_marked (ac_success_positions c) (length (pc_remaining p))")
    case True
    show ?thesis
    proof (cases "rule_attempt_key name_hash c p rule")
      case (Some attempt)
      show ?thesis
      proof (cases "success_found_key p (attempt, success_boundary_key address rule c) c")
        case found: (Some key)
        show ?thesis
        proof (cases "map_of (ac_successes c) key")
          case entry: (Some v)
          obtain success height tick where v: "v = (success, height, tick)" by (cases v)
          show ?thesis
            using True Some found entry v touch [of key success height tick]
            by (simp add: rule_attempt_success_def Let_def)
        qed (use assms True Some found in \<open>simp add: rule_attempt_success_def\<close>)
      qed (use assms True Some in \<open>simp add: rule_attempt_success_def\<close>)
    qed (use assms True in \<open>simp add: rule_attempt_success_def\<close>)
  qed (use assms in \<open>simp add: rule_attempt_success_def\<close>)
qed

lemma success_ok_record:
  assumes "success_ok c"
  shows "success_ok (cache_rule_attempt_success name_hash address p rule before after sub result height c)"
  using assms success_ok_insert [OF assms]
  by (simp add: cache_rule_attempt_success_def Let_def split: option.splits)

datatype 'e memo_event =
    RecordSuccess parser_cursor bytes mutable_state mutable_state parser_cursor "'e parse_success" nat
  | LookUpSuccess parser_cursor bytes

fun memo_apply :: "(bytes list \<Rightarrow> u64) \<Rightarrow> (bytes list \<Rightarrow> u64) \<Rightarrow> 'e memo_event \<Rightarrow> 'e attempt_cache \<Rightarrow> 'e attempt_cache" where
  "memo_apply name_hash address (RecordSuccess p rule before after sub result height) c =
     cache_rule_attempt_success name_hash address p rule before after sub result height c"
| "memo_apply name_hash address (LookUpSuccess p rule) c = snd (rule_attempt_success name_hash address p rule c)"

lemma success_ok_run: "success_ok c \<Longrightarrow> success_ok (fold (memo_apply name_hash address) events c)"
proof (induction events arbitrary: c)
  case (Cons e es)
  then show ?case by (cases e) (simp_all add: success_ok_record success_ok_lookup)
qed simp

lemma success_ok_facts:
  assumes "success_ok c"
  shows "ac_success_tokens c = total_consumed (ac_successes c)" "ac_success_tokens c \<le> 4000000"
    "distinct (map fst (ac_successes c))" "distinct (map (entry_tick \<circ> snd) (ac_successes c))"
    "list_all (\<lambda>e. entry_tick (snd e) \<le> ac_success_clock c) (ac_successes c)"
  using assms by (auto simp: success_ok_def list_all_iff RULE_ATTEMPT_SUCCESS_TOKEN_BUDGET_def)

lemma success_ok_new [simp]: "success_ok attempt_cache_new"
  by (simp add: success_ok_def attempt_cache_new_def)

text \<open>
  C35: Whatever successes are recorded and looked up, the memo of successes counts exactly the tokens
  of the entries it holds, never more than four million after an operation, and the moments of last use
  of its entries are all different and not in the future, so the order in which the hash map is read
  does not matter for the eviction.
\<close>

theorem success_memo_bounded:
  "let c = fold (memo_apply name_hash address) events attempt_cache_new
   in ac_success_tokens c = total_consumed (ac_successes c) \<and> ac_success_tokens c \<le> 4000000 \<and>
      distinct (map fst (ac_successes c)) \<and> distinct (map (entry_tick \<circ> snd) (ac_successes c)) \<and>
      list_all (\<lambda>e. entry_tick (snd e) \<le> ac_success_clock c) (ac_successes c)"
proof -
  let ?c = "fold (memo_apply name_hash address) events attempt_cache_new"
  have "success_ok ?c" by (rule success_ok_run [OF success_ok_new])
  note success_ok_facts [OF this]
  then show ?thesis by (simp only: Let_def simp_thms)
qed

text \<open>The order in which the entries are read does not matter, and what goes is colder than what stays.\<close>

lemma coldest_first_perm:
  assumes "mset es = mset fs" "distinct (map (entry_tick \<circ> snd) es)"
  shows "coldest_first es = coldest_first fs"
proof -
  let ?view = "\<lambda>(key, success, _ :: nat, tick). (tick, sc_consumed success, key)"
  have m: "mset (map ?view es) = mset (map ?view fs)"
    using arg_cong [OF assms(1), of "image_mset ?view"] by (simp only: mset_map)
  have ticks: "map fst (map ?view es) = map (entry_tick \<circ> snd) es"
    by (simp add: entry_tick_def case_prod_beta)
  have "distinct (map fst (map ?view es))" unfolding ticks by (rule assms(2))
  then have "inj_on fst (set (map ?view es))" by (simp only: distinct_map)
  then have "sort_key fst (map ?view es) = sort_key fst (map ?view fs)"
    using m by (intro sort_key_inj_key_eq) (simp_all del: mset_map)
  then show ?thesis by (simp only: coldest_first_def)
qed

lemma coldest_go_first:
  assumes "coldest_first entries = gone @ kept" "(t, n, k) \<in> set gone" "(t', n', k') \<in> set kept"
  shows "t \<le> t'"
  using assms coldest_first_sorted [of entries] by (fastforce simp: sorted_append)


subsection \<open>Recorded walks\<close>

lemma mark_position_keeps: "position_marked positions n \<Longrightarrow> position_marked (mark_position m positions) n"
  by (auto simp: position_marked_def mark_position_def Let_def nth_list_update nth_append)

lemma mark_position_marked: "position_marked (mark_position n positions) n"
  by (simp add: position_marked_def mark_position_def Let_def)

lemma record_walk_keeps:
  "position_marked (ac_body_walk_failure_positions c) n \<Longrightarrow>
     position_marked (ac_body_walk_failure_positions (fold (record_walk p height) visited c)) n"
  by (induction visited arbitrary: c) (auto simp: record_walk_def mark_position_keeps)

lemma record_walk_height:
  "map_of (ac_body_walk_failures c) key = Some height \<Longrightarrow>
     map_of (ac_body_walk_failures (fold (record_walk p height) visited c)) key = Some height"
  by (induction visited arbitrary: c) (auto simp: record_walk_def update_conv')

text \<open>A walk that comes to a recorded position in its context is known to fail.\<close>

lemma recorded_walk_found:
  assumes "(position, key) \<in> set visited" "position = length (pc_remaining q)" "pc_depth q = pc_depth p"
    "pc_max_recursion_depth q = pc_max_recursion_depth p"
  shows "fst (body_walk_reaches_input_end q key (cache_body_walk_failure p visited c))"
proof -
  obtain before after where v: "visited = before @ (position, key) # after"
    using assms(1) by (auto simp: in_set_conv_decomp)
  let ?height = "ac_peak_depth c - pc_depth p"
  let ?k = "if pc_depth p + ?height > pc_max_recursion_depth p then walk_at_depth p key else key"
  let ?c = "fold (record_walk p ?height) (before @ [(position, key)]) c"
  have "position_marked (ac_body_walk_failure_positions ?c) position" "map_of (ac_body_walk_failures ?c) ?k = Some ?height"
    by (simp_all add: record_walk_def mark_position_marked update_conv')
  then have f: "position_marked (ac_body_walk_failure_positions (cache_body_walk_failure p visited c)) position"
    "map_of (ac_body_walk_failures (cache_body_walk_failure p visited c)) ?k = Some ?height"
    using record_walk_keeps [of ?c position p ?height after] record_walk_height [of ?c ?k ?height p after]
    by (simp_all add: cache_body_walk_failure_def v)
  have "walk_at_depth q key = walk_at_depth p key" by (simp add: walk_at_depth_def at_depth_def assms(3))
  then show ?thesis
    using f assms(2,3,4) by (auto simp: body_walk_reaches_input_end_def Let_def split: option.splits if_splits)
qed

subsection \<open>Recorded successes\<close>

lemma map_of_filter_keys: "map_of (filter (\<lambda>e. fst e \<notin> K) es) k = (if k \<in> K then None else map_of es k)"
  by (induction es) auto

lemma total_single:
  assumes "distinct (map fst es)" "\<And>e. e \<in> set es \<Longrightarrow> e = (k, v)"
  shows "total_consumed es \<le> entry_consumed v"
proof (cases es)
  case (Cons e fs)
  then have "e = (k, v)" using assms(2) by simp
  moreover have "fs = []"
  proof (cases fs)
    case (Cons f gs)
    then have "f = (k, v)" using assms(2) \<open>es = e # fs\<close> by simp
    then show ?thesis using assms(1) Cons \<open>es = e # fs\<close> calculation by simp
  qed
  ultimately show ?thesis using Cons by simp
qed simp

lemma coldest_view:
  assumes "distinct (map fst entries)" "y \<in> set (coldest_first entries)"
  shows "\<exists>w. map_of entries (snd (snd y)) = Some w \<and> entry_tick w = fst y"
proof -
  obtain tick n k where y: "y = (tick, n, k)" by (cases y)
  show ?thesis
    using coldest_first_ok(1) [OF assms(1)] assms(2) unfolding coldest_ok_def y by auto
qed

lemma hottest_is_last:
  assumes "distinct (map fst entries)" "map_of entries key = Some v"
    "\<And>k w. map_of entries k = Some w \<Longrightarrow> k \<noteq> key \<Longrightarrow> entry_tick w < entry_tick v"
  shows "\<exists>before y. coldest_first entries = before @ [y] \<and> snd (snd y) = key"
proof -
  have "key \<in> (snd \<circ> snd) ` set (coldest_first entries)"
    unfolding coldest_first_ok(2) [OF assms(1)] using map_of_SomeD [OF assms(2)] by (rule image_eqI [rotated]) simp
  then obtain x where x: "x \<in> set (coldest_first entries)" "snd (snd x) = key" by auto
  have tick_x: "fst x = entry_tick v"
    using coldest_view [OF assms(1) x(1)] x(2) assms(2) by simp
  obtain before y where y: "coldest_first entries = before @ [y]"
    using x(1) by (cases "coldest_first entries" rule: rev_cases) auto
  have "snd (snd y) = key"
  proof (rule ccontr)
    assume ne: "snd (snd y) \<noteq> key"
    have "y \<in> set (coldest_first entries)" by (simp add: y)
    from coldest_view [OF assms(1) this] obtain w where "map_of entries (snd (snd y)) = Some w" "entry_tick w = fst y"
      by blast
    then have "fst y < fst x" using assms(3) [of "snd (snd y)" w] ne tick_x by simp
    moreover have "x \<in> set before" using x ne by (auto simp: y)
    then have "fst x \<le> fst y" using coldest_first_sorted [of entries] by (auto simp: y sorted_append)
    ultimately show False by simp
  qed
  then show ?thesis using y by blast
qed

text \<open>The entry that is the hottest and fits the target survives.\<close>

lemma hottest_survives:
  assumes "coldest_first entries = gone @ kept" "distinct (map fst entries)"
    "map_of entries key = Some v"
    "\<And>k w. map_of entries k = Some w \<Longrightarrow> k \<noteq> key \<Longrightarrow> entry_tick w < entry_tick v"
    "entry_consumed v \<le> target"
    "gone \<noteq> [] \<Longrightarrow> target < total_consumed (filter (\<lambda>e. fst e \<notin> (snd \<circ> snd) ` set (butlast gone)) entries)"
  shows "key \<notin> (snd \<circ> snd) ` set gone"
proof
  assume gone: "key \<in> (snd \<circ> snd) ` set gone"
  obtain before y where y: "coldest_first entries = before @ [y]" "snd (snd y) = key"
    using hottest_is_last [OF assms(2,3)] assms(4) by blast
  have d: "distinct (map (snd \<circ> snd) (coldest_first entries))"
    using coldest_first_ok(1) [OF assms(2)] by (simp add: coldest_ok_def)
  have "kept = []"
  proof (rule ccontr)
    assume "kept \<noteq> []"
    then obtain zs where "kept = zs @ [y]" using assms(1) y(1) by (cases kept rule: rev_cases) auto
    then have "key \<notin> set (map (snd \<circ> snd) gone)" using d y(2) unfolding assms(1) by auto
    then show False using gone by simp
  qed
  then have g: "gone = before @ [y]" using assms(1) y(1) by simp
  let ?rest = "filter (\<lambda>e. fst e \<notin> (snd \<circ> snd) ` set before) entries"
  have covered: "fst ` set entries = insert key ((snd \<circ> snd) ` set before)"
    using coldest_first_ok(2) [OF assms(2)] y by simp
  have "distinct (map fst ?rest)" using assms(2) by (rule filter_distinct_map)
  moreover have "e = (key, v)" if "e \<in> set ?rest" for e
  proof -
    have e: "e \<in> set entries" "fst e \<notin> (snd \<circ> snd) ` set before" using that by simp_all
    have "fst e \<in> insert key ((snd \<circ> snd) ` set before)" using imageI [OF e(1), of fst] covered by simp
    then have "fst e = key" using e(2) by blast
    moreover have "map_of entries (fst e) = Some (snd e)"
      using e(1) assms(2) by (intro map_of_is_SomeI) auto
    ultimately show ?thesis using assms(3) by (cases e) simp
  qed
  ultimately have "total_consumed ?rest \<le> entry_consumed v" by (rule total_single)
  then show False using assms(5,6) g by simp
qed


lemma insert_success_found:
  assumes "success_ok c" "sc_consumed success \<le> 3000000"
  shows "map_of (ac_successes (insert_success key success height c)) key = Some (success, height, ac_success_clock c + 1)"
    "k \<noteq> key \<Longrightarrow> map_of (ac_successes (insert_success key success height c)) k = Some w \<Longrightarrow>
       map_of (ac_successes c) k = Some w"
proof -
  let ?v = "(success, height, ac_success_clock c + 1)"
  let ?entries = "AList.update key ?v (ac_successes c)"
  have ok: "distinct (map fst (ac_successes c))"
    "\<forall>(k, v) \<in> set (ac_successes c). entry_tick v \<le> ac_success_clock c"
    "ac_success_tokens c = total_consumed (ac_successes c)"
    using assms by (simp_all add: success_ok_def)
  have tokens: "(case map_of (ac_successes c) key of Some (old, _, _) \<Rightarrow> ac_success_tokens c - sc_consumed old
      | None \<Rightarrow> ac_success_tokens c) + sc_consumed success = total_consumed ?entries"
    using total_update [OF ok(1), of key ?v] total_delete [OF ok(1), of key]
    by (auto simp: ok(3) entry_consumed_def split: option.splits)
  obtain entries' tokens' where e: "evict (?entries, total_consumed ?entries) = (entries', tokens')" by fastforce
  have keys: "distinct (map fst ?entries)" using ok(1) by (simp add: distinct_update)
  obtain gone kept where g: "coldest_first ?entries = gone @ kept"
    "entries' = filter (\<lambda>e. fst e \<notin> (snd \<circ> snd) ` set gone) ?entries"
    "gone \<noteq> [] \<longrightarrow> 3000000 < total_consumed (filter (\<lambda>e. fst e \<notin> (snd \<circ> snd) ` set (butlast gone)) ?entries)"
    using evict_spec [OF e keys] by blast
  have new: "ac_successes (insert_success key success height c) = entries'"
    using e tokens by (simp add: insert_success_def Let_def)
  have at: "map_of ?entries k = (if k = key then Some ?v else map_of (ac_successes c) k)" for k
    by (simp add: update_conv')
  have "entry_tick w < entry_tick ?v" if w: "map_of ?entries k = Some w" "k \<noteq> key" for k w
  proof -
    have "(k, w) \<in> set (ac_successes c)" using w at by (simp add: map_of_SomeD)
    then show ?thesis using ok(2) by (auto simp: entry_tick_def)
  qed
  then have "key \<notin> (snd \<circ> snd) ` set gone"
    using hottest_survives [OF g(1) keys, of key ?v 3000000] at assms(2) g(3) by (simp add: entry_consumed_def)
  then show "map_of (ac_successes (insert_success key success height c)) key = Some ?v"
    by (simp only: new g(2) map_of_filter_keys at if_False simp_thms if_True)
  show "k \<noteq> key \<Longrightarrow> map_of (ac_successes (insert_success key success height c)) k = Some w \<Longrightarrow>
       map_of (ac_successes c) k = Some w"
    unfolding new g(2) map_of_filter_keys at by (simp split: if_splits)
qed

lemma insert_success_fields [simp]:
  "ac_inline_container_body_names (insert_success key success height c) = ac_inline_container_body_names c"
  "ac_body_end_boundaries (insert_success key success height c) = ac_body_end_boundaries c"
  "ac_success_positions (insert_success key success height c) = ac_success_positions c"
  by (simp_all add: insert_success_def Let_def split: prod.splits)

lemma recorded_success_found:
  assumes "success_ok c" "rule \<noteq> ''block''" "same_indexes after before"
    "rule_attempt_key name_hash c p rule = Some attempt"
    "success_found_key p (attempt, success_boundary_key address rule c) c = None"
    "length (pc_remaining p) - length (pc_remaining sub) \<le> 3000000"
  shows "fst (rule_attempt_success name_hash address p rule
      (cache_rule_attempt_success name_hash address p rule before after sub result height c)) =
    Some (new_success p sub result)"
proof -
  let ?plain = "(attempt, success_boundary_key address rule c)"
  let ?key = "(recorded_key p height attempt, success_boundary_key address rule c)"
  let ?c = "insert_success ?key (new_success p sub result) height c"
  let ?d = "?c\<lparr>ac_success_positions := mark_position (length (pc_remaining p)) (ac_success_positions c)\<rparr>"
  have c: "cache_rule_attempt_success name_hash address p rule before after sub result height c = ?d"
    using assms(2,3,4) by (simp add: cache_rule_attempt_success_def Let_def)
  have same: "ac_successes ?d = ac_successes ?c" by simp
  have key: "rule_attempt_key name_hash ?d p rule = Some attempt"
    using assms(4) by (simp add: rule_attempt_key_def split: if_splits)
  have boundary: "success_boundary_key address rule ?d = success_boundary_key address rule c"
    by (simp add: success_boundary_key_def)
  have "sc_consumed (new_success p sub result) \<le> 3000000" using assms(6) by (simp add: new_success_def)
  note ins = insert_success_found [OF assms(1) this, where key = ?key and height = height]
  have none: "rk_depth attempt = None" using assms(4) by (auto simp: rule_attempt_key_def split: if_splits)
  have found: "success_found_key p ?plain ?d = Some ?key"
  proof (cases "pc_depth p + height \<le> pc_max_recursion_depth p")
    case True
    then have k: "?key = ?plain" by (simp add: recorded_key_def)
    have "map_of (ac_successes ?d) ?plain = Some (new_success p sub result, height, ac_success_clock c + 1)"
      using ins(1) same unfolding k by simp
    then show ?thesis using True unfolding k by (simp add: success_found_key_def)
  next
    case False
    then have k: "?key = (at_depth p attempt, success_boundary_key address rule c)" by (simp add: recorded_key_def)
    have "map_of (ac_successes ?d) ?key = Some (new_success p sub result, height, ac_success_clock c + 1)"
      using ins(1) same by simp
    moreover have "at_depth p attempt \<noteq> attempt" using none by (cases attempt) (simp add: at_depth_def)
    then have ne: "?plain \<noteq> ?key" unfolding k by simp
    have "\<not> pc_depth p + h \<le> pc_max_recursion_depth p" if "map_of (ac_successes ?d) ?plain = Some (s, h, t)" for s h t
      using ins(2) [OF ne, of "(s, h, t)"] that same assms(5)
      by (auto simp: success_found_key_def Let_def split: if_splits)
    ultimately show ?thesis
      unfolding success_found_key_def Let_def k by (auto split: option.splits)
  qed
  have "position_marked (ac_success_positions ?d) (length (pc_remaining p))"
    by (simp add: mark_position_marked)
  then show ?thesis
    unfolding c using key boundary found ins(1) same
    by (simp add: rule_attempt_success_def Let_def)
qed

text \<open>
  C34: A success that is recorded is found again and replayed as the update it was: when a rule other
  than the block rule has added no shared items and has gone over at most three million tokens, a later
  lookup at the same parser answers what was recorded, whatever else was evicted for it, and applying
  the answer makes of the parser what taking over the rule's clone makes of it, with its position, the
  depth for partial elements and every other field.
\<close>

theorem recorded_success_replays:
  assumes "success_ok c" "rule \<noteq> ''block''" "same_indexes after before"
    "rule_attempt_key name_hash c p rule = Some attempt"
    "success_found_key p (attempt, success_boundary_key address rule c) c = None"
    "pc_current p # pc_remaining p = passed @ pc_current sub # pc_remaining sub" "length passed \<le> 3000000"
  shows "\<exists>success. fst (rule_attempt_success name_hash address p rule
      (cache_rule_attempt_success name_hash address p rule before after sub result height c)) = Some success \<and>
    sc_output success = result \<and> apply_rule_attempt_success success p = Some (cursor_update p sub)"
proof -
  have "length (pc_remaining p) - length (pc_remaining sub) = length passed"
    using arg_cong [OF assms(6), of length] by simp
  then have "fst (rule_attempt_success name_hash address p rule
      (cache_rule_attempt_success name_hash address p rule before after sub result height c)) = Some (new_success p sub result)"
    using recorded_success_found [OF assms(1-5)] assms(7) by simp
  moreover have "sc_output (new_success p sub result) = result" by (simp add: new_success_def)
  ultimately show ?thesis using apply_new_success [OF assms(6)] by blast
qed

definition example_parser :: parser_cursor where
  "example_parser = the (parser_new ''ab'' True True
     [\<lparr>et_token = InputStart, et_slice = [], et_start = 0, et_end = 0\<rparr>,
      \<lparr>et_token = Identifier, et_slice = ''ab'', et_start = 0, et_end = 2\<rparr>] 8)"

definition example_note :: mutable_state where
  "example_note = get_mutable_state (example_parser, shared_items_new :: (string, string, unit) shared_items)"

lemma recorded_success_replays_witness:
  "\<exists>success. fst (rule_attempt_success (\<lambda>_. 0) (\<lambda>_. 0) example_parser ''text''
      (cache_rule_attempt_success (\<lambda>_. 0) (\<lambda>_. 0) example_parser ''text'' example_note example_note (snd (parser_step example_parser))
        (success_value [''ab''] [] True) 1 attempt_cache_new)) = Some success \<and>
    sc_output success = success_value [''ab''] [] True \<and>
    apply_rule_attempt_success success example_parser = Some (cursor_update example_parser (snd (parser_step example_parser)))"
proof -
  obtain attempt where k: "rule_attempt_key (\<lambda>_. 0) (attempt_cache_new :: string attempt_cache) example_parser ''text'' = Some attempt"
    by (simp add: rule_attempt_key_def example_parser_def parser_new_def)
  have found: "success_found_key example_parser (attempt, success_boundary_key (\<lambda>_. 0) ''text'' (attempt_cache_new :: string attempt_cache))
      (attempt_cache_new :: string attempt_cache) = None"
    by (simp add: success_found_key_def attempt_cache_new_def)
  have tokens: "pc_current example_parser # pc_remaining example_parser =
      [pc_current example_parser] @ pc_current (snd (parser_step example_parser)) # pc_remaining (snd (parser_step example_parser))"
    by (simp add: example_parser_def parser_new_def parser_step_def Let_def)
  show ?thesis
    by (rule recorded_success_replays [OF success_ok_new _ _ k found tokens]) (simp_all add: same_indexes_def)
qed


subsection \<open>The memo of failures\<close>

text \<open>What a parse does with the memo: bodies are entered and left, failures and successes recorded and looked up.\<close>

datatype 'e failure_event =
    BodyNames "bytes list" | RecordFailure parser_cursor bytes parse_error nat | LookUpFailure parser_cursor bytes
  | SuccessEvent "'e memo_event"

definition set_body_names :: "bytes list \<Rightarrow> 'e attempt_cache \<Rightarrow> 'e attempt_cache" where
  "set_body_names names c = c\<lparr>ac_inline_container_body_names := names\<rparr>"

fun failure_apply :: "(bytes list \<Rightarrow> u64) \<Rightarrow> (bytes list \<Rightarrow> u64) \<Rightarrow> 'e failure_event \<Rightarrow> 'e attempt_cache \<Rightarrow> 'e attempt_cache" where
  "failure_apply name_hash address (BodyNames names) c = set_body_names names c"
| "failure_apply name_hash address (RecordFailure p rule error height) c =
     cache_rule_attempt_failure name_hash p rule error height c"
| "failure_apply name_hash address (LookUpFailure p rule) c = snd (rule_attempt_failure name_hash p rule c)"
| "failure_apply name_hash address (SuccessEvent e) c = memo_apply name_hash address e c"

text \<open>
  The log of a parse: every failure recorded, with the key and the depth of its parser, its height and
  whether that was within the limit there.
\<close>

record failure_record =
  fr_key :: rule_key
  fr_depth :: nat
  fr_fits :: bool
  fr_error :: parse_error
  fr_height :: nat

definition key_of :: "(bytes list \<Rightarrow> u64) \<Rightarrow> bytes list \<Rightarrow> parser_cursor \<Rightarrow> bytes \<Rightarrow> rule_key option" where
  "key_of name_hash names p rule = rule_attempt_key name_hash (set_body_names names attempt_cache_new :: unit attempt_cache) p rule"

fun log_event :: "(bytes list \<Rightarrow> u64) \<Rightarrow> 'e failure_event \<Rightarrow> bytes list \<times> failure_record list \<Rightarrow> bytes list \<times> failure_record list" where
  "log_event name_hash (BodyNames names') (names, log) = (names', log)"
| "log_event name_hash (RecordFailure p rule error height) (names, log) =
     (names, log @ (case key_of name_hash names p rule of
        Some key \<Rightarrow> [\<lparr>fr_key = key, fr_depth = pc_depth p, fr_fits = (pc_depth p + height \<le> pc_max_recursion_depth p),
                      fr_error = error, fr_height = height\<rparr>]
      | None \<Rightarrow> []))"
| "log_event name_hash _ st = st"

text \<open>
  The failure that the log has for a parser: the latest one that kept within the limit under the key of
  the parser, when its height fits here, or else the latest one that exceeded it at this very depth.
\<close>

definition latest :: "(failure_record \<Rightarrow> bool) \<Rightarrow> failure_record list \<Rightarrow> failure_record option" where
  "latest P log = find P (rev log)"

definition logged_failure :: "failure_record list \<Rightarrow> parser_cursor \<Rightarrow> rule_key \<Rightarrow> failure_record option" where
  "logged_failure log p key =
     (let exceeded = latest (\<lambda>r. fr_key r = key \<and> \<not> fr_fits r \<and> fr_depth r = pc_depth p) log
      in case latest (\<lambda>r. fr_key r = key \<and> fr_fits r) log of
           Some r \<Rightarrow> if pc_depth p + fr_height r \<le> pc_max_recursion_depth p then Some r else exceeded
         | None \<Rightarrow> exceeded)"

lemma latest_simps [simp]:
  "latest P [] = None"
  "latest P (log @ [r]) = (if P r then Some r else latest P log)"
  by (simp_all add: latest_def)

lemma latest_Some: "latest P log = Some r \<Longrightarrow> r \<in> set log \<and> P r"
  by (induction log rule: rev_induct) (auto split: if_splits)

lemma latest_cong: "(\<And>r. r \<in> set log \<Longrightarrow> P r = Q r) \<Longrightarrow> latest P log = latest Q log"
  unfolding latest_def by (rule find_cong_list) simp

lemma rule_attempt_key_of: "rule_attempt_key name_hash c p rule = key_of name_hash (ac_inline_container_body_names c) p rule"
  by (simp add: rule_attempt_key_def key_of_def set_body_names_def)

lemma key_of_fields: "key_of name_hash names p rule = Some key \<Longrightarrow> rk_depth key = None \<and> rk_remaining key = length (pc_remaining p)"
  by (auto simp: key_of_def rule_attempt_key_def split: if_splits)

text \<open>The map of failures and the table of positions, as the log has them.\<close>

definition stored_key :: "failure_record \<Rightarrow> rule_key" where
  "stored_key r = (if fr_fits r then fr_key r else (fr_key r)\<lparr>rk_depth := Some (fr_depth r)\<rparr>)"

definition log_ok :: "'e attempt_cache \<Rightarrow> bytes list \<times> failure_record list \<Rightarrow> bool" where
  "log_ok c = (\<lambda>(names, log).
     ac_inline_container_body_names c = names \<and>
     (\<forall>k. map_of (ac_failures c) k = map_option (\<lambda>r. (fr_error r, fr_height r)) (latest (\<lambda>r. stored_key r = k) log)) \<and>
     (\<forall>r \<in> set log. rk_depth (fr_key r) = None \<and> position_marked (ac_failure_positions c) (rk_remaining (fr_key r))))"

definition same_failures :: "'e attempt_cache \<Rightarrow> 'e attempt_cache \<Rightarrow> bool" where
  "same_failures c c' \<longleftrightarrow> ac_failures c' = ac_failures c \<and> ac_failure_positions c' = ac_failure_positions c \<and>
     ac_inline_container_body_names c' = ac_inline_container_body_names c"

lemma same_failures_ok: "same_failures c c' \<Longrightarrow> log_ok c st \<Longrightarrow> log_ok c' st"
  by (simp add: same_failures_def log_ok_def split: prod.splits)

lemma lookup_same_failures: "same_failures c (snd (rule_attempt_failure name_hash p rule c))"
  by (auto simp: rule_attempt_failure_def same_failures_def raise_peak_def split: option.splits)

lemma insert_same_failures: "same_failures c (insert_success key success height c)"
  by (simp add: insert_success_def same_failures_def Let_def split: prod.splits)

lemma success_same_failures: "same_failures c (memo_apply name_hash address e c)"
proof (cases e)
  case (RecordSuccess p rule before after sub result height)
  then show ?thesis
    using insert_same_failures [of c]
    by (auto simp: cache_rule_attempt_success_def same_failures_def Let_def split: option.splits)
next
  case (LookUpSuccess p rule)
  then show ?thesis
    by (auto simp: rule_attempt_success_def same_failures_def raise_peak_def Let_def split: option.splits)
qed

lemma log_ok_record:
  assumes "log_ok c (names, log)"
  shows "log_ok (cache_rule_attempt_failure name_hash p rule error height c)
    (log_event name_hash (RecordFailure p rule error height) (names, log))"
proof (cases "key_of name_hash names p rule")
  case None
  then show ?thesis using assms by (simp add: cache_rule_attempt_failure_def rule_attempt_key_of log_ok_def)
next
  case (Some key)
  let ?r = "\<lparr>fr_key = key, fr_depth = pc_depth p, fr_fits = (pc_depth p + height \<le> pc_max_recursion_depth p),
    fr_error = error, fr_height = height\<rparr>"
  let ?c = "cache_rule_attempt_failure name_hash p rule error height c"
  have names: "ac_inline_container_body_names c = names" using assms by (simp add: log_ok_def)
  have c: "?c = c\<lparr>ac_failure_positions := mark_position (length (pc_remaining p)) (ac_failure_positions c),
      ac_failures := AList.update (stored_key ?r) (error, height) (ac_failures c)\<rparr>"
    using Some by (simp add: cache_rule_attempt_failure_def rule_attempt_key_of names stored_key_def recorded_key_def at_depth_def)
  have "log_ok ?c (names, log @ [?r])"
    using assms key_of_fields [OF Some]
    by (auto simp: c log_ok_def update_conv' mark_position_keeps mark_position_marked)
  then show ?thesis using Some by simp
qed

lemma log_ok_event:
  assumes "log_ok c st"
  shows "log_ok (failure_apply name_hash address e c) (log_event name_hash e st)"
proof (cases e)
  case (BodyNames names)
  then show ?thesis using assms by (cases st) (simp add: log_ok_def set_body_names_def)
next
  case (RecordFailure p rule error height)
  then show ?thesis using assms log_ok_record by (cases st) simp
next
  case (LookUpFailure p rule)
  then show ?thesis using same_failures_ok [OF lookup_same_failures assms] by (cases st) simp
next
  case (SuccessEvent e)
  then show ?thesis using same_failures_ok [OF success_same_failures assms] by (cases st) simp
qed

lemma log_ok_run: "log_ok c st \<Longrightarrow> log_ok (fold (failure_apply name_hash address) events c) (fold (log_event name_hash) events st)"
  by (induction events arbitrary: c st) (simp_all add: log_ok_event)

lemma log_ok_new: "log_ok attempt_cache_new ([], [])"
  by (simp add: log_ok_def attempt_cache_new_def)

text \<open>A lookup reads the log.\<close>

lemma stored_key_plain: "rk_depth key = None \<Longrightarrow> rk_depth (fr_key r) = None \<Longrightarrow> stored_key r = key \<longleftrightarrow> fr_key r = key \<and> fr_fits r"
  by (auto simp: stored_key_def)

lemma at_depth_inject:
  "rk_depth key = rk_depth key' \<Longrightarrow> key\<lparr>rk_depth := Some d\<rparr> = key'\<lparr>rk_depth := Some d'\<rparr> \<longleftrightarrow> key = key' \<and> d = d'"
  by (cases key; cases key') auto

lemma stored_key_pinned:
  assumes "rk_depth key = None" "rk_depth (fr_key r) = None"
  shows "stored_key r = at_depth p key \<longleftrightarrow> fr_key r = key \<and> \<not> fr_fits r \<and> fr_depth r = pc_depth p"
proof (cases "fr_fits r")
  case True
  then show ?thesis using arg_cong [where f = rk_depth, of "fr_key r" "at_depth p key"] assms(2)
    by (auto simp: stored_key_def at_depth_def)
next
  case False
  then show ?thesis using at_depth_inject [of "fr_key r" key] assms by (simp add: stored_key_def at_depth_def)
qed

lemma failure_entry_logged:
  assumes "log_ok c (names, log)" "rk_depth key = None"
  shows "failure_entry p key c = map_option (\<lambda>r. (fr_error r, fr_height r)) (logged_failure log p key)"
proof -
  have none: "rk_depth (fr_key r) = None" if "r \<in> set log" for r
    using assms(1) that by (auto simp: log_ok_def)
  have entries: "map_of (ac_failures c) k = map_option (\<lambda>r. (fr_error r, fr_height r)) (latest (\<lambda>r. stored_key r = k) log)" for k
    using assms(1) by (simp add: log_ok_def)
  have "latest (\<lambda>r. stored_key r = key) log = latest (\<lambda>r. fr_key r = key \<and> fr_fits r) log"
    by (rule latest_cong) (simp add: stored_key_plain assms(2) none)
  moreover have "latest (\<lambda>r. stored_key r = at_depth p key) log =
      latest (\<lambda>r. fr_key r = key \<and> \<not> fr_fits r \<and> fr_depth r = pc_depth p) log"
    by (rule latest_cong) (simp add: stored_key_pinned assms(2) none)
  ultimately show ?thesis
    by (simp add: failure_entry_def logged_failure_def entries Let_def split: option.splits)
qed

lemma logged_failure_sound:
  assumes "logged_failure log p key = Some r"
  shows "r \<in> set log" "fr_key r = key"
    "fr_depth r = pc_depth p \<or> fr_fits r \<and> pc_depth p + fr_height r \<le> pc_max_recursion_depth p"
  using assms by (auto simp: logged_failure_def Let_def dest: latest_Some split: option.splits if_splits)

lemma lookup_logged:
  assumes "log_ok c (names, log)"
  shows "rule_attempt_failure name_hash p rule c =
    (case key_of name_hash names p rule \<bind> logged_failure log p of
       None \<Rightarrow> (None, c) | Some r \<Rightarrow> (Some (fr_error r), raise_peak (pc_depth p + fr_height r) c))"
proof (cases "key_of name_hash names p rule")
  case None
  then show ?thesis using assms by (simp add: rule_attempt_failure_def rule_attempt_key_of log_ok_def)
next
  case (Some key)
  have names: "ac_inline_container_body_names c = names" using assms by (simp add: log_ok_def)
  note fields = key_of_fields [OF Some]
  show ?thesis
  proof (cases "logged_failure log p key")
    case None
    then show ?thesis
      using Some fields failure_entry_logged [OF assms, of key p] by (simp add: rule_attempt_failure_def rule_attempt_key_of names)
  next
    case logged: (Some r)
    then have "position_marked (ac_failure_positions c) (length (pc_remaining p))"
      using logged_failure_sound [OF logged] assms fields by (auto simp: log_ok_def)
    then show ?thesis
      using Some fields logged failure_entry_logged [OF assms, of key p]
      by (simp add: rule_attempt_failure_def rule_attempt_key_of names)
  qed
qed

text \<open>
  C33: The memo of failures is a log of the failures recorded: whatever was recorded and looked up
  before, of failures and of successes and in any bodies, a lookup answers the latest failure with the
  parser's key that kept within the limit of depth where it was recorded, if its height keeps within the
  limit here as well, or else the latest one that exceeded the limit at this very depth; neither the
  keys pinned to a depth nor the table of positions hide or add one.  An answer is thus a failure that
  was recorded under the same key, at the same depth or within the limit at both, and the depth it went
  to is counted for the attempts around it.
\<close>

theorem failure_memo_is_log:
  "let c = fold (failure_apply name_hash address) events (attempt_cache_new :: 'e attempt_cache);
       (names, log) = fold (log_event name_hash) events ([], []);
       found = key_of name_hash names p rule \<bind> logged_failure log p
   in fst (rule_attempt_failure name_hash p rule c) = map_option fr_error found \<and>
      (\<forall>r. found = Some r \<longrightarrow> r \<in> set log \<and> key_of name_hash names p rule = Some (fr_key r) \<and>
         (fr_depth r = pc_depth p \<or> fr_fits r \<and> pc_depth p + fr_height r \<le> pc_max_recursion_depth p) \<and>
         ac_peak_depth (snd (rule_attempt_failure name_hash p rule c)) = max (ac_peak_depth c) (pc_depth p + fr_height r))"
proof -
  let ?c = "fold (failure_apply name_hash address) events (attempt_cache_new :: 'e attempt_cache)"
  obtain names log where l: "fold (log_event name_hash) events ([], []) = (names, log)" by fastforce
  have ok: "log_ok ?c (names, log)" using log_ok_run [OF log_ok_new] unfolding l [symmetric] .
  let ?found = "key_of name_hash names p rule \<bind> logged_failure log p"
  have "fst (rule_attempt_failure name_hash p rule ?c) = map_option fr_error ?found"
    unfolding lookup_logged [OF ok] by (cases ?found) simp_all
  moreover have "r \<in> set log \<and> key_of name_hash names p rule = Some (fr_key r) \<and>
      (fr_depth r = pc_depth p \<or> fr_fits r \<and> pc_depth p + fr_height r \<le> pc_max_recursion_depth p) \<and>
      ac_peak_depth (snd (rule_attempt_failure name_hash p rule ?c)) = max (ac_peak_depth ?c) (pc_depth p + fr_height r)"
    if found: "?found = Some r" for r
  proof -
    obtain key where k: "key_of name_hash names p rule = Some key" "logged_failure log p key = Some r"
      using found by (auto simp: bind_eq_Some_conv)
    show ?thesis
      using logged_failure_sound [OF k(2)] k by (simp add: lookup_logged [OF ok] raise_peak_def)
  qed
  ultimately show ?thesis unfolding l Let_def prod.case by blast
qed

text \<open>A failure one level above its parser is answered at another depth, and not where it would exceed the limit.\<close>

definition example_failure :: "string failure_event" where
  "example_failure = RecordFailure example_parser ''list'' (parse_error_new ListEmpty ''list'' (pc_current example_parser)) 1"

lemma failure_memo_is_log_witness:
  "let c = fold (failure_apply (\<lambda>_. 0) (\<lambda>_. 0)) [BodyNames [''div''], example_failure] attempt_cache_new
   in fst (rule_attempt_failure (\<lambda>_. 0) (example_parser\<lparr>pc_depth := 7\<rparr>) ''list'' c) =
        Some (parse_error_new ListEmpty ''list'' (pc_current example_parser)) \<and>
      fst (rule_attempt_failure (\<lambda>_. 0) (example_parser\<lparr>pc_depth := 8\<rparr>) ''list'' c) = None"
proof -
  note defs = example_failure_def example_parser_def parser_new_def key_of_def rule_attempt_key_def logged_failure_def latest_def
    set_body_names_def attempt_cache_new_def native_blockquote_depth_def
  note at = failure_memo_is_log [of "\<lambda>_. 0" "\<lambda>_. 0" "[BodyNames [''div''], example_failure]" _ "''list''"]
  show ?thesis
    using at [of "example_parser\<lparr>pc_depth := 7\<rparr>"] at [of "example_parser\<lparr>pc_depth := 8\<rparr>"]
    unfolding Let_def by (simp add: defs)
qed

end
