(* ===== verification/Elision.thy ===== *)
theory Elision
  imports Arguments Literal
begin

text \<open>
  Text collected with elided ranges (\<open>parsing/collect/comment.rs\<close>), and the conditions on tags that
  decide which ranges of a line go (\<open>parsing/element_condition.rs\<close>,
  \<open>parsing/rule/impls/block/blocks/iftags.rs\<close>).
\<close>

subsection \<open>Element conditions\<close>

datatype element_condition_type = Required | Prohibited | Present

record element_condition =
  ec_type :: element_condition_type
  ec_value :: bytes

fun split_spec :: "bytes \<Rightarrow> element_condition_type \<times> bytes" where
  "split_spec [] = (Present, [])"
| "split_spec (c # cs) =
     (if c = CHR ''+'' then (Required, cs) else if c = CHR ''-'' then (Prohibited, cs) else (Present, c # cs))"

definition element_conditions_parse :: "bytes \<Rightarrow> element_condition list" where
  "element_conditions_parse raw_spec =
     map (\<lambda>spec. \<lparr>ec_type = fst (split_spec spec), ec_value = snd (split_spec spec)\<rparr>)
       (filter (\<lambda>s. s \<noteq> []) (split_char (CHR '' '') raw_spec))"

record condition_check =
  cc_required :: bool
  cc_prohibited :: bool
  cc_present :: bool
  cc_had_present :: bool

definition check_condition :: "(bytes \<Rightarrow> bytes \<Rightarrow> bool) \<Rightarrow> bytes list \<Rightarrow> element_condition \<Rightarrow> condition_check \<Rightarrow> condition_check" where
  "check_condition matches tags condition s =
     (let has_value = list_ex (\<lambda>v. matches v (ec_value condition)) tags
      in case ec_type condition of
           Required \<Rightarrow> s\<lparr>cc_required := cc_required s \<and> has_value\<rparr>
         | Prohibited \<Rightarrow> s\<lparr>cc_prohibited := cc_prohibited s \<and> \<not> has_value\<rparr>
         | Present \<Rightarrow> s\<lparr>cc_present := cc_present s \<or> has_value, cc_had_present := True\<rparr>)"

definition check_with :: "(bytes \<Rightarrow> bytes \<Rightarrow> bool) \<Rightarrow> element_condition list \<Rightarrow> bytes list \<Rightarrow> bool" where
  "check_with matches conditions tags =
     (let s = fold (check_condition matches tags) conditions
                \<lparr>cc_required = True, cc_prohibited = True, cc_present = False, cc_had_present = False\<rparr>;
          present = (if cc_had_present s then cc_present s else True)
      in cc_required s \<and> cc_prohibited s \<and> present)"

definition conditions_check :: "element_condition list \<Rightarrow> bytes list \<Rightarrow> bool" where
  "conditions_check = check_with (\<lambda>v condition. v = condition)"

definition check_ignore_ascii_case :: "element_condition list \<Rightarrow> bytes list \<Rightarrow> bool" where
  "check_ignore_ascii_case = check_with eq_ignore_ascii_case"

definition iftags_conditions_match :: "element_condition list \<Rightarrow> bytes list \<Rightarrow> bool" where
  "iftags_conditions_match conditions tags \<longleftrightarrow> conditions \<noteq> [] \<and> check_ignore_ascii_case conditions tags"

definition has_tag :: "(bytes \<Rightarrow> bytes \<Rightarrow> bool) \<Rightarrow> bytes list \<Rightarrow> element_condition \<Rightarrow> bool" where
  "has_tag matches tags condition \<longleftrightarrow> list_ex (\<lambda>v. matches v (ec_value condition)) tags"

definition of_type :: "element_condition_type \<Rightarrow> element_condition list \<Rightarrow> element_condition list" where
  "of_type t conditions = filter (\<lambda>condition. ec_type condition = t) conditions"

text \<open>All required tags, no prohibited one, and one of the others when there are any.\<close>

lemma check_fold:
  "fold (check_condition matches tags) conditions s =
     \<lparr>cc_required = cc_required s \<and> list_all (has_tag matches tags) (of_type Required conditions),
      cc_prohibited = cc_prohibited s \<and> \<not> list_ex (has_tag matches tags) (of_type Prohibited conditions),
      cc_present = cc_present s \<or> list_ex (has_tag matches tags) (of_type Present conditions),
      cc_had_present = cc_had_present s \<or> of_type Present conditions \<noteq> []\<rparr>"
proof (induction conditions arbitrary: s)
  case (Cons condition conditions)
  then show ?case
    by (cases "ec_type condition") (simp_all add: check_condition_def has_tag_def of_type_def Let_def)
qed (simp add: of_type_def)

lemma check_with_meaning:
  "check_with matches conditions tags \<longleftrightarrow>
     list_all (has_tag matches tags) (of_type Required conditions) \<and>
     \<not> list_ex (has_tag matches tags) (of_type Prohibited conditions) \<and>
     (of_type Present conditions = [] \<or> list_ex (has_tag matches tags) (of_type Present conditions))"
  by (auto simp: check_with_def check_fold Let_def)

subsection \<open>Elided text\<close>

type_synonym byte_range = "nat \<times> nat"

text \<open>The text of a range without the elided ranges, and where in the result they were.\<close>

fun elide_loop :: "bytes \<Rightarrow> byte_range \<Rightarrow> byte_range list \<Rightarrow> nat \<Rightarrow> bytes \<Rightarrow> nat list \<Rightarrow> bytes \<times> nat list \<times> nat" where
  "elide_loop source area [] cursor res seams = (res, seams, cursor)"
| "elide_loop source area (elision # elisions) cursor res seams =
     (if fst elision \<ge> snd area then (res, seams, cursor)
      else let elision_start = max (fst elision) (fst area);
               elision_end = min (snd elision) (snd area);
               res = (if cursor < elision_start then res @ slice source cursor elision_start else res)
           in elide_loop source area elisions (max cursor elision_end) res (seams @ [length res]))"

definition elide_ranges_with_seams :: "bytes \<Rightarrow> byte_range list \<Rightarrow> byte_range \<Rightarrow> bytes \<times> nat list" where
  "elide_ranges_with_seams source ranges area =
     (let first = partition_point (\<lambda>elision. snd elision \<le> fst area) ranges
      in if first = length ranges then (slice source (fst area) (snd area), [])
         else if fst (ranges ! first) \<ge> snd area then (slice source (fst area) (snd area), [])
         else case elide_loop source area (drop first ranges) (fst area) [] [] of
                (res, seams, cursor) \<Rightarrow>
                  (if cursor < snd area then res @ slice source cursor (snd area) else res, seams))"

definition elide_ranges :: "bytes \<Rightarrow> byte_range list \<Rightarrow> byte_range \<Rightarrow> bytes" where
  "elide_ranges source ranges area = fst (elide_ranges_with_seams source ranges area)"

record comment_elided_text =
  ce_source :: bytes
  ce_span :: byte_range
  ce_comments :: "byte_range list"
  ce_segments :: "byte_range list"

definition comment_elided_new :: "bytes \<Rightarrow> byte_range \<Rightarrow> byte_range list \<Rightarrow> comment_elided_text" where
  "comment_elided_new source span comments =
     \<lparr>ce_source = source, ce_span = span, ce_comments = comments, ce_segments = []\<rparr>"

definition with_segments :: "byte_range list \<Rightarrow> comment_elided_text \<Rightarrow> comment_elided_text" where
  "with_segments segments t = t\<lparr>ce_segments := segments\<rparr>"

definition elided_source :: "comment_elided_text \<Rightarrow> bytes" where
  "elided_source t = slice (ce_source t) (fst (ce_span t)) (snd (ce_span t))"

definition elide_segments_range :: "byte_range \<Rightarrow> comment_elided_text \<Rightarrow> bytes" where
  "elide_segments_range area t = elide_ranges (ce_source t) (ce_segments t) area"

definition prefix_before_first_comment :: "comment_elided_text \<Rightarrow> bytes" where
  "prefix_before_first_comment t =
     slice (ce_source t) (fst (ce_span t)) (case ce_comments t of [] \<Rightarrow> snd (ce_span t) | r # _ \<Rightarrow> fst r)"

definition elide_range_with_seams :: "byte_range \<Rightarrow> comment_elided_text \<Rightarrow> bytes \<times> nat list" where
  "elide_range_with_seams area t =
     (if ce_segments t = [] then elide_ranges_with_seams (ce_source t) (ce_comments t) area
      else if ce_comments t = [] then elide_ranges_with_seams (ce_source t) (ce_segments t) area
      else elide_ranges_with_seams (ce_source t) (sort_key fst (ce_comments t @ ce_segments t)) area)"

definition elide_range :: "byte_range \<Rightarrow> comment_elided_text \<Rightarrow> bytes" where
  "elide_range area t = fst (elide_range_with_seams area t)"

definition into_cow :: "comment_elided_text \<Rightarrow> bytes" where
  "into_cow t = elide_range (ce_span t) t"


subsection \<open>What is elided\<close>

definition ranges_in_order :: "byte_range list \<Rightarrow> bool" where
  "ranges_in_order ranges \<longleftrightarrow> sorted_wrt (\<lambda>a b. snd a \<le> fst b) ranges \<and> list_all (\<lambda>r. fst r \<le> snd r) ranges"

definition elided_at :: "byte_range list \<Rightarrow> nat \<Rightarrow> bool" where
  "elided_at ranges i \<longleftrightarrow> list_ex (\<lambda>r. fst r \<le> i \<and> i < snd r) ranges"

definition kept_bytes :: "bytes \<Rightarrow> byte_range list \<Rightarrow> nat \<Rightarrow> nat \<Rightarrow> bytes" where
  "kept_bytes source ranges a b = map ((!) source) (filter (\<lambda>i. \<not> elided_at ranges i) [a..<b])"

lemma ranges_in_order_simps [simp]:
  "ranges_in_order []"
  "ranges_in_order (r # rs) \<longleftrightarrow> fst r \<le> snd r \<and> list_all (\<lambda>q. snd r \<le> fst q) rs \<and> ranges_in_order rs"
  by (auto simp: ranges_in_order_def list_all_iff)

lemma elided_at_simps [simp]:
  "\<not> elided_at [] i"
  "elided_at (r # rs) i \<longleftrightarrow> fst r \<le> i \<and> i < snd r \<or> elided_at rs i"
  by (simp_all add: elided_at_def)

lemma elided_at_before: "list_all (\<lambda>q. n \<le> fst q) rs \<Longrightarrow> i < n \<Longrightarrow> \<not> elided_at rs i"
  by (auto simp: elided_at_def list_all_iff list_ex_iff)

lemma in_order_from:
  assumes "ranges_in_order (r # rs)" "n \<le> fst r" "i < n"
  shows "\<not> elided_at (r # rs) i"
proof -
  have "list_all (\<lambda>q. n \<le> fst q) (r # rs)"
    using assms(1,2) by (auto simp: list_all_iff intro: order_trans)
  then show ?thesis using assms(3) by (rule elided_at_before)
qed

lemma kept_split: "a \<le> m \<Longrightarrow> m \<le> b \<Longrightarrow> kept_bytes source rs a b = kept_bytes source rs a m @ kept_bytes source rs m b"
  using upt_add_eq_append [of a m "b - m"] by (simp add: kept_bytes_def)

lemma kept_slice:
  assumes "b \<le> length source" "\<And>i. a \<le> i \<Longrightarrow> i < b \<Longrightarrow> \<not> elided_at rs i"
  shows "kept_bytes source rs a b = slice source a b"
proof -
  have "filter (\<lambda>i. \<not> elided_at rs i) [a..<b] = [a..<b]"
    using assms(2) by (simp add: filter_id_conv)
  then show ?thesis
    using assms(1) by (simp add: kept_bytes_def slice_def) (intro nth_equalityI; simp)
qed

lemma kept_none: "(\<And>i. a \<le> i \<Longrightarrow> i < b \<Longrightarrow> elided_at rs i) \<Longrightarrow> kept_bytes source rs a b = []"
  by (simp add: kept_bytes_def filter_empty_conv)

lemma kept_cong: "(\<And>i. a \<le> i \<Longrightarrow> i < b \<Longrightarrow> elided_at rs i = elided_at qs i) \<Longrightarrow> kept_bytes source rs a b = kept_bytes source qs a b"
  unfolding kept_bytes_def by (intro arg_cong [where f = "map ((!) source)"] filter_cong) auto

lemma elide_loop_kept:
  assumes "elide_loop source area rs cursor res seams = (res', seams', cursor')"
    "ranges_in_order rs" "fst area \<le> cursor" "cursor \<le> snd area" "snd area \<le> length source"
    "list_all (\<lambda>r. fst area < snd r \<and> cursor \<le> max (fst r) (fst area)) rs"
  shows "(if cursor' < snd area then res' @ slice source cursor' (snd area) else res') =
    res @ kept_bytes source rs cursor (snd area)"
  using assms
proof (induction rs arbitrary: cursor res seams)
  case Nil
  then have "kept_bytes source [] cursor (snd area) = slice source cursor (snd area)"
    by (intro kept_slice) simp_all
  then show ?case using Nil by (auto simp: slice_def)
next
  case (Cons r rs)
  show ?case
  proof (cases "fst r \<ge> snd area")
    case True
    have "\<not> elided_at (r # rs) i" if "i < snd area" for i
      by (rule in_order_from [OF Cons.prems(2) True that])
    then have "kept_bytes source (r # rs) cursor (snd area) = slice source cursor (snd area)"
      using Cons.prems(5) by (intro kept_slice) auto
    then show ?thesis using Cons.prems(1,4) True by (auto simp: slice_def)
  next
    case False
    let ?start = "max (fst r) (fst area)" and ?stop = "min (snd r) (snd area)"
    let ?res = "if cursor < ?start then res @ slice source cursor ?start else res"
    let ?next = "max cursor ?stop"
    have order: "fst r \<le> snd r" "list_all (\<lambda>q. snd r \<le> fst q) rs" "ranges_in_order rs" "fst area < snd r" "cursor \<le> ?start"
      using Cons.prems(2,6) by auto
    have start: "?start \<le> ?stop" "?stop \<le> snd area" using order(1,4) False Cons.prems(3,4) by auto
    have next_end: "?next = ?stop" using le_trans [OF order(5) start(1)] by (rule max_absorb2)
    have "kept_bytes source (r # rs) cursor (snd area) =
        kept_bytes source (r # rs) cursor ?start @ kept_bytes source (r # rs) ?start ?stop @ kept_bytes source (r # rs) ?stop (snd area)"
      using kept_split [of cursor ?start "snd area" source "r # rs"] kept_split [of ?start ?stop "snd area" source "r # rs"]
        order(5) start by simp
    also have "kept_bytes source (r # rs) cursor ?start = slice source cursor ?start"
    proof (rule kept_slice)
      show "?start \<le> length source" using start Cons.prems(5) by simp
      fix i assume "cursor \<le> i" "i < ?start"
      then have "i < fst r" using Cons.prems(3) by auto
      then show "\<not> elided_at (r # rs) i"
        using in_order_from [OF Cons.prems(2) order_refl] by simp
    qed
    also have "kept_bytes source (r # rs) ?start ?stop = []" by (rule kept_none) auto
    also have "kept_bytes source (r # rs) ?stop (snd area) = kept_bytes source rs ?stop (snd area)"
      by (rule kept_cong) auto
    finally have kept: "res @ kept_bytes source (r # rs) cursor (snd area) = ?res @ kept_bytes source rs ?next (snd area)"
      using next_end by (auto simp: slice_def)
    have "elide_loop source area rs ?next ?res (seams @ [length ?res]) = (res', seams', cursor')"
      using Cons.prems(1) False by (simp add: Let_def)
    moreover have "list_all (\<lambda>q. fst area < snd q \<and> ?next \<le> max (fst q) (fst area)) rs"
      unfolding next_end using Cons.prems(6) order(2)
      by (auto simp: list_all_iff intro: le_trans [OF min.cobounded1] le_trans [OF _ max.cobounded1])
    moreover have "fst area \<le> ?next" "?next \<le> snd area" using Cons.prems(3,4) by auto
    ultimately have "(if cursor' < snd area then res' @ slice source cursor' (snd area) else res') =
        ?res @ kept_bytes source rs ?next (snd area)"
      using Cons.IH order(3) Cons.prems(5) by blast
    then show ?thesis using kept by simp
  qed
qed

lemma elide_ranges_kept:
  assumes "ranges_in_order ranges" "fst area \<le> snd area" "snd area \<le> length source"
  shows "elide_ranges source ranges area = kept_bytes source ranges (fst area) (snd area)"
proof -
  define first where "first = partition_point (\<lambda>r. snd r \<le> fst area) ranges"
  have take: "list_all (\<lambda>r. snd r \<le> fst area) (take first ranges)"
    unfolding first_def partition_point_def by (auto simp: list_all_iff takeWhile_eq_take [symmetric] dest: set_takeWhileD)
  have drop_order: "ranges_in_order (drop first ranges)"
    using assms(1) by (auto simp: ranges_in_order_def sorted_wrt_drop list_all_iff dest: in_set_dropD)
  have split: "elided_at ranges i \<longleftrightarrow> elided_at (drop first ranges) i" if "fst area \<le> i" for i
  proof -
    have "elided_at ranges i \<longleftrightarrow> elided_at (take first ranges @ drop first ranges) i" by simp
    also have "\<dots> \<longleftrightarrow> elided_at (drop first ranges) i"
      using take that unfolding elided_at_def list_ex_append
      by (auto simp: list_all_iff list_ex_iff simp del: append_take_drop_id)
    finally show ?thesis .
  qed
  then have kept: "kept_bytes source ranges (fst area) (snd area) = kept_bytes source (drop first ranges) (fst area) (snd area)"
    by (intro kept_cong) simp
  show ?thesis
  proof (cases "drop first ranges")
    case Nil
    then have "first = length ranges"
      unfolding first_def partition_point_def using length_takeWhile_le [of "\<lambda>r. snd r \<le> fst area" ranges] by simp
    then show ?thesis
      using assms(3) kept Nil kept_slice [of "snd area" source "fst area" "[]"]
      by (simp add: elide_ranges_def elide_ranges_with_seams_def first_def [symmetric] Let_def)
  next
    case (Cons r rs)
    then have less: "first < length ranges" by (metis drop_all linorder_not_le list.distinct(1))
    then have nth: "ranges ! first = r" using Cons by (metis Cons_nth_drop_Suc list.inject)
    have "\<not> snd r \<le> fst area"
      using less nth nth_length_takeWhile [of "\<lambda>r. snd r \<le> fst area" ranges] unfolding first_def partition_point_def by auto
    then have ends: "fst area < snd r" by simp
    show ?thesis
    proof (cases "fst r \<ge> snd area")
      case True
      have "\<not> elided_at (r # rs) i" if "i < snd area" for i
        by (rule in_order_from [OF drop_order [unfolded Cons] True that])
      then show ?thesis
        using True less nth kept Cons assms(3) kept_slice [of "snd area" source "fst area" "r # rs"]
        by (simp add: elide_ranges_def elide_ranges_with_seams_def first_def [symmetric] Let_def)
    next
      case False
      obtain res' seams' cursor' where l: "elide_loop source area (r # rs) (fst area) [] [] = (res', seams', cursor')"
        by (cases "elide_loop source area (r # rs) (fst area) [] []")
      have "list_all (\<lambda>q. fst area < snd q \<and> fst area \<le> max (fst q) (fst area)) (r # rs)"
        using drop_order Cons ends by (fastforce simp: ranges_in_order_def list_all_iff)
      from elide_loop_kept [OF l _ _ assms(2,3) this]
      have "(if cursor' < snd area then res' @ slice source cursor' (snd area) else res') =
          kept_bytes source (r # rs) (fst area) (snd area)"
        using drop_order Cons by simp
      then show ?thesis
        using l False less nth kept Cons
        by (simp add: elide_ranges_def elide_ranges_with_seams_def first_def [symmetric] Let_def)
    qed
  qed
qed

text \<open>
  C39: Elision removes exactly the bytes of the elided ranges: the text of a range without ranges that
  lie in order, wherever these begin and end, is the bytes of the range that lie in none of them, in
  their order.
\<close>

theorem elide_ranges_exact:
  assumes "ranges_in_order ranges" "fst area \<le> snd area" "snd area \<le> length source"
  shows "elide_ranges source ranges area = kept_bytes source ranges (fst area) (snd area)"
  by (rule elide_ranges_kept [OF assms])

lemma elide_ranges_exact_witness: "elide_ranges ''a[!--b--]c[!--d--]e'' [(1, 9), (10, 18)] (0, 15) = ''ac''"
proof -
  have "kept_bytes ''a[!--b--]c[!--d--]e'' [(1, 9), (10, 18)] 0 15 = ''ac''" by code_simp
  then show ?thesis
    using elide_ranges_exact [of "[(1, 9), (10, 18)]" "(0, 15)" "''a[!--b--]c[!--d--]e''"] by simp
qed

end
