(* ===== verification/Segments.thy ===== *)
theory Segments
  imports "HOL-Library.Word" Closer_Scan Parser_Cursor Elision
begin

text \<open>
  Segments \<open>[[iftags ...]]...[[/iftags]]\<close> within a line, comments as token runs, and the halves of a
  delimiter that such segments and comments split (\<open>parsing/collect/iftags.rs\<close>,
  \<open>parsing/collect/comment.rs\<close>).  A window is the list of the current token and the remaining ones.
\<close>

subsection \<open>Windows\<close>

definition window_at :: "parser_cursor \<Rightarrow> extracted_token list" where
  "window_at p = pc_current p # pc_remaining p"

definition window_get :: "extracted_token list \<Rightarrow> nat \<Rightarrow> extracted_token option" where
  "window_get w i = (if i < length w then Some (w ! i) else None)"

definition window_offset :: "extracted_token list \<Rightarrow> nat \<Rightarrow> extracted_token list option" where
  "window_offset w i = (if i < length w then Some (drop i w) else None)"

record segment_ctx =
  sg_source :: bytes
  sg_tags :: "bytes list"
  sg_legacy :: bool
  sg_in_iftags_span :: bool

definition segment_ctx_from_parser :: "bytes list \<Rightarrow> parser_cursor \<Rightarrow> segment_ctx" where
  "segment_ctx_from_parser tags p =
     \<lparr>sg_source = pc_full_text p, sg_tags = tags, sg_legacy = pc_legacy p,
      sg_in_iftags_span = in_wikidot_iftags_span (pc_wikidot p)\<rparr>"

lemma window_get_less: "window_get w i = Some t \<Longrightarrow> i < length w \<and> t = w ! i"
  by (simp add: window_get_def split: if_splits)

text \<open>The name of a block head or end that starts at a position, and the position behind it.\<close>

function skip_blank_tokens :: "extracted_token list \<Rightarrow> nat \<Rightarrow> nat option" where
  "skip_blank_tokens w i =
     (case window_get w i of
        None \<Rightarrow> None
      | Some t \<Rightarrow> if et_token t = Whitespace then skip_blank_tokens w (Suc i) else Some i)"
  by pat_completeness auto
termination
  by (relation "measure (\<lambda>(w, i). length w - i)") (auto dest!: window_get_less)

function name_tokens :: "bool \<Rightarrow> extracted_token list \<Rightarrow> nat \<Rightarrow> nat \<Rightarrow> (nat \<times> nat) option" where
  "name_tokens break_at_right_link w i name_end =
     (case window_get w i of
        None \<Rightarrow> None
      | Some t \<Rightarrow>
          if et_token t \<in> set [Whitespace, LineBreak, ParagraphBreak, RightBlock, InputEnd] \<or>
             break_at_right_link \<and> et_token t = RightLink
          then Some (name_end, i)
          else name_tokens break_at_right_link w (Suc i) (et_end t))"
  by pat_completeness auto
termination
  by (relation "measure (\<lambda>(_, w, i, _). length w - i)") (auto dest!: window_get_less)

declare skip_blank_tokens.simps [simp del] name_tokens.simps [simp del]

definition head_name :: "extracted_token list \<Rightarrow> nat \<Rightarrow> bool \<Rightarrow> (byte_range \<times> nat) option" where
  "head_name w start break_at_right_link =
     (case skip_blank_tokens w (start + 1) of
        None \<Rightarrow> None
      | Some i \<Rightarrow>
          (case name_tokens break_at_right_link w i (et_start (w ! i)) of
             None \<Rightarrow> None
           | Some (name_end, j) \<Rightarrow>
               if name_end = et_start (w ! i) then None else Some ((et_start (w ! i), name_end), j)))"

definition named_iftags :: "bytes \<Rightarrow> byte_range \<Rightarrow> bool" where
  "named_iftags source r \<longleftrightarrow> eq_ignore_ascii_case (slice source (fst r) (snd r)) ''iftags''"

definition head_is_iftags :: "bytes \<Rightarrow> bool \<Rightarrow> extracted_token list \<Rightarrow> nat \<Rightarrow> bool" where
  "head_is_iftags source allow_fused_closer w i \<longleftrightarrow>
     (case head_name w i allow_fused_closer of None \<Rightarrow> False | Some (name, _) \<Rightarrow> named_iftags source name)"

subsection \<open>Segments\<close>

record iftags_segment =
  is_range :: byte_range
  is_head :: byte_range
  is_body :: byte_range
  is_closer :: byte_range
  is_include_body :: bool
  is_fused_closer :: bool

definition segment_elisions :: "iftags_segment \<Rightarrow> byte_range list" where
  "segment_elisions s = (if is_include_body s then [is_head s, is_closer s] else [is_range s])"

definition line_end_token :: "extracted_token \<Rightarrow> bool" where
  "line_end_token t \<longleftrightarrow> et_token t \<in> set [LineBreak, ParagraphBreak, InputEnd]"

function spec_loop :: "extracted_token list \<Rightarrow> nat \<Rightarrow> nat option" where
  "spec_loop w i =
     (case window_get w i of
        None \<Rightarrow> None
      | Some t \<Rightarrow>
          if et_token t = RightBlock then Some i
          else if line_end_token t then None
          else spec_loop w (Suc i))"
  by pat_completeness auto
termination
  by (relation "measure (\<lambda>(w, i). length w - i)") (auto dest!: window_get_less)

function segment_closer_loop :: "bool \<Rightarrow> extracted_token list \<Rightarrow> nat \<Rightarrow> (nat \<times> bool) option" where
  "segment_closer_loop allow_fused_closer w i =
     (case window_get w i of
        None \<Rightarrow> None
      | Some t \<Rightarrow>
          if et_token t = RightBlock then Some (et_end t, False)
          else if et_token t = RightLink \<and> allow_fused_closer then Some (et_start t + 2, True)
          else if line_end_token t then None
          else segment_closer_loop allow_fused_closer w (Suc i))"
  by pat_completeness auto
termination
  by (relation "measure (\<lambda>(_, w, i). length w - i)") (auto dest!: window_get_less)

text \<open>The closer at depth zero, its end and whether it is fused; the search gives up behind 8192 tokens.\<close>

function body_loop :: "bytes \<Rightarrow> bool \<Rightarrow> extracted_token list \<Rightarrow> nat \<Rightarrow> nat \<Rightarrow> (nat \<times> nat \<times> bool) option" where
  "body_loop source allow_fused_closer w i depth =
     (case window_get w i of
        None \<Rightarrow> None
      | Some t \<Rightarrow>
          if line_end_token t then None
          else if et_token t = LeftBlockEnd \<and> head_is_iftags source allow_fused_closer w i \<and> depth = 1
          then (case segment_closer_loop allow_fused_closer w i of
                  None \<Rightarrow> None
                | Some (closer_end, fused) \<Rightarrow> Some (i, closer_end, fused))
          else let depth' =
                 (if et_token t = LeftBlock \<and> head_is_iftags source allow_fused_closer w i then depth + 1
                  else if et_token t = LeftBlockEnd \<and> head_is_iftags source allow_fused_closer w i then depth - 1
                  else depth)
               in if Suc i > 8192 then None else body_loop source allow_fused_closer w (Suc i) depth')"
  by pat_completeness auto
termination
  by (relation "measure (\<lambda>(_, _, w, i, _). length w - i)") (auto dest!: window_get_less)

declare spec_loop.simps [simp del] segment_closer_loop.simps [simp del] body_loop.simps [simp del]

definition segment_conditions :: "segment_ctx \<Rightarrow> bytes \<Rightarrow> element_condition list option" where
  "segment_conditions ctx spec =
     (if spec = [] then (if sg_legacy ctx then Some [] else None) else Some (element_conditions_parse spec))"

definition scan_segment_ctx :: "extracted_token list \<Rightarrow> segment_ctx \<Rightarrow> bool \<Rightarrow> iftags_segment option" where
  "scan_segment_ctx w ctx allow_fused_closer =
     (if sg_legacy ctx \<and> sg_in_iftags_span ctx \<or> et_token (w ! 0) \<noteq> LeftBlock then None
      else case head_name w 0 False of
             None \<Rightarrow> None
           | Some (name, i) \<Rightarrow>
      if \<not> named_iftags (sg_source ctx) name then None
      else case spec_loop w i of
             None \<Rightarrow> None
           | Some j \<Rightarrow>
      (case segment_conditions ctx (trim (slice (sg_source ctx) (et_start (w ! i)) (et_start (w ! j)))) of
         None \<Rightarrow> None
       | Some conditions \<Rightarrow>
           let head_end = et_end (w ! j);
               body_start = (case window_get w (Suc j) of Some t \<Rightarrow> et_start t | None \<Rightarrow> head_end)
           in (case body_loop (sg_source ctx) allow_fused_closer w (Suc j) 1 of
                 None \<Rightarrow> None
               | Some (k, closer_end, fused) \<Rightarrow> Some
                   \<lparr>is_range = (et_start (w ! 0), closer_end), is_head = (et_start (w ! 0), head_end),
                    is_body = (body_start, et_start (w ! k)), is_closer = (et_start (w ! k), closer_end),
                    is_include_body = iftags_conditions_match conditions (sg_tags ctx), is_fused_closer = fused\<rparr>)))"

text \<open>The segment at the parser, and the steps over it.\<close>

definition scan_segment :: "bytes list \<Rightarrow> bool \<Rightarrow> parser_cursor \<Rightarrow> iftags_segment option" where
  "scan_segment tags allow_fused_closer p =
     scan_segment_ctx (window_at p) (segment_ctx_from_parser tags p) allow_fused_closer"

function step_to_byte :: "nat \<Rightarrow> parser_cursor \<Rightarrow> unit step_result" where
  "step_to_byte target p =
     (if et_start (pc_current p) < target \<and> et_token (pc_current p) \<noteq> InputEnd
      then (case parser_step p of (Inl e, p') \<Rightarrow> (Inl e, p') | (Inr _, p') \<Rightarrow> step_to_byte target p')
      else (Inr (), p))"
  by pat_completeness auto
termination
  by (relation "measure (\<lambda>(_, p). length (pc_remaining p))") (auto dest!: step_remaining [OF sym])

declare step_to_byte.simps [simp del]

definition consume_segment :: "bytes list \<Rightarrow> bool \<Rightarrow> parser_cursor \<Rightarrow> iftags_segment option step_result" where
  "consume_segment tags allow_fused_closer p =
     (case scan_segment tags allow_fused_closer p of
        None \<Rightarrow> (Inr None, p)
      | Some s \<Rightarrow> and_then (step_to_byte (snd (is_range s)) p) (\<lambda>_ p'. (Inr (Some s), p')))"

definition bracket_close_text :: "token \<Rightarrow> bytes option" where
  "bracket_close_text t =
     (if t = RightBracket then Some '']'' else if t = RightBlock then Some '']]''
      else if t = RightLink then Some '']]]'' else None)"

text \<open>The tokens that complete a bracket closer of which one bracket has been read.\<close>

function bracket_loop :: "bytes \<Rightarrow> nat \<Rightarrow> extracted_token \<Rightarrow> parser_cursor \<Rightarrow> (extracted_token \<times> parser_cursor) option" where
  "bracket_loop close_text matched latest probe =
     (if matched < length close_text
      then (case bracket_close_text (et_token (pc_current probe)) of
              None \<Rightarrow> None
            | Some s \<Rightarrow>
                if \<not> starts_with (drop matched close_text) s then None
                else (case parser_step probe of
                        (Inl _, _) \<Rightarrow> None
                      | (Inr _, probe') \<Rightarrow> bracket_loop close_text (matched + length s) (pc_current probe) probe'))
      else Some (latest, probe))"
  by pat_completeness auto
termination
  by (relation "measure (\<lambda>(_, _, _, p). length (pc_remaining p))") (auto dest!: step_remaining [OF sym])

declare bracket_loop.simps [simp del]

definition complete_fused_bracket_close :: "bytes \<Rightarrow> parser_cursor \<Rightarrow> extracted_token option \<times> parser_cursor" where
  "complete_fused_bracket_close close_text p =
     (case bracket_loop close_text 1 (pc_current p) p of
        None \<Rightarrow> (None, p)
      | Some (latest, probe) \<Rightarrow> (Some latest, cursor_update p probe))"


subsection \<open>Comments as tokens\<close>

definition inert_token :: "extracted_token \<Rightarrow> bool" where
  "inert_token t \<longleftrightarrow> et_token t \<in> set [RuntimeText, GeneratedPageLink, GeneratedTagLinks]"

definition ends_comment_bracket :: "extracted_token \<Rightarrow> bool" where
  "ends_comment_bracket t \<longleftrightarrow> et_token t = RightBracket \<and> et_slice t = '']''"

definition hyphen_token :: "extracted_token \<Rightarrow> bool" where
  "hyphen_token t \<longleftrightarrow> et_slice t \<noteq> [] \<and> list_all (\<lambda>c. c = CHR ''-'') (et_slice t)"

function hyphen_loop :: "extracted_token list \<Rightarrow> nat \<Rightarrow> nat \<Rightarrow> nat \<Rightarrow> nat option" where
  "hyphen_loop w start i hyphens =
     (case window_get w i of
        None \<Rightarrow> None
      | Some t \<Rightarrow>
          if inert_token t then None
          else if hyphen_token t then hyphen_loop w start (Suc i) (hyphens + length (et_slice t))
          else if hyphens \<ge> 2 \<and> ends_comment_bracket t then Some (i - start + 1) else None)"
  by pat_completeness auto
termination
  by (relation "measure (\<lambda>(w, _, i, _). length w - i)") (auto dest!: window_get_less)

declare hyphen_loop.simps [simp del]

definition comment_closer_token_count_at :: "extracted_token list \<Rightarrow> nat \<Rightarrow> nat option" where
  "comment_closer_token_count_at w start =
     (case window_get w start of
        None \<Rightarrow> None
      | Some current \<Rightarrow>
          let trailing_hyphens = length (takeWhile (\<lambda>c. c = CHR ''-'') (rev (et_slice current)))
          in if \<not> inert_token current \<and> trailing_hyphens \<ge> 2 \<and> trailing_hyphens < length (et_slice current) \<and>
                (case window_get w (start + 1) of Some t \<Rightarrow> ends_comment_bracket t | None \<Rightarrow> False)
             then Some 2
             else hyphen_loop w start start 0)"

function bridge_loop :: "extracted_token list \<Rightarrow> nat \<Rightarrow> nat option" where
  "bridge_loop w i =
     (case window_get w i of
        None \<Rightarrow> None
      | Some t \<Rightarrow>
          if inert_token t then None
          else case comment_closer_token_count_at w i of
                 Some n \<Rightarrow> Some (i + n)
               | None \<Rightarrow> if et_token t = InputEnd then None else bridge_loop w (Suc i))"
  by pat_completeness auto
termination
  by (relation "measure (\<lambda>(w, i). length w - i)") (auto dest!: window_get_less)

declare bridge_loop.simps [simp del]

definition comment_bridge_end :: "extracted_token list \<Rightarrow> nat option" where
  "comment_bridge_end w = bridge_loop w 1"

lemma bridge_loop_gt: "bridge_loop w i = Some n \<Longrightarrow> i \<le> n"
proof (induction w i rule: bridge_loop.induct)
  case (1 w i)
  then show ?case
    by (subst (asm) bridge_loop.simps)
       (fastforce split: option.splits if_splits dest!: window_get_less)
qed

lemma comment_bridge_end_pos: "comment_bridge_end w = Some n \<Longrightarrow> 0 < n"
  using bridge_loop_gt [of w 1 n] by (simp add: comment_bridge_end_def)

text \<open>A comment at the parser; whether the current token stands for a generated part is an argument.\<close>

function comment_body_loop :: "(parser_cursor \<Rightarrow> bool) \<Rightarrow> nat \<Rightarrow> parser_cursor \<Rightarrow> byte_range step_result" where
  "comment_body_loop generated start p =
     (if generated p \<or> inert_token (pc_current p) then (Inl (make_err p RuleFailed), p)
      else case comment_closer_token_count_at (window_at p) 0 of
             Some n \<Rightarrow> and_then (step_n n p) (\<lambda>_ p'. (Inr (start, et_start (pc_current p')), p'))
           | None \<Rightarrow>
               if et_token (pc_current p) = InputEnd then (Inl (make_err p EndOfInput), p)
               else (case parser_step p of
                       (Inl e, p') \<Rightarrow> (Inl e, p')
                     | (Inr _, p') \<Rightarrow> comment_body_loop generated start p'))"
  by pat_completeness auto
termination
  by (relation "measure (\<lambda>(_, _, p). length (pc_remaining p))") (auto dest!: step_remaining [OF sym])

declare comment_body_loop.simps [simp del]

definition consume_valid_comment :: "(parser_cursor \<Rightarrow> bool) \<Rightarrow> parser_cursor \<Rightarrow> byte_range step_result" where
  "consume_valid_comment generated p =
     (let start = et_start (pc_current p) in and_then (parser_step p) (\<lambda>_. comment_body_loop generated start))"

function literal_comments :: "extracted_token list \<Rightarrow> nat \<Rightarrow> byte_range list" where
  "literal_comments ts i =
     (if i < length ts
      then case (if et_token (ts ! i) = LeftComment then comment_bridge_end (drop i ts) else None) of
             Some n \<Rightarrow>
               let end' = et_end (ts ! (i + n - 1));
                   skipped = length (takeWhile (\<lambda>t. et_start t < end') (drop (Suc i) ts))
               in (et_start (ts ! i), end') # literal_comments ts (Suc i + skipped)
           | None \<Rightarrow> literal_comments ts (Suc i)
      else [])"
  by pat_completeness auto
termination
  by (relation "measure (\<lambda>(w, i). length w - i)") auto

declare literal_comments.simps [simp del]

definition elide_comments_from_literal :: "bytes \<Rightarrow> bytes option" where
  "elide_comments_from_literal s =
     (if find_from s 0 ''[!--'' = None then Some s
      else map_option
        (\<lambda>t. let ranges = literal_comments (tk_tokens t) 0
              in if ranges = [] then s else elide_ranges s ranges (0, length s))
        (tokenize s))"

subsection \<open>Split delimiters\<close>

definition half_char :: "split_delimiter \<Rightarrow> char" where
  "half_char delimiter = (case delimiter of SplitBold \<Rightarrow> CHR ''*'' | SplitItalics \<Rightarrow> CHR ''/'')"

definition delimiter_token :: "split_delimiter \<Rightarrow> token" where
  "delimiter_token delimiter = (case delimiter of SplitBold \<Rightarrow> Bold | SplitItalics \<Rightarrow> Italics)"

record split_delimiter_match =
  sm_consume_end :: nat
  sm_leftover :: "byte_range option"

definition segment_is_textless :: "iftags_segment \<Rightarrow> bool" where
  "segment_is_textless s \<longleftrightarrow> \<not> is_include_body s \<or> fst (is_body s) \<ge> snd (is_body s)"

definition segment_token_count :: "extracted_token list \<Rightarrow> nat \<Rightarrow> nat \<Rightarrow> nat" where
  "segment_token_count w start range_end = length (takeWhile (\<lambda>t. et_start t < range_end) (drop start w))"

text \<open>
  The answer for the second half, after the comments and textless segments between the halves.  A
  segment that no token begins in would keep the loop where it is: this is no answer here.
\<close>

definition split_body_match :: "segment_ctx \<Rightarrow> split_delimiter \<Rightarrow> iftags_segment \<Rightarrow> split_delimiter_match option" where
  "split_body_match ctx delimiter s =
     (case slice (sg_source ctx) (fst (is_body s)) (snd (is_body s)) of
        [] \<Rightarrow> None
      | c # _ \<Rightarrow>
          if c \<noteq> half_char delimiter then None
          else let end' = fst (is_body s) + 1
               in Some \<lparr>sm_consume_end = snd (is_range s),
                        sm_leftover = (if end' < snd (is_body s) then Some (end', snd (is_body s)) else None)\<rparr>)"

definition split_half_match :: "split_delimiter \<Rightarrow> extracted_token \<Rightarrow> split_delimiter_match option" where
  "split_half_match delimiter t =
     (if is_half delimiter t then Some \<lparr>sm_consume_end = et_end t, sm_leftover = None\<rparr>
      else if et_token t = delimiter_token delimiter
      then Some \<lparr>sm_consume_end = et_end t, sm_leftover = Some (et_start t + 1, et_end t)\<rparr>
      else None)"

function split_loop :: "extracted_token list \<Rightarrow> segment_ctx \<Rightarrow> split_delimiter \<Rightarrow> nat \<Rightarrow> nat \<Rightarrow> split_delimiter_match option" where
  "split_loop w ctx delimiter i bridges =
     (case window_get w i of
        None \<Rightarrow> None
      | Some t \<Rightarrow>
          if et_token t = LeftBlock
          then (case scan_segment_ctx (drop i w) ctx False of
                  None \<Rightarrow> None
                | Some s \<Rightarrow>
                    if segment_is_textless s
                    then let n = segment_token_count w i (snd (is_range s))
                         in if n = 0 then None else split_loop w ctx delimiter (i + n) (bridges + 1)
                    else split_body_match ctx delimiter s)
          else if et_token t = LeftComment
          then (case comment_bridge_end (drop i w) of
                  None \<Rightarrow> None
                | Some n \<Rightarrow> split_loop w ctx delimiter (i + n) (bridges + 1))
          else if bridges = 0 then None else split_half_match delimiter t)"
  by pat_completeness auto
termination
  by (relation "measure (\<lambda>(w, _, _, i, _). length w - i)")
     (auto dest!: window_get_less comment_bridge_end_pos)

declare split_loop.simps [simp del]

definition split_delimiter_end :: "extracted_token list \<Rightarrow> segment_ctx \<Rightarrow> split_delimiter \<Rightarrow> split_delimiter_match option" where
  "split_delimiter_end w ctx delimiter =
     (if is_half delimiter (w ! 0) then split_loop w ctx delimiter 1 0 else None)"


subsection \<open>The layout of a segment\<close>

text \<open>Tokens as the lexer makes them: one after the other, a link closer of three brackets.\<close>

definition contiguous :: "extracted_token list \<Rightarrow> bool" where
  "contiguous w \<longleftrightarrow>
     (\<forall>i. Suc i < length w \<longrightarrow> et_end (w ! i) = et_start (w ! Suc i)) \<and>
     list_all (\<lambda>t. et_start t \<le> et_end t \<and> (et_token t = RightLink \<longrightarrow> et_start t + 2 \<le> et_end t)) w"

lemma contiguous_token:
  assumes "contiguous w" "i < length w"
  shows "et_start (w ! i) \<le> et_end (w ! i)" "et_token (w ! i) = RightLink \<Longrightarrow> et_start (w ! i) + 2 \<le> et_end (w ! i)"
  using assms by (auto simp: contiguous_def list_all_length)

lemma contiguous_mono:
  assumes "contiguous w" "i \<le> j" "j < length w"
  shows "et_start (w ! i) \<le> et_start (w ! j)"
  using assms(2,3)
proof (induction j rule: dec_induct)
  case (step j)
  then have "et_start (w ! i) \<le> et_start (w ! j)" by simp
  also have "\<dots> \<le> et_end (w ! j)" using contiguous_token(1) [OF assms(1)] step.prems by simp
  also have "\<dots> = et_start (w ! Suc j)" using assms(1) step.prems by (simp add: contiguous_def)
  finally show ?case .
qed simp

lemma contiguous_end:
  assumes "contiguous w" "i < j" "j < length w"
  shows "et_end (w ! i) \<le> et_start (w ! j)"
proof -
  have "et_end (w ! i) = et_start (w ! Suc i)" using assms by (simp add: contiguous_def)
  also have "\<dots> \<le> et_start (w ! j)" using contiguous_mono [OF assms(1), of "Suc i" j] assms(2,3) by simp
  finally show ?thesis .
qed

definition no_line_end :: "extracted_token list \<Rightarrow> nat \<Rightarrow> nat \<Rightarrow> bool" where
  "no_line_end w i j \<longleftrightarrow> (\<forall>k. i \<le> k \<longrightarrow> k < j \<longrightarrow> \<not> line_end_token (w ! k))"

lemma no_line_end_step: "\<not> line_end_token (w ! i) \<Longrightarrow> no_line_end w (Suc i) j \<Longrightarrow> no_line_end w i j"
  by (metis no_line_end_def Suc_leI le_neq_implies_less)

lemma no_line_end_trans: "no_line_end w i j \<Longrightarrow> no_line_end w j k \<Longrightarrow> no_line_end w i k"
  by (meson no_line_end_def not_le)

lemma no_line_end_empty [simp]: "no_line_end w i i"
  by (simp add: no_line_end_def)

lemma skip_blank_tokens_layout:
  "skip_blank_tokens w i = Some j \<Longrightarrow> i \<le> j \<and> j < length w \<and> no_line_end w i j"
proof (induction w i rule: skip_blank_tokens.induct)
  case (1 w i)
  show ?case
  proof (cases "window_get w i")
    case None
    then show ?thesis using "1.prems" by (simp add: skip_blank_tokens.simps [of w i])
  next
    case (Some t)
    then have t: "i < length w" "t = w ! i" by (auto dest: window_get_less)
    show ?thesis
    proof (cases "et_token t = Whitespace")
      case True
      then have "skip_blank_tokens w (Suc i) = Some j" using "1.prems" Some by (simp add: skip_blank_tokens.simps [of w i])
      moreover have "\<not> line_end_token (w ! i)" using True t by (simp add: line_end_token_def)
      ultimately show ?thesis using "1.IH" [OF Some True] by (auto intro: no_line_end_step)
    next
      case False
      then show ?thesis using "1.prems" Some t by (simp add: skip_blank_tokens.simps [of w i])
    qed
  qed
qed

lemma name_tokens_layout:
  "name_tokens flag w i e = Some (e', j) \<Longrightarrow> i \<le> j \<and> j < length w \<and> no_line_end w i j"
proof (induction flag w i e rule: name_tokens.induct)
  case (1 flag w i e)
  show ?case
  proof (cases "window_get w i")
    case None
    then show ?thesis using "1.prems" by (simp add: name_tokens.simps [of _ w i])
  next
    case (Some t)
    then have t: "i < length w" "t = w ! i" by (auto dest: window_get_less)
    let ?stop = "et_token t \<in> set [Whitespace, LineBreak, ParagraphBreak, RightBlock, InputEnd] \<or> flag \<and> et_token t = RightLink"
    show ?thesis
    proof (cases ?stop)
      case True
      then show ?thesis using "1.prems" Some t by (simp add: name_tokens.simps [of _ w i])
    next
      case False
      then have "name_tokens flag w (Suc i) (et_end t) = Some (e', j)"
        using "1.prems" Some by (auto simp: name_tokens.simps [of _ w i] split: if_splits)
      moreover have "\<not> line_end_token (w ! i)" using False t by (auto simp: line_end_token_def)
      ultimately show ?thesis using "1.IH" [OF Some False] by (auto intro: no_line_end_step)
    qed
  qed
qed

lemma head_name_layout:
  assumes "head_name w i flag = Some (name, j)" "\<not> line_end_token (w ! i)"
  shows "i < j" "j < length w" "no_line_end w i j"
proof -
  obtain k e where k: "skip_blank_tokens w (i + 1) = Some k" "name_tokens flag w k (et_start (w ! k)) = Some (e, j)"
    using assms(1) by (auto simp: head_name_def split: option.splits if_splits prod.splits)
  note a = skip_blank_tokens_layout [OF k(1)] and b = name_tokens_layout [OF k(2)]
  show "i < j" "j < length w" using a b by auto
  have "no_line_end w (Suc i) j" using no_line_end_trans a b by (metis Suc_eq_plus1)
  then show "no_line_end w i j" using assms(2) by (rule no_line_end_step [rotated])
qed

lemma spec_loop_layout:
  "spec_loop w i = Some j \<Longrightarrow> i \<le> j \<and> j < length w \<and> et_token (w ! j) = RightBlock \<and> no_line_end w i j"
proof (induction w i rule: spec_loop.induct)
  case (1 w i)
  show ?case
  proof (cases "window_get w i")
    case None
    then show ?thesis using "1.prems" by (simp add: spec_loop.simps [of w i])
  next
    case (Some t)
    then have t: "i < length w" "t = w ! i" by (auto dest: window_get_less)
    consider (block) "et_token t = RightBlock" | (bad) "et_token t \<noteq> RightBlock" "line_end_token t"
      | (other) "et_token t \<noteq> RightBlock" "\<not> line_end_token t" by blast
    then show ?thesis
    proof cases
      case other
      then have "spec_loop w (Suc i) = Some j" using "1.prems" Some by (simp add: spec_loop.simps [of w i])
      then show ?thesis using "1.IH" [OF Some other] other(2) t by (auto intro: no_line_end_step)
    qed (use "1.prems" Some t in \<open>simp_all add: spec_loop.simps [of w i]\<close>)
  qed
qed

lemma spec_loop_first:
  "spec_loop w i = Some j \<Longrightarrow> i \<le> m \<Longrightarrow> m < j \<Longrightarrow> et_token (w ! m) \<noteq> RightBlock"
proof (induction w i rule: spec_loop.induct)
  case (1 w i)
  obtain t where t: "window_get w i = Some t"
    using "1.prems"(1) by (auto simp: spec_loop.simps [of w i] split: option.splits)
  have w: "w ! i = t" using window_get_less [OF t] by auto
  have block: "et_token t \<noteq> RightBlock"
    using "1.prems" t by (auto simp: spec_loop.simps [of w i])
  have other: "\<not> line_end_token t" "spec_loop w (Suc i) = Some j"
    using "1.prems"(1) t block by (auto simp: spec_loop.simps [of w i] split: if_splits)
  show ?case
  proof (cases "m = i")
    case False
    then show ?thesis using "1.IH" [OF t block other(1,2)] "1.prems"(2,3) by simp
  qed (simp add: w block)
qed

lemma segment_closer_loop_layout:
  "segment_closer_loop flag w i = Some (e, fused) \<Longrightarrow>
     \<exists>j. i \<le> j \<and> j < length w \<and> no_line_end w i (Suc j) \<and>
       (if fused then et_token (w ! j) = RightLink \<and> e = et_start (w ! j) + 2 else e = et_end (w ! j))"
proof (induction flag w i rule: segment_closer_loop.induct)
  case (1 flag w i)
  show ?case
  proof (cases "window_get w i")
    case None
    then show ?thesis using "1.prems" by (simp add: segment_closer_loop.simps [of _ w i])
  next
    case (Some t)
    then have t: "i < length w" "t = w ! i" by (auto dest: window_get_less)
    consider (block) "et_token t = RightBlock" | (link) "et_token t = RightLink" "flag"
      | (bad) "et_token t \<noteq> RightBlock" "\<not> (et_token t = RightLink \<and> flag)" "line_end_token t"
      | (other) "et_token t \<noteq> RightBlock" "\<not> (et_token t = RightLink \<and> flag)" "\<not> line_end_token t" by blast
    then show ?thesis
    proof cases
      case block
      then have "\<not> line_end_token (w ! i)" using t by (simp add: line_end_token_def)
      then have "no_line_end w i (Suc i)" by (rule no_line_end_step) simp
      moreover have "e = et_end t" "\<not> fused"
        using "1.prems" block Some by (simp_all add: segment_closer_loop.simps [of _ w i])
      ultimately show ?thesis using t by (intro exI [of _ i]) simp
    next
      case link
      then have "\<not> line_end_token (w ! i)" using t by (simp add: line_end_token_def)
      then have "no_line_end w i (Suc i)" by (rule no_line_end_step) simp
      moreover have "e = et_start t + 2" "fused"
        using "1.prems" link Some by (simp_all add: segment_closer_loop.simps [of _ w i])
      ultimately show ?thesis using t link by (intro exI [of _ i]) simp
    next
      case bad
      then show ?thesis using "1.prems" Some by (auto simp: segment_closer_loop.simps [of _ w i] split: if_splits)
    next
      case other
      then have "segment_closer_loop flag w (Suc i) = Some (e, fused)"
        using "1.prems" Some by (auto simp: segment_closer_loop.simps [of _ w i] split: if_splits)
      then obtain j where "Suc i \<le> j" "j < length w" "no_line_end w (Suc i) (Suc j)"
        "if fused then et_token (w ! j) = RightLink \<and> e = et_start (w ! j) + 2 else e = et_end (w ! j)"
        using "1.IH" [OF Some other] by blast
      moreover from this have "no_line_end w i (Suc j)" using other(3) t no_line_end_step by blast
      ultimately show ?thesis by (intro exI [of _ j]) simp
    qed
  qed
qed


definition iftags_head_at :: "bytes \<Rightarrow> bool \<Rightarrow> extracted_token list \<Rightarrow> nat \<Rightarrow> bool" where
  "iftags_head_at source flag w i \<longleftrightarrow> et_token (w ! i) = LeftBlock \<and> head_is_iftags source flag w i"

definition iftags_end_at :: "bytes \<Rightarrow> bool \<Rightarrow> extracted_token list \<Rightarrow> nat \<Rightarrow> bool" where
  "iftags_end_at source flag w i \<longleftrightarrow> et_token (w ! i) = LeftBlockEnd \<and> head_is_iftags source flag w i"

definition count_at :: "(nat \<Rightarrow> bool) \<Rightarrow> nat \<Rightarrow> nat \<Rightarrow> nat" where
  "count_at P i j = length (filter P [i..<j])"

lemma count_at_step: "i < j \<Longrightarrow> count_at P i j = (if P i then 1 else 0) + count_at P (Suc i) j"
  by (simp add: count_at_def upt_conv_Cons)

text \<open>The closer found balances the heads that are open, and is on the line.\<close>

definition balanced_closer :: "bytes \<Rightarrow> bool \<Rightarrow> extracted_token list \<Rightarrow> nat \<Rightarrow> nat \<Rightarrow> nat \<Rightarrow> bool" where
  "balanced_closer source flag w i depth k \<longleftrightarrow>
     i \<le> k \<and> k < length w \<and> iftags_end_at source flag w k \<and> no_line_end w i k \<and>
     depth + count_at (iftags_head_at source flag w) i k = count_at (iftags_end_at source flag w) i k + 1"

definition closer_end_at :: "extracted_token list \<Rightarrow> nat \<Rightarrow> nat \<Rightarrow> bool \<Rightarrow> bool" where
  "closer_end_at w k e fused \<longleftrightarrow>
     (\<exists>m. k \<le> m \<and> m < length w \<and> no_line_end w k (Suc m) \<and>
       (if fused then et_token (w ! m) = RightLink \<and> e = et_start (w ! m) + 2 else e = et_end (w ! m)))"

lemma body_loop_layout:
  "body_loop source flag w i depth = Some (k, e, fused) \<Longrightarrow> 0 < depth \<Longrightarrow>
     balanced_closer source flag w i depth k \<and> closer_end_at w k e fused"
proof (induction source flag w i depth rule: body_loop.induct)
  case (1 source flag w i depth)
  obtain t where t: "window_get w i = Some t" "\<not> line_end_token t"
    using "1.prems"(1) by (auto simp: body_loop.simps [of _ _ w i] split: option.splits if_splits)
  have w: "i < length w" "w ! i = t" using window_get_less [OF t(1)] by auto
  let ?named = "head_is_iftags source flag w i"
  have both: "\<not> (et_token t = LeftBlock \<and> et_token t = LeftBlockEnd)" by auto
  show ?case
  proof (cases "et_token t = LeftBlockEnd \<and> ?named \<and> depth = 1")
    case True
    have "body_loop source flag w i depth =
        (case segment_closer_loop flag w i of None \<Rightarrow> None | Some (closer_end, fused) \<Rightarrow> Some (i, closer_end, fused))"
      by (subst body_loop.simps) (simp add: t True)
    with "1.prems"(1) have c: "segment_closer_loop flag w i = Some (e, fused)" "k = i"
      by (auto split: option.splits)
    have "balanced_closer source flag w i depth k"
      using True w c(2) by (simp add: balanced_closer_def iftags_end_at_def count_at_def)
    moreover have "closer_end_at w k e fused"
      using segment_closer_loop_layout [OF c(1)] unfolding closer_end_at_def c(2) .
    ultimately show ?thesis ..
  next
    case False
    define depth' where "depth' = (if et_token t = LeftBlock \<and> ?named then depth + 1
                  else if et_token t = LeftBlockEnd \<and> ?named then depth - 1 else depth)"
    have "body_loop source flag w i depth = (if Suc i > 8192 then None else body_loop source flag w (Suc i) depth')"
      by (subst body_loop.simps) (simp only: t(1) option.case t(2) False if_False Let_def depth'_def)
    then have rest: "\<not> 8192 < Suc i" "body_loop source flag w (Suc i) depth' = Some (k, e, fused)"
      using "1.prems"(1) by (simp_all split: if_splits)
    have pos: "0 < depth'" using "1.prems"(2) False by (auto simp: depth'_def)
    have "balanced_closer source flag w (Suc i) depth' k \<and> closer_end_at w k e fused"
      by (rule "1.IH" [OF t(1) t(2) False depth'_def rest(1) rest(2) pos])
    then have IH: "Suc i \<le> k" "k < length w" "iftags_end_at source flag w k" "no_line_end w (Suc i) k" "closer_end_at w k e fused"
      "depth' + count_at (iftags_head_at source flag w) (Suc i) k = count_at (iftags_end_at source flag w) (Suc i) k + 1"
      by (simp_all add: balanced_closer_def)
    have "depth + (if iftags_head_at source flag w i then 1 else 0) = depth' + (if iftags_end_at source flag w i then 1 else 0)"
      using w both False "1.prems"(2) by (auto simp: iftags_head_at_def iftags_end_at_def depth'_def)
    then have "depth + count_at (iftags_head_at source flag w) i k = count_at (iftags_end_at source flag w) i k + 1"
      using IH(1,6) by (simp add: count_at_step)
    moreover have "no_line_end w i k" using no_line_end_step [OF _ IH(4)] t(2) w(2) by simp
    ultimately show ?thesis using IH by (simp add: balanced_closer_def)
  qed
qed

text \<open>When the tags meet conditions: there are some, all required tags, no prohibited one and one of the others.\<close>

definition tags_meet :: "element_condition list \<Rightarrow> bytes list \<Rightarrow> bool" where
  "tags_meet conditions tags \<longleftrightarrow>
     (let tagged = has_tag eq_ignore_ascii_case tags
      in conditions \<noteq> [] \<and> list_all tagged (of_type Required conditions) \<and>
         \<not> list_ex tagged (of_type Prohibited conditions) \<and>
         (of_type Present conditions = [] \<or> list_ex tagged (of_type Present conditions)))"

lemma iftags_conditions_meaning: "iftags_conditions_match conditions tags = tags_meet conditions tags"
  by (simp add: iftags_conditions_match_def check_ignore_ascii_case_def check_with_meaning tags_meet_def Let_def)

lemma segment_conditions_parsed:
  "segment_conditions ctx spec = Some conditions \<Longrightarrow> conditions = element_conditions_parse spec"
  by (auto simp: segment_conditions_def element_conditions_parse_def split: if_splits)

text \<open>The head's name ends at token i, its conditions at the first closing bracket behind, token j.\<close>

definition head_conditions :: "segment_ctx \<Rightarrow> extracted_token list \<Rightarrow> nat \<Rightarrow> element_condition list \<Rightarrow> bool" where
  "head_conditions ctx w j conditions \<longleftrightarrow>
     (\<exists>name i. head_name w 0 False = Some (name, i) \<and> named_iftags (sg_source ctx) name \<and> i \<le> j \<and>
        et_token (w ! j) = RightBlock \<and> (\<forall>m. i \<le> m \<longrightarrow> m < j \<longrightarrow> et_token (w ! m) \<noteq> RightBlock) \<and>
        conditions = element_conditions_parse (trim (slice (sg_source ctx) (et_start (w ! i)) (et_start (w ! j)))))"

lemma scan_segment_layout:
  assumes "scan_segment_ctx w ctx flag = Some s" "w \<noteq> []"
  obtains j k conditions where "j < k" "k < length w" "is_head s = (et_start (w ! 0), et_end (w ! j))"
    "is_body s = (et_start (w ! Suc j), et_start (w ! k))" "is_closer s = (et_start (w ! k), snd (is_range s))"
    "fst (is_range s) = et_start (w ! 0)" "balanced_closer (sg_source ctx) flag w (Suc j) 1 k"
    "closer_end_at w k (snd (is_range s)) (is_fused_closer s)" "no_line_end w 0 k"
    "head_conditions ctx w j conditions" "is_include_body s = tags_meet conditions (sg_tags ctx)"
proof -
  let ?spec = "\<lambda>i j. trim (slice (sg_source ctx) (et_start (w ! i)) (et_start (w ! j)))"
  note found_segment = assms(1) [unfolded scan_segment_ctx_def]
  have first: "et_token (w ! 0) = LeftBlock" using found_segment by (simp split: if_splits)
  obtain name i where name: "head_name w 0 False = Some (name, i)"
    using found_segment by (cases "head_name w 0 False") (auto split: if_splits)
  have named: "named_iftags (sg_source ctx) name" using found_segment name by (auto split: if_splits)
  obtain j where j: "spec_loop w i = Some j"
    using found_segment name by (cases "spec_loop w i") (simp_all split: if_splits)
  obtain conditions where conditions: "segment_conditions ctx (?spec i j) = Some conditions"
    using found_segment name j by (cases "segment_conditions ctx (?spec i j)") (simp_all split: if_splits)
  obtain k e fused where body: "body_loop (sg_source ctx) flag w (Suc j) 1 = Some (k, e, fused)"
    using found_segment name j conditions
    by (cases "body_loop (sg_source ctx) flag w (Suc j) 1") (auto simp: Let_def split: if_splits)
  have "\<not> (sg_legacy ctx \<and> sg_in_iftags_span ctx \<or> et_token (w ! 0) \<noteq> LeftBlock)"
    using found_segment by (auto split: if_splits)
  then have s: "s = \<lparr>is_range = (et_start (w ! 0), e), is_head = (et_start (w ! 0), et_end (w ! j)),
        is_body = ((case window_get w (Suc j) of Some t \<Rightarrow> et_start t | None \<Rightarrow> et_end (w ! j)), et_start (w ! k)),
        is_closer = (et_start (w ! k), e), is_include_body = iftags_conditions_match conditions (sg_tags ctx),
        is_fused_closer = fused\<rparr>"
    using found_segment named
    by (simp only: name j conditions body option.case prod.case Let_def if_False not_not simp_thms option.inject)
  have b: "balanced_closer (sg_source ctx) flag w (Suc j) 1 k" "closer_end_at w k e fused"
    using body_loop_layout [OF body] by simp_all
  then have k: "Suc j \<le> k" "k < length w" by (simp_all add: balanced_closer_def)
  have sp: "i \<le> j" "no_line_end w i j" "et_token (w ! j) = RightBlock" using spec_loop_layout [OF j] by simp_all
  have "\<not> line_end_token (w ! 0)" using first by (simp add: line_end_token_def)
  then have "no_line_end w 0 i" by (rule head_name_layout(3) [OF name])
  moreover have "no_line_end w j (Suc j)" using sp(3) no_line_end_step [of w j "Suc j"] by (simp add: line_end_token_def)
  moreover have "no_line_end w (Suc j) k" using b(1) by (simp add: balanced_closer_def)
  ultimately have "no_line_end w 0 k" using sp(2) no_line_end_trans [of w 0 i j] no_line_end_trans [of w 0 j "Suc j"]
      no_line_end_trans [of w 0 "Suc j" k] by simp
  moreover have "window_get w (Suc j) = Some (w ! Suc j)" using k by (simp add: window_get_def)
  moreover have "head_conditions ctx w j conditions"
    using name named sp(1,3) spec_loop_first [OF j] segment_conditions_parsed [OF conditions] unfolding head_conditions_def by blast
  ultimately show thesis using that [of j k conditions] k b s by (simp add: iftags_conditions_meaning)
qed

text \<open>The text of a segment whose three parts follow one another, without its elisions.\<close>

lemma elided_segment:
  assumes "is_head s = (a, b)" "is_body s = (b, c)" "is_closer s = (c, e)" "is_range s = (a, e)"
    "a \<le> b" "b \<le> c" "c \<le> e" "e \<le> length source"
  shows "elide_ranges source (segment_elisions s) (is_range s) = (if is_include_body s then slice source b c else [])"
proof -
  have "ranges_in_order (segment_elisions s)"
    using assms by (simp add: segment_elisions_def)
  then have kept: "elide_ranges source (segment_elisions s) (is_range s) = kept_bytes source (segment_elisions s) a e"
    using elide_ranges_kept [of "segment_elisions s" "is_range s" source] assms by simp
  show ?thesis
  proof (cases "is_include_body s")
    case False
    then show ?thesis
      unfolding kept by (simp add: segment_elisions_def) (rule kept_none, use assms(4) in simp)
  next
    case True
    let ?els = "[(a, b), (c, e)]"
    have "kept_bytes source ?els a e = kept_bytes source ?els a b @ kept_bytes source ?els b c @ kept_bytes source ?els c e"
      using kept_split [of a b e] kept_split [of b c e] assms(5-7) by simp
    moreover have "kept_bytes source ?els a b = []" by (rule kept_none) simp
    moreover have "kept_bytes source ?els c e = []" by (rule kept_none) simp
    moreover have "kept_bytes source ?els b c = slice source b c"
      by (rule kept_slice) (use assms(7,8) in auto)
    ultimately show ?thesis unfolding kept using True assms(1,3) by (simp add: segment_elisions_def)
  qed
qed

lemma closer_end_behind:
  assumes "contiguous w" "closer_end_at w k e fused"
  shows "et_start (w ! k) \<le> e"
proof -
  obtain m where m: "k \<le> m" "m < length w"
    "if fused then et_token (w ! m) = RightLink \<and> e = et_start (w ! m) + 2 else e = et_end (w ! m)"
    using assms(2) by (auto simp: closer_end_at_def)
  have "et_start (w ! k) \<le> et_start (w ! m)" using contiguous_mono [OF assms(1) m(1,2)] .
  then show ?thesis using m(3) contiguous_token(1) [OF assms(1) m(2)] by (auto split: if_splits)
qed

text \<open>
  C38: In a line of tokens as the lexer makes them, a segment found is its head, its body and its
  closer, one right after the other, none of them with a line end, and the closer balances the heads of
  the same name in the body.  Its body is kept if and only if the tags of the page meet the conditions
  that are written between the name of the head and the first closing bracket behind it: all the tags
  with a plus, none with a minus, and one of the plain ones when there are any, without regard to the
  case of letters, and never with no conditions at all.  The text of the segment with its elisions is
  the body when they do and empty when they do not.
\<close>

theorem segment_elision_leaves_body:
  assumes "contiguous w" "w \<noteq> []" "scan_segment_ctx w ctx flag = Some s" "snd (is_range s) \<le> length (sg_source ctx)"
  shows "fst (is_head s) = fst (is_range s) \<and> snd (is_head s) = fst (is_body s) \<and> snd (is_body s) = fst (is_closer s) \<and>
    snd (is_closer s) = snd (is_range s) \<and> ranges_in_order [is_head s, is_body s, is_closer s] \<and>
    (\<exists>j k conditions. et_end (w ! j) = fst (is_body s) \<and> et_start (w ! k) = snd (is_body s) \<and>
       balanced_closer (sg_source ctx) flag w (Suc j) 1 k \<and> no_line_end w 0 k \<and>
       closer_end_at w k (snd (is_range s)) (is_fused_closer s) \<and> head_conditions ctx w j conditions \<and>
       is_include_body s = tags_meet conditions (sg_tags ctx) \<and>
       elide_ranges (sg_source ctx) (segment_elisions s) (is_range s) =
         (if tags_meet conditions (sg_tags ctx) then slice (sg_source ctx) (fst (is_body s)) (snd (is_body s)) else []))"
proof -
  obtain j k conditions where l: "j < k" "k < length w" "is_head s = (et_start (w ! 0), et_end (w ! j))"
    "is_body s = (et_start (w ! Suc j), et_start (w ! k))" "is_closer s = (et_start (w ! k), snd (is_range s))"
    "fst (is_range s) = et_start (w ! 0)" "balanced_closer (sg_source ctx) flag w (Suc j) 1 k"
    "closer_end_at w k (snd (is_range s)) (is_fused_closer s)" "no_line_end w 0 k"
    "head_conditions ctx w j conditions" "is_include_body s = tags_meet conditions (sg_tags ctx)"
    using scan_segment_layout [OF assms(3,2)] by metis
  have join: "et_end (w ! j) = et_start (w ! Suc j)" using assms(1) l(1,2) by (simp add: contiguous_def)
  have head: "et_start (w ! 0) \<le> et_start (w ! Suc j)" using contiguous_mono [OF assms(1), of 0 "Suc j"] l(1,2) by simp
  have body: "et_start (w ! Suc j) \<le> et_start (w ! k)" using contiguous_mono [OF assms(1), of "Suc j" k] l(1,2) by simp
  have closer: "et_start (w ! k) \<le> snd (is_range s)" using closer_end_behind [OF assms(1) l(8)] .
  have "is_range s = (et_start (w ! 0), snd (is_range s))" using l(6) by (metis prod.collapse)
  from elided_segment [OF l(3) [unfolded join] l(4,5) this head body closer assms(4)]
  have "elide_ranges (sg_source ctx) (segment_elisions s) (is_range s) =
      (if tags_meet conditions (sg_tags ctx) then slice (sg_source ctx) (fst (is_body s)) (snd (is_body s)) else [])"
    using l(4,11) by simp
  moreover have "ranges_in_order [is_head s, is_body s, is_closer s]"
    using l(3,4,5) join head body closer by simp
  ultimately show ?thesis using l(3-11) join by (intro conjI) auto
qed

definition segment_line :: "extracted_token list" where
  "segment_line =
     [\<lparr>et_token = LeftBlock, et_slice = ''[['', et_start = 0, et_end = 2\<rparr>,
      \<lparr>et_token = Identifier, et_slice = ''iftags'', et_start = 2, et_end = 8\<rparr>,
      \<lparr>et_token = Whitespace, et_slice = '' '', et_start = 8, et_end = 9\<rparr>,
      \<lparr>et_token = Identifier, et_slice = ''a'', et_start = 9, et_end = 10\<rparr>,
      \<lparr>et_token = RightBlock, et_slice = '']]'', et_start = 10, et_end = 12\<rparr>,
      \<lparr>et_token = Identifier, et_slice = ''x'', et_start = 12, et_end = 13\<rparr>,
      \<lparr>et_token = LeftBlockEnd, et_slice = ''[[/'', et_start = 13, et_end = 16\<rparr>,
      \<lparr>et_token = Identifier, et_slice = ''iftags'', et_start = 16, et_end = 22\<rparr>,
      \<lparr>et_token = RightBlock, et_slice = '']]'', et_start = 22, et_end = 24\<rparr>,
      \<lparr>et_token = InputEnd, et_slice = [], et_start = 24, et_end = 24\<rparr>]"

definition segment_line_ctx :: segment_ctx where
  "segment_line_ctx =
     \<lparr>sg_source = ''[[iftags a]]x[[/iftags]]'', sg_tags = [''a''], sg_legacy = False, sg_in_iftags_span = False\<rparr>"

definition segment_line_found :: iftags_segment where
  "segment_line_found =
     \<lparr>is_range = (0, 24), is_head = (0, 12), is_body = (12, 13), is_closer = (13, 24), is_include_body = True,
      is_fused_closer = False\<rparr>"

lemma segment_line_windows:
  "i < 10 \<Longrightarrow> window_get segment_line i = Some (segment_line ! i)"
  by (simp add: window_get_def segment_line_def)

lemma segment_line_tokens:
  "segment_line ! 0 = \<lparr>et_token = LeftBlock, et_slice = ''[['', et_start = 0, et_end = 2\<rparr>"
  "segment_line ! Suc 0 = \<lparr>et_token = Identifier, et_slice = ''iftags'', et_start = 2, et_end = 8\<rparr>"
  "segment_line ! 2 = \<lparr>et_token = Whitespace, et_slice = '' '', et_start = 8, et_end = 9\<rparr>"
  "segment_line ! 3 = \<lparr>et_token = Identifier, et_slice = ''a'', et_start = 9, et_end = 10\<rparr>"
  "segment_line ! 4 = \<lparr>et_token = RightBlock, et_slice = '']]'', et_start = 10, et_end = 12\<rparr>"
  "segment_line ! 5 = \<lparr>et_token = Identifier, et_slice = ''x'', et_start = 12, et_end = 13\<rparr>"
  "segment_line ! 6 = \<lparr>et_token = LeftBlockEnd, et_slice = ''[[/'', et_start = 13, et_end = 16\<rparr>"
  "segment_line ! 7 = \<lparr>et_token = Identifier, et_slice = ''iftags'', et_start = 16, et_end = 22\<rparr>"
  "segment_line ! 8 = \<lparr>et_token = RightBlock, et_slice = '']]'', et_start = 22, et_end = 24\<rparr>"
  by (simp_all add: segment_line_def)

lemmas segment_line_eval = segment_line_windows segment_line_tokens line_end_token_def

lemma segment_line_names:
  "head_name segment_line 0 False = Some ((2, 8), 2)" "head_name segment_line 6 False = Some ((16, 22), 8)"
  by (simp_all add: head_name_def skip_blank_tokens.simps name_tokens.simps segment_line_eval numeral_2_eq_2 [symmetric])

lemma segment_line_closer: "segment_closer_loop False segment_line 6 = Some (24, False)"
  by (simp add: segment_closer_loop.simps segment_line_eval)

lemma segment_line_spec: "spec_loop segment_line 2 = Some 4"
  by (simp add: spec_loop.simps segment_line_eval)

lemma segment_line_body: "body_loop (sg_source segment_line_ctx) False segment_line 5 1 = Some (6, 24, False)"
proof -
  have names: "head_is_iftags (sg_source segment_line_ctx) False segment_line 6"
  proof -
    have "named_iftags (sg_source segment_line_ctx) (16, 22)" by code_simp
    then show ?thesis by (simp add: head_is_iftags_def segment_line_names)
  qed
  have "body_loop (sg_source segment_line_ctx) False segment_line 6 1 = Some (6, 24, False)"
    by (simp add: body_loop.simps [of _ _ _ 6] segment_line_eval names segment_line_closer)
  then show ?thesis
    by (simp add: body_loop.simps [of _ _ _ 5] segment_line_eval)
qed

lemma segment_line_scanned: "scan_segment_ctx segment_line segment_line_ctx False = Some segment_line_found"
proof -
  have "named_iftags (sg_source segment_line_ctx) (2, 8)"
    "segment_conditions segment_line_ctx (trim (slice (sg_source segment_line_ctx) (et_start (segment_line ! 2)) (et_start (segment_line ! 4)))) =
      Some (element_conditions_parse ''a'')"
    "iftags_conditions_match (element_conditions_parse ''a'') (sg_tags segment_line_ctx)"
    "\<not> sg_legacy segment_line_ctx"
    by code_simp+
  then show ?thesis
    by (simp add: scan_segment_ctx_def segment_line_names segment_line_spec segment_line_body [simplified] segment_line_eval
      segment_line_found_def)
qed

lemma segment_line_contiguous: "contiguous segment_line"
  by (simp add: contiguous_def segment_line_def less_Suc_eq numeral_eq_Suc)

lemma segment_elision_leaves_body_witness:
  "elide_ranges (sg_source segment_line_ctx) (segment_elisions segment_line_found) (is_range segment_line_found) = ''x''"
proof -
  have line: "segment_line \<noteq> []" by (simp add: segment_line_def)
  have inside: "snd (is_range segment_line_found) \<le> length (sg_source segment_line_ctx)" by code_simp
  obtain conditions where "is_include_body segment_line_found = tags_meet conditions (sg_tags segment_line_ctx)"
    "elide_ranges (sg_source segment_line_ctx) (segment_elisions segment_line_found) (is_range segment_line_found) =
      (if tags_meet conditions (sg_tags segment_line_ctx)
       then slice (sg_source segment_line_ctx) (fst (is_body segment_line_found)) (snd (is_body segment_line_found)) else [])"
    using segment_elision_leaves_body [OF segment_line_contiguous line segment_line_scanned inside] by blast
  moreover have "is_include_body segment_line_found"
    "slice (sg_source segment_line_ctx) (fst (is_body segment_line_found)) (snd (is_body segment_line_found)) = ''x''"
    by code_simp+
  ultimately show ?thesis by simp
qed

end
