(* ===== verification/Nest_Tree.thy ===== *)
theory Nest_Tree
  imports Prelude
begin

text \<open>
  The tree over the heads and closers of one kind of block (\<open>NestTree\<close> in
  \<open>parsing/parser/block_pairs.rs\<close>).  It is an array: node 1 is the root, the children of \<open>k\<close> are \<open>2k\<close> and
  \<open>2k + 1\<close>, the leaves start at \<open>nt_size\<close>.  A head counts 1, a closer \<open>-1\<close> and what is removed 0; a node has
  the sum of its leaves, the least sum of a prefix, and the numbers of heads and closers.
\<close>

subsection \<open>The blocks and their events\<close>

datatype block_kind = Div | Collapsible | Note | AlignCenter | AlignRight | AlignLeft | AlignJustify
  | TabView | Tab | TableBlock | RowBlock | CellBlock

definition is_nesting :: "block_kind \<Rightarrow> bool" where
  "is_nesting kind \<longleftrightarrow> kind \<in> set [Div, AlignCenter, AlignRight, AlignLeft, AlignJustify]"

definition needs_own_line :: "block_kind \<Rightarrow> bool" where
  "needs_own_line kind \<longleftrightarrow> kind \<in> set [Div, Note, AlignCenter, AlignRight, AlignLeft, AlignJustify]"

definition footnote_zone_gated :: "block_kind \<Rightarrow> bool" where
  "footnote_zone_gated kind \<longleftrightarrow>
     kind \<in> set [AlignCenter, AlignRight, AlignLeft, AlignJustify, TabView, Tab, TableBlock]"

definition emits_flat :: "block_kind \<Rightarrow> bool" where
  "emits_flat kind \<longleftrightarrow> kind \<in> set [Div, Collapsible, Note, AlignCenter, AlignRight, AlignLeft, AlignJustify]"

record block_event =
  be_kind :: block_kind
  be_scored :: bool
  be_head :: nat
  be_head_end :: nat
  be_closer :: nat
  be_closer_end :: nat
  be_is_close :: bool

subsection \<open>The tree\<close>

record nest_tree =
  nt_size :: nat
  nt_sum :: "int list"
  nt_min_prefix :: "int list"
  nt_heads :: "nat list"
  nt_closers :: "nat list"

definition set_leaf :: "nat \<Rightarrow> int \<Rightarrow> nat \<Rightarrow> nat \<Rightarrow> nest_tree \<Rightarrow> nest_tree" where
  "set_leaf k value heads closers t =
     t\<lparr>nt_sum := (nt_sum t)[k := value], nt_min_prefix := (nt_min_prefix t)[k := value],
       nt_heads := (nt_heads t)[k := heads], nt_closers := (nt_closers t)[k := closers]\<rparr>"

definition nest_pull :: "nat \<Rightarrow> nest_tree \<Rightarrow> nest_tree" where
  "nest_pull k t =
     t\<lparr>nt_sum := (nt_sum t)[k := nt_sum t ! (2 * k) + nt_sum t ! (2 * k + 1)],
       nt_min_prefix := (nt_min_prefix t)
         [k := min (nt_min_prefix t ! (2 * k)) (nt_sum t ! (2 * k) + nt_min_prefix t ! (2 * k + 1))],
       nt_heads := (nt_heads t)[k := nt_heads t ! (2 * k) + nt_heads t ! (2 * k + 1)],
       nt_closers := (nt_closers t)[k := nt_closers t ! (2 * k) + nt_closers t ! (2 * k + 1)]\<rparr>"

text \<open>The size starts at 1 and is doubled until it holds all events.\<close>

function grow_size :: "nat \<Rightarrow> nat \<Rightarrow> nat" where
  "grow_size n size' = (if 0 < size' \<and> size' < n then grow_size n (size' * 2) else size')"
  by pat_completeness auto
termination
  by (relation "measure (\<lambda>(n, s). n - s)") auto

definition event_leaf :: "nat \<Rightarrow> nat \<times> block_event \<Rightarrow> nest_tree \<Rightarrow> nest_tree" where
  "event_leaf size' = (\<lambda>(i, ev).
     set_leaf (size' + i) (if be_is_close ev then -1 else 1) (if be_is_close ev then 0 else 1)
       (if be_is_close ev then 1 else 0))"

definition nest_tree_new :: "block_event list \<Rightarrow> nest_tree" where
  "nest_tree_new evs =
     (let size' = grow_size (length evs) 1;
          t = \<lparr>nt_size = size', nt_sum = replicate (2 * size') 0, nt_min_prefix = replicate (2 * size') 0,
               nt_heads = replicate (2 * size') 0, nt_closers = replicate (2 * size') 0\<rparr>
      in fold nest_pull (rev [1..<size']) (fold (event_leaf size') (enumerate 0 evs) t))"

fun pull_up :: "nat \<Rightarrow> nest_tree \<Rightarrow> nest_tree" where
  "pull_up k t = (if k \<ge> 1 then (let t = nest_pull k t in if k = 1 then t else pull_up (k div 2) t) else t)"

definition nest_kill :: "nat \<Rightarrow> nest_tree \<Rightarrow> nest_tree" where
  "nest_kill i t = pull_up ((nt_size t + i) div 2) (set_leaf (nt_size t + i) 0 0 0 t)"

definition is_alive_head :: "nest_tree \<Rightarrow> nat \<Rightarrow> bool" where
  "is_alive_head t i \<longleftrightarrow> nt_heads t ! (nt_size t + i) = 1"

text \<open>The total of the values in a range of leaves, from the leaves up.\<close>

function range_loop :: "'a::comm_monoid_add list \<Rightarrow> nat \<Rightarrow> nat \<Rightarrow> 'a \<Rightarrow> 'a" where
  "range_loop values l r so_far =
     (if l < r
      then let so_far = (if l mod 2 = 1 then so_far + values ! l else so_far);
               l = (if l mod 2 = 1 then l + 1 else l);
               so_far = (if r mod 2 = 1 then so_far + values ! (r - 1) else so_far);
               r = (if r mod 2 = 1 then r - 1 else r)
           in range_loop values (l div 2) (r div 2) so_far
      else so_far)"
  by pat_completeness auto
termination
  by (relation "measure (\<lambda>(_, _, r, _). r)") (auto simp: Let_def)

declare grow_size.simps [simp del] pull_up.simps [simp del] range_loop.simps [simp del]

definition range_count :: "nest_tree \<Rightarrow> nat list \<Rightarrow> nat \<Rightarrow> nat \<Rightarrow> nat" where
  "range_count t values l r = range_loop values (l + nt_size t) (r + nt_size t) 0"

definition range_heads :: "nest_tree \<Rightarrow> nat \<Rightarrow> nat \<Rightarrow> nat" where
  "range_heads t l r = range_count t (nt_heads t) l r"

definition range_closers :: "nest_tree \<Rightarrow> nat \<Rightarrow> nat \<Rightarrow> nat" where
  "range_closers t l r = range_count t (nt_closers t) l r"

definition range_sum :: "nest_tree \<Rightarrow> nat \<Rightarrow> nat \<Rightarrow> int" where
  "range_sum t l r = range_loop (nt_sum t) (l + nt_size t) (r + nt_size t) 0"

text \<open>The searches go down from the root; a node has at least one leaf, so \<open>r - l = 1\<close> ends them.\<close>

function find_first_head :: "nest_tree \<Rightarrow> nat \<Rightarrow> nat \<Rightarrow> nat \<Rightarrow> nat \<Rightarrow> nat \<Rightarrow> nat option" where
  "find_first_head t node l r lo hi =
     (if r \<le> lo \<or> l \<ge> hi \<or> nt_heads t ! node = 0 then None
      else if r - l \<le> 1 then Some l
      else let mid = (l + r) div 2
           in case find_first_head t (2 * node) l mid lo hi of
                Some i \<Rightarrow> Some i
              | None \<Rightarrow> find_first_head t (2 * node + 1) mid r lo hi)"
  by pat_completeness auto
termination
  by (relation "measure (\<lambda>(_, _, l, r, _). r - l)") auto

definition first_head :: "nest_tree \<Rightarrow> nat \<Rightarrow> nat \<Rightarrow> nat option" where
  "first_head t lo hi = find_first_head t 1 0 (nt_size t) lo hi"

function find_balance :: "nest_tree \<Rightarrow> nat \<Rightarrow> nat \<Rightarrow> nat \<Rightarrow> nat \<Rightarrow> nat \<Rightarrow> int \<Rightarrow> nat option" where
  "find_balance t node l r lo hi acc =
     (if r \<le> lo \<or> l \<ge> hi then None
      else if lo \<le> l \<and> r \<le> hi \<and> acc + nt_min_prefix t ! node > 0 then None
      else if r - l \<le> 1 then (if acc + nt_sum t ! node = 0 then Some l else None)
      else let mid = (l + r) div 2
           in case find_balance t (2 * node) l mid lo hi acc of
                Some i \<Rightarrow> Some i
              | None \<Rightarrow>
                  let left_from = max l lo; left_to = min mid hi;
                      left_sum = (if left_from < left_to then range_sum t left_from left_to else 0)
                  in find_balance t (2 * node + 1) mid r lo hi (acc + left_sum))"
  by pat_completeness auto
termination
  by (relation "measure (\<lambda>(_, _, l, r, _). r - l)") auto

declare find_first_head.simps [simp del] find_balance.simps [simp del]

definition balance :: "nest_tree \<Rightarrow> nat \<Rightarrow> nat \<Rightarrow> nat option" where
  "balance t lo hi = find_balance t 1 0 (nt_size t) lo hi 0"


subsection \<open>What the tree stands for\<close>

text \<open>
  The tree represents the value \<open>v i\<close> of every event \<open>i\<close>: its leaves hold it and every other node is made
  of its children.
\<close>

definition tree_shape :: "nest_tree \<Rightarrow> bool" where
  "tree_shape t \<longleftrightarrow> (\<exists>d. nt_size t = 2 ^ d) \<and> length (nt_sum t) = 2 * nt_size t \<and>
     length (nt_min_prefix t) = 2 * nt_size t \<and> length (nt_heads t) = 2 * nt_size t \<and>
     length (nt_closers t) = 2 * nt_size t"

definition pulled :: "nest_tree \<Rightarrow> nat \<Rightarrow> bool" where
  "pulled t k \<longleftrightarrow>
     nt_sum t ! k = nt_sum t ! (2 * k) + nt_sum t ! (2 * k + 1) \<and>
     nt_min_prefix t ! k = min (nt_min_prefix t ! (2 * k)) (nt_sum t ! (2 * k) + nt_min_prefix t ! (2 * k + 1)) \<and>
     nt_heads t ! k = nt_heads t ! (2 * k) + nt_heads t ! (2 * k + 1) \<and>
     nt_closers t ! k = nt_closers t ! (2 * k) + nt_closers t ! (2 * k + 1)"

definition head_at :: "(nat \<Rightarrow> int) \<Rightarrow> nat \<Rightarrow> nat" where
  "head_at v i = (if v i = 1 then 1 else 0)"

definition closer_at :: "(nat \<Rightarrow> int) \<Rightarrow> nat \<Rightarrow> nat" where
  "closer_at v i = (if v i = -1 then 1 else 0)"

definition leaf_is :: "nest_tree \<Rightarrow> (nat \<Rightarrow> int) \<Rightarrow> nat \<Rightarrow> bool" where
  "leaf_is t v i \<longleftrightarrow>
     nt_sum t ! (nt_size t + i) = v i \<and> nt_min_prefix t ! (nt_size t + i) = v i \<and>
     nt_heads t ! (nt_size t + i) = head_at v i \<and> nt_closers t ! (nt_size t + i) = closer_at v i"

definition represents :: "nest_tree \<Rightarrow> (nat \<Rightarrow> int) \<Rightarrow> bool" where
  "represents t v \<longleftrightarrow>
     tree_shape t \<and> (\<forall>k. 1 \<le> k \<longrightarrow> k < nt_size t \<longrightarrow> pulled t k) \<and> (\<forall>i < nt_size t. leaf_is t v i)"

lemma set_leaf_fields [simp]:
  "nt_size (set_leaf k a b c t) = nt_size t" "nt_sum (set_leaf k a b c t) = (nt_sum t)[k := a]"
  "nt_min_prefix (set_leaf k a b c t) = (nt_min_prefix t)[k := a]"
  "nt_heads (set_leaf k a b c t) = (nt_heads t)[k := b]" "nt_closers (set_leaf k a b c t) = (nt_closers t)[k := c]"
  by (simp_all add: set_leaf_def)

lemma nest_pull_size [simp]: "nt_size (nest_pull k t) = nt_size t"
  by (simp add: nest_pull_def)

lemma nest_pull_shape: "tree_shape t \<Longrightarrow> tree_shape (nest_pull k t)"
  by (simp add: tree_shape_def nest_pull_def)

lemma nest_pull_other:
  assumes "j \<noteq> k"
  shows "nt_sum (nest_pull k t) ! j = nt_sum t ! j" "nt_min_prefix (nest_pull k t) ! j = nt_min_prefix t ! j"
    "nt_heads (nest_pull k t) ! j = nt_heads t ! j" "nt_closers (nest_pull k t) ! j = nt_closers t ! j"
  using assms by (simp_all add: nest_pull_def)

lemma pulled_own:
  assumes "tree_shape t" "1 \<le> k" "k < nt_size t"
  shows "pulled (nest_pull k t) k"
  using assms by (simp add: pulled_def tree_shape_def nest_pull_def)

lemma pulled_kept:
  assumes "pulled t j" "1 \<le> j" "j \<noteq> k" "2 * j \<noteq> k" "2 * j + 1 \<noteq> k"
  shows "pulled (nest_pull k t) j"
  using assms by (simp add: pulled_def nest_pull_other)

lemma leaf_kept: "k < nt_size t \<Longrightarrow> leaf_is (nest_pull k t) v i = leaf_is t v i"
  by (simp add: leaf_is_def nest_pull_other)

lemma pull_up_repairs:
  "tree_shape t \<Longrightarrow> k < nt_size t \<Longrightarrow> (\<And>j. 1 \<le> j \<Longrightarrow> j < nt_size t \<Longrightarrow> j \<noteq> k \<Longrightarrow> pulled t j) \<Longrightarrow>
     (\<And>i. i < nt_size t \<Longrightarrow> leaf_is t v i) \<Longrightarrow> represents (pull_up k t) v \<and> nt_size (pull_up k t) = nt_size t"
proof (induction k t rule: pull_up.induct)
  case (1 k t)
  show ?case
  proof (cases "k = 0")
    case True
    then show ?thesis using "1.prems" by (simp add: represents_def pull_up.simps [of 0 t])
  next
    case False
    then have k: "1 \<le> k" by simp
    let ?t = "nest_pull k t"
    have others: "pulled ?t j" if "1 \<le> j" "j < nt_size ?t" "j \<noteq> k div 2" for j
    proof (cases "j = k")
      case True
      then show ?thesis using pulled_own [OF "1.prems"(1) k "1.prems"(2)] by simp
    next
      case False
      have "2 * j \<noteq> k" "2 * j + 1 \<noteq> k" using that(3) by auto
      then show ?thesis using pulled_kept "1.prems"(3) that False by simp
    qed
    have leaves: "leaf_is ?t v i" if "i < nt_size ?t" for i
      using "1.prems"(2,4) leaf_kept that by simp
    have shape: "tree_shape ?t" by (rule nest_pull_shape [OF "1.prems"(1)])
    show ?thesis
    proof (cases "k = 1")
      case True
      then have "pull_up k t = ?t" by (subst pull_up.simps) (simp add: Let_def)
      moreover have "represents ?t v" using others leaves shape True by (simp add: represents_def)
      ultimately show ?thesis by simp
    next
      case False
      then have "pull_up k t = pull_up (k div 2) ?t" using k by (simp add: pull_up.simps [of k t] Let_def)
      moreover have "represents (pull_up (k div 2) ?t) v \<and> nt_size (pull_up (k div 2) ?t) = nt_size ?t"
        using "1.IH" [OF k refl False shape _ others leaves] "1.prems"(2) k by simp
      ultimately show ?thesis by simp
    qed
  qed
qed

lemma nest_kill_represents:
  assumes "represents t v" "i < nt_size t"
  shows "represents (nest_kill i t) (v(i := 0))" "nt_size (nest_kill i t) = nt_size t"
proof -
  let ?k = "nt_size t + i" and ?t = "set_leaf (nt_size t + i) 0 0 0 t"
  have t: "tree_shape t" "\<And>k. 1 \<le> k \<Longrightarrow> k < nt_size t \<Longrightarrow> pulled t k" "\<And>j. j < nt_size t \<Longrightarrow> leaf_is t v j"
    using assms(1) by (auto simp: represents_def)
  have shape: "tree_shape ?t" using t(1) by (simp add: tree_shape_def)
  have others: "pulled ?t j" if "1 \<le> j" "j < nt_size ?t" "j \<noteq> ?k div 2" for j
  proof -
    have "2 * j \<noteq> ?k" "2 * j + 1 \<noteq> ?k" "j \<noteq> ?k" using that by auto
    then show ?thesis using t(2) [of j] that by (simp add: pulled_def)
  qed
  have leaves: "leaf_is ?t (v(i := 0)) j" if "j < nt_size ?t" for j
    using t(1) t(3) [of j] that by (simp add: leaf_is_def tree_shape_def head_at_def closer_at_def)
  have "?k div 2 < nt_size ?t" using assms(2) by simp
  then have "represents (pull_up (?k div 2) ?t) (v(i := 0)) \<and> nt_size (pull_up (?k div 2) ?t) = nt_size ?t"
    using pull_up_repairs [OF shape _ others leaves] by blast
  then show "represents (nest_kill i t) (v(i := 0))" "nt_size (nest_kill i t) = nt_size t"
    by (simp_all add: nest_kill_def)
qed


subsection \<open>The tree of the events\<close>

definition event_value :: "block_event \<Rightarrow> int" where
  "event_value ev = (if be_is_close ev then -1 else 1)"

definition event_values :: "block_event list \<Rightarrow> nat \<Rightarrow> int" where
  "event_values evs i = (if i < length evs then event_value (evs ! i) else 0)"

lemma grow_size_grown:
  "0 < s \<Longrightarrow> n \<le> grow_size n s \<and> (\<exists>d. grow_size n s = s * 2 ^ d)"
proof (induction n s rule: grow_size.induct)
  case (1 n s)
  show ?case
  proof (cases "s < n")
    case True
    then have "grow_size n s = grow_size n (s * 2)" using "1.prems" by (simp add: grow_size.simps [of n s])
    moreover obtain d where "grow_size n (s * 2) = (s * 2) * 2 ^ d" "n \<le> grow_size n (s * 2)"
      using "1.IH" True "1.prems" by auto
    ultimately have "n \<le> grow_size n s" "grow_size n s = s * 2 ^ Suc d" by simp_all
    then show ?thesis by blast
  next
    case False
    then have "grow_size n s = s * 2 ^ 0" "n \<le> grow_size n s" by (simp_all add: grow_size.simps [of n s])
    then show ?thesis by blast
  qed
qed

lemma event_leaves:
  "tree_shape t \<Longrightarrow> j + length evs \<le> nt_size t \<Longrightarrow>
     (\<And>i. i < nt_size t \<Longrightarrow> leaf_is t (\<lambda>i. if i < j then w i else 0) i) \<Longrightarrow>
     (\<And>i. i < length evs \<Longrightarrow> w (j + i) = event_value (evs ! i)) \<Longrightarrow>
     tree_shape (fold (event_leaf (nt_size t)) (enumerate j evs) t) \<and>
     nt_size (fold (event_leaf (nt_size t)) (enumerate j evs) t) = nt_size t \<and>
     (\<forall>i < nt_size t. leaf_is (fold (event_leaf (nt_size t)) (enumerate j evs) t)
        (\<lambda>i. if i < j + length evs then w i else 0) i)"
proof (induction evs arbitrary: j t)
  case (Cons ev evs)
  let ?t = "event_leaf (nt_size t) (j, ev) t"
  have j: "w j = event_value ev" using Cons.prems(4) [of 0] by simp
  have size: "nt_size ?t = nt_size t" by (simp add: event_leaf_def)
  have shape: "tree_shape ?t" using Cons.prems(1) by (simp add: event_leaf_def tree_shape_def)
  have leaves: "leaf_is ?t (\<lambda>i. if i < Suc j then w i else 0) i" if "i < nt_size ?t" for i
    using Cons.prems(1,2) Cons.prems(3) [of i] that j
    by (cases "i = j")
       (auto simp: leaf_is_def event_leaf_def tree_shape_def head_at_def closer_at_def event_value_def nth_list_update less_Suc_eq)
  have rest: "w (Suc j + i) = event_value (evs ! i)" if "i < length evs" for i
    using Cons.prems(4) [of "Suc i"] that by simp
  show ?case using Cons.IH [OF shape _ leaves rest] Cons.prems(2) size by simp
qed simp

lemma pulls_represent:
  "tree_shape t \<Longrightarrow> m \<le> nt_size t \<Longrightarrow> (\<And>k. m \<le> k \<Longrightarrow> 1 \<le> k \<Longrightarrow> k < nt_size t \<Longrightarrow> pulled t k) \<Longrightarrow>
     (\<And>i. i < nt_size t \<Longrightarrow> leaf_is t v i) \<Longrightarrow>
     represents (fold nest_pull (rev [1..<m]) t) v \<and> nt_size (fold nest_pull (rev [1..<m]) t) = nt_size t"
proof (induction m arbitrary: t)
  case 0
  then show ?case by (simp add: represents_def)
next
  case (Suc m)
  show ?case
  proof (cases "m = 0")
    case True
    then show ?thesis using Suc.prems by (simp add: represents_def)
  next
    case False
    let ?t = "nest_pull m t"
    have rev: "rev [1..<Suc m] = m # rev [1..<m]" using False by simp
    have p: "pulled ?t k" if "m \<le> k" "1 \<le> k" "k < nt_size ?t" for k
    proof (cases "k = m")
      case True
      then show ?thesis using pulled_own [OF Suc.prems(1)] that by simp
    next
      case False
      have "2 * k \<noteq> m" "2 * k + 1 \<noteq> m" using that(1,2) by auto
      then show ?thesis using pulled_kept [of t k m] Suc.prems(3) [of k] that False by simp
    qed
    have leaves: "leaf_is ?t v i" if "i < nt_size ?t" for i
      using leaf_kept [of m t] Suc.prems(2,4) that by simp
    show ?thesis
      using Suc.IH [OF nest_pull_shape [OF Suc.prems(1)] _ p leaves] Suc.prems(2) unfolding rev by simp
  qed
qed

lemma nest_tree_new_represents:
  "represents (nest_tree_new evs) (event_values evs)" "length evs \<le> nt_size (nest_tree_new evs)"
proof -
  let ?n = "grow_size (length evs) 1"
  let ?z = "\<lparr>nt_size = ?n, nt_sum = replicate (2 * ?n) 0, nt_min_prefix = replicate (2 * ?n) 0,
               nt_heads = replicate (2 * ?n) 0, nt_closers = replicate (2 * ?n) 0\<rparr> :: nest_tree"
  let ?l = "fold (event_leaf ?n) (enumerate 0 evs) ?z"
  obtain d where n: "?n = 2 ^ d" "length evs \<le> ?n" using grow_size_grown [of 1 "length evs"] by auto
  have shape: "tree_shape ?z" using n(1) by (auto simp: tree_shape_def)
  have zero: "leaf_is ?z (\<lambda>i. if i < 0 then event_values evs i else 0) i" if "i < nt_size ?z" for i
    using that by (simp add: leaf_is_def head_at_def closer_at_def)
  have "tree_shape ?l \<and> nt_size ?l = ?n \<and>
    (\<forall>i < ?n. leaf_is ?l (\<lambda>i. if i < 0 + length evs then event_values evs i else 0) i)"
    using event_leaves [OF shape _ zero, of evs] n(2) by (simp add: event_values_def)
  moreover have "(\<lambda>i. if i < 0 + length evs then event_values evs i else 0) = event_values evs"
    by (auto simp: event_values_def)
  ultimately have l: "tree_shape ?l" "nt_size ?l = ?n" "\<And>i. i < nt_size ?l \<Longrightarrow> leaf_is ?l (event_values evs) i"
    by simp_all
  have "represents (fold nest_pull (rev [1..<?n]) ?l) (event_values evs) \<and> nt_size (fold nest_pull (rev [1..<?n]) ?l) = nt_size ?l"
    by (rule pulls_represent [OF l(1) _ _ l(3)]) (use l(2) in simp_all)
  then show "represents (nest_tree_new evs) (event_values evs)" "length evs \<le> nt_size (nest_tree_new evs)"
    using n(2) l(2) by (simp_all add: nest_tree_new_def Let_def)
qed


subsection \<open>Totals of ranges\<close>

definition array_tree :: "'a::comm_monoid_add list \<Rightarrow> nat \<Rightarrow> (nat \<Rightarrow> 'a) \<Rightarrow> bool" where
  "array_tree f n w \<longleftrightarrow>
     (\<forall>k. 1 \<le> k \<longrightarrow> k < n \<longrightarrow> f ! k = f ! (2 * k) + f ! (2 * k + 1)) \<and> (\<forall>i < n. f ! (n + i) = w i)"

lemma array_tree_node:
  assumes "array_tree f n w"
  shows "k * 2 ^ e = n + l \<Longrightarrow> l + 2 ^ e \<le> n \<Longrightarrow> f ! k = sum w {l..<l + 2 ^ e}"
proof (induction e arbitrary: k l)
  case 0
  then show ?case using assms by (simp add: array_tree_def)
next
  case (Suc e)
  have left: "2 * k * 2 ^ e = n + l" and right: "(2 * k + 1) * 2 ^ e = n + (l + 2 ^ e)"
    using Suc.prems(1) by (simp_all add: algebra_simps)
  have pos: "0 < (2::nat) ^ e" by simp
  have "l + 2 * 2 ^ e \<le> n" using Suc.prems(2) by simp
  with pos have l: "l < n" "0 < n" by linarith+
  have zero: "k \<noteq> 0" using Suc.prems(1) l by (intro notI) simp
  have "k * 2 ^ e < n" using left l(1) by simp
  moreover have "k \<le> k * 2 ^ e" by simp
  ultimately have "k < n" by linarith
  with zero have "f ! k = f ! (2 * k) + f ! (2 * k + 1)" using assms by (simp add: array_tree_def)
  also have "f ! (2 * k) = sum w {l..<l + 2 ^ e}" using Suc.IH [OF left] Suc.prems(2) by simp
  also have "f ! (2 * k + 1) = sum w {l + 2 ^ e..<l + 2 ^ e + 2 ^ e}" using Suc.IH [OF right] Suc.prems(2) by simp
  also have "sum w {l..<l + 2 ^ e} + sum w {l + 2 ^ e..<l + 2 ^ e + 2 ^ e} = sum w {l..<l + 2 ^ Suc e}"
    by (subst sum.atLeastLessThan_concat) (simp_all add: mult_2 add.assoc)
  finally show ?case .
qed

lemma range_loop_exact:
  assumes "array_tree f n w"
  shows "n \<le> l * 2 ^ e \<Longrightarrow> l \<le> r \<Longrightarrow> r * 2 ^ e \<le> 2 * n \<Longrightarrow>
    range_loop f l r a = a + sum w {l * 2 ^ e - n..<r * 2 ^ e - n}"
proof (induction r arbitrary: l a e rule: less_induct)
  case (less r)
  show ?case
  proof (cases "l < r")
    case False
    then have "l = r" using less.prems by simp
    then show ?thesis by (subst range_loop.simps) simp
  next
    case True
    define l' where "l' = (if l mod 2 = 1 then l + 1 else l)"
    define r' where "r' = (if r mod 2 = 1 then r - 1 else r)"
    define a' where "a' = (if l mod 2 = 1 then a + f ! l else a)"
    define b where "b = (if r mod 2 = 1 then a' + f ! (r - 1) else a')"
    let ?p = "2 ^ e :: nat"
    let ?s = "\<lambda>x y. sum w {x * ?p - n..<y * ?p - n}"
    have step: "range_loop f l r a = range_loop f (l' div 2) (r' div 2) b"
      by (subst range_loop.simps) (simp add: True l'_def r'_def a'_def b_def Let_def)
    have mono: "x * ?p \<le> y * ?p" if "x \<le> y" for x y :: nat using that by simp
    have even: "l' = 2 * (l' div 2)" "r' = 2 * (r' div 2)" by (auto simp: l'_def r'_def) presburger+
    have lr: "l \<le> l'" "l' \<le> r'" "r' \<le> r" using True by (auto simp: l'_def r'_def) presburger+
    have node: "f ! k = ?s k (Suc k)" if "l \<le> k" "k < r" for k
    proof -
      have "l * ?p \<le> k * ?p" "Suc k * ?p \<le> r * ?p" using that by (intro mono; simp)+
      then have k: "n \<le> k * ?p" "Suc k * ?p \<le> 2 * n" using less.prems by linarith+
      then have "k * ?p = n + (k * ?p - n)" "k * ?p - n + ?p \<le> n" by simp_all
      then have "f ! k = sum w {k * ?p - n..<k * ?p - n + ?p}" by (rule array_tree_node [OF assms(1)])
      moreover have "k * ?p - n + ?p = Suc k * ?p - n" using k(1) by simp
      ultimately show ?thesis by simp
    qed
    have join: "?s x y + ?s y z = ?s x z" if "x \<le> y" "y \<le> z" for x y z
      using mono [OF that(1)] mono [OF that(2)] by (intro sum.atLeastLessThan_concat diff_le_mono)
    have left: "a' = a + ?s l l'" using node [of l] True by (simp add: a'_def l'_def)
    have right: "b = a' + ?s r' r"
      using node [of "r - 1"] True by (cases "r mod 2 = 1") (simp_all add: b_def r'_def)
    have up: "l' div 2 * 2 ^ Suc e = l' * ?p" "r' div 2 * 2 ^ Suc e = r' * ?p" using even by simp_all
    have "r' div 2 < r" using True lr(3) by simp
    then have "range_loop f (l' div 2) (r' div 2) b =
        b + sum w {l' div 2 * 2 ^ Suc e - n..<r' div 2 * 2 ^ Suc e - n}"
    proof (rule less.IH)
      show "n \<le> l' div 2 * 2 ^ Suc e" using order.trans [OF less.prems(1) mono [OF lr(1)]] unfolding up .
      show "l' div 2 \<le> r' div 2" using lr(2) by (rule div_le_mono)
      show "r' div 2 * 2 ^ Suc e \<le> 2 * n" using order.trans [OF mono [OF lr(3)] less.prems(3)] unfolding up .
    qed
    also have "\<dots> = a + ?s l l' + ?s r' r + ?s l' r'" unfolding up left right ..
    also have "\<dots> = a + ((?s l l' + ?s l' r') + ?s r' r)" by (simp add: ac_simps)
    also have "\<dots> = a + ?s l r" using lr by (simp add: join)
    finally show ?thesis using step by simp
  qed
qed

lemma represents_trees:
  assumes "represents t v"
  shows "array_tree (nt_sum t) (nt_size t) v" "array_tree (nt_heads t) (nt_size t) (head_at v)"
    "array_tree (nt_closers t) (nt_size t) (closer_at v)"
  using assms by (auto simp: represents_def array_tree_def pulled_def leaf_is_def)

lemma range_exact:
  assumes "represents t v" "l \<le> r" "r \<le> nt_size t"
  shows "range_sum t l r = sum v {l..<r}" "range_heads t l r = sum (head_at v) {l..<r}"
    "range_closers t l r = sum (closer_at v) {l..<r}"
proof -
  have *: "nt_size t \<le> (l + nt_size t) * 2 ^ 0" "l + nt_size t \<le> r + nt_size t" "(r + nt_size t) * 2 ^ 0 \<le> 2 * nt_size t"
    using assms(2,3) by simp_all
  show "range_sum t l r = sum v {l..<r}" "range_heads t l r = sum (head_at v) {l..<r}"
    "range_closers t l r = sum (closer_at v) {l..<r}"
    using represents_trees [OF assms(1), THEN range_loop_exact, OF *]
    by (simp_all add: range_sum_def range_heads_def range_closers_def range_count_def)
qed


subsection \<open>The searches\<close>

lemma find_append_case: "find P (xs @ ys) = (case find P xs of None \<Rightarrow> find P ys | Some x \<Rightarrow> Some x)"
  by (induction xs) simp_all

lemma find_split:
  assumes "l \<le> m" "m \<le> (r::nat)"
  shows "find P [max l lo..<min r hi] =
    (case find P [max l lo..<min m hi] of None \<Rightarrow> find P [max m lo..<min r hi] | Some x \<Rightarrow> Some x)"
proof (cases "lo < m \<and> m < hi")
  case True
  then have "[max l lo..<min r hi] = [max l lo..<min m hi] @ [max m lo..<min r hi]"
    using assms upt_add_eq_append [of "max l lo" m "min r hi - m"] by simp
  then show ?thesis by (simp add: find_append_case)
next
  case False
  then consider "m \<le> lo" | "hi \<le> m" by linarith
  then show ?thesis
  proof cases
    case 1
    then show ?thesis using assms by simp
  next
    case 2
    then have "[max m lo..<min r hi] = []" "min m hi = min r hi" using assms by simp_all
    then show ?thesis by (simp split: option.split)
  qed
qed

lemma sum_head_zero: "sum (head_at v) {l..<r} = 0 \<longleftrightarrow> (\<forall>i. l \<le> i \<longrightarrow> i < r \<longrightarrow> v i \<noteq> 1)"
  by (auto simp: head_at_def)

lemma half_range: "(l + (l + 2 ^ Suc e)) div 2 = l + 2 ^ e" for l :: nat
  by simp

lemma wide_range: "\<not> (l + 2 ^ Suc e) - l \<le> 1" for l :: nat
proof -
  have "1 \<le> (2::nat) ^ e" by simp
  then have "\<not> 2 * 2 ^ e \<le> (1::nat)" by linarith
  then show ?thesis by simp
qed

lemma find_first_head_exact:
  assumes "represents t v"
  shows "node * 2 ^ e = nt_size t + l \<Longrightarrow> l + 2 ^ e \<le> nt_size t \<Longrightarrow>
    find_first_head t node l (l + 2 ^ e) lo hi = find (\<lambda>i. v i = 1) [max l lo..<min (l + 2 ^ e) hi]"
proof (induction e arbitrary: node l)
  case 0
  have "nt_heads t ! node = head_at v l" using array_tree_node [OF represents_trees(2) [OF assms] 0] by simp
  then show ?case by (subst find_first_head.simps) (auto simp: head_at_def max_def min_def)
next
  case (Suc e)
  let ?r = "l + 2 ^ Suc e" and ?m = "l + 2 ^ e"
  have heads: "nt_heads t ! node = sum (head_at v) {l..<?r}"
    by (rule array_tree_node [OF represents_trees(2) [OF assms] Suc.prems])
  show ?case
  proof (cases "?r \<le> lo \<or> l \<ge> hi \<or> nt_heads t ! node = 0")
    case True
    then have "find (\<lambda>i. v i = 1) [max l lo..<min ?r hi] = None"
      unfolding heads sum_head_zero by (auto simp: find_None_iff)
    then show ?thesis by (subst find_first_head.simps) (simp only: True if_True)
  next
    case False
    have big: "\<not> ?r - l \<le> 1" by (rule wide_range)
    have left: "2 * node * 2 ^ e = nt_size t + l" and right: "(2 * node + 1) * 2 ^ e = nt_size t + ?m"
      using Suc.prems(1) by (simp_all add: algebra_simps)
    have "find_first_head t (2 * node) l ?m lo hi = find (\<lambda>i. v i = 1) [max l lo..<min ?m hi]"
      using Suc.IH [OF left] Suc.prems(2) by simp
    moreover have "find_first_head t (2 * node + 1) ?m ?r lo hi = find (\<lambda>i. v i = 1) [max ?m lo..<min ?r hi]"
      using Suc.IH [OF right] Suc.prems(2) by (simp add: mult_2 add.assoc)
    moreover have "find_first_head t node l ?r lo hi =
        (case find_first_head t (2 * node) l ?m lo hi of
           Some i \<Rightarrow> Some i | None \<Rightarrow> find_first_head t (2 * node + 1) ?m ?r lo hi)"
      by (subst find_first_head.simps) (simp only: False big if_False Let_def half_range)
    ultimately show ?thesis using find_split [of l ?m ?r "\<lambda>i. v i = 1" lo hi] by (simp split: option.splits)
  qed
qed

lemma represents_size: "represents t v \<Longrightarrow> \<exists>d. nt_size t = 2 ^ d"
  by (simp add: represents_def tree_shape_def)

lemma first_head_exact:
  assumes "represents t v" "hi \<le> nt_size t"
  shows "first_head t lo hi = find (\<lambda>i. v i = 1) [lo..<hi]"
proof -
  obtain d where d: "nt_size t = 2 ^ d" using represents_size [OF assms(1)] by blast
  show ?thesis using find_first_head_exact [OF assms(1), of 1 d 0 lo hi] assms(2) d by (simp add: first_head_def)
qed

text \<open>The least sum of a prefix bounds every prefix of its node.\<close>

lemma min_prefix_bounds:
  assumes "represents t v"
  shows "node * 2 ^ e = nt_size t + l \<Longrightarrow> l + 2 ^ e \<le> nt_size t \<Longrightarrow> l \<le> p \<Longrightarrow> p < l + 2 ^ e \<Longrightarrow>
    nt_min_prefix t ! node \<le> sum v {l..<Suc p}"
proof (induction e arbitrary: node l)
  case 0
  then have "leaf_is t v l" "node = nt_size t + l" "p = l" using assms by (auto simp: represents_def)
  then show ?case by (simp add: leaf_is_def)
next
  case (Suc e)
  let ?m = "l + 2 ^ e"
  have left: "2 * node * 2 ^ e = nt_size t + l" and right: "(2 * node + 1) * 2 ^ e = nt_size t + ?m"
    using Suc.prems(1) by (simp_all add: algebra_simps)
  have pos: "0 < (2::nat) ^ e" by simp
  have bound: "l + 2 * 2 ^ e \<le> nt_size t" using Suc.prems(2) by simp
  with pos have l: "l < nt_size t" by linarith
  have "node * 2 ^ e < nt_size t" using left l by simp
  moreover have "node \<le> node * 2 ^ e" by simp
  ultimately have "node < nt_size t" by linarith
  moreover have "node \<noteq> 0" using Suc.prems(1) l by (intro notI) simp
  ultimately have pulled: "pulled t node" using assms by (simp add: represents_def)
  show ?case
  proof (cases "p < ?m")
    case True
    then have "nt_min_prefix t ! (2 * node) \<le> sum v {l..<Suc p}" using Suc.IH [OF left] bound Suc.prems(3) by simp
    moreover have "nt_min_prefix t ! node \<le> nt_min_prefix t ! (2 * node)" using pulled unfolding pulled_def by linarith
    ultimately show ?thesis by (rule order.trans [rotated])
  next
    case False
    have "nt_min_prefix t ! (2 * node + 1) \<le> sum v {?m..<Suc p}"
      using Suc.IH [OF right] bound False Suc.prems(4) by simp
    moreover have "nt_sum t ! (2 * node) = sum v {l..<?m}"
      using array_tree_node [OF represents_trees(1) [OF assms] left] bound by simp
    moreover have "sum v {l..<?m} + sum v {?m..<Suc p} = sum v {l..<Suc p}"
      using False by (intro sum.atLeastLessThan_concat) simp_all
    moreover have "nt_min_prefix t ! node \<le> nt_sum t ! (2 * node) + nt_min_prefix t ! (2 * node + 1)"
      using pulled unfolding pulled_def by linarith
    ultimately show ?thesis by linarith
  qed
qed

lemma find_balance_exact:
  assumes "represents t v" "lo \<le> nt_size t" "hi \<le> nt_size t"
  shows "node * 2 ^ e = nt_size t + l \<Longrightarrow> l + 2 ^ e \<le> nt_size t \<Longrightarrow> acc = sum v {lo..<l} \<Longrightarrow>
    find_balance t node l (l + 2 ^ e) lo hi acc =
      find (\<lambda>p. sum v {lo..<Suc p} = 0) [max l lo..<min (l + 2 ^ e) hi]"
proof (induction e arbitrary: node l acc)
  case 0
  have "leaf_is t v l" "node = nt_size t + l" using 0 assms(1) by (auto simp: represents_def)
  then have node: "nt_sum t ! node = v l" "nt_min_prefix t ! node = v l" by (simp_all add: leaf_is_def)
  show ?case
  proof (cases "lo \<le> l \<and> l < hi")
    case True
    then have "sum v {lo..<Suc l} = acc + v l" using 0(3) by simp
    moreover have "[max l lo..<min (l + 2 ^ 0) hi] = [l]" using True by (simp add: max_def min_def)
    ultimately show ?thesis using True by (subst find_balance.simps) (simp add: node)
  next
    case False
    then show ?thesis by (subst find_balance.simps) auto
  qed
next
  case (Suc e)
  let ?r = "l + 2 ^ Suc e" and ?m = "l + 2 ^ e"
  let ?P = "\<lambda>p. sum v {lo..<Suc p} = 0"
  show ?case
  proof (cases "?r \<le> lo \<or> l \<ge> hi")
    case True
    then have "[max l lo..<min ?r hi] = []" by (intro upt_conv_Nil) linarith
    then have "find ?P [max l lo..<min ?r hi] = None" by (simp only: find.simps)
    moreover have "find_balance t node l ?r lo hi acc = None" by (subst find_balance.simps) (simp only: True if_True)
    ultimately show ?thesis by simp
  next
    case in_range: False
    show ?thesis
    proof (cases "lo \<le> l \<and> ?r \<le> hi \<and> acc + nt_min_prefix t ! node > 0")
      case True
      have "\<not> ?P p" if "l \<le> p" "p < ?r" for p
      proof -
        have "nt_min_prefix t ! node \<le> sum v {l..<Suc p}" by (rule min_prefix_bounds [OF assms(1) Suc.prems(1,2) that])
        moreover have "sum v {lo..<l} + sum v {l..<Suc p} = sum v {lo..<Suc p}"
          using True that by (intro sum.atLeastLessThan_concat) simp_all
        ultimately show ?thesis using True Suc.prems(3) by simp
      qed
      then have "find ?P [max l lo..<min ?r hi] = None"
        unfolding find_None_iff set_upt atLeastLessThan_iff max.bounded_iff min_less_iff_conj by blast
      moreover have "find_balance t node l ?r lo hi acc = None"
        by (subst find_balance.simps) (simp only: True simp_thms if_True if_cancel)
      ultimately show ?thesis by simp
    next
      case False
      have big: "\<not> ?r - l \<le> 1" by (rule wide_range)
      have left: "2 * node * 2 ^ e = nt_size t + l" and right: "(2 * node + 1) * 2 ^ e = nt_size t + ?m"
        using Suc.prems(1) by (simp_all add: algebra_simps)
      let ?sum = "if max l lo < min ?m hi then range_sum t (max l lo) (min ?m hi) else 0"
      have first: "find_balance t (2 * node) l ?m lo hi acc = find ?P [max l lo..<min ?m hi]"
        using Suc.IH [OF left _ Suc.prems(3)] Suc.prems(2) by simp
      have step: "find_balance t node l ?r lo hi acc =
          (case find_balance t (2 * node) l ?m lo hi acc of
             Some i \<Rightarrow> Some i | None \<Rightarrow> find_balance t (2 * node + 1) ?m ?r lo hi (acc + ?sum))"
        by (subst find_balance.simps) (simp only: in_range False big if_False Let_def half_range)
      have second: "find_balance t (2 * node + 1) ?m ?r lo hi (acc + ?sum) = find ?P [max ?m lo..<min ?r hi]"
      proof (cases "hi \<le> ?m")
        case True
        then show ?thesis by (subst find_balance.simps) simp
      next
        case False
        have acc: "acc + ?sum = sum v {lo..<?m}"
        proof (cases "max l lo < ?m")
          case True
          then have "?sum = sum v {max l lo..<?m}" using False Suc.prems(2) range_exact(1) [OF assms(1)] by simp
          moreover have "acc + sum v {max l lo..<?m} = sum v {lo..<?m}"
            using True Suc.prems(3) sum.atLeastLessThan_concat [of lo l ?m v] by (cases "lo \<le> l") simp_all
          ultimately show ?thesis by simp
        next
          case outside: False
          then have "?m \<le> lo" using one_le_power [of "2::nat" e] by (auto simp: max_def split: if_splits)
          then show ?thesis using Suc.prems(3) by simp
        qed
        have two: "?m + 2 ^ e = ?r" by simp
        show ?thesis using Suc.IH [OF right _ acc] Suc.prems(2) unfolding two by blast
      qed
      show ?thesis unfolding step first second by (rule find_split [symmetric]) simp_all
    qed
  qed
qed

lemma balance_exact:
  assumes "represents t v" "lo \<le> nt_size t" "hi \<le> nt_size t"
  shows "balance t lo hi = find (\<lambda>p. sum v {lo..<Suc p} = 0) [lo..<hi]"
proof -
  obtain d where d: "nt_size t = 2 ^ d" using represents_size [OF assms(1)] by blast
  show ?thesis using find_balance_exact [OF assms, of 1 d 0 0] assms(3) d by (simp add: balance_def)
qed

lemma is_alive_head_exact: "represents t v \<Longrightarrow> i < nt_size t \<Longrightarrow> is_alive_head t i \<longleftrightarrow> v i = 1"
  by (simp add: represents_def leaf_is_def is_alive_head_def head_at_def)

end
