(* ===== verification/Block_Pairing.thy ===== *)
theory Block_Pairing
  imports "HOL-Library.Word" "HOL-Library.Multiset" Nest_Tree Token
begin

text \<open>
  Pairing the heads and closers of blocks (\<open>parsing/parser/block_pairs.rs\<close>).  Kinds that do not nest pair a
  head with the next closer.  Kinds that nest are paired over the tree of \<open>Nest_Tree\<close>; the result is that of
  one pass with a stack that opens a head only where enough closers are left.
\<close>

subsection \<open>Pairing\<close>

function first_loop :: "block_event list \<Rightarrow> nat \<Rightarrow> (nat \<times> nat) list" where
  "first_loop evs i =
     (if i < length evs
      then if be_is_close (evs ! i) then first_loop evs (i + 1)
           else case find (\<lambda>j. be_is_close (evs ! j)) [i + 1..<length evs] of
                  Some p \<Rightarrow> (i, p) # first_loop evs (p + 1)
                | None \<Rightarrow> []
      else [])"
  by pat_completeness auto
termination
  by (relation "measure (\<lambda>(evs, i). length evs - i)") (auto simp: find_Some_iff)

declare first_loop.simps [simp del]

definition pair_first :: "block_event list \<Rightarrow> (nat \<times> nat) list" where
  "pair_first evs = first_loop evs 0"

fun kill_excess :: "nat list \<Rightarrow> nat \<Rightarrow> nest_tree \<Rightarrow> nest_tree" where
  "kill_excess [] to_kill t = t"
| "kill_excess (k # ks) to_kill t =
     (if to_kill = 0 then t
      else if is_alive_head t k then kill_excess ks (to_kill - 1) (nest_kill k t)
      else kill_excess ks to_kill t)"

text \<open>The windows left on the stack, the one at hand, the tree and the pairs so far.\<close>

partial_function (option) nest_loop ::
  "(nat \<times> nat) list \<Rightarrow> nat \<Rightarrow> nat \<Rightarrow> nest_tree \<Rightarrow> (nat \<times> nat) list \<Rightarrow> (nat \<times> nat) list option" where
  "nest_loop stack lo hi t out =
     (case first_head t lo hi of
        None \<Rightarrow> (case stack of [] \<Rightarrow> Some out | w # stack \<Rightarrow> nest_loop stack (fst w) (snd w) t out)
      | Some h \<Rightarrow>
          let heads = range_heads t h hi;
              closers = range_closers t h hi;
              t' = (if heads > closers then kill_excess (rev [h..<hi]) (heads - closers) t else t)
          in if heads > closers \<and> \<not> is_alive_head t' h then nest_loop stack lo hi t' out
             else (case balance t' h hi of
                     None \<Rightarrow> nest_loop stack lo hi (nest_kill h t') out
                   | Some p \<Rightarrow>
                       nest_loop (if p + 1 < hi then (p + 1, hi) # stack else stack) (h + 1) p t' (out @ [(h, p)])))"

definition pair_nest :: "block_event list \<Rightarrow> (nat \<times> nat) list option" where
  "pair_nest evs = nest_loop [] 0 (length evs) (nest_tree_new evs) []"

record block_pair =
  bp_kind :: block_kind
  bp_scored :: bool
  bp_head :: nat
  bp_head_end :: nat
  bp_head_byte :: nat
  bp_closer :: nat
  bp_closer_end :: nat
  bp_closer_byte :: nat
  bp_flat :: bool

record pair_scan =
  ps_pairs :: "block_pair list"
  ps_head_event_bytes :: "nat set"
  ps_closer_event_bytes :: "(block_kind \<times> nat) set"

definition note_event :: "extracted_token list \<Rightarrow> block_event \<Rightarrow> pair_scan \<Rightarrow> pair_scan" where
  "note_event ts event s =
     (if be_is_close event
      then s\<lparr>ps_closer_event_bytes := insert (be_kind event, et_start (ts ! be_closer event)) (ps_closer_event_bytes s)\<rparr>
      else s\<lparr>ps_head_event_bytes := insert (et_start (ts ! be_head event)) (ps_head_event_bytes s)\<rparr>)"

definition found_pair :: "extracted_token list \<Rightarrow> block_kind \<Rightarrow> block_event list \<Rightarrow> nat \<times> nat \<Rightarrow> block_pair" where
  "found_pair ts kind evs = (\<lambda>(h, c).
     \<lparr>bp_kind = kind, bp_scored = be_scored (evs ! h), bp_head = be_head (evs ! h),
      bp_head_end = be_head_end (evs ! h), bp_head_byte = et_start (ts ! be_head (evs ! h)),
      bp_closer = be_closer (evs ! c), bp_closer_end = be_closer_end (evs ! c), bp_closer_byte = 0, bp_flat = False\<rparr>)"

definition paired_kinds :: "block_kind list" where
  "paired_kinds = [Div, Collapsible, Note, AlignCenter, AlignRight, AlignLeft, AlignJustify]"

definition pair_kind :: "extracted_token list \<Rightarrow> block_event list \<Rightarrow> block_kind \<Rightarrow> pair_scan option \<Rightarrow> pair_scan option" where
  "pair_kind ts events kind s =
     (case s of
        None \<Rightarrow> None
      | Some s \<Rightarrow>
          let evs = filter (\<lambda>event. be_kind event = kind) events
          in if evs = [] then Some s
             else (case (if is_nesting kind then pair_nest evs else Some (pair_first evs)) of
                     None \<Rightarrow> None
                   | Some pairs \<Rightarrow> Some (s\<lparr>ps_pairs := ps_pairs s @ map (found_pair ts kind evs) pairs\<rparr>)))"

definition pair_events :: "extracted_token list \<Rightarrow> block_event list \<Rightarrow> pair_scan \<Rightarrow> pair_scan option" where
  "pair_events ts events s = fold (pair_kind ts events) paired_kinds (Some (fold (note_event ts) events s))"

subsection \<open>One pass with a stack\<close>

definition closers_of :: "(nat \<Rightarrow> int) \<Rightarrow> nat list \<Rightarrow> nat" where
  "closers_of v ns = length (filter (\<lambda>i. v i = -1) ns)"

definition heads_of :: "(nat \<Rightarrow> int) \<Rightarrow> nat list \<Rightarrow> nat" where
  "heads_of v ns = length (filter (\<lambda>i. v i = 1) ns)"

fun nest_pairs :: "(nat \<Rightarrow> int) \<Rightarrow> nat list \<Rightarrow> nat list \<Rightarrow> (nat \<times> nat) list" where
  "nest_pairs v st [] = []"
| "nest_pairs v st (i # ns) =
     (if v i = 1 then nest_pairs v (if closers_of v ns > length st then i # st else st) ns
      else if v i = -1 then (case st of [] \<Rightarrow> nest_pairs v [] ns | h # st \<Rightarrow> (h, i) # nest_pairs v st ns)
      else nest_pairs v st ns)"

lemma count_simps [simp]:
  "closers_of v [] = 0" "closers_of v (i # ns) = (if v i = -1 then 1 else 0) + closers_of v ns"
  "closers_of v (ns @ js) = closers_of v ns + closers_of v js" "closers_of v (rev ns) = closers_of v ns"
  "heads_of v [] = 0" "heads_of v (i # ns) = (if v i = 1 then 1 else 0) + heads_of v ns"
  "heads_of v (ns @ js) = heads_of v ns + heads_of v js" "heads_of v (rev ns) = heads_of v ns"
  by (simp_all add: closers_of_def heads_of_def flip: rev_filter)

lemma counts_cong: "(\<And>i. i \<in> set ns \<Longrightarrow> v i = w i) \<Longrightarrow> closers_of v ns = closers_of w ns \<and> heads_of v ns = heads_of w ns"
  by (induction ns) auto

lemma nest_pairs_cong: "(\<And>i. i \<in> set ns \<Longrightarrow> v i = w i) \<Longrightarrow> nest_pairs v st ns = nest_pairs w st ns"
proof (induction ns arbitrary: st)
  case (Cons i ns)
  then have "closers_of v ns = closers_of w ns" using counts_cong [of ns v w] by simp
  then show ?case using Cons by (simp split: list.split)
qed simp

lemma sums_are_counts:
  "sum (head_at v) {l..<r} = heads_of v [l..<r]" "sum (closer_at v) {l..<r} = closers_of v [l..<r]"
  by (induction r) (auto simp: head_at_def closer_at_def)

definition unit_values :: "(nat \<Rightarrow> int) \<Rightarrow> bool" where
  "unit_values v \<longleftrightarrow> (\<forall>i. v i = 1 \<or> v i = 0 \<or> v i = -1)"

lemma sum_is_difference:
  "unit_values v \<Longrightarrow> sum v {l..<r} = int (heads_of v [l..<r]) - int (closers_of v [l..<r])"
proof (induction r)
  case (Suc r)
  have "v r = 1 \<or> v r = 0 \<or> v r = -1" using Suc.prems by (simp add: unit_values_def)
  then show ?case using Suc by (cases "l \<le> r") auto
qed simp


subsection \<open>Removing heads from the right\<close>

fun kill_values :: "nat list \<Rightarrow> nat \<Rightarrow> (nat \<Rightarrow> int) \<Rightarrow> nat \<Rightarrow> int" where
  "kill_values [] m v = v"
| "kill_values (k # ks) m v =
     (if m = 0 then v else if v k = 1 then kill_values ks (m - 1) (v(k := 0)) else kill_values ks m v)"

lemma kill_excess_represents:
  "represents t v \<Longrightarrow> list_all (\<lambda>k. k < nt_size t) ks \<Longrightarrow>
     represents (kill_excess ks m t) (kill_values ks m v) \<and> nt_size (kill_excess ks m t) = nt_size t"
proof (induction ks arbitrary: m t v)
  case (Cons k ks)
  have k: "k < nt_size t" "list_all (\<lambda>k. k < nt_size t) ks" using Cons.prems(2) by simp_all
  note kill = nest_kill_represents [OF Cons.prems(1) k(1)]
  show ?case
    using Cons.IH [OF kill(1), of "m - 1"] Cons.IH [OF Cons.prems(1) k(2), of m] k kill(2) Cons.prems(1)
    by (simp add: is_alive_head_exact del: fun_upd_apply)
qed simp

lemma kill_values_other: "i \<notin> set ks \<Longrightarrow> kill_values ks m v i = v i"
  by (induction ks m v rule: kill_values.induct) auto

lemma kill_values_cases: "kill_values ks m v i = v i \<or> kill_values ks m v i = 0 \<and> v i = 1"
proof (induction ks arbitrary: m v)
  case (Cons k ks)
  have "kill_values ks (m - 1) (v(k := 0)) i = (v(k := 0)) i \<or>
      kill_values ks (m - 1) (v(k := 0)) i = 0 \<and> (v(k := 0)) i = 1"
    by (rule Cons.IH)
  moreover have "(v(k := 0)) i = (if i = k then 0 else v i)" by simp
  ultimately show ?case using Cons.IH [of m v] by (cases "i = k") (auto simp del: fun_upd_apply)
qed simp

lemma kill_values_unit: "unit_values v \<Longrightarrow> unit_values (kill_values ks m v)"
  unfolding unit_values_def using kill_values_cases [of ks m v] by metis

lemma kill_values_closers [simp]: "closers_of (kill_values ks m v) ns = closers_of v ns"
proof (induction ns)
  case (Cons i ns)
  have "kill_values ks m v i = -1 \<longleftrightarrow> v i = -1" using kill_values_cases [of ks m v i] by auto
  then show ?case using Cons by simp
qed simp

lemma kill_values_zero [simp]: "kill_values ks 0 v = v"
  by (cases ks) simp_all

lemma heads_update: "k \<notin> set ks \<Longrightarrow> heads_of (v(k := x)) ks = heads_of v ks"
  by (induction ks) auto

lemma kill_values_append:
  "distinct (xs @ ys) \<Longrightarrow> kill_values (xs @ ys) m v = kill_values ys (m - heads_of v xs) (kill_values xs m v)"
proof (induction xs m v rule: kill_values.induct)
  case (2 k ks m v)
  have "heads_of (v(k := 0)) ks = heads_of v ks" using 2(3) heads_update by simp
  then show ?case using 2 by (auto simp del: fun_upd_apply)
qed simp

lemma kill_values_all:
  "distinct xs \<Longrightarrow> heads_of v xs \<le> m \<Longrightarrow> kill_values xs m v = kill_values xs (heads_of v xs) v"
proof (induction xs m v rule: kill_values.induct)
  case (2 k ks m v)
  have same: "heads_of (v(k := 0)) ks = heads_of v ks" using 2(3) heads_update by simp
  show ?case
  proof (cases "v k = 1")
    case True
    then show ?thesis using 2 same by (cases m) (simp_all del: fun_upd_apply)
  next
    case False
    then show ?thesis using 2 by (cases "heads_of v ks") auto
  qed
qed simp

lemma kill_values_heads:
  "distinct xs \<Longrightarrow> m \<le> heads_of v xs \<Longrightarrow> heads_of (kill_values xs m v) xs = heads_of v xs - m"
proof (induction xs m v rule: kill_values.induct)
  case (2 k ks m v)
  have same: "heads_of (v(k := 0)) ks = heads_of v ks" using 2(3) heads_update by simp
  show ?case
  proof (cases "m = 0")
    case False
    show ?thesis
    proof (cases "v k = 1")
      case True
      have "kill_values ks (m - 1) (v(k := 0)) k = 0" using 2(3) kill_values_other [of k ks] by simp
      then show ?thesis using 2 False True same by (simp del: fun_upd_apply)
    next
      case v: False
      have "kill_values ks m v k = v k" using 2(3) kill_values_other [of k ks] by simp
      then show ?thesis using 2 False v by simp
    qed
  qed simp
qed simp

text \<open>The pass opens none of the heads that are too many at the right end, so removing them changes nothing.\<close>

lemma nest_pairs_without_excess:
  "distinct ns \<Longrightarrow> m + closers_of v ns \<le> length st + heads_of v ns \<or> m = 0 \<Longrightarrow>
     nest_pairs (kill_values (rev ns) m v) st ns = nest_pairs v st ns"
proof (induction ns arbitrary: st m)
  case (Cons i ns)
  let ?v1 = "kill_values (rev ns) m v" and ?v = "kill_values (rev (i # ns)) m v"
  have i: "i \<notin> set (rev ns)" and d: "distinct ns" using Cons.prems(1) by auto
  have v: "?v = kill_values [i] (m - heads_of v ns) ?v1"
    using kill_values_append [of "rev ns" "[i]" m v] Cons.prems(1) by simp
  have v1i: "?v1 i = v i" using kill_values_other [OF i] .
  have rest: "?v j = ?v1 j" if "j \<in> set ns" for j
    using kill_values_other [of j "[i]"] that i unfolding v by auto
  have pairs: "nest_pairs ?v st' ns = nest_pairs ?v1 st' ns" for st' by (rule nest_pairs_cong [OF rest])
  have closers: "closers_of ?v ns = closers_of v ns" by simp
  show ?case
  proof (cases "v i = 1")
    case True
    show ?thesis
    proof (cases "closers_of v ns > length st")
      case opens: True
      then have "m - heads_of v ns = 0" using Cons.prems(2) True by auto
      then have "?v i = 1" using v v1i True by simp
      moreover have "nest_pairs ?v1 (i # st) ns = nest_pairs v (i # st) ns"
        by (rule Cons.IH [OF d]) (use Cons.prems(2) True in auto)
      ultimately show ?thesis using True opens closers pairs by simp
    next
      case skipped: False
      have same: "nest_pairs ?v1 st ns = nest_pairs v st ns"
      proof (cases "m + closers_of v ns \<le> length st + heads_of v ns \<or> m = 0")
        case True
        then show ?thesis by (rule Cons.IH [OF d])
      next
        case False
        then have m: "heads_of v ns \<le> m" "heads_of v ns \<le> m - 1" "m - 1 + closers_of v ns \<le> length st + heads_of v ns"
          using skipped Cons.prems(2) True by auto
        have "?v1 = kill_values (rev ns) (m - 1) v"
          using kill_values_all [of "rev ns" v m] kill_values_all [of "rev ns" v "m - 1"] d m by simp
        then show ?thesis using Cons.IH [OF d, of "m - 1" st] m(3) by simp
      qed
      have "?v i = 1 \<or> ?v i = 0" using kill_values_cases [of "rev (i # ns)" m v i] True by auto
      then show ?thesis using True skipped closers pairs same by auto
    qed
  next
    case False
    then have vi: "?v i = v i" using kill_values_cases [of "rev (i # ns)" m v i] by auto
    show ?thesis
    proof (cases "v i = -1")
      case True
      have "nest_pairs ?v1 (tl st) ns = nest_pairs v (tl st) ns"
        by (rule Cons.IH [OF d]) (use Cons.prems(2) True in \<open>cases st; auto\<close>)
      then show ?thesis using False True vi pairs by (cases st) simp_all
    next
      case zero: False
      have "nest_pairs ?v1 st ns = nest_pairs v st ns"
        by (rule Cons.IH [OF d]) (use Cons.prems(2) False zero in auto)
      then show ?thesis using False zero vi pairs by simp
    qed
  qed
qed simp


subsection \<open>Splitting at a pair\<close>

fun balanced :: "(nat \<Rightarrow> int) \<Rightarrow> nat \<Rightarrow> nat list \<Rightarrow> bool" where
  "balanced v d [] \<longleftrightarrow> d = 0"
| "balanced v d (i # ns) \<longleftrightarrow>
     (if v i = 1 then balanced v (d + 1) ns
      else if v i = -1 then 0 < d \<and> balanced v (d - 1) ns
      else balanced v d ns)"

lemma balanced_counts: "balanced v d ns \<Longrightarrow> d + heads_of v ns = closers_of v ns"
proof (induction ns arbitrary: d)
  case (Cons i ns)
  show ?case
  proof (cases "v i = -1")
    case True
    then have "0 < d" "d - 1 + heads_of v ns = closers_of v ns" using Cons by simp_all
    then show ?thesis using True by simp
  next
    case False
    then show ?thesis using Cons.IH [of "d + 1"] Cons.IH [of d] Cons.prems by (cases "v i = 1") simp_all
  qed
qed simp

lemma balanced_closers: "balanced v d ns \<Longrightarrow> d \<le> closers_of v ns"
  using balanced_counts by fastforce

lemma nest_pairs_balanced:
  "balanced v (length st1) ns \<Longrightarrow> length st \<le> closers_of v rest \<Longrightarrow>
     nest_pairs v (st1 @ st) (ns @ rest) = nest_pairs v st1 ns @ nest_pairs v st rest"
proof (induction ns arbitrary: st1)
  case (Cons i ns)
  consider (head) "v i = 1" | (closer) "v i = -1" | (other) "v i \<noteq> 1" "v i \<noteq> -1" by blast
  then show ?case
  proof cases
    case head
    then have "balanced v (length (i # st1)) ns" using Cons.prems(1) by simp
    then show ?thesis
      using Cons.IH [of "i # st1"] Cons.prems(2) balanced_closers [of v "length (i # st1)" ns] head by simp
  next
    case closer
    then obtain h st1' where "st1 = h # st1'" "balanced v (length st1') ns"
      using Cons.prems(1) by (cases st1) auto
    then show ?thesis using Cons.IH [of st1'] Cons.prems(2) closer by simp
  next
    case other
    then show ?thesis using Cons by simp
  qed
qed simp

lemma balanced_from_sums:
  assumes "unit_values v"
  shows "l \<le> r \<Longrightarrow> (\<And>q. l \<le> q \<Longrightarrow> q < r \<Longrightarrow> 0 \<le> int d + sum v {l..<Suc q}) \<Longrightarrow> int d + sum v {l..<r} = 0 \<Longrightarrow>
    balanced v d [l..<r]"
proof (induction "r - l" arbitrary: l d)
  case (Suc n)
  then have l: "l < r" "[l..<r] = l # [Suc l..<r]" "n = r - Suc l" by (simp_all add: upt_conv_Cons)
  have split: "sum v {l..<q} = v l + sum v {Suc l..<q}" if "l < q" for q
    using that by (simp add: sum.atLeast_Suc_lessThan)
  have first: "0 \<le> int d + v l" using Suc.prems(2) [of l] l(1) by simp
  define d' where "d' = nat (int d + v l)"
  have "balanced v d' [Suc l..<r]"
  proof (rule Suc.hyps(1) [OF l(3)])
    show "Suc l \<le> r" using l(1) by simp
    show "0 \<le> int d' + sum v {Suc l..<Suc q}" if "Suc l \<le> q" "q < r" for q
      using Suc.prems(2) [of q] that first split [of "Suc q"] by (simp add: d'_def)
    show "int d' + sum v {Suc l..<r} = 0" using Suc.prems(3) first split [OF l(1)] by (simp add: d'_def)
  qed
  moreover have "v l = 1 \<or> v l = 0 \<or> v l = -1" using assms by (simp add: unit_values_def)
  ultimately show ?case using first unfolding l(2) by (auto simp: d'_def nat_add_distrib nat_diff_distrib)
qed simp

lemma first_zero:
  fixes g :: "nat \<Rightarrow> int"
  assumes "0 < g l" "l < r" "g (r - 1) \<le> 0" "\<And>q. l \<le> q \<Longrightarrow> g q - 1 \<le> g (Suc q)"
  obtains p where "l < p" "p < r" "g p = 0" "\<And>q. l \<le> q \<Longrightarrow> q < p \<Longrightarrow> 0 < g q"
proof -
  define p where "p = (LEAST q. l \<le> q \<and> g q \<le> 0)"
  have ex: "l \<le> r - 1 \<and> g (r - 1) \<le> 0" using assms(2,3) by simp
  have p: "l \<le> p" "g p \<le> 0" using LeastI [of "\<lambda>q. l \<le> q \<and> g q \<le> 0", OF ex] by (simp_all add: p_def)
  have least: "0 < g q" if "l \<le> q" "q < p" for q
    using not_less_Least [of q "\<lambda>q. l \<le> q \<and> g q \<le> 0"] that by (fastforce simp: p_def)
  have "p \<le> r - 1" unfolding p_def by (rule Least_le [of "\<lambda>q. l \<le> q \<and> g q \<le> 0", OF ex])
  moreover have "l \<noteq> p" using p(2) assms(1) by auto
  moreover have "g p = 0"
  proof -
    have "l \<le> p - 1" "p - 1 < p" "Suc (p - 1) = p" using p(1) \<open>l \<noteq> p\<close> by simp_all
    then show ?thesis using least [of "p - 1"] assms(4) [of "p - 1"] p(2) by simp
  qed
  ultimately show thesis using that [of p] p(1) least assms(2) by simp
qed

lemma find_upt_Some:
  "find P [lo..<hi] = Some h \<Longrightarrow> lo \<le> h \<and> h < hi \<and> P h \<and> (\<forall>i. lo \<le> i \<longrightarrow> i < h \<longrightarrow> \<not> P i)"
proof (induction "hi - lo" arbitrary: lo)
  case (Suc n)
  then have lo: "lo < hi" "[lo..<hi] = lo # [Suc lo..<hi]" "n = hi - Suc lo" by (simp_all add: upt_conv_Cons)
  show ?case
  proof (cases "P lo")
    case True
    then show ?thesis using lo Suc.prems by simp
  next
    case False
    then have "Suc lo \<le> h \<and> h < hi \<and> P h \<and> (\<forall>i. Suc lo \<le> i \<longrightarrow> i < h \<longrightarrow> \<not> P i)"
      using Suc.hyps(1) [OF lo(3)] lo(2) Suc.prems by simp
    then show ?thesis using False by (metis Suc_leD Suc_leI le_neq_implies_less)
  qed
qed simp

lemma skip_to_first_head:
  "find (\<lambda>i. v i = 1) [lo..<hi] = Some h \<Longrightarrow> nest_pairs v [] [lo..<hi] = nest_pairs v [] [h..<hi]"
proof -
  have "find (\<lambda>i. v i = 1) ns = Some h \<Longrightarrow> nest_pairs v [] ns = nest_pairs v [] (dropWhile (\<lambda>i. v i \<noteq> 1) ns)" for ns
    by (induction ns) auto
  moreover assume f: "find (\<lambda>i. v i = 1) [lo..<hi] = Some h"
  moreover have "dropWhile (\<lambda>i. v i \<noteq> 1) [lo..<hi] = [h..<hi]"
  proof -
    have h: "lo \<le> h" "h < hi" "v h = 1" "\<And>i. lo \<le> i \<Longrightarrow> i < h \<Longrightarrow> v i \<noteq> 1"
      using find_upt_Some [OF f] by auto
    have "[lo..<hi] = [lo..<h] @ [h..<hi]" using h(1,2) upt_add_eq_append [of lo h "hi - h"] by simp
    moreover have "[h..<hi] = h # [Suc h..<hi]" using h(2) by (simp add: upt_conv_Cons)
    ultimately show ?thesis using h(3,4) by (simp add: dropWhile_append3)
  qed
  ultimately show ?thesis by simp
qed

lemma no_head_no_pair: "find (\<lambda>i. v i = 1) [lo..<hi] = None \<Longrightarrow> nest_pairs v [] [lo..<hi] = []"
proof -
  have "find (\<lambda>i. v i = 1) ns = None \<Longrightarrow> nest_pairs v [] ns = []" for ns
    by (induction ns) (auto split: if_splits)
  then show "find (\<lambda>i. v i = 1) [lo..<hi] = None \<Longrightarrow> nest_pairs v [] [lo..<hi] = []" .
qed

text \<open>Where the heads from \<open>h\<close> on are not more than the closers, the window splits at the partner of \<open>h\<close>.\<close>

lemma pair_splits_window:
  assumes "unit_values v" "h < hi" "v h = 1" "heads_of v [h..<hi] \<le> closers_of v [h..<hi]"
  obtains p where "find (\<lambda>p. sum v {h..<Suc p} = 0) [h..<hi] = Some p" "h < p" "p < hi"
    "nest_pairs v [] [h..<hi] = nest_pairs v [] [Suc h..<p] @ (h, p) # nest_pairs v [] [Suc p..<hi]"
proof -
  let ?g = "\<lambda>q. sum v {h..<Suc q}"
  have unit: "v i = 1 \<or> v i = 0 \<or> v i = -1" for i using assms(1) by (simp add: unit_values_def)
  have "sum v {h..<hi} \<le> 0" using sum_is_difference [OF assms(1), of h hi] assms(4) by simp
  then have last: "?g (hi - 1) \<le> 0" using assms(2) by simp
  have step: "?g q - 1 \<le> ?g (Suc q)" if "h \<le> q" for q using unit [of "Suc q"] that by auto
  obtain p where p: "h < p" "p < hi" "?g p = 0" "\<And>q. h \<le> q \<Longrightarrow> q < p \<Longrightarrow> 0 < ?g q"
    using first_zero [of ?g h hi] assms(2,3) last step by auto
  have find: "find (\<lambda>p. ?g p = 0) [h..<hi] = Some p"
    unfolding find_Some_iff
  proof (intro exI [of _ "p - h"] conjI allI impI)
    show "?g ([h..<hi] ! j) \<noteq> 0" if "j < p - h" for j
    proof -
      have j: "[h..<hi] ! j = h + j" "h + j < p" using that p(2) by simp_all
      show ?thesis unfolding j(1) using p(4) [of "h + j"] j(2) by linarith
    qed
  qed (use p in simp_all)
  have split: "sum v {h..<q} = 1 + sum v {Suc h..<q}" if "h < q" for q
    using that assms(3) by (simp add: sum.atLeast_Suc_lessThan)
  have "0 < ?g (p - 1)" using p(1) p(4) [of "p - 1"] by simp
  then have before: "0 < sum v {h..<p}" using p(1) by simp
  have "?g p = sum v {h..<p} + v p" using p(1) by simp
  then have closer: "v p = -1" "sum v {h..<p} = 1" using p(3) before unit [of p] by auto
  have inner: "balanced v 0 [Suc h..<p]"
  proof (rule balanced_from_sums [OF assms(1)])
    show "0 \<le> int 0 + sum v {Suc h..<Suc q}" if "Suc h \<le> q" "q < p" for q
      using p(4) [of q] split [of "Suc q"] that by simp
  qed (use p(1) closer(2) split [OF p(1)] in simp_all)
  let ?rest = "[Suc p..<hi]"
  have lists: "[h..<hi] = h # [Suc h..<p] @ p # ?rest"
    using p(1,2) upt_add_eq_append [of "Suc h" p "hi - p"] by (simp add: upt_conv_Cons)
  have "nest_pairs v [] [h..<hi] = nest_pairs v ([] @ [h]) ([Suc h..<p] @ p # ?rest)"
    using assms(3) closer(1) unfolding lists by simp
  also have "\<dots> = nest_pairs v [] [Suc h..<p] @ nest_pairs v [h] (p # ?rest)"
    by (rule nest_pairs_balanced) (use inner closer(1) in simp_all)
  also have "nest_pairs v [h] (p # ?rest) = (h, p) # nest_pairs v [] ?rest" using closer(1) by simp
  finally show thesis using that [OF find p(1,2)] by simp
qed


subsection \<open>The loop over windows\<close>

fun windows_ok :: "nat \<Rightarrow> nat \<Rightarrow> (nat \<times> nat) list \<Rightarrow> bool" where
  "windows_ok b n [] \<longleftrightarrow> b \<le> n"
| "windows_ok b n (w # ws) \<longleftrightarrow> b \<le> fst w \<and> fst w \<le> snd w \<and> windows_ok (snd w) n ws"

definition window_pairs :: "(nat \<Rightarrow> int) \<Rightarrow> nat \<times> nat \<Rightarrow> (nat \<times> nat) multiset" where
  "window_pairs v w = mset (nest_pairs v [] [fst w..<snd w])"

definition loop_work :: "(nat \<Rightarrow> int) \<Rightarrow> nat \<Rightarrow> (nat \<times> nat) list \<Rightarrow> nat" where
  "loop_work v n ws = sum_list (map (\<lambda>w. snd w - fst w + 1) ws) + heads_of v [0..<n]"

lemma windows_ok_bound: "windows_ok b n ws \<Longrightarrow> b \<le> n"
  by (induction ws arbitrary: b) (auto intro: order.trans)

lemma windows_ok_weaken: "windows_ok b n ws \<Longrightarrow> a \<le> b \<Longrightarrow> windows_ok a n ws"
  by (cases ws) auto

lemma window_pairs_cong:
  "windows_ok b n ws \<Longrightarrow> (\<And>i. b \<le> i \<Longrightarrow> v i = v' i) \<Longrightarrow>
     sum_list (map (window_pairs v) ws) = sum_list (map (window_pairs v') ws)"
proof (induction ws arbitrary: b)
  case (Cons w ws)
  have "nest_pairs v [] [fst w..<snd w] = nest_pairs v' [] [fst w..<snd w]"
    using Cons.prems by (intro nest_pairs_cong) simp
  then have "window_pairs v w = window_pairs v' w" by (simp add: window_pairs_def)
  moreover have "sum_list (map (window_pairs v) ws) = sum_list (map (window_pairs v') ws)"
    using Cons.IH [of "snd w"] Cons.prems by simp
  ultimately show ?case by simp
qed simp

lemma heads_fewer:
  assumes "\<And>i. v' i = v i \<or> v' i = 0 \<and> v i = 1"
  shows "heads_of v' ns \<le> heads_of v ns" "h \<in> set ns \<Longrightarrow> v h = 1 \<Longrightarrow> v' h \<noteq> 1 \<Longrightarrow> heads_of v' ns < heads_of v ns"
proof -
  show le: "heads_of v' ns \<le> heads_of v ns" for ns
  proof (induction ns)
    case (Cons i ns)
    then show ?case using assms [of i] by auto
  qed simp
  show "h \<in> set ns \<Longrightarrow> v h = 1 \<Longrightarrow> v' h \<noteq> 1 \<Longrightarrow> heads_of v' ns < heads_of v ns"
  proof (induction ns)
    case (Cons i ns)
    show ?case
    proof (cases "i = h")
      case True
      then show ?thesis using Cons.prems le [of ns] by simp
    next
      case False
      then show ?thesis using Cons assms [of i] by auto
    qed
  qed simp
qed

lemma skip_no_heads: "list_all (\<lambda>i. v i \<noteq> 1) ns \<Longrightarrow> nest_pairs v [] (ns @ ms) = nest_pairs v [] ms"
  by (induction ns) auto

definition trimmed_values :: "(nat \<Rightarrow> int) \<Rightarrow> nat \<Rightarrow> nat \<Rightarrow> nat \<Rightarrow> int" where
  "trimmed_values v h hi =
     (if heads_of v [h..<hi] > closers_of v [h..<hi]
      then kill_values (rev [h..<hi]) (heads_of v [h..<hi] - closers_of v [h..<hi]) v else v)"

lemma trimmed_values_facts:
  assumes "unit_values v"
  shows "unit_values (trimmed_values v h hi)"
    "trimmed_values v h hi i = v i \<or> trimmed_values v h hi i = 0 \<and> v i = 1"
    "i < h \<or> hi \<le> i \<Longrightarrow> trimmed_values v h hi i = v i"
    "nest_pairs (trimmed_values v h hi) [] [h..<hi] = nest_pairs v [] [h..<hi]"
    "heads_of (trimmed_values v h hi) [h..<hi] \<le> closers_of (trimmed_values v h hi) [h..<hi]"
proof -
  let ?m = "heads_of v [h..<hi] - closers_of v [h..<hi]"
  show "unit_values (trimmed_values v h hi)" using assms by (simp add: trimmed_values_def kill_values_unit)
  show "trimmed_values v h hi i = v i \<or> trimmed_values v h hi i = 0 \<and> v i = 1"
    using kill_values_cases by (simp add: trimmed_values_def)
  show "i < h \<or> hi \<le> i \<Longrightarrow> trimmed_values v h hi i = v i"
    using kill_values_other [of i "rev [h..<hi]"] by (auto simp: trimmed_values_def)
  show "nest_pairs (trimmed_values v h hi) [] [h..<hi] = nest_pairs v [] [h..<hi]"
    using nest_pairs_without_excess [of "[h..<hi]" ?m v "[]"] by (simp add: trimmed_values_def)
  show "heads_of (trimmed_values v h hi) [h..<hi] \<le> closers_of (trimmed_values v h hi) [h..<hi]"
    using kill_values_heads [of "rev [h..<hi]" ?m v] by (simp add: trimmed_values_def)
qed

lemma nest_loop_step:
  assumes "represents t v" "unit_values v" "hi \<le> nt_size t" "first_head t lo hi = Some h"
  obtains t' where "represents t' (trimmed_values v h hi)" "nt_size t' = nt_size t" "lo \<le> h" "h < hi" "v h = 1"
    "nest_loop stack lo hi t out =
      (if trimmed_values v h hi h \<noteq> 1 then nest_loop stack lo hi t' out
       else case find (\<lambda>p. sum (trimmed_values v h hi) {h..<Suc p} = 0) [h..<hi] of
              None \<Rightarrow> nest_loop stack lo hi (nest_kill h t') out
            | Some p \<Rightarrow> nest_loop (if p + 1 < hi then (p + 1, hi) # stack else stack) (h + 1) p t' (out @ [(h, p)]))"
proof -
  have h: "lo \<le> h" "h < hi" "v h = 1"
    using find_upt_Some [of "\<lambda>i. v i = 1" lo hi h] assms(4) first_head_exact [OF assms(1,3)] by simp_all
  have counts: "range_heads t h hi = heads_of v [h..<hi]" "range_closers t h hi = closers_of v [h..<hi]"
    using range_exact [OF assms(1), of h hi] h(2) assms(3) by (simp_all add: sums_are_counts)
  let ?more = "heads_of v [h..<hi] > closers_of v [h..<hi]"
  define t' where "t' = (if ?more then kill_excess (rev [h..<hi]) (heads_of v [h..<hi] - closers_of v [h..<hi]) t else t)"
  have "list_all (\<lambda>k. k < nt_size t) (rev [h..<hi])" using assms(3) by (auto simp: list_all_iff)
  then have t': "represents t' (trimmed_values v h hi)" "nt_size t' = nt_size t"
    using kill_excess_represents [OF assms(1)] assms(1) by (simp_all add: t'_def trimmed_values_def)
  have alive: "is_alive_head t' h \<longleftrightarrow> trimmed_values v h hi h = 1"
    using is_alive_head_exact [OF t'(1), of h] t'(2) h(2) assms(3) by simp
  have same: "\<not> ?more \<Longrightarrow> trimmed_values v h hi h = 1" using h(3) by (simp add: trimmed_values_def)
  have bal: "balance t' h hi = find (\<lambda>p. sum (trimmed_values v h hi) {h..<Suc p} = 0) [h..<hi]"
    using balance_exact [OF t'(1), of h hi] t'(2) h(2) assms(3) by simp
  have "nest_loop stack lo hi t out =
      (if ?more \<and> \<not> is_alive_head t' h then nest_loop stack lo hi t' out
       else case balance t' h hi of
              None \<Rightarrow> nest_loop stack lo hi (nest_kill h t') out
            | Some p \<Rightarrow> nest_loop (if p + 1 < hi then (p + 1, hi) # stack else stack) (h + 1) p t' (out @ [(h, p)]))"
    by (subst nest_loop.simps) (simp only: assms(4) option.case Let_def counts t'_def)
  also have "(?more \<and> \<not> is_alive_head t' h) \<longleftrightarrow> trimmed_values v h hi h \<noteq> 1" using alive same by blast
  finally show thesis unfolding bal by (rule that [OF t' h])
qed

lemma nest_loop_exact:
  "represents t v \<Longrightarrow> unit_values v \<Longrightarrow> n \<le> nt_size t \<Longrightarrow> lo \<le> hi \<Longrightarrow> windows_ok hi n stack \<Longrightarrow>
     loop_work v n ((lo, hi) # stack) = k \<Longrightarrow>
     \<exists>out'. nest_loop stack lo hi t out = Some out' \<and>
       mset out' = mset out + sum_list (map (window_pairs v) ((lo, hi) # stack))"
proof (induction k arbitrary: t v lo hi stack out rule: less_induct)
  case (less k)
  note prems = less.prems
  have hi: "hi \<le> n" "hi \<le> nt_size t" using windows_ok_bound [OF prems(5)] prems(3) by simp_all
  show ?case
  proof (cases "first_head t lo hi")
    case None
    then have none: "window_pairs v (lo, hi) = {#}"
      using no_head_no_pair [of v lo hi] first_head_exact [OF prems(1) hi(2)] by (simp add: window_pairs_def)
    show ?thesis
    proof (cases stack)
      case Nil
      have "nest_loop stack lo hi t out = Some out" by (subst nest_loop.simps) (simp add: None Nil)
      then show ?thesis using none Nil by simp
    next
      case (Cons w rest)
      have step: "nest_loop stack lo hi t out = nest_loop rest (fst w) (snd w) t out"
        by (subst nest_loop.simps) (simp add: None Cons)
      have "loop_work v n ((fst w, snd w) # rest) < k" using prems(6) Cons by (auto simp: loop_work_def)
      then have "\<exists>out'. nest_loop rest (fst w) (snd w) t out = Some out' \<and>
          mset out' = mset out + sum_list (map (window_pairs v) ((fst w, snd w) # rest))"
        by (rule less.IH [OF _ prems(1,2,3) _ _ refl]) (use prems(5) Cons in simp_all)
      then show ?thesis using Cons step none by simp
    qed
  next
    case (Some h)
    let ?v = "trimmed_values v h hi"
    obtain t' where t': "represents t' ?v" "nt_size t' = nt_size t" and h: "lo \<le> h" "h < hi" "v h = 1"
      and step: "nest_loop stack lo hi t out =
        (if ?v h \<noteq> 1 then nest_loop stack lo hi t' out
         else case find (\<lambda>p. sum ?v {h..<Suc p} = 0) [h..<hi] of
              None \<Rightarrow> nest_loop stack lo hi (nest_kill h t') out
            | Some p \<Rightarrow> nest_loop (if p + 1 < hi then (p + 1, hi) # stack else stack) (h + 1) p t' (out @ [(h, p)]))"
      by (rule nest_loop_step [OF prems(1,2) hi(2) Some])
    note v' = trimmed_values_facts [OF prems(2)]
    have n: "n \<le> nt_size t'" using prems(3) t'(2) by simp
    have others: "sum_list (map (window_pairs ?v) stack) = sum_list (map (window_pairs v) stack)"
      by (rule window_pairs_cong [OF prems(5)]) (simp add: v'(3))
    have find: "find (\<lambda>i. v i = 1) [lo..<hi] = Some h" using Some first_head_exact [OF prems(1) hi(2)] by simp
    have window: "nest_pairs v [] [lo..<hi] = nest_pairs ?v [] [h..<hi]" using skip_to_first_head [OF find] v'(4) by simp
    show ?thesis
    proof (cases "?v h = 1")
      case False
      have "heads_of ?v [0..<n] < heads_of v [0..<n]" using heads_fewer(2) [of ?v v h "[0..<n]"] v'(2) h hi False by simp
      then have less_work: "loop_work ?v n ((lo, hi) # stack) < k" using prems(6) by (simp add: loop_work_def)
      have "[lo..<hi] = [lo..<h] @ [h..<hi]" using h upt_add_eq_append [of lo h "hi - h"] by simp
      moreover have "list_all (\<lambda>i. ?v i \<noteq> 1) [lo..<h]"
        using find_upt_Some [OF find] v'(3) by (simp add: list_all_iff)
      ultimately have "window_pairs ?v (lo, hi) = window_pairs v (lo, hi)"
        using window skip_no_heads [of ?v] by (simp add: window_pairs_def)
      then show ?thesis
        using less.IH [OF less_work t'(1) v'(1) n prems(4,5) refl, of out] step False others by simp
    next
      case True
      obtain p where p: "find (\<lambda>p. sum ?v {h..<Suc p} = 0) [h..<hi] = Some p" "h < p" "p < hi"
        "nest_pairs ?v [] [h..<hi] = nest_pairs ?v [] [Suc h..<p] @ (h, p) # nest_pairs ?v [] [Suc p..<hi]"
        by (rule pair_splits_window [OF v'(1) h(2) True v'(5)])
      let ?stack = "if p + 1 < hi then (p + 1, hi) # stack else stack"
      have ok: "windows_ok p n ?stack" using prems(5) p(3) windows_ok_weaken [of hi n stack p] by simp
      have "heads_of ?v [0..<n] \<le> heads_of v [0..<n]" using heads_fewer(1) [of ?v v] v'(2) by blast
      then have less_work: "loop_work ?v n ((h + 1, p) # ?stack) < k"
        using prems(6) h(1,2) p(2,3) by (auto simp: loop_work_def)
      have "sum_list (map (window_pairs ?v) ?stack) = window_pairs ?v (p + 1, hi) + sum_list (map (window_pairs ?v) stack)"
        using p(3) by (auto simp: window_pairs_def)
      moreover have "window_pairs v (lo, hi) = window_pairs ?v (h + 1, p) + window_pairs ?v (p + 1, hi) + {#(h, p)#}"
        using window p(4) by (simp add: window_pairs_def)
      ultimately have total: "mset (out @ [(h, p)]) + sum_list (map (window_pairs ?v) ((h + 1, p) # ?stack)) =
          mset out + sum_list (map (window_pairs v) ((lo, hi) # stack))"
        using others by (simp add: ac_simps)
      have "nest_loop stack lo hi t out = nest_loop ?stack (h + 1) p t' (out @ [(h, p)])" using step True p(1) by simp
      moreover have "\<exists>out'. nest_loop ?stack (h + 1) p t' (out @ [(h, p)]) = Some out' \<and>
          mset out' = mset (out @ [(h, p)]) + sum_list (map (window_pairs ?v) ((h + 1, p) # ?stack))"
        by (rule less.IH [OF less_work t'(1) v'(1) n _ ok refl]) (use p(2) in simp)
      ultimately show ?thesis unfolding total by simp
    qed
  qed
qed

text \<open>
  C40: Pairing over the tree ends and finds exactly the pairs of one pass from left to right with a
  stack of open heads, where a head is opened only if more closers follow than heads are open.
\<close>

theorem pair_nest_exact:
  "\<exists>pairs. pair_nest evs = Some pairs \<and> mset pairs = mset (nest_pairs (event_values evs) [] [0..<length evs])"
proof -
  have unit: "unit_values (event_values evs)" by (simp add: unit_values_def event_values_def event_value_def)
  show ?thesis
    using nest_loop_exact [OF nest_tree_new_represents(1) [of evs] unit nest_tree_new_represents(2), of 0 "length evs" "[]" _ "[]"]
    by (simp add: pair_nest_def window_pairs_def)
qed

end
