(* ===== verification/Spec2Isabelle.thy ===== *)
theory Spec2Isabelle
  imports Prelude Non_Empty_Vec Depth Token Scanner Token_Shapes Lexer Tokenizer Indices Url Escapes
    Attributes Arguments Expression Text_Ranges Page_Ref Include_Parse Include_Values Includes Include_Pass
    Code_Blocks Literal Literal_Index Parser_Functions Function_Pass Function_Values
    Calendar Dates Raw_Escapes Date_Block Parser_State
    Div_Stream Scan_Slots Body_Ends Parse_Error Closer_Scan Parser_Cursor
    Bibliography Shared_Items Rule_Attempt Attempt_Memos Elision Segments
    Nest_Tree Block_Pairing
begin

text \<open>
  A verification library for \<open>ftml\<close>, the parser and renderer of Wikidot text.  Paths are relative
  to \<open>src/src/\<close>.

  The program.  A page is preprocessed (\<open>preproc/\<close>, \<open>includes/\<close>), split into tokens
  (\<open>parsing/token/\<close>, \<open>tokenizer.rs\<close>, with slots for generated text described by \<open>delayed.rs\<close>),
  parsed by rules into a tree of elements (\<open>parsing/\<close>, \<open>tree/\<close>) and rendered (\<open>render/\<close>).  The library
  models the deterministic cores of these stages: the lexer and the tokenizer, the conversion of
  indices, the builder of nested lists, the evaluator of expressions, the arguments and attributes
  of blocks, the inclusion of pages, the normalization of URLs and the escapes of the renderer.

  Conventions.  A Rust \<open>str\<close> is a list of bytes (\<open>char\<close> of HOL) that satisfies \<open>valid_utf8\<close>; \<open>chars\<close>
  are its characters and \<open>boundary\<close> is \<open>is_char_boundary\<close>.  A panic is \<open>None\<close>, an error of the
  program is \<open>Inl\<close>, its result \<open>Inr\<close>; where both occur the option is outside.  Offsets into texts in
  memory are \<open>nat\<close>: they are bounded by lengths, which the lemmas show.  Code outside the
  repository is a parameter: the class of word characters beyond ASCII (\<open>word\<close>), the site URL
  builder, the parsers of typed arguments, the slug normalization, the includer of the caller (locales
  \<open>honest_includer\<close>, \<open>answering_includer\<close>) and the operations on \<open>f64\<close>.

  Theories.
  \<^item> \<open>Prelude\<close>: bytes, slices, UTF-8, ASCII case, searching and trimming.
  \<^item> \<open>Token\<close>, \<open>Scanner\<close>, \<open>Token_Shapes\<close>, \<open>Lexer\<close>: \<open>parsing/token/mod.rs\<close> and \<open>scanner.rs\<close>.  Each scanner
    advances over whole characters (\<open>advances\<close>), so the loop of \<open>extract_all\<close> ends and its tokens
    tile the text; \<open>Token_Shapes\<close> states what the slice of each kind looks like; the cursor over
    comment closers is shown to be exact and linear.
  \<^item> \<open>Tokenizer\<close>: \<open>tokenizer.rs\<close> and the segments of \<open>delayed.rs\<close>: validation of delayed input,
    conservation of the segments, runtime values never lexed.
  \<^item> \<open>Indices\<close>: \<open>utf16.rs\<close>, \<open>text.rs\<close>, \<open>next_index.rs\<close> (locale \<open>next_index\<close>), \<open>id_prefix.rs\<close>.
  \<^item> \<open>Non_Empty_Vec\<close> (locale \<open>layer_stack\<close>), \<open>Depth\<close>: \<open>non_empty_vec.rs\<close>, \<open>parsing/depth.rs\<close>; reading
    the trees back gives the lines.
  \<^item> \<open>Url\<close>: \<open>url.rs\<close>.  \<open>Escapes\<close>: \<open>render/html/escape.rs\<close>, \<open>parsing/string.rs\<close>.
  \<^item> \<open>Attributes\<close>: \<open>tree/attribute/\<close>, \<open>parsing/boolean.rs\<close>; the invariant \<open>attr_inv\<close> of every map.
  \<^item> \<open>Arguments\<close>: \<open>parsing/rule/impls/block/arguments.rs\<close> (locale \<open>keyed_store\<close> for the hash maps whose
    keys compare without case).
  \<^item> \<open>Expression\<close>: \<open>preproc/parser_functions/expression.rs\<close>.
  \<^item> \<open>Text_Ranges\<close>: replacing collected ranges from the last to the first, the way the passes over a
    source rewrite it, equals splicing once from left to right.
  \<^item> \<open>Page_Ref\<close>: \<open>data/page_ref.rs\<close>.  \<open>Include_Parse\<close>: \<open>includes/parse.rs\<close>, \<open>include_ref.rs\<close> and the grammar
    \<open>grammar.pest\<close>, with the bound on the resolved arguments; \<open>Include_Values\<close>: every cut they make is
    at a character boundary.
  \<^item> \<open>Includes\<close>: the search of \<open>includes/mod.rs\<close> with \<open>quoted.rs\<close> and the includers; the ranges found are
    disjoint and in order.  \<open>Include_Pass\<close>: the substitution of variables and pages.

  \<^item> \<open>Code_Blocks\<close>: \<open>wikidot_code.rs\<close>; its two memos answer what a fresh search would.  \<open>Literal\<close>,
    \<open>Literal_Index\<close>: \<open>preproc/parser_functions/literal.rs\<close>, the regions that preprocessing leaves alone.
  \<^item> \<open>Parser_Functions\<close>, \<open>Function_Pass\<close>, \<open>Function_Values\<close>: \<open>preproc/parser_functions/mod.rs\<close>, its definitions,
    the safety of the pass, and the value of a simple conditional.
  \<^item> \<open>Calendar\<close>, \<open>Dates\<close>: \<open>tree/date/mod.rs\<close>; the civil date is that of the proleptic Gregorian calendar, a
    format is rendered piece by piece.  The texts of the \<open>icu\<close> crates and the calendar of \<open>time\<close> are
    parameters.  \<open>Date_Block\<close>: \<open>blocks/date.rs\<close> and \<open>render/html/element/date.rs\<close>.
  \<^item> \<open>Raw_Escapes\<close>: \<open>wikidot_raw_escape.rs\<close> and the attribute values that \<open>block/parser.rs\<close> makes with it.
  \<^item> \<open>Parser_State\<close>: \<open>parsing/parser/wikidot_state.rs\<close>, the counters, flags and packed fields that the parser
    carries through the bodies of Wikidot blocks, as machine words; \<open>Div_Stream\<close>: \<open>compute_wikidot_div_stream_marks\<close>
    of the same file, one pass over the divs of a source against a scan for each opener.
  \<^item> \<open>Scan_Slots\<close>: the forward scans of \<open>parsing/parser.rs\<close> that remember their last answer (locale
    \<open>monotone_slot\<close>, interpreted on each scan); the memory cannot be observed.
  \<^item> \<open>Body_Ends\<close>: \<open>parsing/body_end.rs\<close>, \<open>parsing/hidden_body.rs\<close>.  \<open>Parse_Error\<close>: \<open>parsing/error.rs\<close>.
    \<open>Closer_Scan\<close>: \<open>parsing/parser/closer_scan.rs\<close>, the scan for the closer of an inline element with its
    memo of absent closers.
  \<^item> \<open>Parser_Cursor\<close>: the fields that each clone of the parser owns, its steps and its quoted bodies
    (\<open>parsing/parser.rs\<close>, \<open>parsing/check_step.rs\<close>).
  \<^item> \<open>Bibliography\<close>: \<open>tree/bibliography.rs\<close>; the index against the list of entries.  \<open>Shared_Items\<close>: what all
    clones share (\<open>parsing/parser.rs\<close>) and how a speculative parse is rolled back (locale \<open>rollback_journal\<close>);
    the operations that outlive a reset are named (\<open>item_outlives\<close>), and the rest is undone exactly.
  \<^item> \<open>Rule_Attempt\<close>, \<open>Attempt_Memos\<close>: \<open>parsing/rule/mod.rs\<close>, \<open>parsing/result.rs\<close>, \<open>tree/partial.rs\<close> and the memos of
    \<open>parsing/parser.rs\<close>.  \<open>Rule::try_consume\<close> is modelled over any function of a rule; \<open>journaled\<close> rules use the
    operations of \<open>Shared_Items\<close> only, and sequences, attempts and resets of such rules are journaled.  The
    memo of failures is compared with a log of what was recorded; that equal keys mean equal outcomes of a
    rule is a matter of all rules and is not claimed.
  \<^item> \<open>Elision\<close>, \<open>Segments\<close>: \<open>parsing/element_condition.rs\<close>, \<open>parsing/collect/iftags.rs\<close>, \<open>parsing/collect/comment.rs\<close>,
    \<open>blocks/iftags.rs\<close>: the conditional segments of a line and the text without the ranges they elide.
  \<^item> \<open>Nest_Tree\<close>, \<open>Block_Pairing\<close>: \<open>parsing/parser/block_pairs.rs\<close>; the pairing of nesting blocks over a segment
    tree against one pass with a stack.

  Bounds and fuel.  The only fuel is that of \<open>Expression\<close>: \<open>10 * (length + 1)\<close>.  A call of a method
  either moves the offset or descends at most nine levels of precedence (\<open>rank\<close>), so
  \<open>10 * (bytes left) + rank\<close> decreases; \<open>evaluate_total\<close> and \<open>fuel_irrelevant\<close> show that the fuel
  suffices and that more changes nothing.

  Not modelled.  The table of rules and the rules themselves but for the arguments, dates, raw escapes and
  conditional segments, the collectors, inline scopes and paragraphs (\<open>parsing/consume.rs\<close>,
  \<open>parsing/inline_scope.rs\<close>, \<open>parsing/paragraph/\<close>, \<open>parsing/rule/\<close>): they build the tree of elements and read the
  whole mutable state of the parser, of which only the parts above are modelled.  The tree of elements and the
  renderers but for the escapes; the preprocessing passes but for parser functions and includes (typography is
  a rewrite by a regular-expression engine that is not part of the repository; comments, whitespace and
  compatibility are left out); the highlighting tables; the bindings to WebAssembly.  Logging and the recording of sources for tests have no effect on results.
\<close>

end
